(* ===== verification/Common.thy ===== *)
theory Common
  imports Main "HOL-Library.Word" "HOL-Library.Char_ord"
begin

text \<open>
  What every component theory shares: the names of the C integer types, unsigned
  \<open>size_t\<close> subtraction, reads and writes of byte ranges, the big- and little-endian
  integer codecs that the wire formats use, the C locale's character classes, and the
  lemma collections \<open>codec\<close> (round trips of byte codecs) and \<open>range\<close> (lengths and
  extents of byte ranges) that the component proofs pass to the simplifier.
\<close>

unbundle bit_operations_syntax

named_theorems codec "round trips of the byte codecs"
named_theorems range "lengths and extents of byte ranges"

section \<open>C integer types\<close>

type_synonym u8 = "8 word"
type_synonym u16 = "16 word"
type_synonym u32 = "32 word"
type_synonym u64 = "64 word"
type_synonym bytes = "8 word list"

text \<open>A \<open>size_t\<close> is a natural number below \<open>2 ^ 64\<close>; its subtraction wraps around.\<close>

definition size_sub :: "nat \<Rightarrow> nat \<Rightarrow> nat" where
  "size_sub a b = (if b \<le> a then a - b else 2 ^ 64 + a - b)"

lemma size_sub_le [simp]: "b \<le> a \<Longrightarrow> size_sub a b = a - b"
  by (simp add: size_sub_def)

definition INT_MAX :: nat where "INT_MAX = 2147483647"

lemma unat_u8_less: "unat (v :: u8) < 256"
  by (rule order.strict_trans2 [OF unsigned_less]) simp

lemma unat_u16_less: "unat (v :: u16) < 65536"
  by (rule order.strict_trans2 [OF unsigned_less]) simp

lemma unat_u32_less: "unat (v :: u32) < 4294967296"
  by (rule order.strict_trans2 [OF unsigned_less]) simp

lemma unat_u64_less: "unat (v :: u64) < 18446744073709551616"
  by (rule order.strict_trans2 [OF unsigned_less]) simp

section \<open>Byte ranges\<close>

text \<open>
  \<open>write_at off bs mem\<close> is what \<open>memcpy(mem + off, bs, n)\<close> leaves in \<open>mem\<close>, and
  \<open>slice off n mem\<close> the \<open>n\<close> bytes from \<open>off\<close> on.
\<close>

definition write_at :: "nat \<Rightarrow> 'a list \<Rightarrow> 'a list \<Rightarrow> 'a list" where
  "write_at off bs mem = take off mem @ bs @ drop (off + length bs) mem"

definition slice :: "nat \<Rightarrow> nat \<Rightarrow> 'a list \<Rightarrow> 'a list" where
  "slice off n mem = take n (drop off mem)"

lemma length_write_at [simp, range]:
  "off + length bs \<le> length mem \<Longrightarrow> length (write_at off bs mem) = length mem"
  by (simp add: write_at_def)

lemma length_slice [simp, range]: "off + n \<le> length mem \<Longrightarrow> length (slice off n mem) = n"
  by (simp add: slice_def)

lemma write_at_append [range]:
  "off = length xs \<Longrightarrow> write_at off ys (xs @ zs) = xs @ ys @ drop (length ys) zs"
  by (simp add: write_at_def)

lemma take_write_at [range]:
  "off + length bs \<le> length mem \<Longrightarrow>
   take (off + length bs) (write_at off bs mem) = take off mem @ bs"
  by (simp add: write_at_def)

lemma take_write_at_before [range]:
  "n \<le> off \<Longrightarrow> off \<le> length mem \<Longrightarrow> take n (write_at off bs mem) = take n mem"
  by (simp add: write_at_def)

lemma slice_write_at [range]:
  "off \<le> length mem \<Longrightarrow> slice off (length bs) (write_at off bs mem) = bs"
  by (simp add: write_at_def slice_def)

lemma slice_append_left [range]:
  "off + n \<le> length xs \<Longrightarrow> slice off n (xs @ ys) = slice off n xs"
  by (simp add: slice_def)

lemma slice_append_right [range]:
  "length xs \<le> off \<Longrightarrow> slice off n (xs @ ys) = slice (off - length xs) n ys"
  by (simp add: slice_def)

lemma slice_zero_prefix [range]: "length xs = n \<Longrightarrow> slice 0 n (xs @ ys) = xs"
  by (simp add: slice_def)

lemma slice_whole [simp, range]: "length xs = n \<Longrightarrow> slice 0 n xs = xs"
  by (simp add: slice_def)

lemma take_drop_split [range]:
  "k \<le> m - c \<Longrightarrow>
   take (m - c) (drop c xs) = take k (drop c xs) @ take (m - (c + k)) (drop (c + k) xs)"
proof -
  assume "k \<le> m - c"
  then have "k + (m - (c + k)) = m - c" by arith
  then show ?thesis
    using take_add [of k "m - (c + k)" "drop c xs"] by (simp add: add.commute)
qed

lemma slice_nil [simp]: "slice off 0 xs = []"
  by (simp add: slice_def)

section \<open>Fixed-width integers on the wire\<close>

definition put_be16 :: "u16 \<Rightarrow> bytes" where
  "put_be16 v = [ucast (drop_bit 8 v), ucast v]"

definition get_be16 :: "bytes \<Rightarrow> u16" where
  "get_be16 bs = push_bit 8 (ucast (bs ! 0)) OR ucast (bs ! 1)"

definition put_be32 :: "u32 \<Rightarrow> bytes" where
  "put_be32 v = [ucast (drop_bit 24 v), ucast (drop_bit 16 v), ucast (drop_bit 8 v), ucast v]"

definition get_be32 :: "bytes \<Rightarrow> u32" where
  "get_be32 bs = push_bit 24 (ucast (bs ! 0)) OR push_bit 16 (ucast (bs ! 1)) OR
                 push_bit 8 (ucast (bs ! 2)) OR ucast (bs ! 3)"

definition put_be64 :: "u64 \<Rightarrow> bytes" where
  "put_be64 v = map (\<lambda>i. ucast (drop_bit (8 * (7 - i)) v)) [0..<8]"

definition get_be64 :: "bytes \<Rightarrow> u64" where
  "get_be64 bs = foldl (\<lambda>v b. push_bit 8 v OR ucast b) 0 (take 8 bs)"

definition put_le64 :: "u64 \<Rightarrow> bytes" where
  "put_le64 v = map (\<lambda>i. ucast (drop_bit (8 * i) v)) [0..<8]"

definition get_le64 :: "bytes \<Rightarrow> u64" where
  "get_le64 bs = foldl (\<lambda>v b. push_bit 8 v OR ucast b) 0 (rev (take 8 bs))"

lemma length_put_be16 [simp, range]: "length (put_be16 v) = 2"
  by (simp add: put_be16_def)

lemma get_put_be16 [simp, codec]: "get_be16 (put_be16 v @ rest) = v" "get_be16 (put_be16 v) = v"
  unfolding get_be16_def put_be16_def by (rule bit_word_eqI, auto simp: bit_simps dest: bit_imp_le_length)+

lemma length_put_be32 [simp, range]: "length (put_be32 v) = 4"
  by (simp add: put_be32_def)

lemma length_put_be64 [simp, range]: "length (put_be64 v) = 8"
  by (simp add: put_be64_def)

lemma length_put_le64 [simp, range]: "length (put_le64 v) = 8"
  by (simp add: put_le64_def)

lemma get_put_be32 [simp, codec]: "get_be32 (put_be32 v @ rest) = v"
proof (rule bit_word_eqI)
  fix n assume "n < LENGTH(32)"
  then consider "n < 8" | "8 \<le> n" "n < 16" | "16 \<le> n" "n < 24" | "24 \<le> n" "n < 32"
    by fastforce
  then show "bit (get_be32 (put_be32 v @ rest)) n = bit v n"
    by cases (auto simp: get_be32_def put_be32_def bit_simps)
qed

lemma get_put_be32_exact [simp, codec]: "get_be32 (put_be32 v) = v"
  using get_put_be32 [of v "[]"] by simp

lemma get_be32_take: "4 \<le> length bs \<Longrightarrow> get_be32 (take 4 bs) = get_be32 bs"
  by (simp add: get_be32_def)

lemma upt8: "[0..<8] = [0, 1, 2, 3, 4, 5, 6, 7::nat]"
  by (simp add: upt_rec)

text \<open>One step of the shift-and-or loops: the next octet joins the ones already read.\<close>

lemma octet_join:
  "push_bit 8 (drop_bit (k + 8) v) OR ucast (ucast (drop_bit k v) :: u8) = drop_bit k (v :: u64)"
proof (rule bit_word_eqI)
  fix n assume "n < LENGTH(64)"
  then show "bit (push_bit 8 (drop_bit (k + 8) v) OR ucast (ucast (drop_bit k v) :: u8)) n =
        bit (drop_bit k v) n"
    by (cases "n < 8") (auto simp: bit_simps)
qed

lemma top_octet: "ucast (ucast (drop_bit 56 v) :: u8) = drop_bit 56 (v :: u64)"
proof (rule bit_word_eqI)
  fix n assume "n < LENGTH(64)"
  then show "bit (ucast (ucast (drop_bit 56 v) :: u8) :: u64) n = bit (drop_bit 56 v) n"
    by (auto simp: bit_simps dest: bit_imp_le_length)
qed

lemmas octet_joins = octet_join [of 48, simplified] octet_join [of 40, simplified]
  octet_join [of 32, simplified] octet_join [of 24, simplified] octet_join [of 16, simplified]
  octet_join [of 8, simplified] octet_join [of 0, simplified]

lemma get_put_be64_exact [simp, codec]: "get_be64 (put_be64 v) = v"
  unfolding get_be64_def put_be64_def upt8 by (simp add: top_octet octet_joins)

lemma get_put_le64_exact [simp, codec]: "get_le64 (put_le64 v) = v"
  unfolding get_le64_def put_le64_def upt8 by (simp add: top_octet octet_joins)

text \<open>Reading and writing back: every octet sequence of the right length is a code word.\<close>

lemma put_get_be32 [codec]: "length bs = 4 \<Longrightarrow> put_be32 (get_be32 bs) = bs"
proof -
  assume "length bs = 4"
  then obtain a b c d where bs: "bs = [a, b, c, d]"
    by (auto simp: length_Suc_conv eval_nat_numeral)
  have "ucast (drop_bit 24 (get_be32 bs)) = a" "ucast (drop_bit 16 (get_be32 bs)) = b"
    "ucast (drop_bit 8 (get_be32 bs)) = c" "ucast (get_be32 bs) = d"
    by (rule bit_word_eqI; auto simp: bs get_be32_def bit_simps dest: bit_imp_le_length)+
  then show ?thesis by (simp add: put_be32_def bs)
qed

lemma put_get_be64 [codec]: "length bs = 8 \<Longrightarrow> put_be64 (get_be64 bs) = bs"
proof -
  assume "length bs = 8"
  then obtain a b c d e f g h where bs: "bs = [a, b, c, d, e, f, g, h]"
    by (auto simp: length_Suc_conv eval_nat_numeral)
  let ?v = "get_be64 bs"
  have "ucast (drop_bit 56 ?v) = a" "ucast (drop_bit 48 ?v) = b" "ucast (drop_bit 40 ?v) = c"
    "ucast (drop_bit 32 ?v) = d" "ucast (drop_bit 24 ?v) = e" "ucast (drop_bit 16 ?v) = f"
    "ucast (drop_bit 8 ?v) = g" "ucast ?v = h"
    by (rule bit_word_eqI; auto simp: bs get_be64_def bit_simps dest: bit_imp_le_length)+
  then show ?thesis by (simp add: put_be64_def bs upt8)
qed

section \<open>C strings\<close>

text \<open>
  A C string is the list of its characters before the terminating NUL, which is
  \<open>CHR 0x00\<close> and does not occur in the list. \<open>copy_text n s\<close> is what \<open>snprintf\<close> with
  \<open>"%s"\<close> leaves in a buffer of \<open>n > 0\<close> bytes, and \<open>cut_last c s\<close> is what is left when a
  NUL is written over the last \<open>c\<close> that \<open>strrchr\<close> finds, None if there is none.
\<close>

definition copy_text :: "nat \<Rightarrow> string \<Rightarrow> string" where
  "copy_text n s = take (n - 1) s"

definition cut_last :: "char \<Rightarrow> string \<Rightarrow> string option" where
  "cut_last c s =
     (if c \<in> set s then Some (rev (tl (dropWhile (\<lambda>x. x \<noteq> c) (rev s)))) else None)"

lemma copy_text_short [simp]: "length s < n \<Longrightarrow> copy_text n s = s"
  by (simp add: copy_text_def)

lemma length_copy_text [range]: "0 < n \<Longrightarrow> length (copy_text n s) < n"
  by (simp add: copy_text_def)

text \<open>Character classes of the C locale, on the values of an unsigned char.\<close>

definition c_isdigit :: "char \<Rightarrow> bool" where
  "c_isdigit c \<longleftrightarrow> CHR ''0'' \<le> c \<and> c \<le> CHR ''9''"

definition c_islower :: "char \<Rightarrow> bool" where
  "c_islower c \<longleftrightarrow> CHR ''a'' \<le> c \<and> c \<le> CHR ''z''"

definition c_isupper :: "char \<Rightarrow> bool" where
  "c_isupper c \<longleftrightarrow> CHR ''A'' \<le> c \<and> c \<le> CHR ''Z''"

definition c_isalnum :: "char \<Rightarrow> bool" where
  "c_isalnum c \<longleftrightarrow> c_isdigit c \<or> c_islower c \<or> c_isupper c"

definition c_isspace :: "char \<Rightarrow> bool" where
  "c_isspace c \<longleftrightarrow> c \<in> {CHR '' '', CHR 0x09, CHR 0x0A, CHR 0x0B, CHR 0x0C, CHR 0x0D}"

definition c_tolower :: "char \<Rightarrow> char" where
  "c_tolower c = (if c_isupper c then char_of (of_char c + 32 :: nat) else c)"

definition c_toupper :: "char \<Rightarrow> char" where
  "c_toupper c = (if c_islower c then char_of (of_char c - 32 :: nat) else c)"

section \<open>Text and octets\<close>

definition text_bytes :: "string \<Rightarrow> bytes" where
  "text_bytes s = map (\<lambda>c. word_of_nat (of_char c)) s"

definition bytes_text :: "bytes \<Rightarrow> string" where
  "bytes_text bs = map (\<lambda>b. char_of (unat b)) (takeWhile (\<lambda>b. b \<noteq> 0) bs)"

lemma length_text_bytes [simp, range]: "length (text_bytes s) = length s"
  by (simp add: text_bytes_def)

lemma unat_of_char: "unat (word_of_nat (of_char c) :: u8) = of_char c"
  using nat_of_char_less_256 [of c] by (simp add: unat_of_nat)

lemma text_octet_zero: "(word_of_nat (of_char c) :: u8) = 0 \<longleftrightarrow> c = CHR 0x00"
proof -
  have "(word_of_nat (of_char c) :: u8) = 0 \<longleftrightarrow> (of_char c :: nat) = of_char (CHR 0x00)"
    by (simp add: unat_of_char flip: unat_eq_0)
  then show ?thesis by (simp only: of_char_eq_iff)
qed

lemma bytes_text_bytes [codec]:
  "CHR 0x00 \<notin> set s \<Longrightarrow> bytes_text (text_bytes s @ 0 # rest) = s"
proof (induction s)
  case (Cons c s)
  then show ?case by (auto simp: bytes_text_def text_bytes_def text_octet_zero unat_of_char)
qed (simp add: bytes_text_def text_bytes_def)

end
