(* ===== verification/Streams.thy ===== *)
theory Streams
  imports Common
begin

text \<open>
  Two interfaces that several components provide or rely on. \<open>byte_stream\<close> is a
  queue of bytes with a rejecting producer and a consumer that takes what is there;
  \<open>byte_writer\<close> and \<open>byte_reader\<close> are the callback types \<open>IPCWrite\<close> and \<open>IPCRead\<close>
  of the process pipes, which may transfer fewer bytes than asked. The loops
  \<open>write_all\<close> and \<open>read_all\<close> that the senders and receivers run over such callbacks
  are defined here, and their correctness is proved once, inside the locales.
\<close>

section \<open>Queues of bytes\<close>

datatype stream_op = Push bytes | Pull nat

text \<open>
  A run of operations; it collects what the producer got accepted and what the
  consumer received.
\<close>

fun stream_run :: "(bytes \<Rightarrow> 'q \<Rightarrow> 'q \<times> bool) \<Rightarrow> (nat \<Rightarrow> 'q \<Rightarrow> 'q \<times> bytes) \<Rightarrow>
    stream_op list \<Rightarrow> 'q \<Rightarrow> 'q \<times> bytes \<times> bytes" where
  "stream_run push pull [] q = (q, [], [])"
| "stream_run push pull (Push bs # ops) q =
     (let (q', accepted) = push bs q; (q'', sent, got) = stream_run push pull ops q'
      in (q'', (if accepted then bs else []) @ sent, got))"
| "stream_run push pull (Pull n # ops) q =
     (let (q', out) = pull n q; (q'', sent, got) = stream_run push pull ops q'
      in (q'', sent, out @ got))"

locale byte_stream =
  fixes ok :: "'q \<Rightarrow> bool"
    and pending :: "'q \<Rightarrow> bytes"
    and push :: "bytes \<Rightarrow> 'q \<Rightarrow> 'q \<times> bool"
    and pull :: "nat \<Rightarrow> 'q \<Rightarrow> 'q \<times> bytes"
  assumes push_ok: "ok q \<Longrightarrow> ok (fst (push bs q))"
    and push_pending: "ok q \<Longrightarrow>
          pending (fst (push bs q)) = pending q @ (if snd (push bs q) then bs else [])"
    and pull_ok: "ok q \<Longrightarrow> ok (fst (pull n q))"
    and pull_pending: "ok q \<Longrightarrow> pending q = snd (pull n q) @ pending (fst (pull n q))"
begin

lemma run_ok: "ok q \<Longrightarrow> ok (fst (stream_run push pull ops q))"
proof (induction ops arbitrary: q)
  case Nil
  then show ?case by simp
next
  case (Cons x ops)
  then show ?case
    by (cases x) (auto simp: case_prod_beta Let_def intro: push_ok pull_ok)
qed

text \<open>No byte is lost, duplicated or reordered.\<close>

lemma run_conserves:
  "ok q \<Longrightarrow> stream_run push pull ops q = (q', sent, got) \<Longrightarrow>
   pending q @ sent = got @ pending q'"
proof (induction ops arbitrary: q sent got)
  case Nil
  then show ?case by simp
next
  case (Cons x ops)
  show ?case
  proof (cases x)
    case (Push bs)
    obtain q1 s g where run: "stream_run push pull ops (fst (push bs q)) = (q1, s, g)"
      by (metis prod_cases3)
    have rest: "stream_run push pull ops (fst (push bs q)) = (q', s, g)"
      using Cons.prems(2) Push run by (auto simp: case_prod_beta Let_def)
    have "pending (fst (push bs q)) @ s = g @ pending q'"
      by (rule Cons.IH [OF push_ok [OF Cons.prems(1)] rest])
    then show ?thesis
      using Cons.prems rest Push by (simp add: push_pending case_prod_beta Let_def)
  next
    case (Pull n)
    obtain q1 s g where run: "stream_run push pull ops (fst (pull n q)) = (q1, s, g)"
      by (metis prod_cases3)
    have rest: "stream_run push pull ops (fst (pull n q)) = (q', s, g)"
      using Cons.prems(2) Pull run by (auto simp: case_prod_beta Let_def)
    have "pending (fst (pull n q)) @ s = g @ pending q'"
      by (rule Cons.IH [OF pull_ok [OF Cons.prems(1)] rest])
    moreover have "pending q = snd (pull n q) @ pending (fst (pull n q))"
      by (rule pull_pending [OF Cons.prems(1)])
    ultimately show ?thesis
      using Cons.prems(2) rest Pull by (auto simp: case_prod_beta Let_def)
  qed
qed

end

section \<open>Partial transfers and the loops over them\<close>

text \<open>
  A writer callback gets the bytes that are left and returns how many it took (0 or
  negative: failure); a reader callback gets how many bytes are wanted and returns how
  many it stored, with these bytes. The context is threaded explicitly.
\<close>

type_synonym 'c writer = "'c \<Rightarrow> bytes \<Rightarrow> 'c \<times> int"
type_synonym 'c reader = "'c \<Rightarrow> nat \<Rightarrow> 'c \<times> int \<times> bytes"

function write_all :: "'c writer \<Rightarrow> 'c \<Rightarrow> bytes \<Rightarrow> 'c \<times> bool" where
  "write_all w c bs =
     (if bs = [] then (c, True)
      else let (c', amount) = w c bs
           in if amount \<le> 0 \<or> length bs < nat amount then (c', False)
              else write_all w c' (drop (nat amount) bs))"
  by pat_completeness auto
termination
  by (relation "measure (\<lambda>(w, c, bs). length bs)") auto

function read_all :: "'c reader \<Rightarrow> 'c \<Rightarrow> nat \<Rightarrow> 'c \<times> bytes option" where
  "read_all r c n =
     (if n = 0 then (c, Some [])
      else let (c', amount, bs) = r c n
           in if amount \<le> 0 \<or> n < nat amount then (c', None)
              else let (c'', rest) = read_all r c' (n - nat amount)
                   in (c'', map_option ((@) (take (nat amount) bs)) rest))"
  by pat_completeness auto
termination
  by (relation "measure (\<lambda>(r, c, n). n)") auto

declare write_all.simps [simp del] read_all.simps [simp del]

lemma write_all_Nil [simp]: "write_all w c [] = (c, True)"
  by (simp add: write_all.simps)

lemma read_all_0 [simp]: "read_all r c 0 = (c, Some [])"
  by (simp add: read_all.simps)

text \<open>The senders chain several \<open>write_all\<close> calls with \<open>&&\<close>.\<close>

fun write_parts :: "'c writer \<Rightarrow> 'c \<Rightarrow> bytes list \<Rightarrow> 'c \<times> bool" where
  "write_parts w c [] = (c, True)"
| "write_parts w c (bs # parts) =
     (let (c', ok) = write_all w c bs in if ok then write_parts w c' parts else (c', False))"

locale byte_writer =
  fixes w :: "'c writer"
    and log :: "'c \<Rightarrow> bytes"
    and good :: "'c \<Rightarrow> bool"
  assumes write_log: "w c bs = (c', amount) \<Longrightarrow> bs \<noteq> [] \<Longrightarrow>
            log c' = log c @ take (nat amount) bs"
    and write_amount: "w c bs = (c', amount) \<Longrightarrow> bs \<noteq> [] \<Longrightarrow> nat amount \<le> length bs"
    and write_good: "good c \<Longrightarrow> w c bs = (c', amount) \<Longrightarrow> bs \<noteq> [] \<Longrightarrow> good c' \<and> 0 < amount"
begin

lemma write_all_log: "write_all w c bs = (c', True) \<Longrightarrow> log c' = log c @ bs"
proof (induction "length bs" arbitrary: c bs rule: less_induct)
  case less
  show ?case
  proof (cases "bs = []")
    case True
    with less.prems show ?thesis by simp
  next
    case False
    obtain d a where step: "w c bs = (d, a)" by fastforce
    from less.prems False step have a: "0 < a"
      and rest: "write_all w d (drop (nat a) bs) = (c', True)"
      by (auto simp: write_all.simps [of w c bs] split: if_splits)
    have "log c' = log d @ drop (nat a) bs"
      using less.hyps [OF _ rest] a False by simp
    then show ?thesis
      using write_log [OF step False] by simp
  qed
qed

lemma write_all_complete:
  "good c \<Longrightarrow> \<exists>c'. write_all w c bs = (c', True) \<and> log c' = log c @ bs \<and> good c'"
proof (induction "length bs" arbitrary: c bs rule: less_induct)
  case less
  show ?case
  proof (cases "bs = []")
    case True
    with less.prems show ?thesis by simp
  next
    case False
    obtain d a where step: "w c bs = (d, a)" by fastforce
    have d: "good d" "0 < a" and a: "nat a \<le> length bs"
      using write_good [OF less.prems step False] write_amount [OF step False] by auto
    obtain c' where "write_all w d (drop (nat a) bs) = (c', True)"
      "log c' = log d @ drop (nat a) bs" "good c'"
      using less.hyps [OF _ d(1), of "drop (nat a) bs"] d(2) False by auto
    then show ?thesis
      using step d a False write_log [OF step False]
      by (auto simp: write_all.simps [of w c bs])
  qed
qed

lemma write_parts_log: "write_parts w c parts = (c', True) \<Longrightarrow> log c' = log c @ concat parts"
  by (induction parts arbitrary: c)
     (auto simp: Let_def dest!: write_all_log split: prod.splits if_splits)

lemma write_parts_complete:
  "good c \<Longrightarrow> \<exists>c'. write_parts w c parts = (c', True) \<and> log c' = log c @ concat parts \<and> good c'"
proof (induction parts arbitrary: c)
  case Nil
  then show ?case by simp
next
  case (Cons bs parts)
  obtain d where "write_all w c bs = (d, True)" "log d = log c @ bs" "good d"
    using write_all_complete [OF Cons.prems] by blast
  then show ?case using Cons.IH [of d] by auto
qed

end

locale byte_reader =
  fixes r :: "'c reader"
    and rest :: "'c \<Rightarrow> bytes"
    and good :: "'c \<Rightarrow> bool"
  assumes read_rest: "r c n = (c', amount, bs) \<Longrightarrow> 0 < n \<Longrightarrow>
            rest c = take (nat amount) bs @ rest c'"
    and read_amount: "r c n = (c', amount, bs) \<Longrightarrow> 0 < n \<Longrightarrow>
            nat amount \<le> n \<and> length bs = nat amount"
    and read_good: "good c \<Longrightarrow> r c n = (c', amount, bs) \<Longrightarrow> 0 < n \<Longrightarrow>
            good c' \<and> (rest c \<noteq> [] \<longrightarrow> 0 < amount)"
begin

lemma read_all_Some:
  "read_all r c n = (c', Some bs) \<Longrightarrow> length bs = n \<and> rest c = bs @ rest c'"
proof (induction n arbitrary: c bs rule: less_induct)
  case (less n)
  show ?case
  proof (cases "n = 0")
    case True
    with less.prems show ?thesis by simp
  next
    case False
    obtain d a xs where step: "r c n = (d, a, xs)" by (metis prod_cases3)
    obtain ys where a: "0 < a" "nat a \<le> n" and bs: "bs = take (nat a) xs @ ys"
      and tail: "read_all r d (n - nat a) = (c', Some ys)"
      using less.prems False step
      by (auto simp: read_all.simps [of r c n] split: if_splits prod.splits)
    have "length ys = n - nat a \<and> rest d = ys @ rest c'"
      using less.IH [OF _ tail] a False by simp
    moreover have "length xs = nat a" "rest c = take (nat a) xs @ rest d"
      using read_rest [OF step] read_amount [OF step] False by auto
    ultimately show ?thesis using bs a by simp
  qed
qed

lemma read_all_complete:
  "good c \<Longrightarrow> n \<le> length (rest c) \<Longrightarrow>
   \<exists>c'. read_all r c n = (c', Some (take n (rest c))) \<and> rest c' = drop n (rest c) \<and> good c'"
proof (induction n arbitrary: c rule: less_induct)
  case (less n)
  show ?case
  proof (cases "n = 0")
    case True
    with less.prems show ?thesis by simp
  next
    case False
    obtain d a xs where step: "r c n = (d, a, xs)" by (metis prod_cases3)
    have a: "0 < a" "nat a \<le> n" "length xs = nat a" "good d" "rest c = xs @ rest d"
      using read_good [OF less.prems(1) step] read_rest [OF step] read_amount [OF step]
        False less.prems(2) by auto
    have "\<exists>c'. read_all r d (n - nat a) = (c', Some (take (n - nat a) (rest d))) \<and>
          rest c' = drop (n - nat a) (rest d) \<and> good c'"
      using less.prems(2) a False by (intro less.IH) auto
    then show ?thesis
      using step a False by (auto simp: read_all.simps [of r c n])
  qed
qed

lemma read_all_short: "length (rest c) < n \<Longrightarrow> snd (read_all r c n) = None"
proof (rule ccontr)
  assume short: "length (rest c) < n" and "snd (read_all r c n) \<noteq> None"
  then obtain c' bs where "read_all r c n = (c', Some bs)"
    by (cases "read_all r c n") auto
  then show False using read_all_Some short by fastforce
qed

end

section \<open>The pipe ends\<close>

text \<open>
  A pipe holds the bytes in flight. What the kernel does at each \<open>read\<close> or \<open>write\<close>
  call is up to it: the call is interrupted by a signal before any byte moved, it moves
  some bytes (one more than the number given, bounded by what was asked and by what is
  there), or it fails. \<open>plan\<close> lists these choices; after its end every call moves as
  much as it can. A theorem over all plans is one over every behaviour of the kernel in
  which a call is interrupted finitely often.
\<close>

datatype sys_event = Interrupted | Moves nat | IOError

datatype errno = E_NONE | E_INTR | E_IO

record pipe =
  in_flight :: bytes
  plan :: "sys_event list"

definition plan_limit :: "sys_event list \<Rightarrow> nat \<Rightarrow> nat" where
  "plan_limit p n = (case p of Moves k # _ \<Rightarrow> min (Suc k) n | _ \<Rightarrow> n)"

definition sys_read :: "pipe \<Rightarrow> nat \<Rightarrow> pipe \<times> int \<times> bytes \<times> errno" where
  "sys_read p n =
     (let p' = p\<lparr>plan := tl (plan p)\<rparr>; m = min (plan_limit (plan p) n) (length (in_flight p))
      in case plan p of
           Interrupted # _ \<Rightarrow> (p', - 1, [], E_INTR)
         | IOError # _ \<Rightarrow> (p', - 1, [], E_IO)
         | _ \<Rightarrow> (p'\<lparr>in_flight := drop m (in_flight p)\<rparr>, int m, take m (in_flight p), E_NONE))"

definition sys_write :: "pipe \<Rightarrow> bytes \<Rightarrow> pipe \<times> int \<times> errno" where
  "sys_write p bs =
     (let p' = p\<lparr>plan := tl (plan p)\<rparr>; m = plan_limit (plan p) (length bs)
      in case plan p of
           Interrupted # _ \<Rightarrow> (p', - 1, E_INTR)
         | IOError # _ \<Rightarrow> (p', - 1, E_IO)
         | _ \<Rightarrow> (p'\<lparr>in_flight := in_flight p @ take m bs\<rparr>, int m, E_NONE))"

text \<open>
  The callbacks of the client (\<open>gb_runtime_fixed_host_fd_read\<close> and \<open>_fd_write\<close>)
  repeat an interrupted call.
\<close>

function fd_read :: "pipe reader" where
  "fd_read p n =
     (case sys_read p n of (p', amount, bs, e) \<Rightarrow>
        if amount < 0 \<and> e = E_INTR then fd_read p' n else (p', amount, bs))"
  by pat_completeness auto
termination
  by (relation "measure (\<lambda>(p, n). length (plan p))")
     (auto simp: sys_read_def Let_def split: list.splits sys_event.splits)

function fd_write :: "pipe writer" where
  "fd_write p bs =
     (case sys_write p bs of (p', amount, e) \<Rightarrow>
        if amount < 0 \<and> e = E_INTR then fd_write p' bs else (p', amount))"
  by pat_completeness auto
termination
  by (relation "measure (\<lambda>(p, bs). length (plan p))")
     (auto simp: sys_write_def Let_def split: list.splits sys_event.splits)

declare fd_read.simps [simp del] fd_write.simps [simp del]

definition reliable :: "pipe \<Rightarrow> bool" where
  "reliable p \<longleftrightarrow> IOError \<notin> set (plan p)"

lemma reliable_tl: "reliable p \<Longrightarrow> IOError \<notin> set (tl (plan p))"
  by (cases "plan p") (auto simp: reliable_def)

lemma fd_read_spec:
  "fd_read p n = (p', amount, bs) \<Longrightarrow>
     in_flight p = bs @ in_flight p' \<and> nat amount \<le> n \<and> length bs = nat amount \<and>
     (reliable p \<longrightarrow> reliable p' \<and> (in_flight p \<noteq> [] \<and> 0 < n \<longrightarrow> 0 < amount))"
proof (induction p n arbitrary: p' amount bs rule: fd_read.induct)
  case (1 p n)
  obtain d a xs e where step: "sys_read p n = (d, a, xs, e)" by (metis prod_cases4)
  show ?case
  proof (cases "a < 0 \<and> e = E_INTR")
    case True
    then have "fd_read d n = (p', amount, bs)"
      using "1.prems" step by (simp add: fd_read.simps [of p n])
    note ih = "1.IH" [OF step [symmetric] refl refl True this]
    have "in_flight d = in_flight p" "reliable p \<Longrightarrow> reliable d"
      using step True reliable_tl [of p]
      by (auto simp: sys_read_def Let_def reliable_def split: list.splits sys_event.splits)
    with ih show ?thesis by auto
  next
    case False
    then have "d = p'" "a = amount" "xs = bs"
      using "1.prems" step by (auto simp: fd_read.simps [of p n] split: if_splits)
    then show ?thesis
      using step False reliable_tl [of p]
      by (auto simp: sys_read_def Let_def reliable_def plan_limit_def
               split: list.splits sys_event.splits)
  qed
qed

lemma fd_write_spec:
  "fd_write p bs = (p', amount) \<Longrightarrow>
     in_flight p' = in_flight p @ take (nat amount) bs \<and> nat amount \<le> length bs \<and>
     (reliable p \<longrightarrow> reliable p' \<and> (bs \<noteq> [] \<longrightarrow> 0 < amount))"
proof (induction p bs arbitrary: p' amount rule: fd_write.induct)
  case (1 p bs)
  obtain d a e where step: "sys_write p bs = (d, a, e)" by (metis prod_cases3)
  show ?case
  proof (cases "a < 0 \<and> e = E_INTR")
    case True
    then have "fd_write d bs = (p', amount)"
      using "1.prems" step by (simp add: fd_write.simps [of p bs])
    note ih = "1.IH" [OF step [symmetric] refl True this]
    have "in_flight d = in_flight p" "reliable p \<Longrightarrow> reliable d"
      using step True reliable_tl [of p]
      by (auto simp: sys_write_def Let_def reliable_def split: list.splits sys_event.splits)
    with ih show ?thesis by auto
  next
    case False
    then have "d = p'" "a = amount"
      using "1.prems" step by (auto simp: fd_write.simps [of p bs] split: if_splits)
    then show ?thesis
      using step False reliable_tl [of p]
      by (auto simp: sys_write_def Let_def reliable_def plan_limit_def
               split: list.splits sys_event.splits)
  qed
qed

interpretation fd_writer: byte_writer fd_write in_flight reliable
  by unfold_locales (use fd_write_spec in blast)+

interpretation fd_reader: byte_reader fd_read in_flight reliable
proof unfold_locales
  fix c n c' amount bs
  assume r: "fd_read c n = (c', amount, bs)" and "0 < (n::nat)"
  then show "in_flight c = take (nat amount) bs @ in_flight c'"
    and "nat amount \<le> n \<and> length bs = nat amount"
    using fd_read_spec [OF r] by auto
next
  fix c n c' amount bs
  assume "reliable c" and r: "fd_read c n = (c', amount, bs)" and "0 < (n::nat)"
  then show "reliable c' \<and> (in_flight c \<noteq> [] \<longrightarrow> 0 < amount)"
    using fd_read_spec [OF r] by auto
qed

end
