(* ===== verification/BoundedBuffer.thy ===== *)
theory BoundedBuffer
  imports Streams
begin

text \<open>
  The mobile adapter's bounded buffer (\<open>runtimes/gb/src/mobile/mobile_bounded_buffer.c\<close>):
  a caller-owned block of memory filled from the front by \<open>append\<close> and drained by
  \<open>read\<close>, with a state that seals, cancels or times out the stream. A pointer the code
  compares with NULL is an \<open>option\<close>; the operations return the pointed-to object updated.
\<close>

section \<open>Model\<close>

datatype buffer_state = BufOpen | BufSealed | BufCanceled | BufTimedOut

record bounded_buffer =
  bb_data :: "bytes option"
  bb_capacity :: nat
  bb_length :: nat
  bb_cursor :: nat
  bb_state :: buffer_state

definition bb_init :: "bounded_buffer option \<Rightarrow> bytes option \<Rightarrow> nat \<Rightarrow> bounded_buffer option" where
  "bb_init buffer storage capacity =
     map_option (\<lambda>_. \<lparr>bb_data = storage, bb_capacity = capacity, bb_length = 0, bb_cursor = 0,
                     bb_state = BufOpen\<rparr>) buffer"

definition bb_reset :: "bounded_buffer option \<Rightarrow> bounded_buffer option" where
  "bb_reset buffer =
     map_option (\<lambda>b. b\<lparr>bb_length := 0, bb_cursor := 0, bb_state := BufOpen\<rparr>) buffer"

definition bb_append ::
  "bounded_buffer option \<Rightarrow> bytes option \<Rightarrow> nat \<Rightarrow> bounded_buffer option \<times> bool" where
  "bb_append buffer src n =
     (case buffer of
        None \<Rightarrow> (None, False)
      | Some b \<Rightarrow>
          (case bb_data b of
             None \<Rightarrow> (Some b, False)
           | Some mem \<Rightarrow>
               if (src = None \<and> n \<noteq> 0) \<or> bb_state b \<noteq> BufOpen \<or>
                  size_sub (bb_capacity b) (bb_length b) < n
               then (Some b, False)
               else if n \<noteq> 0
               then (Some (b\<lparr>bb_data := Some (write_at (bb_length b) (take n (the src)) mem),
                            bb_length := bb_length b + n\<rparr>), True)
               else (Some b, True)))"

definition bb_truncate :: "bounded_buffer option \<Rightarrow> nat \<Rightarrow> bounded_buffer option \<times> bool" where
  "bb_truncate buffer len =
     (case buffer of
        None \<Rightarrow> (None, False)
      | Some b \<Rightarrow>
          if bb_length b < len \<or> len < bb_cursor b \<or> bb_state b = BufCanceled \<or>
             bb_state b = BufTimedOut
          then (Some b, False)
          else (Some (b\<lparr>bb_length := len\<rparr>), True))"

definition bb_seal :: "bounded_buffer option \<Rightarrow> bounded_buffer option \<times> bool" where
  "bb_seal buffer =
     (case buffer of
        None \<Rightarrow> (None, False)
      | Some b \<Rightarrow>
          if bb_state b \<noteq> BufOpen then (Some b, False)
          else (Some (b\<lparr>bb_state := BufSealed\<rparr>), True))"

definition bb_cancel :: "bounded_buffer option \<Rightarrow> bounded_buffer option" where
  "bb_cancel buffer = map_option (\<lambda>b. b\<lparr>bb_state := BufCanceled\<rparr>) buffer"

definition bb_timeout :: "bounded_buffer option \<Rightarrow> bounded_buffer option" where
  "bb_timeout buffer = map_option (\<lambda>b. b\<lparr>bb_state := BufTimedOut\<rparr>) buffer"

text \<open>
  \<open>read\<close> returns the buffer, its \<open>int\<close> result and the bytes it stored at the
  destination; \<open>dst\<close> says that the destination pointer is not NULL.
\<close>

definition bb_read ::
  "bounded_buffer option \<Rightarrow> bool \<Rightarrow> nat \<Rightarrow> bounded_buffer option \<times> int \<times> bytes" where
  "bb_read buffer dst n =
     (case buffer of
        None \<Rightarrow> (None, - 1, [])
      | Some b \<Rightarrow>
          if (\<not> dst \<and> n \<noteq> 0) \<or> bb_state b = BufCanceled \<or> bb_state b = BufTimedOut
          then (Some b, - 1, [])
          else if bb_cursor b = bb_length b
          then (Some b, if bb_state b = BufSealed then - 2 else 0, [])
          else let remaining = size_sub (bb_length b) (bb_cursor b);
                   wanted = (if remaining < n then remaining else n);
                   count = (if INT_MAX < wanted then INT_MAX else wanted)
               in if count \<noteq> 0
                  then (Some (b\<lparr>bb_cursor := bb_cursor b + count\<rparr>), int count,
                        slice (bb_cursor b) count (case bb_data b of None \<Rightarrow> [] | Some m \<Rightarrow> m))
                  else (Some b, int count, []))"

section \<open>Well-formedness and the abstract queue\<close>

definition bb_ok :: "bounded_buffer \<Rightarrow> bool" where
  "bb_ok b \<longleftrightarrow> bb_cursor b \<le> bb_length b \<and> bb_length b \<le> bb_capacity b \<and>
     (case bb_data b of None \<Rightarrow> bb_length b = 0 | Some m \<Rightarrow> length m = bb_capacity b)"

definition bb_memory :: "bounded_buffer \<Rightarrow> bytes" where
  "bb_memory b = (case bb_data b of None \<Rightarrow> [] | Some m \<Rightarrow> m)"

definition bb_pending :: "bounded_buffer \<Rightarrow> bytes" where
  "bb_pending b = drop (bb_cursor b) (take (bb_length b) (bb_memory b))"

lemmas bb_defs = bb_ok_def bb_pending_def bb_memory_def

lemma bb_init_ok:
  "length mem = capacity \<Longrightarrow> bb_init (Some b) (Some mem) capacity = Some b' \<Longrightarrow>
   bb_ok b' \<and> bb_pending b' = []"
  by (auto simp: bb_init_def bb_defs)

lemma bb_reset_ok: "bb_ok b \<Longrightarrow> bb_reset (Some b) = Some b' \<Longrightarrow> bb_ok b' \<and> bb_pending b' = []"
  by (auto simp: bb_reset_def bb_defs split: option.splits)

lemma bb_append_Some:
  assumes "bb_ok b" "length bs = n" "bb_append (Some b) (Some bs) n = (p, took)"
  obtains b' where "p = Some b'" "bb_ok b'" "bb_capacity b' = bb_capacity b"
    "bb_pending b' = bb_pending b @ (if took then bs else [])"
    "took \<longleftrightarrow> bb_data b \<noteq> None \<and> bb_state b = BufOpen \<and> bb_length b + n \<le> bb_capacity b"
    "\<not> took \<Longrightarrow> b' = b"
proof
  show "p = Some (the p)"
    using assms by (auto simp: bb_append_def split: option.splits if_splits)
  show "bb_ok (the p)" "bb_capacity (the p) = bb_capacity b"
    using assms by (auto simp: bb_append_def bb_ok_def split: option.splits if_splits)
  show "bb_pending (the p) = bb_pending b @ (if took then bs else [])"
    using assms by (auto simp: bb_append_def bb_defs take_write_at split: option.splits if_splits)
  show "took \<longleftrightarrow> bb_data b \<noteq> None \<and> bb_state b = BufOpen \<and> bb_length b + n \<le> bb_capacity b"
    using assms by (auto simp: bb_append_def bb_ok_def split: option.splits if_splits)
  show "\<not> took \<Longrightarrow> the p = b"
    using assms by (auto simp: bb_append_def split: option.splits if_splits)
qed

lemma bb_truncate_ok:
  "bb_ok b \<Longrightarrow> bb_truncate (Some b) n = (Some b', r) \<Longrightarrow> bb_ok b'"
  by (auto simp: bb_truncate_def bb_ok_def split: if_splits option.splits)

lemma bb_read_Some:
  assumes "bb_ok b" "bb_read (Some b) True n = (p, r, out)"
  obtains b' where "p = Some b'" "bb_ok b'" "bb_pending b = out @ bb_pending b'"
    "0 < r \<Longrightarrow> r = int (length out) \<and> length out \<le> n" "r \<le> 0 \<Longrightarrow> out = []" "- 2 \<le> r"
    "bb_data b' = bb_data b" "bb_state b' = bb_state b" "bb_length b' = bb_length b"
proof
  show "p = Some (the p)"
    using assms by (auto simp: bb_read_def Let_def split: if_splits)
  show "bb_ok (the p)"
    using assms by (auto simp: bb_read_def bb_ok_def Let_def split: if_splits option.splits)
  show "bb_pending b = out @ bb_pending (the p)"
    using assms
    by (auto simp: bb_read_def bb_defs Let_def slice_def drop_take
             split: if_splits option.splits intro!: take_drop_split)
  show "0 < r \<Longrightarrow> r = int (length out) \<and> length out \<le> n"
    using assms by (auto simp: bb_read_def bb_ok_def Let_def split: if_splits option.splits)
qed (use assms in \<open>auto simp: bb_read_def Let_def split: if_splits\<close>)


section \<open>Operation sequences\<close>

datatype bb_op = OpReset | OpAppend bytes | OpTruncate nat | OpSeal | OpCancel | OpTimeout
  | OpRead nat

fun bb_step :: "bounded_buffer option \<Rightarrow> bb_op \<Rightarrow> bounded_buffer option" where
  "bb_step p OpReset = bb_reset p"
| "bb_step p (OpAppend bs) = fst (bb_append p (Some bs) (length bs))"
| "bb_step p (OpTruncate n) = fst (bb_truncate p n)"
| "bb_step p OpSeal = fst (bb_seal p)"
| "bb_step p OpCancel = bb_cancel p"
| "bb_step p OpTimeout = bb_timeout p"
| "bb_step p (OpRead n) = fst (bb_read p True n)"

text \<open>Every operation keeps the buffer well-formed, with its capacity.\<close>

lemma bb_step_ok:
  assumes "bb_ok b"
  shows "\<exists>b'. bb_step (Some b) op = Some b' \<and> bb_ok b' \<and> bb_capacity b' = bb_capacity b"
proof (cases op)
  case (OpAppend bs)
  obtain p r where r: "bb_append (Some b) (Some bs) (length bs) = (p, r)" by fastforce
  show ?thesis using bb_append_Some [OF assms refl r] OpAppend r by auto
next
  case (OpRead n)
  show ?thesis
    using assms OpRead
    by (auto simp: bb_read_def bb_ok_def Let_def split: option.splits)
qed (use assms in \<open>auto simp: bb_reset_def bb_truncate_def bb_seal_def bb_cancel_def
       bb_timeout_def bb_ok_def split: option.splits\<close>)

lemma bb_run_ok:
  "bb_ok b \<Longrightarrow> \<exists>b'. foldl bb_step (Some b) ops = Some b' \<and> bb_ok b' \<and>
     bb_capacity b' = bb_capacity b"
proof (induction ops arbitrary: b)
  case Nil
  then show ?case by simp
next
  case (Cons x ops)
  obtain b1 where "bb_step (Some b) x = Some b1" "bb_ok b1" "bb_capacity b1 = bb_capacity b"
    using bb_step_ok [OF Cons.prems] by blast
  then show ?case using Cons.IH [of b1] by simp
qed

section \<open>The buffer as a byte queue\<close>

definition bb_push :: "bytes \<Rightarrow> bounded_buffer \<Rightarrow> bounded_buffer \<times> bool" where
  "bb_push bs b = (case bb_append (Some b) (Some bs) (length bs) of (p, r) \<Rightarrow> (the p, r))"

definition bb_pull :: "nat \<Rightarrow> bounded_buffer \<Rightarrow> bounded_buffer \<times> bytes" where
  "bb_pull n b = (case bb_read (Some b) True n of (p, r, out) \<Rightarrow> (the p, out))"

interpretation bb_stream: byte_stream bb_ok bb_pending bb_push bb_pull
proof unfold_locales
  fix b bs
  assume ok: "bb_ok b"
  obtain p r where r: "bb_append (Some b) (Some bs) (length bs) = (p, r)" by fastforce
  obtain b' where "p = Some b'" "bb_ok b'" "bb_pending b' = bb_pending b @ (if r then bs else [])"
    using bb_append_Some [OF ok refl r] by blast
  then show "bb_ok (fst (bb_push bs b))"
    and "bb_pending (fst (bb_push bs b)) = bb_pending b @ (if snd (bb_push bs b) then bs else [])"
    using r by (auto simp: bb_push_def)
next
  fix b n
  assume ok: "bb_ok b"
  obtain p r out where r: "bb_read (Some b) True n = (p, r, out)" by (metis prod_cases3)
  obtain b' where "p = Some b'" "bb_ok b'" "bb_pending b = out @ bb_pending b'"
    using bb_read_Some [OF ok r] by blast
  then show "bb_ok (fst (bb_pull n b))"
    and "bb_pending b = snd (bb_pull n b) @ bb_pending (fst (bb_pull n b))"
    using r by (auto simp: bb_pull_def)
qed

text \<open>The mobile buffer is a faithful queue: over any sequence of appends and reads, of any
  sizes, what was pending plus every accepted append is exactly what was read plus what is
  still pending, in order; a rejected append leaves no trace.\<close>

theorem bounded_buffer_conserves:
  assumes "bb_ok b"
  shows "case stream_run bb_push bb_pull ops b of
           (b', sent, got) \<Rightarrow> bb_ok b' \<and> bb_pending b @ sent = got @ bb_pending b'"
proof -
  obtain b' sent got where run: "stream_run bb_push bb_pull ops b = (b', sent, got)"
    by (metis prod_cases3)
  show ?thesis
    using bb_stream.run_conserves [OF assms run] bb_stream.run_ok [OF assms, of ops] run by simp
qed

theorem bounded_buffer_conserves_witness:
  "case stream_run bb_push bb_pull [Push [1, 2, 3], Push [4], Pull 2, Pull 9]
        \<lparr>bb_data = Some [0, 0, 0], bb_capacity = 3, bb_length = 0, bb_cursor = 0, bb_state = BufOpen\<rparr> of
     (b', sent, got) \<Rightarrow> bb_ok b' \<and>
       bb_pending \<lparr>bb_data = Some [0, 0, 0], bb_capacity = 3, bb_length = 0, bb_cursor = 0,
                   bb_state = BufOpen\<rparr> @ sent = got @ bb_pending b'"
  by (rule bounded_buffer_conserves) (simp add: bb_ok_def)

text \<open>No sequence of operations takes the buffer out of its bounds: the cursor stays at or
  before the length, the length within the caller's memory, whose size never changes; a
  seal, cancel or timeout, a reset and a truncate in any order included.\<close>

theorem bounded_buffer_bounds:
  assumes "bb_ok b"
  shows "\<exists>b'. foldl bb_step (Some b) ops = Some b' \<and> bb_ok b' \<and> bb_capacity b' = bb_capacity b"
  using bb_run_ok [OF assms] .

theorem bounded_buffer_bounds_witness:
  "\<exists>b'. foldl bb_step (Some \<lparr>bb_data = Some [0, 0], bb_capacity = 2, bb_length = 0, bb_cursor = 0,
                             bb_state = BufOpen\<rparr>)
          [OpAppend [7], OpRead 1, OpTruncate 0, OpSeal, OpReset, OpAppend [1, 2, 3]] = Some b' \<and>
        bb_ok b' \<and> bb_capacity b' = bb_capacity \<lparr>bb_data = Some [0, 0], bb_capacity = 2,
                             bb_length = 0, bb_cursor = 0, bb_state = BufOpen\<rparr>"
  by (rule bounded_buffer_bounds) (simp add: bb_ok_def)

end
