(* ===== verification/ContentHash.thy ===== *)
theory ContentHash
  imports Common
begin

text \<open>
  SHA-256 as \<open>runtimes/gb/src/server/content_hash.c\<close> streams it, and the second copy of
  it that \<open>runtimes/gb/src/server/sgb_boot_resource.c\<close> keeps for the boot ROM. Both are
  shown to compute the padded, block-wise hash \<open>sha_spec\<close> of the bytes they were fed,
  however the bytes were cut into \<open>update\<close> calls.
\<close>

unbundle bit_operations_syntax

section \<open>The compression function\<close>

definition rotr :: "u32 \<Rightarrow> nat \<Rightarrow> u32" where
  "rotr v bits = drop_bit bits v OR push_bit (32 - bits) v"

definition sha_k :: "u32 list" where
  "sha_k =
    0x428a2f98 # 0x71374491 # 0xb5c0fbcf # 0xe9b5dba5 # 0x3956c25b # 0x59f111f1 # 0x923f82a4 # 0xab1c5ed5 #
    0xd807aa98 # 0x12835b01 # 0x243185be # 0x550c7dc3 # 0x72be5d74 # 0x80deb1fe # 0x9bdc06a7 # 0xc19bf174 #
    0xe49b69c1 # 0xefbe4786 # 0x0fc19dc6 # 0x240ca1cc # 0x2de92c6f # 0x4a7484aa # 0x5cb0a9dc # 0x76f988da #
    0x983e5152 # 0xa831c66d # 0xb00327c8 # 0xbf597fc7 # 0xc6e00bf3 # 0xd5a79147 # 0x06ca6351 # 0x14292967 #
    0x27b70a85 # 0x2e1b2138 # 0x4d2c6dfc # 0x53380d13 # 0x650a7354 # 0x766a0abb # 0x81c2c92e # 0x92722c85 #
    0xa2bfe8a1 # 0xa81a664b # 0xc24b8b70 # 0xc76c51a3 # 0xd192e819 # 0xd6990624 # 0xf40e3585 # 0x106aa070 #
    0x19a4c116 # 0x1e376c08 # 0x2748774c # 0x34b0bcb5 # 0x391c0cb3 # 0x4ed8aa4a # 0x5b9cca4f # 0x682e6ff3 #
    0x748f82ee # 0x78a5636f # 0x84c87814 # 0x8cc70208 # 0x90befffa # 0xa4506ceb # 0xbef9a3f7 # 0xc67178f2 # []"

type_synonym sha_vars = "u32 \<times> u32 \<times> u32 \<times> u32 \<times> u32 \<times> u32 \<times> u32 \<times> u32"

text \<open>The message schedule, extended one word at a time.\<close>

definition sha_w_step :: "u32 list \<Rightarrow> nat \<Rightarrow> u32 list" where
  "sha_w_step w i =
     (let s0 = rotr (w ! (i - 15)) 7 XOR rotr (w ! (i - 15)) 18 XOR drop_bit 3 (w ! (i - 15));
          s1 = rotr (w ! (i - 2)) 17 XOR rotr (w ! (i - 2)) 19 XOR drop_bit 10 (w ! (i - 2))
      in w @ [w ! (i - 16) + s0 + w ! (i - 7) + s1])"

definition sha_schedule :: "bytes \<Rightarrow> u32 list" where
  "sha_schedule block =
     foldl sha_w_step (map (\<lambda>i. get_be32 (drop (4 * i) block)) [0..<16]) [16..<64]"

fun sha_round :: "u32 list \<Rightarrow> sha_vars \<Rightarrow> nat \<Rightarrow> sha_vars" where
  "sha_round w (a, b, c, d, e, f, g, h) i =
     (let s1 = rotr e 6 XOR rotr e 11 XOR rotr e 25;
          ch = (e AND f) XOR (NOT e AND g);
          t1 = h + s1 + ch + sha_k ! i + w ! i;
          s0 = rotr a 2 XOR rotr a 13 XOR rotr a 22;
          maj = (a AND b) XOR (a AND c) XOR (b AND c);
          t2 = s0 + maj
      in (t1 + t2, a, b, c, d + t1, e, f, g))"

definition sha_compress :: "sha_vars \<Rightarrow> bytes \<Rightarrow> sha_vars" where
  "sha_compress hs block =
     (case (hs, foldl (sha_round (sha_schedule block)) hs [0..<64]) of
        ((h0, h1, h2, h3, h4, h5, h6, h7), (a, b, c, d, e, f, g, h)) \<Rightarrow>
          (h0 + a, h1 + b, h2 + c, h3 + d, h4 + e, h5 + f, h6 + g, h7 + h))"

section \<open>The streaming hash\<close>

record sha_state =
  sha_h :: sha_vars
  sha_bytes :: u64
  sha_block :: bytes
  sha_block_size :: nat

definition sha_transform :: "sha_state \<Rightarrow> sha_state" where
  "sha_transform s = s\<lparr>sha_h := sha_compress (sha_h s) (sha_block s)\<rparr>"

definition sha_iv :: sha_vars where
  "sha_iv = (0x6a09e667, 0xbb67ae85, 0x3c6ef372, 0xa54ff53a,
             0x510e527f, 0x9b05688c, 0x1f83d9ab, 0x5be0cd19)"

definition sha256_init :: sha_state where
  "sha256_init = \<lparr>sha_h = sha_iv, sha_bytes = 0, sha_block = replicate 64 0,
                  sha_block_size = 0\<rparr>"

text \<open>
  The \<open>while\<close> loop of \<open>update\<close>. It is entered with at most 64 bytes in the block
  (\<open>sha_ok\<close> below); a fuller block does not arise and is left alone.
\<close>

function sha_update_loop :: "sha_state \<Rightarrow> bytes \<Rightarrow> sha_state" where
  "sha_update_loop s data =
     (if data = [] \<or> 64 < sha_block_size s then s
      else let room = 64 - sha_block_size s;
               n = (if length data < room then length data else room);
               s1 = s\<lparr>sha_block := write_at (sha_block_size s) (take n data) (sha_block s),
                      sha_block_size := sha_block_size s + n\<rparr>;
               s2 = (if sha_block_size s1 = 64 then (sha_transform s1)\<lparr>sha_block_size := 0\<rparr> else s1)
           in sha_update_loop s2 (drop n data))"
  by pat_completeness auto
termination
  by (relation "measure (\<lambda>(s, data). 2 * length data + (if sha_block_size s = 64 then 1 else 0))")
     (auto simp: Let_def)

declare sha_update_loop.simps [simp del]

definition sha256_update :: "sha_state \<Rightarrow> bytes \<Rightarrow> sha_state" where
  "sha256_update s data =
     sha_update_loop (s\<lparr>sha_bytes := sha_bytes s + of_nat (length data)\<rparr>) data"

fun sha_digest :: "sha_vars \<Rightarrow> bytes" where
  "sha_digest (a, b, c, d, e, f, g, h) =
     put_be32 a @ put_be32 b @ put_be32 c @ put_be32 d @
     put_be32 e @ put_be32 f @ put_be32 g @ put_be32 h"

definition sha256_finish :: "sha_state \<Rightarrow> bytes" where
  "sha256_finish s =
     (let bits = sha_bytes s * 8;
          s1 = s\<lparr>sha_block := write_at (sha_block_size s) [0x80] (sha_block s),
                 sha_block_size := sha_block_size s + 1\<rparr>;
          s2 = (if 56 < sha_block_size s1
                then (sha_transform (s1\<lparr>sha_block := write_at (sha_block_size s1)
                        (replicate (64 - sha_block_size s1) 0) (sha_block s1)\<rparr>))
                       \<lparr>sha_block_size := 0\<rparr>
                else s1);
          s3 = s2\<lparr>sha_block := write_at (sha_block_size s2)
                     (replicate (56 - sha_block_size s2) 0) (sha_block s2)\<rparr>;
          s4 = s3\<lparr>sha_block := write_at 56 (put_be64 bits) (sha_block s3)\<rparr>
      in sha_digest (sha_h (sha_transform s4)))"

definition content_sha256 :: "bytes \<Rightarrow> bytes" where
  "content_sha256 data = sha256_finish (sha256_update sha256_init data)"

definition hex_digits :: string where "hex_digits = ''0123456789abcdef''"

definition sha256_hex :: "bytes \<Rightarrow> string" where
  "sha256_hex digest =
     concat (map (\<lambda>b. [hex_digits ! unat (drop_bit 4 b), hex_digits ! unat (b AND 15)]) digest)"

section \<open>The specification: pad, cut into blocks, compress\<close>

definition sha_pad :: "bytes \<Rightarrow> bytes" where
  "sha_pad m = m @ [0x80] @ replicate ((119 - length m mod 64) mod 64) 0 @
               put_be64 (of_nat (length m) * 8)"

fun sha_absorb :: "sha_vars \<Rightarrow> bytes \<Rightarrow> sha_vars" where
  "sha_absorb hs m =
     (if length m < 64 then hs else sha_absorb (sha_compress hs (take 64 m)) (drop 64 m))"

definition sha_spec :: "bytes \<Rightarrow> bytes" where
  "sha_spec m = sha_digest (sha_absorb sha_iv (sha_pad m))"

fun sha_rest :: "bytes \<Rightarrow> bytes" where
  "sha_rest m = (if length m < 64 then m else sha_rest (drop 64 m))"

declare sha_absorb.simps [simp del] sha_rest.simps [simp del]

lemma sha_absorb_short [simp]: "length m < 64 \<Longrightarrow> sha_absorb hs m = hs"
  by (simp add: sha_absorb.simps)

lemma sha_rest_short [simp]: "length m < 64 \<Longrightarrow> sha_rest m = m"
  by (simp add: sha_rest.simps)

lemma sha_absorb_block [simp]:
  "length b = 64 \<Longrightarrow> sha_absorb hs (b @ m) = sha_absorb (sha_compress hs b) m"
  by (subst sha_absorb.simps) simp

lemma sha_absorb_one [simp]: "length b = 64 \<Longrightarrow> sha_absorb hs b = sha_compress hs b"
  using sha_absorb_block [of b hs "[]"] by simp

lemma sha_rest_one [simp]: "length b = 64 \<Longrightarrow> sha_rest b = []"
  by (subst sha_rest.simps) simp

lemma length_sha_rest: "length (sha_rest m) = length m mod 64"
proof (induction m rule: sha_rest.induct)
  case (1 m)
  then show ?case by (subst sha_rest.simps) (simp add: le_mod_geq)
qed

text \<open>Absorbing a message in two parts: the first part's rest is carried over.\<close>

lemma sha_absorb_append: "sha_absorb hs (m @ x) = sha_absorb (sha_absorb hs m) (sha_rest m @ x)"
proof (induction hs m rule: sha_absorb.induct)
  case (1 hs m)
  show ?case
  proof (cases "length m < 64")
    case False
    have "m @ x = take 64 m @ drop 64 m @ x"
      by (simp flip: append_assoc)
    moreover have "length (take 64 m) = 64" using False by simp
    ultimately have "sha_absorb hs (m @ x) = sha_absorb (sha_compress hs (take 64 m)) (drop 64 m @ x)"
      by (metis sha_absorb_block)
    then show ?thesis
      using 1 False by (simp add: sha_absorb.simps [of hs m] sha_rest.simps [of m])
  qed simp
qed

lemma sha_rest_append: "sha_rest (m @ x) = sha_rest (sha_rest m @ x)"
proof (induction m rule: sha_rest.induct)
  case (1 m)
  show ?case
  proof (cases "length m < 64")
    case False
    then have "sha_rest (m @ x) = sha_rest (drop 64 m @ x)"
      by (subst sha_rest.simps) simp
    then show ?thesis using 1 False by (simp add: sha_rest.simps [of m])
  qed simp
qed

section \<open>The streaming hash computes the specification\<close>

definition sha_part :: "sha_state \<Rightarrow> bytes \<Rightarrow> bool" where
  "sha_part s m \<longleftrightarrow> sha_h s = sha_absorb sha_iv m \<and> length (sha_block s) = 64 \<and>
     sha_block_size s = length (sha_rest m) \<and>
     take (length (sha_rest m)) (sha_block s) = sha_rest m"

lemma sha_part_bytes [simp]: "sha_part (s\<lparr>sha_bytes := b\<rparr>) m = sha_part s m"
  by (simp add: sha_part_def)

definition sha_repr :: "sha_state \<Rightarrow> bytes \<Rightarrow> bool" where
  "sha_repr s m \<longleftrightarrow> sha_part s m \<and> sha_bytes s = of_nat (length m)"

lemma sha_repr_init: "sha_repr sha256_init []"
  by (simp add: sha_repr_def sha_part_def sha256_init_def)

lemma sha_part_fill:
  assumes "sha_part s m" "sha_block_size s + length x \<le> 64"
  shows "sha_part (let s1 = s\<lparr>sha_block := write_at (sha_block_size s) x (sha_block s),
                             sha_block_size := sha_block_size s + length x\<rparr>
                   in if sha_block_size s1 = 64 then (sha_transform s1)\<lparr>sha_block_size := 0\<rparr> else s1)
           (m @ x)"
proof -
  have filled: "take (sha_block_size s + length x) (write_at (sha_block_size s) x (sha_block s)) =
      sha_rest m @ x"
    using assms by (simp add: sha_part_def take_write_at)
  show ?thesis
  proof (cases "sha_block_size s + length x = 64")
    case True
    then have "write_at (sha_block_size s) x (sha_block s) = sha_rest m @ x"
      using filled assms by (simp add: sha_part_def)
    then show ?thesis
      using assms True
      by (simp add: sha_part_def sha_transform_def sha_absorb_append [of sha_iv m x]
            sha_rest_append [of m x])
  next
    case False
    then show ?thesis
      using assms filled
      by (simp add: sha_part_def sha_absorb_append [of sha_iv m x] sha_rest_append [of m x])
  qed
qed

lemma sha_update_loop_part:
  "sha_part s m \<Longrightarrow> sha_part (sha_update_loop s data) (m @ data) \<and>
     sha_bytes (sha_update_loop s data) = sha_bytes s"
proof (induction s data arbitrary: m rule: sha_update_loop.induct)
  case (1 s data)
  have small: "sha_block_size s < 64"
    using "1.prems" by (simp add: sha_part_def length_sha_rest)
  show ?case
  proof (cases "data = []")
    case True
    with "1.prems" show ?thesis by (simp add: sha_update_loop.simps)
  next
    case False
    define n where "n = min (length data) (64 - sha_block_size s)"
    define s2 where "s2 = (let s1 = s\<lparr>sha_block := write_at (sha_block_size s) (take n data) (sha_block s),
                             sha_block_size := sha_block_size s + n\<rparr>
                   in if sha_block_size s1 = 64 then (sha_transform s1)\<lparr>sha_block_size := 0\<rparr> else s1)"
    have n: "n = (if length data < 64 - sha_block_size s then length data else 64 - sha_block_size s)"
      by (simp add: n_def)
    have step: "sha_update_loop s data = sha_update_loop s2 (drop n data)"
      using False small unfolding s2_def n
      by (subst sha_update_loop.simps) (simp add: Let_def)
    have "length (take n data) = n" by (simp add: n_def)
    then have part: "sha_part s2 (m @ take n data)"
      using sha_part_fill [OF "1.prems", of "take n data"] small unfolding s2_def n_def
      by (simp add: Let_def)
    have "sha_part (sha_update_loop s2 (drop n data)) ((m @ take n data) @ drop n data) \<and>
          sha_bytes (sha_update_loop s2 (drop n data)) = sha_bytes s2"
      using "1.IH" [OF _ refl n refl, of s2 "m @ take n data"] False small part unfolding s2_def
      by (simp add: Let_def)
    moreover have "sha_bytes s2 = sha_bytes s"
      by (simp add: s2_def Let_def sha_transform_def)
    ultimately show ?thesis using step by simp
  qed
qed

lemma sha256_update_repr: "sha_repr s m \<Longrightarrow> sha_repr (sha256_update s data) (m @ data)"
  using sha_update_loop_part
    [of "s\<lparr>sha_bytes := sha_bytes s + of_nat (length data)\<rparr>" m data]
  by (simp add: sha_repr_def sha256_update_def)

lemma sha256_updates_repr: "sha_repr s m \<Longrightarrow> sha_repr (foldl sha256_update s parts) (m @ concat parts)"
proof (induction parts arbitrary: s m)
  case Nil
  then show ?case by simp
next
  case (Cons p parts)
  then show ?case using sha256_update_repr [of s m p] by fastforce
qed

lemma pad_zeros_one_block: "k < 56 \<Longrightarrow> (119 - k) mod 64 = 55 - (k :: nat)"
proof -
  assume "k < 56"
  then have "119 - k = 64 + (55 - k)" by arith
  then show ?thesis using \<open>k < 56\<close> by (simp only: mod_add_self1) simp
qed

lemma pad_zeros_two_blocks:
  "\<not> k < 56 \<Longrightarrow> k < 64 \<Longrightarrow> (119 - k) mod 64 = (63 - k) + (56 :: nat)"
  by simp

lemma sha256_finish_repr:
  assumes "sha_repr s m"
  shows "sha256_finish s = sha_spec m"
proof -
  let ?r = "sha_rest m" and ?be = "put_be64 (of_nat (length m) * 8)"
  have len: "length ?r = length m mod 64" "length ?r < 64"
    by (simp_all add: length_sha_rest)
  have blk: "length (sha_block s) = 64" "take (length ?r) (sha_block s) = ?r"
      "sha_block_size s = length ?r" "sha_h s = sha_absorb sha_iv m"
      "sha_bytes s = of_nat (length m)"
    using assms by (auto simp: sha_repr_def sha_part_def)
  define t where "t = drop (length ?r) (sha_block s)"
  have block: "sha_block s = ?r @ t" "length t = 64 - length ?r"
    unfolding t_def by (metis append_take_drop_id blk(2)) (simp add: blk(1))
  have marked: "write_at (length ?r) [0x80] (sha_block s) = (?r @ [0x80]) @ drop 1 t"
    by (simp add: block(1) write_at_append)
  show ?thesis
  proof (cases "length ?r < 56")
    case True
    let ?z = "replicate (55 - length ?r) 0"
    have z: "(119 - length m mod 64) mod 64 = 55 - length ?r"
      using pad_zeros_one_block [of "length ?r"] True by (simp only: len(1))
    have zeroed: "write_at (Suc (length ?r)) ?z ((?r @ [0x80]) @ drop 1 t) =
        (?r @ [0x80] @ ?z) @ drop (Suc (55 - length ?r)) t"
      using True by (subst write_at_append) simp_all
    have final: "write_at 56 ?be ((?r @ [0x80] @ ?z) @ drop (Suc (55 - length ?r)) t) =
        ?r @ [0x80] @ ?z @ ?be"
      using True block(2) by (subst write_at_append) simp_all
    have pad: "sha_pad m = m @ ([0x80] @ ?z @ ?be)"
      by (simp only: sha_pad_def z append_assoc)
    have "length (?r @ ([0x80] @ ?z @ ?be)) = 64"
      using True by simp
    then have "sha_spec m = sha_digest (sha_compress (sha_absorb sha_iv m)
        (?r @ ([0x80] @ ?z @ ?be)))"
      by (simp only: sha_spec_def pad sha_absorb_append [of sha_iv m] sha_absorb_one)
    then show ?thesis
      using True blk marked zeroed final
      by (simp add: sha256_finish_def sha_transform_def Let_def)
  next
    case False
    let ?z = "replicate (63 - length ?r) 0"
    have z: "(119 - length m mod 64) mod 64 = (63 - length ?r) + 56"
      using pad_zeros_two_blocks [of "length ?r", OF False len(2)] by (simp only: len(1))
    have zeroed: "write_at (Suc (length ?r)) ?z ((?r @ [0x80]) @ drop 1 t) = ?r @ [0x80] @ ?z"
      using False block(2) len(2) by (subst write_at_append) simp_all
    have final: "write_at 56 ?be (write_at 0 (replicate 56 0) (?r @ [0x80] @ ?z)) =
        replicate 56 0 @ ?be"
      using len(2) False by (simp add: write_at_def)
    have pad: "sha_pad m = m @ (([0x80] @ ?z) @ (replicate 56 0 @ ?be))"
      by (simp only: sha_pad_def z append_assoc replicate_add)
    have one: "length (?r @ ([0x80] @ ?z)) = 64" and two: "length (replicate 56 0 @ ?be) = 64"
      using len(2) False by simp_all
    have "sha_spec m = sha_digest (sha_compress (sha_compress (sha_absorb sha_iv m)
        (?r @ ([0x80] @ ?z))) (replicate 56 0 @ ?be))"
      using sha_absorb_block [OF one] sha_absorb_one [OF two]
      by (simp only: sha_spec_def pad sha_absorb_append [of sha_iv m] append_assoc)
    then show ?thesis
      using False blk marked zeroed final
      by (simp add: sha256_finish_def sha_transform_def Let_def)
  qed
qed

lemma content_sha256_spec: "content_sha256 m = sha_spec m"
  unfolding content_sha256_def
  using sha256_finish_repr [OF sha256_update_repr [OF sha_repr_init, of m]] by simp

lemma length_sha_digest [simp, range]: "length (sha_digest v) = 32"
  by (cases v rule: sha_digest.cases) simp

lemma length_content_sha256 [simp, range]: "length (content_sha256 m) = 32"
  by (simp add: content_sha256_spec sha_spec_def)

text \<open>The hexadecimal text of a digest: two digits of the 16 per byte, and injective.\<close>

lemma length_sha256_hex [simp, range]: "length (sha256_hex ds) = 2 * length ds"
  by (induction ds) (simp_all add: sha256_hex_def)

lemma low_nibble_less: "unat (b AND 15 :: u8) < 16"
proof -
  have "unat (b AND 15) \<le> unat (15 :: u8)"
    by (rule word_and_le1 [THEN word_le_nat_alt [THEN iffD1]])
  then show ?thesis by simp
qed

lemma high_nibble_less: "unat (drop_bit 4 b :: u8) < 16"
proof -
  have "unat b < 256" using unsigned_less [of b] by simp
  then show ?thesis by (simp add: drop_bit_eq_div unat_div less_mult_imp_div_less)
qed

lemma hex_digit_inj: "i < 16 \<Longrightarrow> j < 16 \<Longrightarrow> hex_digits ! i = hex_digits ! j \<Longrightarrow> i = j"
proof -
  have "distinct hex_digits" "length hex_digits = 16"
    by (simp_all add: hex_digits_def)
  then show "i < 16 \<Longrightarrow> j < 16 \<Longrightarrow> hex_digits ! i = hex_digits ! j \<Longrightarrow> i = j"
    by (simp add: nth_eq_iff_index_eq)
qed

lemma nibbles_inj:
  assumes "drop_bit 4 a = drop_bit 4 b" "a AND 15 = b AND (15 :: u8)"
  shows "a = b"
proof -
  have split: "x = push_bit 4 (drop_bit 4 x) OR (x AND 15)" for x :: u8
  proof (rule bit_word_eqI)
    fix n assume "n < LENGTH(8)"
    have m: "(15 :: u8) = mask 4" by (simp add: mask_eq_exp_minus_1)
    show "bit x n = bit (push_bit 4 (drop_bit 4 x) OR (x AND 15)) n"
      using \<open>n < LENGTH(8)\<close> unfolding m by (cases "n < 4") (auto simp: bit_simps)
  qed
  show ?thesis using split [of a] split [of b] assms by metis
qed

lemma sha256_hex_inj: "sha256_hex xs = sha256_hex ys \<Longrightarrow> xs = ys"
proof (induction xs arbitrary: ys)
  case Nil
  then show ?case by (cases ys) (simp_all add: sha256_hex_def)
next
  case (Cons x xs)
  then obtain y ys' where ys: "ys = y # ys'"
    by (cases ys) (simp_all add: sha256_hex_def)
  have "drop_bit 4 x = drop_bit 4 y" "x AND 15 = y AND 15" "sha256_hex xs = sha256_hex ys'"
    using Cons.prems hex_digit_inj [OF high_nibble_less high_nibble_less, of x y]
      hex_digit_inj [OF low_nibble_less low_nibble_less, of x y]
    by (simp_all add: ys sha256_hex_def word_unat_eq_iff)
  then show ?case using nibbles_inj [of x y] Cons.IH [of ys'] ys by simp
qed

section \<open>The streaming interface\<close>

text \<open>C18: The streaming hash over any split of a message into parts, empty ones included, is
  SHA-256 of the whole message as the padding-and-blocks specification has it.\<close>

theorem sha256_chunking:
  "sha256_finish (foldl sha256_update sha256_init parts) = sha_spec (concat parts)"
  using sha256_finish_repr [OF sha256_updates_repr [OF sha_repr_init, of parts]] by simp

text \<open>The hexadecimal text of a one-shot digest has 64 characters, and two digests have the
  same text only when they are the same bytes, so comparing texts compares digests.\<close>

theorem sha256_hex_faithful:
  "length (sha256_hex (content_sha256 m)) = 64 \<and>
   (sha256_hex (content_sha256 m) = sha256_hex d) = (content_sha256 m = d)"
  using sha256_hex_inj [of "content_sha256 m" d] by auto

end
