(* ===== verification/SgbBoot.thy ===== *)
theory SgbBoot
  imports ContentHash
begin

text \<open>
  The loader of the SGB2 boot ROM (\<open>runtimes/gb/src/server/sgb_boot_resource.c\<close>): its own
  copy of SHA-256, the resolution of the resource path, and the checks a file has to pass.
  What the process sees of its environment (the variable, the executable's path, the
  files) is a record of its own.
\<close>

unbundle bit_operations_syntax

section \<open>The second copy of SHA-256\<close>

definition rotr32 :: "u32 \<Rightarrow> nat \<Rightarrow> u32" where
  "rotr32 v shift = drop_bit shift v OR push_bit (32 - shift) v"

definition sgb_k :: "u32 list" where
  "sgb_k =
    0x428A2F98 # 0x71374491 # 0xB5C0FBCF # 0xE9B5DBA5 # 0x3956C25B # 0x59F111F1 # 0x923F82A4 # 0xAB1C5ED5 #
    0xD807AA98 # 0x12835B01 # 0x243185BE # 0x550C7DC3 # 0x72BE5D74 # 0x80DEB1FE # 0x9BDC06A7 # 0xC19BF174 #
    0xE49B69C1 # 0xEFBE4786 # 0x0FC19DC6 # 0x240CA1CC # 0x2DE92C6F # 0x4A7484AA # 0x5CB0A9DC # 0x76F988DA #
    0x983E5152 # 0xA831C66D # 0xB00327C8 # 0xBF597FC7 # 0xC6E00BF3 # 0xD5A79147 # 0x06CA6351 # 0x14292967 #
    0x27B70A85 # 0x2E1B2138 # 0x4D2C6DFC # 0x53380D13 # 0x650A7354 # 0x766A0ABB # 0x81C2C92E # 0x92722C85 #
    0xA2BFE8A1 # 0xA81A664B # 0xC24B8B70 # 0xC76C51A3 # 0xD192E819 # 0xD6990624 # 0xF40E3585 # 0x106AA070 #
    0x19A4C116 # 0x1E376C08 # 0x2748774C # 0x34B0BCB5 # 0x391C0CB3 # 0x4ED8AA4A # 0x5B9CCA4F # 0x682E6FF3 #
    0x748F82EE # 0x78A5636F # 0x84C87814 # 0x8CC70208 # 0x90BEFFFA # 0xA4506CEB # 0xBEF9A3F7 # 0xC67178F2 # []"

record sgb_sha =
  sgb_h :: sha_vars
  sgb_bit_count :: u64
  sgb_block :: bytes
  sgb_used :: nat

definition sgb_w_step :: "u32 list \<Rightarrow> nat \<Rightarrow> u32 list" where
  "sgb_w_step w i =
     (let s0 = rotr32 (w ! (i - 15)) 7 XOR rotr32 (w ! (i - 15)) 18 XOR drop_bit 3 (w ! (i - 15));
          s1 = rotr32 (w ! (i - 2)) 17 XOR rotr32 (w ! (i - 2)) 19 XOR drop_bit 10 (w ! (i - 2))
      in w @ [w ! (i - 16) + s0 + w ! (i - 7) + s1])"

fun sgb_round :: "u32 list \<Rightarrow> sha_vars \<Rightarrow> nat \<Rightarrow> sha_vars" where
  "sgb_round w (a, b, c, d, e, f, g, h) i =
     (let s1 = rotr32 e 6 XOR rotr32 e 11 XOR rotr32 e 25;
          ch = (e AND f) XOR (NOT e AND g);
          t1 = h + s1 + ch + sgb_k ! i + w ! i;
          s0 = rotr32 a 2 XOR rotr32 a 13 XOR rotr32 a 22;
          maj = (a AND b) XOR (a AND c) XOR (b AND c);
          t2 = s0 + maj
      in (t1 + t2, a, b, c, d + t1, e, f, g))"

definition sgb_transform :: "sgb_sha \<Rightarrow> sgb_sha" where
  "sgb_transform s =
     (let w = foldl sgb_w_step (map (\<lambda>i. get_be32 (drop (4 * i) (sgb_block s))) [0..<16]) [16..<64]
      in case (sgb_h s, foldl (sgb_round w) (sgb_h s) [0..<64]) of
           ((h0, h1, h2, h3, h4, h5, h6, h7), (a, b, c, d, e, f, g, h)) \<Rightarrow>
             s\<lparr>sgb_h := (h0 + a, h1 + b, h2 + c, h3 + d, h4 + e, h5 + f, h6 + g, h7 + h)\<rparr>)"

definition sgb_sha256_init :: sgb_sha where
  "sgb_sha256_init =
     \<lparr>sgb_h = (0x6A09E667, 0xBB67AE85, 0x3C6EF372, 0xA54FF53A,
               0x510E527F, 0x9B05688C, 0x1F83D9AB, 0x5BE0CD19),
      sgb_bit_count = 0, sgb_block = replicate 64 0, sgb_used = 0\<rparr>"

function sgb_update_loop :: "sgb_sha \<Rightarrow> bytes \<Rightarrow> sgb_sha" where
  "sgb_update_loop s data =
     (if data = [] \<or> 64 < sgb_used s then s
      else let available = 64 - sgb_used s;
               n = (if length data < available then length data else available);
               s1 = s\<lparr>sgb_block := write_at (sgb_used s) (take n data) (sgb_block s),
                      sgb_used := sgb_used s + n\<rparr>;
               s2 = (if sgb_used s1 = 64 then (sgb_transform s1)\<lparr>sgb_used := 0\<rparr> else s1)
           in sgb_update_loop s2 (drop n data))"
  by pat_completeness auto
termination
  by (relation "measure (\<lambda>(s, data). 2 * length data + (if sgb_used s = 64 then 1 else 0))")
     (auto simp: Let_def)

declare sgb_update_loop.simps [simp del]

definition sgb_sha256_update :: "sgb_sha \<Rightarrow> bytes \<Rightarrow> sgb_sha" where
  "sgb_sha256_update s data =
     sgb_update_loop (s\<lparr>sgb_bit_count := sgb_bit_count s + of_nat (length data) * 8\<rparr>) data"

definition sgb_sha256_finish :: "sgb_sha \<Rightarrow> bytes" where
  "sgb_sha256_finish s =
     (let s1 = s\<lparr>sgb_block := write_at (sgb_used s) [0x80] (sgb_block s),
                 sgb_used := sgb_used s + 1\<rparr>;
          s2 = (if 56 < sgb_used s1
                then (sgb_transform (s1\<lparr>sgb_block := write_at (sgb_used s1)
                        (replicate (64 - sgb_used s1) 0) (sgb_block s1)\<rparr>))\<lparr>sgb_used := 0\<rparr>
                else s1);
          s3 = s2\<lparr>sgb_block := write_at (sgb_used s2)
                     (replicate (56 - sgb_used s2) 0) (sgb_block s2)\<rparr>;
          s4 = s3\<lparr>sgb_block := write_at 56 (put_be64 (sgb_bit_count s3)) (sgb_block s3)\<rparr>
      in sha_digest (sgb_h (sgb_transform s4)))"

text \<open>
  The two copies simulate each other: same chaining values, block and fill, and a bit
  count that is eight times the byte count modulo \<open>2 ^ 64\<close>.
\<close>

definition sgb_abs :: "sgb_sha \<Rightarrow> sha_state \<Rightarrow> bool" where
  "sgb_abs g s \<longleftrightarrow> sgb_h g = sha_h s \<and> sgb_block g = sha_block s \<and>
     sgb_used g = sha_block_size s \<and> sgb_bit_count g = sha_bytes s * 8"

lemma rotr32_rotr: "rotr32 = rotr"
  by (simp add: fun_eq_iff rotr32_def rotr_def)

lemma sgb_k_sha_k: "sgb_k = sha_k"
  by (simp add: sgb_k_def sha_k_def)

lemma sgb_round_sha_round: "sgb_round = sha_round"
proof (intro ext)
  fix w i and v :: sha_vars
  show "sgb_round w v i = sha_round w v i"
    by (cases v rule: sha_digest.cases) (simp only: sgb_round.simps sha_round.simps rotr32_rotr sgb_k_sha_k)
qed

lemma sgb_w_step_sha_w_step: "sgb_w_step = sha_w_step"
  by (simp only: fun_eq_iff sgb_w_step_def sha_w_step_def rotr32_rotr simp_thms)

lemma sgb_transform_abs: "sgb_abs g s \<Longrightarrow> sgb_abs (sgb_transform g) (sha_transform s)"
  by (auto simp: sgb_abs_def sgb_transform_def sha_transform_def sha_compress_def
        sha_schedule_def sgb_round_sha_round sgb_w_step_sha_w_step Let_def split: prod.splits)

lemma sgb_update_loop_abs:
  "sgb_abs g s \<Longrightarrow> sgb_abs (sgb_update_loop g data) (sha_update_loop s data)"
proof (induction s data arbitrary: g rule: sha_update_loop.induct)
  case (1 s data)
  show ?case
  proof (cases "data = [] \<or> 64 < sha_block_size s")
    case True
    with "1.prems" show ?thesis
      by (auto simp: sgb_update_loop.simps [of g data] sha_update_loop.simps [of s data] sgb_abs_def)
  next
    case False
    define n where "n = (if length data < 64 - sha_block_size s then length data
                         else 64 - sha_block_size s)"
    define s1 where "s1 = s\<lparr>sha_block := write_at (sha_block_size s) (take n data) (sha_block s),
                      sha_block_size := sha_block_size s + n\<rparr>"
    define g1 where "g1 = g\<lparr>sgb_block := write_at (sgb_used g) (take n data) (sgb_block g),
                      sgb_used := sgb_used g + n\<rparr>"
    define s2 where "s2 = (if sha_block_size s1 = 64
                           then (sha_transform s1)\<lparr>sha_block_size := 0\<rparr> else s1)"
    define g2 where "g2 = (if sgb_used g1 = 64 then (sgb_transform g1)\<lparr>sgb_used := 0\<rparr> else g1)"
    have "sgb_abs g1 s1" using "1.prems" by (simp add: g1_def s1_def sgb_abs_def)
    then have g2s2: "sgb_abs g2 s2"
      using sgb_transform_abs [of g1 s1] by (auto simp: g2_def s2_def sgb_abs_def)
    have "sgb_abs (sgb_update_loop g2 (drop n data)) (sha_update_loop s2 (drop n data))"
      by (rule "1.IH" [OF False refl n_def s1_def s2_def g2s2])
    moreover have "sgb_used g = sha_block_size s" using "1.prems" by (simp add: sgb_abs_def)
    then have "sgb_update_loop g data = sgb_update_loop g2 (drop n data)"
      using False unfolding g2_def g1_def n_def
      by (subst sgb_update_loop.simps) (simp add: Let_def)
    moreover have "sha_update_loop s data = sha_update_loop s2 (drop n data)"
      using False unfolding s2_def s1_def n_def
      by (subst sha_update_loop.simps) (simp add: Let_def)
    ultimately show ?thesis by simp
  qed
qed

lemma sgb_sha256_finish_abs:
  assumes "sgb_abs g s"
  shows "sgb_sha256_finish g = sha256_finish s"
proof -
  define s1 where "s1 = s\<lparr>sha_block := write_at (sha_block_size s) [0x80] (sha_block s),
                          sha_block_size := sha_block_size s + 1\<rparr>"
  define g1 where "g1 = g\<lparr>sgb_block := write_at (sgb_used g) [0x80] (sgb_block g),
                          sgb_used := sgb_used g + 1\<rparr>"
  define s2 where "s2 = (if 56 < sha_block_size s1
      then (sha_transform (s1\<lparr>sha_block := write_at (sha_block_size s1)
              (replicate (64 - sha_block_size s1) 0) (sha_block s1)\<rparr>))\<lparr>sha_block_size := 0\<rparr> else s1)"
  define g2 where "g2 = (if 56 < sgb_used g1
      then (sgb_transform (g1\<lparr>sgb_block := write_at (sgb_used g1)
              (replicate (64 - sgb_used g1) 0) (sgb_block g1)\<rparr>))\<lparr>sgb_used := 0\<rparr> else g1)"
  define s4 where "s4 = s2\<lparr>sha_block := write_at 56 (put_be64 (sha_bytes s * 8))
      (write_at (sha_block_size s2) (replicate (56 - sha_block_size s2) 0) (sha_block s2))\<rparr>"
  define g4 where "g4 = g2\<lparr>sgb_block := write_at 56 (put_be64 (sgb_bit_count g2))
      (write_at (sgb_used g2) (replicate (56 - sgb_used g2) 0) (sgb_block g2))\<rparr>"
  have 1: "sgb_abs g1 s1" using assms by (simp add: s1_def g1_def sgb_abs_def)
  then have "sgb_abs (g1\<lparr>sgb_block := b\<rparr>) (s1\<lparr>sha_block := b\<rparr>)" for b
    by (simp add: sgb_abs_def)
  from sgb_transform_abs [OF this] 1 have 2: "sgb_abs g2 s2"
    unfolding s2_def g2_def by (simp add: sgb_abs_def)
  have "sha_bytes s2 = sha_bytes s"
    by (simp add: s2_def s1_def sha_transform_def)
  with 2 have "sgb_abs g4 s4" by (simp add: s4_def g4_def sgb_abs_def)
  then have "sgb_h (sgb_transform g4) = sha_h (sha_transform s4)"
    using sgb_transform_abs unfolding sgb_abs_def by blast
  moreover have "sgb_sha256_finish g = sha_digest (sgb_h (sgb_transform g4))"
    by (simp add: sgb_sha256_finish_def g4_def g2_def g1_def Let_def)
  moreover have "sha256_finish s = sha_digest (sha_h (sha_transform s4))"
    by (simp add: sha256_finish_def s4_def s2_def s1_def Let_def)
  ultimately show ?thesis by simp
qed

lemma sgb_sha256_update_abs:
  "sgb_abs g s \<Longrightarrow> sgb_abs (sgb_sha256_update g data) (sha256_update s data)"
  unfolding sgb_sha256_update_def sha256_update_def
  by (rule sgb_update_loop_abs) (simp add: sgb_abs_def distrib_right)

lemma sgb_abs_init: "sgb_abs sgb_sha256_init sha256_init"
  by (simp add: sgb_abs_def sgb_sha256_init_def sha256_init_def sha_iv_def)

lemma sgb_sha256_abs: "sgb_sha256_finish (sgb_sha256_update sgb_sha256_init m) = content_sha256 m"
  unfolding content_sha256_def
  by (intro sgb_sha256_finish_abs sgb_sha256_update_abs sgb_abs_init)

section \<open>Finding and checking the resource\<close>

text \<open>
  The environment: the configuration variable, the target of \<open>/proc/self/exe\<close> (None when
  \<open>readlink\<close> fails), and the files: content and whether reading them fails.
\<close>

record boot_env =
  env_boot_rom :: "string option"
  exe_link :: "string option"
  files :: "string \<Rightarrow> (bytes \<times> bool) option"

definition RESOURCE_PATH_MAX :: nat where "RESOURCE_PATH_MAX = 4096"
definition SGB2_BOOT_ROM_SIZE :: nat where "SGB2_BOOT_ROM_SIZE = 256"
definition SGB2_BOOT_ROM_SHA256 :: string where
  "SGB2_BOOT_ROM_SHA256 = ''8a65465a9da7ec657726a671da9a85963cf19d2c975e499aea6b97eb37e0b6ea''"

definition executable_directory :: "boot_env \<Rightarrow> nat \<Rightarrow> string option" where
  "executable_directory env out_size =
     (case exe_link env of
        None \<Rightarrow> None
      | Some target \<Rightarrow>
          let path = take (RESOURCE_PATH_MAX - 1) target
          in if path = [] then None
             else case cut_last (CHR ''/'') path of
                    None \<Rightarrow> None
                  | Some dir \<Rightarrow> if out_size \<le> length dir then None else Some dir)"

definition resolve_resource_path :: "boot_env \<Rightarrow> nat \<Rightarrow> string option" where
  "resolve_resource_path env out_size =
     (case env_boot_rom env of
        Some (c # cs) \<Rightarrow> if length (c # cs) < out_size then Some (c # cs) else None
      | _ \<Rightarrow>
          (case executable_directory env RESOURCE_PATH_MAX of
             None \<Rightarrow> None
           | Some dir \<Rightarrow>
               let path = dir @ ''/bootroms/sgb2_boot.bin''
               in if length path < out_size then Some path else None))"

datatype boot_error = CannotResolve | CannotOpen | WrongSize | DigestMismatch

text \<open>
  The loader gets the output buffer and returns it as it leaves it, with an error or the
  resolved path.
\<close>

definition sgb2_boot_resource_load ::
  "boot_env \<Rightarrow> bytes \<Rightarrow> (boot_error + string) \<times> bytes" where
  "sgb2_boot_resource_load env out =
     (case resolve_resource_path env RESOURCE_PATH_MAX of
        None \<Rightarrow> (Inl CannotResolve, out)
      | Some path \<Rightarrow>
          (case files env path of
             None \<Rightarrow> (Inl CannotOpen, out)
           | Some (content, failed) \<Rightarrow>
               let n = min SGB2_BOOT_ROM_SIZE (length content);
                   out' = write_at 0 (take n content) out;
                   at_eof = length content \<le> n
               in if failed \<or> n \<noteq> SGB2_BOOT_ROM_SIZE \<or> \<not> at_eof then (Inl WrongSize, out')
                  else let digest = sgb_sha256_finish (sgb_sha256_update sgb_sha256_init
                                      (take SGB2_BOOT_ROM_SIZE out'))
                       in if sha256_hex digest \<noteq> SGB2_BOOT_ROM_SHA256
                          then (Inl DigestMismatch, out')
                          else (Inr path, out')))"

lemma sgb2_boot_resource_load_Inr:
  assumes "sgb2_boot_resource_load env out = (Inr path, out')" "length out = SGB2_BOOT_ROM_SIZE"
  obtains content where "resolve_resource_path env RESOURCE_PATH_MAX = Some path"
    "files env path = Some (content, False)" "length content = SGB2_BOOT_ROM_SIZE"
    "out' = content" "sha256_hex (sha_spec content) = SGB2_BOOT_ROM_SHA256"
proof -
  from assms obtain content where c: "resolve_resource_path env RESOURCE_PATH_MAX = Some path"
      "files env path = Some (content, False)" "length content = SGB2_BOOT_ROM_SIZE"
      and out': "out' = write_at 0 content out"
      and hex: "sha256_hex (content_sha256 (take SGB2_BOOT_ROM_SIZE out')) = SGB2_BOOT_ROM_SHA256"
    by (auto simp: sgb2_boot_resource_load_def Let_def sgb_sha256_abs
             split: option.splits if_splits prod.splits)
  moreover have "out' = content"
    using out' c(3) assms(2) by (simp add: write_at_def)
  ultimately show ?thesis
    using that by (simp add: content_sha256_spec)
qed

text \<open>The boot resource's own SHA-256 implementation, which counts bits where the shared one
  counts bytes, computes the specification over any split of the message into parts.\<close>

theorem sgb_sha256_chunking:
  "sgb_sha256_finish (foldl sgb_sha256_update sgb_sha256_init parts) = sha_spec (concat parts)"
proof -
  have "sgb_abs g s \<Longrightarrow> sgb_abs (foldl sgb_sha256_update g parts) (foldl sha256_update s parts)" for g s
    by (induction parts arbitrary: g s) (simp_all add: sgb_sha256_update_abs)
  from sgb_sha256_finish_abs [OF this [OF sgb_abs_init]] show ?thesis
    using sha256_finish_repr [OF sha256_updates_repr [OF sha_repr_init, of parts]] by simp
qed

text \<open>Loading the Super Game Boy 2 boot ROM: success hands back the 256 bytes of the resolved
  file, and only when their SHA-256 is the pinned one; each error is reported in exactly the
  situation it names.\<close>

theorem sgb2_boot_load_outcome:
  assumes "length out = SGB2_BOOT_ROM_SIZE"
  shows "case sgb2_boot_resource_load env out of
      (Inr path, out') \<Rightarrow> resolve_resource_path env RESOURCE_PATH_MAX = Some path \<and>
         files env path = Some (out', False) \<and> length out' = SGB2_BOOT_ROM_SIZE \<and>
         sha256_hex (sha_spec out') = SGB2_BOOT_ROM_SHA256
    | (Inl CannotResolve, out') \<Rightarrow> out' = out \<and> resolve_resource_path env RESOURCE_PATH_MAX = None
    | (Inl CannotOpen, out') \<Rightarrow> out' = out \<and>
         (\<exists>path. resolve_resource_path env RESOURCE_PATH_MAX = Some path \<and> files env path = None)
    | (Inl WrongSize, out') \<Rightarrow>
         (\<exists>path content bad. resolve_resource_path env RESOURCE_PATH_MAX = Some path \<and>
            files env path = Some (content, bad) \<and> (bad \<or> length content \<noteq> SGB2_BOOT_ROM_SIZE))
    | (Inl DigestMismatch, out') \<Rightarrow>
         (\<exists>path. resolve_resource_path env RESOURCE_PATH_MAX = Some path \<and>
            files env path = Some (out', False) \<and> length out' = SGB2_BOOT_ROM_SIZE \<and>
            sha256_hex (sha_spec out') \<noteq> SGB2_BOOT_ROM_SHA256)"
  using assms
  by (auto simp: sgb2_boot_resource_load_def Let_def sgb_sha256_abs content_sha256_spec write_at_def
           split: option.splits)

theorem sgb2_boot_load_outcome_witness:
  "case sgb2_boot_resource_load \<lparr>env_boot_rom = None, exe_link = None, files = (\<lambda>_. None)\<rparr>
          (replicate 256 0) of
      (Inr path, out') \<Rightarrow> resolve_resource_path \<lparr>env_boot_rom = None, exe_link = None, files = (\<lambda>_. None)\<rparr>
           RESOURCE_PATH_MAX = Some path \<and> False
    | (Inl e, out') \<Rightarrow> e = CannotResolve \<and> out' = replicate 256 0"
  using sgb2_boot_load_outcome [of "replicate 256 0"
      "\<lparr>env_boot_rom = None, exe_link = None, files = (\<lambda>_. None)\<rparr>"]
  by (simp add: SGB2_BOOT_ROM_SIZE_def sgb2_boot_resource_load_def resolve_resource_path_def
        executable_directory_def)

end
