(* ===== verification/SecureMemory.thy ===== *)
theory SecureMemory
  imports Common
begin

text \<open>
  Wiping and the page-locked buffers of \<open>runtimes/gb/src/server/secure_memory.c\<close>. A block
  from \<open>malloc\<close> is the list of its bytes; the operations that free blocks return, beside
  their result, the content each block had when it was handed to \<open>free\<close>, so that
  "wiped before it is freed" is a statement about that list. What \<open>malloc\<close> and \<open>mlock\<close>
  answer is a parameter.
\<close>

definition secure_zero :: "bytes option \<Rightarrow> nat \<Rightarrow> bytes option" where
  "secure_zero memory n = map_option (write_at 0 (replicate n 0)) memory"

lemma secure_zero_block [simp]: "length b = n \<Longrightarrow> secure_zero (Some b) n = Some (replicate n 0)"
  by (simp add: secure_zero_def write_at_def)

lemma secure_zero_None [simp]: "secure_zero None n = None"
  by (simp add: secure_zero_def)

definition all_zero :: "bytes \<Rightarrow> bool" where
  "all_zero bs \<longleftrightarrow> (\<forall>b \<in> set bs. b = 0)"

lemma all_zero_replicate [simp]: "all_zero (replicate n 0)"
  by (simp add: all_zero_def)

text \<open>Every block of a list of freed blocks was wiped.\<close>

definition wiped :: "bytes list \<Rightarrow> bool" where
  "wiped blocks \<longleftrightarrow> list_all all_zero blocks"

lemma wiped_set: "wiped blocks \<longleftrightarrow> (\<forall>b \<in> set blocks. all_zero b)"
  by (simp add: wiped_def list_all_iff)

lemma wiped_Nil [simp]: "wiped []"
  by (simp add: wiped_def)

text \<open>A fresh block of \<open>n\<close> bytes with arbitrary content, or None.\<close>

type_synonym malloc = "nat \<Rightarrow> bytes option"

definition malloc_ok :: "malloc \<Rightarrow> bool" where
  "malloc_ok m \<longleftrightarrow> (\<forall>n. case m n of None \<Rightarrow> True | Some b \<Rightarrow> length b = n)"

lemma malloc_length: "malloc_ok m \<Longrightarrow> m n = Some b \<Longrightarrow> length b = n"
  by (auto simp: malloc_ok_def dest: spec [of _ n])

datatype lock_policy = LockBestEffort | LockRequired

record secure_buffer =
  sb_data :: "bytes option"
  sb_size :: nat
  sb_locked :: bool

definition SECURE_BUFFER_MAX_SIZE :: nat where "SECURE_BUFFER_MAX_SIZE = 1048576"

definition empty_secure_buffer :: secure_buffer where
  "empty_secure_buffer = \<lparr>sb_data = None, sb_size = 0, sb_locked = False\<rparr>"

text \<open>\<open>lock_pages\<close>: nothing to lock counts as locked; \<open>mlock\<close> is what the system answers.\<close>

definition lock_pages :: "(bytes \<Rightarrow> bool) \<Rightarrow> bytes option \<Rightarrow> nat \<Rightarrow> bool" where
  "lock_pages mlock memory n = (case memory of None \<Rightarrow> True | Some b \<Rightarrow> n = 0 \<or> mlock b)"

text \<open>Result: the buffer, the freed blocks, and whether it succeeded.\<close>

definition secure_buffer_init ::
  "malloc \<Rightarrow> (bytes \<Rightarrow> bool) \<Rightarrow> secure_buffer option \<Rightarrow> nat \<Rightarrow> lock_policy \<Rightarrow>
   secure_buffer option \<times> bytes list \<times> bool" where
  "secure_buffer_init m mlock buffer n policy =
     (case buffer of
        None \<Rightarrow> (None, [], False)
      | Some b \<Rightarrow>
          if SECURE_BUFFER_MAX_SIZE < n then (Some b, [], False)
          else if n = 0 then (Some empty_secure_buffer, [], True)
          else (case m n of
                  None \<Rightarrow> (Some empty_secure_buffer, [], False)
                | Some fresh \<Rightarrow>
                    let copy = replicate n 0; locked = lock_pages mlock (Some copy) n
                    in if \<not> locked \<and> policy = LockRequired
                       then (Some empty_secure_buffer, [the (secure_zero (Some copy) n)], False)
                       else (Some \<lparr>sb_data = Some copy, sb_size = n, sb_locked = locked\<rparr>, [],
                             True)))"

definition secure_buffer_init_copy ::
  "malloc \<Rightarrow> (bytes \<Rightarrow> bool) \<Rightarrow> secure_buffer option \<Rightarrow> bytes option \<Rightarrow> nat \<Rightarrow> lock_policy \<Rightarrow>
   secure_buffer option \<times> bytes list \<times> bool" where
  "secure_buffer_init_copy m mlock buffer source n policy =
     (if n \<noteq> 0 \<and> source = None then (buffer, [], False)
      else case secure_buffer_init m mlock buffer n policy of
             (b', freed, False) \<Rightarrow> (b', freed, False)
           | (b', freed, True) \<Rightarrow>
               (if n \<noteq> 0
                then map_option (\<lambda>b. b\<lparr>sb_data := map_option (write_at 0 (take n (the source)))
                                          (sb_data b)\<rparr>) b'
                else b', freed, True))"

definition secure_buffer_clear :: "secure_buffer option \<Rightarrow> secure_buffer option" where
  "secure_buffer_clear buffer =
     map_option (\<lambda>b. b\<lparr>sb_data := secure_zero (sb_data b) (sb_size b)\<rparr>) buffer"

definition secure_buffer_release :: "secure_buffer option \<Rightarrow> secure_buffer option \<times> bytes list" where
  "secure_buffer_release buffer =
     (case buffer of
        None \<Rightarrow> (None, [])
      | Some b \<Rightarrow>
          (Some empty_secure_buffer,
           case secure_zero (sb_data b) (sb_size b) of None \<Rightarrow> [] | Some block \<Rightarrow> [block]))"

section \<open>Properties\<close>

definition secure_buffer_ok :: "secure_buffer \<Rightarrow> bool" where
  "secure_buffer_ok b \<longleftrightarrow> sb_size b \<le> SECURE_BUFFER_MAX_SIZE \<and>
     (case sb_data b of None \<Rightarrow> sb_size b = 0 \<and> \<not> sb_locked b | Some d \<Rightarrow> length d = sb_size b)"

lemma empty_secure_buffer_ok [simp]: "secure_buffer_ok empty_secure_buffer"
  by (simp add: secure_buffer_ok_def empty_secure_buffer_def)

lemma secure_buffer_init_ok:
  assumes "secure_buffer_init m mlock (Some b) n policy = (p, freed, ok)" "secure_buffer_ok b"
  obtains b' where "p = Some b'" "secure_buffer_ok b'" "\<forall>x \<in> set freed. all_zero x"
    "ok \<Longrightarrow> sb_size b' = n" "ok \<Longrightarrow> n \<noteq> 0 \<Longrightarrow> sb_data b' = Some (replicate n 0)"
    "ok \<Longrightarrow> n = 0 \<Longrightarrow> b' = empty_secure_buffer"
    "ok \<Longrightarrow> policy = LockRequired \<Longrightarrow> n \<noteq> 0 \<Longrightarrow> sb_locked b'"
proof
  show "p = Some (the p)" using assms
    by (auto simp: secure_buffer_init_def Let_def split: option.splits if_splits)
  show "secure_buffer_ok (the p)" using assms
    by (auto simp: secure_buffer_init_def Let_def secure_buffer_ok_def empty_secure_buffer_def
             split: option.splits if_splits)
qed (use assms in \<open>auto simp: secure_buffer_init_def Let_def empty_secure_buffer_def
       split: option.splits if_splits\<close>)

lemma secure_buffer_init_failed:
  "secure_buffer_init m mlock (Some b) n policy = (p, freed, False) \<Longrightarrow>
   p = Some b \<or> p = Some empty_secure_buffer"
  by (auto simp: secure_buffer_init_def Let_def split: option.splits if_splits)

lemma secure_buffer_init_copy_ok:
  assumes "secure_buffer_init_copy m mlock (Some b) (Some src) n policy = (p, freed, ok)"
    "secure_buffer_ok b" "length src = n"
  shows "\<forall>x \<in> set freed. all_zero x"
    and "\<not> ok \<Longrightarrow> p = Some b \<or> p = Some empty_secure_buffer"
    and "ok \<Longrightarrow> \<exists>b'. p = Some b' \<and> secure_buffer_ok b' \<and> sb_size b' = n \<and>
           (n = 0 \<or> sb_data b' = Some src \<and> (policy = LockBestEffort \<or> sb_locked b'))"
proof -
  obtain p1 f1 ok1 where init: "secure_buffer_init m mlock (Some b) n policy = (p1, f1, ok1)"
    by (metis prod_cases3)
  obtain b1 where b1: "p1 = Some b1" "secure_buffer_ok b1" "\<forall>x \<in> set f1. all_zero x"
    "ok1 \<Longrightarrow> sb_size b1 = n" "ok1 \<Longrightarrow> n \<noteq> 0 \<Longrightarrow> sb_data b1 = Some (replicate n 0)"
    "ok1 \<Longrightarrow> policy = LockRequired \<Longrightarrow> n \<noteq> 0 \<Longrightarrow> sb_locked b1"
    by (rule secure_buffer_init_ok [OF init assms(2)]) blast
  have res: "freed = f1" "ok = ok1" "\<not> ok1 \<Longrightarrow> p = p1" "ok1 \<Longrightarrow> p = (if n \<noteq> 0
      then map_option (\<lambda>b. b\<lparr>sb_data := map_option (write_at 0 (take n src)) (sb_data b)\<rparr>) p1 else p1)"
    using assms(1) init by (auto simp: secure_buffer_init_copy_def split: bool.splits)
  show "\<forall>x \<in> set freed. all_zero x" using b1(3) res(1) by simp
  show "p = Some b \<or> p = Some empty_secure_buffer" if "\<not> ok"
    using secure_buffer_init_failed [of m mlock b n policy p1 f1] init res that by simp
  show "\<exists>b'. p = Some b' \<and> secure_buffer_ok b' \<and> sb_size b' = n \<and>
      (n = 0 \<or> sb_data b' = Some src \<and> (policy = LockBestEffort \<or> sb_locked b'))" if ok
  proof (cases "n = 0")
    case True
    then show ?thesis using that b1 res by simp
  next
    case False
    have "p = Some (b1\<lparr>sb_data := Some src\<rparr>)"
      using that res b1 False assms(3) by (simp add: write_at_def)
    moreover have "policy = LockBestEffort \<or> sb_locked b1"
      using that res(2) b1(6) False by (cases policy) auto
    ultimately show ?thesis
      using that res(2) b1 assms(3) by (simp add: secure_buffer_ok_def split: option.splits)
  qed
qed

lemma secure_buffer_release_wiped:
  "secure_buffer_ok b \<Longrightarrow> secure_buffer_release (Some b) = (p, freed) \<Longrightarrow>
   p = Some empty_secure_buffer \<and> (\<forall>x \<in> set freed. all_zero x) \<and>
   length freed = (case sb_data b of None \<Rightarrow> 0 | Some _ \<Rightarrow> 1)"
  by (auto simp: secure_buffer_release_def secure_buffer_ok_def secure_zero_def write_at_def
           split: option.splits)

text \<open>C24: The life of a secret in a page-locked buffer: after a successful copy the buffer holds
  exactly the source bytes, under a required-lock policy only in locked memory; releasing it
  wipes the block before it is freed and leaves the empty buffer; a failed initialisation
  hands nothing unwiped to free.\<close>

theorem secure_buffer_lifecycle:
  assumes "secure_buffer_ok b" "length src = n"
    and "secure_buffer_init_copy m mlock (Some b) (Some src) n policy = (p, freed, ok)"
  shows "wiped freed \<and>
     (if ok then (\<exists>b' freed'. p = Some b' \<and> sb_size b' = n \<and>
          (n = 0 \<or> sb_data b' = Some src \<and> (policy = LockBestEffort \<or> sb_locked b')) \<and>
          secure_buffer_release p = (Some empty_secure_buffer, freed') \<and>
          wiped freed')
      else p = Some b \<or> p = Some empty_secure_buffer)"
proof (cases ok)
  case True
  obtain b' where b': "p = Some b'" "secure_buffer_ok b'" "sb_size b' = n"
      "n = 0 \<or> sb_data b' = Some src \<and> (policy = LockBestEffort \<or> sb_locked b')"
    using secure_buffer_init_copy_ok(3) [OF assms(3,1,2) True] by blast
  obtain q freed' where "secure_buffer_release (Some b') = (q, freed')" by fastforce
  then show ?thesis
    using secure_buffer_release_wiped [OF b'(2)] b' True secure_buffer_init_copy_ok(1) [OF assms(3,1,2)]
    by (simp add: wiped_set)
next
  case False
  then show ?thesis using secure_buffer_init_copy_ok(1,2) [OF assms(3,1,2)] by (simp add: wiped_set)
qed

theorem secure_buffer_lifecycle_witness:
  "wiped [] \<and>
   (if True then (\<exists>b' freed'. Some \<lparr>sb_data = Some [7], sb_size = 1, sb_locked = True\<rparr> = Some b' \<and>
        sb_size b' = 1 \<and> (1 = (0::nat) \<or> sb_data b' = Some [7] \<and> (LockRequired = LockBestEffort \<or> sb_locked b')) \<and>
        secure_buffer_release (Some \<lparr>sb_data = Some [7], sb_size = 1, sb_locked = True\<rparr>) =
          (Some empty_secure_buffer, freed') \<and> wiped freed')
    else Some \<lparr>sb_data = Some [7], sb_size = 1, sb_locked = True\<rparr> = Some empty_secure_buffer \<or>
         Some \<lparr>sb_data = Some [7], sb_size = 1, sb_locked = True\<rparr> = Some empty_secure_buffer)"
  by (rule secure_buffer_lifecycle [where m = "\<lambda>n. Some (replicate n 0)" and mlock = "\<lambda>_. True"])
     (simp_all add: secure_buffer_init_copy_def secure_buffer_init_def SECURE_BUFFER_MAX_SIZE_def
        lock_pages_def write_at_def)

end
