(* ===== verification/SnapshotIpc.thy ===== *)
theory SnapshotIpc
  imports Streams SecureMemory
begin

text \<open>
  The pipe protocol that hands a pair of save files to the fixed-host child process
  (\<open>c_client/gb_runtime_fixed_host_snapshot_ipc.c\<close>): a 16-byte header with magic, version
  and the two sizes, then the two files. Both directions wipe and free the pair's buffers;
  the freed blocks are part of the result.
\<close>

section \<open>Model\<close>

record snapshot_pair =
  host_data :: "bytes option"
  host_size :: nat
  remote_data :: "bytes option"
  remote_size :: nat

definition empty_pair :: snapshot_pair where
  "empty_pair = \<lparr>host_data = None, host_size = 0, remote_data = None, remote_size = 0\<rparr>"

definition SNAPSHOT_MAX :: nat where "SNAPSHOT_MAX = 2 * 1024 * 1024"

definition SNAPSHOT_MAGIC :: bytes where "SNAPSHOT_MAGIC = [0x49, 0x46, 0x53, 0x31]"

definition block_list :: "bytes option \<Rightarrow> bytes list" where
  "block_list b = (case b of None \<Rightarrow> [] | Some x \<Rightarrow> [x])"

definition snapshot_pair_release :: "snapshot_pair option \<Rightarrow> snapshot_pair option \<times> bytes list" where
  "snapshot_pair_release pair =
     (case pair of
        None \<Rightarrow> (None, [])
      | Some p \<Rightarrow>
          (Some empty_pair,
           block_list (secure_zero (host_data p) (host_size p)) @
           block_list (secure_zero (remote_data p) (remote_size p))))"

text \<open>The bytes a pointer and a size denote; a NULL pointer is only used with size 0.\<close>

definition block_bytes :: "bytes option \<Rightarrow> nat \<Rightarrow> bytes" where
  "block_bytes b n = take n (case b of None \<Rightarrow> [] | Some x \<Rightarrow> x)"

definition snapshot_send_valid :: "snapshot_pair \<Rightarrow> bool" where
  "snapshot_send_valid p \<longleftrightarrow>
     host_size p \<le> SNAPSHOT_MAX \<and> remote_size p \<le> SNAPSHOT_MAX \<and>
     (host_size p \<noteq> 0 \<longrightarrow> host_data p \<noteq> None) \<and> (remote_size p \<noteq> 0 \<longrightarrow> remote_data p \<noteq> None)"

definition snapshot_header :: "snapshot_pair \<Rightarrow> bytes" where
  "snapshot_header p =
     SNAPSHOT_MAGIC @ [1, 0, 0, 0] @ put_be32 (of_nat (host_size p)) @
     put_be32 (of_nat (remote_size p))"

definition snapshot_ipc_send ::
  "'c writer option \<Rightarrow> 'c \<Rightarrow> snapshot_pair option \<Rightarrow>
   'c \<times> snapshot_pair option \<times> bytes list \<times> bool" where
  "snapshot_ipc_send w c pair =
     (let (c', success) =
        (case (w, pair) of
           (Some wr, Some p) \<Rightarrow>
             if snapshot_send_valid p
             then write_parts wr c [snapshot_header p, block_bytes (host_data p) (host_size p),
                                    block_bytes (remote_data p) (remote_size p)]
             else (c, False)
         | _ \<Rightarrow> (c, False));
        (pair', freed) = snapshot_pair_release pair
      in (c', pair', freed, success))"

definition snapshot_header_ok :: "bytes \<Rightarrow> bool" where
  "snapshot_header_ok header \<longleftrightarrow>
     take 4 header = SNAPSHOT_MAGIC \<and> header ! 4 = 1 \<and> header ! 5 = 0 \<and> header ! 6 = 0 \<and>
     header ! 7 = 0"

text \<open>
  Receiving fills the pair step by step; whatever step fails, the pair filled so far is
  released. \<open>recv_fail\<close> is that exit. A block keeps its \<open>malloc\<close> content until its read
  has completed, which no reader of the result can tell: it is wiped if the read fails.
\<close>

definition recv_fail :: "'c \<Rightarrow> snapshot_pair \<Rightarrow> 'c \<times> snapshot_pair option \<times> bytes list \<times> bool" where
  "recv_fail c p = (let (pair', freed) = snapshot_pair_release (Some p) in (c, pair', freed, False))"

definition snapshot_receive_bodies ::
  "'c reader \<Rightarrow> 'c \<Rightarrow> snapshot_pair \<Rightarrow> 'c \<times> snapshot_pair option \<times> bytes list \<times> bool" where
  "snapshot_receive_bodies rd c p =
     (case read_all rd c (host_size p) of
        (c1, None) \<Rightarrow> recv_fail c1 p
      | (c1, Some hs) \<Rightarrow>
          let p1 = p\<lparr>host_data := map_option (\<lambda>_. hs) (host_data p)\<rparr>
          in case read_all rd c1 (remote_size p1) of
               (c2, None) \<Rightarrow> recv_fail c2 p1
             | (c2, Some rs) \<Rightarrow>
                 (c2, Some (p1\<lparr>remote_data := map_option (\<lambda>_. rs) (remote_data p1)\<rparr>), [], True))"

definition snapshot_ipc_receive ::
  "malloc \<Rightarrow> 'c reader option \<Rightarrow> 'c \<Rightarrow> snapshot_pair option \<Rightarrow>
   'c \<times> snapshot_pair option \<times> bytes list \<times> bool" where
  "snapshot_ipc_receive m r c pair =
     (case (r, pair) of
        (Some rd, Some _) \<Rightarrow>
          (case read_all rd c 16 of
             (c1, None) \<Rightarrow> recv_fail c1 empty_pair
           | (c1, Some header) \<Rightarrow>
               if \<not> snapshot_header_ok header then recv_fail c1 empty_pair
               else let p1 = empty_pair\<lparr>host_size := unat (get_be32 (drop 8 header)),
                                        remote_size := unat (get_be32 (drop 12 header))\<rparr>
                    in if SNAPSHOT_MAX < host_size p1 \<or> SNAPSHOT_MAX < remote_size p1
                       then recv_fail c1 p1
                       else let p2 = (if host_size p1 \<noteq> 0
                                      then p1\<lparr>host_data := m (host_size p1)\<rparr> else p1)
                            in if host_size p2 \<noteq> 0 \<and> host_data p2 = None then recv_fail c1 p2
                               else let p3 = (if remote_size p2 \<noteq> 0
                                              then p2\<lparr>remote_data := m (remote_size p2)\<rparr> else p2)
                                    in if remote_size p3 \<noteq> 0 \<and> remote_data p3 = None
                                       then recv_fail c1 p3
                                       else snapshot_receive_bodies rd c1 p3)
      | _ \<Rightarrow> (c, pair, [], False))"

section \<open>Well-formed pairs and wiping\<close>

definition pair_ok :: "snapshot_pair \<Rightarrow> bool" where
  "pair_ok p \<longleftrightarrow>
     (case host_data p of None \<Rightarrow> True | Some d \<Rightarrow> length d = host_size p) \<and>
     (case remote_data p of None \<Rightarrow> True | Some d \<Rightarrow> length d = remote_size p)"

text \<open>A pair as the sender and the receiver of a valid message hold it.\<close>

definition full_pair :: "snapshot_pair \<Rightarrow> bool" where
  "full_pair p \<longleftrightarrow> pair_ok p \<and> host_size p \<le> SNAPSHOT_MAX \<and> remote_size p \<le> SNAPSHOT_MAX \<and>
     (host_data p = None \<longleftrightarrow> host_size p = 0) \<and> (remote_data p = None \<longleftrightarrow> remote_size p = 0)"

lemma full_pair_sendable: "full_pair p \<Longrightarrow> snapshot_send_valid p"
  by (auto simp: full_pair_def snapshot_send_valid_def)

lemma release_wiped:
  "pair_ok p \<Longrightarrow> snapshot_pair_release (Some p) = (p', freed) \<Longrightarrow>
   p' = Some empty_pair \<and> wiped freed"
  by (auto simp: snapshot_pair_release_def pair_ok_def block_list_def wiped_def split: option.splits)

lemma release_snd_wiped:
  "pair_ok p \<Longrightarrow> wiped (snd (snapshot_pair_release (Some p)))"
  using release_wiped [of p] by (cases "snapshot_pair_release (Some p)") auto

lemma pair_ok_empty [simp]: "pair_ok empty_pair"
  by (simp add: pair_ok_def empty_pair_def)

lemma empty_pair_simps [simp]:
  "host_data empty_pair = None" "remote_data empty_pair = None"
  "host_size empty_pair = 0" "remote_size empty_pair = 0"
  by (simp_all add: empty_pair_def)

lemma snapshot_ipc_send_wiped:
  "pair_ok p \<Longrightarrow> snapshot_ipc_send w c (Some p) = (c', p', freed, ok) \<Longrightarrow>
   p' = Some empty_pair \<and> wiped freed"
  using release_wiped [of p]
  by (auto simp: snapshot_ipc_send_def Let_def split: prod.splits)

lemma recv_fail_wiped:
  "pair_ok p \<Longrightarrow> recv_fail c p = (c', p', freed, ok) \<Longrightarrow>
   p' = Some empty_pair \<and> wiped freed \<and> \<not> ok"
  using release_wiped [of p] by (auto simp: recv_fail_def split: prod.splits)

section \<open>The wire format\<close>

definition snapshot_wire :: "snapshot_pair \<Rightarrow> bytes" where
  "snapshot_wire p = snapshot_header p @ block_bytes (host_data p) (host_size p) @
                     block_bytes (remote_data p) (remote_size p)"

lemma length_snapshot_header [simp, range]: "length (snapshot_header p) = 16"
  by (simp add: snapshot_header_def SNAPSHOT_MAGIC_def)

lemma snapshot_header_ok_header [simp]: "snapshot_header_ok (snapshot_header p)"
  by (simp add: snapshot_header_ok_def snapshot_header_def SNAPSHOT_MAGIC_def)

lemma unat_size32 [simp]: "n \<le> SNAPSHOT_MAX \<Longrightarrow> unat (of_nat n :: u32) = n"
  by (simp add: SNAPSHOT_MAX_def unat_of_nat)

lemma header_sizes [codec]:
  "full_pair p \<Longrightarrow> unat (get_be32 (drop 8 (snapshot_header p))) = host_size p"
  "full_pair p \<Longrightarrow> unat (get_be32 (drop 12 (snapshot_header p))) = remote_size p"
  by (simp_all add: snapshot_header_def SNAPSHOT_MAGIC_def full_pair_def)

lemma snapshot_header_codec [codec]:
  assumes "snapshot_header_ok h" "length h = 16"
  shows "SNAPSHOT_MAGIC @ [1, 0, 0, 0] @ put_be32 (get_be32 (drop 8 h)) @
         put_be32 (get_be32 (drop 12 h)) = h"
proof -
  have split: "h = take 4 h @ take 4 (drop 4 h) @ take 4 (drop 8 h) @ drop 12 h"
    using append_take_drop_id [of 4 h] append_take_drop_id [of 4 "drop 4 h"]
      append_take_drop_id [of 4 "drop 8 h"] by simp
  have "take 4 (drop 4 h) = [h ! 4, h ! 5, h ! 6, h ! 7]"
    using assms(2) by (auto simp: length_Suc_conv eval_nat_numeral)
  moreover have "put_be32 (get_be32 (drop 8 h)) = take 4 (drop 8 h)"
    "put_be32 (get_be32 (drop 12 h)) = drop 12 h"
    using put_get_be32 [of "take 4 (drop 8 h)"] put_get_be32 [of "drop 12 h"] assms
    by (simp_all add: get_be32_take)
  ultimately show ?thesis
    using assms split by (simp add: snapshot_header_ok_def)
qed

lemma length_block_bytes [range]:
  "full_pair p \<Longrightarrow> length (block_bytes (host_data p) (host_size p)) = host_size p"
  "full_pair p \<Longrightarrow> length (block_bytes (remote_data p) (remote_size p)) = remote_size p"
  by (auto simp: full_pair_def pair_ok_def block_bytes_def split: option.splits)

lemma block_bytes_data:
  "full_pair p \<Longrightarrow> host_size p \<noteq> 0 \<Longrightarrow> Some (block_bytes (host_data p) (host_size p)) = host_data p"
  "full_pair p \<Longrightarrow> remote_size p \<noteq> 0 \<Longrightarrow>
     Some (block_bytes (remote_data p) (remote_size p)) = remote_data p"
  by (auto simp: full_pair_def pair_ok_def block_bytes_def split: option.splits)

context byte_writer
begin

lemma snapshot_send_log:
  "snapshot_ipc_send (Some w) c (Some p) = (c', p', freed, True) \<Longrightarrow>
   log c' = log c @ snapshot_wire p"
  using write_parts_log [of c "[snapshot_header p, block_bytes (host_data p) (host_size p),
      block_bytes (remote_data p) (remote_size p)]" c']
  by (auto simp: snapshot_ipc_send_def snapshot_wire_def Let_def
           simp del: write_parts.simps split: prod.splits if_splits)

lemma snapshot_send_complete:
  "good c \<Longrightarrow> snapshot_send_valid p \<Longrightarrow>
   \<exists>c'. snapshot_ipc_send (Some w) c (Some p) =
          (c', Some empty_pair, snd (snapshot_pair_release (Some p)), True) \<and>
        log c' = log c @ snapshot_wire p \<and> good c'"
  using write_parts_complete [of c "[snapshot_header p, block_bytes (host_data p) (host_size p),
      block_bytes (remote_data p) (remote_size p)]"]
  by (auto simp: snapshot_ipc_send_def snapshot_wire_def snapshot_pair_release_def Let_def)

end

context byte_reader
begin

text \<open>A message that is all there is received as it was sent.\<close>

lemma snapshot_receive_wire:
  assumes good: "good c" and wire: "rest c = snapshot_wire p @ tail" and full: "full_pair p"
    and host: "host_size p \<noteq> 0 \<Longrightarrow> m (host_size p) \<noteq> None"
    and remote: "remote_size p \<noteq> 0 \<Longrightarrow> m (remote_size p) \<noteq> None"
  shows "\<exists>c'. snapshot_ipc_receive m (Some r) c (Some q) = (c', Some p, [], True) \<and>
              rest c' = tail \<and> good c'"
proof -
  let ?hb = "block_bytes (host_data p) (host_size p)"
  let ?rb = "block_bytes (remote_data p) (remote_size p)"
  obtain c1 where c1: "read_all r c 16 = (c1, Some (snapshot_header p))"
      "rest c1 = ?hb @ ?rb @ tail" "good c1"
    using read_all_complete [OF good, of 16] wire by (auto simp: snapshot_wire_def)
  obtain c2 where c2: "read_all r c1 (host_size p) = (c2, Some ?hb)" "rest c2 = ?rb @ tail" "good c2"
    using read_all_complete [OF c1(3), of "host_size p"] c1(2) length_block_bytes [OF full] by auto
  obtain c3 where c3: "read_all r c2 (remote_size p) = (c3, Some ?rb)" "rest c3 = tail" "good c3"
    using read_all_complete [OF c2(3), of "remote_size p"] c2(2) length_block_bytes [OF full] by auto
  define p3 where "p3 = p\<lparr>host_data := (if host_size p = 0 then None else m (host_size p)),
                         remote_data := (if remote_size p = 0 then None else m (remote_size p))\<rparr>"
  have sizes: "host_size p \<le> SNAPSHOT_MAX" "remote_size p \<le> SNAPSHOT_MAX"
    using full by (simp_all add: full_pair_def)
  have "snapshot_ipc_receive m (Some r) c (Some q) = snapshot_receive_bodies r c1 p3"
    using c1(1) sizes host remote header_sizes [OF full]
    by (cases p) (auto simp: snapshot_ipc_receive_def Let_def p3_def empty_pair_def)
  also have "\<dots> = (c3, Some (p3\<lparr>host_data := map_option (\<lambda>_. ?hb) (host_data p3),
                               remote_data := map_option (\<lambda>_. ?rb) (remote_data p3)\<rparr>), [], True)"
    using c2(1) c3(1) by (simp add: snapshot_receive_bodies_def Let_def p3_def)
  also have "p3\<lparr>host_data := map_option (\<lambda>_. ?hb) (host_data p3),
               remote_data := map_option (\<lambda>_. ?rb) (remote_data p3)\<rparr> = p"
    using host remote block_bytes_data [OF full] full
    by (cases p) (auto simp: p3_def full_pair_def)
  finally show ?thesis using c3 by blast
qed

text \<open>Whatever arrives: an accepted message is a full pair, and nothing else is left behind.\<close>

lemma snapshot_receive_bodies_sound:
  assumes "snapshot_receive_bodies r c p = (c', q, freed, ok)" "pair_ok p"
    "host_size p \<le> SNAPSHOT_MAX" "remote_size p \<le> SNAPSHOT_MAX"
    "host_data p = None \<longleftrightarrow> host_size p = 0" "remote_data p = None \<longleftrightarrow> remote_size p = 0"
  shows "if ok then (\<exists>p'. q = Some p' \<and> full_pair p') \<and> freed = []
         else q = Some empty_pair \<and> wiped freed"
proof -
  obtain c1 hs where r1: "read_all r c (host_size p) = (c1, hs)" by fastforce
  show ?thesis
  proof (cases hs)
    case None
    then show ?thesis
      using assms r1 recv_fail_wiped [of p c1] by (auto simp: snapshot_receive_bodies_def)
  next
    case (Some hb)
    define p1 where "p1 = p\<lparr>host_data := map_option (\<lambda>_. hb) (host_data p)\<rparr>"
    have hb: "length hb = host_size p" using read_all_Some r1 Some by blast
    have p1: "pair_ok p1" using assms(2) hb by (auto simp: p1_def pair_ok_def split: option.splits)
    obtain c2 rs where r2: "read_all r c1 (remote_size p1) = (c2, rs)" by fastforce
    show ?thesis
    proof (cases rs)
      case None
      then show ?thesis
        using assms(1) r1 Some r2 recv_fail_wiped [OF p1, of c2]
        by (auto simp: snapshot_receive_bodies_def p1_def Let_def)
    next
      case (Some rb)
      then have "length rb = remote_size p1" using read_all_Some r2 by blast
      then show ?thesis
        using assms r1 r2 Some \<open>hs = Some hb\<close> hb
        by (auto simp: snapshot_receive_bodies_def p1_def Let_def full_pair_def pair_ok_def
                 split: option.splits)
    qed
  qed
qed

lemma snapshot_receive_sound:
  assumes "snapshot_ipc_receive m (Some r) c (Some p) = (c', q, freed, ok)" "malloc_ok m"
  shows "if ok then (\<exists>p'. q = Some p' \<and> full_pair p') \<and> freed = []
         else q = Some empty_pair \<and> wiped freed"
proof -
  obtain c1 h where r1: "read_all r c 16 = (c1, h)" by fastforce
  show ?thesis
  proof (cases h)
    case None
    then show ?thesis
      using assms(1) r1 recv_fail_wiped [OF pair_ok_empty, of c1 c' q freed ok]
      by (auto simp: snapshot_ipc_receive_def)
  next
    case (Some header)
    define p1 where "p1 = empty_pair\<lparr>host_size := unat (get_be32 (drop 8 header)),
                                     remote_size := unat (get_be32 (drop 12 header))\<rparr>"
    define p2 where "p2 = (if host_size p1 \<noteq> 0 then p1\<lparr>host_data := m (host_size p1)\<rparr> else p1)"
    define p3 where "p3 = (if remote_size p2 \<noteq> 0
                           then p2\<lparr>remote_data := m (remote_size p2)\<rparr> else p2)"
    have oks: "pair_ok p1" "pair_ok p2" "pair_ok p3"
      using malloc_length [OF assms(2)]
      by (auto simp: p3_def p2_def p1_def pair_ok_def split: option.splits)
    have run: "snapshot_ipc_receive m (Some r) c (Some p) =
       (if \<not> snapshot_header_ok header then recv_fail c1 empty_pair
        else if SNAPSHOT_MAX < host_size p1 \<or> SNAPSHOT_MAX < remote_size p1 then recv_fail c1 p1
        else if host_size p2 \<noteq> 0 \<and> host_data p2 = None then recv_fail c1 p2
        else if remote_size p3 \<noteq> 0 \<and> remote_data p3 = None then recv_fail c1 p3
        else snapshot_receive_bodies r c1 p3)"
      using r1 Some by (simp add: snapshot_ipc_receive_def p3_def p2_def p1_def Let_def)
    have p3: "host_size p3 = host_size p1" "remote_size p3 = remote_size p1"
      "host_data p3 = host_data p2" "host_size p2 = host_size p1"
      "host_size p1 = 0 \<longrightarrow> host_data p3 = None" "remote_size p1 = 0 \<longrightarrow> remote_data p3 = None"
      by (simp_all add: p3_def p2_def p1_def)
    consider (failed) x where "recv_fail c1 x = (c', q, freed, ok)" "pair_ok x"
      | (bodies) "snapshot_receive_bodies r c1 p3 = (c', q, freed, ok)"
          "host_size p3 \<le> SNAPSHOT_MAX" "remote_size p3 \<le> SNAPSHOT_MAX"
          "host_data p3 = None \<longleftrightarrow> host_size p3 = 0" "remote_data p3 = None \<longleftrightarrow> remote_size p3 = 0"
      using assms(1) run p3 oks pair_ok_empty by (auto split: if_splits)
    then show ?thesis
    proof cases
      case failed
      then show ?thesis using recv_fail_wiped [OF failed(2,1)] by simp
    next
      case bodies
      show ?thesis
        by (rule snapshot_receive_bodies_sound [OF bodies(1) oks(3) bodies(2-5)])
    qed
  qed
qed

text \<open>An accepted message consumed exactly its own encoding from the pipe.\<close>

lemma snapshot_bodies_consume:
  assumes "snapshot_receive_bodies r c p = (c', q, freed, True)"
    "host_data p = None \<longleftrightarrow> host_size p = 0" "remote_data p = None \<longleftrightarrow> remote_size p = 0"
  shows "\<exists>p'. q = Some p' \<and> host_size p' = host_size p \<and> remote_size p' = remote_size p \<and>
           rest c = block_bytes (host_data p') (host_size p') @
                    block_bytes (remote_data p') (remote_size p') @ rest c'"
proof -
  obtain c1 hs where r1: "read_all r c (host_size p) = (c1, Some hs)"
    using assms(1) by (cases "read_all r c (host_size p)")
      (auto simp: snapshot_receive_bodies_def recv_fail_def split: option.splits prod.splits)
  obtain rs where r2: "read_all r c1 (remote_size p) = (c', Some rs)"
    using assms(1) r1 by (cases "read_all r c1 (remote_size p)")
      (auto simp: snapshot_receive_bodies_def recv_fail_def Let_def split: option.splits prod.splits)
  have "length hs = host_size p" "rest c = hs @ rest c1" "length rs = remote_size p"
    "rest c1 = rs @ rest c'"
    using read_all_Some [OF r1] read_all_Some [OF r2] by auto
  then show ?thesis
    using assms r1 r2
    by (auto simp: snapshot_receive_bodies_def Let_def block_bytes_def split: option.splits)
qed

lemma snapshot_receive_consumes:
  assumes run: "snapshot_ipc_receive m (Some r) c (Some p) = (c', Some q, freed, True)"
  shows "rest c = snapshot_wire q @ rest c'"
proof -
  obtain c1 header where r1: "read_all r c 16 = (c1, Some header)"
    using run by (cases "read_all r c 16")
      (auto simp: snapshot_ipc_receive_def recv_fail_def split: option.splits prod.splits)
  define p1 where "p1 = empty_pair\<lparr>host_size := unat (get_be32 (drop 8 header)),
                                   remote_size := unat (get_be32 (drop 12 header))\<rparr>"
  define p3 where "p3 = p1\<lparr>host_data := (if host_size p1 \<noteq> 0 then m (host_size p1) else None),
                           remote_data := (if remote_size p1 \<noteq> 0 then m (remote_size p1) else None)\<rparr>"
  have h: "length header = 16" "rest c = header @ rest c1"
    using read_all_Some [OF r1] by auto
  have ok: "snapshot_header_ok header"
    and bodies: "snapshot_receive_bodies r c1 p3 = (c', Some q, freed, True)"
    and blocks: "host_data p3 = None \<longleftrightarrow> host_size p3 = 0" "remote_data p3 = None \<longleftrightarrow> remote_size p3 = 0"
    using run r1
    by (auto simp: snapshot_ipc_receive_def recv_fail_def p3_def p1_def Let_def empty_pair_def
             split: if_splits prod.splits)
  have q: "host_size q = unat (get_be32 (drop 8 header))" "remote_size q = unat (get_be32 (drop 12 header))"
    "rest c1 = block_bytes (host_data q) (host_size q) @
               block_bytes (remote_data q) (remote_size q) @ rest c'"
    using snapshot_bodies_consume [OF bodies blocks] by (auto simp: p3_def p1_def)
  have "snapshot_header q = header"
    using snapshot_header_codec [OF ok h(1)] q(1,2) by (simp add: snapshot_header_def)
  with h(2) q(3) show ?thesis by (simp add: snapshot_wire_def)
qed

end

section \<open>The protocol over the pipes\<close>

text \<open>C11: The parent's send and the child's receive, over a pipe whose kernel may interrupt
  calls and split transfers at will on both sides: the child ends up with exactly the two
  save files of the parent, the pipe is drained, and the parent's copies are wiped before
  they are freed.\<close>

theorem snapshot_pipe_roundtrip:
  assumes "full_pair p" "reliable c" "in_flight c = []" "IOError \<notin> set schedule"
    and "\<forall>n \<le> SNAPSHOT_MAX. m n \<noteq> None"
  shows "\<exists>c1 freed c2.
     snapshot_ipc_send (Some fd_write) c (Some p) = (c1, Some empty_pair, freed, True) \<and>
     wiped freed \<and>
     snapshot_ipc_receive m (Some fd_read) (c1\<lparr>plan := schedule\<rparr>) (Some q) =
       (c2, Some p, [], True) \<and>
     in_flight c2 = []"
proof -
  obtain c1 where c1: "snapshot_ipc_send (Some fd_write) c (Some p) =
       (c1, Some empty_pair, snd (snapshot_pair_release (Some p)), True)"
    "in_flight c1 = snapshot_wire p" "reliable c1"
    using fd_writer.snapshot_send_complete [OF assms(2) full_pair_sendable [OF assms(1)]] assms(3)
    by auto
  let ?c = "c1\<lparr>plan := schedule\<rparr>"
  have "host_size p \<le> SNAPSHOT_MAX" "remote_size p \<le> SNAPSHOT_MAX" "pair_ok p"
    using assms(1) by (auto simp: full_pair_def)
  moreover have "reliable ?c" "in_flight ?c = snapshot_wire p @ []"
    using assms(4) c1(2) by (auto simp: reliable_def)
  ultimately show ?thesis
    using c1(1) assms(1,5) release_snd_wiped fd_reader.snapshot_receive_wire [of ?c p "[]" m q] by auto
qed

text \<open>A pair of two small files, sent through a pipe that interrupts and splits.\<close>

theorem snapshot_pipe_roundtrip_witness:
  "\<exists>c1 freed c2.
     snapshot_ipc_send (Some fd_write) \<lparr>in_flight = [], plan = [Interrupted, Moves 2, Moves 0]\<rparr>
       (Some \<lparr>host_data = Some [1, 2], host_size = 2, remote_data = None, remote_size = 0\<rparr>) =
       (c1, Some empty_pair, freed, True) \<and>
     wiped freed \<and>
     snapshot_ipc_receive (\<lambda>n. Some (replicate n 0)) (Some fd_read)
       (c1\<lparr>plan := [Moves 4, Interrupted]\<rparr>) (Some empty_pair) =
       (c2, Some \<lparr>host_data = Some [1, 2], host_size = 2, remote_data = None, remote_size = 0\<rparr>,
        [], True) \<and>
     in_flight c2 = []"
  by (rule snapshot_pipe_roundtrip)
     (simp_all add: full_pair_def pair_ok_def SNAPSHOT_MAX_def reliable_def)

text \<open>C26: Whatever bytes the child finds in the pipe, and whatever the kernel does: an
  accepted message is a well-formed pair within the size limit, and what was consumed is
  exactly the encoding of that pair, so nothing that follows it is lost; a rejected message
  leaves an empty pair, and each block allocated on the way is wiped before it is freed.\<close>

theorem snapshot_pipe_sound:
  assumes "malloc_ok m"
    and "snapshot_ipc_receive m (Some fd_read) c (Some p) = (c', q, freed, ok)"
  shows "if ok then (\<exists>p'. q = Some p' \<and> full_pair p' \<and> in_flight c = snapshot_wire p' @ in_flight c')
           \<and> freed = []
         else q = Some empty_pair \<and> wiped freed"
  using fd_reader.snapshot_receive_sound [OF assms(2,1)]
    fd_reader.snapshot_receive_consumes [of m c p c' _ freed] assms(2)
  by (cases ok) auto

text \<open>A pair of two small files in a pipe, with one octet behind it.\<close>

definition sample_pair :: snapshot_pair where
  "sample_pair = \<lparr>host_data = Some [1, 2], host_size = 2, remote_data = None, remote_size = 0\<rparr>"

definition sample_pair_pipe :: pipe where
  "sample_pair_pipe = \<lparr>in_flight = snapshot_wire sample_pair @ [9], plan = [Moves 4, Interrupted]\<rparr>"

theorem snapshot_pipe_sound_witness:
  "\<exists>c' p'. snapshot_ipc_receive (\<lambda>n. Some (replicate n 0)) (Some fd_read) sample_pair_pipe (Some empty_pair) =
      (c', Some p', [], True) \<and> full_pair p' \<and> in_flight sample_pair_pipe = snapshot_wire p' @ in_flight c'"
proof -
  have p: "reliable sample_pair_pipe" "in_flight sample_pair_pipe = snapshot_wire sample_pair @ [9]"
    "full_pair sample_pair" "pair_ok sample_pair"
    "host_size sample_pair \<le> SNAPSHOT_MAX" "remote_size sample_pair \<le> SNAPSHOT_MAX"
    by (simp_all add: sample_pair_pipe_def sample_pair_def reliable_def full_pair_def pair_ok_def SNAPSHOT_MAX_def)
  then obtain c' where run: "snapshot_ipc_receive (\<lambda>n. Some (replicate n 0)) (Some fd_read) sample_pair_pipe
      (Some empty_pair) = (c', Some sample_pair, [], True)"
    using fd_reader.snapshot_receive_wire [of sample_pair_pipe sample_pair "[9]" "\<lambda>n. Some (replicate n 0)" empty_pair]
    by auto
  have "malloc_ok (\<lambda>n. Some (replicate n 0))" by (simp add: malloc_ok_def)
  from snapshot_pipe_sound [OF this run] run show ?thesis by auto
qed

text \<open>Sending wipes and frees the pair whatever happens, also when the pair is invalid or
  the pipe fails in the middle; a send that reports success put exactly the encoding of the
  pair on the pipe.\<close>

theorem snapshot_send_outcome:
  assumes "pair_ok p" "snapshot_ipc_send (Some fd_write) c (Some p) = (c', q, freed, ok)"
  shows "q = Some empty_pair \<and> wiped freed \<and>
         (if ok then in_flight c' = in_flight c @ snapshot_wire p \<and> snapshot_send_valid p else True)"
  using snapshot_ipc_send_wiped [OF assms] fd_writer.snapshot_send_log [of c p c' q freed] assms(2)
  by (auto simp: snapshot_ipc_send_def Let_def split: prod.splits if_splits)

theorem snapshot_send_outcome_witness:
  "Some empty_pair = Some empty_pair \<and> wiped [[0, 0]] \<and>
   (if False then in_flight \<lparr>in_flight = [], plan = []\<rparr> =
      in_flight \<lparr>in_flight = [], plan = [IOError]\<rparr> @ snapshot_wire
        \<lparr>host_data = Some [1, 2], host_size = 2, remote_data = None, remote_size = 0\<rparr> \<and>
      snapshot_send_valid \<lparr>host_data = Some [1, 2], host_size = 2, remote_data = None, remote_size = 0\<rparr>
    else True)"
  by (rule snapshot_send_outcome)
     (simp_all add: pair_ok_def snapshot_ipc_send_def snapshot_send_valid_def SNAPSHOT_MAX_def
        snapshot_pair_release_def block_list_def secure_zero_def write_at_def
        write_all.simps fd_write.simps sys_write_def numeral_2_eq_2 wiped_def all_zero_def
        snapshot_header_def SNAPSHOT_MAGIC_def)

end
