(* ===== verification/ResultIpc.thy ===== *)
theory ResultIpc
  imports SnapshotIpc ContentHash
begin

text \<open>
  What the fixed-host child process reports to its parent over the result pipe
  (\<open>c_client/gb_runtime_fixed_host_result_ipc.c\<close>): either a four-byte request for a fresh
  relay ticket, or the session's result with a 120-byte header that carries the SHA-256 of
  each candidate save. The receiver checks the sizes and both digests; on any failure it
  wipes and frees what it had received.
\<close>

section \<open>Model\<close>

record session_result =
  is_host :: bool
  final_frame :: u64
  terminal_digest :: bytes
  candidates :: snapshot_pair

definition empty_result :: session_result where
  "empty_result = \<lparr>is_host = False, final_frame = 0, terminal_digest = replicate 32 0,
                   candidates = empty_pair\<rparr>"

definition RESULT_HEADER_SIZE :: nat where "RESULT_HEADER_SIZE = 120"

definition RESULT_MAGIC :: bytes where "RESULT_MAGIC = [0x49, 0x46, 0x52, 0x31]"

definition TICKET_REQUEST :: bytes where "TICKET_REQUEST = [0x49, 0x46, 0x51, 0x31]"

definition result_release :: "session_result option \<Rightarrow> session_result option \<times> bytes list" where
  "result_release result =
     (case result of
        None \<Rightarrow> (None, [])
      | Some r \<Rightarrow> (Some empty_result, snd (snapshot_pair_release (Some (candidates r)))))"

definition result_send_valid :: "session_result \<Rightarrow> bool" where
  "result_send_valid r \<longleftrightarrow> snapshot_send_valid (candidates r) \<and>
     (is_host r \<or> (host_size (candidates r) = 0 \<and> remote_size (candidates r) = 0))"

definition host_bytes :: "snapshot_pair \<Rightarrow> bytes" where
  "host_bytes p = block_bytes (host_data p) (host_size p)"

definition remote_bytes :: "snapshot_pair \<Rightarrow> bytes" where
  "remote_bytes p = block_bytes (remote_data p) (remote_size p)"

definition result_header :: "session_result \<Rightarrow> bytes" where
  "result_header r =
     RESULT_MAGIC @ [1, if is_host r then 1 else 2, 0, 0] @ put_be64 (final_frame r) @
     terminal_digest r @ content_sha256 (host_bytes (candidates r)) @
     content_sha256 (remote_bytes (candidates r)) @
     put_be32 (of_nat (host_size (candidates r))) @ put_be32 (of_nat (remote_size (candidates r)))"

definition result_ipc_send ::
  "'c writer option \<Rightarrow> 'c \<Rightarrow> session_result option \<Rightarrow>
   'c \<times> session_result option \<times> bytes list \<times> bool" where
  "result_ipc_send w c result =
     (let (c', success) =
        (case (w, result) of
           (Some wr, Some r) \<Rightarrow>
             if result_send_valid r
             then write_parts wr c [result_header r, host_bytes (candidates r),
                                    remote_bytes (candidates r)]
             else (c, False)
         | _ \<Rightarrow> (c, False));
        (result', freed) = result_release result
      in (c', result', freed, success))"

definition ipc_request_ticket :: "'c writer option \<Rightarrow> 'c \<Rightarrow> 'c \<times> bool" where
  "ipc_request_ticket w c =
     (case w of None \<Rightarrow> (c, False) | Some wr \<Rightarrow> write_all wr c TICKET_REQUEST)"

definition result_header_ok :: "bytes \<Rightarrow> bool" where
  "result_header_ok h \<longleftrightarrow> take 4 h = RESULT_MAGIC \<and> h ! 4 = 1 \<and> (h ! 5 = 1 \<or> h ! 5 = 2) \<and>
     h ! 6 = 0 \<and> h ! 7 = 0"

text \<open>The fields of an accepted header, with no block allocated yet.\<close>

definition result_of_header :: "bytes \<Rightarrow> session_result" where
  "result_of_header h =
     \<lparr>is_host = (h ! 5 = 1), final_frame = get_be64 (drop 8 h), terminal_digest = slice 16 32 h,
      candidates = empty_pair\<lparr>host_size := unat (get_be32 (drop 112 h)),
                              remote_size := unat (get_be32 (drop 116 h))\<rparr>\<rparr>"

definition event_fail ::
  "'c \<Rightarrow> snapshot_pair \<Rightarrow> 'c \<times> session_result option \<times> bytes list \<times> int" where
  "event_fail c p = (c, Some empty_result, snd (snapshot_pair_release (Some p)), 0)"

definition receive_candidates ::
  "'c reader \<Rightarrow> 'c \<Rightarrow> bytes \<Rightarrow> session_result \<Rightarrow>
   'c \<times> session_result option \<times> bytes list \<times> int" where
  "receive_candidates rd c h res =
     (case snapshot_receive_bodies rd c (candidates res) of
        (c', Some p, freed, True) \<Rightarrow>
          if content_sha256 (host_bytes p) \<noteq> slice 48 32 h then event_fail c' p
          else if content_sha256 (remote_bytes p) \<noteq> slice 80 32 h then event_fail c' p
          else (c', Some (res\<lparr>candidates := p\<rparr>), [], 1)
      | (c', _, freed, _) \<Rightarrow> (c', Some empty_result, freed, 0))"

definition ipc_receive_event ::
  "malloc \<Rightarrow> 'c reader option \<Rightarrow> 'c \<Rightarrow> session_result option \<Rightarrow>
   'c \<times> session_result option \<times> bytes list \<times> int" where
  "ipc_receive_event m r c result =
     (case (r, result) of
        (Some rd, Some _) \<Rightarrow>
          (case read_all rd c 4 of
             (c1, None) \<Rightarrow> event_fail c1 empty_pair
           | (c1, Some tag) \<Rightarrow>
               if tag = TICKET_REQUEST then (c1, Some empty_result, [], 2)
               else (case read_all rd c1 (RESULT_HEADER_SIZE - 4) of
                       (c2, None) \<Rightarrow> event_fail c2 empty_pair
                     | (c2, Some tl4) \<Rightarrow>
                         let h = tag @ tl4
                         in if \<not> result_header_ok h then event_fail c2 empty_pair
                            else let res = result_of_header h; p1 = candidates res
                                 in if SNAPSHOT_MAX < host_size p1 \<or> SNAPSHOT_MAX < remote_size p1 \<or>
                                       (\<not> is_host res \<and> (host_size p1 \<noteq> 0 \<or> remote_size p1 \<noteq> 0))
                                    then event_fail c2 p1
                                    else let p2 = (if host_size p1 \<noteq> 0
                                                   then p1\<lparr>host_data := m (host_size p1)\<rparr> else p1)
                                         in if host_size p2 \<noteq> 0 \<and> host_data p2 = None
                                            then event_fail c2 p2
                                            else let p3 = (if remote_size p2 \<noteq> 0
                                                           then p2\<lparr>remote_data := m (remote_size p2)\<rparr>
                                                           else p2)
                                                 in if remote_size p3 \<noteq> 0 \<and> remote_data p3 = None
                                                    then event_fail c2 p3
                                                    else receive_candidates rd c2 h
                                                           (res\<lparr>candidates := p3\<rparr>)))
      | _ \<Rightarrow> (c, result, [], 0))"

definition result_ipc_receive ::
  "malloc \<Rightarrow> 'c reader option \<Rightarrow> 'c \<Rightarrow> session_result option \<Rightarrow>
   'c \<times> session_result option \<times> bytes list \<times> bool" where
  "result_ipc_receive m r c result =
     (case ipc_receive_event m r c result of (c', res, freed, event) \<Rightarrow> (c', res, freed, event = 1))"

section \<open>The wire format\<close>

definition full_result :: "session_result \<Rightarrow> bool" where
  "full_result r \<longleftrightarrow> full_pair (candidates r) \<and> length (terminal_digest r) = 32 \<and>
     (is_host r \<or> (host_size (candidates r) = 0 \<and> remote_size (candidates r) = 0))"

definition result_wire :: "session_result \<Rightarrow> bytes" where
  "result_wire r = result_header r @ host_bytes (candidates r) @ remote_bytes (candidates r)"

lemma full_result_sendable: "full_result r \<Longrightarrow> result_send_valid r"
  by (auto simp: full_result_def result_send_valid_def full_pair_sendable)

lemma length_result_header [range]:
  "length (terminal_digest r) = 32 \<Longrightarrow> length (result_header r) = RESULT_HEADER_SIZE"
  by (simp add: result_header_def RESULT_MAGIC_def RESULT_HEADER_SIZE_def)

lemma result_header_tag: "take 4 (result_header r) = RESULT_MAGIC"
  by (simp add: result_header_def RESULT_MAGIC_def)

lemma get_be64_append [simp]: "length bs = 8 \<Longrightarrow> get_be64 (bs @ rest) = get_be64 bs"
  by (simp add: get_be64_def)

lemma result_header_fields [codec]:
  assumes "full_result r"
  shows "result_header_ok (result_header r)"
    and "result_of_header (result_header r) =
           r\<lparr>candidates := empty_pair\<lparr>host_size := host_size (candidates r),
                                      remote_size := remote_size (candidates r)\<rparr>\<rparr>"
    and "slice 48 32 (result_header r) = content_sha256 (host_bytes (candidates r))"
    and "slice 80 32 (result_header r) = content_sha256 (remote_bytes (candidates r))"
proof -
  let ?h = "result_header r" and ?p = "candidates r"
  have len: "length (terminal_digest r) = 32" and sz: "host_size ?p \<le> SNAPSHOT_MAX"
    "remote_size ?p \<le> SNAPSHOT_MAX" using assms by (auto simp: full_result_def full_pair_def)
  show "result_header_ok ?h"
    by (simp add: result_header_ok_def result_header_def RESULT_MAGIC_def)
  show "slice 48 32 ?h = content_sha256 (host_bytes ?p)"
    "slice 80 32 ?h = content_sha256 (remote_bytes ?p)"
    using len by (simp_all add: result_header_def RESULT_MAGIC_def slice_def)
  have "drop 8 ?h = put_be64 (final_frame r) @ drop 16 ?h"
    "slice 16 32 ?h = terminal_digest r"
    "drop 112 ?h = put_be32 (of_nat (host_size ?p)) @ put_be32 (of_nat (remote_size ?p))"
    "drop 116 ?h = put_be32 (of_nat (remote_size ?p))" "(?h ! 5 = 1) = is_host r"
    using len by (simp_all add: result_header_def RESULT_MAGIC_def slice_def)
  then show "result_of_header ?h =
      r\<lparr>candidates := empty_pair\<lparr>host_size := host_size ?p, remote_size := remote_size ?p\<rparr>\<rparr>"
    using sz by (cases r) (simp add: result_of_header_def)
qed

lemma result_header_codec [codec]:
  assumes "result_header_ok h" "length h = 120" "is_host q = (h ! 5 = 1)"
    "final_frame q = get_be64 (drop 8 h)" "terminal_digest q = slice 16 32 h"
    "content_sha256 (host_bytes (candidates q)) = slice 48 32 h"
    "content_sha256 (remote_bytes (candidates q)) = slice 80 32 h"
    "host_size (candidates q) = unat (get_be32 (drop 112 h))"
    "remote_size (candidates q) = unat (get_be32 (drop 116 h))"
  shows "result_header q = h"
proof -
  have split: "h = take 4 h @ take 4 (drop 4 h) @ take 8 (drop 8 h) @ slice 16 32 h @ slice 48 32 h @
      slice 80 32 h @ take 4 (drop 112 h) @ drop 116 h"
    using append_take_drop_id [of 4 h] append_take_drop_id [of 4 "drop 4 h"]
      append_take_drop_id [of 8 "drop 8 h"] append_take_drop_id [of 32 "drop 16 h"]
      append_take_drop_id [of 32 "drop 48 h"] append_take_drop_id [of 32 "drop 80 h"]
      append_take_drop_id [of 4 "drop 112 h"] by (simp add: slice_def)
  have "take 4 (drop 4 h) = [h ! 4, h ! 5, h ! 6, h ! 7]"
    using assms(2) by (intro nth_equalityI) (auto simp: less_Suc_eq eval_nat_numeral)
  moreover have "put_be32 (get_be32 (drop 112 h)) = take 4 (drop 112 h)"
    "put_be32 (get_be32 (drop 116 h)) = drop 116 h" "put_be64 (get_be64 (drop 8 h)) = take 8 (drop 8 h)"
    using put_get_be32 [of "take 4 (drop 112 h)"] put_get_be32 [of "drop 116 h"]
      put_get_be64 [of "take 8 (drop 8 h)"] assms(2)
    by (simp_all add: get_be32_take get_be64_def)
  ultimately show ?thesis
    unfolding result_header_def assms(3-9) using assms(1) split
    by (auto simp: result_header_ok_def)
qed

lemma snapshot_bodies_freed:
  "snapshot_receive_bodies r c p = (c', q, freed, True) \<Longrightarrow> freed = [] \<and> q \<noteq> None"
  by (auto simp: snapshot_receive_bodies_def recv_fail_def Let_def
           split: prod.splits option.splits)

context byte_writer
begin

lemma result_send_complete:
  "good c \<Longrightarrow> result_send_valid r \<Longrightarrow>
   \<exists>c' freed. result_ipc_send (Some w) c (Some r) = (c', Some empty_result, freed, True) \<and>
        log c' = log c @ result_wire r \<and> good c'"
  using write_parts_complete [of c "[result_header r, host_bytes (candidates r),
      remote_bytes (candidates r)]"]
  by (auto simp: result_ipc_send_def result_wire_def result_release_def Let_def
           simp del: write_parts.simps)

lemma request_ticket_complete:
  "good c \<Longrightarrow> \<exists>c'. ipc_request_ticket (Some w) c = (c', True) \<and>
     log c' = log c @ TICKET_REQUEST \<and> good c'"
  using write_all_complete [of c TICKET_REQUEST] by (simp add: ipc_request_ticket_def)

end

lemma result_ipc_send_wiped:
  "pair_ok (candidates r) \<Longrightarrow> result_ipc_send w c (Some r) = (c', r', freed, ok) \<Longrightarrow>
   r' = Some empty_result \<and> wiped freed"
  using release_snd_wiped [of "candidates r"]
  by (auto simp: result_ipc_send_def result_release_def Let_def split: prod.splits)

lemma event_fail_wiped:
  "pair_ok p \<Longrightarrow> event_fail c p = (c', q, freed, e) \<Longrightarrow>
   q = Some empty_result \<and> wiped freed \<and> e = 0"
  using release_snd_wiped [of p] by (auto simp: event_fail_def)

text \<open>Whatever arrives: what an event of each kind guarantees.\<close>

definition event_sound :: "session_result option \<Rightarrow> bytes list \<Rightarrow> int \<Rightarrow> bool" where
  "event_sound q freed e \<longleftrightarrow>
     (e = 1 \<and> (\<exists>x. q = Some x \<and> full_result x) \<and> freed = []) \<or>
     (e = 2 \<and> q = Some empty_result \<and> freed = []) \<or>
     (e = 0 \<and> q = Some empty_result \<and> wiped freed)"

lemma event_sound_fail:
  "pair_ok p \<Longrightarrow> event_fail c p = (c', q, freed, e) \<Longrightarrow> event_sound q freed e"
  using event_fail_wiped [of p c c' q freed e] by (simp add: event_sound_def)

context byte_reader
begin

lemma receive_bodies_wire:
  assumes good: "good c" and wire: "rest c = host_bytes p @ remote_bytes p @ tail"
    and full: "full_pair p" and sizes: "host_size q = host_size p" "remote_size q = remote_size p"
    and blocks: "host_data q = None \<longleftrightarrow> host_size p = 0" "remote_data q = None \<longleftrightarrow> remote_size p = 0"
  shows "\<exists>c'. snapshot_receive_bodies r c q = (c', Some p, [], True) \<and> rest c' = tail \<and> good c'"
proof -
  obtain c2 where c2: "read_all r c (host_size p) = (c2, Some (host_bytes p))"
      "rest c2 = remote_bytes p @ tail" "good c2"
    using read_all_complete [OF good, of "host_size p"] wire length_block_bytes [OF full]
    by (auto simp: host_bytes_def)
  obtain c3 where c3: "read_all r c2 (remote_size p) = (c3, Some (remote_bytes p))"
      "rest c3 = tail" "good c3"
    using read_all_complete [OF c2(3), of "remote_size p"] c2(2) length_block_bytes [OF full]
    by (auto simp: remote_bytes_def)
  have "snapshot_receive_bodies r c q = (c3, Some (q\<lparr>host_data := map_option (\<lambda>_. host_bytes p) (host_data q),
      remote_data := map_option (\<lambda>_. remote_bytes p) (remote_data q)\<rparr>), [], True)"
    using c2(1) c3(1) sizes by (simp add: snapshot_receive_bodies_def Let_def)
  also have "q\<lparr>host_data := map_option (\<lambda>_. host_bytes p) (host_data q),
      remote_data := map_option (\<lambda>_. remote_bytes p) (remote_data q)\<rparr> = p"
    using sizes blocks block_bytes_data [OF full] full
    by (cases p; cases q) (auto simp: full_pair_def host_bytes_def remote_bytes_def)
  finally show ?thesis using c3 by blast
qed

lemma receive_event_wire:
  assumes good: "good c" and wire: "rest c = result_wire x @ tail" and full: "full_result x"
    and malloc: "\<And>n. n \<le> SNAPSHOT_MAX \<Longrightarrow> m n \<noteq> None"
  shows "\<exists>c'. ipc_receive_event m (Some r) c (Some q) = (c', Some x, [], 1) \<and>
              rest c' = tail \<and> good c'"
proof -
  let ?h = "result_header x" and ?p = "candidates x"
  have len: "length ?h = 120"
    using full length_result_header [of x] by (simp add: full_result_def RESULT_HEADER_SIZE_def)
  obtain c1 where c1: "read_all r c 4 = (c1, Some RESULT_MAGIC)"
      "rest c1 = drop 4 ?h @ host_bytes ?p @ remote_bytes ?p @ tail" "good c1"
    using read_all_complete [OF good, of 4] wire len result_header_tag [of x]
    by (auto simp: result_wire_def)
  obtain c2 where c2: "read_all r c1 116 = (c2, Some (drop 4 ?h))"
      "rest c2 = host_bytes ?p @ remote_bytes ?p @ tail" "good c2"
    using read_all_complete [OF c1(3), of 116] c1(2) len by auto
  have h: "RESULT_MAGIC @ drop 4 ?h = ?h"
    by (metis append_take_drop_id result_header_tag)
  have fp: "full_pair ?p" using full by (simp add: full_result_def)
  define p3 where "p3 = \<lparr>host_data = (if host_size ?p = 0 then None else m (host_size ?p)),
      host_size = host_size ?p,
      remote_data = (if remote_size ?p = 0 then None else m (remote_size ?p)),
      remote_size = remote_size ?p\<rparr>"
  have sizes: "host_size ?p \<le> SNAPSHOT_MAX" "remote_size ?p \<le> SNAPSHOT_MAX"
    "is_host x \<or> (host_size ?p = 0 \<and> remote_size ?p = 0)"
    using full by (auto simp: full_result_def full_pair_def)
  obtain c3 where c3: "snapshot_receive_bodies r c2 p3 = (c3, Some ?p, [], True)"
      "rest c3 = tail" "good c3"
  proof -
    have "host_size p3 = host_size ?p" "remote_size p3 = remote_size ?p"
      "host_data p3 = None \<longleftrightarrow> host_size ?p = 0" "remote_data p3 = None \<longleftrightarrow> remote_size ?p = 0"
      using malloc [OF sizes(1)] malloc [OF sizes(2)] by (simp_all add: p3_def)
    from receive_bodies_wire [OF c2(3,2) fp this] show ?thesis using that by blast
  qed
  have "ipc_receive_event m (Some r) c (Some q) =
      receive_candidates r c2 ?h (x\<lparr>candidates := p3\<rparr>)"
    using c1(1) c2(1) sizes malloc [OF sizes(1)] malloc [OF sizes(2)]
          result_header_fields [OF full] h
    by (auto simp: ipc_receive_event_def Let_def p3_def RESULT_HEADER_SIZE_def
                   RESULT_MAGIC_def TICKET_REQUEST_def empty_pair_def)
  also have "\<dots> = (c3, Some x, [], 1)"
    using c3(1) result_header_fields [OF full] by (simp add: receive_candidates_def)
  finally show ?thesis using c3 by blast
qed

lemma receive_event_ticket:
  assumes "good c" "rest c = TICKET_REQUEST @ tail"
  shows "\<exists>c'. ipc_receive_event m (Some r) c (Some q) = (c', Some empty_result, [], 2) \<and>
              rest c' = tail \<and> good c'"
  using read_all_complete [OF assms(1), of 4] assms(2)
  by (auto simp: ipc_receive_event_def TICKET_REQUEST_def)

lemma receive_candidates_sound:
  assumes "receive_candidates r c h res = (c', q, freed, e)" "length (terminal_digest res) = 32"
    "is_host res \<or> (host_size (candidates res) = 0 \<and> remote_size (candidates res) = 0)"
    "pair_ok (candidates res)"
    "host_size (candidates res) \<le> SNAPSHOT_MAX" "remote_size (candidates res) \<le> SNAPSHOT_MAX"
    "host_data (candidates res) = None \<longleftrightarrow> host_size (candidates res) = 0"
    "remote_data (candidates res) = None \<longleftrightarrow> remote_size (candidates res) = 0"
  shows "event_sound q freed e \<and>
    (e = 1 \<longrightarrow> content_sha256 (host_bytes (candidates (the q))) = slice 48 32 h \<and>
                content_sha256 (remote_bytes (candidates (the q))) = slice 80 32 h)"
proof -
  obtain c1 p f ok where run: "snapshot_receive_bodies r c (candidates res) = (c1, p, f, ok)"
    by (metis prod_cases4)
  note sound = snapshot_receive_bodies_sound [OF run assms(4-8)]
  show ?thesis
  proof (cases ok)
    case False
    then show ?thesis
      using assms(1) run sound
      by (auto simp: receive_candidates_def event_sound_def split: option.splits)
  next
    case True
    then obtain p' where p': "p = Some p'" "full_pair p'" "f = []" using sound by auto
    then have ok': "pair_ok p'" by (simp add: full_pair_def)
    have "host_size p' = host_size (candidates res)" "remote_size p' = remote_size (candidates res)"
      using run p'(1) True
      by (auto simp: snapshot_receive_bodies_def recv_fail_def Let_def split: prod.splits option.splits)
    then have "is_host res \<or> (host_size p' = 0 \<and> remote_size p' = 0)"
      using assms(3) by simp
    then show ?thesis
      using assms(1,2) run p' True event_sound_fail [OF ok', of c1 c' q freed e]
        event_fail_wiped [OF ok', of c1 c' q freed e]
      by (auto simp: receive_candidates_def event_sound_def full_result_def split: if_splits)
  qed
qed

lemma receive_event_sound:
  assumes run: "ipc_receive_event m (Some r) c (Some x) = (c', q, freed, e)" and m: "malloc_ok m"
  shows "event_sound q freed e"
proof -
  obtain c1 t where r1: "read_all r c 4 = (c1, t)" by fastforce
  obtain c2 t2 where r2: "read_all r c1 116 = (c2, t2)" by fastforce
  show ?thesis
  proof (cases "t = None \<or> t = Some TICKET_REQUEST \<or> t2 = None")
    case True
    then show ?thesis
      using run r1 r2 event_sound_fail [OF pair_ok_empty, of c1 c' q freed e]
        event_sound_fail [OF pair_ok_empty, of c2 c' q freed e]
      by (auto simp: ipc_receive_event_def event_sound_def RESULT_HEADER_SIZE_def
               split: option.splits if_splits)
  next
    case False
    then obtain tag tl4 where t: "t = Some tag" "t2 = Some tl4" "tag \<noteq> TICKET_REQUEST" by auto
    define h where "h = tag @ tl4"
    define p1 where "p1 = candidates (result_of_header h)"
    define p2 where "p2 = (if host_size p1 \<noteq> 0 then p1\<lparr>host_data := m (host_size p1)\<rparr> else p1)"
    define p3 where "p3 = (if remote_size p2 \<noteq> 0
                           then p2\<lparr>remote_data := m (remote_size p2)\<rparr> else p2)"
    have oks: "pair_ok p1" "pair_ok p2" "pair_ok p3"
      using malloc_length [OF m]
      by (auto simp: p3_def p2_def p1_def result_of_header_def pair_ok_def split: option.splits)
    have "length h = 120"
      using read_all_Some [of c 4 c1 tag] read_all_Some [of c1 116 c2 tl4] r1 r2 t
      by (simp add: h_def)
    then have digest: "length (terminal_digest (result_of_header h)) = 32"
      by (simp add: result_of_header_def)
    have eq: "ipc_receive_event m (Some r) c (Some x) =
       (if \<not> result_header_ok h then event_fail c2 empty_pair
        else if SNAPSHOT_MAX < host_size p1 \<or> SNAPSHOT_MAX < remote_size p1 \<or>
             (\<not> is_host (result_of_header h) \<and> (host_size p1 \<noteq> 0 \<or> remote_size p1 \<noteq> 0))
        then event_fail c2 p1
        else if host_size p2 \<noteq> 0 \<and> host_data p2 = None then event_fail c2 p2
        else if remote_size p3 \<noteq> 0 \<and> remote_data p3 = None then event_fail c2 p3
        else receive_candidates r c2 h ((result_of_header h)\<lparr>candidates := p3\<rparr>))"
      using r1 r2 t by (simp add: ipc_receive_event_def RESULT_HEADER_SIZE_def Let_def
                          p3_def p2_def p1_def h_def)
    have p3: "host_size p3 = host_size p1" "remote_size p3 = remote_size p1"
      "host_data p3 = host_data p2" "host_size p2 = host_size p1"
      "host_size p1 = 0 \<longrightarrow> host_data p3 = None" "remote_size p1 = 0 \<longrightarrow> remote_data p3 = None"
      by (simp_all add: p3_def p2_def p1_def result_of_header_def)
    consider (failed) y where "event_fail c2 y = (c', q, freed, e)" "pair_ok y"
      | (bodies) "receive_candidates r c2 h ((result_of_header h)\<lparr>candidates := p3\<rparr>) = (c', q, freed, e)"
          "is_host (result_of_header h) \<or> (host_size p3 = 0 \<and> remote_size p3 = 0)"
          "host_size p3 \<le> SNAPSHOT_MAX" "remote_size p3 \<le> SNAPSHOT_MAX"
          "host_data p3 = None \<longleftrightarrow> host_size p3 = 0" "remote_data p3 = None \<longleftrightarrow> remote_size p3 = 0"
      using run eq p3 oks pair_ok_empty by (auto split: if_splits)
    then show ?thesis
    proof cases
      case failed
      then show ?thesis by (rule event_sound_fail [rotated])
    next
      case bodies
      then show ?thesis
        using receive_candidates_sound [OF bodies(1)] digest oks by simp
    qed
  qed
qed

text \<open>An accepted event consumed exactly its own encoding from the pipe.\<close>

lemma receive_event_consumes:
  assumes run: "ipc_receive_event m (Some r) c (Some x) = (c', Some q, freed, e)" and "e \<noteq> 0"
  shows "rest c = (if e = 2 then TICKET_REQUEST else result_wire q) @ rest c'"
proof -
  obtain c1 tag where r1: "read_all r c 4 = (c1, Some tag)"
    using run \<open>e \<noteq> 0\<close> by (cases "read_all r c 4")
      (auto simp: ipc_receive_event_def event_fail_def split: option.splits prod.splits)
  have tag: "length tag = 4" "rest c = tag @ rest c1" using read_all_Some [OF r1] by auto
  show ?thesis
  proof (cases "tag = TICKET_REQUEST")
    case True
    then show ?thesis using run r1 tag by (simp add: ipc_receive_event_def)
  next
    case False
    obtain c2 tl4 where r2: "read_all r c1 116 = (c2, Some tl4)"
      using run \<open>e \<noteq> 0\<close> r1 False by (cases "read_all r c1 116")
        (auto simp: ipc_receive_event_def event_fail_def RESULT_HEADER_SIZE_def
              split: option.splits prod.splits)
    define h where "h = tag @ tl4"
    define res where "res = result_of_header h"
    define p1 where "p1 = candidates res"
    define p2 where "p2 = (if host_size p1 \<noteq> 0 then p1\<lparr>host_data := m (host_size p1)\<rparr> else p1)"
    define p3 where "p3 = (if remote_size p2 \<noteq> 0
                           then p2\<lparr>remote_data := m (remote_size p2)\<rparr> else p2)"
    have h: "length h = 120" "rest c = h @ rest c2"
      using read_all_Some [OF r2] tag by (auto simp: h_def)
    have empty: "host_data p1 = None" "remote_data p1 = None"
      and p3: "host_size p3 = host_size p1" "remote_size p3 = remote_size p1"
        "host_size p2 = host_size p1" "remote_size p2 = remote_size p1"
        "host_data p3 = host_data p2" "remote_data p2 = remote_data p1"
      by (simp_all add: res_def result_of_header_def p1_def p2_def p3_def)
    have eq: "ipc_receive_event m (Some r) c (Some x) =
       (if \<not> result_header_ok h then event_fail c2 empty_pair
        else if SNAPSHOT_MAX < host_size p1 \<or> SNAPSHOT_MAX < remote_size p1 \<or>
             (\<not> is_host res \<and> (host_size p1 \<noteq> 0 \<or> remote_size p1 \<noteq> 0))
        then event_fail c2 p1
        else if host_size p2 \<noteq> 0 \<and> host_data p2 = None then event_fail c2 p2
        else if remote_size p3 \<noteq> 0 \<and> remote_data p3 = None then event_fail c2 p3
        else receive_candidates r c2 h (res\<lparr>candidates := p3\<rparr>))"
      using r1 r2 False by (simp add: ipc_receive_event_def RESULT_HEADER_SIZE_def Let_def
                              p3_def p2_def p1_def res_def h_def)
    have ok: "result_header_ok h"
      and cand: "receive_candidates r c2 h (res\<lparr>candidates := p3\<rparr>) = (c', Some q, freed, e)"
      and blocks: "host_data p3 = None \<longleftrightarrow> host_size p3 = 0" "remote_data p3 = None \<longleftrightarrow> remote_size p3 = 0"
      using run [unfolded eq] \<open>e \<noteq> 0\<close> empty p3
      by (auto simp: event_fail_def p3_def p2_def split: if_splits)
    obtain p where bodies: "snapshot_receive_bodies r c2 p3 = (c', Some p, [], True)"
      and q: "q = res\<lparr>candidates := p\<rparr>" "e = 1" "content_sha256 (host_bytes p) = slice 48 32 h"
        "content_sha256 (remote_bytes p) = slice 80 32 h"
      using cand \<open>e \<noteq> 0\<close> snapshot_bodies_freed
      by (fastforce simp: receive_candidates_def event_fail_def split: prod.splits option.splits bool.splits if_splits)
    have "host_size p = host_size p3" "remote_size p = remote_size p3"
      "rest c2 = host_bytes p @ remote_bytes p @ rest c'"
      using snapshot_bodies_consume [OF bodies blocks] by (auto simp: host_bytes_def remote_bytes_def)
    moreover from this have "result_header q = h"
      using result_header_codec [OF ok h(1), of q] q
      by (simp add: p3 p1_def res_def result_of_header_def)
    ultimately show ?thesis using h(2) q by (simp add: result_wire_def)
  qed
qed

end

section \<open>The protocol over the pipes\<close>

text \<open>C10: The child's result reaches the parent as it was sent: over pipes that interrupt and
  split transfers at will, the parent's receiver reports a result event whose role, frame,
  terminal digest and candidate saves are the child's, and the child's copies are wiped.\<close>

theorem result_pipe_roundtrip:
  assumes "full_result x" "reliable c" "in_flight c = []" "IOError \<notin> set schedule"
    and "\<forall>n \<le> SNAPSHOT_MAX. m n \<noteq> None"
  shows "\<exists>c1 freed c2.
     result_ipc_send (Some fd_write) c (Some x) = (c1, Some empty_result, freed, True) \<and>
     wiped freed \<and>
     ipc_receive_event m (Some fd_read) (c1\<lparr>plan := schedule\<rparr>) (Some q) = (c2, Some x, [], 1) \<and>
     in_flight c2 = []"
proof -
  obtain c1 freed where c1: "result_ipc_send (Some fd_write) c (Some x) =
       (c1, Some empty_result, freed, True)"
    "in_flight c1 = result_wire x" "reliable c1"
    using fd_writer.result_send_complete [OF assms(2) full_result_sendable [OF assms(1)]] assms(3)
    by auto
  have "wiped freed"
    using result_ipc_send_wiped [OF _ c1(1)] assms(1) by (auto simp: full_result_def full_pair_def)
  moreover have "reliable (c1\<lparr>plan := schedule\<rparr>)"
      "in_flight (c1\<lparr>plan := schedule\<rparr>) = result_wire x @ []"
    using assms(4) c1(2) by (auto simp: reliable_def)
  ultimately show ?thesis
    using c1(1) assms(1,5) fd_reader.receive_event_wire [of "c1\<lparr>plan := schedule\<rparr>" x "[]" m q] by auto
qed

theorem result_pipe_roundtrip_witness:
  "\<exists>c1 freed c2.
     result_ipc_send (Some fd_write) \<lparr>in_flight = [], plan = [Moves 6, Interrupted]\<rparr>
       (Some \<lparr>is_host = True, final_frame = 77, terminal_digest = replicate 32 9,
              candidates = \<lparr>host_data = Some [5], host_size = 1, remote_data = None, remote_size = 0\<rparr>\<rparr>) =
       (c1, Some empty_result, freed, True) \<and>
     wiped freed \<and>
     ipc_receive_event (\<lambda>n. Some (replicate n 0)) (Some fd_read) (c1\<lparr>plan := [Interrupted]\<rparr>)
       (Some empty_result) =
       (c2, Some \<lparr>is_host = True, final_frame = 77, terminal_digest = replicate 32 9,
              candidates = \<lparr>host_data = Some [5], host_size = 1, remote_data = None, remote_size = 0\<rparr>\<rparr>,
        [], 1) \<and>
     in_flight c2 = []"
  by (rule result_pipe_roundtrip)
     (simp_all add: full_result_def full_pair_def pair_ok_def SNAPSHOT_MAX_def reliable_def)

text \<open>The parent accepts only genuine encodings: whatever bytes the pipe holds, a result
  event means that what was consumed is exactly the encoding of the result returned, both
  SHA-256 digests included, a ticket event that it was exactly the four request bytes, and a
  failure event leaves nothing behind that was not wiped.\<close>

theorem result_event_sound:
  assumes "malloc_ok m"
    and "ipc_receive_event m (Some fd_read) c (Some x) = (c', q, freed, e)"
  shows "event_sound q freed e \<and>
     (if e = 1 then in_flight c = result_wire (the q) @ in_flight c'
      else if e = 2 then in_flight c = TICKET_REQUEST @ in_flight c' else True)"
  using fd_reader.receive_event_sound [OF assms(2,1)]
    fd_reader.receive_event_consumes [of m c x c' "the q" freed e] assms(2)
  by (auto simp: event_sound_def)

theorem result_event_sound_witness:
  "event_sound (Some empty_result) [] 2 \<and>
   (if (2 :: int) = 1 then in_flight \<lparr>in_flight = [0x49, 0x46, 0x51, 0x31, 7], plan = [Moves 1]\<rparr> =
        result_wire (the (Some empty_result)) @ in_flight \<lparr>in_flight = [7], plan = []\<rparr>
    else if (2 :: int) = 2 then in_flight \<lparr>in_flight = [0x49, 0x46, 0x51, 0x31, 7], plan = [Moves 1]\<rparr> =
        TICKET_REQUEST @ in_flight \<lparr>in_flight = [7], plan = []\<rparr> else True)"
  by (rule result_event_sound [of "\<lambda>_. None"
        "\<lparr>in_flight = [0x49, 0x46, 0x51, 0x31, 7], plan = [Moves 1]\<rparr>" empty_result])
     (simp_all add: malloc_ok_def ipc_receive_event_def TICKET_REQUEST_def read_all.simps fd_read.simps
        sys_read_def plan_limit_def)

end
