(* ===== verification/Scheduler.thy ===== *)
theory Scheduler
  imports Common
begin

text \<open>
  The button scheduler of a fixed-host session (\<open>c_client/gb_runtime_fixed_host_scheduler.c\<close>):
  manual input, pausing, and the test automation that plays one macro per machine, where the
  two macros wait for each other at their \<open>|\<close> tokens. The macros are C strings in zeroed
  buffers of 513 bytes; \<open>char_at\<close> reads such a buffer. Frame counters are \<open>unsigned\<close>.
\<close>

section \<open>Model\<close>

record scheduler =
  macro_host :: string
  macro_remote :: string
  host_index :: nat
  remote_index :: nat
  step_frame :: u32
  press_frames :: u32
  step_frames :: u32
  macro_running :: bool
  paused :: bool

definition MACRO_MAX :: nat where "MACRO_MAX = 512"

definition zero_scheduler :: scheduler where
  "zero_scheduler = \<lparr>macro_host = [], macro_remote = [], host_index = 0, remote_index = 0,
     step_frame = 0, press_frames = 0, step_frames = 0, macro_running = False, paused = False\<rparr>"

definition char_at :: "string \<Rightarrow> nat \<Rightarrow> char" where
  "char_at s i = (if i < length s then s ! i else CHR 0x00)"

definition macro_button :: "char \<Rightarrow> u8" where
  "macro_button c =
     (if c = CHR ''A'' then 0x10
      else if c = CHR ''B'' then 0x20
      else if c = CHR ''S'' then 0x80
      else if c = CHR ''s'' then 0x40
      else if c = CHR ''R'' then 0x01
      else if c = CHR ''L'' then 0x02
      else if c = CHR ''U'' then 0x04
      else if c = CHR ''D'' then 0x08
      else if c = CHR ''.'' \<or> c = CHR 0x7C \<or> c = CHR 0x00 then 0
      else 0xff)"

definition valid_macro :: "string option \<Rightarrow> bool" where
  "valid_macro macro =
     (case macro of
        None \<Rightarrow> False
      | Some m \<Rightarrow> length m \<noteq> 0 \<and> length m \<le> MACRO_MAX \<and> (\<forall>c \<in> set m. macro_button c \<noteq> 0xff))"

definition scheduler_init ::
  "scheduler option \<Rightarrow> string option \<Rightarrow> string option \<Rightarrow> u32 \<Rightarrow> u32 \<Rightarrow> scheduler option \<times> bool" where
  "scheduler_init s host remote press step =
     (if s = None \<or> \<not> valid_macro host \<or> \<not> valid_macro remote \<or> press = 0 \<or> step < press
      then (s, False)
      else (Some (zero_scheduler\<lparr>macro_host := the host, macro_remote := the remote,
                                 press_frames := press, step_frames := step\<rparr>), True))"

definition start_test_automation :: "scheduler option \<Rightarrow> scheduler option" where
  "start_test_automation s =
     map_option (\<lambda>s. if macro_running s then s
                     else s\<lparr>macro_running := True, host_index := 0, remote_index := 0,
                            step_frame := 0\<rparr>) s"

definition set_paused :: "scheduler option \<Rightarrow> bool \<Rightarrow> scheduler option" where
  "set_paused s p = map_option (\<lambda>s. s\<lparr>paused := p\<rparr>) s"

definition advance_at_barrier :: "scheduler \<Rightarrow> scheduler" where
  "advance_at_barrier s =
     (if char_at (macro_host s) (host_index s) = CHR 0x7C \<and>
         char_at (macro_remote s) (remote_index s) = CHR 0x7C
      then s\<lparr>host_index := host_index s + 1, remote_index := remote_index s + 1\<rparr> else s)"

text \<open>
  One frame; \<open>outs\<close> says that both result pointers are not NULL. The buttons are None
  when nothing was stored.
\<close>

definition scheduler_frame ::
  "scheduler option \<Rightarrow> u8 \<Rightarrow> u8 \<Rightarrow> bool \<Rightarrow> scheduler option \<times> (u8 \<times> u8) option \<times> bool" where
  "scheduler_frame sp manual_host manual_remote outs =
     (case sp of
        None \<Rightarrow> (None, None, False)
      | Some s0 \<Rightarrow>
          if \<not> outs then (Some s0, None, False)
          else if paused s0 then (Some s0, Some (0, 0), True)
          else if \<not> macro_running s0 then (Some s0, Some (manual_host, manual_remote), True)
          else
            let s = advance_at_barrier s0;
                host_token = char_at (macro_host s) (host_index s);
                remote_token = char_at (macro_remote s) (remote_index s)
            in if host_token = CHR 0x00 \<and> remote_token = CHR 0x00
               then (Some (s\<lparr>macro_running := False\<rparr>), Some (0, 0), True)
               else
                 let out = (if step_frame s < press_frames s
                            then (macro_button host_token, macro_button remote_token) else (0, 0));
                     s1 = s\<lparr>step_frame := step_frame s + 1\<rparr>;
                     s2 = (if step_frames s1 \<le> step_frame s1
                           then s1\<lparr>step_frame := 0,
                                   host_index := (if host_token \<noteq> CHR 0x00 \<and> host_token \<noteq> CHR 0x7C
                                                  then host_index s1 + 1 else host_index s1),
                                   remote_index := (if remote_token \<noteq> CHR 0x00 \<and> remote_token \<noteq> CHR 0x7C
                                                    then remote_index s1 + 1 else remote_index s1)\<rparr>
                           else s1)
                 in (Some s2, Some out, True))"

definition scheduler_stop :: "scheduler option \<Rightarrow> scheduler option" where
  "scheduler_stop s = map_option (\<lambda>_. zero_scheduler) s"

section \<open>Operation sequences\<close>

datatype scheduler_op = SchedStart | SchedPause bool | SchedFrame u8 u8 | SchedStop

fun scheduler_step :: "scheduler option \<Rightarrow> scheduler_op \<Rightarrow> scheduler option" where
  "scheduler_step s SchedStart = start_test_automation s"
| "scheduler_step s (SchedPause p) = set_paused s p"
| "scheduler_step s (SchedFrame h r) = fst (scheduler_frame s h r True)"
| "scheduler_step s SchedStop = scheduler_stop s"

text \<open>Both indices address the zeroed buffers, whose last byte stays NUL.\<close>

definition scheduler_ok :: "scheduler \<Rightarrow> bool" where
  "scheduler_ok s \<longleftrightarrow>
     length (macro_host s) \<le> MACRO_MAX \<and> length (macro_remote s) \<le> MACRO_MAX \<and>
     host_index s \<le> length (macro_host s) \<and> remote_index s \<le> length (macro_remote s) \<and>
     (\<forall>c \<in> set (macro_host s) \<union> set (macro_remote s). macro_button c \<noteq> 0xff)"

lemma char_at_end: "char_at s i \<noteq> CHR 0x00 \<Longrightarrow> i < length s"
  by (auto simp: char_at_def split: if_splits)

lemma char_at_bar: "char_at s i = CHR 0x7C \<Longrightarrow> i < length s"
  by (auto simp: char_at_def split: if_splits)

lemma advance_fields [simp]:
  "macro_host (advance_at_barrier s) = macro_host s"
  "macro_remote (advance_at_barrier s) = macro_remote s"
  "step_frame (advance_at_barrier s) = step_frame s"
  "step_frames (advance_at_barrier s) = step_frames s"
  "press_frames (advance_at_barrier s) = press_frames s"
  "macro_running (advance_at_barrier s) = macro_running s"
  "paused (advance_at_barrier s) = paused s"
  by (simp_all add: advance_at_barrier_def)

lemma advance_ok: "scheduler_ok s \<Longrightarrow> scheduler_ok (advance_at_barrier s)"
  by (auto simp: advance_at_barrier_def scheduler_ok_def dest!: char_at_bar)

lemma frame_ok:
  assumes "scheduler_ok s"
  shows "\<exists>s'. fst (scheduler_frame (Some s) h r True) = Some s' \<and> scheduler_ok s'"
proof (cases "paused s \<or> \<not> macro_running s")
  case True
  then show ?thesis using assms by (auto simp: scheduler_frame_def)
next
  case False
  define a where "a = advance_at_barrier s"
  define ht where "ht = char_at (macro_host a) (host_index a)"
  define rt where "rt = char_at (macro_remote a) (remote_index a)"
  have "ht \<noteq> CHR 0x00 \<longrightarrow> host_index a < length (macro_host a)"
    "rt \<noteq> CHR 0x00 \<longrightarrow> remote_index a < length (macro_remote a)"
    using char_at_end by (auto simp: ht_def rt_def)
  moreover have "scheduler_ok a" using advance_ok [OF assms] by (simp add: a_def)
  ultimately show ?thesis
    using False
    by (simp add: scheduler_frame_def Let_def flip: a_def ht_def rt_def)
       (auto simp: scheduler_ok_def)
qed

lemma scheduler_step_ok:
  "scheduler_ok s \<Longrightarrow> \<exists>s'. scheduler_step (Some s) op = Some s' \<and> scheduler_ok s'"
proof (cases op)
  case (SchedFrame h r)
  assume "scheduler_ok s"
  from frame_ok [OF this] show ?thesis by (simp add: SchedFrame)
qed (auto simp: start_test_automation_def set_paused_def scheduler_stop_def zero_scheduler_def
      scheduler_ok_def)

lemma scheduler_run_ok:
  "scheduler_ok s \<Longrightarrow> \<exists>s'. foldl scheduler_step (Some s) ops = Some s' \<and> scheduler_ok s'"
proof (induction ops arbitrary: s)
  case (Cons op ops)
  then show ?case using scheduler_step_ok [OF Cons.prems, of op] by auto
qed simp

lemma scheduler_init_ok:
  "scheduler_init p h r a b = (Some s, True) \<Longrightarrow> scheduler_ok s"
  by (auto simp: scheduler_init_def valid_macro_def scheduler_ok_def zero_scheduler_def
           split: if_splits option.splits)

section \<open>The automation ends\<close>

text \<open>The automation alone: frames without manual input.\<close>

fun run_frames :: "nat \<Rightarrow> scheduler \<Rightarrow> scheduler" where
  "run_frames 0 s = s"
| "run_frames (Suc n) s = run_frames n (the (fst (scheduler_frame (Some s) 0 0 True)))"

definition bars :: "string \<Rightarrow> nat" where
  "bars m = length (filter (\<lambda>c. c = CHR 0x7C) m)"

definition automating :: "scheduler \<Rightarrow> bool" where
  "automating s \<longleftrightarrow> macro_running s \<and> \<not> paused s \<and> step_frame s < step_frames s \<and>
     host_index s \<le> length (macro_host s) \<and> remote_index s \<le> length (macro_remote s) \<and>
     CHR 0x00 \<notin> set (macro_host s) \<and> CHR 0x00 \<notin> set (macro_remote s)"

text \<open>Barriers ahead of the host minus barriers ahead of the remote, and the work left.\<close>

definition bar_gap :: "scheduler \<Rightarrow> int" where
  "bar_gap s = int (bars (drop (host_index s) (macro_host s))) -
               int (bars (drop (remote_index s) (macro_remote s)))"

definition tokens_left :: "scheduler \<Rightarrow> nat" where
  "tokens_left s = (length (macro_host s) - host_index s) +
                   (length (macro_remote s) - remote_index s)"

definition work_left :: "scheduler \<Rightarrow> nat" where
  "work_left s = tokens_left s * unat (step_frames s) +
                 (unat (step_frames s) - unat (step_frame s))"

lemma bars_drop:
  "i < length m \<Longrightarrow>
   bars (drop i m) = (if char_at m i = CHR 0x7C then 1 else 0) + bars (drop (Suc i) m)"
  by (simp add: bars_def char_at_def flip: Cons_nth_drop_Suc)

lemma at_end:
  "i \<le> length m \<Longrightarrow> CHR 0x00 \<notin> set m \<Longrightarrow> char_at m i = CHR 0x00 \<longleftrightarrow> i = length m"
  by (auto simp: char_at_def) (metis le_neq_implies_less nth_mem)

lemma bars_Nil [simp]: "bars [] = 0"
  by (simp add: bars_def)

lemma advance_automating:
  assumes "automating s"
  shows "automating (advance_at_barrier s)" "bar_gap (advance_at_barrier s) = bar_gap s"
    "tokens_left (advance_at_barrier s) \<le> tokens_left s"
    "char_at (macro_host s) (host_index s) = CHR 0x7C \<and>
     char_at (macro_remote s) (remote_index s) = CHR 0x7C \<Longrightarrow>
     tokens_left (advance_at_barrier s) < tokens_left s"
  using assms char_at_bar [of "macro_host s" "host_index s"]
    char_at_bar [of "macro_remote s" "remote_index s"]
  by (auto simp: advance_at_barrier_def automating_def bar_gap_def tokens_left_def bars_drop)

text \<open>One frame of a running automation: it ends with no barrier ahead, or goes on.\<close>

definition frame_rest :: "scheduler \<Rightarrow> scheduler" where
  "frame_rest a =
     (let ht = char_at (macro_host a) (host_index a); rt = char_at (macro_remote a) (remote_index a)
      in if step_frames a \<le> step_frame a + 1
         then a\<lparr>step_frame := 0,
                host_index := (if ht \<noteq> CHR 0x00 \<and> ht \<noteq> CHR 0x7C then host_index a + 1
                               else host_index a),
                remote_index := (if rt \<noteq> CHR 0x00 \<and> rt \<noteq> CHR 0x7C then remote_index a + 1
                                 else remote_index a)\<rparr>
         else a\<lparr>step_frame := step_frame a + 1\<rparr>)"

lemma frame_automating_eq:
  assumes "automating s"
  shows "the (fst (scheduler_frame (Some s) h r True)) =
    (let a = advance_at_barrier s
     in if char_at (macro_host a) (host_index a) = CHR 0x00 \<and>
           char_at (macro_remote a) (remote_index a) = CHR 0x00
        then a\<lparr>macro_running := False\<rparr> else frame_rest a)"
  using assms by (simp add: scheduler_frame_def frame_rest_def automating_def Let_def)

lemma index_step:
  assumes "i \<le> length m" "CHR 0x00 \<notin> set m"
  defines "j \<equiv> (if char_at m i \<noteq> CHR 0x00 \<and> char_at m i \<noteq> CHR 0x7C then i + 1 else i)"
  shows "j \<le> length m" "bars (drop j m) = bars (drop i m)" "i \<le> j"
    "char_at m i \<noteq> CHR 0x00 \<Longrightarrow> char_at m i \<noteq> CHR 0x7C \<Longrightarrow> length m - j < length m - i"
  using assms(1) bars_drop [of i m] char_at_end [of m i] unfolding j_def by auto

lemma frame_rest_automating:
  assumes "automating a"
  shows "automating (frame_rest a)" "bar_gap (frame_rest a) = bar_gap a"
proof -
  have k: "step_frame a < step_frames a" using assms by (simp add: automating_def)
  then have 0: "0 < step_frames a" by (rule order.strict_trans1 [OF word_zero_le])
  note h = index_step [of "host_index a" "macro_host a"]
    and r = index_step [of "remote_index a" "macro_remote a"]
  show "automating (frame_rest a)"
  proof (cases "step_frames a \<le> step_frame a + 1")
    case True
    then show ?thesis using assms 0 h(1) r(1) by (simp add: frame_rest_def automating_def Let_def)
  next
    case False
    have "step_frame a + 1 < step_frames a" using False by simp
    then show ?thesis using assms by (simp add: frame_rest_def automating_def Let_def False)
  qed
  show "bar_gap (frame_rest a) = bar_gap a"
    using assms h(2) r(2) by (simp add: frame_rest_def automating_def bar_gap_def Let_def)
qed

lemma frame_rest_work:
  assumes "automating a"
  defines "ht \<equiv> char_at (macro_host a) (host_index a)"
    and "rt \<equiv> char_at (macro_remote a) (remote_index a)"
  assumes "(ht \<noteq> CHR 0x00 \<and> ht \<noteq> CHR 0x7C) \<or> (rt \<noteq> CHR 0x00 \<and> rt \<noteq> CHR 0x7C)"
  shows "work_left (frame_rest a) < work_left a"
proof -
  have k: "unat (step_frame a) < unat (step_frames a)"
    using assms(1) by (simp add: automating_def word_less_nat_alt)
  have max: "unat (step_frames a) < 2 ^ LENGTH(32)" by (rule unsigned_less)
  have idx: "host_index a \<le> length (macro_host a)" "remote_index a \<le> length (macro_remote a)"
    "CHR 0x00 \<notin> set (macro_host a)" "CHR 0x00 \<notin> set (macro_remote a)"
    using assms(1) by (auto simp: automating_def)
  have suc: "unat (step_frame a + 1) = unat (step_frame a) + 1"
    using k max by (simp add: unat_word_ariths)
  show ?thesis
  proof (cases "step_frames a \<le> step_frame a + 1")
    case False
    then have "unat (step_frame a) + 1 < unat (step_frames a)"
      using suc by (simp add: word_le_nat_alt)
    then show ?thesis
      using k suc by (simp add: frame_rest_def work_left_def tokens_left_def Let_def False)
  next
    case True
    note h = index_step [OF idx(1,3)] and r = index_step [OF idx(2,4)]
    have "tokens_left (frame_rest a) < tokens_left a"
      using True assms(4) h(3,4) r(3,4) idx
      by (auto simp: frame_rest_def tokens_left_def ht_def rt_def Let_def)
    then have "tokens_left (frame_rest a) * unat (step_frames a) + unat (step_frames a)
        \<le> tokens_left a * unat (step_frames a)"
      by (metis Suc_leI mult_le_mono1 mult_Suc add.commute)
    moreover have "step_frames (frame_rest a) = step_frames a" "step_frame (frame_rest a) = 0"
      using True by (simp_all add: frame_rest_def Let_def)
    ultimately show ?thesis using k by (simp add: work_left_def)
  qed
qed

lemma frame_rest_work_le:
  assumes "automating a"
  shows "work_left (frame_rest a) < work_left a + unat (step_frames a)"
proof -
  have idx: "host_index a \<le> length (macro_host a)" "remote_index a \<le> length (macro_remote a)"
    "CHR 0x00 \<notin> set (macro_host a)" "CHR 0x00 \<notin> set (macro_remote a)"
    using assms by (auto simp: automating_def)
  have k: "unat (step_frame a) < unat (step_frames a)"
    using assms by (simp add: automating_def word_less_nat_alt)
  note h = index_step(3) [OF idx(1,3)] and r = index_step(3) [OF idx(2,4)]
  have "step_frames (frame_rest a) = step_frames a" by (simp add: frame_rest_def Let_def)
  moreover have "tokens_left (frame_rest a) \<le> tokens_left a"
    using h r idx by (auto simp: frame_rest_def tokens_left_def Let_def intro!: add_mono diff_le_mono2)
  ultimately have "work_left (frame_rest a) \<le> tokens_left a * unat (step_frames a) + unat (step_frames a)"
    by (simp add: work_left_def add_mono)
  then show ?thesis using k by (simp add: work_left_def)
qed

lemma frame_automating:
  assumes "automating s" and s'_def: "s' = the (fst (scheduler_frame (Some s) h r True))"
  shows "(\<not> macro_running s' \<and> bar_gap s = 0) \<or>
         (automating s' \<and> bar_gap s' = bar_gap s \<and> (bar_gap s = 0 \<longrightarrow> work_left s' < work_left s))"
proof -
  define a where "a = advance_at_barrier s"
  define ht where "ht = char_at (macro_host a) (host_index a)"
  define rt where "rt = char_at (macro_remote a) (remote_index a)"
  note adv = advance_automating [OF assms(1), folded a_def]
  have idx: "host_index a \<le> length (macro_host a)" "remote_index a \<le> length (macro_remote a)"
    "CHR 0x00 \<notin> set (macro_host a)" "CHR 0x00 \<notin> set (macro_remote a)"
    using adv(1) by (auto simp: automating_def)
  have s': "s' = (if ht = CHR 0x00 \<and> rt = CHR 0x00 then a\<lparr>macro_running := False\<rparr> else frame_rest a)"
    using frame_automating_eq [OF assms(1)] by (simp add: s'_def ht_def rt_def a_def Let_def)
  have ends: "ht = CHR 0x00 \<longleftrightarrow> host_index a = length (macro_host a)"
    "rt = CHR 0x00 \<longleftrightarrow> remote_index a = length (macro_remote a)"
    using at_end [OF idx(1,3)] at_end [OF idx(2,4)] by (simp_all add: ht_def rt_def)
  show ?thesis
  proof (cases "ht = CHR 0x00 \<and> rt = CHR 0x00")
    case True
    then have "bar_gap a = 0" using ends by (simp add: bar_gap_def)
    then show ?thesis using True s' adv(2) by simp
  next
    case False
    have "work_left (frame_rest a) < work_left s" if gap: "bar_gap s = 0"
    proof (cases "char_at (macro_host s) (host_index s) = CHR 0x7C \<and>
                  char_at (macro_remote s) (remote_index s) = CHR 0x7C")
      case True
      then have "tokens_left a < tokens_left s" by (rule adv(4))
      then have "tokens_left a * unat (step_frames a) + unat (step_frames a)
          \<le> tokens_left s * unat (step_frames a)"
        by (metis Suc_leI mult_le_mono1 mult_Suc add.commute)
      then show ?thesis
        using frame_rest_work_le [OF adv(1)] by (simp add: work_left_def a_def)
    next
      case no_bars: False
      then have "a = s" by (auto simp: a_def advance_at_barrier_def)
      moreover have "\<not> (ht = CHR 0x7C \<and> rt = CHR 0x00)" "\<not> (ht = CHR 0x00 \<and> rt = CHR 0x7C)"
        using gap ends bars_drop [of "host_index a" "macro_host a"]
          bars_drop [of "remote_index a" "macro_remote a"] char_at_bar
        by (auto simp: ht_def rt_def bar_gap_def \<open>a = s\<close>)
      moreover have "\<not> (ht = CHR 0x7C \<and> rt = CHR 0x7C)"
        using no_bars by (simp add: \<open>a = s\<close> ht_def rt_def)
      ultimately show ?thesis
        using frame_rest_work [OF adv(1)] False by (auto simp: ht_def rt_def)
    qed
    then show ?thesis
      using False s' frame_rest_automating [OF adv(1)] adv(2) by auto
  qed
qed

lemma run_frames_gap:
  "automating s \<Longrightarrow> bar_gap s \<noteq> 0 \<Longrightarrow> macro_running (run_frames n s)"
proof (induction n arbitrary: s)
  case 0
  then show ?case by (simp add: automating_def)
next
  case (Suc n)
  then show ?case using frame_automating [OF Suc.prems(1) refl, of 0 0] by auto
qed

lemma run_frames_finish:
  "automating s \<Longrightarrow> bar_gap s = 0 \<Longrightarrow> \<exists>n \<le> Suc (work_left s). \<not> macro_running (run_frames n s)"
proof (induction "work_left s" arbitrary: s rule: less_induct)
  case less
  let ?s = "the (fst (scheduler_frame (Some s) 0 0 True))"
  consider "\<not> macro_running ?s" | "automating ?s" "bar_gap ?s = 0" "work_left ?s < work_left s"
    using frame_automating [OF less.prems(1) refl, of 0 0] less.prems(2) by auto
  then show ?case
  proof cases
    case 1
    then have "\<not> macro_running (run_frames 1 s)" by simp
    then show ?thesis by (metis One_nat_def le_add1 plus_1_eq_Suc)
  next
    case 2
    obtain n where "n \<le> Suc (work_left ?s)" "\<not> macro_running (run_frames n ?s)"
      using less.hyps [OF 2(3,1,2)] by blast
    then show ?thesis using 2(3) by (intro exI [of _ "Suc n"]) auto
  qed
qed

text \<open>A C string has no NUL among its characters.\<close>

lemma started_automating:
  assumes "scheduler_init (Some z) (Some h) (Some r) a b = (Some s, True)"
    "CHR 0x00 \<notin> set h" "CHR 0x00 \<notin> set r" "start_test_automation (Some s) = Some s'"
  shows "automating s'" "bar_gap s' = int (bars h) - int (bars r)"
    "work_left s' = (length h + length r + 1) * unat b"
proof -
  have "0 < b" using assms(1) by (auto simp: scheduler_init_def word_gt_0 split: if_splits)
  moreover have "s' = zero_scheduler\<lparr>macro_host := h, macro_remote := r, press_frames := a,
      step_frames := b, macro_running := True\<rparr>"
    using assms(1,4) by (auto simp: scheduler_init_def start_test_automation_def zero_scheduler_def
        split: if_splits)
  ultimately show "automating s'" "bar_gap s' = int (bars h) - int (bars r)"
    "work_left s' = (length h + length r + 1) * unat b"
    using assms(2,3)
    by (simp_all add: automating_def zero_scheduler_def bar_gap_def work_left_def tokens_left_def
        distrib_right)
qed

text \<open>C27: The two macros of the test automation wait for each other at their barriers. A started
  automation ends if and only if both macros have the same number of barriers, and then within
  as many frames as the tokens of both take one after the other; otherwise it runs for ever,
  which the validation of the macros does not prevent.\<close>

theorem scheduler_automation_ends:
  assumes "scheduler_init (Some z) (Some h) (Some r) a b = (Some s, True)"
    and "CHR 0x00 \<notin> set h" "CHR 0x00 \<notin> set r" "start_test_automation (Some s) = Some s'"
  shows "(\<exists>n. \<not> macro_running (run_frames n s')) = (bars h = bars r) \<and>
    (if bars h = bars r
     then (\<exists>n. n \<le> (length h + length r + 1) * unat b + 1 \<and> \<not> macro_running (run_frames n s'))
     else macro_running (run_frames k s'))"
proof (cases "bars h = bars r")
  case True
  then show ?thesis
    using run_frames_finish [of s'] started_automating [OF assms] by auto
next
  case False
  then show ?thesis
    using run_frames_gap [of s'] started_automating [OF assms] by auto
qed

theorem scheduler_automation_ends_witness:
  "(\<exists>n. \<not> macro_running (run_frames n (zero_scheduler\<lparr>macro_host := ''A|B'', macro_remote := ''.|'',
        press_frames := 1, step_frames := 2, macro_running := True\<rparr>))) = (bars ''A|B'' = bars ''.|'') \<and>
   (if bars ''A|B'' = bars ''.|''
    then (\<exists>n. n \<le> (length ''A|B'' + length ''.|'' + 1) * unat (2 :: u32) + 1 \<and>
        \<not> macro_running (run_frames n (zero_scheduler\<lparr>macro_host := ''A|B'', macro_remote := ''.|'',
        press_frames := 1, step_frames := 2, macro_running := True\<rparr>)))
    else macro_running (run_frames 7 (zero_scheduler\<lparr>macro_host := ''A|B'', macro_remote := ''.|'',
        press_frames := 1, step_frames := 2, macro_running := True\<rparr>)))"
  by (rule scheduler_automation_ends
       [where z = zero_scheduler and a = 1 and s = "zero_scheduler\<lparr>macro_host := ''A|B'',
          macro_remote := ''.|'', press_frames := 1, step_frames := 2\<rparr>"])
     (simp_all add: scheduler_init_def valid_macro_def MACRO_MAX_def macro_button_def
        start_test_automation_def zero_scheduler_def)

text \<open>In every state a session can bring the scheduler to by starting, pausing, frames and
  stopping, both macro indices stay inside the macro buffers, and a paused frame presses
  nothing on either machine.\<close>

theorem scheduler_bounds:
  assumes "scheduler_init p h r a b = (Some s, True)"
  shows "\<exists>s'. foldl scheduler_step (Some s) ops = Some s' \<and>
      host_index s' \<le> MACRO_MAX \<and> remote_index s' \<le> MACRO_MAX \<and>
      host_index s' \<le> length (macro_host s') \<and> remote_index s' \<le> length (macro_remote s') \<and>
      scheduler_frame (set_paused (Some s') True) mh mr True =
        (Some (s'\<lparr>paused := True\<rparr>), Some (0, 0), True)"
  using scheduler_run_ok [OF scheduler_init_ok [OF assms], of ops]
  by (auto simp: scheduler_ok_def scheduler_frame_def set_paused_def)

theorem scheduler_bounds_witness:
  "\<exists>s'. foldl scheduler_step (Some (zero_scheduler\<lparr>macro_host := ''A'', macro_remote := ''.'',
        press_frames := 1, step_frames := 1\<rparr>)) [SchedStart, SchedFrame 1 2, SchedPause True] = Some s' \<and>
      host_index s' \<le> MACRO_MAX \<and> remote_index s' \<le> MACRO_MAX \<and>
      host_index s' \<le> length (macro_host s') \<and> remote_index s' \<le> length (macro_remote s') \<and>
      scheduler_frame (set_paused (Some s') True) 4 8 True =
        (Some (s'\<lparr>paused := True\<rparr>), Some (0, 0), True)"
  by (rule scheduler_bounds [where p = "Some zero_scheduler" and h = "Some ''A''" and r = "Some ''.''"
        and a = 1 and b = 1])
     (simp_all add: scheduler_init_def valid_macro_def MACRO_MAX_def macro_button_def)

end
