(* ===== verification/CText.thy ===== *)
theory CText
  imports Common
begin

text \<open>
  Numbers as C text: the decimal conversions of \<open>printf\<close> and the \<open>strtol\<close> family, with the
  range-checked parsers of \<open>runtimes/gb/src/common/parse_util.c\<close>, the truncating copy of
  \<open>string_util.c\<close>, and the display scale setting of \<open>display_scale.c\<close>, which is stored as
  text and resolved against the space available.
\<close>

section \<open>Decimal conversion\<close>

definition digit_char :: "nat \<Rightarrow> char" where
  "digit_char d = char_of (48 + d)"

definition digit_value :: "char \<Rightarrow> nat" where
  "digit_value c = of_char c - 48"

fun dec :: "nat \<Rightarrow> string" where
  "dec n = (if n < 10 then [digit_char n] else dec (n div 10) @ [digit_char (n mod 10)])"

declare dec.simps [simp del]

definition dec_int :: "int \<Rightarrow> string" where
  "dec_int i = (if i < 0 then CHR ''-'' # dec (nat (- i)) else dec (nat i))"

definition digits_value :: "string \<Rightarrow> nat" where
  "digits_value ds = foldl (\<lambda>v c. v * 10 + digit_value c) 0 ds"

lemma of_digit_char [simp]: "d < 10 \<Longrightarrow> (of_char (digit_char d) :: nat) = 48 + d"
  by (simp add: digit_char_def)

lemma digit_value_char [simp]: "d < 10 \<Longrightarrow> digit_value (digit_char d) = d"
  by (simp add: digit_value_def)

lemma c_isdigit_iff: "c_isdigit c \<longleftrightarrow> 48 \<le> (of_char c :: nat) \<and> (of_char c :: nat) \<le> 57"
  by (simp add: c_isdigit_def less_eq_char_def)

lemma c_isdigit_digit_char [simp]: "d < 10 \<Longrightarrow> c_isdigit (digit_char d)"
  by (simp add: c_isdigit_iff)

lemma dec_digits [simp]: "c \<in> set (dec n) \<Longrightarrow> c_isdigit c"
proof (induction n rule: dec.induct)
  case (1 n)
  then show ?case by (subst (asm) (2) dec.simps) (auto split: if_splits)
qed

lemma dec_not_Nil [simp]: "dec n \<noteq> []"
  by (subst dec.simps) simp

lemma dec_not_Nil' [simp]: "[] \<noteq> dec n"
  by (metis dec_not_Nil)

lemma digits_value_snoc [simp]: "digits_value (ds @ [c]) = digits_value ds * 10 + digit_value c"
  by (simp add: digits_value_def)

lemma digits_value_dec [simp, codec]: "digits_value (dec n) = n"
proof (induction n rule: dec.induct)
  case (1 n)
  show ?case
  proof (cases "n < 10")
    case True
    then show ?thesis by (subst dec.simps) (simp add: digits_value_def)
  next
    case False
    then show ?thesis using "1.IH" by (subst dec.simps) simp
  qed
qed

lemma length_dec: "0 < k \<Longrightarrow> n < 10 ^ k \<Longrightarrow> length (dec n) \<le> k"
proof (induction k arbitrary: n)
  case (Suc k)
  show ?case
  proof (cases "n < 10")
    case True
    then show ?thesis by (subst dec.simps) simp
  next
    case False
    have "n div 10 < 10 ^ k" using Suc.prems(2) by (simp add: div_less_iff_less_mult mult.commute)
    moreover have "0 < k" using False Suc.prems(2) by (cases k) auto
    ultimately have "length (dec (n div 10)) \<le> k" by (rule Suc.IH [rotated])
    then show ?thesis using False by (subst dec.simps) simp
  qed
qed simp

lemma digit_not_space: "c_isdigit c \<Longrightarrow> \<not> c_isspace c"
  by (auto simp: c_isdigit_iff c_isspace_def)

lemma digit_neq [simp]:
  "c_isdigit c \<Longrightarrow> c \<noteq> CHR ''-''" "c_isdigit c \<Longrightarrow> c \<noteq> CHR ''+''" "c_isdigit c \<Longrightarrow> c \<noteq> CHR '':''"
  "c_isdigit c \<Longrightarrow> c \<noteq> CHR '',''" "c_isdigit c \<Longrightarrow> c \<noteq> CHR ''_''" "c_isdigit c \<Longrightarrow> c \<noteq> CHR 0x00"
  by (auto simp: c_isdigit_iff)

lemma dec_hd [simp]: "c_isdigit (hd (dec n))"
  by (rule dec_digits) (rule list.set_sel, simp)

lemma dec_inj [simp]: "dec m = dec n \<longleftrightarrow> m = n"
  using digits_value_dec by metis

text \<open>Zero-padded lower-case hexadecimal, as \<open>"%0kx"\<close> prints a number of at most \<open>k\<close> digits.\<close>

definition hex_char :: "nat \<Rightarrow> char" where
  "hex_char d = ''0123456789abcdef'' ! d"

fun hex_pad :: "nat \<Rightarrow> nat \<Rightarrow> string" where
  "hex_pad 0 n = []"
| "hex_pad (Suc k) n = hex_pad k (n div 16) @ [hex_char (n mod 16)]"

lemma length_hex_pad [simp, range]: "length (hex_pad k n) = k"
  by (induction k n rule: hex_pad.induct) simp_all

lemma hex_char_inj: "i < 16 \<Longrightarrow> j < 16 \<Longrightarrow> hex_char i = hex_char j \<Longrightarrow> i = j"
proof -
  have "distinct ''0123456789abcdef''" "length ''0123456789abcdef'' = 16" by simp_all
  then show "i < 16 \<Longrightarrow> j < 16 \<Longrightarrow> hex_char i = hex_char j \<Longrightarrow> i = j"
    unfolding hex_char_def by (simp only: nth_eq_iff_index_eq)
qed

lemma hex_pad_inj: "m < 16 ^ k \<Longrightarrow> n < 16 ^ k \<Longrightarrow> hex_pad k m = hex_pad k n \<Longrightarrow> m = n"
proof (induction k arbitrary: m n)
  case (Suc k)
  have "m div 16 < 16 ^ k" "n div 16 < 16 ^ k"
    using Suc.prems(1,2) by (simp_all add: div_less_iff_less_mult mult.commute)
  moreover have "hex_pad k (m div 16) = hex_pad k (n div 16)" "hex_char (m mod 16) = hex_char (n mod 16)"
    using Suc.prems(3) by simp_all
  ultimately have "m div 16 = n div 16" "m mod 16 = n mod 16"
    using Suc.IH hex_char_inj [of "m mod 16" "n mod 16"] by simp_all
  then show ?case by (metis div_mult_mod_eq)
qed simp

section \<open>\<open>strtol\<close> and \<open>strtoul\<close>\<close>

text \<open>
  Both return the value and the rest of the text after it; when there are no digits the value
  is 0 and the rest is the whole text. \<open>scan_number\<close> gives sign and digits, None without
  digits. \<open>strtol\<close> saturates and \<open>strtoul\<close> too, after which a minus sign negates modulo
  \<open>2 ^ 64\<close>; the last result says that the range was exceeded (\<open>errno\<close> is \<open>ERANGE\<close>).
\<close>

definition scan_number :: "string \<Rightarrow> (bool \<times> nat \<times> string) option" where
  "scan_number s =
     (let t = dropWhile c_isspace s;
          neg = (case t of c # _ \<Rightarrow> c = CHR ''-'' | _ \<Rightarrow> False);
          u = (case t of c # cs \<Rightarrow> if c = CHR ''-'' \<or> c = CHR ''+'' then cs else t | _ \<Rightarrow> t);
          ds = takeWhile c_isdigit u
      in if ds = [] then None else Some (neg, digits_value ds, dropWhile c_isdigit u))"

definition c_strtol :: "string \<Rightarrow> int \<times> string" where
  "c_strtol s =
     (case scan_number s of
        None \<Rightarrow> (0, s)
      | Some (neg, n, rest) \<Rightarrow>
          (if neg then max (- (2 ^ 63)) (- int n) else min (2 ^ 63 - 1) (int n), rest))"

definition c_strtoul :: "string \<Rightarrow> nat \<times> string \<times> bool" where
  "c_strtoul s =
     (case scan_number s of
        None \<Rightarrow> (0, s, False)
      | Some (neg, n, rest) \<Rightarrow>
          if 2 ^ 64 \<le> n then (2 ^ 64 - 1, rest, True)
          else (if neg then (2 ^ 64 - n) mod 2 ^ 64 else n, rest, False))"

definition stops :: "string \<Rightarrow> bool" where
  "stops rest \<longleftrightarrow> (case rest of [] \<Rightarrow> True | c # _ \<Rightarrow> \<not> c_isdigit c)"

lemma stops_simps [simp]: "stops []" "stops (c # cs) \<longleftrightarrow> \<not> c_isdigit c"
  by (simp_all add: stops_def)

lemma take_digits:
  "stops rest \<Longrightarrow> takeWhile c_isdigit (dec n @ rest) = dec n \<and>
                 dropWhile c_isdigit (dec n @ rest) = rest"
  by (subst takeWhile_append2; simp; cases rest; simp)

lemma scan_dec [codec]:
  assumes "stops rest"
  shows "scan_number (dec n @ rest) = Some (False, n, rest)"
    and "scan_number (CHR ''-'' # dec n @ rest) = Some (True, n, rest)"
proof -
  obtain d ds where d: "dec n = d # ds" "c_isdigit d"
    using dec_hd [of n] dec_not_Nil [of n] by (cases "dec n") auto
  have "\<not> c_isspace (CHR ''-'')" by (simp add: c_isspace_def)
  then show "scan_number (dec n @ rest) = Some (False, n, rest)"
    "scan_number (CHR ''-'' # dec n @ rest) = Some (True, n, rest)"
    using take_digits [OF assms, of n] digits_value_dec [of n] d digit_not_space [OF d(2)]
    by (auto simp: scan_number_def Let_def)
qed

lemma strtol_dec_int [codec]:
  assumes "stops rest" "- (2 ^ 63) \<le> i" "i < 2 ^ 63"
  shows "c_strtol (dec_int i @ rest) = (i, rest)"
  using assms scan_dec [OF assms(1)] by (auto simp: c_strtol_def dec_int_def)

lemma strtoul_dec [codec]:
  "stops rest \<Longrightarrow> n < 2 ^ 64 \<Longrightarrow> c_strtoul (dec n @ rest) = (n, rest, False)"
  by (simp add: c_strtoul_def scan_dec)

lemma dec_int_not_Nil [simp]: "dec_int i \<noteq> []" "[] \<noteq> dec_int i"
  by (simp_all add: dec_int_def)

lemma length_dec_int: "0 < k \<Longrightarrow> - (10 ^ k) < i \<Longrightarrow> i < 10 ^ k \<Longrightarrow> length (dec_int i) \<le> Suc k"
proof -
  assume k: "0 < k" and i: "- (10 ^ k) < i" "i < 10 ^ k"
  have "nat \<bar>i\<bar> < 10 ^ k" using i by (simp add: nat_less_iff abs_less_iff)
  then have "length (dec (nat \<bar>i\<bar>)) \<le> k" by (rule length_dec [OF k])
  then show ?thesis by (auto simp: dec_int_def abs_if split: if_splits)
qed

lemma length_dec_int_pos: "0 < k \<Longrightarrow> 0 \<le> i \<Longrightarrow> i < 10 ^ k \<Longrightarrow> length (dec_int i) \<le> k"
proof -
  assume k: "0 < k" and i: "0 \<le> i" "i < 10 ^ k"
  then have "nat i < 10 ^ k" by (simp add: nat_less_iff)
  then show ?thesis using length_dec [OF k] i by (simp add: dec_int_def)
qed

section \<open>Range-checked parsing\<close>

text \<open>Results: the C result and the parsed value; None means the output was not written.\<close>

definition parse_uint_range :: "string \<Rightarrow> u32 \<Rightarrow> u32 \<Rightarrow> u32 option" where
  "parse_uint_range text lo hi =
     (case c_strtoul text of
        (v, rest, _) \<Rightarrow>
          if text = [] \<or> rest \<noteq> [] \<or> v < unat lo \<or> unat hi < v then None else Some (of_nat v))"

definition parse_int_range :: "string \<Rightarrow> int \<Rightarrow> int \<Rightarrow> int option" where
  "parse_int_range text lo hi =
     (case c_strtol text of
        (v, rest) \<Rightarrow> if text = [] \<or> rest \<noteq> [] \<or> v < lo \<or> hi < v then None else Some v)"

definition copy_text_checked :: "bool \<Rightarrow> nat \<Rightarrow> string option \<Rightarrow> string option \<times> bool" where
  "copy_text_checked dest dest_size src =
     (case src of
        None \<Rightarrow> (None, False)
      | Some s \<Rightarrow>
          if \<not> dest \<or> dest_size = 0 then (None, False)
          else if dest_size \<le> length s then (Some (take (dest_size - 1) s), False)
          else (Some s, True))"

lemma copy_text_checked_fits:
  "copy_text_checked dest n src = (Some out, ok) \<Longrightarrow> length out < n \<and> (ok \<longrightarrow> src = Some out)"
  by (auto simp: copy_text_checked_def split: option.splits if_splits)

section \<open>Display scale\<close>

definition DISPLAY_SCALE_AUTO :: u32 where "DISPLAY_SCALE_AUTO = 0"
definition DISPLAY_SCALE_MIN :: u32 where "DISPLAY_SCALE_MIN = 1"
definition DISPLAY_SCALE_MAX :: u32 where "DISPLAY_SCALE_MAX = 6"

lemmas display_scale_bounds =
  DISPLAY_SCALE_AUTO_def DISPLAY_SCALE_MIN_def DISPLAY_SCALE_MAX_def

definition display_scale_parse :: "string option \<Rightarrow> u32 option" where
  "display_scale_parse text =
     (case text of
        None \<Rightarrow> None
      | Some s \<Rightarrow>
          if s = ''auto'' \<or> s = ''AUTO'' then Some DISPLAY_SCALE_AUTO
          else (case c_strtoul s of
                  (v, rest, erange) \<Rightarrow>
                    if erange \<or> rest = s \<or> rest \<noteq> [] \<or> v < unat DISPLAY_SCALE_MIN \<or>
                       unat DISPLAY_SCALE_MAX < v
                    then None else Some (of_nat v)))"

text \<open>Screen and content sizes are positive where the C divisions happen.\<close>

definition display_scale_resolve :: "u32 \<Rightarrow> int \<Rightarrow> int \<Rightarrow> int \<Rightarrow> int \<Rightarrow> u32" where
  "display_scale_resolve requested aw ah cw ch =
     (if DISPLAY_SCALE_MIN \<le> requested \<and> requested \<le> DISPLAY_SCALE_MAX then requested
      else if aw \<le> 0 \<or> ah \<le> 0 \<or> cw \<le> 0 \<or> ch \<le> 0 then DISPLAY_SCALE_MIN
      else let ws = aw div cw; hs = ah div ch;
               s0 = (if ws < hs then ws else hs);
               s1 = (if s0 < uint DISPLAY_SCALE_MIN then uint DISPLAY_SCALE_MIN else s0);
               s2 = (if uint DISPLAY_SCALE_MAX < s1 then uint DISPLAY_SCALE_MAX else s1)
           in of_int s2)"

definition display_scale_from_environment ::
  "(string \<Rightarrow> string option) \<Rightarrow> string option \<Rightarrow> u32" where
  "display_scale_from_environment getenv name =
     (let v = (case name of None \<Rightarrow> None | Some n \<Rightarrow> getenv n)
      in case v of
           None \<Rightarrow> DISPLAY_SCALE_AUTO
         | Some _ \<Rightarrow> (case display_scale_parse v of None \<Rightarrow> DISPLAY_SCALE_AUTO | Some s \<Rightarrow> s))"

definition display_scale_format :: "u32 \<Rightarrow> nat \<Rightarrow> string option" where
  "display_scale_format scale out_size =
     (if out_size = 0 then None
      else if scale = DISPLAY_SCALE_AUTO then Some (copy_text out_size ''AUTO'')
      else Some (copy_text out_size (dec (unat scale))))"

lemma parse_uint_dec [codec]:
  "lo \<le> v \<Longrightarrow> v \<le> hi \<Longrightarrow> parse_uint_range (dec (unat v)) lo hi = Some v"
proof -
  assume "lo \<le> v" "v \<le> hi"
  moreover have "unat v < 2 ^ 64"
    using unat_u32_less [of v] by simp
  ultimately show ?thesis
    using strtoul_dec [of "[]" "unat v"] by (simp add: parse_uint_range_def word_le_nat_alt not_less)
qed

lemma parse_uint_bounds: "parse_uint_range s lo hi = Some v \<Longrightarrow> lo \<le> v \<and> v \<le> hi"
proof -
  assume "parse_uint_range s lo hi = Some v"
  then obtain n where n: "unat lo \<le> n" "n \<le> unat hi" "v = of_nat n"
    by (force simp: parse_uint_range_def not_less split: prod.splits if_splits)
  then have "unat v = n"
    using unat_u32_less [of hi] by (simp add: unat_of_nat)
  with n show ?thesis by (simp add: word_le_nat_alt)
qed

lemma quot_bounds: "0 < (c :: int) \<Longrightarrow> c * (a div c) \<le> a \<and> a < c * (a div c + 1)"
  using mult_div_mod_eq [of c a] pos_mod_bound [of c a] pos_mod_sign [of c a]
  unfolding distrib_left by linarith

lemma display_scale_fits:
  assumes "\<not> (DISPLAY_SCALE_MIN \<le> requested \<and> requested \<le> DISPLAY_SCALE_MAX)"
    "0 < aw" "0 < ah" "0 < cw" "0 < ch"
  defines "s \<equiv> uint (display_scale_resolve requested aw ah cw ch)"
  shows "1 \<le> s \<and> s \<le> 6 \<and> (s = 1 \<or> (cw * s \<le> aw \<and> ch * s \<le> ah)) \<and>
    (s = 6 \<or> aw < cw * (s + 1) \<or> ah < ch * (s + 1))"
proof -
  define m where "m = min (aw div cw) (ah div ch)"
  have s: "s = max 1 (min 6 m)"
    using assms(1-5)
    by (auto simp: s_def display_scale_resolve_def display_scale_bounds Let_def m_def
             uint_word_of_int split: if_splits)
  have w: "cw * (aw div cw) \<le> aw" "aw < cw * (aw div cw + 1)"
    "ch * (ah div ch) \<le> ah" "ah < ch * (ah div ch + 1)"
    using quot_bounds assms(4,5) by auto
  have below: "cw * s \<le> aw \<and> ch * s \<le> ah" if "s \<noteq> 1"
  proof -
    have "s \<le> aw div cw" "s \<le> ah div ch" using that by (auto simp: s m_def)
    then have "cw * s \<le> cw * (aw div cw)" "ch * s \<le> ch * (ah div ch)"
      using assms(4,5) by (simp_all add: mult_left_mono)
    then show ?thesis using w by linarith
  qed
  have above: "aw < cw * (s + 1) \<or> ah < ch * (s + 1)" if "s \<noteq> 6"
  proof -
    have "aw div cw \<le> s \<or> ah div ch \<le> s" using that by (auto simp: s m_def)
    then have "cw * (aw div cw + 1) \<le> cw * (s + 1) \<or> ch * (ah div ch + 1) \<le> ch * (s + 1)"
      using assms(4,5) by (simp add: mult_left_mono)
    then show ?thesis using w by linarith
  qed
  have "1 \<le> s" "s \<le> 6" by (auto simp: s)
  then show ?thesis using below above by blast
qed

lemma dec_not_auto: "dec n \<noteq> ''auto''" "dec n \<noteq> ''AUTO''"
proof -
  have "\<not> c_isdigit (CHR ''a'')" "\<not> c_isdigit (CHR ''A'')" by (simp_all add: c_isdigit_iff)
  then show "dec n \<noteq> ''auto''" "dec n \<noteq> ''AUTO''" using dec_hd [of n] by (metis list.sel(1))+
qed

lemma display_scale_parse_format [codec]:
  assumes "s \<le> DISPLAY_SCALE_MAX" "5 \<le> n"
  shows "display_scale_parse (display_scale_format s n) = Some s"
proof (cases "s = DISPLAY_SCALE_AUTO")
  case True
  then show ?thesis using assms(2) by (simp add: display_scale_format_def display_scale_parse_def)
next
  case False
  have "unat s \<le> 6" "unat s \<noteq> 0"
    using assms(1) False by (simp_all add: display_scale_bounds word_le_nat_alt unat_eq_0)
  moreover have "length (dec (unat s)) \<le> 1" by (rule length_dec) (use calculation in simp_all)
  ultimately show ?thesis
    using strtoul_dec [of "[]" "unat s"] assms(2) False dec_not_auto [of "unat s"]
    by (simp add: display_scale_format_def display_scale_parse_def display_scale_bounds copy_text_def)
qed

text \<open>The automatic display scale is the largest whole factor between 1 and 6 at which the
  content fits the space available: a scale above 1 fits in both directions, and the next
  larger one would not.\<close>

theorem display_scale_maximal:
  assumes "requested = DISPLAY_SCALE_AUTO" "0 < aw" "0 < ah" "0 < cw" "0 < ch"
  shows "1 \<le> uint (display_scale_resolve requested aw ah cw ch) \<and>
    uint (display_scale_resolve requested aw ah cw ch) \<le> 6 \<and>
    (uint (display_scale_resolve requested aw ah cw ch) = 1 \<or>
       (cw * uint (display_scale_resolve requested aw ah cw ch) \<le> aw \<and>
        ch * uint (display_scale_resolve requested aw ah cw ch) \<le> ah)) \<and>
    (uint (display_scale_resolve requested aw ah cw ch) = 6 \<or>
       aw < cw * (uint (display_scale_resolve requested aw ah cw ch) + 1) \<or>
       ah < ch * (uint (display_scale_resolve requested aw ah cw ch) + 1))"
  by (rule display_scale_fits) (use assms in \<open>simp_all add: display_scale_bounds\<close>)

theorem display_scale_maximal_witness:
  "1 \<le> uint (display_scale_resolve 0 1000 900 160 144) \<and>
    uint (display_scale_resolve 0 1000 900 160 144) \<le> 6 \<and>
    (uint (display_scale_resolve 0 1000 900 160 144) = 1 \<or>
       (160 * uint (display_scale_resolve 0 1000 900 160 144) \<le> 1000 \<and>
        144 * uint (display_scale_resolve 0 1000 900 160 144) \<le> 900)) \<and>
    (uint (display_scale_resolve 0 1000 900 160 144) = 6 \<or>
       1000 < 160 * (uint (display_scale_resolve 0 1000 900 160 144) + 1) \<or>
       900 < 144 * (uint (display_scale_resolve 0 1000 900 160 144) + 1))"
  by (rule display_scale_maximal) (simp_all add: display_scale_bounds)

end
