(* ===== verification/SdlEvents.thy ===== *)
theory SdlEvents
  imports Common
begin

text \<open>
  The part of an SDL event the key configuration code reads: its type and the fields of
  that type. Key codes and scan codes are \<open>Sint32\<close> values, device instances \<open>Sint32\<close>,
  buttons, axes and hats octets, axis positions \<open>Sint16\<close> values. The numbers of keys, scan
  codes, hat positions and controller controls are those the SDL 2 headers document.
\<close>

datatype sdl_event =
    SdlQuit
  | KeyDown (key_sym: int) (key_scancode: int) (key_repeat: bool)
  | KeyUp (key_sym: int) (key_scancode: int) (key_repeat: bool)
  | PadButtonDown (ev_which: int) (ev_button: u8)
  | PadButtonUp (ev_which: int) (ev_button: u8)
  | PadAxis (ev_which: int) (ev_axis: u8) (ev_value: int)
  | JoyButtonDown (ev_which: int) (ev_button: u8)
  | JoyButtonUp (ev_which: int) (ev_button: u8)
  | JoyAxis (ev_which: int) (ev_axis: u8) (ev_value: int)
  | JoyHat (ev_which: int) (ev_hat: u8) (ev_position: u8)
  | DeviceAdded int
  | DeviceRemoved int
  | OtherEvent

definition SDL_HAT_CENTERED :: u8 where "SDL_HAT_CENTERED = 0"
definition SDL_HAT_UP :: u8 where "SDL_HAT_UP = 1"
definition SDL_HAT_RIGHT :: u8 where "SDL_HAT_RIGHT = 2"
definition SDL_HAT_DOWN :: u8 where "SDL_HAT_DOWN = 4"
definition SDL_HAT_LEFT :: u8 where "SDL_HAT_LEFT = 8"

lemmas sdl_hats = SDL_HAT_CENTERED_def SDL_HAT_UP_def SDL_HAT_RIGHT_def SDL_HAT_DOWN_def
  SDL_HAT_LEFT_def

end
