(* ===== verification/N64Keys.thy ===== *)
theory N64Keys
  imports CText SdlEvents
begin

text \<open>
  The N64 runtime's key bindings (\<open>runtimes/n64/src/gui/keymap.c\<close>) and hotkeys
  (\<open>runtimes/n64/src/gui/hotkeys.c\<close>): capturing a binding from an SDL event, and the text
  form in which the launcher stores them. The order of the SDL devices is a parameter.
\<close>

unbundle bit_operations_syntax

section \<open>Bindings\<close>

datatype binding_kind = BindNone | BindScancode | BindButton | BindAxis | BindHat

definition kind_code :: "binding_kind \<Rightarrow> int" where
  "kind_code k = (case k of BindNone \<Rightarrow> 0 | BindScancode \<Rightarrow> 1 | BindButton \<Rightarrow> 2 | BindAxis \<Rightarrow> 3
                          | BindHat \<Rightarrow> 4)"

definition kind_of_code :: "int \<Rightarrow> binding_kind" where
  "kind_of_code c = (if c = 1 then BindScancode else if c = 2 then BindButton
                     else if c = 3 then BindAxis else if c = 4 then BindHat else BindNone)"

record binding =
  b_kind :: binding_kind
  b_index :: int
  b_direction :: int

record keymap =
  km_bindings :: "binding list"
  km_device :: int

definition KEY_BINDINGS :: nat where "KEY_BINDINGS = 18"
definition KEYMAP_TEXT_MAX :: nat where "KEYMAP_TEXT_MAX = 512"

definition no_binding :: binding where
  "no_binding = \<lparr>b_kind = BindNone, b_index = 0, b_direction = 0\<rparr>"

text \<open>D A W S RETURN Z LCTRL LSHIFT L J I K C X RIGHT LEFT UP DOWN.\<close>

definition default_scancodes :: "int list" where
  "default_scancodes = [7, 4, 26, 22, 40, 29, 224, 225, 15, 13, 12, 14, 6, 27, 79, 80, 82, 81]"

definition keymap_defaults :: keymap where
  "keymap_defaults = \<lparr>km_bindings = map (\<lambda>s. \<lparr>b_kind = BindScancode, b_index = s, b_direction = 0\<rparr>)
                                       default_scancodes, km_device = - 1\<rparr>"

fun find_device :: "int list \<Rightarrow> int \<Rightarrow> int \<Rightarrow> int" where
  "find_device [] instance index = - 1"
| "find_device (d # ds) instance index =
     (if d = instance then index else find_device ds instance (index + 1))"

definition joystick_device :: "int list \<Rightarrow> int \<Rightarrow> int" where
  "joystick_device devices instance = find_device devices instance 0"

definition AXIS_CAPTURE_THRESHOLD :: int where "AXIS_CAPTURE_THRESHOLD = 16000"
definition AXIS_RELEASE_THRESHOLD :: int where "AXIS_RELEASE_THRESHOLD = 8000"

text \<open>Result: the binding, the device if it was stored, and whether something was captured.\<close>

definition keymap_capture :: "int list \<Rightarrow> sdl_event \<Rightarrow> binding \<times> int option \<times> bool" where
  "keymap_capture devices event =
     (case event of
        KeyDown ks sc rep \<Rightarrow>
          if rep then (no_binding, None, False)
          else (\<lparr>b_kind = BindScancode, b_index = sc, b_direction = 0\<rparr>, Some (- 1), 0 < sc)
      | JoyButtonDown which button \<Rightarrow>
          let d = joystick_device devices which
          in (\<lparr>b_kind = BindButton, b_index = uint button, b_direction = 0\<rparr>, Some d, 0 \<le> d)
      | JoyAxis which axis v \<Rightarrow>
          if AXIS_CAPTURE_THRESHOLD \<le> \<bar>v\<bar>
          then let d = joystick_device devices which
               in (\<lparr>b_kind = BindAxis, b_index = uint axis, b_direction = if v < 0 then - 1 else 1\<rparr>,
                   Some d, 0 \<le> d)
          else (no_binding, None, False)
      | JoyHat which hat p \<Rightarrow>
          if p \<noteq> SDL_HAT_CENTERED
          then let d = joystick_device devices which;
                   dir = (if p AND SDL_HAT_UP \<noteq> 0 then SDL_HAT_UP
                          else if p AND SDL_HAT_DOWN \<noteq> 0 then SDL_HAT_DOWN
                          else if p AND SDL_HAT_LEFT \<noteq> 0 then SDL_HAT_LEFT
                          else SDL_HAT_RIGHT)
               in (\<lparr>b_kind = BindHat, b_index = uint hat, b_direction = uint dir\<rparr>, Some d, 0 \<le> d)
          else (no_binding, None, False)
      | _ \<Rightarrow> (no_binding, None, False))"

definition keymap_released :: "sdl_event \<Rightarrow> binding \<Rightarrow> bool" where
  "keymap_released event b =
     (case b_kind b of
        BindScancode \<Rightarrow> (case event of KeyUp ks sc rep \<Rightarrow> sc = b_index b | _ \<Rightarrow> False)
      | BindButton \<Rightarrow> (case event of JoyButtonUp w button \<Rightarrow> uint button = b_index b | _ \<Rightarrow> False)
      | BindAxis \<Rightarrow> (case event of JoyAxis w axis v \<Rightarrow> uint axis = b_index b \<and>
                                     \<bar>v\<bar> \<le> AXIS_RELEASE_THRESHOLD | _ \<Rightarrow> False)
      | BindHat \<Rightarrow> (case event of JoyHat w hat p \<Rightarrow> uint hat = b_index b \<and> p = SDL_HAT_CENTERED
                                | _ \<Rightarrow> False)
      | BindNone \<Rightarrow> True)"

definition hat_name :: "int \<Rightarrow> string" where
  "hat_name direction = (if direction = uint SDL_HAT_UP then ''UP''
     else if direction = uint SDL_HAT_DOWN then ''DOWN''
     else if direction = uint SDL_HAT_LEFT then ''LEFT'' else ''RIGHT'')"

text \<open>The names of the keys of a Japanese keyboard; other scan codes have SDL's name.\<close>

definition jis_physical_scancode_name :: "int \<Rightarrow> string option" where
  "jis_physical_scancode_name = map_of
     [(53, ''JIS ZENKAKU''), (45, ''JIS MINUS''), (46, ''JIS CARET''), (47, ''JIS AT''),
      (48, ''JIS BRACKET''), (51, ''JIS RE''), (52, ''JIS KE''), (50, ''JIS MU''),
      (100, ''JIS RO''), (135, ''JIS RO''), (136, ''JIS KANA''), (137, ''JIS YEN''),
      (138, ''JIS HENKAN''), (139, ''JIS MUHENKAN''), (144, ''JIS KANA MODE''), (145, ''JIS EISU'')]"

definition binding_name ::
  "(int \<Rightarrow> string option) \<Rightarrow> binding option \<Rightarrow> nat \<Rightarrow> string option" where
  "binding_name scancode_name b capacity =
     (if capacity = 0 then None
      else Some (case b of
        None \<Rightarrow> ''''
      | Some b \<Rightarrow> copy_text capacity
          (case b_kind b of
             BindScancode \<Rightarrow>
               (case jis_physical_scancode_name (b_index b) of
                  Some name \<Rightarrow> name
                | None \<Rightarrow> (case scancode_name (b_index b) of
                            Some name \<Rightarrow> if name \<noteq> '''' \<and> name \<noteq> ''?'' then name
                                         else ''SCANCODE '' @ dec_int (b_index b)
                          | None \<Rightarrow> ''SCANCODE '' @ dec_int (b_index b)))
           | BindButton \<Rightarrow> ''JOY BUTTON '' @ dec_int (b_index b)
           | BindAxis \<Rightarrow> ''JOY AXIS '' @ dec_int (b_index b) @ '' '' @
                         (if b_direction b < 0 then ''-'' else ''+'')
           | BindHat \<Rightarrow> ''JOY HAT '' @ dec_int (b_index b) @ '' '' @ hat_name (b_direction b)
           | BindNone \<Rightarrow> ''UNASSIGNED'')))"

section \<open>The text form\<close>

text \<open>
  \<open>at_char c text\<close> is the test \<open>*end == c\<close>, at the terminating NUL too. \<open>num_field\<close> reads one
  number up to its separator and steps over it.
\<close>

definition at_char :: "char \<Rightarrow> string \<Rightarrow> bool" where
  "at_char c text = (case text of [] \<Rightarrow> c = CHR 0x00 | d # _ \<Rightarrow> c = d)"

definition num_field :: "char \<Rightarrow> string \<Rightarrow> (int \<times> string) option" where
  "num_field sep cursor =
     (case c_strtol cursor of
        (v, rest) \<Rightarrow> if rest = cursor \<or> \<not> at_char sep rest then None else Some (v, drop 1 rest))"

definition binding_in_range :: "int \<Rightarrow> int \<Rightarrow> int \<Rightarrow> bool" where
  "binding_in_range kind index direction \<longleftrightarrow>
     0 \<le> kind \<and> kind \<le> 4 \<and> 0 \<le> index \<and> index \<le> 65535 \<and> - 128 \<le> direction \<and> direction \<le> 128"

fun keymap_parse_from :: "nat \<Rightarrow> nat \<Rightarrow> string \<Rightarrow> keymap \<Rightarrow> keymap \<times> bool" where
  "keymap_parse_from 0 i cursor km = (km, True)"
| "keymap_parse_from (Suc left) i cursor km =
     (case num_field (CHR '':'') cursor of
        None \<Rightarrow> (km, False)
      | Some (kind, c1) \<Rightarrow>
          (case num_field (CHR '':'') c1 of
             None \<Rightarrow> (km, False)
           | Some (index, c2) \<Rightarrow>
               (case num_field (if i + 1 < KEY_BINDINGS then CHR '','' else CHR 0x00) c2 of
                  None \<Rightarrow> (km, False)
                | Some (direction, c3) \<Rightarrow>
                    if \<not> binding_in_range kind index direction then (km, False)
                    else keymap_parse_from left (i + 1) c3
                           (km\<lparr>km_bindings := (km_bindings km)[i := \<lparr>b_kind = kind_of_code kind,
                                b_index = index, b_direction = direction\<rparr>]\<rparr>))))"

definition to_int32 :: "int \<Rightarrow> int" where
  "to_int32 v = sint (word_of_int v :: 32 word)"

definition keymap_parse :: "string option \<Rightarrow> keymap \<Rightarrow> keymap \<times> bool" where
  "keymap_parse text km =
     (case text of
        None \<Rightarrow> (km, False)
      | Some s \<Rightarrow>
          (case num_field (CHR 0x7C) s of
             None \<Rightarrow> (km, False)
           | Some (device, cursor) \<Rightarrow>
               keymap_parse_from KEY_BINDINGS 0 cursor (km\<lparr>km_device := to_int32 device\<rparr>)))"

text \<open>
  Formatting appends to the text in the buffer; a piece that does not fit is cut and ends
  the loop, as \<open>snprintf\<close> cuts it.
\<close>

fun append_pieces :: "nat \<Rightarrow> string \<Rightarrow> string list \<Rightarrow> string" where
  "append_pieces capacity out [] = out"
| "append_pieces capacity out (piece # pieces) =
     (if capacity - length out \<le> length piece then out @ take (capacity - length out - 1) piece
      else append_pieces capacity (out @ piece) pieces)"

definition binding_piece :: "bool \<Rightarrow> binding \<Rightarrow> string" where
  "binding_piece comma b = (if comma then '','' else '''') @ dec_int (kind_code (b_kind b)) @ '':'' @
     dec_int (b_index b) @ '':'' @ dec_int (b_direction b)"

definition keymap_format :: "keymap \<Rightarrow> nat \<Rightarrow> string option" where
  "keymap_format km capacity =
     (if capacity = 0 then None
      else let head = dec_int (km_device km) @ [CHR 0x7C]
           in if capacity \<le> length head then Some (take (capacity - 1) head)
              else Some (append_pieces capacity head
                (map (\<lambda>i. binding_piece (i \<noteq> 0) (km_bindings km ! i)) [0..<KEY_BINDINGS])))"

section \<open>Hotkeys\<close>

record hotkey =
  hk_binding :: binding
  hk_device :: int

definition HOTKEY_COUNT :: nat where "HOTKEY_COUNT = 27"
definition HOTKEY_TEXT_MAX :: nat where "HOTKEY_TEXT_MAX = 640"

definition hotkeys_defaults :: "hotkey list" where
  "hotkeys_defaults = replicate HOTKEY_COUNT \<lparr>hk_binding = no_binding, hk_device = - 1\<rparr>"

fun hotkeys_parse_from :: "nat \<Rightarrow> nat \<Rightarrow> string \<Rightarrow> hotkey list \<Rightarrow> hotkey list \<times> bool" where
  "hotkeys_parse_from 0 i cursor hs = (hs, True)"
| "hotkeys_parse_from (Suc left) i cursor hs =
     (case num_field (CHR '':'') cursor of
        None \<Rightarrow> (hs, False)
      | Some (kind, c1) \<Rightarrow>
          (case num_field (CHR '':'') c1 of
             None \<Rightarrow> (hs, False)
           | Some (index, c2) \<Rightarrow>
               (case num_field (CHR '':'') c2 of
                  None \<Rightarrow> (hs, False)
                | Some (direction, c3) \<Rightarrow>
                    (case num_field (if i + 1 < HOTKEY_COUNT then CHR '','' else CHR 0x00) c3 of
                       None \<Rightarrow> (hs, False)
                     | Some (device, c4) \<Rightarrow>
                         if \<not> binding_in_range kind index direction \<or> device < - 1 \<or> 255 < device
                         then (hs, False)
                         else hotkeys_parse_from left (i + 1) c4
                                (hs[i := \<lparr>hk_binding = \<lparr>b_kind = kind_of_code kind,
                                     b_index = index, b_direction = direction\<rparr>,
                                     hk_device = device\<rparr>])))))"

definition hotkeys_parse :: "string option \<Rightarrow> hotkey list \<Rightarrow> hotkey list \<times> bool" where
  "hotkeys_parse text hs =
     (case text of None \<Rightarrow> (hs, False) | Some s \<Rightarrow> hotkeys_parse_from HOTKEY_COUNT 0 s hs)"

definition hotkey_piece :: "bool \<Rightarrow> hotkey \<Rightarrow> string" where
  "hotkey_piece comma h = binding_piece comma (hk_binding h) @ '':'' @ dec_int (hk_device h)"

definition hotkeys_format :: "hotkey list \<Rightarrow> nat \<Rightarrow> string option" where
  "hotkeys_format hs capacity =
     (if capacity = 0 then None
      else Some (append_pieces capacity []
        (map (\<lambda>i. hotkey_piece (i \<noteq> 0) (hs ! i)) [0..<HOTKEY_COUNT])))"

definition hotkey_name ::
  "(int \<Rightarrow> string option) \<Rightarrow> hotkey option \<Rightarrow> nat \<Rightarrow> string option" where
  "hotkey_name scancode_name h capacity =
     (case h of
        None \<Rightarrow> if capacity = 0 then None else Some (copy_text capacity ''UNDEFINED'')
      | Some h \<Rightarrow>
          if b_kind (hk_binding h) = BindNone
          then (if capacity = 0 then None else Some (copy_text capacity ''UNDEFINED''))
          else binding_name scancode_name (Some (hk_binding h)) capacity)"

definition hotkey_joy_mapping :: "hotkey option \<Rightarrow> nat \<Rightarrow> string option" where
  "hotkey_joy_mapping h capacity =
     (if capacity = 0 then None
      else Some (case h of
        None \<Rightarrow> ''''
      | Some h \<Rightarrow>
          if hk_device h < 0 then ''''
          else copy_text capacity
            (let b = hk_binding h; j = CHR ''J'' # dec_int (hk_device h)
             in case b_kind b of
                  BindButton \<Rightarrow> j @ ''B'' @ dec_int (b_index b)
                | BindAxis \<Rightarrow> j @ ''A'' @ dec_int (b_index b) @
                              (if b_direction b < 0 then ''-'' else ''+'')
                | BindHat \<Rightarrow> j @ ''H'' @ dec_int (b_index b) @ ''V'' @ dec_int (b_direction b)
                | _ \<Rightarrow> '''')))"

section \<open>The mupen64plus configuration\<close>

definition keymap_mupen_button :: "binding \<Rightarrow> nat \<Rightarrow> string option" where
  "keymap_mupen_button b capacity =
     (if capacity = 0 then None
      else Some (copy_text capacity
        (case b_kind b of
           BindScancode \<Rightarrow> ''scancode('' @ dec_int (b_index b) @ '')''
         | BindButton \<Rightarrow> ''button('' @ dec_int (b_index b) @ '')''
         | BindAxis \<Rightarrow> ''axis('' @ dec_int (b_index b) @
                       (if b_direction b < 0 then ''-)'' else ''+)'')
         | BindHat \<Rightarrow> ''hat('' @ dec_int (b_index b) @ '' '' @ hat_name (b_direction b) @ '')''
         | BindNone \<Rightarrow> '''')))"

definition kind_index :: "binding_kind \<Rightarrow> binding \<Rightarrow> string" where
  "kind_index k b = dec_int (if b_kind b = k then b_index b else - 1)"

definition axis_sign :: "binding \<Rightarrow> string" where
  "axis_sign b = (if b_direction b < 0 then ''-'' else ''+'')"

definition mupen_axis_pieces :: "binding \<Rightarrow> binding \<Rightarrow> string list" where
  "mupen_axis_pieces n p =
     (if b_kind n = BindScancode \<or> b_kind p = BindScancode
      then [''scancode('' @ kind_index BindScancode n @ '','' @ kind_index BindScancode p @ '') '']
      else []) @
     (if b_kind n = BindButton \<or> b_kind p = BindButton
      then [''button('' @ kind_index BindButton n @ '','' @ kind_index BindButton p @ '') '']
      else []) @
     (if b_kind n = BindAxis \<or> b_kind p = BindAxis
      then [''axis('' @ kind_index BindAxis n @ axis_sign n @ '','' @ kind_index BindAxis p @
            axis_sign p @ '') ''] else []) @
     (if b_kind n = BindHat \<and> b_kind p = BindHat \<and> b_index n = b_index p
      then [''hat('' @ dec_int (b_index n) @ '' '' @ hat_name (b_direction n) @ '' '' @
            hat_name (b_direction p) @ '') ''] else [])"

fun mupen_append :: "nat \<Rightarrow> string \<Rightarrow> string list \<Rightarrow> string" where
  "mupen_append capacity out [] = (if out \<noteq> [] then butlast out else out)"
| "mupen_append capacity out (piece # pieces) =
     (if capacity - length out \<le> length piece then out @ take (capacity - length out - 1) piece
      else mupen_append capacity (out @ piece) pieces)"

definition keymap_mupen_axis :: "binding \<Rightarrow> binding \<Rightarrow> nat \<Rightarrow> string option" where
  "keymap_mupen_axis negative positive capacity =
     (if capacity = 0 then None else Some (mupen_append capacity [] (mupen_axis_pieces negative positive)))"

section \<open>Round trips\<close>

definition binding_ok :: "binding \<Rightarrow> bool" where
  "binding_ok b \<longleftrightarrow> 0 \<le> b_index b \<and> b_index b \<le> 65535 \<and> - 128 \<le> b_direction b \<and> b_direction b \<le> 128"

definition keymap_ok :: "keymap \<Rightarrow> bool" where
  "keymap_ok m \<longleftrightarrow> length (km_bindings m) = KEY_BINDINGS \<and> list_all binding_ok (km_bindings m) \<and>
     - (2 ^ 31) \<le> km_device m \<and> km_device m < 2 ^ 31"

definition hotkeys_ok :: "hotkey list \<Rightarrow> bool" where
  "hotkeys_ok hs \<longleftrightarrow> length hs = HOTKEY_COUNT \<and>
     list_all (\<lambda>h. binding_ok (hk_binding h) \<and> - 1 \<le> hk_device h \<and> hk_device h \<le> 255) hs"

lemma binding_eta [simp]:
  "\<lparr>b_kind = b_kind b, b_index = b_index b, b_direction = b_direction b\<rparr> = b"
  "\<lparr>hk_binding = hk_binding h, hk_device = hk_device h\<rparr> = h"
  by simp_all

lemma kind_of_kind_code [simp]: "kind_of_code (kind_code k) = k"
  by (cases k) (simp_all add: kind_code_def kind_of_code_def)

lemma kind_code_range: "0 \<le> kind_code k" "kind_code k \<le> 4"
  by (cases k; simp add: kind_code_def)+

lemma num_field_dec [codec]:
  assumes "- (2 ^ 63) \<le> v" "v < 2 ^ 63" "\<not> c_isdigit sep"
  shows "num_field sep (dec_int v @ sep # rest) = Some (v, rest)"
  using strtol_dec_int [of "sep # rest" v] assms by (simp add: num_field_def at_char_def)

lemma num_field_dec_end [codec]:
  assumes "- (2 ^ 63) \<le> v" "v < 2 ^ 63"
  shows "num_field (CHR 0x00) (dec_int v) = Some (v, [])"
  using strtol_dec_int [of "[]" v] assms by (simp add: num_field_def at_char_def)

lemma seps_not_digit [simp]: "\<not> c_isdigit (CHR '':'')" "\<not> c_isdigit (CHR '','')" "\<not> c_isdigit (CHR 0x7C)"
  by (simp_all add: c_isdigit_iff)

text \<open>What the formatters write when everything fits.\<close>

lemma append_pieces_fits [range]:
  "length out + length (concat ps) < capacity \<Longrightarrow> append_pieces capacity out ps = out @ concat ps"
  by (induction ps arbitrary: out) auto

lemma length_concat_le:
  "(\<And>x. x \<in> set xs \<Longrightarrow> length (f x) \<le> k) \<Longrightarrow> length (concat (map f xs)) \<le> k * length xs"
proof (induction xs)
  case (Cons x xs)
  then have "length (f x) \<le> k" "length (concat (map f xs)) \<le> k * length xs" by auto
  then show ?case by simp
qed simp

definition binding_body :: "binding \<Rightarrow> string" where
  "binding_body b = dec_int (kind_code (b_kind b)) @ '':'' @ dec_int (b_index b) @ '':'' @
                    dec_int (b_direction b)"

lemma binding_piece_body: "binding_piece comma b = (if comma then '','' else []) @ binding_body b"
  by (simp add: binding_piece_def binding_body_def)

lemma length_binding_body: "binding_ok b \<Longrightarrow> length (binding_body b) \<le> 12"
proof -
  assume "binding_ok b"
  then have "length (dec_int (b_index b)) \<le> 5" "length (dec_int (b_direction b)) \<le> 4"
    using length_dec_int_pos [of 5 "b_index b"] length_dec_int [of 3 "b_direction b"]
    by (simp_all add: binding_ok_def)
  moreover have "length (dec_int (kind_code (b_kind b))) \<le> 1"
    using length_dec_int_pos [of 1 "kind_code (b_kind b)"] kind_code_range [of "b_kind b"] by simp
  ultimately show ?thesis by (simp add: binding_body_def)
qed

lemma binding_in_range_ok:
  "binding_ok b \<Longrightarrow> binding_in_range (kind_code (b_kind b)) (b_index b) (b_direction b)"
  using kind_code_range [of "b_kind b"] by (simp add: binding_ok_def binding_in_range_def)

text \<open>The text after entry \<open>i\<close>: the next entries, each after its comma.\<close>

definition entries_from :: "('a \<Rightarrow> string) \<Rightarrow> 'a list \<Rightarrow> string" where
  "entries_from body xs = concat (map (\<lambda>x. CHR '','' # body x) xs)"

lemma num_field_last:
  assumes "- (2 ^ 63) \<le> v" "v < 2 ^ 63" "further = (xs \<noteq> [])"
  shows "num_field (if further then CHR '','' else CHR 0x00) (dec_int v @ entries_from body xs) =
    Some (v, case xs of [] \<Rightarrow> [] | x # ys \<Rightarrow> body x @ entries_from body ys)"
  using assms num_field_dec [of v "CHR '',''"] num_field_dec_end [of v]
  by (cases xs) (simp_all add: entries_from_def)

lemma keymap_parse_from_text:
  assumes "length bs = left" "list_all binding_ok bs" "i + left = KEY_BINDINGS"
    "length (km_bindings km) = KEY_BINDINGS"
  shows "keymap_parse_from left i
      (case bs of [] \<Rightarrow> [] | b # rest \<Rightarrow> binding_body b @ entries_from binding_body rest) km =
    (km\<lparr>km_bindings := take i (km_bindings km) @ bs\<rparr>, True)"
  using assms
proof (induction left arbitrary: i bs km)
  case 0
  then show ?case by simp
next
  case (Suc left)
  then obtain b rest where bs: "bs = b # rest" "length rest = left" "binding_ok b"
    "list_all binding_ok rest" by (cases bs) auto
  have i: "i < KEY_BINDINGS" "(Suc i < KEY_BINDINGS) = (rest \<noteq> [])"
    using Suc.prems(3) bs(2) by (cases rest; auto)+
  note num = num_field_dec [of _ "CHR '':''"] num_field_last [OF _ _ i(2)]
  have "keymap_parse_from (Suc left) i (binding_body b @ entries_from binding_body rest) km =
    keymap_parse_from left (i + 1)
      (case rest of [] \<Rightarrow> [] | x # ys \<Rightarrow> binding_body x @ entries_from binding_body ys)
      (km\<lparr>km_bindings := (km_bindings km)[i := b]\<rparr>)"
    using bs(3) binding_in_range_ok [OF bs(3)] kind_code_range [of "b_kind b"]
    by (simp add: binding_body_def num binding_ok_def split del: if_split)
  also have "\<dots> = (km\<lparr>km_bindings := take (i + 1) ((km_bindings km)[i := b]) @ rest\<rparr>, True)"
    using Suc.prems bs by (subst Suc.IH) auto
  also have "take (i + 1) ((km_bindings km)[i := b]) @ rest = take i (km_bindings km) @ b # rest"
    using i(1) Suc.prems(4) by (simp add: take_Suc_conv_app_nth)
  finally show ?case using bs(1) by simp
qed

lemma pieces_text:
  assumes "xs \<noteq> []" "\<And>x. piece True x = CHR '','' # body x" "\<And>x. piece False x = body x"
  shows "concat (map (\<lambda>i. piece (i \<noteq> 0) (xs ! i)) [0..<length xs]) =
    (case xs of [] \<Rightarrow> [] | x # ys \<Rightarrow> body x @ entries_from body ys)"
proof -
  obtain x ys where xs: "xs = x # ys" using assms(1) by (cases xs) auto
  have "map (\<lambda>i. piece (i \<noteq> 0) (xs ! i)) [0..<length xs] =
      body x # map (\<lambda>i. CHR '','' # body (ys ! i)) [0..<length ys]"
    using assms(2,3) by (simp add: xs map_upt_Suc del: upt_Suc)
  also have "map (\<lambda>i. CHR '','' # body (ys ! i)) [0..<length ys] =
      map (\<lambda>y. CHR '','' # body y) ys"
    by (rule nth_equalityI) simp_all
  finally show ?thesis by (simp add: xs entries_from_def)
qed

lemma keymap_format_text:
  assumes "keymap_ok m" "KEYMAP_TEXT_MAX \<le> capacity"
  shows "keymap_format m capacity = Some (dec_int (km_device m) @ CHR 0x7C #
    (case km_bindings m of [] \<Rightarrow> [] | b # rest \<Rightarrow> binding_body b @ entries_from binding_body rest))"
proof -
  let ?bs = "km_bindings m"
  let ?ps = "map (\<lambda>i. binding_piece (i \<noteq> 0) (?bs ! i)) [0..<KEY_BINDINGS]"
  have dev: "length (dec_int (km_device m)) \<le> 11"
    using length_dec_int [of 10 "km_device m"] assms(1) by (simp add: keymap_ok_def)
  have len: "length ?bs = KEY_BINDINGS" using assms(1) by (simp add: keymap_ok_def)
  then have ne: "?bs \<noteq> []" by (auto simp: KEY_BINDINGS_def)
  have "length (binding_piece (i \<noteq> 0) (?bs ! i)) \<le> 13" if "i \<in> set [0..<KEY_BINDINGS]" for i
    using length_binding_body [of "?bs ! i"] assms(1) that
    by (auto simp: binding_piece_body keymap_ok_def list_all_length)
  then have "length (concat ?ps) \<le> 13 * length [0..<KEY_BINDINGS]" by (rule length_concat_le)
  moreover have "concat ?ps =
      (case ?bs of [] \<Rightarrow> [] | b # rest \<Rightarrow> binding_body b @ entries_from binding_body rest)"
    using pieces_text [of ?bs binding_piece binding_body] ne unfolding len
    by (simp add: binding_piece_body)
  ultimately show ?thesis
    using dev assms(2)
    by (simp add: keymap_format_def append_pieces_fits KEY_BINDINGS_def KEYMAP_TEXT_MAX_def)
qed

lemma hotkeys_parse_from_text:
  assumes "length hs = left" "i + left = HOTKEY_COUNT" "length old = HOTKEY_COUNT"
    "list_all (\<lambda>h. binding_ok (hk_binding h) \<and> - 1 \<le> hk_device h \<and> hk_device h \<le> 255) hs"
  shows "hotkeys_parse_from left i (case hs of [] \<Rightarrow> [] |
      h # rest \<Rightarrow> hotkey_piece False h @ entries_from (hotkey_piece False) rest) old =
    (take i old @ hs, True)"
  using assms
proof (induction left arbitrary: i hs old)
  case 0
  then show ?case by simp
next
  case (Suc left)
  then obtain h rest where hs: "hs = h # rest" "length rest = left" "binding_ok (hk_binding h)"
    "- 1 \<le> hk_device h" "hk_device h \<le> 255"
    "list_all (\<lambda>h. binding_ok (hk_binding h) \<and> - 1 \<le> hk_device h \<and> hk_device h \<le> 255) rest"
    by (cases hs) auto
  have i: "i < HOTKEY_COUNT" "(Suc i < HOTKEY_COUNT) = (rest \<noteq> [])"
    using Suc.prems(2) hs(2) by (cases rest; auto)+
  note num = num_field_dec [of _ "CHR '':''"] num_field_last [OF _ _ i(2)]
  have "hotkeys_parse_from (Suc left) i
      (hotkey_piece False h @ entries_from (hotkey_piece False) rest) old =
    hotkeys_parse_from left (i + 1) (case rest of [] \<Rightarrow> [] |
      x # ys \<Rightarrow> hotkey_piece False x @ entries_from (hotkey_piece False) ys) (old[i := h])"
    using hs(3-5) binding_in_range_ok [OF hs(3)] kind_code_range [of "b_kind (hk_binding h)"]
    by (simp add: hotkey_piece_def binding_piece_def num binding_ok_def split del: if_split)
  also have "\<dots> = (take (i + 1) (old[i := h]) @ rest, True)"
    using Suc.prems hs by (subst Suc.IH) auto
  also have "take (i + 1) (old[i := h]) @ rest = take i old @ h # rest"
    using i(1) Suc.prems(3) by (simp add: take_Suc_conv_app_nth)
  finally show ?case using hs(1) by simp
qed

lemma length_hotkey_piece:
  "binding_ok (hk_binding h) \<Longrightarrow> - 1 \<le> hk_device h \<Longrightarrow> hk_device h \<le> 255 \<Longrightarrow>
   length (hotkey_piece comma h) \<le> 18"
  using length_binding_body [of "hk_binding h"] length_dec_int [of 3 "hk_device h"]
  by (simp add: hotkey_piece_def binding_piece_body)

lemma hotkeys_format_text:
  assumes "hotkeys_ok hs" "HOTKEY_TEXT_MAX \<le> capacity"
  shows "hotkeys_format hs capacity = Some (case hs of [] \<Rightarrow> [] |
      h # rest \<Rightarrow> hotkey_piece False h @ entries_from (hotkey_piece False) rest)"
    and "length (the (hotkeys_format hs capacity)) \<le> 18 * HOTKEY_COUNT"
proof -
  let ?ps = "map (\<lambda>i. hotkey_piece (i \<noteq> 0) (hs ! i)) [0..<HOTKEY_COUNT]"
  have len: "length hs = HOTKEY_COUNT" using assms(1) by (simp add: hotkeys_ok_def)
  then have ne: "hs \<noteq> []" by (auto simp: HOTKEY_COUNT_def)
  have "length (hotkey_piece (i \<noteq> 0) (hs ! i)) \<le> 18" if "i \<in> set [0..<HOTKEY_COUNT]" for i
    using length_hotkey_piece [of "hs ! i"] assms(1) that
    by (simp add: hotkeys_ok_def list_all_length)
  then have "length (concat ?ps) \<le> 18 * length [0..<HOTKEY_COUNT]" by (rule length_concat_le)
  then have le: "length (concat ?ps) \<le> 18 * HOTKEY_COUNT" by simp
  have shape: "concat ?ps = (case hs of [] \<Rightarrow> [] |
      h # rest \<Rightarrow> hotkey_piece False h @ entries_from (hotkey_piece False) rest)"
    using pieces_text [of hs hotkey_piece "hotkey_piece False"] ne unfolding len
    by (simp add: hotkey_piece_def binding_piece_body)
  have "append_pieces capacity [] ?ps = concat ?ps"
    using append_pieces_fits [of "[]" ?ps capacity] le assms(2)
    by (simp add: HOTKEY_COUNT_def HOTKEY_TEXT_MAX_def)
  moreover have "0 < capacity" using assms(2) by (simp add: HOTKEY_TEXT_MAX_def)
  ultimately show "hotkeys_format hs capacity = Some (case hs of [] \<Rightarrow> [] |
      h # rest \<Rightarrow> hotkey_piece False h @ entries_from (hotkey_piece False) rest)"
    "length (the (hotkeys_format hs capacity)) \<le> 18 * HOTKEY_COUNT"
    using shape le by (simp_all add: hotkeys_format_def)
qed

lemma keymap_parse_format [codec]:
  assumes "keymap_ok m" "length (km_bindings old) = KEY_BINDINGS" "KEYMAP_TEXT_MAX \<le> capacity"
  shows "keymap_parse (keymap_format m capacity) old = (m, True)"
proof -
  let ?text = "case km_bindings m of [] \<Rightarrow> [] | b # rest \<Rightarrow> binding_body b @ entries_from binding_body rest"
  have dev: "- (2 ^ 31) \<le> km_device m" "km_device m < 2 ^ 31"
    using assms(1) by (simp_all add: keymap_ok_def)
  have "num_field (CHR 0x7C) (dec_int (km_device m) @ CHR 0x7C # ?text) = Some (km_device m, ?text)"
    using num_field_dec [of "km_device m" "CHR 0x7C"] dev by simp
  moreover have "to_int32 (km_device m) = km_device m"
    using dev by (simp add: to_int32_def sint_sbintrunc' signed_take_bit_int_eq_self)
  ultimately show ?thesis
    using keymap_parse_from_text [of "km_bindings m" KEY_BINDINGS 0 "old\<lparr>km_device := km_device m\<rparr>"]
      keymap_format_text [OF assms(1,3)] assms(1,2)
    by (simp add: keymap_parse_def keymap_ok_def)
qed

lemma hotkeys_parse_format [codec]:
  assumes "hotkeys_ok hs" "length old = HOTKEY_COUNT" "HOTKEY_TEXT_MAX \<le> capacity"
  shows "hotkeys_parse (hotkeys_format hs capacity) old = (hs, True)"
  using hotkeys_parse_from_text [of hs HOTKEY_COUNT 0 old] hotkeys_format_text(1) [OF assms(1,3)]
    assms(1,2) by (simp add: hotkeys_parse_def hotkeys_ok_def)

text \<open>What the parsers accept is in range, so formatting it again cannot be cut.\<close>

lemma hotkeys_parse_from_ok:
  assumes "hotkeys_parse_from left i cursor hs = (hs', True)" "i + left = HOTKEY_COUNT"
    "length hs = HOTKEY_COUNT"
    "\<forall>j < i. binding_ok (hk_binding (hs ! j)) \<and> - 1 \<le> hk_device (hs ! j) \<and> hk_device (hs ! j) \<le> 255"
  shows "hotkeys_ok hs'"
  using assms
proof (induction left arbitrary: i cursor hs)
  case 0
  then show ?case by (simp add: hotkeys_ok_def list_all_length)
next
  case (Suc left)
  obtain k ix d dev c where
    run: "hotkeys_parse_from left (i + 1) c (hs[i := \<lparr>hk_binding = \<lparr>b_kind = kind_of_code k,
        b_index = ix, b_direction = d\<rparr>, hk_device = dev\<rparr>]) = (hs', True)"
    and ok: "binding_in_range k ix d" "- 1 \<le> dev" "dev \<le> 255"
    using Suc.prems(1) by (auto split: option.splits if_splits)
  show ?case
  proof (rule Suc.IH [OF run])
    show "\<forall>j < i + 1. binding_ok (hk_binding (hs[i := \<lparr>hk_binding = \<lparr>b_kind = kind_of_code k,
        b_index = ix, b_direction = d\<rparr>, hk_device = dev\<rparr>] ! j)) \<and>
      - 1 \<le> hk_device (hs[i := \<lparr>hk_binding = \<lparr>b_kind = kind_of_code k,
        b_index = ix, b_direction = d\<rparr>, hk_device = dev\<rparr>] ! j) \<and>
      hk_device (hs[i := \<lparr>hk_binding = \<lparr>b_kind = kind_of_code k,
        b_index = ix, b_direction = d\<rparr>, hk_device = dev\<rparr>] ! j) \<le> 255"
      using Suc.prems(2-4) ok
      by (auto simp: nth_list_update less_Suc_eq binding_ok_def binding_in_range_def)
  qed (use Suc.prems in auto)
qed

text \<open>C23: The stored text of a key map determines it: for every map whose bindings are in range,
  parsing the text that the formatter writes into the callers' 512 characters gives the map
  back, whatever map it is parsed over.\<close>

theorem keymap_text_roundtrip:
  assumes "keymap_ok m" "length (km_bindings old) = KEY_BINDINGS"
  shows "keymap_parse (keymap_format m KEYMAP_TEXT_MAX) old = (m, True)"
  using keymap_parse_format [OF assms] by simp

theorem keymap_text_roundtrip_witness:
  "keymap_parse (keymap_format keymap_defaults KEYMAP_TEXT_MAX)
     \<lparr>km_bindings = replicate 18 no_binding, km_device = 3\<rparr> = (keymap_defaults, True)"
  by (rule keymap_text_roundtrip)
     (simp_all add: keymap_ok_def keymap_defaults_def default_scancodes_def KEY_BINDINGS_def
        binding_ok_def)

text \<open>Hotkeys survive storage: whatever text the parser accepts, the hotkeys it yields are
  formatted without being cut, and parsing that text gives the same hotkeys.\<close>

theorem hotkeys_text_stable:
  assumes "hotkeys_parse (Some stored) old = (hs, True)" "length old = HOTKEY_COUNT"
  shows "length (the (hotkeys_format hs HOTKEY_TEXT_MAX)) < HOTKEY_TEXT_MAX \<and>
         hotkeys_parse (hotkeys_format hs HOTKEY_TEXT_MAX) old = (hs, True)"
proof -
  have "hotkeys_ok hs"
    using assms by (intro hotkeys_parse_from_ok [of HOTKEY_COUNT 0 stored old]) (simp_all add: hotkeys_parse_def)
  then show ?thesis
    using hotkeys_parse_format [OF _ assms(2)] hotkeys_format_text(2) [of hs HOTKEY_TEXT_MAX]
    by (simp add: HOTKEY_TEXT_MAX_def HOTKEY_COUNT_def)
qed

theorem hotkeys_text_stable_witness:
  "length (the (hotkeys_format hotkeys_defaults HOTKEY_TEXT_MAX)) < HOTKEY_TEXT_MAX \<and>
   hotkeys_parse (hotkeys_format hotkeys_defaults HOTKEY_TEXT_MAX) hotkeys_defaults =
     (hotkeys_defaults, True)"
proof (rule hotkeys_text_stable [where stored = "the (hotkeys_format hotkeys_defaults HOTKEY_TEXT_MAX)"])
  have ok: "hotkeys_ok hotkeys_defaults" and len: "length hotkeys_defaults = HOTKEY_COUNT"
    by (simp_all add: hotkeys_defaults_def hotkeys_ok_def binding_ok_def no_binding_def list_all_length)
  show "length hotkeys_defaults = HOTKEY_COUNT" by (rule len)
  show "hotkeys_parse (Some (the (hotkeys_format hotkeys_defaults HOTKEY_TEXT_MAX))) hotkeys_defaults =
      (hotkeys_defaults, True)"
    using hotkeys_parse_format [OF ok len order_refl] hotkeys_format_text(1) [OF ok order_refl] by simp
qed

end
