(* ===== verification/InputDevices.thy ===== *)
theory InputDevices
  imports CText SdlEvents
begin

text \<open>
  The registry of open controllers and joysticks in
  \<open>runtimes/gb/src/common/key_config.c\<close>: a fixed table of open devices, each with a stable
  identity that survives reconnecting, and a table of the identities that key bindings
  refer to. What SDL reports of a device is a parameter.
\<close>

unbundle bit_operations_syntax

section \<open>Model\<close>

definition MAX_OPEN_DEVICES :: nat where "MAX_OPEN_DEVICES = 16"
definition MAX_BINDING_DEVICES :: nat where "MAX_BINDING_DEVICES = 64"
definition DEVICE_ID_MAX :: nat where "DEVICE_ID_MAX = 40"

text \<open>
  \<open>od_joystick\<close> and \<open>od_controller\<close> say that the SDL handle is not NULL. A binding device
  that is not in use is None.
\<close>

record open_device =
  od_controller :: bool
  od_joystick :: bool
  od_instance :: int
  od_index :: int
  od_fingerprint :: u64
  od_ordinal :: u32
  od_stable_id :: string

record devices =
  open_devices :: "open_device list"
  binding_devices :: "string option list"

definition no_device :: open_device where
  "no_device = \<lparr>od_controller = False, od_joystick = False, od_instance = 0, od_index = 0,
     od_fingerprint = 0, od_ordinal = 0, od_stable_id = []\<rparr>"

definition no_devices :: devices where
  "no_devices = \<lparr>open_devices = replicate MAX_OPEN_DEVICES no_device,
     binding_devices = replicate MAX_BINDING_DEVICES None\<rparr>"

text \<open>What SDL reports of a joystick.\<close>

record joystick =
  js_guid :: string
  js_vendor :: u16
  js_product :: u16
  js_version :: u16
  js_serial :: "string option"
  js_name :: "string option"
  js_instance :: int

definition text_or_empty :: "string option \<Rightarrow> string" where
  "text_or_empty t = (case t of None \<Rightarrow> [] | Some s \<Rightarrow> s)"

definition hash_text :: "u64 \<Rightarrow> string option \<Rightarrow> u64" where
  "hash_text hash t =
     foldl (\<lambda>h c. (h XOR of_nat (of_char c)) * 1099511628211) hash (text_or_empty t)"

definition joystick_numeric :: "joystick \<Rightarrow> string" where
  "joystick_numeric j = copy_text 96
     (hex_pad 4 (unat (js_vendor j)) @ '':'' @ hex_pad 4 (unat (js_product j)) @ '':'' @
      hex_pad 4 (unat (js_version j)) @ '':'' @ text_or_empty (js_serial j))"

definition joystick_fingerprint :: "joystick \<Rightarrow> u64" where
  "joystick_fingerprint j =
     hash_text (hash_text (hash_text 1469598103934665603 (Some (copy_text 33 (js_guid j))))
        (Some (joystick_numeric j))) (js_name j)"

fun find_index :: "('a \<Rightarrow> bool) \<Rightarrow> 'a list \<Rightarrow> nat option" where
  "find_index P [] = None"
| "find_index P (x # xs) = (if P x then Some 0 else map_option Suc (find_index P xs))"

definition open_device_for_instance :: "devices \<Rightarrow> int \<Rightarrow> nat option" where
  "open_device_for_instance s instance =
     find_index (\<lambda>d. od_joystick d \<and> od_instance d = instance) (open_devices s)"

definition open_device_for_stable_id :: "devices \<Rightarrow> string \<Rightarrow> nat option" where
  "open_device_for_stable_id s ident =
     find_index (\<lambda>d. od_joystick d \<and> od_stable_id d = ident) (open_devices s)"

definition binding_device_slot :: "devices \<Rightarrow> string \<Rightarrow> bool \<Rightarrow> devices \<times> int" where
  "binding_device_slot s ident create =
     (case find_index (\<lambda>b. b = Some ident) (binding_devices s) of
        Some i \<Rightarrow> (s, int i)
      | None \<Rightarrow>
          if \<not> create then (s, - 1)
          else (case find_index (\<lambda>b. b = None) (binding_devices s) of
                  Some i \<Rightarrow> (s\<lparr>binding_devices := (binding_devices s)[i := Some (copy_text DEVICE_ID_MAX ident)]\<rparr>,
                             int i)
                | None \<Rightarrow> (s, - 1)))"

definition joystick_instance_open :: "devices \<Rightarrow> int \<Rightarrow> bool" where
  "joystick_instance_open s instance \<longleftrightarrow> open_device_for_instance s instance \<noteq> None"

text \<open>The disconnected device with this fingerprint and the least ordinal, the first of equals.\<close>

fun best_disconnected :: "u64 \<Rightarrow> nat \<Rightarrow> (nat \<times> u32) option \<Rightarrow> open_device list \<Rightarrow> nat option" where
  "best_disconnected fp i best [] = map_option fst best"
| "best_disconnected fp i best (d # ds) =
     best_disconnected fp (i + 1)
       (if \<not> od_joystick d \<and> od_stable_id d \<noteq> [] \<and> od_fingerprint d = fp \<and>
           (case best of None \<Rightarrow> True | Some (_, ordinal) \<Rightarrow> od_ordinal d < ordinal)
        then Some (i, od_ordinal d) else best) ds"

definition disconnected_device_for_fingerprint :: "devices \<Rightarrow> u64 \<Rightarrow> nat option" where
  "disconnected_device_for_fingerprint s fp = best_disconnected fp 0 None (open_devices s)"

definition unused_open_device :: "devices \<Rightarrow> nat option" where
  "unused_open_device s =
     (case find_index (\<lambda>d. \<not> od_joystick d \<and> od_stable_id d = []) (open_devices s) of
        Some i \<Rightarrow> Some i
      | None \<Rightarrow> find_index (\<lambda>d. \<not> od_joystick d) (open_devices s))"

text \<open>The ordinal of a new entry, which the loop raises above each of its namesakes.\<close>

definition ordinal_step :: "nat \<Rightarrow> u64 \<Rightarrow> u32 \<Rightarrow> nat \<times> open_device \<Rightarrow> u32" where
  "ordinal_step i fp ordinal p =
     (case p of (j, d) \<Rightarrow>
        if j \<noteq> i \<and> od_stable_id d \<noteq> [] \<and> od_fingerprint d = fp \<and> ordinal \<le> od_ordinal d
        then od_ordinal d + 1 else ordinal)"

definition next_ordinal :: "nat \<Rightarrow> u64 \<Rightarrow> open_device list \<Rightarrow> u32" where
  "next_ordinal i fp ds = foldl (ordinal_step i fp) 0 (enumerate 0 ds)"

definition stable_id :: "u64 \<Rightarrow> u32 \<Rightarrow> string" where
  "stable_id fp ordinal = copy_text DEVICE_ID_MAX (hex_pad 16 (unat fp) @ ''-'' @ dec (unat ordinal))"

definition remember_device :: "bool \<Rightarrow> joystick option \<Rightarrow> int \<Rightarrow> devices \<Rightarrow> devices" where
  "remember_device controller joystick index s =
     (case joystick of
        None \<Rightarrow> s
      | Some j \<Rightarrow>
          let fp = joystick_fingerprint j
          in case disconnected_device_for_fingerprint s fp of
               Some i \<Rightarrow> s\<lparr>open_devices := (open_devices s)[i := (open_devices s ! i)\<lparr>od_controller := controller,
                  od_joystick := True, od_instance := js_instance j, od_index := index\<rparr>]\<rparr>
             | None \<Rightarrow>
                 (case unused_open_device s of
                    None \<Rightarrow> s
                  | Some i \<Rightarrow>
                      let ordinal = next_ordinal i fp (open_devices s)
                      in s\<lparr>open_devices := (open_devices s)[i := \<lparr>od_controller = controller,
                           od_joystick = True, od_instance = js_instance j, od_index = index,
                           od_fingerprint = fp, od_ordinal = ordinal,
                           od_stable_id = stable_id fp ordinal\<rparr>]\<rparr>))"

text \<open>
  What SDL answers for a device index: its instance, whether it is a game controller, and the
  joystick that opening it gives (None when it fails).
\<close>

record sdl_device =
  sd_instance :: int
  sd_is_controller :: bool
  sd_opened :: "joystick option"

fun open_controllers_from :: "int \<Rightarrow> sdl_device list \<Rightarrow> devices \<Rightarrow> devices \<times> nat" where
  "open_controllers_from i [] s = (s, 0)"
| "open_controllers_from i (d # ds) s =
     (if 0 \<le> sd_instance d \<and> joystick_instance_open s (sd_instance d)
      then open_controllers_from (i + 1) ds s
      else case sd_opened d of
             None \<Rightarrow> open_controllers_from (i + 1) ds s
           | Some j \<Rightarrow>
               (case open_controllers_from (i + 1) ds (remember_device (sd_is_controller d) (Some j) i s) of
                  (s', n) \<Rightarrow> (s', n + 1)))"

definition open_game_controllers :: "sdl_device list \<Rightarrow> devices \<Rightarrow> devices \<times> nat" where
  "open_game_controllers connected s = open_controllers_from 0 connected s"

definition close_game_controllers :: "devices \<Rightarrow> devices" where
  "close_game_controllers s = s\<lparr>open_devices := map (\<lambda>_. no_device) (open_devices s)\<rparr>"

definition handle_device_event :: "sdl_device list \<Rightarrow> sdl_event option \<Rightarrow> devices \<Rightarrow> devices" where
  "handle_device_event connected event s =
     (case event of
        Some (DeviceAdded _) \<Rightarrow> fst (open_game_controllers connected s)
      | Some (DeviceRemoved which) \<Rightarrow>
          (case open_device_for_instance s which of
             None \<Rightarrow> s
           | Some i \<Rightarrow> s\<lparr>open_devices := (open_devices s)[i := (open_devices s ! i)\<lparr>od_controller := False,
                od_joystick := False, od_instance := - 1, od_index := - 1\<rparr>]\<rparr>)
      | _ \<Rightarrow> s)"

section \<open>Identities are unique\<close>

lemma find_index_Some:
  "find_index P xs = Some i \<Longrightarrow> i < length xs \<and> P (xs ! i)"
proof (induction xs arbitrary: i)
  case (Cons x xs)
  then show ?case by (cases i) (auto split: if_splits)
qed simp

lemma find_index_first: "find_index P xs = Some i \<Longrightarrow> j < i \<Longrightarrow> \<not> P (xs ! j)"
proof (induction xs arbitrary: i j)
  case (Cons x xs)
  then show ?case by (cases j) (auto split: if_splits)
qed simp

lemma find_index_None: "find_index P xs = None \<longleftrightarrow> (\<forall>x \<in> set xs. \<not> P x)"
  by (induction xs) auto

text \<open>
  A used entry has the identity of its fingerprint and ordinal, no two used entries share
  both, and ordinals stay below the number of devices opened.
\<close>

definition known :: "open_device \<Rightarrow> bool" where
  "known d \<longleftrightarrow> od_stable_id d \<noteq> []"

definition entry_ok :: "nat \<Rightarrow> open_device \<Rightarrow> bool" where
  "entry_ok n d \<longleftrightarrow> (od_joystick d \<longrightarrow> known d) \<and>
     (known d \<longrightarrow> od_stable_id d = stable_id (od_fingerprint d) (od_ordinal d) \<and>
                unat (od_ordinal d) < n)"

definition clash :: "open_device \<Rightarrow> open_device \<Rightarrow> bool" where
  "clash d e \<longleftrightarrow> known d \<and> known e \<and> od_fingerprint d = od_fingerprint e \<and>
     od_ordinal d = od_ordinal e"

definition devices_ok :: "nat \<Rightarrow> devices \<Rightarrow> bool" where
  "devices_ok n s \<longleftrightarrow> length (open_devices s) = MAX_OPEN_DEVICES \<and>
     (\<forall>i < MAX_OPEN_DEVICES. entry_ok n (open_devices s ! i)) \<and>
     (\<forall>i < MAX_OPEN_DEVICES. \<forall>j < MAX_OPEN_DEVICES.
        i \<noteq> j \<longrightarrow> \<not> clash (open_devices s ! i) (open_devices s ! j))"

lemma stable_id_full: "stable_id fp ordinal = hex_pad 16 (unat fp) @ ''-'' @ dec (unat ordinal)"
  and length_stable_id: "length (stable_id fp ordinal) < DEVICE_ID_MAX"
proof -
  have "length (dec (unat ordinal)) \<le> 10"
    using length_dec [of 10 "unat ordinal"] unat_u32_less [of ordinal] by simp
  then show "stable_id fp ordinal = hex_pad 16 (unat fp) @ ''-'' @ dec (unat ordinal)"
    "length (stable_id fp ordinal) < DEVICE_ID_MAX"
    by (simp_all add: stable_id_def DEVICE_ID_MAX_def copy_text_def)
qed

lemma stable_id_inj [simp]: "stable_id f o1 = stable_id g o2 \<longleftrightarrow> f = g \<and> o1 = o2"
proof
  assume "stable_id f o1 = stable_id g o2"
  then have "hex_pad 16 (unat f) = hex_pad 16 (unat g)" "unat o1 = unat o2"
    by (simp_all add: stable_id_full)
  moreover have "unat f < 16 ^ 16" "unat g < 16 ^ 16"
    using unat_u64_less [of f] unat_u64_less [of g] by simp_all
  ultimately show "f = g \<and> o1 = o2"
    using hex_pad_inj by (metis word_unat_eq_iff)
qed simp

lemma stable_id_not_Nil [simp]: "stable_id f o1 \<noteq> []"
  by (simp add: stable_id_full)

lemma next_ordinal_above:
  assumes "\<forall>(j, d) \<in> set ps. unat (od_ordinal d) < n \<or> od_stable_id d = []" "unat start \<le> n" "n < 2 ^ 32 - 1"
  shows "unat (foldl (ordinal_step i fp) start ps) \<le> n \<and> start \<le> foldl (ordinal_step i fp) start ps \<and>
    (\<forall>(j, d) \<in> set ps. j \<noteq> i \<longrightarrow> od_stable_id d \<noteq> [] \<longrightarrow> od_fingerprint d = fp \<longrightarrow>
       od_ordinal d < foldl (ordinal_step i fp) start ps)"
  using assms(1,2)
proof (induction ps arbitrary: start)
  case Nil
  then show ?case by simp
next
  case (Cons p ps)
  obtain j d where p: "p = (j, d)" by fastforce
  let ?s = "ordinal_step i fp start (j, d)"
  have small: "unat (od_ordinal d + 1) = unat (od_ordinal d) + 1" if "unat (od_ordinal d) < n"
    using that assms(3) by (simp add: unat_word_ariths)
  have s: "unat ?s \<le> n" "start \<le> ?s"
    "j \<noteq> i \<Longrightarrow> od_stable_id d \<noteq> [] \<Longrightarrow> od_fingerprint d = fp \<Longrightarrow> od_ordinal d < ?s"
    using Cons.prems small by (auto simp: p ordinal_step_def word_le_nat_alt word_less_nat_alt split: if_splits)
  have "unat (foldl (ordinal_step i fp) ?s ps) \<le> n \<and> ?s \<le> foldl (ordinal_step i fp) ?s ps \<and>
    (\<forall>(j, d) \<in> set ps. j \<noteq> i \<longrightarrow> od_stable_id d \<noteq> [] \<longrightarrow> od_fingerprint d = fp \<longrightarrow>
       od_ordinal d < foldl (ordinal_step i fp) ?s ps)"
    using Cons.prems(1) s(1) by (intro Cons.IH) auto
  then show ?case using s p by auto
qed

text \<open>Replacing one entry by a sound one that clashes with no other keeps the table sound.\<close>

lemma devices_ok_update:
  assumes "devices_ok n s" "n \<le> m" "i < MAX_OPEN_DEVICES" "entry_ok m d"
    "\<And>j. j < MAX_OPEN_DEVICES \<Longrightarrow> j \<noteq> i \<Longrightarrow> \<not> clash d (open_devices s ! j)"
  shows "devices_ok m (s\<lparr>open_devices := (open_devices s)[i := d]\<rparr>)"
proof -
  have sym: "clash a b = clash b a" for a b by (auto simp: clash_def)
  have "entry_ok m (open_devices s ! j)" if "j < MAX_OPEN_DEVICES" for j
    using assms(1,2) that by (auto simp: devices_ok_def entry_ok_def)
  then show ?thesis
    using assms sym by (auto simp: devices_ok_def nth_list_update)
qed

lemma devices_ok_mono: "devices_ok n s \<Longrightarrow> n \<le> m \<Longrightarrow> devices_ok m s"
  by (fastforce simp: devices_ok_def entry_ok_def)

lemma best_disconnected_Some:
  assumes "best_disconnected fp k best ds = Some i" "\<And>a b. best = Some (a, b) \<Longrightarrow> Q a"
    "\<And>j. j < length ds \<Longrightarrow> \<not> od_joystick (ds ! j) \<Longrightarrow> od_stable_id (ds ! j) \<noteq> [] \<Longrightarrow>
       od_fingerprint (ds ! j) = fp \<Longrightarrow> Q (k + j)"
  shows "Q i"
  using assms
proof (induction ds arbitrary: k best)
  case Nil
  then show ?case by (cases best) auto
next
  case (Cons d ds)
  show ?case
  proof (rule Cons.IH)
    show "best_disconnected fp (k + 1) (if \<not> od_joystick d \<and> od_stable_id d \<noteq> [] \<and> od_fingerprint d = fp \<and>
           (case best of None \<Rightarrow> True | Some (_, ordinal) \<Rightarrow> od_ordinal d < ordinal)
        then Some (k, od_ordinal d) else best) ds = Some i" using Cons.prems(1) by simp
    show "Q a" if "(if \<not> od_joystick d \<and> od_stable_id d \<noteq> [] \<and> od_fingerprint d = fp \<and>
           (case best of None \<Rightarrow> True | Some (_, ordinal) \<Rightarrow> od_ordinal d < ordinal)
        then Some (k, od_ordinal d) else best) = Some (a, b)" for a b
      using that Cons.prems(2) Cons.prems(3) [of 0] by (auto split: if_splits)
    show "Q (k + 1 + j)" if "j < length ds" "\<not> od_joystick (ds ! j)" "od_stable_id (ds ! j) \<noteq> []"
      "od_fingerprint (ds ! j) = fp" for j
      using that Cons.prems(3) [of "Suc j"] by simp
  qed
qed

lemma disconnected_device_Some:
  assumes "disconnected_device_for_fingerprint s fp = Some i"
  shows "i < length (open_devices s) \<and> \<not> od_joystick (open_devices s ! i) \<and>
    known (open_devices s ! i) \<and> od_fingerprint (open_devices s ! i) = fp"
  using assms unfolding disconnected_device_for_fingerprint_def
  by (rule best_disconnected_Some) (auto simp: known_def)

lemma unused_open_device_Some:
  "unused_open_device s = Some i \<Longrightarrow> i < length (open_devices s) \<and> \<not> od_joystick (open_devices s ! i)"
  by (auto simp: unused_open_device_def dest!: find_index_Some split: option.splits)

lemma remember_device_ok:
  assumes "devices_ok n s" "n < 2 ^ 32 - 1"
  shows "devices_ok (n + 1) (remember_device c j x s)"
proof (cases j)
  case None
  then show ?thesis using assms(1) by (simp add: remember_device_def devices_ok_mono)
next
  case (Some js)
  let ?fp = "joystick_fingerprint js"
  have len: "length (open_devices s) = MAX_OPEN_DEVICES" using assms(1) by (simp add: devices_ok_def)
  show ?thesis
  proof (cases "disconnected_device_for_fingerprint s ?fp")
    case known: (Some i)
    then have i: "i < MAX_OPEN_DEVICES" "known (open_devices s ! i)"
      using disconnected_device_Some [OF known] len by auto
    have "devices_ok (n + 1) (s\<lparr>open_devices := (open_devices s)[i := (open_devices s ! i)\<lparr>
        od_controller := c, od_joystick := True, od_instance := js_instance js, od_index := x\<rparr>]\<rparr>)"
      using assms(1) i
      by (intro devices_ok_update [OF assms(1)]) (auto simp: devices_ok_def entry_ok_def clash_def known_def)
    then show ?thesis using known Some by (simp add: remember_device_def)
  next
    case fresh: None
    show ?thesis
    proof (cases "unused_open_device s")
      case None
      then show ?thesis using Some fresh assms(1) by (simp add: remember_device_def devices_ok_mono)
    next
      case slot: (Some i)
      let ?o = "next_ordinal i ?fp (open_devices s)"
      have i: "i < MAX_OPEN_DEVICES" using unused_open_device_Some [OF slot] len by simp
      have "\<forall>(j, d) \<in> set (enumerate 0 (open_devices s)). unat (od_ordinal d) < n \<or> od_stable_id d = []"
        using assms(1) len by (auto simp: devices_ok_def entry_ok_def known_def in_set_enumerate_eq)
      from next_ordinal_above [OF this _ assms(2), of 0 i ?fp]
      have o: "unat ?o \<le> n" "\<And>j. j < MAX_OPEN_DEVICES \<Longrightarrow> j \<noteq> i \<Longrightarrow> known (open_devices s ! j) \<Longrightarrow>
          od_fingerprint (open_devices s ! j) = ?fp \<Longrightarrow> od_ordinal (open_devices s ! j) < ?o"
        using len by (auto simp: next_ordinal_def known_def in_set_enumerate_eq)
      have "devices_ok (n + 1) (s\<lparr>open_devices := (open_devices s)[i := \<lparr>od_controller = c,
          od_joystick = True, od_instance = js_instance js, od_index = x, od_fingerprint = ?fp,
          od_ordinal = ?o, od_stable_id = stable_id ?fp ?o\<rparr>]\<rparr>)"
        using o(1) i
        by (intro devices_ok_update [OF assms(1)])
           (use o(2) in \<open>fastforce simp: entry_ok_def clash_def known_def\<close>)+
      then show ?thesis using Some fresh slot by (simp add: remember_device_def Let_def)
    qed
  qed
qed

lemma open_controllers_from_ok:
  assumes "devices_ok n s" "n + length ds < 2 ^ 32"
  shows "devices_ok (n + length ds) (fst (open_controllers_from i ds s))"
  using assms
proof (induction ds arbitrary: n i s)
  case (Cons d ds)
  have later: "devices_ok (n + 1 + length ds) (fst (open_controllers_from (i + 1) ds t))"
    if "devices_ok (n + 1) t" for t
    using Cons.prems(2) that by (intro Cons.IH) auto
  have later': "devices_ok (n + 1 + length ds) t'"
    if "open_controllers_from (i + 1) ds t = (t', k)" "devices_ok (n + 1) t" for t t' k
    using later [OF that(2)] that(1) by simp
  have "devices_ok (n + 1) s" "devices_ok (n + 1) (remember_device c j i s)" for c j
    using Cons.prems devices_ok_mono [OF Cons.prems(1), of "n + 1"] remember_device_ok [of n s c j i]
    by auto
  then show ?case
    using later later' by (auto split: option.splits prod.splits)
qed simp

text \<open>Sequences of device events: what SDL lists at each event, or closing everything.\<close>

datatype device_op = DeviceEvent "sdl_device list" sdl_event | CloseAll

fun device_step :: "devices \<Rightarrow> device_op \<Rightarrow> devices" where
  "device_step s (DeviceEvent ds e) = handle_device_event ds (Some e) s"
| "device_step s CloseAll = close_game_controllers s"

fun devices_listed :: "device_op list \<Rightarrow> nat" where
  "devices_listed [] = 0"
| "devices_listed (DeviceEvent ds e # ops) = length ds + devices_listed ops"
| "devices_listed (CloseAll # ops) = devices_listed ops"

lemma no_devices_ok: "devices_ok 0 no_devices"
  by (simp add: devices_ok_def no_devices_def entry_ok_def known_def no_device_def clash_def)

lemma close_ok: "devices_ok n s \<Longrightarrow> devices_ok n (close_game_controllers s)"
  by (simp add: devices_ok_def close_game_controllers_def entry_ok_def known_def no_device_def clash_def)

lemma handle_device_event_ok:
  assumes "devices_ok n s" "n + length ds < 2 ^ 32"
  shows "devices_ok (n + length ds) (handle_device_event ds e s)"
proof -
  have len: "length (open_devices s) = MAX_OPEN_DEVICES" using assms(1) by (simp add: devices_ok_def)
  have "devices_ok (n + length ds) (s\<lparr>open_devices := (open_devices s)[i := (open_devices s ! i)\<lparr>
      od_controller := False, od_joystick := False, od_instance := - 1, od_index := - 1\<rparr>]\<rparr>)"
    if "open_device_for_instance s w = Some i" for i w
    using assms(1) find_index_Some [OF that [unfolded open_device_for_instance_def]] len
    by (intro devices_ok_update [OF assms(1)]) (auto simp: devices_ok_def entry_ok_def clash_def known_def)
  then show ?thesis
    using open_controllers_from_ok [OF assms] devices_ok_mono [OF assms(1)]
    by (auto simp: handle_device_event_def open_game_controllers_def
             split: option.splits sdl_event.splits)
qed

lemma device_run_ok:
  "devices_ok n s \<Longrightarrow> n + devices_listed ops < 2 ^ 32 \<Longrightarrow>
   devices_ok (n + devices_listed ops) (foldl device_step s ops)"
proof (induction ops arbitrary: n s)
  case (Cons op ops)
  show ?case
  proof (cases op)
    case (DeviceEvent ds e)
    then have "devices_ok (n + length ds + devices_listed ops)
        (foldl device_step (handle_device_event ds (Some e) s) ops)"
      using Cons.prems by (intro Cons.IH handle_device_event_ok) auto
    then show ?thesis by (simp add: DeviceEvent add.assoc)
  next
    case CloseAll
    then show ?thesis using Cons.IH [OF close_ok [OF Cons.prems(1)]] Cons.prems(2) by simp
  qed
qed simp

lemma devices_ok_unique:
  assumes "devices_ok n s" "i < MAX_OPEN_DEVICES" "j < MAX_OPEN_DEVICES"
    "od_joystick (open_devices s ! i)" "od_joystick (open_devices s ! j)"
    "od_stable_id (open_devices s ! i) = od_stable_id (open_devices s ! j)"
  shows "i = j"
proof (rule ccontr)
  assume "i \<noteq> j"
  then have "\<not> clash (open_devices s ! i) (open_devices s ! j)"
    using assms(1-3) by (simp add: devices_ok_def)
  moreover have "entry_ok n (open_devices s ! i)" "entry_ok n (open_devices s ! j)"
    using assms(1-3) by (auto simp: devices_ok_def)
  ultimately show False using assms(4-6) by (auto simp: entry_ok_def clash_def)
qed

text \<open>Whatever controllers are connected, removed and reconnected, in any order and with any
  fingerprints, two devices that are connected at the same time never share the stable identity
  that key bindings refer to.\<close>

theorem device_identity_unique:
  assumes "devices_listed ops < 2 ^ 32" "i < MAX_OPEN_DEVICES" "j < MAX_OPEN_DEVICES" "i \<noteq> j"
    and "od_joystick (open_devices (foldl device_step no_devices ops) ! i)"
    and "od_joystick (open_devices (foldl device_step no_devices ops) ! j)"
  shows "od_stable_id (open_devices (foldl device_step no_devices ops) ! i) \<noteq>
         od_stable_id (open_devices (foldl device_step no_devices ops) ! j)"
  using devices_ok_unique [OF device_run_ok [OF no_devices_ok] assms(2,3,5,6)] assms(1,4) by auto

text \<open>Two pads of one make: the second is plugged in after the first was removed and came back.\<close>

definition twin_joystick :: joystick where
  "twin_joystick = \<lparr>js_guid = ''03'', js_vendor = 1, js_product = 2, js_version = 3, js_serial = None,
     js_name = Some ''Pad'', js_instance = 0\<rparr>"

definition twin_pad :: "int \<Rightarrow> sdl_device" where
  "twin_pad n = \<lparr>sd_instance = n, sd_is_controller = True,
     sd_opened = Some (twin_joystick\<lparr>js_instance := n\<rparr>)\<rparr>"

definition twin_run :: "device_op list" where
  "twin_run = [DeviceEvent [twin_pad 5] (DeviceAdded 0), DeviceEvent [] (DeviceRemoved 5),
     DeviceEvent [twin_pad 6, twin_pad 7] (DeviceAdded 0)]"

lemma fingerprint_instance [simp]:
  "joystick_fingerprint (j\<lparr>js_instance := n\<rparr>) = joystick_fingerprint j"
  by (simp add: joystick_fingerprint_def joystick_numeric_def)

lemma twin_run_joysticks:
  "od_joystick (open_devices (foldl device_step no_devices twin_run) ! 0) \<and>
   od_joystick (open_devices (foldl device_step no_devices twin_run) ! 1)"
  by (simp add: twin_run_def twin_pad_def handle_device_event_def open_game_controllers_def
      joystick_instance_open_def open_device_for_instance_def remember_device_def no_devices_def
      disconnected_device_for_fingerprint_def unused_open_device_def MAX_OPEN_DEVICES_def
      no_device_def Let_def eval_nat_numeral)

theorem device_identity_unique_witness:
  "od_stable_id (open_devices (foldl device_step no_devices twin_run) ! 0) \<noteq>
   od_stable_id (open_devices (foldl device_step no_devices twin_run) ! 1)"
  by (rule device_identity_unique)
     (use twin_run_joysticks in \<open>simp_all add: MAX_OPEN_DEVICES_def twin_run_def\<close>)

end
