(* ===== verification/KeyConfig.thy ===== *)
theory KeyConfig
  imports InputDevices
begin

text \<open>
  Key bindings of the Game Boy runtime (\<open>runtimes/gb/src/common/key_config.c\<close>): the integer
  codes of keys and of controller and joystick controls, unscoped or scoped to a device of
  the registry; their names in the configuration file; and matching SDL events against them.
  SDL's own key names are parameters.
\<close>

unbundle bit_operations_syntax

section \<open>Codes\<close>

definition SDLK_UNKNOWN :: int where "SDLK_UNKNOWN = 0"
definition CONTROLLER_BUTTON_BASE :: int where "CONTROLLER_BUTTON_BASE = - 100000"
definition CONTROLLER_AXIS_POS_BASE :: int where "CONTROLLER_AXIS_POS_BASE = - 101000"
definition CONTROLLER_AXIS_NEG_BASE :: int where "CONTROLLER_AXIS_NEG_BASE = - 102000"
definition JOYSTICK_BUTTON_BASE :: int where "JOYSTICK_BUTTON_BASE = - 103000"
definition JOYSTICK_AXIS_POS_BASE :: int where "JOYSTICK_AXIS_POS_BASE = - 104000"
definition JOYSTICK_AXIS_NEG_BASE :: int where "JOYSTICK_AXIS_NEG_BASE = - 105000"
definition JOYSTICK_HAT_BASE :: int where "JOYSTICK_HAT_BASE = - 106000"
definition SCOPED_BINDING_BASE :: int where "SCOPED_BINDING_BASE = - 2000000"
definition SCOPED_BINDING_STRIDE :: int where "SCOPED_BINDING_STRIDE = 10000"
definition SDL_BUTTON_MAX :: int where "SDL_BUTTON_MAX = 21"
definition SDL_AXIS_MAX :: int where "SDL_AXIS_MAX = 6"
definition MAX_JOYSTICK_BUTTONS :: int where "MAX_JOYSTICK_BUTTONS = 128"
definition MAX_JOYSTICK_AXES :: int where "MAX_JOYSTICK_AXES = 32"
definition MAX_JOYSTICK_HATS :: int where "MAX_JOYSTICK_HATS = 16"
definition AXIS_THRESHOLD :: int where "AXIS_THRESHOLD = 16000"

lemmas code_consts = SDLK_UNKNOWN_def CONTROLLER_BUTTON_BASE_def CONTROLLER_AXIS_POS_BASE_def
  CONTROLLER_AXIS_NEG_BASE_def JOYSTICK_BUTTON_BASE_def JOYSTICK_AXIS_POS_BASE_def
  JOYSTICK_AXIS_NEG_BASE_def JOYSTICK_HAT_BASE_def SCOPED_BINDING_BASE_def
  SCOPED_BINDING_STRIDE_def SDL_BUTTON_MAX_def SDL_AXIS_MAX_def MAX_JOYSTICK_BUTTONS_def
  MAX_JOYSTICK_AXES_def MAX_JOYSTICK_HATS_def AXIS_THRESHOLD_def

text \<open>The kind of control a code stands for; the code uses its number.\<close>

datatype control_kind = PadButton | PadAxisPos | PadAxisNeg | StickButton | StickAxisPos
  | StickAxisNeg | StickHat

definition kind_number :: "control_kind \<Rightarrow> int" where
  "kind_number k = (case k of PadButton \<Rightarrow> 1 | PadAxisPos \<Rightarrow> 2 | PadAxisNeg \<Rightarrow> 3 | StickButton \<Rightarrow> 4
     | StickAxisPos \<Rightarrow> 5 | StickAxisNeg \<Rightarrow> 6 | StickHat \<Rightarrow> 7)"

definition kind_of_number :: "int \<Rightarrow> control_kind option" where
  "kind_of_number n = (if n = 1 then Some PadButton else if n = 2 then Some PadAxisPos
     else if n = 3 then Some PadAxisNeg else if n = 4 then Some StickButton
     else if n = 5 then Some StickAxisPos else if n = 6 then Some StickAxisNeg
     else if n = 7 then Some StickHat else None)"

definition scoped_code :: "int \<Rightarrow> control_kind \<Rightarrow> int \<Rightarrow> int" where
  "scoped_code slot kind control =
     (if slot < 0 \<or> int MAX_BINDING_DEVICES \<le> slot \<or> control < 0 \<or> 1000 \<le> control
      then SDLK_UNKNOWN
      else SCOPED_BINDING_BASE - slot * SCOPED_BINDING_STRIDE - kind_number kind * 1000 - control)"

definition scoped_decode :: "devices \<Rightarrow> int \<Rightarrow> (nat \<times> control_kind \<times> int) option" where
  "scoped_decode s code =
     (if SCOPED_BINDING_BASE < code \<or>
         code \<le> SCOPED_BINDING_BASE - int MAX_BINDING_DEVICES * SCOPED_BINDING_STRIDE then None
      else let packed = SCOPED_BINDING_BASE - code;
               slot = packed div SCOPED_BINDING_STRIDE; rest = packed mod SCOPED_BINDING_STRIDE
           in case kind_of_number (rest div 1000) of
                None \<Rightarrow> None
              | Some kind \<Rightarrow>
                  if slot < 0 \<or> int MAX_BINDING_DEVICES \<le> slot \<or> binding_devices s ! nat slot = None
                  then None else Some (nat slot, kind, rest mod 1000))"

definition controller_button_names :: "string list" where
  "controller_button_names = [''PAD_A'', ''PAD_B'', ''PAD_X'', ''PAD_Y'', ''PAD_BACK'', ''PAD_GUIDE'',
     ''PAD_START'', ''PAD_LSTICK'', ''PAD_RSTICK'', ''PAD_LSHOULDER'', ''PAD_RSHOULDER'',
     ''PAD_DPAD_UP'', ''PAD_DPAD_DOWN'', ''PAD_DPAD_LEFT'', ''PAD_DPAD_RIGHT'']"

definition controller_button_name :: "int \<Rightarrow> string option" where
  "controller_button_name b = (if 0 \<le> b \<and> b < 15 then Some (controller_button_names ! nat b) else None)"

definition controller_axis_name :: "int \<Rightarrow> string option" where
  "controller_axis_name a =
     (if 0 \<le> a \<and> a < 6 then Some ([''LX'', ''LY'', ''RX'', ''RY'', ''LT'', ''RT''] ! nat a) else None)"

definition code_from_controller_button :: "int \<Rightarrow> int" where
  "code_from_controller_button b =
     (if b < 0 \<or> SDL_BUTTON_MAX \<le> b \<or> controller_button_name b = None then SDLK_UNKNOWN
      else CONTROLLER_BUTTON_BASE - b)"

definition code_from_controller_axis :: "int \<Rightarrow> int \<Rightarrow> int" where
  "code_from_controller_axis a direction =
     (if a < 0 \<or> SDL_AXIS_MAX \<le> a \<or> controller_axis_name a = None \<or> direction = 0 then SDLK_UNKNOWN
      else (if 0 < direction then CONTROLLER_AXIS_POS_BASE else CONTROLLER_AXIS_NEG_BASE) - a)"

definition in_block :: "int \<Rightarrow> int \<Rightarrow> int \<Rightarrow> bool" where
  "in_block key base count \<longleftrightarrow> key \<le> base \<and> base - count < key"

definition is_controller_code :: "devices \<Rightarrow> int \<Rightarrow> bool" where
  "is_controller_code s key \<longleftrightarrow>
     scoped_decode s key \<noteq> None \<or>
     in_block key CONTROLLER_BUTTON_BASE SDL_BUTTON_MAX \<or>
     in_block key CONTROLLER_AXIS_POS_BASE SDL_AXIS_MAX \<or>
     in_block key CONTROLLER_AXIS_NEG_BASE SDL_AXIS_MAX \<or>
     in_block key JOYSTICK_BUTTON_BASE MAX_JOYSTICK_BUTTONS \<or>
     in_block key JOYSTICK_AXIS_POS_BASE MAX_JOYSTICK_AXES \<or>
     in_block key JOYSTICK_AXIS_NEG_BASE MAX_JOYSTICK_AXES \<or>
     in_block key JOYSTICK_HAT_BASE (MAX_JOYSTICK_HATS * 4)"

definition controller_code_to_button :: "int \<Rightarrow> int option" where
  "controller_code_to_button key =
     (if in_block key CONTROLLER_BUTTON_BASE SDL_BUTTON_MAX \<and>
         controller_button_name (CONTROLLER_BUTTON_BASE - key) \<noteq> None
      then Some (CONTROLLER_BUTTON_BASE - key) else None)"

definition controller_code_to_axis :: "int \<Rightarrow> (int \<times> int) option" where
  "controller_code_to_axis key =
     (if in_block key CONTROLLER_AXIS_POS_BASE SDL_AXIS_MAX
      then (if controller_axis_name (CONTROLLER_AXIS_POS_BASE - key) \<noteq> None
            then Some (CONTROLLER_AXIS_POS_BASE - key, 1) else None)
      else if in_block key CONTROLLER_AXIS_NEG_BASE SDL_AXIS_MAX
      then (if controller_axis_name (CONTROLLER_AXIS_NEG_BASE - key) \<noteq> None
            then Some (CONTROLLER_AXIS_NEG_BASE - key, - 1) else None)
      else None)"

definition joystick_code_to_button :: "int \<Rightarrow> int option" where
  "joystick_code_to_button key =
     (if in_block key JOYSTICK_BUTTON_BASE MAX_JOYSTICK_BUTTONS
      then Some (JOYSTICK_BUTTON_BASE - key) else None)"

definition joystick_code_to_axis :: "int \<Rightarrow> (int \<times> int) option" where
  "joystick_code_to_axis key =
     (if in_block key JOYSTICK_AXIS_POS_BASE MAX_JOYSTICK_AXES
      then Some (JOYSTICK_AXIS_POS_BASE - key, 1)
      else if in_block key JOYSTICK_AXIS_NEG_BASE MAX_JOYSTICK_AXES
      then Some (JOYSTICK_AXIS_NEG_BASE - key, - 1)
      else None)"

definition hat_direction_index :: "u8 \<Rightarrow> int" where
  "hat_direction_index d = (if d = SDL_HAT_UP then 0 else if d = SDL_HAT_RIGHT then 1
     else if d = SDL_HAT_DOWN then 2 else if d = SDL_HAT_LEFT then 3 else - 1)"

definition hat_direction_from_index :: "int \<Rightarrow> u8" where
  "hat_direction_from_index i =
     (if 0 \<le> i \<and> i < 4 then [SDL_HAT_UP, SDL_HAT_RIGHT, SDL_HAT_DOWN, SDL_HAT_LEFT] ! nat i
      else SDL_HAT_CENTERED)"

definition joystick_code_to_hat :: "int \<Rightarrow> (int \<times> u8) option" where
  "joystick_code_to_hat key =
     (if in_block key JOYSTICK_HAT_BASE (MAX_JOYSTICK_HATS * 4)
      then let packed = JOYSTICK_HAT_BASE - key; d = hat_direction_from_index (packed mod 4)
           in if d \<noteq> SDL_HAT_CENTERED then Some (packed div 4, d) else None
      else None)"

definition code_from_joystick_button :: "int \<Rightarrow> int" where
  "code_from_joystick_button b =
     (if b < 0 \<or> MAX_JOYSTICK_BUTTONS \<le> b then SDLK_UNKNOWN else JOYSTICK_BUTTON_BASE - b)"

definition code_from_joystick_axis :: "int \<Rightarrow> int \<Rightarrow> int" where
  "code_from_joystick_axis a direction =
     (if a < 0 \<or> MAX_JOYSTICK_AXES \<le> a \<or> direction = 0 then SDLK_UNKNOWN
      else (if 0 < direction then JOYSTICK_AXIS_POS_BASE else JOYSTICK_AXIS_NEG_BASE) - a)"

definition code_from_joystick_hat :: "int \<Rightarrow> u8 \<Rightarrow> int" where
  "code_from_joystick_hat h d =
     (if h < 0 \<or> MAX_JOYSTICK_HATS \<le> h \<or> hat_direction_index d < 0 then SDLK_UNKNOWN
      else JOYSTICK_HAT_BASE - h * 4 - hat_direction_index d)"

section \<open>Events\<close>

definition scoped_event_code :: "devices \<Rightarrow> int \<Rightarrow> control_kind \<Rightarrow> int \<Rightarrow> devices \<times> int" where
  "scoped_event_code s instance kind control =
     (case open_device_for_instance s instance of
        None \<Rightarrow> (s, SDLK_UNKNOWN)
      | Some i \<Rightarrow>
          (case binding_device_slot s (od_stable_id (open_devices s ! i)) True of
             (s', slot) \<Rightarrow> (s', scoped_code slot kind control)))"

definition code_from_event :: "devices \<Rightarrow> sdl_event \<Rightarrow> devices \<times> int" where
  "code_from_event s event =
     (case event of
        KeyDown ks sc rep \<Rightarrow> if rep then (s, SDLK_UNKNOWN) else (s, ks)
      | JoyButtonDown which button \<Rightarrow> scoped_event_code s which StickButton (uint button)
      | JoyAxis which axis v \<Rightarrow>
          if AXIS_THRESHOLD \<le> \<bar>v\<bar>
          then scoped_event_code s which (if 0 < v then StickAxisPos else StickAxisNeg) (uint axis)
          else (s, SDLK_UNKNOWN)
      | JoyHat which hat p \<Rightarrow>
          if p \<noteq> SDL_HAT_CENTERED
          then scoped_event_code s which StickHat
                 (uint hat * 4 + hat_direction_index
                    (if p AND SDL_HAT_UP \<noteq> 0 then SDL_HAT_UP
                     else if p AND SDL_HAT_RIGHT \<noteq> 0 then SDL_HAT_RIGHT
                     else if p AND SDL_HAT_DOWN \<noteq> 0 then SDL_HAT_DOWN else SDL_HAT_LEFT))
          else (s, SDLK_UNKNOWN)
      | _ \<Rightarrow> (s, SDLK_UNKNOWN))"

definition event_matches_scoped_device :: "devices \<Rightarrow> nat \<Rightarrow> int \<Rightarrow> bool" where
  "event_matches_scoped_device s slot instance =
     (case open_device_for_instance s instance of
        None \<Rightarrow> False
      | Some i \<Rightarrow> Some (od_stable_id (open_devices s ! i)) = binding_devices s ! slot)"

text \<open>A match gives whether the control is pressed; None means no match.\<close>

definition match_when :: "bool \<Rightarrow> bool \<Rightarrow> bool option" where
  "match_when matches pressed = (if matches then Some pressed else None)"

definition axis_pressed :: "bool \<Rightarrow> int \<Rightarrow> bool" where
  "axis_pressed positive v = (if positive then AXIS_THRESHOLD < v else v < - AXIS_THRESHOLD)"

definition scoped_match ::
  "devices \<Rightarrow> nat \<Rightarrow> control_kind \<Rightarrow> int \<Rightarrow> sdl_event \<Rightarrow> bool option" where
  "scoped_match s slot kind control event =
     (let here = (\<lambda>which. event_matches_scoped_device s slot which);
          c8 = (word_of_int control :: u8)
      in case event of
           PadButtonDown which b \<Rightarrow> match_when (kind = PadButton \<and> b = c8 \<and> here which) True
         | PadButtonUp which b \<Rightarrow> match_when (kind = PadButton \<and> b = c8 \<and> here which) False
         | PadAxis which a v \<Rightarrow> match_when ((kind = PadAxisPos \<or> kind = PadAxisNeg) \<and> a = c8 \<and> here which)
                                  (axis_pressed (kind = PadAxisPos) v)
         | JoyButtonDown which b \<Rightarrow> match_when (kind = StickButton \<and> b = c8 \<and> here which) True
         | JoyButtonUp which b \<Rightarrow> match_when (kind = StickButton \<and> b = c8 \<and> here which) False
         | JoyAxis which a v \<Rightarrow>
             match_when ((kind = StickAxisPos \<or> kind = StickAxisNeg) \<and> a = c8 \<and> here which)
                        (axis_pressed (kind = StickAxisPos) v)
         | JoyHat which h p \<Rightarrow>
             match_when (kind = StickHat \<and> h = word_of_int (control div 4) \<and> here which)
                        (p AND hat_direction_from_index (control mod 4) \<noteq> 0)
         | _ \<Rightarrow> None)"

definition unscoped_match :: "int \<Rightarrow> sdl_event \<Rightarrow> bool option" where
  "unscoped_match binding event =
     (case event of
        PadButtonDown which b \<Rightarrow>
          (case controller_code_to_button binding of None \<Rightarrow> None
           | Some n \<Rightarrow> match_when (b = word_of_int n) True)
      | PadButtonUp which b \<Rightarrow>
          (case controller_code_to_button binding of None \<Rightarrow> None
           | Some n \<Rightarrow> match_when (b = word_of_int n) False)
      | PadAxis which a v \<Rightarrow>
          (case controller_code_to_axis binding of None \<Rightarrow> None
           | Some (n, d) \<Rightarrow> match_when (a = word_of_int n) (axis_pressed (0 < d) v))
      | JoyButtonDown which b \<Rightarrow>
          (case joystick_code_to_button binding of None \<Rightarrow> None
           | Some n \<Rightarrow> match_when (b = word_of_int n) True)
      | JoyButtonUp which b \<Rightarrow>
          (case joystick_code_to_button binding of None \<Rightarrow> None
           | Some n \<Rightarrow> match_when (b = word_of_int n) False)
      | JoyAxis which a v \<Rightarrow>
          (case joystick_code_to_axis binding of None \<Rightarrow> None
           | Some (n, d) \<Rightarrow> match_when (a = word_of_int n) (axis_pressed (0 < d) v))
      | JoyHat which h p \<Rightarrow>
          (case joystick_code_to_hat binding of None \<Rightarrow> None
           | Some (n, d) \<Rightarrow> match_when (h = word_of_int n) (p AND d \<noteq> 0))
      | _ \<Rightarrow> None)"

definition binding_matches_event :: "devices \<Rightarrow> int \<Rightarrow> sdl_event option \<Rightarrow> bool option" where
  "binding_matches_event s binding event =
     (case event of
        None \<Rightarrow> None
      | Some e \<Rightarrow>
          (case e of
             KeyDown ks sc rep \<Rightarrow>
               if is_controller_code s binding then None
               else match_when (\<not> rep \<and> ks = binding) True
           | KeyUp ks sc rep \<Rightarrow>
               if is_controller_code s binding then None
               else match_when (\<not> rep \<and> ks = binding) False
           | _ \<Rightarrow> (case scoped_decode s binding of
                     Some (slot, kind, control) \<Rightarrow> scoped_match s slot kind control e
                   | None \<Rightarrow> unscoped_match binding e)))"

text \<open>\<open>held\<close> is the caller's flag, None when its pointer is NULL.\<close>

definition binding_rising ::
  "devices \<Rightarrow> int \<Rightarrow> sdl_event option \<Rightarrow> bool option \<Rightarrow> bool option \<times> bool" where
  "binding_rising s binding event held =
     (case held of
        None \<Rightarrow> (None, False)
      | Some h \<Rightarrow>
          (case binding_matches_event s binding event of
             None \<Rightarrow> (Some h, False)
           | Some pressed \<Rightarrow> (Some pressed, pressed \<and> \<not> h)))"

section \<open>Buttons\<close>

record key_config =
  kc_right :: int
  kc_left :: int
  kc_up :: int
  kc_down :: int
  kc_a :: int
  kc_b :: int
  kc_select :: int
  kc_start :: int

definition BTN_RIGHT :: u8 where "BTN_RIGHT = 0x01"
definition BTN_LEFT :: u8 where "BTN_LEFT = 0x02"
definition BTN_UP :: u8 where "BTN_UP = 0x04"
definition BTN_DOWN :: u8 where "BTN_DOWN = 0x08"
definition BTN_A :: u8 where "BTN_A = 0x10"
definition BTN_B :: u8 where "BTN_B = 0x20"
definition BTN_SELECT :: u8 where "BTN_SELECT = 0x40"
definition BTN_START :: u8 where "BTN_START = 0x80"

lemmas btn_defs = BTN_RIGHT_def BTN_LEFT_def BTN_UP_def BTN_DOWN_def BTN_A_def BTN_B_def
  BTN_SELECT_def BTN_START_def

definition config_bindings :: "key_config \<Rightarrow> (int \<times> u8) list" where
  "config_bindings c = [(kc_right c, BTN_RIGHT), (kc_left c, BTN_LEFT), (kc_up c, BTN_UP),
     (kc_down c, BTN_DOWN), (kc_a c, BTN_A), (kc_b c, BTN_B), (kc_select c, BTN_SELECT),
     (kc_start c, BTN_START)]"

text \<open>Keys: RIGHT LEFT UP DOWN z x RSHIFT RETURN, and d a w s g h r t.\<close>

definition slot1_default :: key_config where
  "slot1_default = \<lparr>kc_right = 0x4000004F, kc_left = 0x40000050, kc_up = 0x40000052,
     kc_down = 0x40000051, kc_a = 122, kc_b = 120, kc_select = 0x400000E5, kc_start = 13\<rparr>"

definition slot2_default :: key_config where
  "slot2_default = \<lparr>kc_right = 100, kc_left = 97, kc_up = 119, kc_down = 115, kc_a = 103, kc_b = 104,
     kc_select = 114, kc_start = 116\<rparr>"

definition fast_default :: int where "fast_default = 102"
definition screenshot_default :: int where "screenshot_default = 112"
definition escape_default :: int where "escape_default = 27"
definition turbo_hold_default :: int where "turbo_hold_default = 98"
definition reset_default :: int where "reset_default = 111"

definition button_for_key :: "key_config \<Rightarrow> int \<Rightarrow> u8" where
  "button_for_key c key =
     (case find_index (\<lambda>(b, m). key = b) (config_bindings c) of
        None \<Rightarrow> 0 | Some i \<Rightarrow> snd (config_bindings c ! i))"

definition buttons_for_event :: "devices \<Rightarrow> key_config \<Rightarrow> sdl_event option \<Rightarrow> u8 \<times> u8" where
  "buttons_for_event s c event =
     foldl (\<lambda>(press, release) (binding, button).
              case binding_matches_event s binding event of
                None \<Rightarrow> (press, release)
              | Some pressed \<Rightarrow> if pressed then (press OR button, release)
                                else (press, release OR button))
       (0, 0) (config_bindings c)"

definition button_for_event :: "devices \<Rightarrow> key_config \<Rightarrow> sdl_event option \<Rightarrow> u8 \<times> bool option" where
  "button_for_event s c event =
     (case buttons_for_event s c event of
        (press, release) \<Rightarrow>
          if press \<noteq> 0 then (press, Some True)
          else if release \<noteq> 0 then (release, Some False)
          else (0, None))"

section \<open>Names\<close>

definition starts_with :: "string \<Rightarrow> string \<Rightarrow> bool" where
  "starts_with prefix s \<longleftrightarrow> take (length prefix) s = prefix"

definition ends_with :: "string \<Rightarrow> string \<Rightarrow> bool" where
  "ends_with suffix s \<longleftrightarrow> length suffix \<le> length s \<and> drop (length s - length suffix) s = suffix"

text \<open>\<open>strchr\<close> and \<open>strstr\<close>, as offsets.\<close>

definition str_chr :: "char \<Rightarrow> string \<Rightarrow> nat option" where
  "str_chr c s = find_index (\<lambda>x. x = c) s"

fun str_str :: "string \<Rightarrow> string \<Rightarrow> nat option" where
  "str_str needle [] = (if needle = [] then Some 0 else None)"
| "str_str needle (c # cs) =
     (if starts_with needle (c # cs) then Some 0 else map_option Suc (str_str needle cs))"

definition parse_nonnegative_int :: "string \<Rightarrow> int option" where
  "parse_nonnegative_int s =
     (case c_strtol s of (v, rest) \<Rightarrow>
        if s = [] \<or> rest \<noteq> [] \<or> v < 0 \<or> 100000 < v then None else Some v)"

definition format_prefixed_suffixed_name ::
  "nat \<Rightarrow> string \<Rightarrow> string \<Rightarrow> string \<Rightarrow> string option" where
  "format_prefixed_suffixed_name size_limit prefix name suffix =
     (if size_limit < length prefix + length name + length suffix + 1 then None
      else Some (prefix @ name @ suffix))"

definition axis_names :: "string list" where
  "axis_names = [''LX'', ''LY'', ''RX'', ''RY'', ''LT'', ''RT'']"

definition pad_control_from_name :: "string \<Rightarrow> (control_kind \<times> int) option" where
  "pad_control_from_name control =
     (case find_index (\<lambda>name. starts_with ''PAD_'' name \<and> control = drop 4 name)
             controller_button_names of
        Some i \<Rightarrow> Some (PadButton, int i)
      | None \<Rightarrow>
          (case find_index (\<lambda>name. control = copy_text 16 (name @ ''+'') \<or>
                                   control = copy_text 16 (name @ ''-'')) axis_names of
             None \<Rightarrow> None
           | Some i \<Rightarrow> Some (if control = copy_text 16 (axis_names ! i @ ''+'') then PadAxisPos
                             else PadAxisNeg, int i)))"

definition hat_names :: "(string \<times> u8) list" where
  "hat_names = [(''UP'', SDL_HAT_UP), (''RIGHT'', SDL_HAT_RIGHT), (''DOWN'', SDL_HAT_DOWN),
                (''LEFT'', SDL_HAT_LEFT)]"

definition stick_button_from_name :: "string \<Rightarrow> (control_kind \<times> int) option" where
  "stick_button_from_name control =
     (case parse_nonnegative_int (drop 1 control) of
        None \<Rightarrow> None
      | Some b \<Rightarrow> if b < MAX_JOYSTICK_BUTTONS then Some (StickButton, b) else None)"

definition stick_axis_from_name :: "string \<Rightarrow> (control_kind \<times> int) option" where
  "stick_axis_from_name control =
     (let n = length control
      in if 3 \<le> n \<and> (last control = CHR ''+'' \<or> last control = CHR ''-'') \<and> n - 2 < 16
         then (case parse_nonnegative_int (slice 1 (n - 2) control) of
                 None \<Rightarrow> None
               | Some a \<Rightarrow> if a < MAX_JOYSTICK_AXES
                           then Some (if last control = CHR ''+'' then StickAxisPos else StickAxisNeg, a)
                           else None)
         else None)"

definition stick_hat_from_name :: "string \<Rightarrow> (control_kind \<times> int) option" where
  "stick_hat_from_name control =
     (case find_index (\<lambda>(name, d). length name < length control \<and> ends_with name control) hat_names of
        None \<Rightarrow> None
      | Some i \<Rightarrow>
          let number_length = length control - length (fst (hat_names ! i)) - 1
          in if 0 < number_length \<and> number_length < 16
             then (case parse_nonnegative_int (slice 1 number_length control) of
                     None \<Rightarrow> None
                   | Some h \<Rightarrow> if h < MAX_JOYSTICK_HATS
                               then Some (StickHat, h * 4 + hat_direction_index (snd (hat_names ! i)))
                               else None)
             else None)"

definition stick_control_from_name :: "string \<Rightarrow> (control_kind \<times> int) option" where
  "stick_control_from_name control =
     (if starts_with ''B'' control then stick_button_from_name control
      else if starts_with ''A'' control then stick_axis_from_name control
      else if starts_with ''H'' control then stick_hat_from_name control
      else None)"

definition scoped_key_from_name :: "devices \<Rightarrow> string \<Rightarrow> devices \<times> int" where
  "scoped_key_from_name s token =
     (let pad = starts_with ''PAD@'' token; stick = starts_with ''JOY@'' token; body = drop 4 token
      in if \<not> pad \<and> \<not> stick then (s, SDLK_UNKNOWN)
         else case str_chr (CHR '':'') body of
                None \<Rightarrow> (s, SDLK_UNKNOWN)
              | Some k \<Rightarrow>
                  if k = 0 \<or> k + 1 = length body \<or> DEVICE_ID_MAX \<le> k then (s, SDLK_UNKNOWN)
                  else case binding_device_slot s (take k body) True of
                         (s', slot) \<Rightarrow>
                           if slot < 0 then (s', SDLK_UNKNOWN)
                           else let control = drop (k + 1) body
                                in case (if pad then pad_control_from_name control
                                         else stick_control_from_name control) of
                                     None \<Rightarrow> (s', SDLK_UNKNOWN)
                                   | Some (kind, n) \<Rightarrow> (s', scoped_code slot kind n))"

definition unscoped_pad_from_name :: "string \<Rightarrow> int option" where
  "unscoped_pad_from_name token =
     (case find_index (\<lambda>name. token = name) controller_button_names of
        Some i \<Rightarrow> Some (code_from_controller_button (int i))
      | None \<Rightarrow>
          (case find_index (\<lambda>name. Some token = format_prefixed_suffixed_name 32 ''PAD_'' name ''_POS'' \<or>
                                   Some token = format_prefixed_suffixed_name 32 ''PAD_'' name ''_NEG'')
                  axis_names of
             None \<Rightarrow> None
           | Some i \<Rightarrow>
               Some (code_from_controller_axis (int i)
                 (if Some token = format_prefixed_suffixed_name 32 ''PAD_'' (axis_names ! i) ''_POS''
                  then 1 else - 1))))"

definition joy_button_from_name :: "string \<Rightarrow> int option" where
  "joy_button_from_name token =
     (if starts_with ''JOY_BUTTON_'' token
      then map_option code_from_joystick_button (parse_nonnegative_int (drop 11 token))
      else None)"

definition joy_axis_from_name :: "string \<Rightarrow> int option" where
  "joy_axis_from_name token =
     (if starts_with ''JOY_AXIS_'' token
      then let body = drop 9 token; pos = str_str ''_POS'' body;
               suffix = (case pos of None \<Rightarrow> str_str ''_NEG'' body | Some k \<Rightarrow> Some k);
               direction = (if pos = None then - 1 else 1)
           in case suffix of
                None \<Rightarrow> None
              | Some k \<Rightarrow>
                  if k + 4 = length body \<and> 0 < k \<and> k < 16
                  then map_option (\<lambda>a. code_from_joystick_axis a direction)
                         (parse_nonnegative_int (take k body))
                  else None
      else None)"

definition joy_hat_from_name :: "string \<Rightarrow> int option" where
  "joy_hat_from_name token =
     (if starts_with ''JOY_HAT_'' token
      then let body = drop 8 token
           in case str_chr (CHR ''_'') body of
                None \<Rightarrow> None
              | Some k \<Rightarrow>
                  if 0 < k \<and> k < 16
                  then let d = (case map_of hat_names (drop (k + 1) body) of
                                  None \<Rightarrow> SDL_HAT_CENTERED | Some d \<Rightarrow> d)
                       in case parse_nonnegative_int (take k body) of
                            None \<Rightarrow> None
                          | Some h \<Rightarrow> if d \<noteq> SDL_HAT_CENTERED then Some (code_from_joystick_hat h d)
                                      else None
                  else None
      else None)"

text \<open>SDL's names of ordinary keys are the parameters \<open>sdl_key\<close> and \<open>sdl_name\<close>.\<close>

definition special_keys :: "(string \<times> int) list" where
  "special_keys = [(''RSHIFT'', 0x400000E5), (''RIGHTSHIFT'', 0x400000E5), (''RETURN'', 13),
     (''ENTER'', 13), (''UP'', 0x40000052), (''DOWN'', 0x40000051), (''LEFT'', 0x40000050),
     (''RIGHT'', 0x4000004F)]"

definition first_some :: "'a option list \<Rightarrow> 'a option" where
  "first_some xs = foldr (\<lambda>x rest. case x of None \<Rightarrow> rest | Some _ \<Rightarrow> x) xs None"

definition key_from_name :: "(string \<Rightarrow> int) \<Rightarrow> devices \<Rightarrow> string \<Rightarrow> devices \<times> int" where
  "key_from_name sdl_key s token =
     (case scoped_key_from_name s token of
        (s', scoped) \<Rightarrow>
          if scoped \<noteq> SDLK_UNKNOWN then (s', scoped)
          else (s', case first_some [unscoped_pad_from_name token, joy_button_from_name token,
                        joy_axis_from_name token, joy_hat_from_name token,
                        map_of special_keys token] of
                      Some code \<Rightarrow> code
                    | None \<Rightarrow> sdl_key token))"

definition NAME_MAX :: nat where "NAME_MAX = 96"

definition hat_text :: "u8 \<Rightarrow> string" where
  "hat_text d = (if d = SDL_HAT_UP then ''UP'' else if d = SDL_HAT_RIGHT then ''RIGHT''
                 else if d = SDL_HAT_DOWN then ''DOWN'' else ''LEFT'')"

definition scoped_key_name :: "string \<Rightarrow> control_kind \<Rightarrow> int \<Rightarrow> string" where
  "scoped_key_name ident kind control = copy_text NAME_MAX
     (case kind of
        PadButton \<Rightarrow> ''PAD@'' @ ident @ '':'' @
          (case controller_button_name control of Some name \<Rightarrow> drop 4 name | None \<Rightarrow> ''UNKNOWN'')
      | PadAxisPos \<Rightarrow> ''PAD@'' @ ident @ '':'' @
          (case controller_axis_name control of Some name \<Rightarrow> name | None \<Rightarrow> ''AXIS'') @ ''+''
      | PadAxisNeg \<Rightarrow> ''PAD@'' @ ident @ '':'' @
          (case controller_axis_name control of Some name \<Rightarrow> name | None \<Rightarrow> ''AXIS'') @ ''-''
      | StickButton \<Rightarrow> ''JOY@'' @ ident @ '':B'' @ dec_int control
      | StickAxisPos \<Rightarrow> ''JOY@'' @ ident @ '':A'' @ dec_int control @ ''+''
      | StickAxisNeg \<Rightarrow> ''JOY@'' @ ident @ '':A'' @ dec_int control @ ''-''
      | StickHat \<Rightarrow> ''JOY@'' @ ident @ '':H'' @ dec_int (control div 4) @
          hat_text (hat_direction_from_index (control mod 4)))"

definition key_name :: "(int \<Rightarrow> string) \<Rightarrow> devices \<Rightarrow> int \<Rightarrow> string" where
  "key_name sdl_name s key =
     (case scoped_decode s key of
        Some (slot, kind, control) \<Rightarrow> scoped_key_name (the (binding_devices s ! slot)) kind control
      | None \<Rightarrow>
        (case controller_code_to_button key of
           Some b \<Rightarrow> the (controller_button_name b)
         | None \<Rightarrow>
        (case controller_code_to_axis key of
           Some (a, d) \<Rightarrow> (case format_prefixed_suffixed_name NAME_MAX ''PAD_''
                              (the (controller_axis_name a)) (if 0 < d then ''_POS'' else ''_NEG'') of
                            None \<Rightarrow> [] | Some t \<Rightarrow> t)
         | None \<Rightarrow>
        (case joystick_code_to_button key of
           Some b \<Rightarrow> copy_text NAME_MAX (''JOY_BUTTON_'' @ dec_int b)
         | None \<Rightarrow>
        (case joystick_code_to_axis key of
           Some (a, d) \<Rightarrow> copy_text NAME_MAX (''JOY_AXIS_'' @ dec_int a @ ''_'' @
                            (if 0 < d then ''POS'' else ''NEG''))
         | None \<Rightarrow>
        (case joystick_code_to_hat key of
           Some (h, d) \<Rightarrow> copy_text NAME_MAX (''JOY_HAT_'' @ dec_int h @ ''_'' @ hat_text d)
         | None \<Rightarrow>
            if key = 0x400000E5 then ''RSHIFT'' else if key = 13 then ''RETURN''
            else sdl_name key))))))"

section \<open>Whole configurations\<close>

text \<open>\<open>strtok_r\<close> with one delimiter skips empty tokens.\<close>

fun split_tokens :: "char \<Rightarrow> string \<Rightarrow> string \<Rightarrow> string list" where
  "split_tokens sep acc [] = (if acc = [] then [] else [acc])"
| "split_tokens sep acc (c # cs) =
     (if c = sep then (if acc = [] then [] else [acc]) @ split_tokens sep [] cs
      else split_tokens sep (acc @ [c]) cs)"

fun parse_keys :: "(string \<Rightarrow> int) \<Rightarrow> devices \<Rightarrow> nat \<Rightarrow> string list \<Rightarrow> devices \<times> int list option" where
  "parse_keys sdl_key s count [] = (s, Some [])"
| "parse_keys sdl_key s count (t # ts) =
     (if 8 \<le> count then (s, None)
      else case key_from_name sdl_key s (dropWhile (\<lambda>c. c = CHR '' '') t) of
             (s', key) \<Rightarrow>
               if key = SDLK_UNKNOWN then (s', None)
               else case parse_keys sdl_key s' (count + 1) ts of
                      (s'', keys) \<Rightarrow> (s'', map_option ((#) key) keys))"

definition config_of_keys :: "int list \<Rightarrow> key_config" where
  "config_of_keys ks = \<lparr>kc_right = ks ! 0, kc_left = ks ! 1, kc_up = ks ! 2, kc_down = ks ! 3,
     kc_a = ks ! 4, kc_b = ks ! 5, kc_select = ks ! 6, kc_start = ks ! 7\<rparr>"

definition key_config_parse ::
  "(string \<Rightarrow> int) \<Rightarrow> devices \<Rightarrow> key_config \<Rightarrow> string \<Rightarrow> devices \<times> key_config \<times> bool" where
  "key_config_parse sdl_key s c spec =
     (if 1536 \<le> length spec then (s, c, False)
      else case parse_keys sdl_key s 0 (split_tokens (CHR '','') [] spec) of
             (s', None) \<Rightarrow> (s', c, False)
           | (s', Some keys) \<Rightarrow>
               if length keys \<noteq> 8 then (s', c, False) else (s', config_of_keys keys, True))"

fun join_with :: "char \<Rightarrow> string list \<Rightarrow> string" where
  "join_with sep [] = []"
| "join_with sep [x] = x"
| "join_with sep (x # y # ys) = x @ sep # join_with sep (y # ys)"

definition key_config_describe :: "(int \<Rightarrow> string) \<Rightarrow> devices \<Rightarrow> key_config \<Rightarrow> nat \<Rightarrow> string" where
  "key_config_describe sdl_name s c out_size = copy_text out_size
     (join_with (CHR '','') (map (\<lambda>(key, _). copy_text NAME_MAX (key_name sdl_name s key))
        (config_bindings c)))"

section \<open>Polling and the N64 configuration\<close>

text \<open>What SDL answers when asked for the current state of a device of the registry.\<close>

datatype pad_bind = BoundButton int | BoundAxis int | BoundHat int int | Unbound

record sdl_poll =
  poll_scancode :: "int \<Rightarrow> int"
  poll_keyboard :: "int \<Rightarrow> bool"
  poll_pad_button :: "nat \<Rightarrow> int \<Rightarrow> bool"
  poll_pad_axis :: "nat \<Rightarrow> int \<Rightarrow> int"
  poll_joy_button :: "nat \<Rightarrow> int \<Rightarrow> bool"
  poll_joy_axis :: "nat \<Rightarrow> int \<Rightarrow> int"
  poll_joy_hat :: "nat \<Rightarrow> int \<Rightarrow> u8"
  poll_devices :: "int list"
  poll_button_bind :: "nat \<Rightarrow> int \<Rightarrow> pad_bind"
  poll_axis_bind :: "nat \<Rightarrow> int \<Rightarrow> pad_bind"

definition SDL_NUM_SCANCODES :: int where "SDL_NUM_SCANCODES = 512"

definition current_device_index :: "sdl_poll \<Rightarrow> int \<Rightarrow> int" where
  "current_device_index poll instance =
     (case find_index (\<lambda>d. d = instance) (poll_devices poll) of None \<Rightarrow> - 1 | Some i \<Rightarrow> int i)"

definition device_for_binding :: "devices \<Rightarrow> nat option \<Rightarrow> bool \<Rightarrow> nat option" where
  "device_for_binding s slot controller_required =
     (case slot of
        Some k \<Rightarrow>
          (case open_device_for_stable_id s (the (binding_devices s ! k)) of
             None \<Rightarrow> None
           | Some i \<Rightarrow> if \<not> controller_required \<or> od_controller (open_devices s ! i) then Some i else None)
      | None \<Rightarrow> find_index (\<lambda>d. od_joystick d \<and> (\<not> controller_required \<or> od_controller d)) (open_devices s))"

text \<open>The control a code stands for, scoped or not; None when it is none.\<close>

definition unscoped_control :: "int \<Rightarrow> (control_kind \<times> int) option" where
  "unscoped_control binding =
     (case controller_code_to_button binding of Some b \<Rightarrow> Some (PadButton, b)
      | None \<Rightarrow>
     (case controller_code_to_axis binding of
        Some (a, d) \<Rightarrow> Some (if 0 < d then PadAxisPos else PadAxisNeg, a)
      | None \<Rightarrow>
     (case joystick_code_to_button binding of Some b \<Rightarrow> Some (StickButton, b)
      | None \<Rightarrow>
     (case joystick_code_to_axis binding of
        Some (a, d) \<Rightarrow> Some (if 0 < d then StickAxisPos else StickAxisNeg, a)
      | None \<Rightarrow>
     (case joystick_code_to_hat binding of
        Some (h, d) \<Rightarrow> Some (StickHat, h * 4 + hat_direction_index d)
      | None \<Rightarrow> None)))))"

definition binding_control :: "devices \<Rightarrow> int \<Rightarrow> nat option \<times> (control_kind \<times> int) option" where
  "binding_control s binding =
     (case scoped_decode s binding of
        Some (slot, kind, control) \<Rightarrow> (Some slot, Some (kind, control))
      | None \<Rightarrow> (None, unscoped_control binding))"

definition needs_controller :: "control_kind \<Rightarrow> bool" where
  "needs_controller kind \<longleftrightarrow> kind = PadButton \<or> kind = PadAxisPos \<or> kind = PadAxisNeg"

definition binding_pressed :: "sdl_poll \<Rightarrow> devices \<Rightarrow> int \<Rightarrow> bool" where
  "binding_pressed poll s binding =
     (if \<not> is_controller_code s binding
      then let sc = poll_scancode poll binding
           in 0 < sc \<and> sc < SDL_NUM_SCANCODES \<and> poll_keyboard poll sc
      else case binding_control s binding of
             (slot, None) \<Rightarrow> False
           | (slot, Some (kind, control)) \<Rightarrow>
               (case device_for_binding s slot (needs_controller kind) of
                  None \<Rightarrow> False
                | Some i \<Rightarrow>
                    (case kind of
                       PadButton \<Rightarrow> poll_pad_button poll i control
                     | PadAxisPos \<Rightarrow> axis_pressed True (poll_pad_axis poll i control)
                     | PadAxisNeg \<Rightarrow> axis_pressed False (poll_pad_axis poll i control)
                     | StickButton \<Rightarrow> poll_joy_button poll i control
                     | StickAxisPos \<Rightarrow> axis_pressed True (poll_joy_axis poll i control)
                     | StickAxisNeg \<Rightarrow> axis_pressed False (poll_joy_axis poll i control)
                     | StickHat \<Rightarrow> poll_joy_hat poll i (control div 4) AND
                                   hat_direction_from_index (control mod 4) \<noteq> 0)))"

text \<open>For the N64 runtime: device index, kind (1 key, 2 button, 3 axis, 4 hat), index, direction.\<close>

definition controller_bind_to_n64 :: "pad_bind \<Rightarrow> bool \<Rightarrow> int \<Rightarrow> (int \<times> int \<times> int) option" where
  "controller_bind_to_n64 bind is_axis configured_direction =
     (case bind of
        BoundButton b \<Rightarrow> Some (2, b, 0)
      | BoundAxis a \<Rightarrow> Some (3, a, if is_axis then configured_direction else 1)
      | BoundHat h hm \<Rightarrow> Some (4, h, hm)
      | Unbound \<Rightarrow> None)"

definition binding_to_n64 :: "sdl_poll \<Rightarrow> devices \<Rightarrow> int \<Rightarrow> (int \<times> int \<times> int \<times> int) option" where
  "binding_to_n64 poll s binding =
     (if \<not> is_controller_code s binding
      then let sc = poll_scancode poll binding in if sc \<le> 0 then None else Some (- 1, 1, sc, 0)
      else case binding_control s binding of
             (slot, None) \<Rightarrow> None
           | (slot, Some (kind, control)) \<Rightarrow>
               (case device_for_binding s slot (needs_controller kind) of
                  None \<Rightarrow> None
                | Some i \<Rightarrow>
                    let dev = current_device_index poll (od_instance (open_devices s ! i))
                    in if dev < 0 then None
                       else map_option (\<lambda>r. (dev, r))
                         (case kind of
                            PadButton \<Rightarrow> controller_bind_to_n64 (poll_button_bind poll i control) False 0
                          | PadAxisPos \<Rightarrow> controller_bind_to_n64 (poll_axis_bind poll i control) True 1
                          | PadAxisNeg \<Rightarrow> controller_bind_to_n64 (poll_axis_bind poll i control) True (- 1)
                          | StickButton \<Rightarrow> Some (2, control, 0)
                          | StickAxisPos \<Rightarrow> Some (3, control, 1)
                          | StickAxisNeg \<Rightarrow> Some (3, control, - 1)
                          | StickHat \<Rightarrow> Some (4, control div 4,
                                              uint (hat_direction_from_index (control mod 4))))))"

section \<open>A captured control is recognised\<close>

lemma pack_div_mod: "0 \<le> r \<Longrightarrow> r < b \<Longrightarrow> (a * b + r) div b = a \<and> (a * b + r) mod b = (r :: int)"
  by (simp add: int_div_pos_eq int_mod_pos_eq)

lemma kind_of_kind_number [simp]: "kind_of_number (kind_number k) = Some k"
  by (cases k) (simp_all add: kind_number_def kind_of_number_def)

lemma kind_number_range: "1 \<le> kind_number k" "kind_number k \<le> 7"
  by (cases k; simp add: kind_number_def)+

lemma scoped_decode_code [codec]:
  assumes "slot < MAX_BINDING_DEVICES" "binding_devices s ! slot \<noteq> None" "0 \<le> control" "control < 1000"
  shows "scoped_code (int slot) kind control \<noteq> SDLK_UNKNOWN"
    and "scoped_decode s (scoped_code (int slot) kind control) = Some (slot, kind, control)"
proof -
  let ?r = "kind_number kind * 1000 + control"
  note k = kind_number_range [of kind]
  have code: "scoped_code (int slot) kind control =
      SCOPED_BINDING_BASE - (int slot * SCOPED_BINDING_STRIDE + ?r)"
    using assms by (simp add: scoped_code_def)
  then show "scoped_code (int slot) kind control \<noteq> SDLK_UNKNOWN"
    using assms(3) k by (simp add: code_consts)
  have r: "0 \<le> ?r" "?r < SCOPED_BINDING_STRIDE"
    using assms(3,4) k by (simp_all add: code_consts)
  have "int slot \<le> 63" using assms(1) by (simp add: MAX_BINDING_DEVICES_def)
  then have "\<not> SCOPED_BINDING_BASE < scoped_code (int slot) kind control"
    "\<not> scoped_code (int slot) kind control \<le>
       SCOPED_BINDING_BASE - int MAX_BINDING_DEVICES * SCOPED_BINDING_STRIDE"
    unfolding code using r by (simp_all add: code_consts MAX_BINDING_DEVICES_def)
  moreover have "(int slot * SCOPED_BINDING_STRIDE + ?r) div SCOPED_BINDING_STRIDE = int slot"
    "(int slot * SCOPED_BINDING_STRIDE + ?r) mod SCOPED_BINDING_STRIDE = ?r"
    using pack_div_mod [OF r] by simp_all
  moreover have "?r div 1000 = kind_number kind" "?r mod 1000 = control"
    using pack_div_mod [OF assms(3,4)] by simp_all
  ultimately show "scoped_decode s (scoped_code (int slot) kind control) = Some (slot, kind, control)"
    using assms(1,2) by (simp add: scoped_decode_def code Let_def)
qed

text \<open>The tables a session builds: full-length, with identities that fit their fields.\<close>

definition registry_ok :: "devices \<Rightarrow> bool" where
  "registry_ok s \<longleftrightarrow> length (binding_devices s) = MAX_BINDING_DEVICES \<and>
     list_all (\<lambda>d. length (od_stable_id d) < DEVICE_ID_MAX) (open_devices s)"

lemma binding_device_slot_created:
  assumes "registry_ok s" "length ident < DEVICE_ID_MAX"
    "binding_device_slot s ident True = (s', slot)" "0 \<le> slot"
  shows "nat slot < MAX_BINDING_DEVICES" "binding_devices s' ! nat slot = Some ident"
    "open_devices s' = open_devices s"
  using assms find_index_Some [of "\<lambda>b. b = Some ident" "binding_devices s"]
    find_index_Some [of "\<lambda>b. b = None" "binding_devices s"]
  by (auto simp: binding_device_slot_def registry_ok_def split: option.splits if_splits)

lemma scoped_code_negative: "slot < 0 \<Longrightarrow> scoped_code slot kind control = SDLK_UNKNOWN"
  by (simp add: scoped_code_def)

lemma scoped_event_code_known:
  assumes "registry_ok s" "scoped_event_code s which kind control = (s', code)"
    "code \<noteq> SDLK_UNKNOWN" "0 \<le> control"
  shows "\<exists>slot. scoped_decode s' code = Some (slot, kind, control) \<and>
    event_matches_scoped_device s' slot which"
proof -
  obtain i where i: "open_device_for_instance s which = Some i"
    using assms(2,3) by (auto simp: scoped_event_code_def split: option.splits)
  let ?id = "od_stable_id (open_devices s ! i)"
  obtain slot where slot: "binding_device_slot s ?id True = (s', slot)"
    "code = scoped_code slot kind control"
    using assms(2) i by (auto simp: scoped_event_code_def split: prod.splits)
  have range: "0 \<le> slot" "control < 1000"
    using slot(2) assms(3) by (auto simp: scoped_code_def split: if_splits)
  have "i < length (open_devices s)"
    using find_index_Some [OF i [unfolded open_device_for_instance_def]] by simp
  then have "length ?id < DEVICE_ID_MAX" using assms(1) by (simp add: registry_ok_def list_all_length)
  note made = binding_device_slot_created [OF assms(1) this slot(1) range(1)]
  have "scoped_decode s' code = Some (nat slot, kind, control)"
    using scoped_decode_code [OF made(1), of s' control kind] made(2) assms(4) range slot(2) by simp
  moreover have "event_matches_scoped_device s' (nat slot) which"
    using i made by (simp add: event_matches_scoped_device_def open_device_for_instance_def)
  ultimately show ?thesis by blast
qed

lemma hat_index_cases:
  "hat_direction_index SDL_HAT_UP = 0" "hat_direction_index SDL_HAT_RIGHT = 1"
  "hat_direction_index SDL_HAT_DOWN = 2" "hat_direction_index SDL_HAT_LEFT = 3"
  by (simp_all add: hat_direction_index_def sdl_hats)

lemma hat_from_index_cases:
  "hat_direction_from_index 0 = SDL_HAT_UP" "hat_direction_from_index 1 = SDL_HAT_RIGHT"
  "hat_direction_from_index 2 = SDL_HAT_DOWN" "hat_direction_from_index 3 = SDL_HAT_LEFT"
  by (simp_all add: hat_direction_from_index_def)

lemma hat_bits_table:
  "list_all (\<lambda>n. n = 0 \<or> (of_nat n :: u8) AND 1 \<noteq> 0 \<or> (of_nat n :: u8) AND 2 \<noteq> 0 \<or>
     (of_nat n :: u8) AND 4 \<noteq> 0 \<or> (of_nat n :: u8) AND 8 \<noteq> 0) [0..<16]"
  by code_simp

lemma some_hat_bit:
  assumes "p \<noteq> (0 :: u8)" "p < 16" "p AND 1 = 0" "p AND 2 = 0" "p AND 4 = 0"
  shows "p AND 8 \<noteq> 0"
proof -
  have "unat p < 16" using assms(2) by (simp add: word_less_nat_alt)
  then have "unat p \<in> set [0..<16]" by simp
  from hat_bits_table [unfolded list_all_iff, rule_format, OF this]
  show ?thesis using assms by (simp add: unat_eq_0)
qed

text \<open>Key presses carry SDL key codes, which are positive; hats report a mask of four bits.\<close>

definition event_sane :: "sdl_event \<Rightarrow> bool" where
  "event_sane e \<longleftrightarrow> (case e of KeyDown ks sc rep \<Rightarrow> 0 \<le> ks | JoyHat w h p \<Rightarrow> p < 16 | _ \<Rightarrow> True)"

definition at_threshold :: "sdl_event \<Rightarrow> bool" where
  "at_threshold e \<longleftrightarrow> (case e of JoyAxis w a v \<Rightarrow> \<bar>v\<bar> = AXIS_THRESHOLD | _ \<Rightarrow> False)"

lemma plain_key_no_controller: "0 \<le> key \<Longrightarrow> \<not> is_controller_code s key"
  by (simp add: is_controller_code_def in_block_def scoped_decode_def code_consts MAX_BINDING_DEVICES_def)

lemma hat_code_split:
  fixes hat :: int assumes "0 \<le> k" "k < 4"
  shows "(hat * 4 + k) div 4 = hat" "(hat * 4 + k) mod 4 = k"
  using pack_div_mod [OF assms, of hat] by simp_all

lemma scoped_captured:
  assumes "registry_ok s" "scoped_event_code s which kind control = (s', code)"
    "code \<noteq> SDLK_UNKNOWN" "0 \<le> control" "event_sane e"
    "case e of KeyDown _ _ _ \<Rightarrow> False | KeyUp _ _ _ \<Rightarrow> False | _ \<Rightarrow> True"
  shows "\<exists>slot. binding_matches_event s' code (Some e) = scoped_match s' slot kind control e \<and>
    event_matches_scoped_device s' slot which"
  using scoped_event_code_known [OF assms(1-4)] assms(6)
  by (auto simp: binding_matches_event_def split: sdl_event.splits)

lemma captured_hat_direction:
  assumes "p \<noteq> SDL_HAT_CENTERED" "p < 16"
  defines "d \<equiv> (if p AND SDL_HAT_UP \<noteq> 0 then SDL_HAT_UP else if p AND SDL_HAT_RIGHT \<noteq> 0 then SDL_HAT_RIGHT
                else if p AND SDL_HAT_DOWN \<noteq> 0 then SDL_HAT_DOWN else SDL_HAT_LEFT)"
  shows "p AND d \<noteq> 0" "0 \<le> hat_direction_index d" "hat_direction_index d < 4"
    "hat_direction_from_index (hat_direction_index d) = d"
  using assms some_hat_bit [of p]
  by (auto simp: hat_index_cases hat_from_index_cases sdl_hats hat_direction_index_def
           hat_direction_from_index_def)

text \<open>A control captured for a binding is recognised: the event it was captured from matches the
  new binding on the device it came from, and counts as pressed, unless it is an axis at exactly
  16000, which capturing accepts and matching does not count as pressed.\<close>

theorem captured_binding_matches:
  assumes "registry_ok s" "event_sane e" "code_from_event s e = (s', code)" "code \<noteq> SDLK_UNKNOWN"
  shows "binding_matches_event s' code (Some e) = Some (\<not> at_threshold e)"
proof (cases e)
  case (KeyDown ks sc rep)
  then have "\<not> rep" "code = ks" "0 \<le> ks"
    using assms(2-4) by (auto simp: code_from_event_def event_sane_def split: if_splits)
  then show ?thesis
    using KeyDown plain_key_no_controller [of ks s']
    by (simp add: binding_matches_event_def match_when_def at_threshold_def)
next
  case (JoyButtonDown w b)
  then have "scoped_event_code s w StickButton (uint b) = (s', code)"
    using assms(3) by (simp add: code_from_event_def)
  from scoped_captured [OF assms(1) this assms(4) _ assms(2)] show ?thesis
    by (auto simp: JoyButtonDown scoped_match_def match_when_def at_threshold_def)
next
  case (JoyAxis w a v)
  then have v: "AXIS_THRESHOLD \<le> \<bar>v\<bar>"
    and "scoped_event_code s w (if 0 < v then StickAxisPos else StickAxisNeg) (uint a) = (s', code)"
    using assms(3,4) by (auto simp: code_from_event_def split: if_splits)
  from scoped_captured [OF assms(1) this(2) assms(4) _ assms(2)] v show ?thesis
    by (auto simp: JoyAxis scoped_match_def match_when_def at_threshold_def axis_pressed_def code_consts)
next
  case (JoyHat w h p)
  define d where "d = (if p AND SDL_HAT_UP \<noteq> 0 then SDL_HAT_UP else if p AND SDL_HAT_RIGHT \<noteq> 0 then SDL_HAT_RIGHT
                else if p AND SDL_HAT_DOWN \<noteq> 0 then SDL_HAT_DOWN else SDL_HAT_LEFT)"
  have p: "p \<noteq> SDL_HAT_CENTERED"
    and run: "scoped_event_code s w StickHat (uint h * 4 + hat_direction_index d) = (s', code)"
    using assms(3,4) JoyHat by (auto simp: code_from_event_def d_def split: if_splits)
  have "p < 16" using assms(2) JoyHat by (simp add: event_sane_def)
  note dir = captured_hat_direction [OF p this, folded d_def]
  from scoped_captured [OF assms(1) run assms(4) _ assms(2)] dir show ?thesis
    using hat_code_split [OF dir(2,3), of "uint h"]
    by (auto simp: JoyHat scoped_match_def match_when_def at_threshold_def)
qed (use assms(3,4) in \<open>auto simp: code_from_event_def\<close>)

definition pad_registry :: devices where
  "pad_registry = \<lparr>open_devices = [\<lparr>od_controller = True, od_joystick = True, od_instance = 4,
        od_index = 0, od_fingerprint = 1, od_ordinal = 0, od_stable_id = ''1-0''\<rparr>],
      binding_devices = Some ''1-0'' # replicate 63 None\<rparr>"

theorem captured_binding_matches_witness:
  "binding_matches_event pad_registry (scoped_code 0 StickAxisNeg 2) (Some (JoyAxis 4 2 (- 16000))) =
   Some (\<not> at_threshold (JoyAxis 4 2 (- 16000)))"
  by (rule captured_binding_matches [where s = pad_registry])
     (simp_all add: pad_registry_def registry_ok_def DEVICE_ID_MAX_def event_sane_def code_from_event_def
        code_consts scoped_event_code_def open_device_for_instance_def binding_device_slot_def
        MAX_BINDING_DEVICES_def scoped_code_def kind_number_def)

section \<open>Names survive storage\<close>

text \<open>The binding table holds distinct identities that a name can carry.\<close>

definition names_ok :: "devices \<Rightarrow> bool" where
  "names_ok s \<longleftrightarrow> length (binding_devices s) = MAX_BINDING_DEVICES \<and>
     (\<forall>i < MAX_BINDING_DEVICES. \<forall>ident. binding_devices s ! i = Some ident \<longrightarrow>
        ident \<noteq> [] \<and> length ident < DEVICE_ID_MAX \<and> CHR '':'' \<notin> set ident \<and>
        find_index (\<lambda>b. b = Some ident) (binding_devices s) = Some i)"

text \<open>Controls that have a name of their own.\<close>

definition control_nameable :: "control_kind \<Rightarrow> int \<Rightarrow> bool" where
  "control_nameable kind control \<longleftrightarrow> 0 \<le> control \<and> control <
     (case kind of PadButton \<Rightarrow> 15 | PadAxisPos \<Rightarrow> 6 | PadAxisNeg \<Rightarrow> 6 | StickButton \<Rightarrow> 128
        | StickAxisPos \<Rightarrow> 32 | StickAxisNeg \<Rightarrow> 32 | StickHat \<Rightarrow> 64)"

lemma parse_nonnegative_dec [codec]:
  "0 \<le> v \<Longrightarrow> v \<le> 100000 \<Longrightarrow> parse_nonnegative_int (dec_int v) = Some v"
  using strtol_dec_int [of "[]" v] by (simp add: parse_nonnegative_int_def)

lemma pad_button_table:
  "list_all (\<lambda>i. pad_control_from_name (drop 4 (controller_button_names ! i)) = Some (PadButton, int i))
     [0..<15]"
  by code_simp

lemma pad_axis_table:
  "list_all (\<lambda>i. pad_control_from_name (axis_names ! i @ ''+'') = Some (PadAxisPos, int i) \<and>
                 pad_control_from_name (axis_names ! i @ ''-'') = Some (PadAxisNeg, int i)) [0..<6]"
  by code_simp

lemma starts_with_append [simp]: "starts_with prefix (prefix @ s)"
  by (simp add: starts_with_def)

lemma ends_with_rev: "ends_with suffix s \<longleftrightarrow> take (length suffix) (rev s) = rev suffix"
  by (simp add: ends_with_def take_rev) (metis diff_diff_cancel length_drop length_rev rev_rev_ident
        drop_eq_Nil le_cases length_greater_0_conv nat_le_linear drop0 diff_is_0_eq')

lemma dec_int_pos: "0 \<le> v \<Longrightarrow> dec_int v = dec (nat v)"
  by (simp add: dec_int_def)

lemma find_index_digits:
  "\<forall>x \<in> set ds. \<not> P x \<Longrightarrow> P c \<Longrightarrow> find_index P (ds @ c # rest) = Some (length ds)"
  by (induction ds) auto

lemma stick_button_name [codec]:
  "0 \<le> b \<Longrightarrow> b < 128 \<Longrightarrow> stick_control_from_name (CHR ''B'' # dec_int b) = Some (StickButton, b)"
  by (simp add: stick_control_from_name_def starts_with_def stick_button_from_name_def
        parse_nonnegative_dec MAX_JOYSTICK_BUTTONS_def)

lemma stick_axis_name [codec]:
  assumes "0 \<le> a" "a < 32"
  shows "stick_control_from_name (CHR ''A'' # dec_int a @ ''+'') = Some (StickAxisPos, a)"
    and "stick_control_from_name (CHR ''A'' # dec_int a @ ''-'') = Some (StickAxisNeg, a)"
proof -
  have len: "length (dec_int a) \<le> 2" "0 < length (dec_int a)"
    using length_dec_int_pos [of 2 a] assms by simp_all
  show "stick_control_from_name (CHR ''A'' # dec_int a @ ''+'') = Some (StickAxisPos, a)"
    "stick_control_from_name (CHR ''A'' # dec_int a @ ''-'') = Some (StickAxisNeg, a)"
    using len assms parse_nonnegative_dec [of a]
    by (simp_all add: stick_control_from_name_def starts_with_def stick_axis_from_name_def Let_def
          slice_def MAX_JOYSTICK_AXES_def Suc_le_eq)
qed

lemma stick_hat_name [codec]:
  assumes "0 \<le> c" "c < 64"
  shows "stick_control_from_name (CHR ''H'' # dec_int (c div 4) @ hat_text (hat_direction_from_index (c mod 4))) =
    Some (StickHat, c)"
proof -
  have h: "0 \<le> c div 4" "c div 4 < 16" using assms by auto
  have len: "length (dec_int (c div 4)) \<le> 2" "0 < length (dec_int (c div 4))"
    using length_dec_int_pos [of 2 "c div 4"] h by simp_all
  have "c mod 4 \<in> {0, 1, 2, 3}" using pos_mod_bound [of 4 c] pos_mod_sign [of 4 c] by auto
  then obtain k where k: "c mod 4 = k" "k \<in> {0, 1, 2, 3}" by auto
  have c: "c div 4 * 4 + k = c" using k(1) by (metis div_mult_mod_eq)
  have "stick_hat_from_name (CHR ''H'' # dec_int (c div 4) @ hat_text (hat_direction_from_index k)) =
      Some (StickHat, c div 4 * 4 + k)"
    using k(2) len h parse_nonnegative_dec [of "c div 4"]
    by (auto simp: stick_hat_from_name_def hat_names_def hat_from_index_cases hat_text_def sdl_hats
          ends_with_rev slice_def MAX_JOYSTICK_HATS_def hat_direction_index_def)
  then show ?thesis using c k(1) by (simp add: stick_control_from_name_def starts_with_def)
qed

lemma known_slot:
  assumes "names_ok s" "scoped_decode s code = Some (slot, kind, control)"
  obtains ident where "binding_devices s ! slot = Some ident" "ident \<noteq> []" "length ident < DEVICE_ID_MAX"
    "CHR '':'' \<notin> set ident" "binding_device_slot s ident True = (s, int slot)"
    "code = scoped_code (int slot) kind control"
proof -
  let ?p = "SCOPED_BINDING_BASE - code"
  have d: "kind_of_number (?p mod SCOPED_BINDING_STRIDE div 1000) = Some kind"
      "0 \<le> ?p div SCOPED_BINDING_STRIDE" "?p div SCOPED_BINDING_STRIDE < int MAX_BINDING_DEVICES"
      "binding_devices s ! slot \<noteq> None" "slot = nat (?p div SCOPED_BINDING_STRIDE)"
      "control = ?p mod SCOPED_BINDING_STRIDE mod 1000"
    using assms(2) unfolding scoped_decode_def Let_def
    by (simp_all only: split: if_split_asm option.split_asm) (simp_all only: not_less not_le option.inject
        prod.inject de_Morgan_disj simp_thms, blast+)
  have slot: "slot < MAX_BINDING_DEVICES" "int slot = ?p div SCOPED_BINDING_STRIDE"
    using d by (simp_all add: nat_less_iff)
  obtain ident where ident: "binding_devices s ! slot = Some ident" using d(4) by auto
  have "kind_number kind = ?p mod SCOPED_BINDING_STRIDE div 1000"
    using d(1) by (auto simp: kind_of_number_def kind_number_def split: if_splits)
  then have "kind_number kind * 1000 + control = ?p mod SCOPED_BINDING_STRIDE"
    using d(6) by simp
  moreover have "int slot * SCOPED_BINDING_STRIDE + ?p mod SCOPED_BINDING_STRIDE = ?p"
    using slot(2) by simp
  moreover have "0 \<le> control" "control < 1000" using d(6) by simp_all
  ultimately have "code = scoped_code (int slot) kind control"
    using slot(1) by (simp add: scoped_code_def)
  then show ?thesis
    using that [OF ident] assms(1) slot(1) ident
    by (simp add: names_ok_def binding_device_slot_def)
qed

text \<open>The text after the device identity, with the kind of device it names.\<close>

definition control_text :: "control_kind \<Rightarrow> int \<Rightarrow> string" where
  "control_text kind control =
     (case kind of
        PadButton \<Rightarrow> (case controller_button_name control of Some name \<Rightarrow> drop 4 name | None \<Rightarrow> ''UNKNOWN'')
      | PadAxisPos \<Rightarrow> (case controller_axis_name control of Some name \<Rightarrow> name | None \<Rightarrow> ''AXIS'') @ ''+''
      | PadAxisNeg \<Rightarrow> (case controller_axis_name control of Some name \<Rightarrow> name | None \<Rightarrow> ''AXIS'') @ ''-''
      | StickButton \<Rightarrow> CHR ''B'' # dec_int control
      | StickAxisPos \<Rightarrow> CHR ''A'' # dec_int control @ ''+''
      | StickAxisNeg \<Rightarrow> CHR ''A'' # dec_int control @ ''-''
      | StickHat \<Rightarrow> CHR ''H'' # dec_int (control div 4) @ hat_text (hat_direction_from_index (control mod 4)))"

definition device_prefix :: "control_kind \<Rightarrow> string" where
  "device_prefix kind =
     (if kind \<in> {PadButton, PadAxisPos, PadAxisNeg} then ''PAD@'' else ''JOY@'')"

lemma length_device_prefix: "length (device_prefix kind) = 4"
  by (simp add: device_prefix_def)

lemma scoped_key_name_eq:
  "scoped_key_name ident kind control =
   copy_text NAME_MAX (device_prefix kind @ ident @ CHR '':'' # control_text kind control)"
  by (cases kind) (simp_all add: scoped_key_name_def device_prefix_def control_text_def)

lemma pad_button_name_length:
  "list_all (\<lambda>n. 4 < length n \<and> length n < 20) controller_button_names"
  "list_all (\<lambda>n. length n = 2) axis_names"
  by (simp_all add: controller_button_names_def axis_names_def)

lemma pad_name_nth:
  "0 \<le> b \<Longrightarrow> b < 15 \<Longrightarrow> controller_button_name b = Some (controller_button_names ! nat b)"
  "0 \<le> a \<Longrightarrow> a < 6 \<Longrightarrow> controller_axis_name a = Some (axis_names ! nat a)"
  by (simp_all add: controller_button_name_def controller_axis_name_def axis_names_def)

lemma length_control_text:
  assumes "control_nameable kind control"
  shows "0 < length (control_text kind control)" "length (control_text kind control) \<le> 20"
proof -
  have c: "0 \<le> control" "control < 1000" using assms by (cases kind; simp add: control_nameable_def)+
  have num: "length (dec_int control) \<le> 3" "length (dec_int (control div 4)) \<le> 3"
    using length_dec_int_pos [of 3 control] length_dec_int_pos [of 3 "control div 4"] c by auto
  have names: "4 < length (controller_button_names ! i) \<and> length (controller_button_names ! i) < 20"
    if "i < 15" for i
    using pad_button_name_length(1) that by (simp add: list_all_length controller_button_names_def)
  have axes: "length (axis_names ! i) = 2" if "i < 6" for i
    using pad_button_name_length(2) that by (simp add: list_all_length axis_names_def)
  have hat: "length (hat_text d) \<le> 5" "0 < length (hat_text d)" for d by (simp_all add: hat_text_def)
  have "0 < length (control_text kind control) \<and> length (control_text kind control) \<le> 20"
  proof (cases kind)
    case PadButton
    then have "0 \<le> control" "control < 15" using assms by (simp_all add: control_nameable_def)
    then have "control_text kind control = drop 4 (controller_button_names ! nat control)"
      "nat control < 15" using PadButton by (simp_all add: control_text_def pad_name_nth)
    then show ?thesis using names [of "nat control"] by auto
  next
    case PadAxisPos
    then have "0 \<le> control" "control < 6" using assms by (simp_all add: control_nameable_def)
    then show ?thesis
      using PadAxisPos axes [of "nat control"] by (simp add: control_text_def pad_name_nth)
  next
    case PadAxisNeg
    then have "0 \<le> control" "control < 6" using assms by (simp_all add: control_nameable_def)
    then show ?thesis
      using PadAxisNeg axes [of "nat control"] by (simp add: control_text_def pad_name_nth)
  qed (use num hat [of "hat_direction_from_index (control mod 4)"] in \<open>simp_all add: control_text_def\<close>)
  then show "0 < length (control_text kind control)" "length (control_text kind control) \<le> 20"
    by simp_all
qed

lemma control_from_text [codec]:
  assumes "control_nameable kind control"
  shows "(if device_prefix kind = ''PAD@'' then pad_control_from_name (control_text kind control)
          else stick_control_from_name (control_text kind control)) = Some (kind, control)"
proof -
  have pad: "pad_control_from_name (drop 4 (controller_button_names ! nat control)) = Some (PadButton, control)"
    if "0 \<le> control" "control < 15"
    using pad_button_table that by (simp add: list_all_iff nat_less_iff)
  have axis: "pad_control_from_name (axis_names ! nat control @ ''+'') = Some (PadAxisPos, control)"
    "pad_control_from_name (axis_names ! nat control @ ''-'') = Some (PadAxisNeg, control)"
    if "0 \<le> control" "control < 6"
    using pad_axis_table that by (simp_all add: list_all_iff nat_less_iff)
  show ?thesis
    using assms pad axis stick_button_name stick_axis_name stick_hat_name
    by (cases kind) (simp_all add: control_nameable_def device_prefix_def control_text_def pad_name_nth)
qed

lemma scoped_name_roundtrip:
  assumes "names_ok s" "scoped_decode s code = Some (slot, kind, control)" "control_nameable kind control"
  shows "scoped_key_from_name s (scoped_key_name (the (binding_devices s ! slot)) kind control) = (s, code)"
proof -
  obtain ident where ident: "binding_devices s ! slot = Some ident" "ident \<noteq> []"
    "length ident < DEVICE_ID_MAX" "CHR '':'' \<notin> set ident" "binding_device_slot s ident True = (s, int slot)"
    "code = scoped_code (int slot) kind control"
    by (rule known_slot [OF assms(1,2)])
  let ?ct = "control_text kind control"
  have name: "scoped_key_name ident kind control = device_prefix kind @ ident @ CHR '':'' # ?ct"
    using length_control_text [OF assms(3)] ident(3) unfolding scoped_key_name_eq
    by (intro copy_text_short) (simp add: NAME_MAX_def DEVICE_ID_MAX_def length_device_prefix)
  have body: "drop 4 (device_prefix kind @ ident @ CHR '':'' # ?ct) = ident @ CHR '':'' # ?ct"
    by (simp add: device_prefix_def)
  have colon: "str_chr (CHR '':'') (ident @ CHR '':'' # ?ct) = Some (length ident)"
    unfolding str_chr_def by (rule find_index_digits) (use ident(4) in auto)
  have pre: "starts_with ''PAD@'' (device_prefix kind @ ident @ CHR '':'' # ?ct) = (device_prefix kind = ''PAD@'')"
    "starts_with ''PAD@'' (device_prefix kind @ ident @ CHR '':'' # ?ct) \<or>
     starts_with ''JOY@'' (device_prefix kind @ ident @ CHR '':'' # ?ct)"
    by (simp_all add: device_prefix_def starts_with_def)
  show ?thesis
    using pre body colon ident control_from_text [OF assms(3)] length_control_text(1) [OF assms(3)]
    by (auto simp: scoped_key_from_name_def name Let_def)
qed

text \<open>Unscoped controls: the name of each block of codes is read back by its own reader.\<close>

datatype plain_control = PlainButton int | PlainAxis bool int | PlainStickButton int
  | PlainStickAxis bool int | PlainStickHat int int

fun plain_code :: "plain_control \<Rightarrow> int" where
  "plain_code (PlainButton b) = CONTROLLER_BUTTON_BASE - b"
| "plain_code (PlainAxis positive a) =
     (if positive then CONTROLLER_AXIS_POS_BASE else CONTROLLER_AXIS_NEG_BASE) - a"
| "plain_code (PlainStickButton b) = JOYSTICK_BUTTON_BASE - b"
| "plain_code (PlainStickAxis positive a) =
     (if positive then JOYSTICK_AXIS_POS_BASE else JOYSTICK_AXIS_NEG_BASE) - a"
| "plain_code (PlainStickHat h k) = JOYSTICK_HAT_BASE - (h * 4 + k)"

fun plain_ok :: "plain_control \<Rightarrow> bool" where
  "plain_ok (PlainButton b) \<longleftrightarrow> 0 \<le> b \<and> b < 15"
| "plain_ok (PlainAxis positive a) \<longleftrightarrow> 0 \<le> a \<and> a < 6"
| "plain_ok (PlainStickButton b) \<longleftrightarrow> 0 \<le> b \<and> b < 128"
| "plain_ok (PlainStickAxis positive a) \<longleftrightarrow> 0 \<le> a \<and> a < 32"
| "plain_ok (PlainStickHat h k) \<longleftrightarrow> 0 \<le> h \<and> h < 16 \<and> 0 \<le> k \<and> k < 4"

fun plain_name :: "plain_control \<Rightarrow> string" where
  "plain_name (PlainButton b) = controller_button_names ! nat b"
| "plain_name (PlainAxis positive a) =
     ''PAD_'' @ axis_names ! nat a @ (if positive then ''_POS'' else ''_NEG'')"
| "plain_name (PlainStickButton b) = ''JOY_BUTTON_'' @ dec_int b"
| "plain_name (PlainStickAxis positive a) =
     ''JOY_AXIS_'' @ dec_int a @ (if positive then ''_POS'' else ''_NEG'')"
| "plain_name (PlainStickHat h k) =
     ''JOY_HAT_'' @ dec_int h @ ''_'' @ hat_text (hat_direction_from_index k)"

lemma plain_not_scoped: "plain_ok c \<Longrightarrow> scoped_decode s (plain_code c) = None"
  by (cases c) (auto simp: scoped_decode_def code_consts)

lemma plain_pad_names:
  "list_all (\<lambda>i. unscoped_pad_from_name (controller_button_names ! i) = Some (CONTROLLER_BUTTON_BASE - int i))
     [0..<15]"
  "list_all (\<lambda>i. unscoped_pad_from_name (''PAD_'' @ axis_names ! i @ ''_POS'') =
                   Some (CONTROLLER_AXIS_POS_BASE - int i) \<and>
                 unscoped_pad_from_name (''PAD_'' @ axis_names ! i @ ''_NEG'') =
                   Some (CONTROLLER_AXIS_NEG_BASE - int i)) [0..<6]"
  by code_simp+

lemma not_pad_name: "unscoped_pad_from_name (CHR ''J'' # t) = None"
  by (simp add: unscoped_pad_from_name_def controller_button_names_def axis_names_def
        format_prefixed_suffixed_name_def)

lemma starts_with_Cons [simp]:
  "starts_with (a # p) (b # s) \<longleftrightarrow> a = b \<and> starts_with p s" "starts_with [] s" "\<not> starts_with (a # p) []"
  by (auto simp: starts_with_def)

lemma plain_name_not_scoped: "plain_ok c \<Longrightarrow> scoped_key_from_name s (plain_name c) = (s, SDLK_UNKNOWN)"
proof (cases c)
  case (PlainButton b)
  assume "plain_ok c"
  then have "nat b < 15" using PlainButton by (simp add: nat_less_iff)
  moreover have "list_all (\<lambda>n. \<not> starts_with ''PAD@'' n \<and> \<not> starts_with ''JOY@'' n) controller_button_names"
    by (simp add: controller_button_names_def)
  ultimately show ?thesis
    using PlainButton by (simp add: scoped_key_from_name_def list_all_length controller_button_names_def)
qed (simp_all add: scoped_key_from_name_def)

lemma joy_button_roundtrip:
  "0 \<le> b \<Longrightarrow> b < 128 \<Longrightarrow> joy_button_from_name (''JOY_BUTTON_'' @ dec_int b) = Some (JOYSTICK_BUTTON_BASE - b)"
  by (simp add: joy_button_from_name_def parse_nonnegative_dec code_from_joystick_button_def
        MAX_JOYSTICK_BUTTONS_def)

lemma str_str_digits:
  "CHR ''_'' \<notin> set ds \<Longrightarrow>
   str_str (CHR ''_'' # p) (ds @ s) = map_option ((+) (length ds)) (str_str (CHR ''_'' # p) s)"
proof (induction ds)
  case (Cons d ds)
  then show ?case by (cases "str_str (CHR ''_'' # p) s") auto
qed (cases "str_str (CHR ''_'' # p) s", auto)

lemma dec_int_no_underscore: "0 \<le> v \<Longrightarrow> CHR ''_'' \<notin> set (dec_int v)"
  using dec_digits [of "CHR ''_''" "nat v"] by (auto simp: dec_int_pos c_isdigit_iff)

lemma joy_axis_roundtrip:
  assumes "0 \<le> a" "a < 32"
  shows "joy_axis_from_name (''JOY_AXIS_'' @ dec_int a @ (if positive then ''_POS'' else ''_NEG'')) =
    Some ((if positive then JOYSTICK_AXIS_POS_BASE else JOYSTICK_AXIS_NEG_BASE) - a)"
proof -
  have len: "length (dec_int a) \<le> 2" "0 < length (dec_int a)"
    using length_dec_int_pos [of 2 a] assms by simp_all
  show ?thesis
    using len assms parse_nonnegative_dec [of a]
    by (simp add: joy_axis_from_name_def str_str_digits dec_int_no_underscore Let_def
          code_from_joystick_axis_def MAX_JOYSTICK_AXES_def)
qed

lemma joy_hat_roundtrip:
  assumes "0 \<le> h" "h < 16" "0 \<le> k" "k < 4"
  shows "joy_hat_from_name (''JOY_HAT_'' @ dec_int h @ ''_'' @ hat_text (hat_direction_from_index k)) =
    Some (JOYSTICK_HAT_BASE - (h * 4 + k))"
proof -
  have len: "length (dec_int h) \<le> 2" "0 < length (dec_int h)"
    using length_dec_int_pos [of 2 h] assms by simp_all
  have sep: "str_chr (CHR ''_'') (dec_int h @ CHR ''_'' # t) = Some (length (dec_int h))" for t
    unfolding str_chr_def
    by (rule find_index_digits) (use dec_int_no_underscore [of h] assms(1) in auto)
  have "k \<in> {0, 1, 2, 3}" using assms(3,4) by auto
  then show ?thesis
    using len assms(1,2) sep parse_nonnegative_dec [of h]
    by (auto simp: joy_hat_from_name_def hat_names_def hat_from_index_cases hat_text_def sdl_hats
          code_from_joystick_hat_def hat_direction_index_def MAX_JOYSTICK_HATS_def)
qed

lemma plain_code_from_name:
  assumes "plain_ok c"
  shows "first_some [unscoped_pad_from_name (plain_name c), joy_button_from_name (plain_name c),
     joy_axis_from_name (plain_name c), joy_hat_from_name (plain_name c),
     map_of special_keys (plain_name c)] = Some (plain_code c)"
proof (cases c)
  case (PlainButton b)
  then have "unscoped_pad_from_name (plain_name c) = Some (plain_code c)"
    using plain_pad_names(1) assms by (simp add: list_all_iff nat_less_iff)
  then show ?thesis by (simp add: first_some_def)
next
  case (PlainAxis positive a)
  then have "unscoped_pad_from_name (plain_name c) = Some (plain_code c)"
    using plain_pad_names(2) assms by (simp add: list_all_iff nat_less_iff)
  then show ?thesis by (simp add: first_some_def)
next
  case (PlainStickButton b)
  then show ?thesis using assms joy_button_roundtrip [of b] by (simp add: first_some_def not_pad_name)
next
  case (PlainStickAxis positive a)
  then show ?thesis
    using assms joy_axis_roundtrip [of a positive]
    by (simp add: first_some_def not_pad_name joy_button_from_name_def)
next
  case (PlainStickHat h k)
  then show ?thesis
    using assms joy_hat_roundtrip [of h k]
    by (simp add: first_some_def not_pad_name joy_button_from_name_def joy_axis_from_name_def)
qed

lemma axis_name_length: "0 \<le> a \<Longrightarrow> a < 6 \<Longrightarrow> length (axis_names ! nat a) = 2"
proof -
  have "length axis_names = 6" by (simp add: axis_names_def)
  then show "0 \<le> a \<Longrightarrow> a < 6 \<Longrightarrow> length (axis_names ! nat a) = 2"
    using pad_button_name_length(2) by (simp add: list_all_length nat_less_iff)
qed

lemma hat_index_nonzero: "0 \<le> k \<Longrightarrow> k < 4 \<Longrightarrow> hat_direction_from_index k \<noteq> SDL_HAT_CENTERED"
proof -
  assume "0 \<le> k" "k < 4"
  then have "k \<in> {0, 1, 2, 3}" by auto
  then show ?thesis by (auto simp: hat_from_index_cases sdl_hats)
qed

lemma key_name_plain:
  assumes "plain_ok c"
  shows "key_name sdl_name s (plain_code c) = plain_name c"
proof (cases c)
  case (PlainButton b)
  then show ?thesis
    using assms plain_not_scoped [OF assms, of s]
    by (simp add: key_name_def controller_code_to_button_def in_block_def code_consts pad_name_nth)
next
  case (PlainAxis positive a)
  have "length (axis_names ! nat a) = 2"
    using assms PlainAxis axis_name_length by simp
  then show ?thesis
    using assms plain_not_scoped [OF assms, of s] PlainAxis
    by (cases positive) (simp_all add: key_name_def controller_code_to_button_def
          controller_code_to_axis_def in_block_def code_consts pad_name_nth
          format_prefixed_suffixed_name_def NAME_MAX_def)
next
  case (PlainStickButton b)
  then show ?thesis
    using assms plain_not_scoped [OF assms, of s] length_dec_int_pos [of 3 b]
    by (simp add: key_name_def controller_code_to_button_def controller_code_to_axis_def
          joystick_code_to_button_def in_block_def code_consts NAME_MAX_def)
next
  case (PlainStickAxis positive a)
  then show ?thesis
    using assms plain_not_scoped [OF assms, of s] length_dec_int_pos [of 2 a]
    by (cases positive) (simp_all add: key_name_def controller_code_to_button_def controller_code_to_axis_def
          joystick_code_to_button_def joystick_code_to_axis_def in_block_def code_consts NAME_MAX_def)
next
  case (PlainStickHat h k)
  then have hk: "0 \<le> h" "h < 16" "0 \<le> k" "k < 4" using assms by simp_all
  have "length (hat_text d) \<le> 5" for d by (simp add: hat_text_def)
  from this [of "hat_direction_from_index k"]
  have "length (''JOY_HAT_'' @ dec_int h @ ''_'' @ hat_text (hat_direction_from_index k)) < NAME_MAX"
    using length_dec_int_pos [of 2 h] hk by (simp add: NAME_MAX_def)
  then show ?thesis
    using hk PlainStickHat plain_not_scoped [OF assms, of s] hat_code_split [OF hk(3,4), of h]
      hat_index_nonzero [OF hk(3,4)]
    by (simp add: key_name_def controller_code_to_button_def controller_code_to_axis_def
          joystick_code_to_button_def joystick_code_to_axis_def joystick_code_to_hat_def in_block_def
          code_consts)
qed

text \<open>Controller bindings survive the configuration file: the name written for any unscoped
  control, and for any control of a device in the binding table, is read back as the same code
  without changing the table, whatever SDL's own key names are.\<close>

theorem binding_name_roundtrip:
  assumes "names_ok s"
    and "(case scoped_decode s code of
            Some (slot, kind, control) \<Rightarrow> control_nameable kind control
          | None \<Rightarrow> plain_ok c \<and> code = plain_code c)"
  shows "key_from_name sdl_key s (key_name sdl_name s code) = (s, code)"
proof (cases "scoped_decode s code")
  case None
  then have c: "plain_ok c" "code = plain_code c" using assms(2) by simp_all
  show ?thesis
    using plain_code_from_name [OF c(1)] plain_name_not_scoped [OF c(1)]
    by (simp add: c(2) key_name_plain [OF c(1)] key_from_name_def)
next
  case (Some d)
  obtain slot kind control where d: "scoped_decode s code = Some (slot, kind, control)"
    "control_nameable kind control" using assms(2) Some by (cases d) auto
  have "code \<noteq> SDLK_UNKNOWN" using d(1) by (auto simp: scoped_decode_def code_consts)
  then show ?thesis
    using scoped_name_roundtrip [OF assms(1) d] d(1) by (simp add: key_from_name_def key_name_def)
qed

theorem binding_name_roundtrip_witness:
  "key_from_name (\<lambda>_. 0) pad_registry (key_name (\<lambda>_. []) pad_registry (scoped_code 0 StickHat 7)) =
   (pad_registry, scoped_code 0 StickHat 7)"
proof (rule binding_name_roundtrip)
  show "names_ok pad_registry"
    by (auto simp: names_ok_def pad_registry_def MAX_BINDING_DEVICES_def nth_Cons' DEVICE_ID_MAX_def
          split: if_splits)
  have "scoped_decode pad_registry (scoped_code (int 0) StickHat 7) = Some (0, StickHat, 7)"
    by (rule scoped_decode_code) (simp_all add: pad_registry_def MAX_BINDING_DEVICES_def)
  then show "(case scoped_decode pad_registry (scoped_code 0 StickHat 7) of
      Some (slot, kind, control) \<Rightarrow> control_nameable kind control
    | None \<Rightarrow> plain_ok (PlainButton 0) \<and> scoped_code 0 StickHat 7 = plain_code (PlainButton 0))"
    by (simp add: control_nameable_def)
qed

end
