(* ===== verification/InputRouter.thy ===== *)
theory InputRouter
  imports KeyConfig
begin

text \<open>
  The server's input router (\<open>runtimes/gb/src/server/input_router.c\<close>): it turns SDL events into
  the joypad state of the two emulator slots, with a turbo mode that repeats captured buttons,
  and collects requests (speed, screenshot, escape, reset). A slot is modelled by what the
  router sees of it: whether it is initialised and the emulator's key state, one bit per
  \<open>GB_key_t\<close>, whose numbers are the bit positions of the button mask. \<open>SDL_GetTicks\<close> and the
  device registry are parameters.
\<close>

unbundle bit_operations_syntax

section \<open>Model\<close>

record joypad =
  pad_initialized :: bool
  pad_keys :: u8

record router =
  slot1 :: "joypad option"
  slot2 :: "joypad option"
  slot1_keys :: key_config
  slot2_keys :: key_config
  fast_key :: int
  screenshot_key :: int
  escape_key :: int
  turbo_hold_key :: int
  reset_key :: int
  slot1_normal :: u8
  slot2_normal :: u8
  slot1_turbo :: u8
  slot2_turbo :: u8
  slot1_turbo_applied :: u8
  slot2_turbo_applied :: u8
  slot1_applied :: u8
  slot2_applied :: u8
  turbo_last_tick :: u32
  speed :: u32
  speed_changed :: bool
  screenshot_requested :: bool
  escape_requested :: bool
  reset_requested :: bool
  screenshot_held :: bool
  escape_held :: bool
  reset_held :: bool
  fast_held :: bool
  turbo_key_held :: bool
  turbo_hold_active :: bool
  turbo_capture_active :: bool
  turbo_phase_on :: bool
  turbo_macro_control :: bool
  turbo_macro_toggle_requested :: bool
  game_input_blocked :: bool

definition set_slot_key :: "joypad option \<Rightarrow> nat \<Rightarrow> bool \<Rightarrow> joypad option" where
  "set_slot_key slot key pressed =
     (case slot of
        None \<Rightarrow> None
      | Some p \<Rightarrow>
          if pad_initialized p
          then Some (p\<lparr>pad_keys := (if pressed then set_bit key (pad_keys p)
                                    else unset_bit key (pad_keys p))\<rparr>)
          else Some p)"

text \<open>\<open>GB_key_t\<close>: RIGHT, LEFT, UP, DOWN, A, B, SELECT, START.\<close>

definition GB_KEY_A :: nat where "GB_KEY_A = 4"

definition set_slot_button :: "joypad option \<Rightarrow> u8 \<Rightarrow> bool \<Rightarrow> joypad option" where
  "set_slot_button slot button pressed =
     (if button = BTN_RIGHT then set_slot_key slot 0 pressed
      else if button = BTN_LEFT then set_slot_key slot 1 pressed
      else if button = BTN_UP then set_slot_key slot 2 pressed
      else if button = BTN_DOWN then set_slot_key slot 3 pressed
      else if button = BTN_A then set_slot_key slot GB_KEY_A pressed
      else if button = BTN_B then set_slot_key slot 5 pressed
      else if button = BTN_SELECT then set_slot_key slot 6 pressed
      else if button = BTN_START then set_slot_key slot 7 pressed
      else slot)"

definition all_buttons :: "u8 list" where
  "all_buttons = [BTN_RIGHT, BTN_LEFT, BTN_UP, BTN_DOWN, BTN_A, BTN_B, BTN_SELECT, BTN_START]"

definition apply_button_mask :: "joypad option \<Rightarrow> u8 \<Rightarrow> u8 \<Rightarrow> joypad option" where
  "apply_button_mask slot previous next =
     foldl (\<lambda>slot button. if (previous XOR next) AND button \<noteq> 0
                          then set_slot_button slot button (next AND button \<noteq> 0) else slot)
       slot all_buttons"

definition apply_router_buttons :: "router \<Rightarrow> router" where
  "apply_router_buttons r =
     (let on = turbo_hold_active r \<and> turbo_phase_on r;
          t1 = (if on then slot1_turbo r else 0); t2 = (if on then slot2_turbo r else 0);
          n1 = slot1_normal r OR t1; n2 = slot2_normal r OR t2
      in r\<lparr>slot1 := apply_button_mask (slot1 r) (slot1_applied r) n1,
           slot2 := apply_button_mask (slot2 r) (slot2_applied r) n2,
           slot1_turbo_applied := t1, slot2_turbo_applied := t2,
           slot1_applied := n1, slot2_applied := n2\<rparr>)"

text \<open>Initialising assigns these fields; the others keep what the memory held.\<close>

definition router_init :: "router \<Rightarrow> joypad option \<Rightarrow> joypad option \<Rightarrow> u32 \<Rightarrow> router" where
  "router_init r s1 s2 now =
     r\<lparr>slot1 := s1, slot2 := s2, slot1_keys := slot1_default, slot2_keys := slot2_default,
       fast_key := fast_default, screenshot_key := screenshot_default, escape_key := escape_default,
       turbo_hold_key := turbo_hold_default, reset_key := reset_default,
       slot1_normal := 0, slot2_normal := 0, slot1_turbo := 0, slot2_turbo := 0,
       slot1_turbo_applied := 0, slot2_turbo_applied := 0, slot1_applied := 0, slot2_applied := 0,
       turbo_last_tick := now, speed := 1, speed_changed := False, screenshot_requested := False,
       escape_requested := False, reset_requested := False, turbo_hold_active := False,
       turbo_capture_active := False, turbo_phase_on := True, turbo_macro_control := False,
       turbo_macro_toggle_requested := False, game_input_blocked := False\<rparr>"

definition set_keymaps ::
  "router \<Rightarrow> key_config option \<Rightarrow> key_config option \<Rightarrow> int \<Rightarrow> int \<Rightarrow> int \<Rightarrow> int \<Rightarrow> int \<Rightarrow> router" where
  "set_keymaps r k1 k2 fast screenshot escape turbo reset =
     r\<lparr>slot1_keys := (case k1 of None \<Rightarrow> slot1_keys r | Some k \<Rightarrow> k),
       slot2_keys := (case k2 of None \<Rightarrow> slot2_keys r | Some k \<Rightarrow> k),
       fast_key := (if fast \<noteq> SDLK_UNKNOWN then fast else fast_key r),
       screenshot_key := (if screenshot \<noteq> SDLK_UNKNOWN then screenshot else screenshot_key r),
       escape_key := (if escape \<noteq> SDLK_UNKNOWN then escape else escape_key r),
       turbo_hold_key := turbo,
       reset_key := (if reset \<noteq> SDLK_UNKNOWN then reset else reset_key r)\<rparr>"

definition set_speed_multiplier :: "router \<Rightarrow> u32 \<Rightarrow> router" where
  "set_speed_multiplier r m = r\<lparr>speed := (if m < 1 \<or> 4 < m then 1 else m)\<rparr>"

definition disable_speed_controls :: "router \<Rightarrow> router" where
  "disable_speed_controls r = apply_router_buttons
     (r\<lparr>fast_key := SDLK_UNKNOWN, turbo_hold_key := SDLK_UNKNOWN, speed := 1, speed_changed := False,
        slot1_turbo := 0, slot2_turbo := 0, turbo_hold_active := False,
        turbo_capture_active := False, turbo_phase_on := True\<rparr>)"

definition apply_auto_a :: "router \<Rightarrow> u32 \<Rightarrow> u32 \<Rightarrow> u32 \<Rightarrow> router" where
  "apply_auto_a r frame frames pulse =
     (if frames = 0 \<or> frames < frame then r
      else if frame = frames
      then r\<lparr>slot1 := set_slot_key (slot1 r) GB_KEY_A (slot1_applied r AND BTN_A \<noteq> 0),
             slot2 := set_slot_key (slot2 r) GB_KEY_A (slot2_applied r AND BTN_A \<noteq> 0)\<rparr>
      else let pressed = (if 1 < pulse then frame mod pulse < pulse div 2 else True)
           in r\<lparr>slot1 := set_slot_key (slot1 r) GB_KEY_A pressed,
                slot2 := set_slot_key (slot2 r) GB_KEY_A pressed\<rparr>)"

definition turbo_key_event :: "u32 \<Rightarrow> bool \<Rightarrow> router \<Rightarrow> router" where
  "turbo_key_event now pressed r =
     (if pressed = turbo_key_held r then r
      else let r0 = r\<lparr>turbo_key_held := pressed\<rparr>
           in if turbo_macro_control r0
              then (if pressed then r0\<lparr>turbo_macro_toggle_requested := True\<rparr> else r0)
              else
                let r1 = (if pressed
                          then (if turbo_hold_active r0 \<and> \<not> turbo_capture_active r0
                                then r0\<lparr>turbo_hold_active := False, turbo_capture_active := False,
                                        slot1_turbo := 0, slot2_turbo := 0\<rparr>
                                else r0\<lparr>turbo_capture_active := True, turbo_phase_on := True,
                                        turbo_last_tick := now\<rparr>)
                          else (let r2 = r0\<lparr>turbo_capture_active := False\<rparr>
                                in if slot1_turbo r2 = 0 \<and> slot2_turbo r2 = 0
                                   then r2\<lparr>turbo_hold_active := False\<rparr> else r2));
                    r3 = (if \<not> turbo_hold_active r1 then r1\<lparr>slot1_turbo := 0, slot2_turbo := 0\<rparr> else r1)
                in apply_router_buttons r3)"

definition game_buttons_event :: "u8 \<times> u8 \<Rightarrow> u8 \<times> u8 \<Rightarrow> router \<Rightarrow> router" where
  "game_buttons_event b1 b2 r =
     (case (b1, b2) of ((press1, release1), (press2, release2)) \<Rightarrow>
        if press1 = 0 \<and> release1 = 0 \<and> press2 = 0 \<and> release2 = 0 then r
        else if game_input_blocked r then r
        else
          let r1 = r\<lparr>slot1_normal := (slot1_normal r OR press1) AND NOT release1,
                     slot2_normal := (slot2_normal r OR press2) AND NOT release2\<rparr>;
              r2 = (if turbo_capture_active r1
                    then (let t = r1\<lparr>slot1_turbo := slot1_turbo r1 OR press1,
                                     slot2_turbo := slot2_turbo r1 OR press2\<rparr>;
                              h = (if press1 \<noteq> 0 \<or> press2 \<noteq> 0 then t\<lparr>turbo_hold_active := True\<rparr> else t)
                          in h\<lparr>slot1_normal := slot1_normal h AND NOT (slot1_turbo h),
                               slot2_normal := slot2_normal h AND NOT (slot2_turbo h)\<rparr>)
                    else r1)
          in apply_router_buttons r2)"

definition key_repeats :: "sdl_event \<Rightarrow> bool" where
  "key_repeats e = (case e of KeyDown _ _ rep \<Rightarrow> rep | KeyUp _ _ rep \<Rightarrow> rep | _ \<Rightarrow> False)"

definition input_event :: "sdl_event \<Rightarrow> bool" where
  "input_event e = (case e of SdlQuit \<Rightarrow> False | DeviceAdded _ \<Rightarrow> False | DeviceRemoved _ \<Rightarrow> False
                    | OtherEvent \<Rightarrow> False | _ \<Rightarrow> True)"

definition handle_event :: "devices \<Rightarrow> u32 \<Rightarrow> router \<Rightarrow> sdl_event \<Rightarrow> router \<times> bool" where
  "handle_event devs now r e =
     (if e = SdlQuit then (r, False)
      else if \<not> input_event e then (r, True)
      else if key_repeats e then (r, True)
      else
        (case binding_matches_event devs (fast_key r) (Some e) of
           Some pressed \<Rightarrow>
             (let r1 = (if pressed \<and> \<not> fast_held r
                        then r\<lparr>speed := (if 4 \<le> speed r then 1 else speed r + 1), speed_changed := True\<rparr>
                        else r)
              in (r1\<lparr>fast_held := pressed\<rparr>, True))
         | None \<Rightarrow>
        (case binding_matches_event devs (screenshot_key r) (Some e) of
           Some pressed \<Rightarrow>
             ((if pressed \<and> \<not> screenshot_held r then r\<lparr>screenshot_requested := True\<rparr> else r)
                \<lparr>screenshot_held := pressed\<rparr>, True)
         | None \<Rightarrow>
        (case binding_matches_event devs (escape_key r) (Some e) of
           Some pressed \<Rightarrow>
             ((if pressed \<and> \<not> escape_held r then r\<lparr>escape_requested := True\<rparr> else r)
                \<lparr>escape_held := pressed\<rparr>, True)
         | None \<Rightarrow>
        (case binding_matches_event devs (reset_key r) (Some e) of
           Some pressed \<Rightarrow>
             ((if pressed \<and> \<not> reset_held r then r\<lparr>reset_requested := True\<rparr> else r)
                \<lparr>reset_held := pressed\<rparr>, True)
         | None \<Rightarrow>
        (case binding_matches_event devs (turbo_hold_key r) (Some e) of
           Some pressed \<Rightarrow> (turbo_key_event now pressed r, True)
         | None \<Rightarrow>
             (game_buttons_event (buttons_for_event devs (slot1_keys r) (Some e))
                (buttons_for_event devs (slot2_keys r) (Some e)) r, True)))))))"

definition update_turbo :: "u32 \<Rightarrow> router \<Rightarrow> router" where
  "update_turbo now r =
     (if \<not> turbo_hold_active r \<or> (slot1_turbo r = 0 \<and> slot2_turbo r = 0) then r
      else if now - turbo_last_tick r < 67 then r
      else apply_router_buttons (r\<lparr>turbo_last_tick := now, turbo_phase_on := \<not> turbo_phase_on r\<rparr>))"

definition release_all :: "router \<Rightarrow> router" where
  "release_all r =
     (apply_router_buttons
       (r\<lparr>screenshot_held := False, escape_held := False, reset_held := False, fast_held := False,
          turbo_key_held := False, slot1_normal := 0, slot2_normal := 0, slot1_turbo := 0,
          slot2_turbo := 0, turbo_hold_active := False, turbo_capture_active := False,
          turbo_phase_on := True\<rparr>))\<lparr>speed := 1\<rparr>"

definition set_turbo_macro_control :: "router \<Rightarrow> bool \<Rightarrow> router" where
  "set_turbo_macro_control r enabled =
     (let r1 = r\<lparr>turbo_macro_control := enabled, turbo_macro_toggle_requested := False\<rparr>
      in if enabled
         then apply_router_buttons (r1\<lparr>slot1_turbo := 0, slot2_turbo := 0, turbo_hold_active := False,
                                       turbo_capture_active := False\<rparr>)
         else r1)"

definition take_turbo_macro_toggle :: "router \<Rightarrow> router \<times> bool" where
  "take_turbo_macro_toggle r =
     (if \<not> turbo_macro_toggle_requested r then (r, False)
      else (r\<lparr>turbo_macro_toggle_requested := False\<rparr>, True))"

definition set_game_input_blocked :: "router \<Rightarrow> bool \<Rightarrow> router" where
  "set_game_input_blocked r blocked =
     (if game_input_blocked r = blocked then r
      else let r1 = r\<lparr>game_input_blocked := blocked\<rparr>
           in if blocked
              then apply_router_buttons (r1\<lparr>slot1_normal := 0, slot2_normal := 0, slot1_turbo := 0,
                     slot2_turbo := 0, turbo_hold_active := False, turbo_capture_active := False\<rparr>)
              else r1)"

definition speed_multiplier :: "router \<Rightarrow> u32" where
  "speed_multiplier r = (if 1 \<le> speed r then speed r else 1)"

definition take_speed_changed :: "router \<Rightarrow> router \<times> bool" where
  "take_speed_changed r =
     (if \<not> speed_changed r then (r, False) else (r\<lparr>speed_changed := False\<rparr>, True))"

definition take_screenshot_request :: "router \<Rightarrow> router \<times> bool" where
  "take_screenshot_request r =
     (if \<not> screenshot_requested r then (r, False) else (r\<lparr>screenshot_requested := False\<rparr>, True))"

definition take_escape_request :: "router \<Rightarrow> router \<times> bool" where
  "take_escape_request r =
     (if \<not> escape_requested r then (r, False) else (r\<lparr>escape_requested := False\<rparr>, True))"

definition take_reset_request :: "router \<Rightarrow> router \<times> bool" where
  "take_reset_request r =
     (if \<not> reset_requested r then (r, False) else (r\<lparr>reset_requested := False\<rparr>, True))"

definition slot1_buttons :: "router \<Rightarrow> u8" where
  "slot1_buttons r = slot1_applied r"

text \<open>The turbo banner: None when nothing is described, else the text and whether it is complete.\<close>

fun append_turbo :: "nat \<Rightarrow> string \<Rightarrow> string list \<Rightarrow> string \<times> bool" where
  "append_turbo dest_size dest [] = (dest, True)"
| "append_turbo dest_size dest (name # names) =
     (let extra = (if dest \<noteq> [] then 1 else 0) + length name
      in if dest_size < length dest + extra + 1 then (dest, False)
         else append_turbo dest_size (dest @ (if dest \<noteq> [] then '' '' else []) @ name) names)"

definition turbo_button_names :: "(u8 \<times> string) list" where
  "turbo_button_names = [(BTN_A, ''A''), (BTN_B, ''B''), (BTN_SELECT, ''SELECT''), (BTN_START, ''START''),
     (BTN_UP, ''UP''), (BTN_DOWN, ''DOWN''), (BTN_LEFT, ''LEFT''), (BTN_RIGHT, ''RIGHT'')]"

definition describe_turbo :: "router \<Rightarrow> nat \<Rightarrow> string option \<times> bool" where
  "describe_turbo r dest_size =
     (if dest_size = 0 then (None, False)
      else if \<not> turbo_hold_active r \<or> slot1_turbo r = 0 then (Some [], False)
      else case append_turbo dest_size [] (''TURBO'' # map snd (filter (\<lambda>(b, _). slot1_turbo r AND b \<noteq> 0)
                                                           turbo_button_names)) of
             (dest, ok) \<Rightarrow> (Some dest, ok))"

section \<open>The joypads show what the router applied\<close>

definition pad_shows :: "joypad option \<Rightarrow> u8 \<Rightarrow> bool" where
  "pad_shows slot shown \<longleftrightarrow>
     (case slot of None \<Rightarrow> True | Some p \<Rightarrow> if pad_initialized p then pad_keys p = shown else True)"

text \<open>Up to the A button, which the automatic A overrides for a while.\<close>

definition pad_shows_but_A :: "joypad option \<Rightarrow> u8 \<Rightarrow> bool" where
  "pad_shows_but_A slot shown \<longleftrightarrow>
     (case slot of None \<Rightarrow> True
      | Some p \<Rightarrow> if pad_initialized p
                  then pad_keys p AND NOT BTN_A = shown AND NOT BTN_A else True)"

definition turbo_part :: "router \<Rightarrow> u8 \<Rightarrow> u8" where
  "turbo_part r t = (if turbo_hold_active r \<and> turbo_phase_on r then t else 0)"

text \<open>\<open>apply_button_mask\<close> works key by key.\<close>

lemma button_bits:
  "x AND BTN_RIGHT \<noteq> 0 \<longleftrightarrow> bit x 0" "x AND BTN_LEFT \<noteq> 0 \<longleftrightarrow> bit x 1" "x AND BTN_UP \<noteq> 0 \<longleftrightarrow> bit x 2"
  "x AND BTN_DOWN \<noteq> 0 \<longleftrightarrow> bit x 3" "x AND BTN_A \<noteq> 0 \<longleftrightarrow> bit x 4" "x AND BTN_B \<noteq> 0 \<longleftrightarrow> bit x 5"
  "x AND BTN_SELECT \<noteq> 0 \<longleftrightarrow> bit x 6" "x AND BTN_START \<noteq> 0 \<longleftrightarrow> bit x 7"
  using and_exp_eq_0_iff_not_bit [of x 0] and_exp_eq_0_iff_not_bit [of x 1]
    and_exp_eq_0_iff_not_bit [of x 2] and_exp_eq_0_iff_not_bit [of x 3]
    and_exp_eq_0_iff_not_bit [of x 4] and_exp_eq_0_iff_not_bit [of x 5]
    and_exp_eq_0_iff_not_bit [of x 6] and_exp_eq_0_iff_not_bit [of x 7]
  by (simp_all add: btn_defs)

definition key_fold :: "u8 \<Rightarrow> u8 \<Rightarrow> nat list \<Rightarrow> joypad option \<Rightarrow> joypad option" where
  "key_fold changed next ks slot =
     foldl (\<lambda>slot k. if bit changed k then set_slot_key slot k (bit next k) else slot) slot ks"

lemma set_slot_button_keys:
  "set_slot_button slot BTN_RIGHT p = set_slot_key slot 0 p"
  "set_slot_button slot BTN_LEFT p = set_slot_key slot 1 p"
  "set_slot_button slot BTN_UP p = set_slot_key slot 2 p"
  "set_slot_button slot BTN_DOWN p = set_slot_key slot 3 p"
  "set_slot_button slot BTN_A p = set_slot_key slot 4 p"
  "set_slot_button slot BTN_B p = set_slot_key slot 5 p"
  "set_slot_button slot BTN_SELECT p = set_slot_key slot 6 p"
  "set_slot_button slot BTN_START p = set_slot_key slot 7 p"
  by (simp_all add: set_slot_button_def btn_defs GB_KEY_A_def)

lemma apply_button_mask_keys:
  "apply_button_mask slot previous next = key_fold (previous XOR next) next [0..<8] slot"
  by (simp add: apply_button_mask_def key_fold_def all_buttons_def button_bits upt8 set_slot_button_keys)

lemma key_fold_Some:
  "pad_initialized p \<Longrightarrow> \<exists>q. key_fold changed next ks (Some p) = Some q \<and> pad_initialized q \<and>
     (\<forall>n < 8. bit (pad_keys q) n = (if n \<in> set ks \<and> bit changed n then bit next n else bit (pad_keys p) n))"
proof (induction ks arbitrary: p)
  case Nil
  then show ?case by (simp add: key_fold_def)
next
  case (Cons k ks)
  define p1 where "p1 = (if bit changed k then p\<lparr>pad_keys := (if bit next k then set_bit k (pad_keys p)
      else unset_bit k (pad_keys p))\<rparr> else p)"
  have p1: "pad_initialized p1" using Cons.prems by (simp add: p1_def)
  have bits: "bit (pad_keys p1) n = (if n = k \<and> bit changed n then bit next n else bit (pad_keys p) n)"
    if "n < 8" for n
    using that by (auto simp: p1_def bit_simps)
  have "key_fold changed next (k # ks) (Some p) = key_fold changed next ks (Some p1)"
    using Cons.prems by (simp add: key_fold_def set_slot_key_def p1_def)
  then show ?case using Cons.IH [OF p1] bits by auto
qed

lemma key_fold_other:
  "slot = None \<or> (\<exists>p. slot = Some p \<and> \<not> pad_initialized p) \<Longrightarrow> key_fold changed next ks slot = slot"
  by (induction ks) (auto simp: key_fold_def set_slot_key_def)

lemma pad_bits_eq: "(x :: u8) = y \<longleftrightarrow> (\<forall>n < 8. bit x n = bit y n)"
  by (auto intro!: bit_word_eqI)

lemma not_A_bits: "(x :: u8) AND NOT BTN_A = y AND NOT BTN_A \<longleftrightarrow> (\<forall>n < 8. n = 4 \<or> bit x n = bit y n)"
proof -
  have "bit BTN_A n \<longleftrightarrow> n = 4" if "n < 8" for n
  proof -
    have "BTN_A = push_bit 4 1" by (simp add: BTN_A_def)
    then have "bit BTN_A n = bit (push_bit 4 1 :: u8) n" by (rule arg_cong)
    then show ?thesis using that by (simp only: bit_simps) auto
  qed
  then show ?thesis by (auto simp: pad_bits_eq bit_simps)
qed

lemma apply_button_mask_shows:
  "pad_shows slot previous \<Longrightarrow> pad_shows (apply_button_mask slot previous next) next"
  "pad_shows_but_A slot previous \<Longrightarrow> pad_shows_but_A (apply_button_mask slot previous next) next"
proof -
  consider (skip) "slot = None \<or> (\<exists>p. slot = Some p \<and> \<not> pad_initialized p)"
    | (pad) p where "slot = Some p" "pad_initialized p" by (cases slot) auto
  then show "pad_shows slot previous \<Longrightarrow> pad_shows (apply_button_mask slot previous next) next"
    "pad_shows_but_A slot previous \<Longrightarrow> pad_shows_but_A (apply_button_mask slot previous next) next"
  proof (atomize(full), cases)
    case skip
    then show "(pad_shows slot previous \<longrightarrow> pad_shows (apply_button_mask slot previous next) next) \<and>
      (pad_shows_but_A slot previous \<longrightarrow> pad_shows_but_A (apply_button_mask slot previous next) next)"
      using key_fold_other [OF skip] by (auto simp: apply_button_mask_keys pad_shows_def pad_shows_but_A_def)
  next
    case pad
    then show "(pad_shows slot previous \<longrightarrow> pad_shows (apply_button_mask slot previous next) next) \<and>
      (pad_shows_but_A slot previous \<longrightarrow> pad_shows_but_A (apply_button_mask slot previous next) next)"
      using key_fold_Some [OF pad(2), of "previous XOR next" "next" "[0..<8]"]
      by (auto simp: apply_button_mask_keys pad_shows_def pad_shows_but_A_def not_A_bits bit_simps pad_bits_eq)
  qed
qed

section \<open>The router invariant\<close>

text \<open>
  The invariant is stated for a relation \<open>shows\<close> between a joypad and the buttons applied to it,
  because it holds twice: exactly, away from the automatic A, and up to the A button inside its
  window. \<open>router_pre\<close> is what a state must meet before \<open>apply_router_buttons\<close>, and
  \<open>router_applied\<close> what that function restores.
\<close>

definition router_pre :: "(joypad option \<Rightarrow> u8 \<Rightarrow> bool) \<Rightarrow> router \<Rightarrow> bool" where
  "router_pre shows r \<longleftrightarrow> 1 \<le> speed r \<and> speed r \<le> 4 \<and>
     (if game_input_blocked r
      then slot1_normal r = 0 \<and> slot2_normal r = 0 \<and> slot1_turbo r = 0 \<and> slot2_turbo r = 0 \<and>
           \<not> turbo_hold_active r
      else True) \<and>
     shows (slot1 r) (slot1_applied r) \<and> shows (slot2 r) (slot2_applied r)"

definition router_applied :: "router \<Rightarrow> bool" where
  "router_applied r \<longleftrightarrow>
     slot1_applied r = slot1_normal r OR turbo_part r (slot1_turbo r) \<and>
     slot2_applied r = slot2_normal r OR turbo_part r (slot2_turbo r)"

definition router_inv :: "(joypad option \<Rightarrow> u8 \<Rightarrow> bool) \<Rightarrow> router \<Rightarrow> bool" where
  "router_inv shows r \<longleftrightarrow> router_pre shows r \<and> router_applied r"

text \<open>The fields the invariant reads, beside the speed.\<close>

definition router_core :: "router \<Rightarrow> joypad option list \<times> u8 list \<times> bool list" where
  "router_core r =
     ([slot1 r, slot2 r],
      [slot1_applied r, slot2_applied r, slot1_normal r, slot2_normal r, slot1_turbo r, slot2_turbo r],
      [turbo_hold_active r, turbo_phase_on r, game_input_blocked r])"

lemma router_inv_core:
  "router_inv pads r \<Longrightarrow> router_core r' = router_core r \<Longrightarrow> 1 \<le> speed r' \<Longrightarrow> speed r' \<le> 4 \<Longrightarrow>
     router_inv pads r'"
proof -
  assume inv: "router_inv pads r" and core: "router_core r' = router_core r"
    and sp: "1 \<le> speed r'" "speed r' \<le> 4"
  have e: "slot1 r' = slot1 r" "slot2 r' = slot2 r" "slot1_applied r' = slot1_applied r"
    "slot2_applied r' = slot2_applied r" "slot1_normal r' = slot1_normal r"
    "slot2_normal r' = slot2_normal r" "slot1_turbo r' = slot1_turbo r" "slot2_turbo r' = slot2_turbo r"
    "turbo_hold_active r' = turbo_hold_active r" "turbo_phase_on r' = turbo_phase_on r"
    "game_input_blocked r' = game_input_blocked r"
    using core by (simp_all add: router_core_def)
  show ?thesis
    using inv sp unfolding router_inv_def router_pre_def router_applied_def turbo_part_def e by blast
qed

lemma speed_step:
  assumes "(s :: u32) \<le> 4" "\<not> 4 \<le> s"
  shows "1 \<le> s + 1" "s + 1 \<le> 4"
  using assms by (simp_all add: word_le_nat_alt unat_word_ariths)

lemma word_ge_1: "(1 :: 'a::len word) \<le> m \<longleftrightarrow> m \<noteq> 0"
  by (simp add: word_le_nat_alt Suc_le_eq unat_gt_0)

locale slot_view =
  fixes pads :: "joypad option \<Rightarrow> u8 \<Rightarrow> bool"
  assumes pads_apply: "pads slot previous \<Longrightarrow> pads (apply_button_mask slot previous shown) shown"
begin

lemma inv_speed: "router_inv pads r \<Longrightarrow> 1 \<le> speed r \<and> speed r \<le> 4"
  by (simp add: router_inv_def router_pre_def)

lemma inv_pre: "router_inv pads r \<Longrightarrow> router_pre pads r"
  by (simp add: router_inv_def)

lemma apply_inv: "router_pre pads r \<Longrightarrow> router_inv pads (apply_router_buttons r)"
  by (simp add: router_pre_def router_inv_def router_applied_def apply_router_buttons_def Let_def
        turbo_part_def pads_apply)

lemma turbo_key_inv: "router_inv pads r \<Longrightarrow> router_inv pads (turbo_key_event now pressed r)"
proof -
  assume ok: "router_inv pads r"
  have same: "router_inv pads (r\<lparr>turbo_key_held := pressed\<rparr>)"
    "router_inv pads (r\<lparr>turbo_key_held := pressed, turbo_macro_toggle_requested := True\<rparr>)"
    by (rule router_inv_core [OF ok]; use inv_speed [OF ok] in \<open>simp add: router_core_def\<close>)+
  show ?thesis
    using ok same inv_pre [OF ok]
    by (auto simp: turbo_key_event_def Let_def router_pre_def intro!: apply_inv)
qed

lemma game_buttons_inv: "router_inv pads r \<Longrightarrow> router_inv pads (game_buttons_event b1 b2 r)"
  using inv_pre [of r]
  by (cases b1; cases b2) (auto simp: game_buttons_event_def Let_def router_pre_def intro!: apply_inv)

lemma handle_event_inv: "router_inv pads r \<Longrightarrow> router_inv pads (fst (handle_event devs now r e))"
proof -
  assume ok: "router_inv pads r"
  have held: "router_inv pads (r\<lparr>fast_held := p\<rparr>)" "router_inv pads (r\<lparr>screenshot_held := p\<rparr>)"
    "router_inv pads (r\<lparr>escape_held := p\<rparr>)" "router_inv pads (r\<lparr>reset_held := p\<rparr>)"
    "router_inv pads (r\<lparr>screenshot_requested := True, screenshot_held := p\<rparr>)"
    "router_inv pads (r\<lparr>escape_requested := True, escape_held := p\<rparr>)"
    "router_inv pads (r\<lparr>reset_requested := True, reset_held := p\<rparr>)"
    "4 \<le> speed r \<Longrightarrow> router_inv pads (r\<lparr>speed := 1, speed_changed := True, fast_held := p\<rparr>)"
    "\<not> 4 \<le> speed r \<Longrightarrow> router_inv pads (r\<lparr>speed := speed r + 1, speed_changed := True, fast_held := p\<rparr>)"
    for p
    by (rule router_inv_core [OF ok];
        use inv_speed [OF ok] speed_step [of "speed r"] in \<open>simp add: router_core_def\<close>)+
  show ?thesis
    using ok held turbo_key_inv [OF ok] game_buttons_inv [OF ok]
    by (simp add: handle_event_def Let_def split: option.splits)
qed

lemma update_turbo_inv: "router_inv pads r \<Longrightarrow> router_inv pads (update_turbo now r)"
  using inv_pre [of r] by (auto simp: update_turbo_def router_pre_def intro!: apply_inv)

lemma release_all_inv: "router_inv pads r \<Longrightarrow> router_inv pads (release_all r)"
proof -
  assume ok: "router_inv pads r"
  define r1 where "r1 = apply_router_buttons
       (r\<lparr>screenshot_held := False, escape_held := False, reset_held := False, fast_held := False,
          turbo_key_held := False, slot1_normal := 0, slot2_normal := 0, slot1_turbo := 0,
          slot2_turbo := 0, turbo_hold_active := False, turbo_capture_active := False,
          turbo_phase_on := True\<rparr>)"
  have "router_inv pads r1"
    unfolding r1_def by (rule apply_inv) (use inv_pre [OF ok] in \<open>simp add: router_pre_def\<close>)
  then show ?thesis
    unfolding release_all_def r1_def [symmetric] by (rule router_inv_core) (simp_all add: router_core_def)
qed

lemma macro_control_inv: "router_inv pads r \<Longrightarrow> router_inv pads (set_turbo_macro_control r enabled)"
  using inv_pre [of r] inv_speed [of r]
    router_inv_core [of pads r "r\<lparr>turbo_macro_control := False, turbo_macro_toggle_requested := False\<rparr>"]
  by (auto simp: set_turbo_macro_control_def Let_def router_pre_def router_core_def intro!: apply_inv)

lemma blocked_inv:
  assumes ok: "router_inv pads r"
  shows "router_inv pads (set_game_input_blocked r b)"
proof -
  have "router_inv pads (r\<lparr>game_input_blocked := False\<rparr>)"
    using ok unfolding router_inv_def router_pre_def router_applied_def turbo_part_def
    by (cases r) (auto simp only: router.select_convs router.update_convs if_False)
  then show ?thesis
    using ok inv_pre [OF ok] by (auto simp: set_game_input_blocked_def Let_def router_pre_def intro!: apply_inv)
qed

lemma disable_speed_inv: "router_inv pads r \<Longrightarrow> router_inv pads (disable_speed_controls r)"
  using inv_pre [of r] by (auto simp: disable_speed_controls_def router_pre_def intro!: apply_inv)

lemma set_speed_inv: "router_inv pads r \<Longrightarrow> router_inv pads (set_speed_multiplier r m)"
  by (erule router_inv_core) (auto simp: set_speed_multiplier_def router_core_def not_less word_ge_1)

lemma set_keymaps_inv: "router_inv pads r \<Longrightarrow> router_inv pads (set_keymaps r k1 k2 f s e t z)"
  by (frule inv_speed, erule router_inv_core) (simp_all add: set_keymaps_def router_core_def)

lemma take_inv:
  "router_inv pads r \<Longrightarrow> router_inv pads (fst (take_turbo_macro_toggle r))"
  "router_inv pads r \<Longrightarrow> router_inv pads (fst (take_speed_changed r))"
  "router_inv pads r \<Longrightarrow> router_inv pads (fst (take_screenshot_request r))"
  "router_inv pads r \<Longrightarrow> router_inv pads (fst (take_escape_request r))"
  "router_inv pads r \<Longrightarrow> router_inv pads (fst (take_reset_request r))"
  by (frule inv_speed, erule router_inv_core;
      simp add: router_core_def take_turbo_macro_toggle_def take_speed_changed_def
        take_screenshot_request_def take_escape_request_def take_reset_request_def)+

lemma init_inv: "pads s1 0 \<Longrightarrow> pads s2 0 \<Longrightarrow> router_inv pads (router_init r s1 s2 now)"
  by (simp add: router_init_def router_inv_def router_pre_def router_applied_def turbo_part_def)

lemmas step_inv = handle_event_inv update_turbo_inv release_all_inv macro_control_inv blocked_inv
  disable_speed_inv set_speed_inv set_keymaps_inv take_inv

end

interpretation exact: slot_view pad_shows
  by unfold_locales (rule apply_button_mask_shows(1))

interpretation masked: slot_view pad_shows_but_A
  by unfold_locales (rule apply_button_mask_shows(2))

section \<open>The automatic A\<close>

lemma set_slot_key_A: "pad_shows_but_A slot shown \<Longrightarrow> pad_shows_but_A (set_slot_key slot GB_KEY_A p) shown"
  by (auto simp: pad_shows_but_A_def set_slot_key_def not_A_bits GB_KEY_A_def bit_simps split: option.splits)

lemma set_slot_key_A_exact:
  "pad_shows_but_A slot shown \<Longrightarrow> pad_shows (set_slot_key slot GB_KEY_A (shown AND BTN_A \<noteq> 0)) shown"
proof -
  have "(if bit shown 4 then set_bit 4 k else unset_bit 4 k) = shown"
    if "\<forall>n < 8. n = 4 \<or> bit k n = bit shown n" for k :: u8
    using that by (auto simp: pad_bits_eq bit_simps)
  then show "pad_shows_but_A slot shown \<Longrightarrow> ?thesis"
    by (auto simp: pad_shows_but_A_def pad_shows_def set_slot_key_def not_A_bits GB_KEY_A_def
          button_bits(5) split: option.splits)
qed

lemma pad_shows_weaken: "pad_shows slot shown \<Longrightarrow> pad_shows_but_A slot shown"
  by (auto simp: pad_shows_def pad_shows_but_A_def split: option.splits if_splits)

lemma router_inv_pads:
  assumes "router_inv pads r" "more_pads s1 (slot1_applied r)" "more_pads s2 (slot2_applied r)"
  shows "router_inv more_pads (r\<lparr>slot1 := s1, slot2 := s2\<rparr>)"
  using assms unfolding router_inv_def router_pre_def router_applied_def turbo_part_def
  by (cases r) (auto simp only: router.select_convs router.update_convs)

lemma auto_a_inv:
  assumes "router_inv pad_shows_but_A r"
  shows "router_inv pad_shows_but_A (apply_auto_a r frame frames pulse)"
proof -
  have "pad_shows_but_A (slot1 r) (slot1_applied r)" "pad_shows_but_A (slot2 r) (slot2_applied r)"
    using assms by (simp_all add: router_inv_def router_pre_def)
  then show ?thesis
    using assms by (simp add: apply_auto_a_def Let_def router_inv_pads [OF assms] set_slot_key_A)
qed

lemma auto_a_end:
  assumes "router_inv pad_shows_but_A r" "frames \<noteq> 0"
  shows "router_inv pad_shows (apply_auto_a r frames frames pulse)"
proof -
  have "pad_shows_but_A (slot1 r) (slot1_applied r)" "pad_shows_but_A (slot2 r) (slot2_applied r)"
    using assms by (simp_all add: router_inv_def router_pre_def)
  then show ?thesis
    using assms(2) by (simp add: apply_auto_a_def router_inv_pads [OF assms(1)] set_slot_key_A_exact)
qed

section \<open>All the operations\<close>

datatype router_op =
    RouterKeymaps "key_config option" "key_config option" int int int int int
  | RouterEvent devices u32 sdl_event
  | RouterTurboTick u32
  | RouterReleaseAll
  | RouterMacroControl bool
  | RouterBlocked bool
  | RouterDisableSpeed
  | RouterSetSpeed u32
  | RouterAutoA u32 u32 u32
  | RouterTakeToggle
  | RouterTakeSpeed
  | RouterTakeScreenshot
  | RouterTakeEscape
  | RouterTakeReset

fun router_op_step :: "router_op \<Rightarrow> router \<Rightarrow> router" where
  "router_op_step (RouterKeymaps k1 k2 f s e t z) r = set_keymaps r k1 k2 f s e t z"
| "router_op_step (RouterEvent devs now e) r = fst (handle_event devs now r e)"
| "router_op_step (RouterTurboTick now) r = update_turbo now r"
| "router_op_step RouterReleaseAll r = release_all r"
| "router_op_step (RouterMacroControl b) r = set_turbo_macro_control r b"
| "router_op_step (RouterBlocked b) r = set_game_input_blocked r b"
| "router_op_step RouterDisableSpeed r = disable_speed_controls r"
| "router_op_step (RouterSetSpeed m) r = set_speed_multiplier r m"
| "router_op_step (RouterAutoA frame frames pulse) r = apply_auto_a r frame frames pulse"
| "router_op_step RouterTakeToggle r = fst (take_turbo_macro_toggle r)"
| "router_op_step RouterTakeSpeed r = fst (take_speed_changed r)"
| "router_op_step RouterTakeScreenshot r = fst (take_screenshot_request r)"
| "router_op_step RouterTakeEscape r = fst (take_escape_request r)"
| "router_op_step RouterTakeReset r = fst (take_reset_request r)"

text \<open>Outside the automatic A's window: the call does nothing or is the one that ends the window.\<close>

fun quiet_op :: "router_op \<Rightarrow> bool" where
  "quiet_op (RouterAutoA frame frames _) = (frames = 0 \<or> frames \<le> frame)"
| "quiet_op _ = True"

inductive router_reachable :: "joypad option \<Rightarrow> joypad option \<Rightarrow> router \<Rightarrow> bool" for s1 s2 where
  start: "router_reachable s1 s2 (router_init memory s1 s2 now)"
| step: "router_reachable s1 s2 r \<Longrightarrow> router_reachable s1 s2 (router_op_step oper r)"

lemma router_op_masked: "router_inv pad_shows_but_A r \<Longrightarrow> router_inv pad_shows_but_A (router_op_step oper r)"
  by (cases oper) (simp_all add: masked.step_inv auto_a_inv)

lemma router_op_exact:
  assumes "quiet_op oper" "router_inv pad_shows r"
  shows "router_inv pad_shows (router_op_step oper r)"
proof (cases oper)
  case (RouterAutoA frame frames pulse)
  have pads: "pad_shows (slot1 r) (slot1_applied r)" "pad_shows (slot2 r) (slot2_applied r)"
    using assms(2) by (simp_all add: router_inv_def router_pre_def)
  then have masked: "router_inv pad_shows_but_A r"
    using router_inv_pads [OF assms(2), of pad_shows_but_A "slot1 r" "slot2 r"] by (simp add: pad_shows_weaken)
  consider "frames = 0" | "frames < frame" | "frames = frame" "frames \<noteq> 0"
    using assms(1) RouterAutoA by fastforce
  then show ?thesis
  proof cases
    case 3
    then show ?thesis using auto_a_end [OF masked] RouterAutoA by simp
  qed (use assms(2) RouterAutoA in \<open>simp_all add: apply_auto_a_def\<close>)
qed (use assms(2) in \<open>simp_all add: exact.step_inv\<close>)

lemma router_reachable_inv:
  assumes "router_reachable s1 s2 r" "pad_shows s1 0" "pad_shows s2 0"
  shows "router_inv pad_shows_but_A r"
  using assms by induction (simp_all add: masked.init_inv pad_shows_weaken router_op_masked)

text \<open>
  C16: whatever events, turbo ticks, mode changes and automatic A frames the router sees, the
  buttons it applied are the held ones together with the turbo ones in the on phase, the speed
  multiplier stays between 1 and 4, a blocked router applies nothing, and each joypad shows the
  applied buttons, but possibly for A.
\<close>

theorem router_invariant:
  assumes "router_reachable s1 s2 r" "pad_shows s1 0" "pad_shows s2 0"
  shows "slot1_applied r = slot1_normal r OR turbo_part r (slot1_turbo r) \<and>
    slot2_applied r = slot2_normal r OR turbo_part r (slot2_turbo r) \<and>
    speed_multiplier r = speed r \<and> 1 \<le> speed r \<and> speed r \<le> 4 \<and>
    (if game_input_blocked r then slot1_applied r = 0 \<and> slot2_applied r = 0 else True) \<and>
    pad_shows_but_A (slot1 r) (slot1_applied r) \<and> pad_shows_but_A (slot2 r) (slot2_applied r)"
proof -
  have inv: "router_inv pad_shows_but_A r" using router_reachable_inv [OF assms] .
  then have "router_pre pad_shows_but_A r" "router_applied r" by (simp_all add: router_inv_def)
  then show ?thesis
    by (auto simp: router_pre_def router_applied_def turbo_part_def speed_multiplier_def split: if_splits)
qed

definition sample_pad :: "joypad option" where
  "sample_pad = Some \<lparr>pad_initialized = True, pad_keys = 0\<rparr>"

lemma sample_pad_shows: "pad_shows sample_pad 0" "pad_shows None 0"
  by (simp_all add: sample_pad_def pad_shows_def)

text \<open>What the stack may hold where the router is declared: here all the held flags set.\<close>

definition router_memory :: router where
  "router_memory =
     \<lparr>slot1 = None, slot2 = None, slot1_keys = slot1_default, slot2_keys = slot2_default,
      fast_key = 0, screenshot_key = 0, escape_key = 0, turbo_hold_key = 0, reset_key = 0,
      slot1_normal = 0, slot2_normal = 0, slot1_turbo = 0, slot2_turbo = 0,
      slot1_turbo_applied = 0, slot2_turbo_applied = 0, slot1_applied = 0, slot2_applied = 0,
      turbo_last_tick = 0, speed = 0, speed_changed = False, screenshot_requested = False,
      escape_requested = False, reset_requested = False, screenshot_held = True, escape_held = True,
      reset_held = True, fast_held = True, turbo_key_held = True, turbo_hold_active = False,
      turbo_capture_active = False, turbo_phase_on = False, turbo_macro_control = False,
      turbo_macro_toggle_requested = False, game_input_blocked = False\<rparr>"

definition sample_start :: router where
  "sample_start = router_init router_memory sample_pad None 0"

definition sample_router :: router where
  "sample_router = router_op_step (RouterEvent no_devices 5 (KeyDown 122 29 False)) sample_start"

lemma sample_reachable: "router_reachable sample_pad None sample_router"
  unfolding sample_router_def sample_start_def by (intro router_reachable.intros)

lemma sample_router_pad:
  "slot1 sample_router = Some \<lparr>pad_initialized = True, pad_keys = BTN_A\<rparr>" "slot1_applied sample_router = BTN_A"
  by code_simp+

lemma router_op_seq:
  "list_all quiet_op ops \<Longrightarrow> router_inv pad_shows r \<Longrightarrow> router_inv pad_shows (fold router_op_step ops r)"
  by (induction ops arbitrary: r) (simp_all add: router_op_exact)

lemma release_all_pads:
  assumes "router_inv pad_shows r"
  shows "pad_shows (slot1 (release_all r)) 0 \<and> pad_shows (slot2 (release_all r)) 0 \<and> speed (release_all r) = 1"
proof -
  have "router_pre pad_shows (release_all r)"
    using exact.release_all_inv [OF assms] by (simp add: router_inv_def)
  moreover have "slot1_applied (release_all r) = 0" "slot2_applied (release_all r) = 0"
    "speed (release_all r) = 1"
    by (simp_all add: release_all_def apply_router_buttons_def Let_def)
  ultimately show ?thesis by (simp add: router_pre_def)
qed

theorem router_invariant_witness:
  "slot1_applied sample_router = BTN_A \<and> pad_shows_but_A (slot1 sample_router) BTN_A \<and>
   speed sample_router \<le> 4"
  using router_invariant [OF sample_reachable sample_pad_shows] sample_router_pad by simp

text \<open>
  once the automatic A's window has ended, each joypad shows exactly the applied buttons
  through any further operations, and releasing all inputs leaves no button down and the speed
  at one.
\<close>

theorem router_leaves_no_key_down:
  assumes "router_reachable s1 s2 r" "pad_shows s1 0" "pad_shows s2 0"
    and "frames \<noteq> 0" "list_all quiet_op ops"
    and "r' = fold router_op_step ops (apply_auto_a r frames frames pulse)"
  shows "pad_shows (slot1 r') (slot1_applied r') \<and> pad_shows (slot2 r') (slot2_applied r') \<and>
    pad_shows (slot1 (release_all r')) 0 \<and> pad_shows (slot2 (release_all r')) 0 \<and>
    speed (release_all r') = 1"
proof -
  have inv: "router_inv pad_shows r'"
    using router_op_seq [OF assms(5) auto_a_end [OF router_reachable_inv [OF assms(1-3)] assms(4)]]
      assms(6) by simp
  then have "router_pre pad_shows r'" by (simp add: router_inv_def)
  then show ?thesis using release_all_pads [OF inv] by (simp add: router_pre_def)
qed

theorem router_leaves_no_key_down_witness:
  "pad_shows (slot1 (release_all (apply_auto_a sample_router 60 60 4))) 0"
  using router_leaves_no_key_down [OF sample_reachable sample_pad_shows, of 60 "[]" _ 4] by simp

text \<open>
  A held flag the memory happened to have set survives the initialisation, and the first press
  of that key is then not a request.
\<close>

lemma router_init_keeps_held: "screenshot_held (router_init memory s1 s2 now) = screenshot_held memory"
  by (simp add: router_init_def)

lemma first_screenshot_press_lost:
  "screenshot_requested (fst (handle_event no_devices 5 sample_start
     (KeyDown screenshot_default 0 False))) = False"
  by code_simp

end
