(* ===== verification/ProductRuntime.thy ===== *)
theory ProductRuntime
  imports KeyConfig
begin

text \<open>
  The local side of a fixed-host session: \<open>c_client/gb_runtime_fixed_host_product_runtime.c\<close> (held
  buttons, focus, the exit confirmation) and \<open>poll_input\<close> of
  \<open>c_client/integral_gb_runtime_fixed_host.c\<close>, the event loop that drives it. The role is the C
  enum's number, so that the zeroed structure has one too; the confirmation last shown on the
  media stream is kept beside the structure.
\<close>

unbundle bit_operations_syntax

section \<open>Model\<close>

definition PRODUCT_HOST :: int where "PRODUCT_HOST = 1"
definition PRODUCT_REMOTE :: int where "PRODUCT_REMOTE = 2"

datatype exit_selection = ExitContinue | ExitHostFinish | ExitRemoteLeave

record product =
  pr_role :: int
  pr_buttons :: u8
  pr_focused :: bool
  pr_neutral :: bool
  pr_running :: bool
  pr_confirming :: bool
  pr_yes :: bool
  pr_escape_held :: bool
  pr_shot_held :: bool

definition product_zero :: product where
  "product_zero = \<lparr>pr_role = 0, pr_buttons = 0, pr_focused = False, pr_neutral = False,
     pr_running = False, pr_confirming = False, pr_yes = False, pr_escape_held = False,
     pr_shot_held = False\<rparr>"

definition product_init :: "int \<Rightarrow> product \<times> bool" where
  "product_init role =
     (if role \<noteq> PRODUCT_HOST \<and> role \<noteq> PRODUCT_REMOTE then (product_zero, False)
      else (product_zero\<lparr>pr_role := role, pr_focused := True, pr_running := True\<rparr>, True))"

definition product_set_button :: "u8 \<Rightarrow> bool \<Rightarrow> product \<Rightarrow> product" where
  "product_set_button button pressed p =
     (if \<not> pr_running p \<or> \<not> pr_focused p then p
      else if pressed then p\<lparr>pr_buttons := pr_buttons p OR button\<rparr>
      else p\<lparr>pr_buttons := pr_buttons p AND NOT button\<rparr>)"

definition product_focus_lost :: "product \<Rightarrow> product" where
  "product_focus_lost p =
     (if \<not> pr_running p then p
      else p\<lparr>pr_focused := False, pr_buttons := 0, pr_neutral := True\<rparr>)"

definition product_take_neutral :: "product \<Rightarrow> product \<times> bool" where
  "product_take_neutral p =
     (if \<not> pr_running p then (p, False) else (p\<lparr>pr_neutral := False\<rparr>, pr_neutral p))"

definition product_request_exit :: "product \<Rightarrow> product" where
  "product_request_exit p =
     (if \<not> pr_running p then p
      else p\<lparr>pr_confirming := True, pr_yes := False, pr_buttons := 0, pr_neutral := True\<rparr>)"

definition product_cancel_exit :: "product \<Rightarrow> product" where
  "product_cancel_exit p =
     (if \<not> pr_running p then p else p\<lparr>pr_confirming := False, pr_yes := False\<rparr>)"

definition product_toggle_exit :: "product \<Rightarrow> product" where
  "product_toggle_exit p =
     (if \<not> pr_running p \<or> \<not> pr_confirming p then p else p\<lparr>pr_yes := \<not> pr_yes p\<rparr>)"

definition product_select_exit :: "product \<Rightarrow> product \<times> exit_selection" where
  "product_select_exit p =
     (if \<not> pr_running p \<or> \<not> pr_confirming p then (p, ExitContinue)
      else if pr_yes p
      then (p\<lparr>pr_buttons := 0, pr_neutral := True\<rparr>,
            if pr_role p = PRODUCT_HOST then ExitHostFinish else ExitRemoteLeave)
      else (product_cancel_exit p, ExitContinue))"

definition product_stop :: "product \<Rightarrow> product" where
  "product_stop p = product_zero"

text \<open>
  The events \<open>SDL_PollEvent\<close> delivers. A device event carries the devices SDL lists then; a window
  close says whether the window is the session's (there is no stream, or it is the stream's video
  window). All other events are input events.
\<close>

datatype host_event =
    DeviceChange "sdl_device list" sdl_event
  | WindowClose bool
  | FocusLost
  | FocusGained
  | InputEvent sdl_event

record poll_options =
  op_keys :: key_config
  op_escape :: int
  op_screenshot :: int
  op_headless :: bool

record poll =
  po_product :: product
  po_devices :: devices
  po_screenshot :: bool
  po_shown :: "bool \<times> bool"

definition SDLK_RETURN :: int where "SDLK_RETURN = 13"
definition SDLK_KP_ENTER :: int where "SDLK_KP_ENTER = 0x40000058"
definition SDLK_LEFT :: int where "SDLK_LEFT = 0x40000050"
definition SDLK_RIGHT :: int where "SDLK_RIGHT = 0x4000004F"

definition key_down_of :: "int list \<Rightarrow> sdl_event \<Rightarrow> bool" where
  "key_down_of keys e = (case e of KeyDown ks sc rep \<Rightarrow> \<not> rep \<and> ks \<in> set keys | _ \<Rightarrow> False)"

definition show_confirmation :: "poll \<Rightarrow> poll" where
  "show_confirmation s = s\<lparr>po_shown := (pr_confirming (po_product s), pr_yes (po_product s))\<rparr>"

definition poll_request_exit :: "poll \<Rightarrow> poll" where
  "poll_request_exit s =
     (let p = product_request_exit (po_product s)
      in s\<lparr>po_product := p, po_shown := (True, pr_yes p)\<rparr>)"

definition confirming_event ::
  "bool \<Rightarrow> bool \<Rightarrow> bool \<Rightarrow> u8 \<Rightarrow> bool \<Rightarrow> poll \<Rightarrow> poll \<times> exit_selection" where
  "confirming_event escape_pressed enter_pressed left_right_pressed menu_button pressed s =
     (let p = po_product s in
      if escape_pressed
      then (show_confirmation (s\<lparr>po_product := product_cancel_exit p\<rparr>), ExitContinue)
      else if left_right_pressed \<or> (pressed \<and> menu_button AND (BTN_LEFT OR BTN_RIGHT) \<noteq> 0)
      then (show_confirmation (s\<lparr>po_product := product_toggle_exit p\<rparr>), ExitContinue)
      else if enter_pressed \<or> (pressed \<and> menu_button AND BTN_A \<noteq> 0)
      then (case product_select_exit p of
              (p', selection) \<Rightarrow>
                if selection \<noteq> ExitContinue then (s\<lparr>po_product := p'\<rparr>, selection)
                else (show_confirmation (s\<lparr>po_product := p'\<rparr>), ExitContinue))
      else (show_confirmation s, ExitContinue))"

definition input_step :: "poll_options \<Rightarrow> sdl_event \<Rightarrow> poll \<Rightarrow> poll \<times> exit_selection" where
  "input_step opts e s =
     (let devs = po_devices s;
          p0 = po_product s;
          (press, release) = buttons_for_event devs (op_keys opts) (Some e);
          (escape_held', escape_pressed) =
            (if op_headless opts then (pr_escape_held p0, False)
             else case binding_rising devs (op_escape opts) (Some e) (Some (pr_escape_held p0)) of
                    (h, rising) \<Rightarrow> (the h, rising));
          (shot_held', screenshot_pressed) =
            (case binding_rising devs (op_screenshot opts) (Some e) (Some (pr_shot_held p0)) of
               (h, rising) \<Rightarrow> (the h, rising));
          p = p0\<lparr>pr_escape_held := escape_held', pr_shot_held := shot_held'\<rparr>;
          s1 = s\<lparr>po_product := p\<rparr>;
          (menu_button, menu_pressed) = button_for_event devs (op_keys opts) (Some e)
      in if pr_confirming p
         then confirming_event escape_pressed (key_down_of [SDLK_RETURN, SDLK_KP_ENTER] e)
                (key_down_of [SDLK_LEFT, SDLK_RIGHT] e) menu_button (menu_pressed = Some True) s1
         else if escape_pressed then (poll_request_exit s1, ExitContinue)
         else if screenshot_pressed then (s1\<lparr>po_screenshot := True\<rparr>, ExitContinue)
         else
           let p1 = (if press \<noteq> 0 then product_set_button press True p else p);
               p2 = (if release \<noteq> 0 then product_set_button release False p1 else p1)
           in (s1\<lparr>po_product := p2\<rparr>, ExitContinue))"

definition poll_event :: "poll_options \<Rightarrow> host_event \<Rightarrow> poll \<Rightarrow> poll \<times> exit_selection" where
  "poll_event opts event s =
     (case event of
        DeviceChange connected e \<Rightarrow>
          (let s1 = s\<lparr>po_devices := handle_device_event connected (Some e) (po_devices s)\<rparr>
           in case e of
                DeviceRemoved _ \<Rightarrow>
                  (s1\<lparr>po_product := (po_product s1)\<lparr>pr_escape_held := False, pr_shot_held := False,
                       pr_buttons := 0, pr_neutral := True\<rparr>\<rparr>, ExitContinue)
              | _ \<Rightarrow> (s1, ExitContinue))
      | WindowClose ours \<Rightarrow>
          if ours \<and> \<not> op_headless opts then (poll_request_exit s, ExitContinue)
          else (s, ExitContinue)
      | FocusLost \<Rightarrow>
          (s\<lparr>po_product := product_focus_lost ((po_product s)\<lparr>pr_escape_held := False,
                pr_shot_held := False\<rparr>)\<rparr>, ExitContinue)
      | FocusGained \<Rightarrow> (s\<lparr>po_product := (po_product s)\<lparr>pr_focused := True\<rparr>\<rparr>, ExitContinue)
      | InputEvent e \<Rightarrow>
          if e = SdlQuit \<and> \<not> op_headless opts then (poll_request_exit s, ExitContinue)
          else input_step opts e s)"

text \<open>The loop over the pending events; it stops at the event that confirms the exit.\<close>

fun poll_input :: "poll_options \<Rightarrow> host_event list \<Rightarrow> poll \<Rightarrow> poll \<times> exit_selection" where
  "poll_input opts [] s = (s, ExitContinue)"
| "poll_input opts (e # es) s =
     (case poll_event opts e s of
        (s', selection) \<Rightarrow> if selection \<noteq> ExitContinue then (s', selection) else poll_input opts es s')"

section \<open>Nothing is held while the window cannot be played\<close>

definition product_ok :: "product \<Rightarrow> bool" where
  "product_ok p \<longleftrightarrow> pr_running p \<and> pr_role p \<in> {PRODUCT_HOST, PRODUCT_REMOTE} \<and>
     (if pr_confirming p \<or> \<not> pr_focused p then pr_buttons p = 0 else True) \<and>
     (if pr_confirming p then True else \<not> pr_yes p)"

definition poll_ok :: "poll \<Rightarrow> bool" where
  "poll_ok s \<longleftrightarrow> product_ok (po_product s) \<and>
     po_shown s = (pr_confirming (po_product s), pr_yes (po_product s))"

named_theorems product_ops

lemmas [product_ops] = product_set_button_def product_focus_lost_def product_take_neutral_def
  product_request_exit_def product_cancel_exit_def product_toggle_exit_def product_select_exit_def

lemma poll_request_ok: "poll_ok s \<Longrightarrow> poll_ok (poll_request_exit s)"
  by (simp add: poll_ok_def product_ok_def poll_request_exit_def product_ops Let_def)

lemma confirming_event_ok:
  "poll_ok s \<Longrightarrow> poll_ok (fst (confirming_event esc enter lr mb pressed s))"
  by (auto simp: poll_ok_def product_ok_def confirming_event_def show_confirmation_def product_ops Let_def
      split: if_splits)

lemma set_button_ok: "product_ok p \<Longrightarrow> \<not> pr_confirming p \<Longrightarrow> product_ok (product_set_button b pressed p)"
  by (auto simp: product_ok_def product_ops)

lemma set_button_confirming [simp]: "pr_confirming (product_set_button b pressed p) = pr_confirming p"
  "pr_yes (product_set_button b pressed p) = pr_yes p"
  by (simp_all add: product_ops)

lemma held_ok: "product_ok (p\<lparr>pr_escape_held := a, pr_shot_held := b\<rparr>) = product_ok p"
  by (simp add: product_ok_def)

text \<open>\<open>input_step\<close> is one of four things done to the state with its held flags updated.\<close>

lemma input_step_cases:
  obtains (confirm) a b esc enter lr mb pressed where "pr_confirming (po_product s)"
      "input_step opts e s = confirming_event esc enter lr mb pressed
         (s\<lparr>po_product := (po_product s)\<lparr>pr_escape_held := a, pr_shot_held := b\<rparr>\<rparr>)"
  | (request) a b where "\<not> pr_confirming (po_product s)"
      "input_step opts e s = (poll_request_exit
         (s\<lparr>po_product := (po_product s)\<lparr>pr_escape_held := a, pr_shot_held := b\<rparr>\<rparr>), ExitContinue)"
  | (screenshot) a b where "\<not> pr_confirming (po_product s)"
      "input_step opts e s =
         (s\<lparr>po_product := (po_product s)\<lparr>pr_escape_held := a, pr_shot_held := b\<rparr>,
            po_screenshot := True\<rparr>, ExitContinue)"
  | (buttons) a b press release where "\<not> pr_confirming (po_product s)"
      "input_step opts e s =
         (s\<lparr>po_product :=
              (let p = (po_product s)\<lparr>pr_escape_held := a, pr_shot_held := b\<rparr>;
                   p1 = (if press \<noteq> 0 then product_set_button press True p else p)
               in if release \<noteq> 0 then product_set_button release False p1 else p1)\<rparr>, ExitContinue)"
proof -
  define p where "p = po_product s"
  obtain press release where bf: "buttons_for_event (po_devices s) (op_keys opts) (Some e) = (press, release)"
    by fastforce
  obtain a esc where esc: "(if op_headless opts then (pr_escape_held p, False)
      else case binding_rising (po_devices s) (op_escape opts) (Some e) (Some (pr_escape_held p)) of
             (h, rising) \<Rightarrow> (the h, rising)) = (a, esc)" by fastforce
  obtain b shot where shot:
    "(case binding_rising (po_devices s) (op_screenshot opts) (Some e) (Some (pr_shot_held p)) of
        (h, rising) \<Rightarrow> (the h, rising)) = (b, shot)" by fastforce
  obtain mb mp where be: "button_for_event (po_devices s) (op_keys opts) (Some e) = (mb, mp)" by fastforce
  note eqs = input_step_def Let_def p_def [symmetric] bf esc shot be prod.case
  consider "pr_confirming p" | "\<not> pr_confirming p" esc | "\<not> pr_confirming p" "\<not> esc" shot
    | "\<not> pr_confirming p" "\<not> esc" "\<not> shot" by blast
  then show ?thesis
  proof cases
    case 1
    then show ?thesis
      by (intro confirm [of esc _ _ mb "mp = Some True" b a]) (simp_all add: eqs)
  next
    case 2
    then show ?thesis by (intro request [of b a]) (simp_all add: eqs)
  next
    case 3
    then show ?thesis by (intro screenshot [of b a]) (simp_all add: eqs)
  next
    case 4
    then show ?thesis by (intro buttons [of b a press release]) (simp_all add: eqs)
  qed
qed

lemma input_step_ok:
  assumes "poll_ok s"
  shows "poll_ok (fst (input_step opts e s))"
proof (cases rule: input_step_cases [of s opts e])
  case (confirm a b esc enter lr mb pressed)
  have "poll_ok (s\<lparr>po_product := (po_product s)\<lparr>pr_escape_held := a, pr_shot_held := b\<rparr>\<rparr>)"
    using assms by (simp add: poll_ok_def held_ok)
  then show ?thesis using confirm confirming_event_ok by simp
next
  case (request a b)
  have "poll_ok (s\<lparr>po_product := (po_product s)\<lparr>pr_escape_held := a, pr_shot_held := b\<rparr>\<rparr>)"
    using assms by (simp add: poll_ok_def held_ok)
  then show ?thesis using request poll_request_ok by simp
next
  case (screenshot a b)
  then show ?thesis using assms by (simp add: poll_ok_def held_ok)
next
  case (buttons a b press release)
  then show ?thesis using assms by (simp add: poll_ok_def held_ok set_button_ok Let_def)
qed

lemma removed_ok:
  "product_ok p \<Longrightarrow> product_ok (p\<lparr>pr_escape_held := a, pr_shot_held := b, pr_buttons := 0, pr_neutral := True\<rparr>)"
  by (simp add: product_ok_def)

lemma focus_lost_ok: "product_ok p \<Longrightarrow> product_ok (product_focus_lost p)"
  by (simp add: product_ok_def product_ops)

lemma focus_lost_confirming [simp]: "pr_confirming (product_focus_lost p) = pr_confirming p"
  "pr_yes (product_focus_lost p) = pr_yes p"
  by (simp_all add: product_ops)

lemma focus_gained_ok: "product_ok p \<Longrightarrow> product_ok (p\<lparr>pr_focused := True\<rparr>)"
  by (auto simp: product_ok_def)

lemma poll_event_ok:
  assumes "poll_ok s"
  shows "poll_ok (fst (poll_event opts event s))"
proof (cases event)
  case (DeviceChange connected e)
  then show ?thesis
    using assms by (cases e) (simp_all add: poll_event_def poll_ok_def removed_ok Let_def)
next
  case FocusLost
  then show ?thesis using assms by (simp add: poll_event_def poll_ok_def focus_lost_ok held_ok)
next
  case FocusGained
  then show ?thesis using assms by (simp add: poll_event_def poll_ok_def focus_gained_ok)
qed (use assms in \<open>simp_all add: poll_event_def poll_request_ok input_step_ok\<close>)

section \<open>How an exit is reached\<close>

text \<open>
  The exit dialog as the player sees it. 0: not asked, 1: asked with No selected, 2: asked with Yes
  selected. What an event means to the dialog is read off the event, the pads and the bindings
  alone; \<open>exit_dialog\<close> is the dialog itself, and each polled event is shown to refine it.
\<close>

definition exit_stage :: "poll \<Rightarrow> nat" where
  "exit_stage s = (if \<not> pr_confirming (po_product s) then 0 else if pr_yes (po_product s) then 2 else 1)"

datatype dialog_move = AskExit | CancelExit | ToggleAnswer | ConfirmAnswer | NoMove

definition escape_rises :: "poll_options \<Rightarrow> poll \<Rightarrow> sdl_event \<Rightarrow> bool" where
  "escape_rises opts s e \<longleftrightarrow> \<not> op_headless opts \<and>
     snd (binding_rising (po_devices s) (op_escape opts) (Some e) (Some (pr_escape_held (po_product s))))"

definition menu_input :: "poll_options \<Rightarrow> poll \<Rightarrow> int list \<Rightarrow> u8 \<Rightarrow> sdl_event \<Rightarrow> bool" where
  "menu_input opts s keys buttons e \<longleftrightarrow>
     (case e of KeyDown ks sc rep \<Rightarrow> ks \<in> set keys \<and> \<not> rep | _ \<Rightarrow> False) \<or>
     (case button_for_event (po_devices s) (op_keys opts) (Some e) of
        (button, pressed) \<Rightarrow> pressed = Some True \<and> button AND buttons \<noteq> 0)"

definition exit_move :: "poll_options \<Rightarrow> poll \<Rightarrow> host_event \<Rightarrow> dialog_move" where
  "exit_move opts s event =
     (case event of
        WindowClose ours \<Rightarrow> if ours \<and> \<not> op_headless opts then AskExit else NoMove
      | InputEvent e \<Rightarrow>
          if e = SdlQuit \<and> \<not> op_headless opts then AskExit
          else if escape_rises opts s e
          then (if pr_confirming (po_product s) then CancelExit else AskExit)
          else if \<not> pr_confirming (po_product s) then NoMove
          else if menu_input opts s [SDLK_LEFT, SDLK_RIGHT] (BTN_LEFT OR BTN_RIGHT) e then ToggleAnswer
          else if menu_input opts s [SDLK_RETURN, SDLK_KP_ENTER] BTN_A e then ConfirmAnswer
          else NoMove
      | _ \<Rightarrow> NoMove)"

fun exit_moves :: "poll_options \<Rightarrow> host_event list \<Rightarrow> poll \<Rightarrow> dialog_move list" where
  "exit_moves opts [] s = []"
| "exit_moves opts (e # es) s = exit_move opts s e # exit_moves opts es (fst (poll_event opts e s))"

fun exit_dialog :: "dialog_move \<Rightarrow> nat \<Rightarrow> nat" where
  "exit_dialog AskExit k = 1"
| "exit_dialog CancelExit k = 0"
| "exit_dialog ToggleAnswer k = (if k = 0 then 0 else 3 - k)"
| "exit_dialog ConfirmAnswer k = 0"
| "exit_dialog NoMove k = k"

definition role_exit :: "poll \<Rightarrow> exit_selection" where
  "role_exit s = (if pr_role (po_product s) = PRODUCT_HOST then ExitHostFinish else ExitRemoteLeave)"

lemma request_stage: "poll_ok s \<Longrightarrow> exit_stage (poll_request_exit s) = 1"
  by (simp add: poll_ok_def product_ok_def exit_stage_def poll_request_exit_def product_ops Let_def)

lemma confirming_stage:
  assumes "product_ok (po_product s)" "pr_confirming (po_product s)"
    and move_def: "move = (if esc then CancelExit
     else if lr \<or> (pressed \<and> mb AND (BTN_LEFT OR BTN_RIGHT) \<noteq> 0) then ToggleAnswer
     else if enter \<or> (pressed \<and> mb AND BTN_A \<noteq> 0) then ConfirmAnswer else NoMove)"
  shows "snd (confirming_event esc enter lr mb pressed s) = ExitContinue \<Longrightarrow>
      exit_stage (fst (confirming_event esc enter lr mb pressed s)) = exit_dialog move (exit_stage s)"
    and "snd (confirming_event esc enter lr mb pressed s) =
      (if move = ConfirmAnswer \<and> exit_stage s = 2 then role_exit s else ExitContinue)"
  using assms(1,2)
  by (auto simp: move_def exit_stage_def confirming_event_def show_confirmation_def product_ok_def
      role_exit_def product_ops Let_def split: if_splits)

lemma input_step_move:
  assumes "poll_ok s" "\<not> (e = SdlQuit \<and> \<not> op_headless opts)"
  shows "snd (input_step opts e s) = ExitContinue \<Longrightarrow>
      exit_stage (fst (input_step opts e s)) = exit_dialog (exit_move opts s (InputEvent e)) (exit_stage s)"
    (is "?stays \<Longrightarrow> ?stage")
    and "snd (input_step opts e s) =
      (if exit_move opts s (InputEvent e) = ConfirmAnswer \<and> exit_stage s = 2 then role_exit s else ExitContinue)"
    (is ?ends)
proof -
  obtain a esc where esc: "(if op_headless opts then (pr_escape_held (po_product s), False)
      else case binding_rising (po_devices s) (op_escape opts) (Some e) (Some (pr_escape_held (po_product s))) of
             (h, rising) \<Rightarrow> (the h, rising)) = (a, esc)" by fastforce
  then have rises: "escape_rises opts s e = esc"
    by (auto simp: escape_rises_def split: if_splits prod.splits)
  obtain b shot where shot: "(case binding_rising (po_devices s) (op_screenshot opts) (Some e)
      (Some (pr_shot_held (po_product s))) of (h, rising) \<Rightarrow> (the h, rising)) = (b, shot)" by fastforce
  obtain mb mp where be: "button_for_event (po_devices s) (op_keys opts) (Some e) = (mb, mp)" by fastforce
  obtain press release where bf: "buttons_for_event (po_devices s) (op_keys opts) (Some e) = (press, release)"
    by fastforce
  let ?s = "s\<lparr>po_product := (po_product s)\<lparr>pr_escape_held := a, pr_shot_held := b\<rparr>\<rparr>"
  let ?lr = "key_down_of [SDLK_LEFT, SDLK_RIGHT] e" and ?enter = "key_down_of [SDLK_RETURN, SDLK_KP_ENTER] e"
  have held: "exit_stage ?s = exit_stage s" "role_exit ?s = role_exit s" "poll_ok ?s"
    using assms(1) by (simp_all add: exit_stage_def role_exit_def poll_ok_def held_ok)
  have shown: "pr_confirming ((po_product s)\<lparr>pr_escape_held := a, pr_shot_held := b\<rparr>) =
      pr_confirming (po_product s)" by simp
  note eqs = input_step_def Let_def esc shot be bf prod.case shown
  have "(?stays \<longrightarrow> ?stage) \<and> ?ends"
  proof (cases "pr_confirming (po_product s)")
    case True
    have eq: "input_step opts e s = confirming_event esc ?enter ?lr mb (mp = Some True) ?s"
      using True by (simp only: eqs if_True)
    have ok: "product_ok (po_product ?s)" "pr_confirming (po_product ?s)"
      using held(3) True by (simp_all add: poll_ok_def)
    have move: "exit_move opts s (InputEvent e) = (if esc then CancelExit
       else if ?lr \<or> (mp = Some True \<and> mb AND (BTN_LEFT OR BTN_RIGHT) \<noteq> 0) then ToggleAnswer
       else if ?enter \<or> (mp = Some True \<and> mb AND BTN_A \<noteq> 0) then ConfirmAnswer else NoMove)"
      using assms(2) True rises be
      by (auto simp: exit_move_def menu_input_def key_down_of_def split: sdl_event.split)
    show ?thesis
      unfolding eq move using confirming_stage [OF ok refl,
          where esc = esc and enter = ?enter and lr = ?lr and mb = mb and pressed = "mp = Some True",
          unfolded held(1,2)]
      by blast
  next
    case False
    have "exit_move opts s (InputEvent e) = (if esc then AskExit else NoMove)"
      using False assms(2) rises by (auto simp: exit_move_def)
    then show ?thesis
      using False request_stage [OF held(3)] by (simp add: eqs) (simp add: exit_stage_def Let_def)
  qed
  then show "?stays \<Longrightarrow> ?stage" ?ends by blast+
qed

text \<open>The refinement: an event moves the stage as the dialog does, and only a confirmed Yes ends.\<close>

lemma poll_event_move:
  assumes "poll_ok s"
  shows "snd (poll_event opts event s) = ExitContinue \<Longrightarrow>
      exit_stage (fst (poll_event opts event s)) = exit_dialog (exit_move opts s event) (exit_stage s)"
    (is "?stays \<Longrightarrow> ?stage")
    and "snd (poll_event opts event s) =
      (if exit_move opts s event = ConfirmAnswer \<and> exit_stage s = 2 then role_exit s else ExitContinue)"
    (is ?ends)
proof -
  have "(?stays \<longrightarrow> ?stage) \<and> ?ends"
  proof (cases event)
    case (DeviceChange connected e)
    then show ?thesis by (cases e) (simp_all add: poll_event_def exit_move_def exit_stage_def Let_def)
  next
    case (WindowClose ours)
    then show ?thesis using request_stage [OF assms] by (simp add: poll_event_def exit_move_def)
  next
    case (InputEvent e)
    then show ?thesis
      using request_stage [OF assms] input_step_move [OF assms, of e opts]
      by (cases "e = SdlQuit \<and> \<not> op_headless opts") (auto simp: poll_event_def exit_move_def)
  qed (simp_all add: poll_event_def exit_move_def exit_stage_def)
  then show "?stays \<Longrightarrow> ?stage" ?ends by blast+
qed

text \<open>While the dialog is open nothing but toggles has reached it since it was last asked.\<close>

lemma exit_dialog_open:
  assumes "fold exit_dialog moves k = j" "0 < j" "k \<le> 2"
  shows "j \<le> 2 \<and> ((\<exists>earlier since. moves = earlier @ AskExit # since \<and>
        set since \<subseteq> {ToggleAnswer, NoMove} \<and> even (j + 1 + count_list since ToggleAnswer)) \<or>
      (0 < k \<and> set moves \<subseteq> {ToggleAnswer, NoMove} \<and> even (j + k + count_list moves ToggleAnswer)))"
  using assms
proof (induction moves arbitrary: j rule: rev_induct)
  case Nil
  then show ?case by simp
next
  case (snoc m ms)
  let ?i = "fold exit_dialog ms k"
  show ?case
  proof (cases "m = AskExit")
    case True
    then have "ms @ [m] = ms @ AskExit # []" "j = 1" using snoc.prems by simp_all
    then show ?thesis by fastforce
  next
    case False
    then have m: "m = ToggleAnswer \<or> m = NoMove" and pos: "0 < ?i"
      using snoc.prems by (cases m; simp split: if_splits)+
    note IH = snoc.IH [OF refl pos snoc.prems(3)]
    have j: "even (j + n + count_list (l @ [m]) ToggleAnswer) = even (?i + n + count_list l ToggleAnswer)"
      for n l using m snoc.prems IH pos by (auto simp: count_list_append)
    have "j = (if m = ToggleAnswer then 3 - ?i else ?i)" using m pos snoc.prems(1) by auto
    then have "j \<le> 2" using pos IH by (simp split: if_splits)
    from IH consider earlier since where "ms = earlier @ AskExit # since"
        "set since \<subseteq> {ToggleAnswer, NoMove}" "even (?i + 1 + count_list since ToggleAnswer)"
      | "0 < k" "set ms \<subseteq> {ToggleAnswer, NoMove}" "even (?i + k + count_list ms ToggleAnswer)" by blast
    then show ?thesis
    proof cases
      case 1
      then have "ms @ [m] = earlier @ AskExit # (since @ [m])" "set (since @ [m]) \<subseteq> {ToggleAnswer, NoMove}"
        using m by auto
      moreover have "even (j + 1 + count_list (since @ [m]) ToggleAnswer)" using 1 by (simp only: j)
      ultimately show ?thesis using \<open>j \<le> 2\<close> by blast
    next
      case 2
      then have "set (ms @ [m]) \<subseteq> {ToggleAnswer, NoMove}" using m by auto
      moreover have "even (j + k + count_list (ms @ [m]) ToggleAnswer)" using 2 by (simp only: j)
      ultimately show ?thesis using 2 \<open>j \<le> 2\<close> by blast
    qed
  qed
qed

lemma poll_event_role [simp]: "pr_role (po_product (fst (poll_event opts event s))) = pr_role (po_product s)"
proof (cases event)
  case (DeviceChange connected e)
  then show ?thesis by (cases e) (simp_all add: poll_event_def Let_def)
next
  case (InputEvent e)
  have "pr_role (po_product (fst (input_step opts e s))) = pr_role (po_product s)"
    by (cases rule: input_step_cases [of s opts e])
       (simp_all add: confirming_event_def show_confirmation_def product_ops poll_request_exit_def Let_def)
  then show ?thesis
    using InputEvent by (simp add: poll_event_def poll_request_exit_def product_ops Let_def)
qed (simp_all add: poll_event_def poll_request_exit_def product_ops Let_def)

lemma poll_input_ok: "poll_ok s \<Longrightarrow> poll_ok (fst (poll_input opts events s))"
proof (induction events arbitrary: s)
  case (Cons e es)
  then show ?case using poll_event_ok [of s opts e] by (cases "poll_event opts e s") simp
qed simp

lemma poll_input_role: "pr_role (po_product (fst (poll_input opts events s))) = pr_role (po_product s)"
proof (induction events arbitrary: s)
  case (Cons e es)
  then show ?case using poll_event_role [of opts e s] by (cases "poll_event opts e s") simp
qed simp

text \<open>
  A session as the loops see it: polls, the neutral flag taken, buttons dropped when the relay
  announces a pause.
\<close>

inductive host_session :: "poll_options \<Rightarrow> int \<Rightarrow> poll \<Rightarrow> bool" for opts role where
  opened: "product_init role = (p, True) \<Longrightarrow>
     host_session opts role \<lparr>po_product = p, po_devices = devs, po_screenshot = False, po_shown = (False, False)\<rparr>"
| polled: "host_session opts role s \<Longrightarrow>
     host_session opts role (fst (poll_input opts events (s\<lparr>po_screenshot := False\<rparr>)))"
| taken: "host_session opts role s \<Longrightarrow>
     host_session opts role (s\<lparr>po_product := fst (product_take_neutral (po_product s))\<rparr>)"
| paused: "host_session opts role s \<Longrightarrow>
     host_session opts role (s\<lparr>po_product := (po_product s)\<lparr>pr_buttons := 0\<rparr>\<rparr>)"

inductive_cases host_session_E: "host_session opts role s"

lemma host_session_ok: "host_session opts role s \<Longrightarrow> poll_ok s \<and> pr_role (po_product s) = role"
proof (induction rule: host_session.induct)
  case (opened p devs)
  then show ?case
    by (auto simp: poll_ok_def product_ok_def product_init_def product_zero_def split: if_splits)
next
  case (polled s events)
  have "poll_ok (s\<lparr>po_screenshot := False\<rparr>)" using polled by (simp add: poll_ok_def)
  then show ?case using polled poll_input_ok poll_input_role by simp
next
  case (taken s)
  then show ?case by (auto simp: poll_ok_def product_ok_def product_ops)
next
  case (paused s)
  then show ?case by (auto simp: poll_ok_def product_ok_def)
qed

text \<open>
  C25: at every point of a session the confirmation shown is the one the player is in, nothing is
  held while it is shown or the window has no focus, and Yes is never selected outside it.
\<close>

theorem product_session_invariant:
  assumes "host_session opts role s"
  shows "po_shown s = (pr_confirming (po_product s), pr_yes (po_product s)) \<and>
    (if pr_confirming (po_product s) \<or> \<not> pr_focused (po_product s) then pr_buttons (po_product s) = 0
     else \<not> pr_yes (po_product s))"
  using host_session_ok [OF assms] by (auto simp: poll_ok_def product_ok_def split: if_splits)

lemma poll_input_exit:
  assumes "poll_ok s" "snd (poll_input opts events s) \<noteq> ExitContinue"
  shows "\<exists>pre e rest s'. events = pre @ e # rest \<and> poll_input opts pre s = (s', ExitContinue) \<and> poll_ok s' \<and>
    exit_move opts s' e = ConfirmAnswer \<and> exit_stage s' = 2 \<and>
    fold exit_dialog (exit_moves opts pre s) (exit_stage s) = exit_stage s' \<and>
    snd (poll_input opts events s) = role_exit s"
  using assms
proof (induction events arbitrary: s)
  case (Cons e es)
  obtain s1 sel where step: "poll_event opts e s = (s1, sel)" by fastforce
  note move = poll_event_move [OF Cons.prems(1), of opts e]
  show ?case
  proof (cases "sel = ExitContinue")
    case True
    have s1: "poll_ok s1" "role_exit s1 = role_exit s"
      "exit_stage s1 = exit_dialog (exit_move opts s e) (exit_stage s)"
      using poll_event_ok [OF Cons.prems(1), of opts e] poll_event_role [of opts e s] move(1) step True
      by (simp_all add: role_exit_def)
    have "snd (poll_input opts es s1) \<noteq> ExitContinue" using Cons.prems(2) step True by simp
    from Cons.IH [OF s1(1) this] obtain pre f rest s' where pre: "es = pre @ f # rest"
      "poll_input opts pre s1 = (s', ExitContinue)" "poll_ok s'" "exit_move opts s' f = ConfirmAnswer"
      "exit_stage s' = 2" "fold exit_dialog (exit_moves opts pre s1) (exit_stage s1) = exit_stage s'"
      "snd (poll_input opts es s1) = role_exit s1" by blast
    then show ?thesis
      using step True s1 by (intro exI [of _ "e # pre"] exI [of _ f] exI [of _ rest] exI [of _ s']) simp
  next
    case False
    then have "exit_move opts s e = ConfirmAnswer" "exit_stage s = 2" "sel = role_exit s"
      using move(2) step by (simp_all split: if_splits)
    then show ?thesis
      using step False Cons.prems(1)
      by (intro exI [of _ "[]"] exI [of _ e] exI [of _ es] exI [of _ s]) simp
  qed
qed simp

text \<open>
  C28: polling ends the session only at an event that confirms (Return, keypad Enter or a press of
  the A button, no escape and no toggle) while the confirmation is on the screen with Yes selected,
  and with the player's role's own outcome. Since the exit was last asked for, by closing the
  window, quitting or the escape binding, nothing but toggles has reached the dialog, and an odd
  number of them; where it was already open when the poll began, the toggles since then lead from
  the answer selected then to Yes.
\<close>

theorem product_exit_confirmed:
  assumes "host_session opts role s"
    and "snd (poll_input opts events (s\<lparr>po_screenshot := False\<rparr>)) = selection" "selection \<noteq> ExitContinue"
  shows "selection = (if role = PRODUCT_HOST then ExitHostFinish else ExitRemoteLeave) \<and>
    (\<exists>pre e rest s'. events = pre @ e # rest \<and>
      poll_input opts pre (s\<lparr>po_screenshot := False\<rparr>) = (s', ExitContinue) \<and>
      po_shown s' = (True, True) \<and> exit_move opts s' e = ConfirmAnswer \<and>
      (let moves = exit_moves opts pre (s\<lparr>po_screenshot := False\<rparr>)
       in (\<exists>earlier since. moves = earlier @ AskExit # since \<and> set since \<subseteq> {ToggleAnswer, NoMove} \<and>
             odd (count_list since ToggleAnswer)) \<or>
          (fst (po_shown s) \<and> set moves \<subseteq> {ToggleAnswer, NoMove} \<and>
             (odd (count_list moves ToggleAnswer) \<noteq> snd (po_shown s)))))"
proof -
  let ?s = "s\<lparr>po_screenshot := False\<rparr>"
  have ok: "poll_ok s" "role = pr_role (po_product s)" using host_session_ok [OF assms(1)] by simp_all
  then have ok': "poll_ok ?s" by (simp add: poll_ok_def)
  have same: "exit_stage ?s = exit_stage s" "role_exit ?s = role_exit s"
    by (simp_all add: exit_stage_def role_exit_def)
  from poll_input_exit [OF ok', of opts events] assms obtain pre e rest s' where at:
    "events = pre @ e # rest" "poll_input opts pre ?s = (s', ExitContinue)" "poll_ok s'"
    "exit_move opts s' e = ConfirmAnswer" "exit_stage s' = 2"
    "fold exit_dialog (exit_moves opts pre ?s) (exit_stage s) = 2" "selection = role_exit s"
    by (auto simp: same)
  have shown: "po_shown s' = (True, True)"
    using at(3,5) by (auto simp: poll_ok_def exit_stage_def split: if_splits)
  have stage: "exit_stage s = (if \<not> fst (po_shown s) then 0 else if snd (po_shown s) then 2 else 1)"
    using ok(1) by (simp add: poll_ok_def exit_stage_def)
  have role: "selection = (if role = PRODUCT_HOST then ExitHostFinish else ExitRemoteLeave)"
    using at(7) ok(2) by (simp add: role_exit_def)
  have "exit_stage s \<le> 2" by (simp add: exit_stage_def)
  from exit_dialog_open [OF at(6) _ this] consider
    earlier since where "exit_moves opts pre ?s = earlier @ AskExit # since"
      "set since \<subseteq> {ToggleAnswer, NoMove}" "odd (count_list since ToggleAnswer)"
    | "fst (po_shown s)" "set (exit_moves opts pre ?s) \<subseteq> {ToggleAnswer, NoMove}"
      "odd (count_list (exit_moves opts pre ?s) ToggleAnswer) \<noteq> snd (po_shown s)"
    by (auto simp: stage split: if_splits)
  then show ?thesis using at(1,2,4) shown role unfolding Let_def by cases blast+
qed

definition sample_options :: poll_options where
  "sample_options = \<lparr>op_keys = slot1_default, op_escape = 27, op_screenshot = 112, op_headless = False\<rparr>"

definition sample_poll :: poll where
  "sample_poll = \<lparr>po_product = fst (product_init PRODUCT_HOST), po_devices = no_devices,
     po_screenshot = False, po_shown = (False, False)\<rparr>"

lemma sample_session: "host_session sample_options PRODUCT_HOST sample_poll"
  unfolding sample_poll_def by (rule host_session.opened) (simp add: product_init_def)

definition sample_events :: "host_event list" where
  "sample_events = [InputEvent (KeyDown 122 29 False), WindowClose True,
     InputEvent (KeyDown SDLK_LEFT 0 False), InputEvent (KeyDown SDLK_RETURN 0 False)]"

theorem product_session_invariant_witness:
  "pr_buttons (po_product (fst (poll_input sample_options [InputEvent (KeyDown 122 29 False), WindowClose True]
     (sample_poll\<lparr>po_screenshot := False\<rparr>)))) = 0"
  (is "pr_buttons (po_product ?s) = 0")
proof -
  have "pr_confirming (po_product ?s)" by code_simp
  then show ?thesis
    using product_session_invariant [OF host_session.polled [OF sample_session,
        of "[InputEvent (KeyDown 122 29 False), WindowClose True]"]] by simp
qed

theorem product_exit_confirmed_witness:
  "\<exists>pre e rest. sample_events = pre @ e # rest \<and>
     exit_move sample_options (fst (poll_input sample_options pre sample_poll)) e = ConfirmAnswer \<and>
     AskExit \<in> set (exit_moves sample_options pre sample_poll)"
proof -
  have same: "sample_poll\<lparr>po_screenshot := False\<rparr> = sample_poll" by (simp add: sample_poll_def)
  have "snd (poll_input sample_options sample_events (sample_poll\<lparr>po_screenshot := False\<rparr>)) = ExitHostFinish"
    by code_simp
  from product_exit_confirmed [OF sample_session this, unfolded same Let_def]
  obtain pre e rest s' where at: "sample_events = pre @ e # rest"
    "poll_input sample_options pre sample_poll = (s', ExitContinue)"
    "exit_move sample_options s' e = ConfirmAnswer" "AskExit \<in> set (exit_moves sample_options pre sample_poll)"
    by (fastforce simp: sample_poll_def)
  then show ?thesis by (intro exI [of _ pre] exI [of _ e] exI [of _ rest]) simp
qed

end
