(* ===== verification/FileStore.thy ===== *)
theory FileStore
  imports CText
begin

text \<open>
  Files as the client sees them, and the operations of \<open>c_client/client_file_io.c\<close> on them. A
  store maps paths to contents. Every library or system call takes one outcome off a script: it
  succeeds, fails after some octets, or the process dies in the middle of it, after which no call
  has an effect. A theorem for every script is thus a theorem about every fault and about every
  point at which the process can be killed. The file system itself is assumed to replace a name
  atomically in \<open>rename\<close>, as POSIX documents; power loss is not modelled. Permissions are not
  modelled: the calls that set them can only fail.
\<close>

section \<open>The store\<close>

datatype io = IoDone | IoFail nat | IoCrash nat

record fs =
  files :: "string \<Rightarrow> bytes option"
  script :: "io list"
  crashed :: bool

definition io_next :: "fs \<Rightarrow> fs \<times> io" where
  "io_next s =
     (if crashed s then (s, IoFail 0)
      else case script s of
             [] \<Rightarrow> (s, IoDone)
           | IoCrash k # xs \<Rightarrow> (s\<lparr>script := xs, crashed := True\<rparr>, IoCrash k)
           | x # xs \<Rightarrow> (s\<lparr>script := xs\<rparr>, x))"

definition set_file :: "string \<Rightarrow> bytes option \<Rightarrow> fs \<Rightarrow> fs" where
  "set_file p content s = s\<lparr>files := (files s)(p := content)\<rparr>"

text \<open>A call without an effect on the store: \<open>fchmod\<close>, \<open>fdopen\<close>, \<open>fseek\<close>, \<open>fsync\<close>, \<open>malloc\<close>, \<open>mkdir\<close>.\<close>

definition fs_call :: "fs \<Rightarrow> fs \<times> bool" where
  "fs_call s = (case io_next s of (s', r) \<Rightarrow> (s', r = IoDone))"

definition fs_open :: "string \<Rightarrow> fs \<Rightarrow> fs \<times> bytes option" where
  "fs_open p s = (case io_next s of (s', r) \<Rightarrow> (s', if r = IoDone then files s' p else None))"

definition fs_create :: "string \<Rightarrow> fs \<Rightarrow> fs \<times> bool" where
  "fs_create p s =
     (case io_next s of
        (s', IoDone) \<Rightarrow> (set_file p (Some []) s', True)
      | (s', IoFail k) \<Rightarrow> (s', False)
      | (s', IoCrash k) \<Rightarrow> (if k = 0 then s' else set_file p (Some []) s', False))"

definition content :: "string \<Rightarrow> fs \<Rightarrow> bytes" where
  "content p s = (case files s p of None \<Rightarrow> [] | Some d \<Rightarrow> d)"

definition fs_write :: "string \<Rightarrow> bytes \<Rightarrow> fs \<Rightarrow> fs \<times> bool" where
  "fs_write p data s =
     (case io_next s of
        (s', IoDone) \<Rightarrow> (set_file p (Some (content p s' @ data)) s', True)
      | (s', IoFail k) \<Rightarrow> (if crashed s' then s' else set_file p (Some (content p s' @ take k data)) s', False)
      | (s', IoCrash k) \<Rightarrow> (set_file p (Some (content p s' @ take k data)) s', False))"

text \<open>\<open>fflush\<close> or \<open>fclose\<close>: a failure may lose what was still buffered.\<close>

definition fs_flush :: "string \<Rightarrow> fs \<Rightarrow> fs \<times> bool" where
  "fs_flush p s =
     (case io_next s of
        (s', IoDone) \<Rightarrow> (s', True)
      | (s', IoFail k) \<Rightarrow> (if crashed s' then s' else set_file p (Some (take k (content p s'))) s', False)
      | (s', IoCrash k) \<Rightarrow> (set_file p (Some (take k (content p s'))) s', False))"

definition fs_rename :: "string \<Rightarrow> string \<Rightarrow> fs \<Rightarrow> fs \<times> bool" where
  "fs_rename a b s =
     (let moved = (\<lambda>t. if files t a = None then t else set_file a None (set_file b (files t a) t))
      in case io_next s of
           (s', IoDone) \<Rightarrow> (moved s', files s' a \<noteq> None)
         | (s', IoFail k) \<Rightarrow> (s', False)
         | (s', IoCrash k) \<Rightarrow> (if k = 0 then s' else moved s', False))"

datatype remove_result = Removed | NoEntry | RemoveFailed

definition fs_remove :: "string \<Rightarrow> fs \<Rightarrow> fs \<times> remove_result" where
  "fs_remove p s =
     (case io_next s of
        (s', IoDone) \<Rightarrow> (if files s' p = None then (s', NoEntry) else (set_file p None s', Removed))
      | (s', IoFail k) \<Rightarrow> (s', RemoveFailed)
      | (s', IoCrash k) \<Rightarrow> (if k = 0 then s' else set_file p None s', RemoveFailed))"

text \<open>\<open>fread\<close> of at most \<open>n\<close> octets: the octets and whether \<open>ferror\<close> is then set.\<close>

definition fs_read :: "nat \<Rightarrow> bytes \<Rightarrow> fs \<Rightarrow> fs \<times> bytes \<times> bool" where
  "fs_read n rest s =
     (case io_next s of
        (s', IoDone) \<Rightarrow> (s', take n rest, False)
      | (s', IoFail k) \<Rightarrow> (s', take k (take n rest), True)
      | (s', IoCrash k) \<Rightarrow> (s', [], True))"

section \<open>The client's file operations\<close>

definition CONFIG_PATH_MAX :: nat where "CONFIG_PATH_MAX = 1024"
definition MAX_SAVE_BYTES :: nat where "MAX_SAVE_BYTES = 128 * 1024 + 48"

text \<open>None stands for the result -1.\<close>

definition read_binary_file :: "string \<Rightarrow> nat \<Rightarrow> fs \<Rightarrow> fs \<times> bytes option" where
  "read_binary_file p cap s =
     (case fs_open p s of
        (s1, None) \<Rightarrow> (s1, None)
      | (s1, Some d) \<Rightarrow>
          (case fs_read cap d s1 of
             (s2, got, err) \<Rightarrow>
               (case fs_call s2 of
                  (s3, could) \<Rightarrow>
                    let extra = could \<and> length got < length d
                    in (s3, if err \<or> extra then None else Some got))))"

definition read_binary_file_alloc :: "string \<Rightarrow> nat \<Rightarrow> fs \<Rightarrow> fs \<times> bytes option" where
  "read_binary_file_alloc p limit s =
     (case fs_open p s of
        (s1, None) \<Rightarrow> (s1, None)
      | (s1, Some d) \<Rightarrow>
          (case fs_call s1 of
             (s2, False) \<Rightarrow> (s2, None)
           | (s2, True) \<Rightarrow>
               (case fs_call s2 of
                  (s3, False) \<Rightarrow> (s3, None)
                | (s3, True) \<Rightarrow>
                    if limit < length d then (s3, None)
                    else (case fs_call s3 of
                            (s4, False) \<Rightarrow> (s4, None)
                          | (s4, True) \<Rightarrow>
                              if length d = 0 then (s4, Some [])
                              else (case fs_call s4 of
                                      (s5, False) \<Rightarrow> (s5, None)
                                    | (s5, True) \<Rightarrow>
                                        (case fs_read (length d) d s5 of
                                           (s6, got, err) \<Rightarrow>
                                             (s6, if \<not> err \<and> length got = length d then Some got
                                                  else None)))))))"

definition write_opened :: "string \<Rightarrow> bytes \<Rightarrow> fs \<Rightarrow> fs \<times> bool" where
  "write_opened p data s =
     (case (if data \<noteq> [] then fs_write p data s else (s, True)) of
        (s1, written) \<Rightarrow>
          (case fs_flush p s1 of
             (s2, flushed) \<Rightarrow>
               (case (if flushed then fs_call s2 else (s2, False)) of
                  (s3, synced) \<Rightarrow>
                    (case fs_flush p s3 of
                       (s4, closed) \<Rightarrow> (s4, written \<and> synced \<and> closed)))))"

definition write_private_runtime_file :: "string \<Rightarrow> bytes \<Rightarrow> fs \<Rightarrow> fs \<times> bool" where
  "write_private_runtime_file p data s =
     (case fs_create p s of
        (s1, False) \<Rightarrow> (s1, False)
      | (s1, True) \<Rightarrow>
          (case fs_call s1 of
             (s2, False) \<Rightarrow> (s2, False)
           | (s2, True) \<Rightarrow>
               (case fs_call s2 of
                  (s3, False) \<Rightarrow> (s3, False)
                | (s3, True) \<Rightarrow> write_opened p data s3)))"

definition temp_path :: "string \<Rightarrow> nat \<Rightarrow> string" where
  "temp_path p pid = copy_text CONFIG_PATH_MAX (p @ ''.tmp.'' @ dec pid)"

definition atomic_replace_binary_file :: "nat \<Rightarrow> string \<Rightarrow> bytes \<Rightarrow> fs \<Rightarrow> fs \<times> bool" where
  "atomic_replace_binary_file pid p data s =
     (case write_private_runtime_file (temp_path p pid) data s of
        (s1, False) \<Rightarrow> (s1, False)
      | (s1, True) \<Rightarrow>
          (case fs_rename (temp_path p pid) p s1 of
             (s2, True) \<Rightarrow> (s2, True)
           | (s2, False) \<Rightarrow> (fst (fs_remove (temp_path p pid) s2), False)))"

definition copy_binary_file_limited :: "string \<Rightarrow> string \<Rightarrow> nat \<Rightarrow> fs \<Rightarrow> fs \<times> bool" where
  "copy_binary_file_limited src dest limit s =
     (case read_binary_file_alloc src limit s of
        (s1, None) \<Rightarrow> (s1, False)
      | (s1, Some d) \<Rightarrow> write_private_runtime_file dest d s1)"

definition local_file_exists :: "string \<Rightarrow> fs \<Rightarrow> bool" where
  "local_file_exists p s \<longleftrightarrow> p \<noteq> [] \<and> files s p \<noteq> None"

section \<open>What the operations can change\<close>

text \<open>
  \<open>fs_step P s s'\<close>: only paths in \<open>P\<close> changed, a dead process stays dead, and a process dead
  before the step changed nothing.
\<close>

definition fs_step :: "string set \<Rightarrow> fs \<Rightarrow> fs \<Rightarrow> bool" where
  "fs_step P s s' \<longleftrightarrow> (\<forall>q. q \<notin> P \<longrightarrow> files s' q = files s q) \<and>
     (crashed s \<longrightarrow> crashed s' \<and> files s' = files s)"

lemma fs_step_refl [simp]: "fs_step P s s"
  by (simp add: fs_step_def)

lemma fs_step_trans [trans]: "fs_step P s t \<Longrightarrow> fs_step P t u \<Longrightarrow> fs_step P s u"
  by (simp add: fs_step_def)

lemma fs_step_mono: "fs_step P s t \<Longrightarrow> P \<subseteq> Q \<Longrightarrow> fs_step Q s t"
  by (auto simp: fs_step_def)

lemma fs_step_file: "fs_step P s t \<Longrightarrow> q \<notin> P \<Longrightarrow> files t q = files s q"
  by (simp add: fs_step_def)

lemma fs_step_crashed: "fs_step P s t \<Longrightarrow> crashed s \<Longrightarrow> crashed t \<and> files t = files s"
  by (simp add: fs_step_def)

lemma fs_step_alive: "fs_step P s t \<Longrightarrow> \<not> crashed t \<Longrightarrow> \<not> crashed s"
  by (auto simp: fs_step_def)

text \<open>An outcome changes no file; a success means the process is alive, a crash that it died here.\<close>

lemma io_next_files: "io_next s = (s', r) \<Longrightarrow> files s' = files s"
  by (auto simp: io_next_def split: if_splits list.splits io.splits)

lemma io_next_step: "io_next s = (s', r) \<Longrightarrow> fs_step {} s s'"
  by (auto simp: fs_step_def io_next_def split: if_splits list.splits io.splits)

lemma io_next_done: "io_next s = (s', IoDone) \<Longrightarrow> \<not> crashed s \<and> \<not> crashed s'"
  by (auto simp: io_next_def split: if_splits list.splits io.splits)

lemma io_next_crash: "io_next s = (s', IoCrash k) \<Longrightarrow> \<not> crashed s \<and> crashed s'"
  by (auto simp: io_next_def split: if_splits list.splits io.splits)

lemma io_next_fail: "io_next s = (s', IoFail k) \<Longrightarrow> crashed s' = crashed s"
  by (auto simp: io_next_def split: if_splits list.splits io.splits)

lemma files_set_file [simp]: "files (set_file p c s) = (files s)(p := c)"
  by (simp add: set_file_def)

lemma crashed_set_file [simp]: "crashed (set_file p c s) = crashed s"
  by (simp add: set_file_def)

lemma script_set_file [simp]: "script (set_file p c s) = script s"
  by (simp add: set_file_def)

named_theorems fs_effect "what one call does to the store"

lemma fs_call_effect [fs_effect]: "fs_call s = (s', ok) \<Longrightarrow> files s' = files s"
  by (auto simp: fs_call_def dest: io_next_files split: prod.splits)

lemma fs_call_step: "fs_call s = (s', ok) \<Longrightarrow> fs_step P s s'"
  by (auto simp: fs_call_def dest!: io_next_step intro: fs_step_mono split: prod.splits)

lemma fs_open_step: "fs_open p s = (s', r) \<Longrightarrow> fs_step P s s'"
  by (auto simp: fs_open_def dest!: io_next_step intro: fs_step_mono split: prod.splits)

lemma fs_open_Some: "fs_open p s = (s', Some d) \<Longrightarrow> files s p = Some d"
  by (auto simp: fs_open_def dest: io_next_files split: prod.splits if_splits)

lemma fs_read_step: "fs_read n rest s = (s', got, err) \<Longrightarrow> fs_step P s s'"
  by (auto simp: fs_read_def dest!: io_next_step intro: fs_step_mono split: prod.splits io.splits)

lemma fs_read_ok: "fs_read n rest s = (s', got, False) \<Longrightarrow> got = take n rest"
  by (auto simp: fs_read_def split: prod.splits io.splits)

lemma fs_read_full:
  assumes "fs_read n rest s = (s', got, err)" "length got = n"
  shows "got = take n rest" "n \<le> length rest"
proof -
  obtain m where m: "got = take m rest" "m \<le> n"
    using assms(1) by (auto simp: fs_read_def split: prod.splits io.splits)
  then have "n \<le> m" "n \<le> length rest" using assms(2) by auto
  then show "got = take n rest" "n \<le> length rest" using m by auto
qed

lemma fs_create_step: "fs_create p s = (s', ok) \<Longrightarrow> fs_step {p} s s'"
  by (auto simp: fs_create_def fs_step_def dest: io_next_files io_next_done io_next_crash io_next_fail
      split: prod.splits io.splits if_splits)

lemma fs_create_ok: "fs_create p s = (s', True) \<Longrightarrow> files s' p = Some []"
  by (auto simp: fs_create_def split: prod.splits io.splits)

lemma fs_write_step: "fs_write p data s = (s', ok) \<Longrightarrow> fs_step {p} s s'"
  by (auto simp: fs_write_def fs_step_def dest: io_next_files io_next_done io_next_crash io_next_fail
      split: prod.splits io.splits if_splits)

lemma fs_write_ok: "fs_write p data s = (s', True) \<Longrightarrow> files s' p = Some (content p s @ data)"
  by (auto simp: fs_write_def content_def dest: io_next_files split: prod.splits io.splits)

lemma fs_flush_step: "fs_flush p s = (s', ok) \<Longrightarrow> fs_step {p} s s'"
  by (auto simp: fs_flush_def fs_step_def dest: io_next_files io_next_done io_next_crash io_next_fail
      split: prod.splits io.splits if_splits)

lemma fs_flush_ok: "fs_flush p s = (s', True) \<Longrightarrow> files s' = files s"
  by (auto simp: fs_flush_def dest: io_next_files split: prod.splits io.splits)

lemma fs_rename_step: "fs_rename a b s = (s', ok) \<Longrightarrow> fs_step {a, b} s s'"
  by (auto simp: fs_rename_def fs_step_def Let_def
      dest: io_next_files io_next_done io_next_crash io_next_fail split: prod.splits io.splits if_splits)

lemma fs_rename_target:
  "fs_rename a b s = (s', ok) \<Longrightarrow> a \<noteq> b \<Longrightarrow>
     files s' b = files s b \<or> (files s' b = files s a \<and> files s a \<noteq> None)"
  by (auto simp: fs_rename_def Let_def dest: io_next_files split: prod.splits io.splits if_splits)

lemma fs_rename_ok: "fs_rename a b s = (s', True) \<Longrightarrow> a \<noteq> b \<Longrightarrow> files s' b = files s a"
  by (auto simp: fs_rename_def Let_def dest: io_next_files split: prod.splits io.splits if_splits)

lemma fs_rename_failed:
  "fs_rename a b s = (s', False) \<Longrightarrow> \<not> crashed s' \<Longrightarrow> files s a \<noteq> None \<Longrightarrow> files s' = files s"
  by (auto simp: fs_rename_def Let_def dest: io_next_files io_next_crash split: prod.splits io.splits if_splits)

lemma fs_remove_step: "fs_remove p s = (s', r) \<Longrightarrow> fs_step {p} s s'"
  by (auto simp: fs_remove_def fs_step_def dest: io_next_files io_next_done io_next_crash io_next_fail
      split: prod.splits io.splits if_splits)

lemma fs_remove_ok: "fs_remove p s = (s', r) \<Longrightarrow> r \<noteq> RemoveFailed \<Longrightarrow> files s' p = None"
  by (auto simp: fs_remove_def split: prod.splits io.splits if_splits)

lemma fs_remove_failed: "fs_remove p s = (s', RemoveFailed) \<Longrightarrow> \<not> crashed s' \<Longrightarrow> files s' = files s"
  by (auto simp: fs_remove_def dest: io_next_files io_next_crash split: prod.splits io.splits if_splits)

section \<open>The client's operations\<close>

lemma read_binary_file_step: "read_binary_file p cap s = (s', r) \<Longrightarrow> fs_step P s s'"
  by (auto simp: read_binary_file_def Let_def
        dest!: fs_call_step [where P = P] fs_open_step [where P = P] fs_read_step [where P = P]
        split: prod.splits option.splits; meson fs_step_trans)

lemma read_binary_file_alloc_step: "read_binary_file_alloc p limit s = (s', r) \<Longrightarrow> fs_step P s s'"
  by (auto simp: read_binary_file_alloc_def
        dest!: fs_call_step [where P = P] fs_open_step [where P = P] fs_read_step [where P = P]
        split: prod.splits option.splits bool.splits if_splits; meson fs_step_trans)

lemma read_binary_file_alloc_Some:
  "read_binary_file_alloc p limit s = (s', Some d) \<Longrightarrow> files s p = Some d \<and> length d \<le> limit"
  by (auto simp: read_binary_file_alloc_def dest!: fs_open_Some fs_read_ok
      split: prod.splits option.splits bool.splits if_splits)

lemma write_opened_step: "write_opened p data s = (s', ok) \<Longrightarrow> fs_step {p} s s'"
  by (auto simp: write_opened_def dest!: fs_write_step fs_flush_step fs_call_step [where P = "{p}"]
      split: prod.splits if_splits; meson fs_step_trans)

lemma write_opened_ok:
  "write_opened p data s = (s', True) \<Longrightarrow> files s p = Some [] \<Longrightarrow> files s' p = Some data"
  by (auto simp: write_opened_def content_def dest!: fs_write_ok fs_flush_ok fs_call_effect
      split: prod.splits if_splits)

lemma write_private_step: "write_private_runtime_file p data s = (s', ok) \<Longrightarrow> fs_step {p} s s'"
  by (auto simp: write_private_runtime_file_def
      dest!: fs_create_step write_opened_step fs_call_step [where P = "{p}"]
      split: prod.splits bool.splits; meson fs_step_trans)

lemma write_private_ok: "write_private_runtime_file p data s = (s', True) \<Longrightarrow> files s' p = Some data"
  by (auto simp: write_private_runtime_file_def dest!: fs_create_ok fs_call_effect write_opened_ok
      split: prod.splits bool.splits)

lemma atomic_replace_step:
  assumes "atomic_replace_binary_file pid p data s = (s', ok)"
  shows "fs_step {p, temp_path p pid} s s'"
proof -
  let ?t = "temp_path p pid" let ?P = "{p, temp_path p pid}"
  obtain s1 w where w: "write_private_runtime_file ?t data s = (s1, w)" by fastforce
  obtain s2 m where m: "fs_rename ?t p s1 = (s2, m)" by fastforce
  obtain s3 r where r: "fs_remove ?t s2 = (s3, r)" by fastforce
  have "fs_step ?P s s1" "fs_step ?P s1 s2" "fs_step ?P s2 s3"
    using write_private_step [OF w] fs_rename_step [OF m] fs_remove_step [OF r]
    by (auto elim: fs_step_mono)
  then show ?thesis
    using assms w m r by (auto simp: atomic_replace_binary_file_def split: bool.splits; meson fs_step_trans)
qed

text \<open>
  The replacement is atomic: whatever fails and wherever the process dies, the name still has its
  old content or has all of the new one; success means the new one, and failure of a process that
  lives means the old one.
\<close>

lemma atomic_replace_target:
  assumes "atomic_replace_binary_file pid p data s = (s', ok)" "temp_path p pid \<noteq> p"
  shows "files s' p = files s p \<or> files s' p = Some data" (is ?a)
    and "ok \<Longrightarrow> files s' p = Some data"
    and "\<not> ok \<Longrightarrow> \<not> crashed s' \<Longrightarrow> files s' p = files s p"
proof -
  let ?t = "temp_path p pid"
  obtain s1 w where w: "write_private_runtime_file ?t data s = (s1, w)" by fastforce
  have same: "files s1 p = files s p"
    using fs_step_file [OF write_private_step [OF w]] assms(2) by auto
  obtain s2 m where m: "fs_rename ?t p s1 = (s2, m)" by fastforce
  obtain s3 r where r: "fs_remove ?t s2 = (s3, r)" by fastforce
  have s3: "files s3 p = files s2 p" using fs_step_file [OF fs_remove_step [OF r]] assms(2) by auto
  have new: "files s1 ?t = Some data" if w using write_private_ok [of ?t data s s1] w that by simp
  show ?a and "ok \<Longrightarrow> files s' p = Some data"
    using assms(1) w m r s3 same new fs_rename_target [OF m assms(2)] fs_rename_ok [of ?t p s1 s2] assms(2)
    by (auto simp: atomic_replace_binary_file_def split: bool.splits)
  show "\<not> ok \<Longrightarrow> \<not> crashed s' \<Longrightarrow> files s' p = files s p"
    using assms(1) w m r s3 same new fs_rename_failed [of ?t p s1 s2] fs_step_alive [OF fs_remove_step [OF r]]
    by (auto simp: atomic_replace_binary_file_def split: bool.splits)
qed

text \<open>With an empty script nothing fails.\<close>

definition calm :: "fs \<Rightarrow> bool" where
  "calm s \<longleftrightarrow> script s = [] \<and> \<not> crashed s"

lemma io_next_calm: "calm s \<Longrightarrow> io_next s = (s, IoDone)"
  by (simp add: calm_def io_next_def)

lemma calm_set_file [simp]: "calm (set_file p c s) = calm s"
  by (simp add: calm_def)

lemma fs_calm:
  assumes "calm s"
  shows "fs_call s = (s, True)" "fs_open p s = (s, files s p)" "fs_create p s = (set_file p (Some []) s, True)"
    "fs_write p data s = (set_file p (Some (content p s @ data)) s, True)" "fs_flush p s = (s, True)"
    "fs_read n rest s = (s, take n rest, False)"
  using assms
  by (simp_all add: io_next_calm fs_call_def fs_open_def fs_create_def fs_write_def fs_flush_def fs_read_def)

lemma read_binary_file_calm:
  "calm s \<Longrightarrow> read_binary_file p cap s =
     (s, case files s p of None \<Rightarrow> None | Some d \<Rightarrow> if length d \<le> cap then Some d else None)"
  by (auto simp: read_binary_file_def fs_calm Let_def split: option.splits)

lemma read_binary_file_alloc_calm:
  "calm s \<Longrightarrow> read_binary_file_alloc p limit s =
     (s, case files s p of None \<Rightarrow> None | Some d \<Rightarrow> if length d \<le> limit then Some d else None)"
  by (auto simp: read_binary_file_alloc_def fs_calm split: option.splits)

lemma content_set_file [simp]: "content p (set_file p (Some d) s) = d"
  by (simp add: content_def)

lemma set_file_twice [simp]: "set_file p a (set_file p b s) = set_file p a s"
  by (simp add: set_file_def)

lemma write_private_calm:
  "calm s \<Longrightarrow> write_private_runtime_file p data s = (set_file p (Some data) s, True)"
  by (simp add: write_private_runtime_file_def write_opened_def fs_calm)

lemma atomic_replace_calm:
  assumes "calm s" "temp_path p pid \<noteq> p"
  shows "atomic_replace_binary_file pid p data s = (set_file (temp_path p pid) None (set_file p (Some data) s), True)"
proof -
  let ?s = "set_file (temp_path p pid) (Some data) s"
  have "fs_rename (temp_path p pid) p ?s =
      (set_file (temp_path p pid) None (set_file p (Some data) ?s), True)"
    using assms(1) by (simp add: fs_rename_def io_next_calm Let_def)
  then show ?thesis
    using assms by (simp add: atomic_replace_binary_file_def write_private_calm)
qed

end
