(* ===== verification/SaveEnvelope.thy ===== *)
theory SaveEnvelope
  imports FileStore ContentHash
begin

text \<open>
  The upload envelope of \<open>c_client/client_save_outbox.c\<close>: the record that is on disk while a save
  is being uploaded, a line of tab-separated fields padded to 4096 octets and the save's bytes,
  with the field scanner all of the outbox uses.
\<close>

section \<open>Tab-separated fields\<close>

definition TAB :: char where "TAB = CHR 0x09"
definition LF :: char where "LF = CHR 0x0A"
definition CR :: char where "CR = CHR 0x0D"

definition tsv_value :: "string \<Rightarrow> string" where
  "tsv_value v = (if TAB \<in> set v then takeWhile (\<lambda>c. c \<noteq> TAB) v
                  else takeWhile (\<lambda>c. c \<noteq> CR \<and> c \<noteq> LF) v)"

function extract_tsv :: "string \<Rightarrow> string \<Rightarrow> string option" where
  "extract_tsv p key =
     (if p = [] then None
      else if take (length key + 1) p = key @ ''='' then Some (tsv_value (drop (length key + 1) p))
      else if TAB \<in> set p then extract_tsv (tl (dropWhile (\<lambda>c. c \<noteq> TAB) p)) key
      else None)"
  by pat_completeness auto
termination
proof (relation "measure (length \<circ> fst)")
  fix p key :: string
  assume "p \<noteq> []"
  then show "((tl (dropWhile (\<lambda>c. c \<noteq> TAB) p), key), (p, key)) \<in> measure (length \<circ> fst)"
    using length_dropWhile_le [of "\<lambda>c. c \<noteq> TAB" p] by (cases p) auto
qed simp

declare extract_tsv.simps [simp del]

definition extract_tsv_field :: "string \<Rightarrow> string \<Rightarrow> nat \<Rightarrow> string option" where
  "extract_tsv_field line key out_size = map_option (copy_text out_size) (extract_tsv line key)"

definition clean :: "string \<Rightarrow> bool" where
  "clean s \<longleftrightarrow> TAB \<notin> set s \<and> LF \<notin> set s \<and> CR \<notin> set s \<and> CHR 0x00 \<notin> set s"

section \<open>The envelope\<close>

definition INFLIGHT_HEADER :: nat where "INFLIGHT_HEADER = 4096"

record inflight =
  in_server :: string
  in_account :: string
  in_save_id :: string
  in_source :: string
  in_hash :: string
  in_request :: string
  in_error :: string
  in_revision :: int
  in_committed :: int
  in_bytes :: bytes

definition no_inflight :: inflight where
  "no_inflight = \<lparr>in_server = [], in_account = [], in_save_id = [], in_source = [], in_hash = [],
     in_request = [], in_error = [], in_revision = 0, in_committed = 0, in_bytes = []\<rparr>"

definition data_hash :: "bytes \<Rightarrow> string" where
  "data_hash data = sha256_hex (content_sha256 data)"

fun tsv_line :: "(string \<times> string) list \<Rightarrow> string" where
  "tsv_line [] = []"
| "tsv_line [(k, v)] = k @ ''='' @ v @ [LF]"
| "tsv_line ((k, v) # f # fs) = k @ ''='' @ v @ [TAB] @ tsv_line (f # fs)"

definition inflight_fields :: "inflight \<Rightarrow> (string \<times> string) list" where
  "inflight_fields e =
     [(''inflight'', ''1''), (''server'', in_server e), (''account'', in_account e),
      (''save_id'', in_save_id e), (''path'', in_source e), (''expected_revision'', dec_int (in_revision e)),
      (''committed'', dec_int (in_committed e)), (''sha256'', in_hash e), (''request_id'', in_request e),
      (''error'', in_error e)]"

definition inflight_bytes :: "inflight \<Rightarrow> bytes" where
  "inflight_bytes e =
     (let header = tsv_line (inflight_fields e)
      in text_bytes header @ replicate (INFLIGHT_HEADER - length header) 0 @ in_bytes e)"

definition inflight_write :: "nat \<Rightarrow> string \<Rightarrow> inflight \<Rightarrow> fs \<Rightarrow> fs \<times> bool" where
  "inflight_write pid path e s =
     (case fs_call s of
        (s1, False) \<Rightarrow> (s1, False)
      | (s1, True) \<Rightarrow>
          if length (tsv_line (inflight_fields e)) < INFLIGHT_HEADER
          then atomic_replace_binary_file pid path (inflight_bytes e) s1
          else (s1, False))"

text \<open>\<open>atoi\<close> converts the \<open>long\<close> of \<open>strtol\<close> to an \<open>int\<close>.\<close>

definition c_atoi :: "string \<Rightarrow> int" where
  "c_atoi s = signed_take_bit 31 (fst (c_strtol s))"

definition inflight_decode :: "bytes \<Rightarrow> inflight option" where
  "inflight_decode data =
     (if length data \<le> INFLIGHT_HEADER \<or> 0 \<notin> set (take INFLIGHT_HEADER data) then None
      else let line = bytes_text data; body = drop INFLIGHT_HEADER data in
        case extract_tsv_field line ''server'' 160 of None \<Rightarrow> None | Some server \<Rightarrow>
        (case extract_tsv_field line ''account'' 64 of None \<Rightarrow> None | Some account \<Rightarrow>
        (case extract_tsv_field line ''save_id'' 96 of None \<Rightarrow> None | Some save_id \<Rightarrow>
        (case extract_tsv_field line ''path'' CONFIG_PATH_MAX of None \<Rightarrow> None | Some source \<Rightarrow>
        (case extract_tsv_field line ''sha256'' 65 of None \<Rightarrow> None | Some hash \<Rightarrow>
        (case extract_tsv_field line ''request_id'' 192 of None \<Rightarrow> None | Some request \<Rightarrow>
        (case extract_tsv_field line ''error'' 160 of None \<Rightarrow> None | Some error \<Rightarrow>
        (case extract_tsv_field line ''expected_revision'' 32 of None \<Rightarrow> None | Some revision \<Rightarrow>
        (case extract_tsv_field line ''committed'' 32 of None \<Rightarrow> None | Some committed \<Rightarrow>
           if 0 \<le> c_atoi revision \<and> 0 \<le> c_atoi committed \<and> data_hash body = hash
           then Some \<lparr>in_server = server, in_account = account, in_save_id = save_id, in_source = source,
                      in_hash = hash, in_request = request, in_error = error,
                      in_revision = c_atoi revision, in_committed = c_atoi committed, in_bytes = body\<rparr>
           else None)))))))))"

definition inflight_read :: "string \<Rightarrow> fs \<Rightarrow> fs \<times> inflight option" where
  "inflight_read path s =
     (case read_binary_file_alloc path (INFLIGHT_HEADER + MAX_SAVE_BYTES) s of
        (s1, None) \<Rightarrow> (s1, None)
      | (s1, Some data) \<Rightarrow> (s1, inflight_decode data))"

section \<open>Fields are found again\<close>

lemma extract_tsv_Nil [simp]: "extract_tsv [] key = None"
  by (subst extract_tsv.simps) simp

lemma run_until:
  "\<forall>c \<in> set v. P c \<Longrightarrow> \<not> P y \<Longrightarrow>
     takeWhile P (v @ y # rest) = v \<and> dropWhile P (v @ y # rest) = y # rest"
  by (induction v) auto

lemma run_until_char:
  "x \<notin> set v \<Longrightarrow> takeWhile (\<lambda>c. c \<noteq> x) (v @ x # rest) = v"
  "x \<notin> set v \<Longrightarrow> dropWhile (\<lambda>c. c \<noteq> x) (v @ x # rest) = x # rest"
  by (induction v) auto

lemma tsv_value_end: "TAB \<notin> set v \<Longrightarrow> CR \<notin> set v \<Longrightarrow> LF \<notin> set v \<Longrightarrow> tsv_value (v @ [LF]) = v"
proof -
  assume v: "TAB \<notin> set v" "CR \<notin> set v" "LF \<notin> set v"
  then have "\<forall>c \<in> set v. c \<noteq> CR \<and> c \<noteq> LF" by metis
  then show ?thesis
    using run_until [of v "\<lambda>c. c \<noteq> CR \<and> c \<noteq> LF" LF "[]"] v(1) by (simp add: tsv_value_def TAB_def LF_def)
qed

lemma tsv_value_tab: "TAB \<notin> set v \<Longrightarrow> tsv_value (v @ TAB # rest) = v"
  by (simp add: tsv_value_def run_until_char)

lemma eq_key_split:
  assumes "CHR ''='' \<notin> set k" "CHR ''='' \<notin> set key"
  shows "take (length key + 1) (k @ CHR ''='' # rest) = key @ ''='' \<longleftrightarrow> k = key"
proof
  let ?t = "k @ CHR ''='' # rest"
  assume "take (length key + 1) ?t = key @ ''=''"
  then have "key @ CHR ''='' # drop (length key + 1) ?t = ?t"
    by (metis append.assoc append_Cons append_Nil append_take_drop_id)
  then have "takeWhile (\<lambda>c. c \<noteq> CHR ''='') (key @ CHR ''='' # drop (length key + 1) ?t) =
      takeWhile (\<lambda>c. c \<noteq> CHR ''='') ?t" by simp
  then show "k = key"
    using assms by (simp add: run_until_char)
qed simp

lemma extract_skip:
  "TAB \<notin> set f \<Longrightarrow> take (length key + 1) (f @ TAB # rest) \<noteq> key @ ''='' \<Longrightarrow>
     extract_tsv (f @ TAB # rest) key = extract_tsv rest key"
  by (subst extract_tsv.simps) (auto simp: run_until_char)

lemma extract_hit: "extract_tsv (key @ CHR ''='' # rest) key = Some (tsv_value rest)"
  by (subst extract_tsv.simps) simp

definition plain_key :: "string \<Rightarrow> bool" where
  "plain_key k \<longleftrightarrow> CHR ''='' \<notin> set k \<and> TAB \<notin> set k"

lemma extract_tsv_line [codec]:
  assumes "\<forall>(k, v) \<in> set fds. plain_key k \<and> clean v" "plain_key key"
  shows "extract_tsv (tsv_line fds) key = (if fds = [] then None else map_of fds key)"
  using assms(1)
proof (induction fds rule: tsv_line.induct)
  case (2 k v)
  have v: "tsv_value (v @ [LF]) = v" using 2 by (intro tsv_value_end) (auto simp: clean_def)
  have no_tab: "TAB \<notin> set (k @ ''='' @ v @ [LF])" using 2 by (auto simp: clean_def plain_key_def TAB_def LF_def)
  show ?case
  proof (cases "k = key")
    case True
    then show ?thesis using extract_hit [of key "v @ [LF]"] v by simp
  next
    case False
    then have "take (length key + 1) (k @ CHR ''='' # v @ [LF]) \<noteq> key @ ''=''"
      using eq_key_split [of k key] 2 assms(2) by (auto simp: plain_key_def)
    then show ?thesis using False no_tab by (subst extract_tsv.simps) auto
  qed
next
  case (3 k v f fs)
  show ?case
  proof (cases "k = key")
    case True
    then show ?thesis
      using extract_hit [of key "v @ TAB # tsv_line (f # fs)"] tsv_value_tab [of v] 3(2)
      by (auto simp: clean_def)
  next
    case False
    have "take (length key + 1) ((k @ ''='' @ v) @ TAB # tsv_line (f # fs)) \<noteq> key @ ''=''"
      using eq_key_split [of k key "v @ TAB # tsv_line (f # fs)"] 3(2) assms(2) False
      by (auto simp: plain_key_def)
    moreover have "TAB \<notin> set (k @ ''='' @ v)" using 3(2) by (auto simp: clean_def plain_key_def TAB_def)
    ultimately show ?thesis
      using extract_skip [of "k @ ''='' @ v" key "tsv_line (f # fs)"] 3 False by auto
  qed
qed simp

section \<open>The envelope round trip\<close>

definition inflight_ok :: "inflight \<Rightarrow> bool" where
  "inflight_ok e \<longleftrightarrow>
     clean (in_server e) \<and> length (in_server e) < 160 \<and> clean (in_account e) \<and> length (in_account e) < 64 \<and>
     clean (in_save_id e) \<and> length (in_save_id e) < 96 \<and>
     clean (in_source e) \<and> length (in_source e) < CONFIG_PATH_MAX \<and>
     clean (in_request e) \<and> length (in_request e) < 192 \<and> clean (in_error e) \<and> length (in_error e) < 160 \<and>
     0 \<le> in_revision e \<and> in_revision e < 2 ^ 31 \<and> 0 \<le> in_committed e \<and> in_committed e < 2 ^ 31 \<and>
     in_hash e = data_hash (in_bytes e) \<and> length (in_bytes e) \<le> MAX_SAVE_BYTES"

lemma hex_clean: "clean (sha256_hex d)"
proof -
  have "set (sha256_hex d) \<subseteq> set hex_digits"
  proof (induction d)
    case (Cons b d)
    have "length hex_digits = 16" by (simp add: hex_digits_def)
    then have "hex_digits ! unat (drop_bit 4 b) \<in> set hex_digits" "hex_digits ! unat (b AND 15) \<in> set hex_digits"
      using high_nibble_less [of b] low_nibble_less [of b] by simp_all
    then show ?case using Cons by (simp add: sha256_hex_def)
  qed (simp add: sha256_hex_def)
  moreover have "clean hex_digits" by (simp add: clean_def hex_digits_def TAB_def LF_def CR_def)
  ultimately show ?thesis by (auto simp: clean_def)
qed

lemma length_data_hash [simp]: "length (data_hash d) = 64"
  by (simp add: data_hash_def)

lemma clean_append [simp]: "clean (a @ b) \<longleftrightarrow> clean a \<and> clean b"
  by (auto simp: clean_def)

lemma clean_dec_int [simp]: "clean (dec_int i)"
proof -
  have "c \<in> set (dec n) \<Longrightarrow> c \<noteq> TAB \<and> c \<noteq> LF \<and> c \<noteq> CR \<and> c \<noteq> CHR 0x00" for c n
    using dec_digits [of c n] by (auto simp: c_isdigit_iff TAB_def LF_def CR_def)
  then have "clean (dec n)" for n unfolding clean_def by blast
  moreover have "clean (CHR ''-'' # t) = clean t" for t by (simp add: clean_def TAB_def LF_def CR_def)
  ultimately show ?thesis by (simp add: dec_int_def)
qed

lemma inflight_fields_clean:
  "inflight_ok e \<Longrightarrow> \<forall>(k, v) \<in> set (inflight_fields e). plain_key k \<and> clean v"
  using hex_clean
  by (auto simp: inflight_fields_def inflight_ok_def plain_key_def data_hash_def TAB_def)
     (simp_all add: clean_def TAB_def LF_def CR_def)

lemma length_tsv_line:
  "fds \<noteq> [] \<Longrightarrow> length (tsv_line fds) = sum_list (map (\<lambda>(k, v). length k + length v + 2) fds)"
  by (induction fds rule: tsv_line.induct) auto

lemma header_fits: "inflight_ok e \<Longrightarrow> length (tsv_line (inflight_fields e)) < INFLIGHT_HEADER"
proof -
  assume ok: "inflight_ok e"
  then have "length (dec_int (in_revision e)) \<le> 10" "length (dec_int (in_committed e)) \<le> 10"
    by (auto simp: inflight_ok_def intro!: length_dec_int_pos)
  then show ?thesis
    using ok by (subst length_tsv_line) (auto simp: inflight_fields_def inflight_ok_def INFLIGHT_HEADER_def CONFIG_PATH_MAX_def)
qed

lemma tsv_line_no_nul:
  "\<forall>(k, v) \<in> set fds. CHR 0x00 \<notin> set k \<and> clean v \<Longrightarrow> CHR 0x00 \<notin> set (tsv_line fds)"
  by (induction fds rule: tsv_line.induct) (auto simp: clean_def TAB_def LF_def)

lemma header_no_nul: "inflight_ok e \<Longrightarrow> CHR 0x00 \<notin> set (tsv_line (inflight_fields e))"
  using inflight_fields_clean [of e] by (intro tsv_line_no_nul) (auto simp: inflight_fields_def)

lemma c_atoi_dec: "0 \<le> i \<Longrightarrow> i < 2 ^ 31 \<Longrightarrow> c_atoi (dec_int i) = i"
  using strtol_dec_int [of "[]" i] by (simp add: c_atoi_def signed_take_bit_int_eq_self)

lemma length_inflight_bytes:
  "inflight_ok e \<Longrightarrow> length (inflight_bytes e) = INFLIGHT_HEADER + length (in_bytes e)"
  using header_fits [of e] by (simp add: inflight_bytes_def Let_def)

lemma inflight_bytes_split:
  assumes "inflight_ok e"
  shows "bytes_text (inflight_bytes e) = tsv_line (inflight_fields e)"
    "drop INFLIGHT_HEADER (inflight_bytes e) = in_bytes e"
    "0 \<in> set (take INFLIGHT_HEADER (inflight_bytes e))"
proof -
  let ?h = "tsv_line (inflight_fields e)"
  obtain k where k: "INFLIGHT_HEADER - length ?h = Suc k"
    using header_fits [OF assms] by (cases "INFLIGHT_HEADER - length ?h") auto
  then have eq: "inflight_bytes e = text_bytes ?h @ 0 # (replicate k 0 @ in_bytes e)"
    by (simp add: inflight_bytes_def Let_def)
  show "bytes_text (inflight_bytes e) = ?h"
    unfolding eq by (rule bytes_text_bytes [OF header_no_nul [OF assms]])
  show "drop INFLIGHT_HEADER (inflight_bytes e) = in_bytes e"
    using header_fits [OF assms] by (simp add: inflight_bytes_def Let_def)
  have "INFLIGHT_HEADER - length (text_bytes ?h) = Suc k" using k by simp
  then show "0 \<in> set (take INFLIGHT_HEADER (inflight_bytes e))"
    unfolding eq take_append by simp
qed

lemma inflight_decode_bytes [codec]:
  assumes "inflight_ok e"
  shows "inflight_decode (inflight_bytes e) = (if in_bytes e = [] then None else Some e)"
proof -
  have field: "extract_tsv_field (tsv_line (inflight_fields e)) key n = map_option (copy_text n) (map_of (inflight_fields e) key)"
    if "plain_key key" for key n
    using extract_tsv_line [OF inflight_fields_clean [OF assms] that]
    by (simp add: extract_tsv_field_def inflight_fields_def)
  have num: "length (dec_int (in_revision e)) \<le> 10" "length (dec_int (in_committed e)) \<le> 10"
    using assms by (auto simp: inflight_ok_def intro!: length_dec_int_pos)
  have sizes: "length (in_server e) < 160" "length (in_account e) < 64" "length (in_save_id e) < 96"
    "length (in_source e) < CONFIG_PATH_MAX" "length (in_hash e) < 65" "length (in_request e) < 192"
    "length (in_error e) < 160" and hash: "data_hash (in_bytes e) = in_hash e"
    and ints: "c_atoi (dec_int (in_revision e)) = in_revision e" "c_atoi (dec_int (in_committed e)) = in_committed e"
      "0 \<le> in_revision e" "0 \<le> in_committed e"
    using assms by (auto simp: inflight_ok_def c_atoi_dec)
  let ?x = "extract_tsv_field (tsv_line (inflight_fields e))"
  have fields: "?x ''server'' 160 = Some (in_server e)" "?x ''account'' 64 = Some (in_account e)"
    "?x ''save_id'' 96 = Some (in_save_id e)" "?x ''path'' CONFIG_PATH_MAX = Some (in_source e)"
    "?x ''sha256'' 65 = Some (in_hash e)" "?x ''request_id'' 192 = Some (in_request e)"
    "?x ''error'' 160 = Some (in_error e)" "?x ''expected_revision'' 32 = Some (dec_int (in_revision e))"
    "?x ''committed'' 32 = Some (dec_int (in_committed e))"
    by (subst field; use sizes num in \<open>simp add: plain_key_def TAB_def inflight_fields_def\<close>)+
  show ?thesis
    by (simp add: inflight_decode_def Let_def length_inflight_bytes [OF assms] inflight_bytes_split [OF assms]
          fields hash ints)
qed

end
