(* ===== verification/SaveOutbox.thy ===== *)
theory SaveOutbox
  imports SaveEnvelope
begin

text \<open>
  Uploading a save (\<open>c_client/client_save_outbox.c\<close>, \<open>process_save_inflight\<close> and the completion of a
  replayed entry; \<open>upload_changed_save\<close> of \<open>client_save_sync.c\<close>). The world is the file store, the
  server and a log of the requests sent with what came back. The server is a parameter: what a PUT
  does to its state and what it answers. The outcome script also decides whether an answer is lost,
  before or after the server acted, and whether the process dies while waiting for it.
\<close>

section \<open>Model\<close>

record upload =
  up_save_id :: string
  up_revision :: int
  up_bytes :: bytes
  up_request :: string
  up_fence :: "(string \<times> int) option"

datatype put_result = PutOk int | PutRefused string | PutUnknown string

type_synonym 'srv put = "'srv \<Rightarrow> upload \<Rightarrow> 'srv \<times> put_result"

record 'srv world =
  w_fs :: fs
  w_srv :: 'srv
  w_sent :: "(upload \<times> put_result) list"

record sync_slot =
  ss_account :: string
  ss_save_id :: string
  ss_save_path :: string
  ss_last_hash :: string
  ss_revision :: int
  ss_preserve :: bool

definition send_upload :: "'srv put \<Rightarrow> upload \<Rightarrow> 'srv world \<Rightarrow> 'srv world \<times> put_result" where
  "send_upload put u w =
     (if crashed (w_fs w) then (w, PutUnknown [])
      else case io_next (w_fs w) of
        (s, r) \<Rightarrow>
          (case (case r of IoDone \<Rightarrow> put (w_srv w) u
                 | IoFail k \<Rightarrow> (if k = 0 then w_srv w else fst (put (w_srv w) u), PutUnknown ''connection'')
                 | IoCrash k \<Rightarrow> (if k = 0 then w_srv w else fst (put (w_srv w) u), PutUnknown []))
           of (srv, answer) \<Rightarrow>
             (w\<lparr>w_fs := s, w_srv := srv, w_sent := w_sent w @ [(u, answer)]\<rparr>, answer)))"

definition OUTBOX_DIR :: string where "OUTBOX_DIR = ''runtime/save-outbox''"

definition inflight_path :: "string \<Rightarrow> string \<Rightarrow> string \<Rightarrow> nat \<Rightarrow> string option" where
  "inflight_path server account save_id capacity =
     (let scope = server @ [LF] @ account @ [LF] @ save_id;
          path = OUTBOX_DIR @ ''/'' @ data_hash (text_bytes scope) @ ''.inflight''
      in if 512 \<le> length scope \<or> LF \<in> set server \<or> LF \<in> set account \<or> LF \<in> set save_id then None
         else if length path < capacity then Some path else None)"

definition fresh_inflight :: "string \<Rightarrow> sync_slot \<Rightarrow> inflight" where
  "fresh_inflight server slot =
     no_inflight\<lparr>in_server := copy_text 160 server, in_account := copy_text 64 (ss_account slot),
       in_save_id := copy_text 96 (ss_save_id slot), in_committed := ss_revision slot,
       in_hash := copy_text 65 (ss_last_hash slot)\<rparr>"

definition request_text :: "string \<Rightarrow> int \<Rightarrow> string \<Rightarrow> string" where
  "request_text save_id revision hash =
     copy_text 192 (''save-'' @ save_id @ ''-r'' @ dec_int revision @ ''-'' @ take 24 hash)"

definition staged :: "sync_slot \<Rightarrow> int \<Rightarrow> bytes \<Rightarrow> inflight \<Rightarrow> inflight" where
  "staged slot revision latest e =
     e\<lparr>in_revision := revision, in_committed := 0, in_bytes := latest, in_hash := data_hash latest,
       in_source := copy_text CONFIG_PATH_MAX (ss_save_path slot),
       in_request := request_text (ss_save_id slot) revision (data_hash latest),
       in_error := ''SAVE RESPONSE PENDING''\<rparr>"

text \<open>The variables of the loop, and how one stage of it ends: on to the next, or done.\<close>

record 'srv loop =
  l_world :: "'srv world"
  l_slot :: sync_slot
  l_entry :: inflight
  l_exists :: bool

definition on_fs :: "(fs \<Rightarrow> fs \<times> 'a) \<Rightarrow> 'srv loop \<Rightarrow> 'srv loop \<times> 'a" where
  "on_fs f l = (case f (w_fs (l_world l)) of (s, r) \<Rightarrow> (l\<lparr>l_world := (l_world l)\<lparr>w_fs := s\<rparr>\<rparr>, r))"

definition set_slot :: "sync_slot \<Rightarrow> 'srv loop \<Rightarrow> 'srv loop" where
  "set_slot slot l = l\<lparr>l_slot := slot\<rparr>"

text \<open>The snapshot of the working file is staged unless a request is outstanding.\<close>

definition stage_snapshot :: "nat \<Rightarrow> string \<Rightarrow> 'srv loop \<Rightarrow> 'srv loop \<times> bool option" where
  "stage_snapshot pid path l =
     (if \<not> (\<not> l_exists l \<or> in_committed (l_entry l) \<noteq> 0) then (l, None)
      else
        let revision = (if l_exists l then in_committed (l_entry l) else ss_revision (l_slot l)) in
        case on_fs (read_binary_file (ss_save_path (l_slot l)) MAX_SAVE_BYTES) l of
          (l1, None) \<Rightarrow> (l1, Some False)
        | (l1, Some latest) \<Rightarrow>
            let hash = data_hash latest; l2 = set_slot ((l_slot l1)\<lparr>ss_revision := revision\<rparr>) l1 in
            if hash = in_hash (l_entry l2)
            then let l3 = set_slot ((l_slot l2)\<lparr>ss_last_hash := hash\<rparr>) l2 in
                 case (if l_exists l3 then on_fs (fs_remove path) l3 else (l3, Removed)) of
                   (l4, r) \<Rightarrow> if r \<noteq> Removed then (l4, Some False)
                              else (set_slot ((l_slot l4)\<lparr>ss_preserve := False\<rparr>) l4, Some True)
            else let l3 = l2\<lparr>l_entry := staged (l_slot l2) revision latest (l_entry l2)\<rparr> in
                 case on_fs (inflight_write pid path (l_entry l3)) l3 of
                   (l4, False) \<Rightarrow> (l4, Some False)
                 | (l4, True) \<Rightarrow> (l4\<lparr>l_exists := True\<rparr>, None))"

definition error_text :: "bool \<Rightarrow> string \<Rightarrow> string" where
  "error_text refused error =
     map (\<lambda>c. if c = TAB \<or> c = LF \<or> c = CR then CHR '' '' else c)
       (copy_text 160 ((if refused then ''SAVE REJECTED'' else ''SAVE RESULT UNKNOWN'') @ '': '' @ take 120 error))"

definition entry_upload :: "string \<Rightarrow> int \<Rightarrow> inflight \<Rightarrow> upload" where
  "entry_upload game fence e =
     \<lparr>up_save_id = in_save_id e, up_revision = in_revision e, up_bytes = in_bytes e,
      up_request = in_request e, up_fence = (if game \<noteq> [] then Some (game, fence) else None)\<rparr>"

definition sha256_file_hex :: "string \<Rightarrow> fs \<Rightarrow> fs \<times> string option" where
  "sha256_file_hex path s =
     (case fs_open path s of
        (s1, None) \<Rightarrow> (s1, None)
      | (s1, Some d) \<Rightarrow>
          (case fs_read (length d) d s1 of
             (s2, got, err) \<Rightarrow> (s2, if err then None else Some (data_hash got))))"

text \<open>The staged request is sent and its answer recorded.\<close>

definition send_staged ::
  "'srv put \<Rightarrow> nat \<Rightarrow> string \<Rightarrow> string \<Rightarrow> int \<Rightarrow> bool \<Rightarrow> 'srv loop \<Rightarrow> 'srv loop \<times> bool option" where
  "send_staged put pid path game fence final l =
     (case send_upload put (entry_upload game fence (l_entry l)) (l_world l) of
        (w, answer) \<Rightarrow>
          let l1 = l\<lparr>l_world := w\<rparr> in
          case answer of
            PutOk revision \<Rightarrow>
              (if revision \<le> in_revision (l_entry l1) then (l1, Some False)
               else
                 let l2 = l1\<lparr>l_entry := (l_entry l1)\<lparr>in_committed := revision, in_error := []\<rparr>\<rparr> in
                 case on_fs (inflight_write pid path (l_entry l2)) l2 of
                   (l3, False) \<Rightarrow> (l3, Some False)
                 | (l3, True) \<Rightarrow>
                     let l4 = set_slot ((l_slot l3)\<lparr>ss_revision := revision,
                                          ss_last_hash := copy_text 65 (in_hash (l_entry l3))\<rparr>) l3 in
                     case on_fs (sha256_file_hex (ss_save_path (l_slot l4))) l4 of
                       (l5, latest_hash) \<Rightarrow>
                         if latest_hash = Some (in_hash (l_entry l5))
                         then case on_fs (fs_remove path) l5 of
                                (l6, r) \<Rightarrow>
                                  if r \<noteq> Removed then (l6, Some False)
                                  else (set_slot ((l_slot l6)\<lparr>ss_preserve := False\<rparr>) l6, Some True)
                         else (l5, None))
          | _ \<Rightarrow>
              let refused = (case answer of PutRefused _ \<Rightarrow> True | _ \<Rightarrow> False);
                  error = (case answer of PutRefused m \<Rightarrow> m | PutUnknown m \<Rightarrow> m | PutOk _ \<Rightarrow> []);
                  l2 = l1\<lparr>l_entry := (l_entry l1)\<lparr>in_error := error_text refused error\<rparr>\<rparr>;
                  l3 = (if game \<noteq> [] then fst (on_fs (inflight_write pid path (l_entry l2)) l2) else l2)
              in (set_slot ((l_slot l3)\<lparr>ss_preserve := True\<rparr>) l3, Some final))"

fun inflight_attempts ::
  "'srv put \<Rightarrow> nat \<Rightarrow> string \<Rightarrow> string \<Rightarrow> int \<Rightarrow> bool \<Rightarrow> nat \<Rightarrow> 'srv loop \<Rightarrow> 'srv loop \<times> bool" where
  "inflight_attempts put pid path game fence final 0 l =
     (set_slot ((l_slot l)\<lparr>ss_preserve := True\<rparr>) l, True)"
| "inflight_attempts put pid path game fence final (Suc n) l =
     (case stage_snapshot pid path l of
        (l1, Some ok) \<Rightarrow> (l1, ok)
      | (l1, None) \<Rightarrow>
          (case send_staged put pid path game fence final l1 of
             (l2, Some ok) \<Rightarrow> (l2, ok)
           | (l2, None) \<Rightarrow> inflight_attempts put pid path game fence final n l2))"

definition inflight_done :: "'srv loop \<times> bool \<Rightarrow> 'srv world \<times> sync_slot \<times> bool" where
  "inflight_done r =
     (case r of (l, ok) \<Rightarrow>
        (l_world l, (if \<not> ok \<and> l_exists l then (l_slot l)\<lparr>ss_preserve := True\<rparr> else l_slot l), ok))"

definition process_save_inflight ::
  "'srv put \<Rightarrow> nat \<Rightarrow> string \<Rightarrow> string \<Rightarrow> int \<Rightarrow> bool \<Rightarrow> sync_slot \<Rightarrow> 'srv world \<Rightarrow>
     'srv world \<times> sync_slot \<times> bool" where
  "process_save_inflight put pid server game fence final slot w =
     (case inflight_path server (ss_account slot) (ss_save_id slot) CONFIG_PATH_MAX of
        None \<Rightarrow> (w, slot, False)
      | Some path \<Rightarrow>
          (case fs_call (w_fs w) of
             (s1, False) \<Rightarrow> (w\<lparr>w_fs := s1\<rparr>, slot, False)
           | (s1, True) \<Rightarrow>
          (case fs_call s1 of
             (s2, False) \<Rightarrow> (w\<lparr>w_fs := s2\<rparr>, slot, False)
           | (s2, True) \<Rightarrow>
          (case fs_call s2 of
             (s3, False) \<Rightarrow> (w\<lparr>w_fs := s3\<rparr>, slot, False)
           | (s3, True) \<Rightarrow>
               if local_file_exists path s3
               then case inflight_read path s3 of
                      (s4, e) \<Rightarrow>
                        inflight_done
                          (case e of
                             None \<Rightarrow> (\<lparr>l_world = w\<lparr>w_fs := s4\<rparr>, l_slot = slot, l_entry = no_inflight,
                                       l_exists = True\<rparr>, False)
                           | Some entry \<Rightarrow>
                               let l = \<lparr>l_world = w\<lparr>w_fs := s4\<rparr>, l_slot = slot, l_entry = entry, l_exists = True\<rparr>
                               in if in_server entry \<noteq> server \<or> in_account entry \<noteq> ss_account slot \<or>
                                     in_save_id entry \<noteq> ss_save_id slot
                                  then (l, False)
                                  else inflight_attempts put pid path game fence final 2 l)
               else inflight_done (inflight_attempts put pid path game fence final 2
                      \<lparr>l_world = w\<lparr>w_fs := s3\<rparr>, l_slot = slot, l_entry = fresh_inflight server slot,
                       l_exists = False\<rparr>)))))"

section \<open>Requests are retried until they are answered\<close>

definition answered :: "put_result \<Rightarrow> bool" where
  "answered a = (case a of PutOk _ \<Rightarrow> True | _ \<Rightarrow> False)"

definition same_upload :: "upload \<Rightarrow> upload \<Rightarrow> bool" where
  "same_upload u v \<longleftrightarrow> up_save_id u = up_save_id v \<and> up_revision u = up_revision v \<and>
     up_bytes u = up_bytes v \<and> up_request u = up_request v"

definition follows :: "upload \<times> put_result \<Rightarrow> upload \<times> put_result \<Rightarrow> bool" where
  "follows a b = (if answered (snd a) then True else same_upload (fst b) (fst a))"

definition on_disk :: "string \<Rightarrow> fs \<Rightarrow> inflight \<Rightarrow> bool" where
  "on_disk path s e \<longleftrightarrow> inflight_ok e \<and> files s path = Some (inflight_bytes e)"

definition is_upload :: "inflight \<Rightarrow> upload \<Rightarrow> bool" where
  "is_upload e u \<longleftrightarrow> same_upload (entry_upload [] 0 e) u"

definition pending_on_disk :: "string \<Rightarrow> 'srv world \<Rightarrow> bool" where
  "pending_on_disk path w =
     (if w_sent w = [] \<or> answered (snd (last (w_sent w))) then True
      else \<exists>e. on_disk path (w_fs w) e \<and> in_committed e = 0 \<and> is_upload e (fst (last (w_sent w))))"

text \<open>The server has confirmed an upload of bytes with this hash.\<close>

definition confirmed :: "'srv world \<Rightarrow> string \<Rightarrow> bool" where
  "confirmed w h \<longleftrightarrow> (\<exists>(u, a) \<in> set (w_sent w). answered a \<and> data_hash (up_bytes u) = h)"

definition envelope_ok :: "string \<Rightarrow> 'srv world \<Rightarrow> fs \<Rightarrow> bool" where
  "envelope_ok path w s \<longleftrightarrow> files s path = None \<or>
     (\<exists>e. on_disk path s e \<and> (in_committed e \<noteq> 0 \<longrightarrow> confirmed w (in_hash e)))"

definition outbox_ok :: "string \<Rightarrow> 'srv world \<Rightarrow> bool" where
  "outbox_ok path w \<longleftrightarrow>
     successively follows (w_sent w) \<and> pending_on_disk path w \<and> envelope_ok path w (w_fs w)"

definition answers_ok :: "'srv put \<Rightarrow> bool" where
  "answers_ok put \<longleftrightarrow>
     (\<forall>srv u. case snd (put srv u) of
        PutOk r \<Rightarrow> r < 2 ^ 31
      | PutRefused m \<Rightarrow> CHR 0x00 \<notin> set m
      | PutUnknown m \<Rightarrow> CHR 0x00 \<notin> set m)"

definition slot_ok :: "string \<Rightarrow> sync_slot \<Rightarrow> bool" where
  "slot_ok server slot \<longleftrightarrow>
     clean server \<and> length server < 160 \<and> clean (ss_account slot) \<and> length (ss_account slot) < 64 \<and>
     clean (ss_save_id slot) \<and> length (ss_save_id slot) < 96 \<and>
     clean (ss_save_path slot) \<and> length (ss_save_path slot) < CONFIG_PATH_MAX \<and>
     0 \<le> ss_revision slot \<and> ss_revision slot < 2 ^ 31"

lemma inflight_bytes_inj:
  assumes "inflight_ok e" "inflight_ok e'" "inflight_bytes e = inflight_bytes e'"
  shows "e = e'"
proof -
  have line: "tsv_line (inflight_fields e) = tsv_line (inflight_fields e')"
    and body: "in_bytes e = in_bytes e'"
    using inflight_bytes_split [OF assms(1)] inflight_bytes_split [OF assms(2)] assms(3) by simp_all
  have ne: "inflight_fields e \<noteq> []" "inflight_fields e' \<noteq> []" by (simp_all add: inflight_fields_def)
  have m: "map_of (inflight_fields e) key = map_of (inflight_fields e') key" if "plain_key key" for key
    using extract_tsv_line [OF inflight_fields_clean [OF assms(1)] that]
      extract_tsv_line [OF inflight_fields_clean [OF assms(2)] that] line
    by (simp add: ne)
  have "in_server e = in_server e'" using m [of "''server''"] by (simp add: inflight_fields_def plain_key_def TAB_def)
  moreover have "in_account e = in_account e'"
    using m [of "''account''"] by (simp add: inflight_fields_def plain_key_def TAB_def)
  moreover have "in_save_id e = in_save_id e'"
    using m [of "''save_id''"] by (simp add: inflight_fields_def plain_key_def TAB_def)
  moreover have "in_source e = in_source e'"
    using m [of "''path''"] by (simp add: inflight_fields_def plain_key_def TAB_def)
  moreover have "in_hash e = in_hash e'"
    using m [of "''sha256''"] by (simp add: inflight_fields_def plain_key_def TAB_def)
  moreover have "in_request e = in_request e'"
    using m [of "''request_id''"] by (simp add: inflight_fields_def plain_key_def TAB_def)
  moreover have "in_error e = in_error e'"
    using m [of "''error''"] by (simp add: inflight_fields_def plain_key_def TAB_def)
  moreover have "dec_int (in_revision e) = dec_int (in_revision e')"
    using m [of "''expected_revision''"] by (simp add: inflight_fields_def plain_key_def TAB_def)
  moreover have "dec_int (in_committed e) = dec_int (in_committed e')"
    using m [of "''committed''"] by (simp add: inflight_fields_def plain_key_def TAB_def)
  moreover from calculation have "in_revision e = in_revision e'" "in_committed e = in_committed e'"
    using assms(1,2) c_atoi_dec unfolding inflight_ok_def by metis+
  ultimately show ?thesis using body by simp
qed

lemma on_disk_inj: "on_disk path s e \<Longrightarrow> on_disk path s e' \<Longrightarrow> e = e'"
  using inflight_bytes_inj by (auto simp: on_disk_def)

lemma inflight_path_length: "inflight_path server account sid n = Some path \<Longrightarrow> length path = 93"
  by (auto simp: inflight_path_def Let_def OUTBOX_DIR_def split: if_splits)

lemma inflight_temp: "inflight_path server account sid n = Some path \<Longrightarrow> temp_path path pid \<noteq> path"
proof -
  assume "inflight_path server account sid n = Some path"
  then have "length path = 93" by (rule inflight_path_length)
  then have "93 < length (temp_path path pid)"
    by (auto simp: temp_path_def copy_text_def CONFIG_PATH_MAX_def)
  then show ?thesis using \<open>length path = 93\<close> by auto
qed

text \<open>The request text and the error text are never cut and never break the record.\<close>

lemma clean_Cons [simp]:
  "clean (c # s) \<longleftrightarrow> c \<noteq> CHR 0x09 \<and> c \<noteq> CHR 0x0A \<and> c \<noteq> CHR 0x0D \<and> c \<noteq> CHR 0x00 \<and> clean s"
  by (auto simp: clean_def TAB_def LF_def CR_def)

lemma clean_Nil [simp]: "clean []"
  by (simp add: clean_def)

lemma clean_take: "clean s \<Longrightarrow> clean (take n s)"
  by (auto simp: clean_def dest: in_set_takeD)

lemma request_text_ok:
  assumes "clean save_id" "length save_id < 96" "0 \<le> r" "r < 2 ^ 31" "clean h"
  shows "clean (request_text save_id r h)" "length (request_text save_id r h) < 192"
proof -
  show "clean (request_text save_id r h)"
    using assms unfolding request_text_def copy_text_def by (intro clean_take) (simp add: clean_take)
  show "length (request_text save_id r h) < 192" by (simp add: request_text_def copy_text_def)
qed

lemma error_text_ok: "CHR 0x00 \<notin> set m \<Longrightarrow> clean (error_text r m) \<and> length (error_text r m) < 160"
  by (auto simp: error_text_def clean_def copy_text_def TAB_def LF_def CR_def dest!: in_set_takeD)

definition names_ok :: "inflight \<Rightarrow> bool" where
  "names_ok e \<longleftrightarrow> clean (in_server e) \<and> length (in_server e) < 160 \<and> clean (in_account e) \<and>
     length (in_account e) < 64 \<and> clean (in_save_id e) \<and> length (in_save_id e) < 96"

lemma staged_ok:
  assumes "slot_ok server slot" "names_ok e" "0 \<le> r" "r < 2 ^ 31" "length d \<le> MAX_SAVE_BYTES"
  shows "inflight_ok (staged slot r d e)"
proof -
  have "clean ''SAVE RESPONSE PENDING''" by simp
  then show ?thesis
    using assms request_text_ok [of "ss_save_id slot" r "data_hash d"] hex_clean [of "content_sha256 d"]
    by (simp add: inflight_ok_def names_ok_def staged_def slot_ok_def data_hash_def)
qed

lemma inflight_write_cases:
  assumes "inflight_write pid path e s = (s', ok)" "temp_path path pid \<noteq> path"
  shows "fs_step {path, temp_path path pid} s s'"
    and "files s' path = files s path \<or> files s' path = Some (inflight_bytes e)"
    and "ok \<Longrightarrow> files s' path = Some (inflight_bytes e)"
proof -
  obtain s1 c where c: "fs_call s = (s1, c)" by fastforce
  have f: "files s1 = files s" using fs_call_effect [OF c] .
  obtain s2 k where k: "atomic_replace_binary_file pid path (inflight_bytes e) s1 = (s2, k)" by fastforce
  have "fs_step {path, temp_path path pid} s s1" "fs_step {path, temp_path path pid} s1 s2"
    using fs_call_step [OF c] atomic_replace_step [OF k] by auto
  then show "fs_step {path, temp_path path pid} s s'"
    using assms(1) c k by (auto simp: inflight_write_def intro: fs_step_trans split: bool.splits if_splits)
  show "files s' path = files s path \<or> files s' path = Some (inflight_bytes e)"
    and "ok \<Longrightarrow> files s' path = Some (inflight_bytes e)"
    using assms(1) c k f atomic_replace_target(1,2) [OF k assms(2)]
    by (auto simp: inflight_write_def split: bool.splits if_splits)
qed

text \<open>
  What holds at the head of the loop: the entry in memory is the one on disk, or there is none.
\<close>

definition loop_ok :: "string \<Rightarrow> string \<Rightarrow> string \<Rightarrow> 'srv loop \<Rightarrow> bool" where
  "loop_ok server path h0 l \<longleftrightarrow> outbox_ok path (l_world l) \<and> slot_ok server (l_slot l) \<and>
     names_ok (l_entry l) \<and>
     (if l_exists l then on_disk path (w_fs (l_world l)) (l_entry l)
      else files (w_fs (l_world l)) path = None \<and> in_hash (l_entry l) = h0)"

lemma outbox_ok_files:
  "outbox_ok path w \<Longrightarrow> files s path = files (w_fs w) path \<Longrightarrow> outbox_ok path (w\<lparr>w_fs := s\<rparr>)"
proof -
  assume ok: "outbox_ok path w" and same: "files s path = files (w_fs w) path"
  then have "on_disk path s = on_disk path (w_fs w)" by (simp add: on_disk_def fun_eq_iff)
  then show ?thesis using ok same by (simp add: outbox_ok_def pending_on_disk_def envelope_ok_def confirmed_def)
qed

lemma on_fs_eq: "on_fs f l = (l', r) \<Longrightarrow> \<exists>s. f (w_fs (l_world l)) = (s, r) \<and> l' = l\<lparr>l_world := (l_world l)\<lparr>w_fs := s\<rparr>\<rparr>"
  by (auto simp: on_fs_def split: prod.splits)

text \<open>Nothing is outstanding when there is no envelope, or a committed one.\<close>

lemma nothing_outstanding:
  assumes "outbox_ok path w"
    and "files (w_fs w) path = None \<or> (\<exists>e. on_disk path (w_fs w) e \<and> in_committed e \<noteq> 0)"
  shows "w_sent w = [] \<or> answered (snd (last (w_sent w)))"
proof (rule ccontr)
  assume "\<not> ?thesis"
  then obtain e where "on_disk path (w_fs w) e" "in_committed e = 0"
    using assms(1) by (auto simp: outbox_ok_def pending_on_disk_def)
  then show False using assms(2) on_disk_inj [of path "w_fs w" e] by (auto simp: on_disk_def)
qed

lemma outbox_ok_confirmed:
  assumes "outbox_ok path w" "on_disk path (w_fs w) e" "in_committed e \<noteq> 0"
  shows "confirmed w (in_hash e)"
proof -
  obtain e' where "on_disk path (w_fs w) e'" "in_committed e' \<noteq> 0 \<longrightarrow> confirmed w (in_hash e')"
    using assms(1,2) by (auto simp: outbox_ok_def envelope_ok_def on_disk_def)
  then show ?thesis using on_disk_inj [OF assms(2)] assms(3) by blast
qed

lemma envelope_okI:
  "on_disk path s e \<Longrightarrow> in_committed e = 0 \<or> confirmed w (in_hash e) \<Longrightarrow> envelope_ok path w s"
  by (auto simp: envelope_ok_def)

lemma outbox_ok_replace:
  assumes "outbox_ok path w" "w_sent w = [] \<or> answered (snd (last (w_sent w)))"
    and "files s path = files (w_fs w) path \<or> envelope_ok path w s"
  shows "outbox_ok path (w\<lparr>w_fs := s\<rparr>)"
proof -
  have "envelope_ok path w s"
    using assms(1,3) by (auto simp: outbox_ok_def envelope_ok_def on_disk_def)
  then show ?thesis using assms(1,2) by (simp add: outbox_ok_def pending_on_disk_def envelope_ok_def confirmed_def)
qed

lemma read_binary_file_length: "read_binary_file p cap s = (s', Some d) \<Longrightarrow> length d \<le> cap"
  by (auto simp: read_binary_file_def Let_def fs_read_def split: prod.splits option.splits io.splits if_splits)

lemma read_binary_file_Some:
  "read_binary_file p cap s = (s', Some d) \<Longrightarrow> files s p = Some c \<Longrightarrow> length c \<le> cap \<Longrightarrow> d = c"
  by (auto simp: read_binary_file_def Let_def dest!: fs_open_Some fs_read_ok split: prod.splits option.splits if_splits)

text \<open>The working file's bytes are those the server has, or those the slot started with.\<close>

definition settled :: "string \<Rightarrow> bytes \<Rightarrow> 'srv loop \<Rightarrow> bool" where
  "settled h0 d l \<longleftrightarrow> ss_last_hash (l_slot l) = data_hash d \<and>
     (data_hash d = h0 \<or> confirmed (l_world l) (data_hash d))"

definition working_file :: "string \<Rightarrow> nat \<Rightarrow> bytes \<Rightarrow> 'srv loop \<Rightarrow> bool" where
  "working_file path pid d l \<longleftrightarrow> ss_save_path (l_slot l) \<notin> {path, temp_path path pid} \<and>
     files (w_fs (l_world l)) (ss_save_path (l_slot l)) = Some d \<and> length d \<le> MAX_SAVE_BYTES"

text \<open>Every stage keeps to the envelope's two paths and keeps the outbox in order.\<close>

definition stage_ok :: "string \<Rightarrow> string \<Rightarrow> nat \<Rightarrow> 'srv loop \<Rightarrow> 'srv loop \<Rightarrow> bool" where
  "stage_ok server path pid l l' \<longleftrightarrow> outbox_ok path (l_world l') \<and> slot_ok server (l_slot l') \<and>
     ss_save_path (l_slot l') = ss_save_path (l_slot l) \<and>
     fs_step {path, temp_path path pid} (w_fs (l_world l)) (w_fs (l_world l'))"

lemma stage_snapshot_ok:
  assumes "loop_ok server path h0 l" "temp_path path pid \<noteq> path" "working_file path pid d l"
    "stage_snapshot pid path l = (l', r)"
  shows "stage_ok server path pid l l' \<and>
    (r = None \<longrightarrow> loop_ok server path h0 l' \<and> l_exists l' \<and> in_committed (l_entry l') = 0) \<and>
    (r = Some True \<longrightarrow> settled h0 d l')"
proof (cases "\<not> l_exists l \<or> in_committed (l_entry l) \<noteq> 0")
  case False
  then show ?thesis using assms by (auto simp: stage_snapshot_def stage_ok_def loop_ok_def)
next
  case True
  let ?w = "l_world l" let ?P = "{path, temp_path path pid}"
  have ok: "outbox_ok path ?w" and slot: "slot_ok server (l_slot l)" and names: "names_ok (l_entry l)"
    using assms(1) by (auto simp: loop_ok_def)
  have quiet: "w_sent ?w = [] \<or> answered (snd (last (w_sent ?w)))"
    using assms(1) True by (intro nothing_outstanding [OF ok]) (auto simp: loop_ok_def split: if_splits)
  define revision where "revision = (if l_exists l then in_committed (l_entry l) else ss_revision (l_slot l))"
  have rev: "0 \<le> revision" "revision < 2 ^ 31"
    using assms(1) by (auto simp: revision_def loop_ok_def on_disk_def inflight_ok_def slot_ok_def split: if_splits)
  obtain s1 got where rd: "read_binary_file (ss_save_path (l_slot l)) MAX_SAVE_BYTES (w_fs ?w) = (s1, got)"
    by fastforce
  have step1: "fs_step Q (w_fs ?w) s1" for Q by (rule read_binary_file_step [OF rd])
  then have same1: "files s1 path = files (w_fs ?w) path" using fs_step_file [of "{}" _ s1] by blast
  have sl: "slot_ok server ((l_slot l)\<lparr>ss_revision := revision\<rparr>)"
    "slot_ok server ((l_slot l)\<lparr>ss_revision := revision, ss_last_hash := h\<rparr>)"
    "slot_ok server ((l_slot l)\<lparr>ss_revision := revision, ss_last_hash := h, ss_preserve := b\<rparr>)" for h b
    using slot rev by (simp_all add: slot_ok_def)
  show ?thesis
  proof (cases got)
    case None
    then show ?thesis
      using assms(4) True rd outbox_ok_files [OF ok same1] slot step1
      by (auto simp: stage_snapshot_def stage_ok_def on_fs_def Let_def)
  next
    case (Some latest)
    have len: "length latest \<le> MAX_SAVE_BYTES" using read_binary_file_length rd Some by blast
    show ?thesis
    proof (cases "data_hash latest = in_hash (l_entry l)")
      case same: True
      obtain s2 rr where rm: "(if l_exists l then fs_remove path s1 else (s1, Removed)) = (s2, rr)" by fastforce
      have "fs_step ?P s1 s2"
        using rm fs_step_mono [OF fs_remove_step, of path s1 s2 rr ?P] by (auto split: if_splits)
      then have step: "fs_step ?P (w_fs ?w) s2" using step1 fs_step_trans by blast
      have "files s2 path = files s1 path \<or> files s2 path = None"
        using rm by (auto simp: fs_remove_def dest: io_next_files split: if_splits prod.splits io.splits)
      then have ok2: "outbox_ok path (?w\<lparr>w_fs := s2\<rparr>)"
        using outbox_ok_replace [OF ok quiet, of s2] same1 by (auto simp: envelope_ok_def)
      have "latest = d" using read_binary_file_Some [OF rd [unfolded Some]] assms(3) by (simp add: working_file_def)
      moreover have "in_hash (l_entry l) = h0 \<or> confirmed ?w (in_hash (l_entry l))"
        using assms(1) True outbox_ok_confirmed [OF ok, of "l_entry l"] by (auto simp: loop_ok_def split: if_splits)
      ultimately show ?thesis
        using assms(4) True rd Some same rm ok2 sl step
        by (auto simp: stage_snapshot_def stage_ok_def settled_def confirmed_def on_fs_def Let_def set_slot_def
              revision_def split: if_splits)
    next
      case new: False
      define e where "e = staged ((l_slot l)\<lparr>ss_revision := revision\<rparr>) revision latest (l_entry l)"
      have eok: "inflight_ok e" unfolding e_def by (rule staged_ok [OF sl(1) names rev len])
      have e0: "in_committed e = 0" by (simp add: e_def staged_def)
      obtain s2 b where wr: "inflight_write pid path e s1 = (s2, b)" by fastforce
      note wr3 = inflight_write_cases [OF wr assms(2)]
      have step: "fs_step ?P (w_fs ?w) s2" using step1 wr3(1) fs_step_trans by blast
      have ok2: "outbox_ok path (?w\<lparr>w_fs := s2\<rparr>)"
        using outbox_ok_replace [OF ok quiet, of s2] wr3(2) same1 eok envelope_okI [of path s2 e] e0
        by (auto simp: on_disk_def)
      have disk: "on_disk path s2 e" if b using wr3(3) that eok by (simp add: on_disk_def)
      have "names_ok e" "in_committed e = 0" using names by (simp_all add: e_def staged_def names_ok_def)
      then show ?thesis
        using assms(4) True rd Some new wr ok2 sl step disk
        by (auto simp: stage_snapshot_def stage_ok_def loop_ok_def on_fs_def Let_def set_slot_def
              e_def revision_def split: if_splits bool.splits)
    qed
  qed
qed

lemma send_upload_cases:
  assumes "send_upload put u w = (w1, answer)"
  obtains (dead) "w1 = w" "answer = PutUnknown []" "crashed (w_fs w)"
  | (sent) s srv where "w1 = w\<lparr>w_fs := s, w_srv := srv, w_sent := w_sent w @ [(u, answer)]\<rparr>"
      "files s = files (w_fs w)" "\<And>P. fs_step P (w_fs w) s"
      "answer = snd (put (w_srv w) u) \<or> answer = PutUnknown ''connection'' \<or> answer = PutUnknown []"
proof (cases "crashed (w_fs w)")
  case True
  then show ?thesis using assms dead by (simp add: send_upload_def)
next
  case False
  obtain s r where io: "io_next (w_fs w) = (s, r)" by fastforce
  have "files s = files (w_fs w)" "fs_step P (w_fs w) s" for P
    using io_next_files [OF io] io_next_step [OF io] fs_step_mono [of "{}" _ _ P] by auto
  then show ?thesis
    using assms False io by (cases r) (auto simp: send_upload_def split: prod.splits intro: sent)
qed

definition answer_ok :: "put_result \<Rightarrow> bool" where
  "answer_ok a = (case a of PutOk r \<Rightarrow> r < 2 ^ 31 | PutRefused m \<Rightarrow> CHR 0x00 \<notin> set m
                  | PutUnknown m \<Rightarrow> CHR 0x00 \<notin> set m)"

lemma send_upload_answer:
  assumes "answers_ok put" "send_upload put u w = (w1, a)"
  shows "answer_ok a"
  using assms(2)
proof (cases rule: send_upload_cases)
  case (sent s srv)
  have "answer_ok (snd (put (w_srv w) u))" using assms(1) by (simp add: answers_ok_def answer_ok_def)
  then show ?thesis using sent(4) by (auto simp: answer_ok_def)
qed (simp add: answer_ok_def)

lemma is_upload_entry [simp]: "is_upload e (entry_upload game fence e)"
  by (simp add: is_upload_def same_upload_def entry_upload_def)

lemma is_upload_error: "is_upload (e\<lparr>in_error := t\<rparr>) u = is_upload e u"
  by (simp add: is_upload_def same_upload_def entry_upload_def)

lemma send_upload_outbox:
  assumes "outbox_ok path w" "on_disk path (w_fs w) e" "in_committed e = 0"
    and "send_upload put (entry_upload game fence e) w = (w1, answer)"
  shows "outbox_ok path w1" "on_disk path (w_fs w1) e" "fs_step P (w_fs w) (w_fs w1)"
    and "answered answer \<Longrightarrow> w_sent w1 \<noteq> [] \<and> answered (snd (last (w_sent w1))) \<and> confirmed w1 (in_hash e)"
    and "\<And>s t. files s path = Some (inflight_bytes (e\<lparr>in_error := t\<rparr>)) \<Longrightarrow>
      inflight_ok (e\<lparr>in_error := t\<rparr>) \<Longrightarrow>
      crashed (w_fs w) \<longrightarrow> files s path = files (w_fs w) path \<Longrightarrow> outbox_ok path (w1\<lparr>w_fs := s\<rparr>)"
proof -
  let ?u = "entry_upload game fence e"
  have prev: "follows (last (w_sent w)) (?u, a)" if ne: "w_sent w \<noteq> []" for a
  proof (cases "answered (snd (last (w_sent w)))")
    case False
    then obtain e0 where "on_disk path (w_fs w) e0" "is_upload e0 (fst (last (w_sent w)))"
      using assms(1) ne by (auto simp: outbox_ok_def pending_on_disk_def)
    then have "is_upload e (fst (last (w_sent w)))" using on_disk_inj [OF assms(2)] by blast
    then show ?thesis by (simp add: follows_def is_upload_def same_upload_def entry_upload_def)
  qed (simp add: follows_def)
  have all: "outbox_ok path w1 \<and> on_disk path (w_fs w1) e \<and> fs_step P (w_fs w) (w_fs w1) \<and>
    (answered answer \<longrightarrow> w_sent w1 \<noteq> [] \<and> answered (snd (last (w_sent w1))) \<and> confirmed w1 (in_hash e)) \<and>
    (\<forall>s t. files s path = Some (inflight_bytes (e\<lparr>in_error := t\<rparr>)) \<longrightarrow> inflight_ok (e\<lparr>in_error := t\<rparr>) \<longrightarrow>
       (crashed (w_fs w) \<longrightarrow> files s path = files (w_fs w) path) \<longrightarrow> outbox_ok path (w1\<lparr>w_fs := s\<rparr>))"
    using assms(4)
  proof (cases rule: send_upload_cases)
    case dead
    then show ?thesis
      using assms(1,2) outbox_ok_files [OF assms(1)] by (auto simp: answered_def)
  next
    case (sent s1 srv)
    have succ: "successively follows (w_sent w1)"
      using assms(1) prev sent(1) by (auto simp: outbox_ok_def successively_append_iff)
    have d1: "on_disk path (w_fs w1) e" using assms(2) sent by (simp add: on_disk_def)
    have "outbox_ok path w1"
      using succ d1 sent(1) assms(3) by (auto simp: outbox_ok_def pending_on_disk_def envelope_ok_def)
    moreover have "outbox_ok path (w1\<lparr>w_fs := s\<rparr>)"
      if "files s path = Some (inflight_bytes (e\<lparr>in_error := t\<rparr>))" "inflight_ok (e\<lparr>in_error := t\<rparr>)" for s t
    proof -
      have "on_disk path s (e\<lparr>in_error := t\<rparr>)" using that by (simp add: on_disk_def)
      moreover have "in_committed (e\<lparr>in_error := t\<rparr>) = 0" "is_upload (e\<lparr>in_error := t\<rparr>) ?u"
        using assms(3) by (simp_all add: is_upload_error)
      ultimately show ?thesis
        using succ sent(1) by (auto simp: outbox_ok_def pending_on_disk_def envelope_ok_def)
    qed
    moreover have "confirmed w1 (in_hash e)" if "answered answer"
      using sent(1) that assms(2) by (auto simp: confirmed_def entry_upload_def on_disk_def inflight_ok_def)
    ultimately show ?thesis using d1 sent by auto
  qed
  then show "outbox_ok path w1" "on_disk path (w_fs w1) e" "fs_step P (w_fs w) (w_fs w1)"
    and "answered answer \<Longrightarrow> w_sent w1 \<noteq> [] \<and> answered (snd (last (w_sent w1))) \<and> confirmed w1 (in_hash e)"
    and "\<And>s t. files s path = Some (inflight_bytes (e\<lparr>in_error := t\<rparr>)) \<Longrightarrow>
      inflight_ok (e\<lparr>in_error := t\<rparr>) \<Longrightarrow>
      crashed (w_fs w) \<longrightarrow> files s path = files (w_fs w) path \<Longrightarrow> outbox_ok path (w1\<lparr>w_fs := s\<rparr>)"
    by blast+
qed

lemma sha256_file_hex_step: "sha256_file_hex p s = (s', h) \<Longrightarrow> fs_step P s s'"
  by (auto simp: sha256_file_hex_def dest!: fs_open_step [where P = P] fs_read_step [where P = P]
      split: prod.splits option.splits; meson fs_step_trans)

lemma send_staged_ok:
  assumes "loop_ok server path h0 l" "l_exists l" "in_committed (l_entry l) = 0" "answers_ok put"
    "temp_path path pid \<noteq> path" "send_staged put pid path game fence final l = (l', r)"
    "working_file path pid d l"
  shows "stage_ok server path pid l l' \<and> (r = None \<longrightarrow> loop_ok server path h0 l') \<and>
    (r = Some True \<and> \<not> ss_preserve (l_slot l') \<longrightarrow> settled h0 d l')"
proof -
  let ?w = "l_world l" let ?e = "l_entry l" let ?P = "{path, temp_path path pid}"
  have ok: "outbox_ok path ?w" and slot: "slot_ok server (l_slot l)" and names: "names_ok ?e"
    and disk: "on_disk path (w_fs ?w) ?e"
    using assms(1,2) by (auto simp: loop_ok_def)
  obtain w1 answer where send: "send_upload put (entry_upload game fence ?e) ?w = (w1, answer)" by fastforce
  note out = send_upload_outbox [OF ok disk assms(3) send]
  have eok: "inflight_ok ?e" using disk by (simp add: on_disk_def)
  show ?thesis
  proof (cases "answered answer")
    case True
    then obtain revision where a: "answer = PutOk revision" by (cases answer) (auto simp: answered_def)
    have rev: "revision < 2 ^ 31"
      using send_upload_answer [OF assms(4) send] a by (simp add: answer_ok_def)
    show ?thesis
    proof (cases "revision \<le> in_revision ?e")
      case True
      then show ?thesis
        using assms(6) send a out(1,3) slot by (auto simp: send_staged_def stage_ok_def Let_def)
    next
      case False
      define e2 where "e2 = ?e\<lparr>in_committed := revision, in_error := []\<rparr>"
      have e2: "inflight_ok e2" "names_ok e2" using eok names False rev
        by (auto simp: e2_def inflight_ok_def names_ok_def)
      obtain s2 b where wr: "inflight_write pid path e2 (w_fs w1) = (s2, b)" by fastforce
      note wr3 = inflight_write_cases [OF wr assms(5)]
      have quiet: "w_sent w1 = [] \<or> answered (snd (last (w_sent w1)))" using out(4) \<open>answered answer\<close> by blast
      have conf: "confirmed w1 (in_hash e2)" using out(4) \<open>answered answer\<close> by (simp add: e2_def)
      have step2: "fs_step ?P (w_fs ?w) s2" using out(3) wr3(1) fs_step_trans by blast
      have ok2: "outbox_ok path (w1\<lparr>w_fs := s2\<rparr>)"
        using outbox_ok_replace [OF out(1) quiet, of s2] wr3(2) e2(1) conf by (auto simp: envelope_ok_def on_disk_def)
      show ?thesis
      proof (cases b)
        case nb: False
        then show ?thesis
          using assms(6) send a False wr ok2 step2 slot
          by (auto simp: send_staged_def stage_ok_def Let_def on_fs_def e2_def)
      next
        case True
        then have disk2: "on_disk path s2 e2" using wr3(3) e2(1) by (simp add: on_disk_def)
        obtain s3 h where sha: "sha256_file_hex (ss_save_path (l_slot l)) s2 = (s3, h)" by fastforce
        have step3: "fs_step Q s2 s3" for Q by (rule sha256_file_hex_step [OF sha])
        then have same3: "files s3 path = files s2 path" using fs_step_file [of "{}" s2 s3] by blast
        obtain s4 rr where rm: "fs_remove path s3 = (s4, rr)" by fastforce
        have step4: "fs_step ?P s3 s4" using fs_step_mono [OF fs_remove_step [OF rm]] by simp
        have s4: "files s4 path = files s3 path \<or> files s4 path = None"
          using rm by (auto simp: fs_remove_def dest: io_next_files split: if_splits prod.splits io.splits)
        have ok3: "outbox_ok path (w1\<lparr>w_fs := s3\<rparr>)" "outbox_ok path (w1\<lparr>w_fs := s4\<rparr>)"
          using outbox_ok_replace [OF out(1) quiet, of s3] outbox_ok_replace [OF out(1) quiet, of s4]
            same3 s4 disk2 conf by (auto simp: envelope_ok_def on_disk_def)
        have steps: "fs_step ?P (w_fs ?w) s3" "fs_step ?P (w_fs ?w) s4"
          using step2 step3 step4 fs_step_trans by blast+
        have sl: "slot_ok server ((l_slot l)\<lparr>ss_revision := revision, ss_last_hash := t\<rparr>)"
          "slot_ok server ((l_slot l)\<lparr>ss_revision := revision, ss_last_hash := t, ss_preserve := q\<rparr>)" for t q
          using slot False eok rev by (auto simp: slot_ok_def inflight_ok_def)
        have disk3: "on_disk path s3 e2" using disk2 same3 by (simp add: on_disk_def)
        have "files s2 (ss_save_path (l_slot l)) = Some d"
          using assms(7) fs_step_file [OF step2] by (simp add: working_file_def)
        then have h: "h = Some x \<Longrightarrow> x = data_hash d" for x
          using sha by (auto simp: sha256_file_hex_def dest!: fs_open_Some fs_read_ok split: option.splits prod.splits if_splits)
        have hash: "length (in_hash ?e) < 65" using eok by (simp add: inflight_ok_def)
        have res: "l' = (let l4 = l\<lparr>l_world := w1\<lparr>w_fs := s3\<rparr>, l_entry := e2,
              l_slot := (l_slot l)\<lparr>ss_revision := revision, ss_last_hash := in_hash ?e\<rparr>\<rparr> in
            if h = Some (in_hash ?e) then (if rr = Removed then l4\<lparr>l_world := w1\<lparr>w_fs := s4\<rparr>,
                 l_slot := (l_slot l4)\<lparr>ss_preserve := False\<rparr>\<rparr> else l4\<lparr>l_world := w1\<lparr>w_fs := s4\<rparr>\<rparr>) else l4) \<and>
          r = (if h = Some (in_hash ?e) then Some (rr = Removed) else None)"
          using assms(6) send a False wr True sha rm hash
          by (auto simp: send_staged_def Let_def on_fs_def set_slot_def e2_def split: if_splits)
        show ?thesis
        proof (cases "h = Some (in_hash ?e)")
          case True
          then have "data_hash d = in_hash ?e" using h by simp
          moreover have "confirmed (w1\<lparr>w_fs := s4\<rparr>) (in_hash ?e)" using conf by (simp add: confirmed_def e2_def)
          ultimately show ?thesis
            using res True ok3 steps sl by (auto simp: stage_ok_def settled_def Let_def)
        next
          case False
          then show ?thesis
            using res assms(2) ok3 steps sl e2 disk3 by (auto simp: stage_ok_def loop_ok_def Let_def)
        qed
      qed
    qed
  next
    case False
    define t where "t = error_text (case answer of PutRefused _ \<Rightarrow> True | _ \<Rightarrow> False)
      (case answer of PutRefused m \<Rightarrow> m | PutUnknown m \<Rightarrow> m | PutOk _ \<Rightarrow> [])"
    have "CHR 0x00 \<notin> set (case answer of PutRefused m \<Rightarrow> m | PutUnknown m \<Rightarrow> m | PutOk _ \<Rightarrow> [])"
      using send_upload_answer [OF assms(4) send] by (auto simp: answer_ok_def split: put_result.splits)
    then have e2: "inflight_ok (?e\<lparr>in_error := t\<rparr>)"
      using eok error_text_ok by (simp add: inflight_ok_def t_def)
    obtain s2 b where wr: "inflight_write pid path (?e\<lparr>in_error := t\<rparr>) (w_fs w1) = (s2, b)" by fastforce
    note wr3 = inflight_write_cases [OF wr assms(5)]
    have dead: "files s2 path = files (w_fs ?w) path" if "crashed (w_fs ?w)"
      using that fs_step_crashed [OF out(3) that] fs_step_crashed [OF wr3(1)] by simp
    have "outbox_ok path (w1\<lparr>w_fs := s2\<rparr>)"
      using wr3(2) outbox_ok_files [OF out(1), of s2] out(5) [OF _ e2, of s2] dead by blast
    moreover have "fs_step ?P (w_fs ?w) s2" using out(3) wr3(1) fs_step_trans by blast
    moreover have "slot_ok server ((l_slot l)\<lparr>ss_preserve := True\<rparr>)" using slot by (simp add: slot_ok_def)
    ultimately show ?thesis
      using assms(6) send False wr out(1,3)
      by (cases answer) (auto simp: send_staged_def stage_ok_def Let_def on_fs_def set_slot_def t_def answered_def)
  qed
qed

lemma stage_ok_trans:
  "stage_ok server path pid l l1 \<Longrightarrow> stage_ok server path pid l1 l2 \<Longrightarrow> stage_ok server path pid l l2"
  unfolding stage_ok_def by (elim conjE, intro conjI, assumption, assumption, simp, erule (1) fs_step_trans)

lemma working_file_stage:
  "working_file path pid d l \<Longrightarrow> stage_ok server path pid l l' \<Longrightarrow> working_file path pid d l'"
  by (auto simp: working_file_def stage_ok_def dest!: fs_step_file)

lemma inflight_attempts_ok:
  assumes "loop_ok server path h0 l" "answers_ok put" "temp_path path pid \<noteq> path" "working_file path pid d l"
    "inflight_attempts put pid path game fence final n l = (l', ok)"
  shows "stage_ok server path pid l l' \<and> (ok \<and> \<not> ss_preserve (l_slot l') \<longrightarrow> settled h0 d l')"
  using assms(1,4,5)
proof (induction n arbitrary: l)
  case 0
  then show ?case by (auto simp: stage_ok_def loop_ok_def set_slot_def slot_ok_def)
next
  case (Suc n)
  obtain l1 r1 where st: "stage_snapshot pid path l = (l1, r1)" by fastforce
  note s1 = stage_snapshot_ok [OF Suc.prems(1) assms(3) Suc.prems(2) st]
  show ?case
  proof (cases r1)
    case (Some b)
    then show ?thesis using s1 st Suc.prems(3) by auto
  next
    case None
    then have l1: "loop_ok server path h0 l1" "l_exists l1" "in_committed (l_entry l1) = 0"
      and w1: "working_file path pid d l1"
      using s1 working_file_stage [OF Suc.prems(2)] by blast+
    obtain l2 r2 where se: "send_staged put pid path game fence final l1 = (l2, r2)" by fastforce
    note s2 = send_staged_ok [OF l1 assms(2,3) se w1]
    show ?thesis
    proof (cases r2)
      case (Some b)
      then show ?thesis
        using s2 st se None Suc.prems(3) stage_ok_trans [OF conjunct1 [OF s1] conjunct1 [OF s2]] by auto
    next
      case None2: None
      then have "loop_ok server path h0 l2" "working_file path pid d l2"
        using s2 working_file_stage [OF w1] by blast+
      moreover have "inflight_attempts put pid path game fence final n l2 = (l', ok)"
        using st se None None2 Suc.prems(3) by simp
      ultimately show ?thesis
        using Suc.IH [of l2] stage_ok_trans [OF stage_ok_trans [OF conjunct1 [OF s1] conjunct1 [OF s2]], of l']
        by blast
    qed
  qed
qed

text \<open>One call on a world in order.\<close>

definition call_ok :: "string \<Rightarrow> nat \<Rightarrow> sync_slot \<Rightarrow> 'srv world \<Rightarrow> sync_slot \<Rightarrow> 'srv world \<Rightarrow> bool" where
  "call_ok path pid slot w slot' w' \<longleftrightarrow> outbox_ok path w' \<and>
     ss_save_path slot' = ss_save_path slot \<and> fs_step {path, temp_path path pid} (w_fs w) (w_fs w')"

lemma process_ok:
  assumes "inflight_path server (ss_account slot) (ss_save_id slot) CONFIG_PATH_MAX = Some path"
    and "slot_ok server slot" "length (ss_last_hash slot) < 65" "answers_ok put" "outbox_ok path w"
    and "ss_save_path slot \<notin> {path, temp_path path pid}" "files (w_fs w) (ss_save_path slot) = Some d"
      "length d \<le> MAX_SAVE_BYTES"
    and "process_save_inflight put pid server game fence final slot w = (w', slot', ok)"
  shows "call_ok path pid slot w slot' w' \<and>
    (ok \<and> \<not> ss_preserve slot' \<longrightarrow> ss_last_hash slot' = data_hash d \<and>
       (data_hash d = ss_last_hash slot \<or> confirmed w' (data_hash d)))"
proof -
  let ?P = "{path, temp_path path pid}"
  have temp: "temp_path path pid \<noteq> path" by (rule inflight_temp [OF assms(1)])
  obtain s1 c1 where c1: "fs_call (w_fs w) = (s1, c1)" by fastforce
  obtain s2 c2 where c2: "fs_call s1 = (s2, c2)" by fastforce
  obtain s3 c3 where c3: "fs_call s2 = (s3, c3)" by fastforce
  have f: "files s1 = files (w_fs w)" "files s2 = files (w_fs w)" "files s3 = files (w_fs w)"
    using fs_call_effect [OF c1] fs_call_effect [OF c2] fs_call_effect [OF c3] by simp_all
  have st: "fs_step Q (w_fs w) s1" "fs_step Q (w_fs w) s2" "fs_step Q (w_fs w) s3" for Q
    using fs_call_step [OF c1] fs_call_step [OF c2] fs_call_step [OF c3] fs_step_trans by blast+
  have early: ?thesis if "(w', slot', ok) = (w\<lparr>w_fs := s\<rparr>, slot, False)" "s \<in> {s1, s2, s3}" for s
    using that f st outbox_ok_files [OF assms(5)] by (auto simp: call_ok_def)
  have run: ?thesis
    if "inflight_done (inflight_attempts put pid path game fence final 2 l) = (w', slot', ok)"
      "l_slot l = slot" "loop_ok server path (ss_last_hash slot) l" "fs_step ?P (w_fs w) (w_fs (l_world l))" for l
  proof -
    obtain l' b where a: "inflight_attempts put pid path game fence final 2 l = (l', b)" by fastforce
    have "working_file path pid d l"
      using that(2,4) assms(6-8) fs_step_file by (auto simp: working_file_def)
    from inflight_attempts_ok [OF that(3) assms(4) temp this a] show ?thesis
      using that(1,2,4) a fs_step_trans [OF that(4)]
      by (auto simp: inflight_done_def call_ok_def stage_ok_def settled_def split: if_splits)
  qed
  show ?thesis
  proof (cases "c1 \<and> c2 \<and> c3")
    case False
    then show ?thesis using assms(1,9) c1 c2 c3 early
      by (auto simp: process_save_inflight_def split: bool.splits)
  next
    case True
    show ?thesis
    proof (cases "local_file_exists path s3")
      case ne: False
      have "path \<noteq> []" using inflight_path_length [OF assms(1)] by auto
      then have none: "files s3 path = None" using ne by (simp add: local_file_exists_def)
      show ?thesis
      proof (rule run)
        show "inflight_done (inflight_attempts put pid path game fence final 2
          \<lparr>l_world = w\<lparr>w_fs := s3\<rparr>, l_slot = slot, l_entry = fresh_inflight server slot, l_exists = False\<rparr>) =
            (w', slot', ok)"
          using assms(1,9) c1 c2 c3 True ne by (simp add: process_save_inflight_def)
        show "loop_ok server path (ss_last_hash slot) \<lparr>l_world = w\<lparr>w_fs := s3\<rparr>, l_slot = slot,
            l_entry = fresh_inflight server slot, l_exists = False\<rparr>"
          using assms(2,3) none outbox_ok_files [OF assms(5), of s3] f(3)
          by (simp add: loop_ok_def fresh_inflight_def names_ok_def slot_ok_def)
      qed (use st in simp_all)
    next
      case ex: True
      obtain s4 oe where rd: "inflight_read path s3 = (s4, oe)" by fastforce
      obtain data s4' where rda: "read_binary_file_alloc path (INFLIGHT_HEADER + MAX_SAVE_BYTES) s3 = (s4', data)"
        by fastforce
      have s4: "s4' = s4" using rd rda by (auto simp: inflight_read_def split: option.splits)
      have step4: "fs_step Q s3 s4" for Q using read_binary_file_alloc_step [OF rda] s4 by simp
      then have f4: "files s4 = files s3" using fs_step_file [of "{}" s3 s4] by blast
      have ok4: "outbox_ok path (w\<lparr>w_fs := s4\<rparr>)" using outbox_ok_files [OF assms(5)] f f4 by simp
      have stay: ?thesis if "(w', slot', ok) = (w\<lparr>w_fs := s4\<rparr>, slot\<lparr>ss_preserve := True\<rparr>, False)"
        using that ok4 fs_step_trans [OF st(3) step4] by (simp add: call_ok_def)
      show ?thesis
      proof (cases "oe = None \<or> (\<exists>e. oe = Some e \<and> (in_server e \<noteq> server \<or> in_account e \<noteq> ss_account slot \<or>
          in_save_id e \<noteq> ss_save_id slot))")
        case True2: True
        then show ?thesis
          using assms(1,9) c1 c2 c3 True ex rd stay
          by (auto simp: process_save_inflight_def inflight_done_def Let_def)
      next
        case False
        then obtain e where e: "oe = Some e" "in_server e = server" "in_account e = ss_account slot"
          "in_save_id e = ss_save_id slot" by auto
        obtain c where c: "data = Some c" "inflight_decode c = Some e"
          using rd rda e(1) by (auto simp: inflight_read_def split: option.splits)
        have fc: "files s3 path = Some c" using read_binary_file_alloc_Some rda c(1) by blast
        then obtain e' where e': "on_disk path (w_fs w) e'" "c = inflight_bytes e'"
          using assms(5) f by (auto simp: outbox_ok_def envelope_ok_def on_disk_def)
        then have "e = e'" using c(2) inflight_decode_bytes [of e'] by (auto simp: on_disk_def split: if_splits)
        then have disk: "on_disk path s4 e" using e' f f4 by (simp add: on_disk_def)
        show ?thesis
        proof (rule run)
          show "inflight_done (inflight_attempts put pid path game fence final 2
            \<lparr>l_world = w\<lparr>w_fs := s4\<rparr>, l_slot = slot, l_entry = e, l_exists = True\<rparr>) = (w', slot', ok)"
            using assms(1,9) c1 c2 c3 True ex rd e by (simp add: process_save_inflight_def Let_def)
          show "loop_ok server path (ss_last_hash slot)
              \<lparr>l_world = w\<lparr>w_fs := s4\<rparr>, l_slot = slot, l_entry = e, l_exists = True\<rparr>"
            using assms(2) ok4 disk e by (simp add: loop_ok_def names_ok_def slot_ok_def)
          show "fs_step ?P (w_fs w) (w_fs (l_world
              \<lparr>l_world = w\<lparr>w_fs := s4\<rparr>, l_slot = slot, l_entry = e, l_exists = True\<rparr>))"
            using fs_step_trans [OF st(3) step4] by simp
        qed simp
      qed
    qed
  qed
qed

section \<open>Whole runs\<close>

text \<open>
  A run of one save's uploads on one server: calls from any number of processes one after another,
  each with a slot of its own, and in between whatever leaves the envelope alone: the emulator
  writing the working file, a restart after a crash, other clients at the server.
\<close>

definition slot_fits :: "string \<Rightarrow> string \<Rightarrow> nat \<Rightarrow> bytes \<Rightarrow> sync_slot \<Rightarrow> 'srv world \<Rightarrow> bool" where
  "slot_fits server path pid d slot w \<longleftrightarrow>
     inflight_path server (ss_account slot) (ss_save_id slot) CONFIG_PATH_MAX = Some path \<and>
     slot_ok server slot \<and> length (ss_last_hash slot) < 65 \<and>
     ss_save_path slot \<notin> {path, temp_path path pid} \<and>
     files (w_fs w) (ss_save_path slot) = Some d \<and> length d \<le> MAX_SAVE_BYTES"

inductive outbox_run :: "'srv put \<Rightarrow> string \<Rightarrow> string \<Rightarrow> 'srv world \<Rightarrow> bool" for put server path where
  begin_run: "files (w_fs w) path = None \<Longrightarrow> w_sent w = [] \<Longrightarrow> outbox_run put server path w"
| call: "outbox_run put server path w \<Longrightarrow> slot_fits server path pid d slot w \<Longrightarrow>
     process_save_inflight put pid server game fence final slot w = (w', slot', ok) \<Longrightarrow>
     outbox_run put server path w'"
| outside: "outbox_run put server path w \<Longrightarrow> files s path = files (w_fs w) path \<Longrightarrow>
     outbox_run put server path (w\<lparr>w_fs := s, w_srv := srv\<rparr>)"

lemma outbox_run_ok: "outbox_run put server path w \<Longrightarrow> answers_ok put \<Longrightarrow> outbox_ok path w"
proof (induction rule: outbox_run.induct)
  case (begin_run w)
  then show ?case by (simp add: outbox_ok_def pending_on_disk_def envelope_ok_def)
next
  case (call w pid d slot game fence final w' slot' ok)
  then show ?case using process_ok [of server slot path put w pid d game fence final w' slot' ok]
    by (simp add: slot_fits_def call_ok_def)
next
  case (outside w s srv)
  have "outbox_ok path (w\<lparr>w_fs := s\<rparr>)" using outside outbox_ok_files by blast
  moreover have "outbox_ok path (v\<lparr>w_srv := srv\<rparr>) = outbox_ok path v" for v
    by (simp add: outbox_ok_def pending_on_disk_def envelope_ok_def confirmed_def)
  ultimately show ?case by simp
qed

text \<open>
  C2: no upload overtakes an unanswered one. Through lost answers, failed file operations, processes
  killed at any point and restarts, the request after one without an answer is the same request
  (same bytes, revision and request id), and while the last request has no answer it is on disk.
\<close>

theorem upload_retried:
  assumes "outbox_run put server path w" "answers_ok put"
  shows "successively follows (w_sent w) \<and> pending_on_disk path w"
  using outbox_run_ok [OF assms] by (simp add: outbox_ok_def)

text \<open>
  C14: a call never changes the working file, and when it returns with leave to delete it
  (success, preserve flag clear) the file's hash is one the server has confirmed or the one the
  slot started from.
\<close>

theorem working_save_safe:
  assumes "outbox_run put server path w" "answers_ok put" "slot_fits server path pid d slot w"
    and "process_save_inflight put pid server game fence final slot w = (w', slot', ok)"
  shows "files (w_fs w') (ss_save_path slot) = Some d \<and>
    (if ok \<and> \<not> ss_preserve slot'
     then ss_last_hash slot' = data_hash d \<and>
          (data_hash d \<noteq> ss_last_hash slot \<longrightarrow> confirmed w' (data_hash d))
     else True)"
proof -
  have "call_ok path pid slot w slot' w' \<and>
    (ok \<and> \<not> ss_preserve slot' \<longrightarrow> ss_last_hash slot' = data_hash d \<and>
       (data_hash d = ss_last_hash slot \<or> confirmed w' (data_hash d)))"
    using process_ok [OF _ _ _ assms(2) outbox_run_ok [OF assms(1,2)] _ _ _ assms(4)] assms(3)
    by (simp add: slot_fits_def)
  then show ?thesis
    using assms(3) fs_step_file [of "{path, temp_path path pid}" "w_fs w" "w_fs w'" "ss_save_path slot"]
    by (auto simp: call_ok_def slot_fits_def)
qed

section \<open>An empty save\<close>

lemma empty_envelope_stuck:
  assumes "on_disk path (w_fs w) e" "in_bytes e = []"
    and "inflight_path server (ss_account slot) (ss_save_id slot) CONFIG_PATH_MAX = Some path"
    and "process_save_inflight put pid server game fence final slot w = (w', slot', ok)"
  shows "\<not> ok \<and> w_sent w' = w_sent w \<and> on_disk path (w_fs w') e"
proof -
  obtain s1 c1 where c1: "fs_call (w_fs w) = (s1, c1)" by fastforce
  obtain s2 c2 where c2: "fs_call s1 = (s2, c2)" by fastforce
  obtain s3 c3 where c3: "fs_call s2 = (s3, c3)" by fastforce
  have f: "files s1 = files (w_fs w)" "files s2 = files (w_fs w)" "files s3 = files (w_fs w)"
    using fs_call_effect [OF c1] fs_call_effect [OF c2] fs_call_effect [OF c3] by simp_all
  obtain s4 data where rd: "read_binary_file_alloc path (INFLIGHT_HEADER + MAX_SAVE_BYTES) s3 = (s4, data)"
    by fastforce
  have f4: "files s4 = files s3"
    using fs_step_file [OF read_binary_file_alloc_step [OF rd, of "{}"]] by auto
  have "data = None \<or> data = Some (inflight_bytes e)"
    using read_binary_file_alloc_Some [of path _ s3 s4] rd assms(1) f by (cases data) (auto simp: on_disk_def)
  then have no: "inflight_read path s3 = (s4, None)"
    using rd inflight_decode_bytes [of e] assms(1,2) by (auto simp: inflight_read_def on_disk_def)
  have "path \<noteq> []" using inflight_path_length [OF assms(3)] by auto
  then have ex: "local_file_exists path s3" using assms(1) f by (simp add: local_file_exists_def on_disk_def)
  show ?thesis
    using assms(1,3,4) c1 c2 c3 f f4 no ex
    by (auto simp: process_save_inflight_def inflight_done_def on_disk_def split: bool.splits)
qed

lemma inflight_write_calm:
  "calm s \<Longrightarrow> inflight_ok e \<Longrightarrow> temp_path path pid \<noteq> path \<Longrightarrow>
     inflight_write pid path e s =
       (set_file (temp_path path pid) None (set_file path (Some (inflight_bytes e)) s), True)"
  by (simp add: inflight_write_def fs_calm header_fits atomic_replace_calm)

text \<open>
  staging an empty working file blocks the save's uploads for good. When the server does not
  take it, the record stays on disk, and since no record without bytes is ever read back, every
  later call fails without sending anything, whatever the working file then holds.
\<close>

theorem empty_save_blocks:
  assumes "calm (w_fs w)" "slot_fits server path pid [] slot w" "files (w_fs w) path = None"
    and "ss_last_hash slot \<noteq> data_hash []" "answers_ok put" "\<not> answered (snd (put (w_srv w) u))"
    and "u = entry_upload game fence (staged slot (ss_revision slot) [] (fresh_inflight server slot))"
    and "process_save_inflight put pid server game fence final slot w = (w1, slot1, ok1)"
    and "files s path = files (w_fs w1) path" "slot_fits server path pid' d slotb (w1\<lparr>w_fs := s\<rparr>)"
    and "process_save_inflight put pid' server game' fence' final' slotb (w1\<lparr>w_fs := s\<rparr>) = (w2, slotc, ok2)"
  shows "\<not> ok2 \<and> w_sent w2 = w_sent w1 \<and> files (w_fs w2) path = files (w_fs w1) path"
proof -
  define e where "e = staged slot (ss_revision slot) [] (fresh_inflight server slot)"
  have fits: "inflight_path server (ss_account slot) (ss_save_id slot) CONFIG_PATH_MAX = Some path"
    "slot_ok server slot" "length (ss_last_hash slot) < 65"
    "files (w_fs w) (ss_save_path slot) = Some []"
    using assms(2) by (simp_all add: slot_fits_def)
  have temp: "temp_path path pid \<noteq> path" by (rule inflight_temp [OF fits(1)])
  have "names_ok (fresh_inflight server slot)"
    using fits(2) by (simp add: names_ok_def fresh_inflight_def slot_ok_def)
  then have eok: "inflight_ok e"
    unfolding e_def using fits(2) by (intro staged_ok [OF fits(2)]) (simp_all add: slot_ok_def)
  define l where "l = \<lparr>l_world = w, l_slot = slot, l_entry = fresh_inflight server slot, l_exists = False\<rparr>"
  define s1 where "s1 = set_file (temp_path path pid) None (set_file path (Some (inflight_bytes e)) (w_fs w))"
  have "in_hash (fresh_inflight server slot) = ss_last_hash slot"
    using fits(3) by (simp add: fresh_inflight_def)
  then have st: "stage_snapshot pid path l =
      (l\<lparr>l_world := w\<lparr>w_fs := s1\<rparr>, l_entry := e, l_exists := True\<rparr>, None)"
    using assms(1,4) fits(4) inflight_write_calm [OF assms(1) eok temp]
    by (simp add: stage_snapshot_def l_def on_fs_def read_binary_file_calm set_slot_def Let_def e_def s1_def)
  have calm1: "calm s1" using assms(1) by (simp add: s1_def)
  obtain l2 r2 where se: "send_staged put pid path game fence final
      (l\<lparr>l_world := w\<lparr>w_fs := s1\<rparr>, l_entry := e, l_exists := True\<rparr>) = (l2, r2)" by fastforce
  define t where "t = (case snd (put (w_srv w) u) of PutRefused m \<Rightarrow> error_text True m
    | PutUnknown m \<Rightarrow> error_text False m | PutOk _ \<Rightarrow> [])"
  have "answer_ok (snd (put (w_srv w) u))" using assms(5) by (simp add: answers_ok_def answer_ok_def)
  then have tok: "inflight_ok (e\<lparr>in_error := t\<rparr>)"
    using eok error_text_ok
    by (cases "snd (put (w_srv w) u)") (auto simp: t_def inflight_ok_def answer_ok_def)
  have send: "send_upload put u (w\<lparr>w_fs := s1\<rparr>) =
      (w\<lparr>w_fs := s1, w_srv := fst (put (w_srv w) u), w_sent := w_sent w @ [(u, snd (put (w_srv w) u))]\<rparr>,
       snd (put (w_srv w) u))"
    using calm1 by (simp add: send_upload_def calm_def io_next_def split: prod.split)
  have res: "r2 = Some final \<and> ss_preserve (l_slot l2) \<and>
      (files (w_fs (l_world l2)) path = Some (inflight_bytes e) \<or>
       files (w_fs (l_world l2)) path = Some (inflight_bytes (e\<lparr>in_error := t\<rparr>)))"
    using se send assms(6,7) inflight_write_calm [OF calm1 tok temp] temp
    by (cases "snd (put (w_srv w) u)")
       (auto simp: send_staged_def Let_def on_fs_def set_slot_def answered_def e_def [symmetric] t_def s1_def)
  have path: "path \<noteq> []" using inflight_path_length [OF fits(1)] by auto
  have "process_save_inflight put pid server game fence final slot w =
      inflight_done (inflight_attempts put pid path game fence final 2 l)"
    using assms(1,3) fits(1) path
    by (simp add: process_save_inflight_def fs_calm local_file_exists_def l_def)
  also have "inflight_attempts put pid path game fence final 2 l = (l2, final)"
    using st se res by (simp add: numeral_2_eq_2)
  finally have "w1 = l_world l2" using assms(8) by (simp add: inflight_done_def)
  then obtain e1 where e1: "on_disk path (w_fs (w1\<lparr>w_fs := s\<rparr>)) e1" "in_bytes e1 = []"
    using res eok tok assms(9) by (force simp: on_disk_def e_def staged_def)
  have "inflight_path server (ss_account slotb) (ss_save_id slotb) CONFIG_PATH_MAX = Some path"
    using assms(10) by (simp add: slot_fits_def)
  from empty_envelope_stuck [OF e1 this assms(11)] show ?thesis
    using e1 assms(9) by (auto simp: on_disk_def)
qed

section \<open>An instance\<close>

definition no_answer :: "unit put" where
  "no_answer srv u = (srv, PutUnknown ''timeout'')"

definition sample_slot :: sync_slot where
  "sample_slot = \<lparr>ss_account = ''a'', ss_save_id = ''g'', ss_save_path = ''runtime/g.sav'',
     ss_last_hash = ''x'', ss_revision = 4, ss_preserve = False\<rparr>"

definition sample_path :: string where
  "sample_path = OUTBOX_DIR @ ''/'' @
     data_hash (text_bytes (''s'' @ [LF] @ ''a'' @ [LF] @ ''g'')) @ ''.inflight''"

definition sample_world :: "bytes \<Rightarrow> unit world" where
  "sample_world d =
     \<lparr>w_fs = \<lparr>files = (\<lambda>_. None)(''runtime/g.sav'' := Some d), script = [], crashed = False\<rparr>,
      w_srv = (), w_sent = []\<rparr>"

definition sample_call :: "bytes \<Rightarrow> unit world \<times> sync_slot \<times> bool" where
  "sample_call d = process_save_inflight no_answer 7 ''s'' ''game'' 1 True sample_slot (sample_world d)"

lemma sample_answers: "answers_ok no_answer"
  by (simp add: answers_ok_def no_answer_def)

lemma sample_inflight_path: "inflight_path ''s'' ''a'' ''g'' CONFIG_PATH_MAX = Some sample_path"
  by (simp add: inflight_path_def sample_path_def Let_def OUTBOX_DIR_def CONFIG_PATH_MAX_def LF_def)

lemma sample_path_away: "''runtime/g.sav'' \<notin> {sample_path, temp_path sample_path pid}"
proof -
  have "length sample_path = 93" using inflight_path_length [OF sample_inflight_path] .
  moreover from this have "93 < length (temp_path sample_path pid)"
    by (auto simp: temp_path_def copy_text_def CONFIG_PATH_MAX_def)
  moreover have "length ''runtime/g.sav'' = 13" by simp
  ultimately have "sample_path \<noteq> ''runtime/g.sav''" "temp_path sample_path pid \<noteq> ''runtime/g.sav''"
    by (auto dest: arg_cong [where f = length])
  then show ?thesis by simp
qed

lemma sample_fits:
  "length d \<le> MAX_SAVE_BYTES \<Longrightarrow> files (w_fs w) ''runtime/g.sav'' = Some d \<Longrightarrow>
     slot_fits ''s'' sample_path 7 d sample_slot w"
  using sample_inflight_path sample_path_away [of 7]
  by (simp add: slot_fits_def sample_slot_def slot_ok_def CONFIG_PATH_MAX_def)

lemma sample_start: "outbox_run no_answer ''s'' sample_path (sample_world d)"
  using sample_path_away [of 7] by (intro outbox_run.begin_run) (auto simp: sample_world_def)

lemma sample_small: "length [1, 2 :: u8] \<le> MAX_SAVE_BYTES"
  by (simp add: MAX_SAVE_BYTES_def)

theorem upload_retried_witness:
  "successively follows (w_sent (fst (sample_call [1, 2]))) \<and> pending_on_disk sample_path (fst (sample_call [1, 2]))"
proof (rule upload_retried [OF _ sample_answers])
  obtain w' slot' ok where c: "sample_call [1, 2] = (w', slot', ok)" by (cases "sample_call [1, 2]")
  have "slot_fits ''s'' sample_path 7 [1, 2] sample_slot (sample_world [1, 2])"
    by (rule sample_fits [OF sample_small]) (simp add: sample_world_def)
  from outbox_run.call [OF sample_start this c [unfolded sample_call_def]]
  show "outbox_run no_answer ''s'' sample_path (fst (sample_call [1, 2]))" using c by simp
qed

theorem working_save_safe_witness:
  "files (w_fs (fst (sample_call [1, 2]))) ''runtime/g.sav'' = Some [1, 2]"
proof -
  obtain w' slot' ok where c: "sample_call [1, 2] = (w', slot', ok)" by (cases "sample_call [1, 2]")
  have "slot_fits ''s'' sample_path 7 [1, 2] sample_slot (sample_world [1, 2])"
    by (rule sample_fits [OF sample_small]) (simp add: sample_world_def)
  from working_save_safe [OF sample_start sample_answers this c [unfolded sample_call_def]] c
  show ?thesis by (simp add: sample_slot_def)
qed

theorem empty_save_blocks_witness:
  "\<not> snd (snd (process_save_inflight no_answer 7 ''s'' ''game'' 1 True sample_slot
     ((fst (sample_call []))\<lparr>w_fs := (w_fs (fst (sample_call [])))\<lparr>files :=
        (files (w_fs (fst (sample_call []))))(''runtime/g.sav'' := Some [1, 2])\<rparr>\<rparr>)))"
proof -
  let ?w1 = "fst (sample_call [])"
  let ?s = "(w_fs ?w1)\<lparr>files := (files (w_fs ?w1))(''runtime/g.sav'' := Some [1, 2])\<rparr>"
  let ?c2 = "process_save_inflight no_answer 7 ''s'' ''game'' 1 True sample_slot (?w1\<lparr>w_fs := ?s\<rparr>)"
  have away: "sample_path \<noteq> ''runtime/g.sav''" using sample_path_away [of 7] by auto
  have c1: "process_save_inflight no_answer 7 ''s'' ''game'' 1 True sample_slot (sample_world []) =
      (?w1, fst (snd (sample_call [])), snd (snd (sample_call [])))" by (simp add: sample_call_def)
  have "''x'' \<noteq> data_hash []" using length_data_hash [of "[]"] by (metis length_Cons list.size(3) numeral_eq_Suc
      nat.distinct(1) old.nat.inject pred_numeral_simps(2))
  then have h: "ss_last_hash sample_slot \<noteq> data_hash []" by (simp add: sample_slot_def)
  have "\<not> snd (snd ?c2) \<and> w_sent (fst ?c2) = w_sent ?w1 \<and> files (w_fs (fst ?c2)) sample_path = files (w_fs ?w1) sample_path"
    by (rule empty_save_blocks [OF _ _ _ h sample_answers _ refl c1, where s = ?s and d = "[1, 2]" and
          pid' = 7 and slotb = sample_slot and game' = "''game''" and fence' = 1 and final' = True and
          slotc = "fst (snd ?c2)"])
       (use away sample_small in \<open>simp_all add: sample_fits calm_def sample_world_def no_answer_def answered_def\<close>)
  then show ?thesis by blast
qed

end
