(* ===== verification/SaveStage.thy ===== *)
theory SaveStage
  imports FileStore
begin

text \<open>
  The Transfer Pak's save staging (\<open>runtimes/n64/src/transfer_pak/save_stage.c\<close> and \<open>storage.c\<close>): the
  emulator gets a working copy of the cartridge RAM and of the clock trailer, and the save file is
  replaced by the merged result at the end. Streams are read from what the file held when it was
  opened. The clock is a parameter: what \<open>time\<close> gives (None for -1) and the second, minute, hour and
  day of the year \<open>localtime_r\<close> gives (None when it fails). A second \<open>fclose\<close> of a stream whose first
  one failed is taken to do nothing.
\<close>

section \<open>Model\<close>

definition STORAGE_PATH_CAPACITY :: nat where "STORAGE_PATH_CAPACITY = 1024"
definition STORAGE_MAX_FILE_SIZE :: nat where "STORAGE_MAX_FILE_SIZE = 64 * 1024 * 1024"
definition RTC_TRAILER_SIZE :: nat where "RTC_TRAILER_SIZE = 48"
definition RTC_REASONABLE_EPOCH :: u64 where "RTC_REASONABLE_EPOCH = 852076800"
definition COPY_CHUNK :: nat where "COPY_CHUNK = 16384"

record clock =
  ck_now :: "u64 option"
  ck_local :: "(nat \<times> nat \<times> nat \<times> nat) option"

definition storage_file_size :: "string \<Rightarrow> fs \<Rightarrow> fs \<times> nat option" where
  "storage_file_size p s =
     (case fs_open p s of
        (s1, None) \<Rightarrow> (s1, None)
      | (s1, Some d) \<Rightarrow> (s1, if STORAGE_MAX_FILE_SIZE < length d then None else Some (length d)))"

text \<open>The rest of the input stream is returned; False stands for the result -1.\<close>

function storage_copy :: "bytes \<Rightarrow> string \<Rightarrow> nat \<Rightarrow> fs \<Rightarrow> fs \<times> bytes \<times> bool" where
  "storage_copy rest out n s =
     (if n = 0 then (s, rest, True)
      else let chunk = min n COPY_CHUNK in
        case fs_read chunk rest s of
          (s1, got, _) \<Rightarrow>
            if length got \<noteq> chunk then (s1, rest, False)
            else (case fs_write out got s1 of
                    (s2, False) \<Rightarrow> (s2, rest, False)
                  | (s2, True) \<Rightarrow> storage_copy (drop chunk rest) out (n - chunk) s2))"
  by pat_completeness auto
termination
  by (relation "measure (\<lambda>(_, _, n, _). n)") (auto simp: COPY_CHUNK_def min_def)

declare storage_copy.simps [simp del]

definition rom_octet :: "string \<Rightarrow> nat \<Rightarrow> fs \<Rightarrow> fs \<times> u8 option" where
  "rom_octet rom off s =
     (case fs_open rom s of
        (s1, None) \<Rightarrow> (s1, None)
      | (s1, Some d) \<Rightarrow>
          (case fs_call s1 of
             (s2, False) \<Rightarrow> (s2, None)
           | (s2, True) \<Rightarrow>
               (case fs_read 1 (drop off d) s2 of
                  (s3, got, _) \<Rightarrow> (s3, case got of [c] \<Rightarrow> Some c | _ \<Rightarrow> None))))"

definition gb_ram_size :: "string \<Rightarrow> fs \<Rightarrow> fs \<times> nat" where
  "gb_ram_size rom s =
     (case rom_octet rom 0x149 s of
        (s1, code) \<Rightarrow>
          (s1, if code = Some 1 then 2 * 1024 else if code = Some 2 then 8 * 1024
               else if code = Some 3 then 32 * 1024 else if code = Some 4 then 128 * 1024
               else if code = Some 5 then 64 * 1024 else 0))"

definition gb_has_mbc3_rtc :: "string \<Rightarrow> fs \<Rightarrow> fs \<times> bool" where
  "gb_has_mbc3_rtc rom s =
     (case rom_octet rom 0x147 s of (s1, code) \<Rightarrow> (s1, code = Some 0x0F \<or> code = Some 0x10))"

definition copy_path :: "nat \<Rightarrow> string \<Rightarrow> string option" where
  "copy_path capacity path = (if capacity \<le> length path then None else Some path)"

text \<open>\<open>snprintf\<close> into a path buffer: what the buffer holds and whether everything fitted.\<close>

definition format_path :: "nat \<Rightarrow> string \<Rightarrow> string \<times> bool" where
  "format_path capacity path = (copy_text capacity path, length path < capacity)"

definition copy_range_opened ::
  "bytes option \<Rightarrow> bool \<Rightarrow> nat \<Rightarrow> string \<Rightarrow> string \<Rightarrow> nat \<Rightarrow> fs \<Rightarrow> fs \<times> bool" where
  "copy_range_opened input output off temporary target n s =
     (case input of
        None \<Rightarrow> (s, False)
      | Some d \<Rightarrow>
          if \<not> output then (s, False)
          else case fs_call s of
                 (s3, False) \<Rightarrow> (s3, False)
               | (s3, True) \<Rightarrow>
                   (case storage_copy (drop off d) temporary n s3 of
                      (s4, _, False) \<Rightarrow> (s4, False)
                    | (s4, _, True) \<Rightarrow>
                        (case fs_call s4 of
                           (s5, closed_in) \<Rightarrow>
                             (case fs_flush temporary s5 of
                                (s6, closed_out) \<Rightarrow>
                                  if closed_in \<and> closed_out then fs_rename temporary target s6
                                  else (s6, False)))))"

definition copy_range_atomic :: "string \<Rightarrow> nat \<Rightarrow> string \<Rightarrow> nat \<Rightarrow> fs \<Rightarrow> fs \<times> bool" where
  "copy_range_atomic source off target n s =
     (case format_path (STORAGE_PATH_CAPACITY + 16) (target @ ''.part'') of
        (_, False) \<Rightarrow> (s, False)
      | (temporary, True) \<Rightarrow>
          (case fs_open source s of
             (s1, input) \<Rightarrow>
               (case fs_create temporary s1 of
                  (s2, output) \<Rightarrow>
                    (case copy_range_opened input output off temporary target n s2 of
                       (s3, True) \<Rightarrow> (s3, True)
                     | (s3, False) \<Rightarrow> (fst (fs_remove temporary s3), False)))))"

definition rtc_time_fields_valid :: "bytes \<Rightarrow> bool" where
  "rtc_time_fields_valid d \<longleftrightarrow> d ! 0 < 60 \<and> d ! 4 < 60 \<and> d ! 8 < 24 \<and> d ! 16 AND 0x3E = 0"

definition rtc_trailer_valid :: "clock \<Rightarrow> bytes \<Rightarrow> bool" where
  "rtc_trailer_valid c d \<longleftrightarrow>
     rtc_time_fields_valid d \<and> rtc_time_fields_valid (drop 20 d) \<and>
     RTC_REASONABLE_EPOCH \<le> get_le64 (drop 40 d) \<and>
     (case ck_now c of None \<Rightarrow> True | Some now \<Rightarrow> get_le64 (drop 40 d) \<le> now)"

definition make_synthetic_mbc3_rtc :: "clock \<Rightarrow> bytes option" where
  "make_synthetic_mbc3_rtc c =
     (case ck_now c of None \<Rightarrow> None | Some now \<Rightarrow>
     (case ck_local c of None \<Rightarrow> None | Some (sec, minute, hour, yday) \<Rightarrow>
        let t = (replicate 48 0)[0 := of_nat sec, 4 := of_nat minute, 8 := of_nat hour,
                  12 := of_nat (yday mod 256), 16 := of_nat (yday div 256 mod 2)]
        in Some (write_at 40 (put_le64 now) (write_at 20 (take 20 t) t))))"

definition memory_rtc :: "clock \<Rightarrow> bool \<Rightarrow> nat \<Rightarrow> bytes \<Rightarrow> nat \<Rightarrow> int \<times> bytes option" where
  "memory_rtc c has_rtc ram save n =
     (if 2 ^ 64 - 1 - 48 < ram \<or> (n \<noteq> ram \<and> n \<noteq> ram + 48) then (- 1, None)
      else if \<not> has_rtc then (0, None)
      else if n = ram + 48 \<and> rtc_trailer_valid c (drop ram save)
      then (1, Some (take 48 (drop ram save)))
      else case make_synthetic_mbc3_rtc c of None \<Rightarrow> (- 1, None) | Some t \<Rightarrow> (1, Some t))"

definition write_synthetic_mbc3_rtc :: "clock \<Rightarrow> string \<Rightarrow> fs \<Rightarrow> fs \<times> bool" where
  "write_synthetic_mbc3_rtc c target s =
     (case make_synthetic_mbc3_rtc c of
        None \<Rightarrow> (s, False)
      | Some trailer \<Rightarrow>
          (case format_path (STORAGE_PATH_CAPACITY + 16) (target @ ''.part'') of
             (_, False) \<Rightarrow> (s, False)
           | (temporary, True) \<Rightarrow>
               (case (case fs_create temporary s of
                        (s1, False) \<Rightarrow> (s1, False)
                      | (s1, True) \<Rightarrow>
                          (case fs_write temporary trailer s1 of
                             (s2, False) \<Rightarrow> (s2, False)
                           | (s2, True) \<Rightarrow> fs_flush temporary s2))
                of
                  (s3, False) \<Rightarrow> (fst (fs_remove temporary s3), False)
                | (s3, True) \<Rightarrow>
                    (case fs_rename temporary target s3 of
                       (s4, True) \<Rightarrow> (s4, True)
                     | (s4, False) \<Rightarrow> (fst (fs_remove temporary s4), False)))))"

definition repair_mbc3_rtc_if_needed :: "clock \<Rightarrow> string \<Rightarrow> fs \<Rightarrow> fs \<times> bool" where
  "repair_mbc3_rtc_if_needed c path s =
     (case (case fs_open path s of
              (s1, None) \<Rightarrow> (s1, False)
            | (s1, Some d) \<Rightarrow>
                (case fs_read RTC_TRAILER_SIZE d s1 of
                   (s2, got, _) \<Rightarrow>
                     if length got \<noteq> RTC_TRAILER_SIZE then (s2, False)
                     else case fs_call s2 of (s3, closed) \<Rightarrow> (s3, closed \<and> rtc_trailer_valid c got)))
      of
        (s4, True) \<Rightarrow> (s4, True)
      | (s4, False) \<Rightarrow> write_synthetic_mbc3_rtc c path s4)"

record save_stage =
  sg_active :: bool
  sg_ram_size :: nat
  sg_original_size :: nat
  sg_merged_size :: nat
  sg_original_path :: string
  sg_working_path :: string
  sg_rtc_path :: string

definition empty_stage :: save_stage where
  "empty_stage = \<lparr>sg_active = False, sg_ram_size = 0, sg_original_size = 0, sg_merged_size = 0,
     sg_original_path = [], sg_working_path = [], sg_rtc_path = []\<rparr>"

definition stage_discard :: "save_stage \<Rightarrow> fs \<Rightarrow> fs \<times> save_stage" where
  "stage_discard g s =
     (let s1 = (if sg_working_path g \<noteq> [] then fst (fs_remove (sg_working_path g) s) else s);
          s2 = (if sg_rtc_path g \<noteq> [] then fst (fs_remove (sg_rtc_path g) s1) else s1)
      in (s2, empty_stage))"

text \<open>Results: the state, the stage and the path for the emulator, None for -1.\<close>

definition stage_fail :: "save_stage \<Rightarrow> fs \<Rightarrow> fs \<times> save_stage \<times> string option" where
  "stage_fail g s = (case stage_discard g s of (s1, g1) \<Rightarrow> (s1, g1, None))"

definition stage_working ::
  "string \<Rightarrow> save_stage \<Rightarrow> nat \<Rightarrow> fs \<Rightarrow> fs \<times> save_stage \<times> bool" where
  "stage_working save g ram s =
     (case format_path STORAGE_PATH_CAPACITY (save @ ''.mupen'') of
        (working, fits) \<Rightarrow>
          let g1 = g\<lparr>sg_working_path := working\<rparr> in
          if \<not> fits then (s, g1, False)
          else case copy_range_atomic save 0 working ram s of (s1, ok) \<Rightarrow> (s1, g1, ok))"

definition stage_rtc_path :: "save_stage \<Rightarrow> save_stage \<times> bool" where
  "stage_rtc_path g =
     (case format_path STORAGE_PATH_CAPACITY (sg_working_path g @ ''.rtc'') of
        (rtc, fits) \<Rightarrow> (g\<lparr>sg_rtc_path := rtc\<rparr>, fits))"

definition stage_activate :: "nat \<Rightarrow> save_stage \<Rightarrow> fs \<Rightarrow> fs \<times> save_stage \<times> string option" where
  "stage_activate capacity g s =
     (let g1 = g\<lparr>sg_active := True\<rparr> in
      case copy_path capacity (sg_working_path g1) of
        None \<Rightarrow> stage_fail g1 s
      | Some p \<Rightarrow> (s, g1, Some p))"

text \<open>A save without the clock trailer its cartridge needs gets one made up.\<close>

definition stage_synthesize ::
  "clock \<Rightarrow> nat \<Rightarrow> string \<Rightarrow> nat \<Rightarrow> nat \<Rightarrow> fs \<Rightarrow> fs \<times> save_stage \<times> string option" where
  "stage_synthesize c capacity save ram n s =
     (let g = empty_stage\<lparr>sg_ram_size := ram, sg_original_size := n,
                sg_merged_size := n + RTC_TRAILER_SIZE\<rparr> in
      case copy_path STORAGE_PATH_CAPACITY save of
        None \<Rightarrow> (s, g, None)
      | Some original \<Rightarrow>
          (case stage_working save (g\<lparr>sg_original_path := original\<rparr>) ram s of
             (s1, g1, False) \<Rightarrow> stage_fail g1 s1
           | (s1, g1, True) \<Rightarrow>
               (case stage_rtc_path g1 of
                  (g2, False) \<Rightarrow> stage_fail g2 s1
                | (g2, True) \<Rightarrow>
                    (case write_synthetic_mbc3_rtc c (sg_rtc_path g2) s1 of
                       (s2, False) \<Rightarrow> stage_fail g2 s2
                     | (s2, True) \<Rightarrow> stage_activate capacity g2 s2))))"

definition stage_split ::
  "clock \<Rightarrow> nat \<Rightarrow> string \<Rightarrow> string \<Rightarrow> nat \<Rightarrow> nat \<Rightarrow> fs \<Rightarrow> fs \<times> save_stage \<times> string option" where
  "stage_split c capacity rom save ram n s =
     (let g = empty_stage\<lparr>sg_ram_size := ram, sg_original_size := n, sg_merged_size := n\<rparr> in
      case copy_path STORAGE_PATH_CAPACITY save of
        None \<Rightarrow> (s, g, None)
      | Some original \<Rightarrow>
          (case stage_working save (g\<lparr>sg_original_path := original\<rparr>) ram s of
             (s1, g1, False) \<Rightarrow> stage_fail g1 s1
           | (s1, g1, True) \<Rightarrow>
               if n - ram \<noteq> RTC_TRAILER_SIZE then stage_activate capacity g1 s1
               else (case stage_rtc_path g1 of
                       (g2, False) \<Rightarrow> stage_fail g2 s1
                     | (g2, True) \<Rightarrow>
                         (case copy_range_atomic save ram (sg_rtc_path g2) RTC_TRAILER_SIZE s1 of
                            (s2, False) \<Rightarrow> stage_fail g2 s2
                          | (s2, True) \<Rightarrow>
                              (case gb_has_mbc3_rtc rom s2 of
                                 (s3, has_rtc) \<Rightarrow>
                                   (case (if has_rtc then repair_mbc3_rtc_if_needed c (sg_rtc_path g2) s3
                                          else (s3, True)) of
                                      (s4, False) \<Rightarrow> stage_fail g2 s4
                                    | (s4, True) \<Rightarrow> stage_activate capacity g2 s4))))))"

definition save_stage_prepare ::
  "clock \<Rightarrow> string \<Rightarrow> string \<Rightarrow> nat \<Rightarrow> fs \<Rightarrow> fs \<times> save_stage \<times> string option" where
  "save_stage_prepare c rom save capacity s =
     (case gb_ram_size rom s of
        (s1, ram) \<Rightarrow>
          (case storage_file_size save s1 of
             (s2, None) \<Rightarrow> (s2, empty_stage, None)
           | (s2, Some n) \<Rightarrow>
               if ram = 0 \<or> n \<le> ram
               then (if n \<noteq> ram then (s2, empty_stage, copy_path capacity save)
                     else case gb_has_mbc3_rtc rom s2 of
                            (s3, True) \<Rightarrow> stage_synthesize c capacity save ram n s3
                          | (s3, False) \<Rightarrow> (s3, empty_stage, copy_path capacity save))
               else stage_split c capacity rom save ram n s2))"

text \<open>Finalising: the working RAM and the trailer are merged beside the save, which is then replaced.\<close>

definition merge_streams ::
  "save_stage \<Rightarrow> string \<Rightarrow> bytes \<Rightarrow> bytes \<Rightarrow> bytes option \<Rightarrow> fs \<Rightarrow> fs \<times> bool" where
  "merge_streams g temporary working original trailer s =
     (case storage_copy working temporary (sg_ram_size g) s of
        (s1, _, False) \<Rightarrow> (s1, False)
      | (s1, _, True) \<Rightarrow>
          (case (if trailer = None then fs_call s1 else (s1, True)) of
             (s2, False) \<Rightarrow> (s2, False)
           | (s2, True) \<Rightarrow>
               (case storage_copy (case trailer of None \<Rightarrow> drop (sg_ram_size g) original | Some t \<Rightarrow> t)
                       temporary (sg_merged_size g - sg_ram_size g) s2 of
                  (s3, _, ok) \<Rightarrow> (s3, ok))))"

definition close_streams :: "string \<Rightarrow> bool \<Rightarrow> fs \<Rightarrow> fs \<times> bool" where
  "close_streams temporary has_trailer s =
     (case fs_call s of
        (s1, a) \<Rightarrow> (case fs_call s1 of
        (s2, b) \<Rightarrow> (case (if has_trailer then fs_call s2 else (s2, True)) of
        (s3, t) \<Rightarrow> (case fs_flush temporary s3 of
        (s4, w) \<Rightarrow> (s4, a \<and> b \<and> t \<and> w)))))"

definition open_trailer :: "save_stage \<Rightarrow> fs \<Rightarrow> fs \<times> bytes option" where
  "open_trailer g s =
     (if sg_rtc_path g = [] then (s, None)
      else case storage_file_size (sg_rtc_path g) s of
             (s1, None) \<Rightarrow> (s1, None)
           | (s1, Some n) \<Rightarrow>
               if n = sg_merged_size g - sg_ram_size g then fs_open (sg_rtc_path g) s1 else (s1, None))"

definition merge_save :: "save_stage \<Rightarrow> string \<Rightarrow> fs \<Rightarrow> fs \<times> bool" where
  "merge_save g temporary s =
     (case fs_open (sg_working_path g) s of (s1, working) \<Rightarrow>
     (case fs_open (sg_original_path g) s1 of (s2, original) \<Rightarrow>
     (case fs_create temporary s2 of (s3, output) \<Rightarrow>
     (case open_trailer g s3 of (s4, trailer) \<Rightarrow>
        (case (case (working, original) of
                 (Some w, Some orig) \<Rightarrow>
                   if output then merge_streams g temporary w orig trailer s4 else (s4, False)
               | _ \<Rightarrow> (s4, False))
         of
           (s5, False) \<Rightarrow> (fst (fs_remove temporary s5), False)
         | (s5, True) \<Rightarrow>
             (case (case close_streams temporary (trailer \<noteq> None) s5 of
                      (s6, False) \<Rightarrow> (s6, False)
                    | (s6, True) \<Rightarrow> fs_rename temporary (sg_original_path g) s6)
              of
                (s7, False) \<Rightarrow> (fst (fs_remove temporary s7), False)
              | (s7, True) \<Rightarrow> (s7, True)))))))"

definition save_stage_finalize :: "save_stage \<Rightarrow> fs \<Rightarrow> fs \<times> save_stage \<times> bool" where
  "save_stage_finalize g s =
     (if \<not> sg_active g then (s, g, True)
      else case format_path (STORAGE_PATH_CAPACITY + 24) (sg_original_path g @ ''.merge.part'') of
             (_, False) \<Rightarrow> (s, g, False)
           | (temporary, True) \<Rightarrow>
               (case storage_file_size (sg_working_path g) s of
                  (s1, None) \<Rightarrow> (s1, g, False)
                | (s1, Some working_size) \<Rightarrow>
                    (case storage_file_size (sg_original_path g) s1 of
                       (s2, None) \<Rightarrow> (s2, g, False)
                     | (s2, Some original_size) \<Rightarrow>
                         if working_size < sg_ram_size g \<or> original_size \<noteq> sg_original_size g
                         then (s2, g, False)
                         else (case merge_save g temporary s2 of
                                 (s3, False) \<Rightarrow> (s3, g, False)
                               | (s3, True) \<Rightarrow>
                                   (case stage_discard g s3 of (s4, g1) \<Rightarrow> (s4, g1, True))))))"

section \<open>Copies\<close>

text \<open>One turn of the loop, for proofs: what a chunk does to the store.\<close>

lemma storage_copy_cases:
  assumes "storage_copy rest out n s = (s', r, ok)" "n \<noteq> 0"
  obtains s1 got e s2 w where "fs_read (min n COPY_CHUNK) rest s = (s1, got, e)"
      "length got \<noteq> min n COPY_CHUNK" "s' = s1" "\<not> ok"
  | s1 got e where "fs_read (min n COPY_CHUNK) rest s = (s1, got, e)"
      "length got = min n COPY_CHUNK" "fs_write out got s1 = (s', False)" "\<not> ok"
  | s1 got e s2 where "fs_read (min n COPY_CHUNK) rest s = (s1, got, e)"
      "length got = min n COPY_CHUNK" "fs_write out got s1 = (s2, True)"
      "storage_copy (drop (min n COPY_CHUNK) rest) out (n - min n COPY_CHUNK) s2 = (s', r, ok)"
  using assms by (subst (asm) storage_copy.simps) (auto simp: Let_def split: if_splits bool.splits prod.splits)

lemma chunk_decreases: "n \<noteq> 0 \<Longrightarrow> n - min n COPY_CHUNK < n"
  by (simp add: COPY_CHUNK_def)

lemma storage_copy_step: "storage_copy rest out n s = (s', r, ok) \<Longrightarrow> fs_step {out} s s'"
proof (induction n arbitrary: rest s rule: less_induct)
  case (less n)
  show ?case
  proof (cases "n = 0")
    case True
    then show ?thesis using less.prems by (simp add: storage_copy.simps)
  next
    case False
    show ?thesis using less.prems False
    proof (cases rule: storage_copy_cases)
      case (3 s1 got e s2)
      show ?thesis
        using fs_read_step [OF 3(1)] fs_write_step [OF 3(3)] less.IH [OF chunk_decreases [OF False] 3(4)]
        by (meson fs_step_trans)
    qed (auto dest!: fs_read_step [where P = "{out}"] fs_write_step intro: fs_step_trans)
  qed
qed

text \<open>A copy that succeeds has appended exactly the octets asked for.\<close>

lemma storage_copy_ok:
  "storage_copy rest out n s = (s', r, True) \<Longrightarrow>
     n \<le> length rest \<and> content out s' = content out s @ take n rest \<and> (n \<noteq> 0 \<longrightarrow> files s' out \<noteq> None)"
proof (induction n arbitrary: rest s rule: less_induct)
  case (less n)
  show ?case
  proof (cases "n = 0")
    case True
    then show ?thesis using less.prems by (simp add: storage_copy.simps)
  next
    case False
    let ?c = "min n COPY_CHUNK"
    obtain s1 got e s2 where turn: "fs_read ?c rest s = (s1, got, e)" "length got = ?c"
        "fs_write out got s1 = (s2, True)" "storage_copy (drop ?c rest) out (n - ?c) s2 = (s', r, True)"
      using less.prems False by (cases rule: storage_copy_cases) auto
    have got: "got = take ?c rest" "?c \<le> length rest"
      using fs_read_full [OF turn(1,2)] by auto
    have f1: "files s1 = files s" using fs_step_file [OF fs_read_step [OF turn(1), of "{}"]] by auto
    have f2: "files s2 out = Some (content out s @ take ?c rest)"
      using fs_write_ok [OF turn(3)] f1 got(1) by (simp add: content_def)
    note ih = less.IH [OF chunk_decreases [OF False] turn(4)]
    have "take ?c rest @ take (n - ?c) (drop ?c rest) = take n rest"
      using take_add [of ?c "n - ?c" rest] by simp
    moreover have "files s' out \<noteq> None"
      using ih f2 turn(4) by (cases "n - ?c = 0") (auto simp: storage_copy.simps)
    moreover have "content out s2 = content out s @ take ?c rest" using f2 by (simp add: content_def)
    ultimately show ?thesis using ih got(2) by auto
  qed
qed

lemma storage_copy_into:
  assumes "storage_copy rest out n s = (s', r, True)" "files s out = Some d"
  shows "n \<le> length rest" "files s' out = Some (d @ take n rest)"
  using storage_copy_ok [OF assms(1)] assms storage_copy.simps [of rest out n s]
  by (cases "n = 0"; auto simp: content_def split: option.splits)+

section \<open>The merge\<close>

lemma format_path_fits: "format_path n p = (t, True) \<Longrightarrow> t = p \<and> length p < n"
  by (auto simp: format_path_def copy_text_def)

lemma storage_file_size_step: "storage_file_size p s = (s', r) \<Longrightarrow> fs_step P s s'"
  by (auto simp: storage_file_size_def dest: fs_open_step split: prod.splits option.splits)

lemma storage_file_size_Some: "storage_file_size p s = (s', Some n) \<Longrightarrow> files s p \<noteq> None \<and> length (content p s) = n"
  by (auto simp: storage_file_size_def content_def dest: fs_open_Some split: prod.splits option.splits if_splits)

lemma storage_file_size_files: "storage_file_size p s = (s', r) \<Longrightarrow> files s' = files s"
  using fs_step_file [OF storage_file_size_step [where P = "{}"]] by fastforce

lemma merge_streams_step: "merge_streams g temporary w orig trailer s = (s', ok) \<Longrightarrow> fs_step {temporary} s s'"
  by (auto simp: merge_streams_def dest!: storage_copy_step fs_call_step [where P = "{temporary}"]
      split: prod.splits bool.splits if_splits intro: fs_step_trans)

lemma merge_streams_ok:
  assumes "merge_streams g temporary w orig trailer s = (s', True)" "files s temporary = Some []"
  defines "tail \<equiv> case trailer of None \<Rightarrow> drop (sg_ram_size g) orig | Some t \<Rightarrow> t"
  shows "sg_ram_size g \<le> length w" "sg_merged_size g - sg_ram_size g \<le> length tail"
    "files s' temporary = Some (take (sg_ram_size g) w @ take (sg_merged_size g - sg_ram_size g) tail)"
proof -
  obtain s1 r1 s2 r2 where steps: "storage_copy w temporary (sg_ram_size g) s = (s1, r1, True)"
      "files s2 = files s1"
      "storage_copy tail temporary (sg_merged_size g - sg_ram_size g) s2 = (s', r2, True)"
    using assms(1) unfolding tail_def
    by (auto simp: merge_streams_def dest: fs_call_effect split: prod.splits bool.splits if_splits)
  note first = storage_copy_into [OF steps(1) assms(2)]
  then have "files s2 temporary = Some (take (sg_ram_size g) w)" using steps(2) by simp
  note second = storage_copy_into [OF steps(3) this]
  show "sg_ram_size g \<le> length w" "sg_merged_size g - sg_ram_size g \<le> length tail"
    "files s' temporary = Some (take (sg_ram_size g) w @ take (sg_merged_size g - sg_ram_size g) tail)"
    using first second by auto
qed

lemma close_streams_step: "close_streams temporary b s = (s', ok) \<Longrightarrow> fs_step {temporary} s s'"
  by (auto simp: close_streams_def dest!: fs_flush_step fs_call_step [where P = "{temporary}"]
      split: prod.splits if_splits intro: fs_step_trans)

lemma close_streams_ok: "close_streams temporary b s = (s', True) \<Longrightarrow> files s' = files s"
  by (auto simp: close_streams_def dest!: fs_flush_ok fs_call_effect split: prod.splits if_splits)

lemma open_trailer_step: "open_trailer g s = (s', r) \<Longrightarrow> fs_step P s s'"
  by (auto simp: open_trailer_def
      dest!: storage_file_size_step [where P = P] fs_open_step [where P = P]
      split: prod.splits option.splits if_splits intro: fs_step_trans)

lemma open_trailer_Some: "open_trailer g s = (s', Some d) \<Longrightarrow> files s (sg_rtc_path g) = Some d"
  by (auto simp: open_trailer_def dest!: fs_open_Some storage_file_size_files
      split: prod.splits option.splits if_splits)

text \<open>The stages \<open>save_stage_prepare\<close> makes active.\<close>

definition save_stage_ok :: "save_stage \<Rightarrow> bool" where
  "save_stage_ok g \<longleftrightarrow>
     (sg_active g \<longrightarrow>
       sg_original_path g \<noteq> [] \<and> sg_working_path g = sg_original_path g @ ''.mupen'' \<and>
       length (sg_working_path g) < STORAGE_PATH_CAPACITY \<and>
       (sg_rtc_path g = [] \<or> sg_rtc_path g = sg_working_path g @ ''.rtc'') \<and>
       sg_ram_size g < sg_merged_size g \<and>
       (sg_merged_size g = sg_original_size g \<or>
        sg_original_size g = sg_ram_size g \<and> sg_merged_size g = sg_ram_size g + RTC_TRAILER_SIZE))"

text \<open>What the merge of a stage can write: the working RAM and one of the two trailers, whole.\<close>

definition merge_result :: "save_stage \<Rightarrow> fs \<Rightarrow> bytes \<Rightarrow> bool" where
  "merge_result g s d \<longleftrightarrow>
     (\<exists>tail. tail \<in> {content (sg_rtc_path g) s, drop (sg_ram_size g) (content (sg_original_path g) s)} \<and>
        sg_ram_size g \<le> length (content (sg_working_path g) s) \<and>
        sg_merged_size g - sg_ram_size g \<le> length tail \<and>
        d = take (sg_ram_size g) (content (sg_working_path g) s) @
            take (sg_merged_size g - sg_ram_size g) tail)"

lemma merge_result_length:
  "merge_result g s d \<Longrightarrow> sg_ram_size g \<le> sg_merged_size g \<Longrightarrow> length d = sg_merged_size g"
  by (auto simp: merge_result_def)

lemma merge_result_files: "merge_result g s d \<Longrightarrow> files s = files t \<Longrightarrow> merge_result g t d"
  by (simp add: merge_result_def content_def)

lemma merge_save_cases:
  assumes "merge_save g temporary s = (s', ok)"
  obtains (merged) s3 s4 s5 s6 w orig trailer where "fs_step {} s s3"
      "fs_create temporary s3 = (s4, True)"
      "files s (sg_working_path g) = Some w" "files s (sg_original_path g) = Some orig"
      "\<exists>s4'. open_trailer g s4 = (s4', trailer) \<and> merge_streams g temporary w orig trailer s4' = (s5, True)"
      "close_streams temporary (trailer \<noteq> None) s5 = (s6, True)"
      "(fs_rename temporary (sg_original_path g) s6 = (s', True) \<and> ok) \<or>
       (\<exists>s7. fs_rename temporary (sg_original_path g) s6 = (s7, False) \<and> \<not> ok \<and>
          s' = fst (fs_remove temporary s7))"
  | (failed) "fs_step {temporary} s s'" "\<not> ok"
proof -
  let ?P = "{temporary}"
  obtain s1 working where o1: "fs_open (sg_working_path g) s = (s1, working)" by fastforce
  obtain s2 original where o2: "fs_open (sg_original_path g) s1 = (s2, original)" by fastforce
  obtain s3 out where o3: "fs_create temporary s2 = (s3, out)" by fastforce
  obtain s4 trailer where o4: "open_trailer g s3 = (s4, trailer)" by fastforce
  have steps: "fs_step {} s s2" "fs_step ?P s s4" "files s1 = files s"
    using fs_open_step [OF o1] fs_open_step [OF o2] fs_create_step [OF o3] open_trailer_step [OF o4]
      fs_step_file [OF fs_open_step [OF o1, of "{}"]]
    by (meson fs_step_trans fs_step_mono empty_subsetI | force)+
  show ?thesis
  proof (cases "\<exists>w orig s5 s6. working = Some w \<and> original = Some orig \<and> out \<and>
      merge_streams g temporary w orig trailer s4 = (s5, True) \<and>
      close_streams temporary (trailer \<noteq> None) s5 = (s6, True)")
    case True
    then obtain w orig s5 s6 where t: "working = Some w" "original = Some orig" "out"
        "merge_streams g temporary w orig trailer s4 = (s5, True)"
        "close_streams temporary (trailer \<noteq> None) s5 = (s6, True)" by blast
    show ?thesis
      using assms o1 o2 o3 o4 t steps
      by (intro merged [of s2 s3 w orig trailer s5 s6])
        (auto simp: merge_save_def dest!: fs_open_Some split: prod.splits bool.splits)
  next
    case False
    have rem: "fs_step ?P t (fst (fs_remove temporary t))" for t
      using fs_remove_step [of temporary t] by (cases "fs_remove temporary t") auto
    obtain s5 b where body: "(case working of None \<Rightarrow> (s4, False) | Some w \<Rightarrow>
        case original of None \<Rightarrow> (s4, False) | Some orig \<Rightarrow>
          if out then merge_streams g temporary w orig trailer s4 else (s4, False)) = (s5, b)" by fastforce
    have s5: "fs_step ?P s4 s5"
      using body merge_streams_step [of g temporary _ _ trailer s4 s5 b]
      by (auto split: option.splits if_splits)
    obtain s6 e where close: "close_streams temporary (trailer \<noteq> None) s5 = (s6, e)" by fastforce
    have s6: "fs_step ?P s5 s6" using close_streams_step [OF close] .
    have no: "\<not> b \<or> \<not> e"
      using False body close by (auto split: option.splits if_splits)
    have "(s', ok) = (if \<not> b then (fst (fs_remove temporary s5), False) else (fst (fs_remove temporary s6), False))"
      using assms o1 o2 o3 o4 no close
      by (auto simp: merge_save_def body)
    then show ?thesis
      using steps(2) s5 s6 rem by (intro failed) (auto split: if_splits intro: fs_step_trans)
  qed
qed

lemma save_stage_ok_paths:
  assumes "save_stage_ok g" "sg_active g" "temporary = sg_original_path g @ ''.merge.part''"
  shows "temporary \<noteq> sg_original_path g" "sg_working_path g \<noteq> temporary" "sg_rtc_path g \<noteq> temporary"
    "sg_working_path g \<noteq> sg_original_path g" "sg_rtc_path g \<noteq> sg_original_path g"
  using assms by (auto simp: save_stage_ok_def)

lemma merge_save_result:
  assumes "merge_save g temporary s = (s', ok)" "save_stage_ok g" "sg_active g"
    "temporary = sg_original_path g @ ''.merge.part''"
  defines "opath \<equiv> sg_original_path g"
  shows "fs_step {temporary, opath} s s'"
    and "files s' opath = files s opath \<or> (\<exists>d. merge_result g s d \<and> files s' opath = Some d)" (is ?new)
    and "ok \<Longrightarrow> \<exists>d. merge_result g s d \<and> files s' opath = Some d"
    and "\<not> ok \<Longrightarrow> \<not> crashed s' \<Longrightarrow> files s' opath = files s opath"
proof -
  note apart = save_stage_ok_paths [OF assms(2,3,4)]
  have all: "fs_step {temporary, opath} s s' \<and> ?new \<and> (ok \<longrightarrow> (\<exists>d. merge_result g s d \<and> files s' opath = Some d)) \<and>
        (\<not> ok \<longrightarrow> \<not> crashed s' \<longrightarrow> files s' opath = files s opath)"
    using assms(1)
  proof (cases rule: merge_save_cases)
    case (merged s3 s4 s5 s6 w orig trailer)
    then obtain s4' where s4': "open_trailer g s4 = (s4', trailer)"
        "merge_streams g temporary w orig trailer s4' = (s5, True)" by blast
    let ?P = "{temporary}"
    have steps: "fs_step ?P s s5" "files s6 = files s5"
      using fs_step_mono [OF merged(1), of ?P] fs_create_step [OF merged(2)] open_trailer_step [OF s4'(1), of ?P]
        merge_streams_step [OF s4'(2)] close_streams_ok [OF merged(6)]
      by (auto intro: fs_step_trans)
    have "files s4' temporary = Some []"
      using fs_create_ok [OF merged(2)] fs_step_file [OF open_trailer_step [OF s4'(1), of "{}"]] by simp
    note data = merge_streams_ok [OF s4'(2) this]
    have "trailer \<noteq> None \<Longrightarrow> files s (sg_rtc_path g) = trailer"
      using open_trailer_Some [of g s4 s4'] s4'(1) fs_step_file [OF fs_create_step [OF merged(2)]]
        fs_step_file [OF merged(1)] apart(3) by auto
    then have "\<exists>d. merge_result g s d \<and> files s5 temporary = Some d"
      using data merged(3,4) by (cases trailer) (auto simp: merge_result_def content_def)
    then obtain d where d: "merge_result g s d" "files s6 temporary = Some d" using steps(2) by auto
    have s6: "files s6 opath = files s opath" using fs_step_file [OF steps(1)] steps(2) apart(1) by (auto simp: opath_def)
    have s6s: "fs_step {temporary, opath} s s6"
      using fs_step_mono [OF steps(1)] fs_step_mono [OF close_streams_step [OF merged(6)]]
      by (meson fs_step_trans insert_subset subset_insertI empty_subsetI insertI1)
    obtain s7 b where m: "fs_rename temporary opath s6 = (s7, b)" by fastforce
    obtain s8 r where rm: "fs_remove temporary s7 = (s8, r)" by fastforce
    have last: "(b \<and> ok \<and> s' = s7) \<or> (\<not> b \<and> \<not> ok \<and> s' = s8)"
      using merged(7) m rm by (auto simp: opath_def)
    have s8: "files s8 opath = files s7 opath" using fs_step_file [OF fs_remove_step [OF rm]] apart(1) by (auto simp: opath_def)
    have ne: "temporary \<noteq> opath" using apart(1) by (simp add: opath_def)
    have "fs_step {temporary, opath} s s'"
      using s6s fs_rename_step [OF m] fs_step_mono [OF fs_remove_step [OF rm], of "{temporary, opath}"] last
      by (auto intro: fs_step_trans)
    then show ?thesis
      using last s8 s6 d fs_rename_target [OF m ne] fs_rename_ok [of temporary opath s6 s7] ne m
        fs_rename_failed [of temporary opath s6 s7] fs_step_alive [OF fs_remove_step [OF rm]] by auto
  next
    case failed
    have "files s' opath = files s opath" using fs_step_file [OF failed(1)] apart(1) by (auto simp: opath_def)
    then show ?thesis
      using failed fs_step_mono [OF failed(1), of "{temporary, opath}"] by auto
  qed
  show "fs_step {temporary, opath} s s'" and ?new and "ok \<Longrightarrow> \<exists>d. merge_result g s d \<and> files s' opath = Some d"
    and "\<not> ok \<Longrightarrow> \<not> crashed s' \<Longrightarrow> files s' opath = files s opath"
    using all by simp_all
qed

lemma stage_discard_step: "stage_discard g s = (s', g') \<Longrightarrow> fs_step {sg_working_path g, sg_rtc_path g} s s'"
proof -
  assume a: "stage_discard g s = (s', g')"
  let ?P = "{sg_working_path g, sg_rtc_path g}"
  have r: "fs_step ?P t (fst (fs_remove p t))" if "p \<in> ?P" for p t
    using fs_step_mono [OF fs_remove_step, of p t] that by (cases "fs_remove p t") auto
  show ?thesis
    using a r [of "sg_working_path g" s] r [of "sg_rtc_path g" s]
      fs_step_trans [OF r [of "sg_working_path g" s] r [of "sg_rtc_path g"]]
    by (simp add: stage_discard_def Let_def split: if_splits)
qed

definition save_replaced :: "save_stage \<Rightarrow> fs \<Rightarrow> fs \<Rightarrow> bool" where
  "save_replaced g s s' \<longleftrightarrow>
     (\<exists>d. merge_result g s d \<and> length d = sg_merged_size g \<and> files s' (sg_original_path g) = Some d)"

text \<open>
  C4: finalising a stage replaces the save as a whole by the working RAM and a whole trailer, of
  the size the save must have, or leaves it, whatever call fails and wherever the process dies;
  success means the new save and a cleared stage, failure of a process that lives the old save and
  the stage kept for another attempt, and nothing but the stage's own files changes.
\<close>

theorem finalize_atomic:
  assumes "save_stage_ok g" "sg_active g" "save_stage_finalize g s = (s', g', ok)"
  shows "(files s' (sg_original_path g) = files s (sg_original_path g) \<or> save_replaced g s s') \<and>
    (if ok then g' = empty_stage \<and> save_replaced g s s'
     else g' = g \<and> (if crashed s' then True
                       else files s' (sg_original_path g) = files s (sg_original_path g))) \<and>
    (files s' q = files s q \<or> q \<in> {sg_original_path g, sg_original_path g @ ''.merge.part'',
       sg_working_path g, sg_rtc_path g})"
proof -
  let ?o = "sg_original_path g" let ?t = "?o @ ''.merge.part''"
  have sz: "sg_ram_size g \<le> sg_merged_size g" using assms(1,2) by (auto simp: save_stage_ok_def)
  have fits: "format_path (STORAGE_PATH_CAPACITY + 24) ?t = (?t, True)"
    using assms(1,2) by (auto simp: save_stage_ok_def format_path_def)
  obtain s1 a where a: "storage_file_size (sg_working_path g) s = (s1, a)" by fastforce
  obtain s2 b where b: "storage_file_size ?o s1 = (s2, b)" by fastforce
  have f: "files s2 = files s" using storage_file_size_files a b by metis
  obtain s3 m where m: "merge_save g ?t s2 = (s3, m)" by fastforce
  obtain s4 g4 where d: "stage_discard g s3 = (s4, g4)" by fastforce
  note res = merge_save_result [OF m assms(1,2) refl]
  have s4: "files s4 ?o = files s3 ?o"
    using fs_step_file [OF stage_discard_step [OF d]] save_stage_ok_paths [OF assms(1,2) refl] by auto
  have new: "save_replaced g s t" if "\<exists>d. merge_result g s2 d \<and> files t ?o = Some d" for t
    using that merge_result_files [OF _ f] merge_result_length [OF _ sz] unfolding save_replaced_def by blast
  have run: "(s', g', ok) = (s4, g4, True) \<and> m \<or> (s', g', ok) = (s3, g, False) \<and> \<not> m \<or>
      files s' = files s \<and> g' = g \<and> \<not> ok"
    using assms(2,3) a b f m d storage_file_size_files [OF a]
    by (auto simp: save_stage_finalize_def fits split: option.splits if_splits bool.splits)
  have g4: "g4 = empty_stage" using d by (simp add: stage_discard_def Let_def)
  have "files s' ?o = files s ?o \<or> save_replaced g s s'"
    using run res(2) new [of s4] new [of s3] s4 f by auto
  moreover have "if ok then g' = empty_stage \<and> save_replaced g s s'
     else g' = g \<and> (if crashed s' then True else files s' ?o = files s ?o)"
    using run res(3,4) new [of s4] s4 g4 f by auto
  moreover have "files s' q = files s q \<or> q \<in> {?o, ?t, sg_working_path g, sg_rtc_path g}"
    using run fs_step_file [OF res(1), of q] fs_step_file [OF stage_discard_step [OF d], of q] f
    by (cases "q \<in> {?o, ?t, sg_working_path g, sg_rtc_path g}") auto
  ultimately show ?thesis by simp
qed

section \<open>Preparation\<close>

text \<open>Every file is written beside its name and then renamed: only the two paths change.\<close>

lemma fs_remove_fst_step: "fs_step {p} s (fst (fs_remove p s))"
  using fs_remove_step [of p s] by (cases "fs_remove p s") auto

lemma fs_flush_steps: "fs_flush p s = (s', ok) \<Longrightarrow> p \<in> P \<Longrightarrow> fs_step P s s'"
  using fs_step_mono [OF fs_flush_step] by auto

lemma storage_copy_steps: "storage_copy rest p n s = (s', r, ok) \<Longrightarrow> p \<in> P \<Longrightarrow> fs_step P s s'"
  using fs_step_mono [OF storage_copy_step] by auto

lemma copy_range_opened_step:
  "copy_range_opened input output off temporary target n s = (s', ok) \<Longrightarrow> fs_step {target, temporary} s s'"
  unfolding copy_range_opened_def
  by (auto simp: insert_commute dest!: fs_call_step [where P = "{target, temporary}"]
      storage_copy_steps [where P = "{target, temporary}"] fs_flush_steps [where P = "{target, temporary}"] fs_rename_step
      split: option.splits prod.splits bool.splits if_splits; meson fs_step_trans)

lemma copy_range_opened_ok:
  assumes "copy_range_opened input output off temporary target n s = (s', True)"
    "files s temporary = Some []" "temporary \<noteq> target"
  shows "\<exists>d. input = Some d \<and> n \<le> length (drop off d) \<and> files s' target = Some (take n (drop off d))"
proof -
  have "\<exists>d s3 s4 r s6. input = Some d \<and> files s3 = files s \<and>
      storage_copy (drop off d) temporary n s3 = (s4, r, True) \<and> files s6 = files s4 \<and>
      fs_rename temporary target s6 = (s', True)"
    using assms(1) unfolding copy_range_opened_def
    by (auto dest!: fs_call_effect fs_flush_ok split: option.splits prod.splits bool.splits if_splits; metis)
  then obtain d s3 s4 r s6 where run: "input = Some d" "files s3 = files s"
      "storage_copy (drop off d) temporary n s3 = (s4, r, True)" "files s6 = files s4"
      "fs_rename temporary target s6 = (s', True)"
    by blast
  have "files s3 temporary = Some []" using run(2) assms(2) by simp
  note copied = storage_copy_into [OF run(3) this]
  then show ?thesis using run fs_rename_ok [OF run(5) assms(3)] by auto
qed

lemma copy_range_atomic_effect:
  assumes "copy_range_atomic source off target n s = (s', ok)"
  shows "fs_step {target, target @ ''.part''} s s' \<and>
    (ok \<longrightarrow> (\<exists>d. files s source = Some d \<and> n \<le> length (drop off d) \<and> files s' target = Some (take n (drop off d))))"
proof (cases "length (target @ ''.part'') < STORAGE_PATH_CAPACITY + 16")
  case False
  then show ?thesis using assms by (simp add: copy_range_atomic_def format_path_def split: bool.splits)
next
  case True
  let ?t = "target @ ''.part''" let ?P = "{target, ?t}"
  obtain s1 input where o1: "fs_open source s = (s1, input)" by fastforce
  obtain s2 out where o2: "fs_create ?t s1 = (s2, out)" by fastforce
  obtain s3 b where o3: "copy_range_opened input out off ?t target n s2 = (s3, b)" by fastforce
  have run: "(s', ok) = (if b then (s3, True) else (fst (fs_remove ?t s3), False))"
    using assms True o1 o2 o3 by (auto simp: copy_range_atomic_def format_path_def split: bool.splits)
  have steps: "fs_step ?P s s3"
    using fs_open_step [OF o1, of ?P] fs_step_mono [OF fs_create_step [OF o2], of ?P] copy_range_opened_step [OF o3]
    by (auto intro: fs_step_trans)
  have rem: "fs_step ?P s3 (fst (fs_remove ?t s3))" using fs_step_mono [OF fs_remove_fst_step] by blast
  have "\<exists>d. files s source = Some d \<and> n \<le> length (drop off d) \<and> files s3 target = Some (take n (drop off d))" if b
    using copy_range_opened_ok [of input out off ?t target n s2 s3] o3 that fs_create_ok [of ?t s1 s2] o2 o1
    by (cases out) (auto simp: copy_range_opened_def dest!: fs_open_Some split: option.splits)
  then show ?thesis using run steps fs_step_trans [OF steps rem] by (auto split: if_splits)
qed

lemma write_synthetic_effect:
  assumes "write_synthetic_mbc3_rtc c target s = (s', ok)"
  shows "fs_step {target, target @ ''.part''} s s' \<and>
    (ok \<longrightarrow> (\<exists>t. make_synthetic_mbc3_rtc c = Some t \<and> files s' target = Some t))"
proof (cases "make_synthetic_mbc3_rtc c = None \<or> \<not> length (target @ ''.part'') < STORAGE_PATH_CAPACITY + 16")
  case True
  then show ?thesis
    using assms by (auto simp: write_synthetic_mbc3_rtc_def format_path_def split: bool.splits option.splits)
next
  case False
  then obtain d where d: "make_synthetic_mbc3_rtc c = Some d" by auto
  let ?t = "target @ ''.part''" let ?P = "{target, ?t}"
  obtain s3 b where body: "(case fs_create ?t s of (s1, False) \<Rightarrow> (s1, False) | (s1, True) \<Rightarrow>
      (case fs_write ?t d s1 of (s2, False) \<Rightarrow> (s2, False) | (s2, True) \<Rightarrow> fs_flush ?t s2)) = (s3, b)"
    by fastforce
  obtain s4 m where m: "fs_rename ?t target s3 = (s4, m)" by fastforce
  have run: "(s', ok) = (if b then if m then (s4, True) else (fst (fs_remove ?t s4), False)
      else (fst (fs_remove ?t s3), False))"
    using assms False d body m
    by (auto simp: write_synthetic_mbc3_rtc_def format_path_def split: bool.splits)
  have s3: "fs_step ?P s s3"
    using body by (auto dest!: fs_step_mono [OF fs_create_step, of _ _ _ _ ?P] fs_step_mono [OF fs_write_step, of _ _ _ _ _ ?P]
        fs_flush_steps [where P = ?P] split: prod.splits bool.splits intro: fs_step_trans)
  have s4: "fs_step ?P s3 s4" using fs_rename_step [OF m] by (simp add: insert_commute)
  have rem: "fs_step ?P t (fst (fs_remove ?t t))" for t using fs_step_mono [OF fs_remove_fst_step] by blast
  have "files s3 ?t = Some d" if b
    using body that by (auto simp: content_def dest!: fs_create_ok fs_write_ok fs_flush_ok split: prod.splits bool.splits)
  then show ?thesis
    using run d s3 fs_step_trans [OF s3 s4] fs_step_trans [OF s3 rem] fs_step_trans [OF fs_step_trans [OF s3 s4] rem]
      fs_rename_ok [of ?t target s3 s4] m by (auto split: if_splits)
qed

lemma repair_effect:
  assumes "repair_mbc3_rtc_if_needed c p s = (s', ok)" "files s p = Some d" "length d = RTC_TRAILER_SIZE"
  shows "fs_step {p, p @ ''.part''} s s' \<and>
    (ok \<longrightarrow> files s' p = Some d \<or> (\<exists>t. make_synthetic_mbc3_rtc c = Some t \<and> files s' p = Some t))"
proof -
  let ?P = "{p, p @ ''.part''}"
  obtain s4 b where body: "(case fs_open p s of (s1, None) \<Rightarrow> (s1, False) | (s1, Some d) \<Rightarrow>
      (case fs_read RTC_TRAILER_SIZE d s1 of (s2, got, _) \<Rightarrow>
         if length got \<noteq> RTC_TRAILER_SIZE then (s2, False)
         else case fs_call s2 of (s3, closed) \<Rightarrow> (s3, closed \<and> rtc_trailer_valid c got))) = (s4, b)"
    by fastforce
  have s4: "fs_step {} s s4"
    using body by (auto dest!: fs_open_step [where P = "{}"] fs_read_step [where P = "{}"] fs_call_step [where P = "{}"]
        split: prod.splits option.splits if_splits; meson fs_step_trans)
  show ?thesis
  proof (cases b)
    case True
    then show ?thesis
      using assms s4 body fs_step_mono [OF s4, of ?P] fs_step_file [OF s4, of p]
      by (auto simp: repair_mbc3_rtc_if_needed_def)
  next
    case False
    have "write_synthetic_mbc3_rtc c p s4 = (s', ok)"
      using assms(1) body False by (simp add: repair_mbc3_rtc_if_needed_def)
    from write_synthetic_effect [OF this] show ?thesis
      using fs_step_mono [OF s4, of ?P] by (auto intro: fs_step_trans)
  qed
qed

abbreviation longer :: "string \<Rightarrow> string set" where
  "longer p \<equiv> {q. length p < length q}"

lemma stage_working_effect:
  assumes "stage_working save g ram s = (s', g', ok)" "length save + 6 < STORAGE_PATH_CAPACITY"
  shows "g' = g\<lparr>sg_working_path := save @ ''.mupen''\<rparr> \<and> fs_step (longer save) s s' \<and>
    (ok \<longrightarrow> files s' (save @ ''.mupen'') = Some (take ram (content save s)))"
proof -
  let ?w = "save @ ''.mupen''"
  have fits: "format_path STORAGE_PATH_CAPACITY ?w = (?w, True)" using assms(2) by (simp add: format_path_def)
  obtain b where c: "copy_range_atomic save 0 ?w ram s = (s', b)" "b = ok" "g' = g\<lparr>sg_working_path := ?w\<rparr>"
    using assms(1) by (auto simp: stage_working_def fits split: prod.splits)
  note e = copy_range_atomic_effect [OF c(1)]
  then have "fs_step (longer save) s s'" by (auto elim: fs_step_mono)
  then show ?thesis using e c(2,3) by (auto simp: content_def)
qed

lemma stage_rtc_path_effect:
  assumes "stage_rtc_path g = (g', ok)" "length save + 6 < STORAGE_PATH_CAPACITY" "sg_working_path g = save @ ''.mupen''"
  shows "\<exists>r. g' = g\<lparr>sg_rtc_path := r\<rparr> \<and> length save < length r \<and> (ok \<longrightarrow> r = sg_working_path g @ ''.rtc'')"
proof (intro exI conjI)
  let ?r = "copy_text STORAGE_PATH_CAPACITY (sg_working_path g @ ''.rtc'')"
  show "g' = g\<lparr>sg_rtc_path := ?r\<rparr>"
    using assms(1) by (auto simp: stage_rtc_path_def format_path_def)
  show "length save < length ?r" using assms(2,3) by (auto simp: copy_text_def)
  show "ok \<longrightarrow> ?r = sg_working_path g @ ''.rtc''"
    using assms(1) by (auto simp: stage_rtc_path_def format_path_def)
qed

lemma stage_discard_longer:
  assumes "sg_working_path g = [] \<or> length save < length (sg_working_path g)"
    "sg_rtc_path g = [] \<or> length save < length (sg_rtc_path g)"
  shows "fs_step (longer save) s (fst (stage_discard g s)) \<and> snd (stage_discard g s) = empty_stage"
proof -
  have r: "fs_step (longer save) t (fst (fs_remove p t))" if "length save < length p" for p t
    using fs_step_mono [OF fs_remove_fst_step] that by auto
  show ?thesis
    using assms r [of "sg_working_path g" s] r [of "sg_rtc_path g" s]
      fs_step_trans [OF r [of "sg_working_path g" s] r [of "sg_rtc_path g"]]
    by (auto simp: stage_discard_def Let_def)
qed

text \<open>What a preparation may return: the emulator's own copies, the save itself, or nothing.\<close>

definition prepared :: "clock \<Rightarrow> string \<Rightarrow> fs \<Rightarrow> fs \<times> save_stage \<times> string option \<Rightarrow> bool" where
  "prepared c save s res =
     (case res of (s', g, r) \<Rightarrow>
        fs_step (longer save) s s' \<and> save_stage_ok g \<and>
        (if sg_active g
         then r = Some (sg_working_path g) \<and> sg_original_path g = save \<and>
              sg_original_size g = length (content save s) \<and>
              files s' (sg_working_path g) = Some (take (sg_ram_size g) (content save s)) \<and>
              (sg_rtc_path g = [] \<or>
               (\<exists>t. files s' (sg_rtc_path g) = Some t \<and>
                  (t = drop (sg_ram_size g) (content save s) \<or> make_synthetic_mbc3_rtc c = Some t)))
         else r = None \<or> r = Some save))"

lemma prepared_fail:
  assumes "fs_step (longer save) s t" "sg_working_path g = [] \<or> length save < length (sg_working_path g)"
    "sg_rtc_path g = [] \<or> length save < length (sg_rtc_path g)"
  shows "prepared c save s (stage_fail g t)"
proof -
  obtain s' g' where d: "stage_discard g t = (s', g')" by fastforce
  then show ?thesis
    using stage_discard_longer [OF assms(2,3), of t] assms(1)
    by (auto simp: stage_fail_def prepared_def save_stage_ok_def empty_stage_def intro: fs_step_trans)
qed

lemma prepared_activate:
  assumes "fs_step (longer save) s t" "save_stage_ok (g\<lparr>sg_active := True\<rparr>)"
    "sg_original_path g = save" "sg_original_size g = length (content save s)"
    "files t (sg_working_path g) = Some (take (sg_ram_size g) (content save s))"
    "sg_rtc_path g = [] \<or> (\<exists>d. files t (sg_rtc_path g) = Some d \<and>
       (d = drop (sg_ram_size g) (content save s) \<or> make_synthetic_mbc3_rtc c = Some d))"
  shows "prepared c save s (stage_activate cap g t)"
proof (cases "copy_path cap (sg_working_path g)")
  case None
  then show ?thesis
    using prepared_fail [OF assms(1), of "g\<lparr>sg_active := True\<rparr>" c] assms(2,3)
    by (auto simp: stage_activate_def save_stage_ok_def)
next
  case (Some p)
  then have "p = sg_working_path g" by (simp add: copy_path_def split: if_splits)
  then show ?thesis using Some assms by (auto simp: stage_activate_def prepared_def)
qed

lemma prepared_stop: "fs_step (longer save) s t \<Longrightarrow> \<not> sg_active g \<Longrightarrow> prepared c save s (t, g, copy_path cap save)"
  by (auto simp: prepared_def save_stage_ok_def copy_path_def)

lemma prepared_none: "fs_step (longer save) s t \<Longrightarrow> \<not> sg_active g \<Longrightarrow> prepared c save s (t, g, None)"
  by (auto simp: prepared_def save_stage_ok_def)

lemma empty_stage_sel [simp]:
  "sg_active empty_stage = False" "sg_working_path empty_stage = []" "sg_rtc_path empty_stage = []"
  by (simp_all add: empty_stage_def)

lemma stage_synthesize_prepared:
  assumes "length save + 6 < STORAGE_PATH_CAPACITY" "save \<noteq> []" "fs_step (longer save) s0 s"
    "n = ram" "n = length (content save s0)"
  shows "prepared c save s0 (stage_synthesize c cap save ram n s)"
proof -
  have same: "content save s = content save s0" using fs_step_file [OF assms(3)] by (simp add: content_def)
  have cp: "copy_path STORAGE_PATH_CAPACITY save = Some save" using assms(1) by (simp add: copy_path_def)
  define g where "g = empty_stage\<lparr>sg_ram_size := ram, sg_original_size := n,
      sg_merged_size := n + RTC_TRAILER_SIZE\<rparr>\<lparr>sg_original_path := save\<rparr>"
  obtain s1 g1 b where w: "stage_working save g ram s = (s1, g1, b)" by (cases "stage_working save g ram s") auto
  obtain g2 f where r: "stage_rtc_path g1 = (g2, f)" by fastforce
  obtain s2 m where y: "write_synthetic_mbc3_rtc c (sg_rtc_path g2) s1 = (s2, m)" by fastforce
  note w' = stage_working_effect [OF w assms(1)]
  obtain p where r': "g2 = g1\<lparr>sg_rtc_path := p\<rparr>" "length save < length p" "f \<longrightarrow> p = save @ ''.mupen'' @ ''.rtc''"
    using stage_rtc_path_effect [OF r assms(1)] w' by auto
  have s1: "fs_step (longer save) s0 s1" using assms(3) w' by (auto intro: fs_step_trans)
  note y' = write_synthetic_effect [OF y]
  have "fs_step (longer save) s1 s2" using y' r'(1,2) by (auto elim: fs_step_mono)
  with s1 have s2: "fs_step (longer save) s0 s2" by (rule fs_step_trans)
  have run: "stage_synthesize c cap save ram n s =
      (if \<not> b then stage_fail g1 s1 else if \<not> f then stage_fail g2 s1
       else if \<not> m then stage_fail g2 s2 else stage_activate cap g2 s2)"
    using w r y by (simp add: stage_synthesize_def cp g_def)
  have "prepared c save s0 (stage_activate cap g2 s2)" if "b" "f" "m"
  proof (rule prepared_activate [OF s2])
    have p: "p = save @ ''.mupen'' @ ''.rtc''" using r'(3) that by simp
    have g2: "g2 = g\<lparr>sg_working_path := save @ ''.mupen'', sg_rtc_path := p\<rparr>" using r'(1) w' by simp
    show "save_stage_ok (g2\<lparr>sg_active := True\<rparr>)"
      using assms p by (simp add: g2 save_stage_ok_def g_def RTC_TRAILER_SIZE_def)
    show "sg_original_path g2 = save" "sg_original_size g2 = length (content save s0)"
      using assms by (simp_all add: g2 g_def)
    have "files s2 (save @ ''.mupen'') = files s1 (save @ ''.mupen'')"
      using y' r'(1) p by (intro fs_step_file [of "{p, p @ ''.part''}"]) (auto simp: r'(1))
    then show "files s2 (sg_working_path g2) = Some (take (sg_ram_size g2) (content save s0))"
      using w' that same by (simp add: g2 g_def)
    show "sg_rtc_path g2 = [] \<or> (\<exists>d. files s2 (sg_rtc_path g2) = Some d \<and>
       (d = drop (sg_ram_size g2) (content save s0) \<or> make_synthetic_mbc3_rtc c = Some d))"
      using y' that by auto
  qed
  moreover have "prepared c save s0 (stage_fail g1 s1)" "prepared c save s0 (stage_fail g2 t)"
    if "fs_step (longer save) s0 t" for t
    using that s1 r'(1,2) w' by (auto intro!: prepared_fail simp: g_def)
  ultimately show ?thesis using run s1 s2 by auto
qed

lemma rom_octet_step: "rom_octet rom off s = (s', r) \<Longrightarrow> fs_step P s s'"
  by (auto simp: rom_octet_def dest!: fs_open_step [where P = P] fs_call_step [where P = P] fs_read_step [where P = P]
      split: prod.splits option.splits bool.splits; meson fs_step_trans)

lemma gb_ram_size_step: "gb_ram_size rom s = (s', r) \<Longrightarrow> fs_step P s s'"
  by (auto simp: gb_ram_size_def dest: rom_octet_step split: prod.splits)

lemma gb_has_mbc3_rtc_step: "gb_has_mbc3_rtc rom s = (s', r) \<Longrightarrow> fs_step P s s'"
  by (auto simp: gb_has_mbc3_rtc_def dest: rom_octet_step split: prod.splits)

lemma stage_split_trailer:
  assumes "copy_range_atomic save ram p RTC_TRAILER_SIZE s1 = (s2, True)" "gb_has_mbc3_rtc rom s2 = (s3, h)"
    and "(if h then repair_mbc3_rtc_if_needed c p s3 else (s3, True)) = (s4, ok)"
    and "length (content save s1) - ram = RTC_TRAILER_SIZE"
  shows "fs_step {p, p @ ''.part''} s1 s4 \<and>
    (ok \<longrightarrow> (\<exists>t. files s4 p = Some t \<and> (t = drop ram (content save s1) \<or> make_synthetic_mbc3_rtc c = Some t)))"
proof -
  let ?P = "{p, p @ ''.part''}"
  note copied = copy_range_atomic_effect [OF assms(1)]
  have s3: "files s3 = files s2" using fs_step_file [OF gb_has_mbc3_rtc_step [OF assms(2), of "{}"]] by auto
  have p: "files s3 p = Some (drop ram (content save s1))"
    using copied assms(4) s3 by (auto simp: content_def RTC_TRAILER_SIZE_def)
  have s13: "fs_step ?P s1 s3"
    using copied gb_has_mbc3_rtc_step [OF assms(2), of ?P] by (auto intro: fs_step_trans)
  show ?thesis
  proof (cases h)
    case True
    then have "repair_mbc3_rtc_if_needed c p s3 = (s4, ok)" using assms(3) by simp
    from repair_effect [OF this p] assms(4) show ?thesis using s13 by (auto intro: fs_step_trans)
  next
    case False
    then show ?thesis using assms(3) p s13 by auto
  qed
qed

lemma stage_split_prepared:
  assumes "length save + 6 < STORAGE_PATH_CAPACITY" "save \<noteq> []" "fs_step (longer save) s0 s"
    "ram < n" "n = length (content save s0)"
  shows "prepared c save s0 (stage_split c cap rom save ram n s)"
proof -
  have same: "content save s = content save s0" using fs_step_file [OF assms(3)] by (simp add: content_def)
  have cp: "copy_path STORAGE_PATH_CAPACITY save = Some save" using assms(1) by (simp add: copy_path_def)
  define g where "g = empty_stage\<lparr>sg_ram_size := ram, sg_original_size := n,
      sg_merged_size := n\<rparr>\<lparr>sg_original_path := save\<rparr>"
  obtain s1 g1 b where w: "stage_working save g ram s = (s1, g1, b)" by (cases "stage_working save g ram s") auto
  obtain g2 f where r: "stage_rtc_path g1 = (g2, f)" by fastforce
  obtain s2 k where y: "copy_range_atomic save ram (sg_rtc_path g2) RTC_TRAILER_SIZE s1 = (s2, k)" by fastforce
  obtain s3 h where hr: "gb_has_mbc3_rtc rom s2 = (s3, h)" by fastforce
  obtain s4 m where z: "(if h then repair_mbc3_rtc_if_needed c (sg_rtc_path g2) s3 else (s3, True)) = (s4, m)"
    by fastforce
  note w' = stage_working_effect [OF w assms(1)]
  obtain p where r': "g2 = g1\<lparr>sg_rtc_path := p\<rparr>" "length save < length p" "f \<longrightarrow> p = save @ ''.mupen'' @ ''.rtc''"
    using stage_rtc_path_effect [OF r assms(1)] w' by auto
  have s1: "fs_step (longer save) s0 s1" using assms(3) w' by (auto intro: fs_step_trans)
  have same1: "content save s1 = content save s0" using fs_step_file [OF s1] by (simp add: content_def)
  have "fs_step (longer save) s1 s2" using copy_range_atomic_effect [OF y] r'(1,2) by (auto elim: fs_step_mono)
  with s1 have s2: "fs_step (longer save) s0 s2" by (rule fs_step_trans)
  have z': "fs_step {p, p @ ''.part''} s1 s4 \<and> (m \<longrightarrow> (\<exists>t. files s4 p = Some t \<and>
      (t = drop ram (content save s0) \<or> make_synthetic_mbc3_rtc c = Some t)))"
    if "k" "n - ram = RTC_TRAILER_SIZE"
  proof -
    have g2: "sg_rtc_path g2 = p" using r'(1) by simp
    show ?thesis
      using stage_split_trailer [OF _ hr z [unfolded g2], of save ram s1] y that same1 assms(5) by (simp add: g2)
  qed
  have s4: "fs_step (longer save) s0 s4" if "k" "n - ram = RTC_TRAILER_SIZE"
    using z' [OF that] s1 r'(2) fs_step_mono [of "{p, p @ ''.part''}" s1 s4 "longer save"] by (auto intro: fs_step_trans)
  have run: "stage_split c cap rom save ram n s =
      (if \<not> b then stage_fail g1 s1 else if n - ram \<noteq> RTC_TRAILER_SIZE then stage_activate cap g1 s1
       else if \<not> f then stage_fail g2 s1 else if \<not> k then stage_fail g2 s2
       else if \<not> m then stage_fail g2 s4 else stage_activate cap g2 s4)"
    using w r y hr z by (simp add: stage_split_def cp g_def split: bool.splits)
  have fail: "prepared c save s0 (stage_fail g1 t)" "prepared c save s0 (stage_fail g2 t)"
    if "fs_step (longer save) s0 t" for t
    using that r'(1,2) w' by (auto intro!: prepared_fail simp: g_def)
  have plain: "prepared c save s0 (stage_activate cap g1 s1)" if "b"
    using w' that same assms
    by (intro prepared_activate [OF s1]) (auto simp: save_stage_ok_def g_def)
  have "prepared c save s0 (stage_activate cap g2 s4)" if "b" "f" "k" "m" "n - ram = RTC_TRAILER_SIZE"
  proof (rule prepared_activate [OF s4 [OF that(3,5)]])
    have p: "p = save @ ''.mupen'' @ ''.rtc''" using r'(3) that by simp
    have g2: "g2 = g\<lparr>sg_working_path := save @ ''.mupen'', sg_rtc_path := p\<rparr>" using r'(1) w' by simp
    show "save_stage_ok (g2\<lparr>sg_active := True\<rparr>)"
      using assms p by (simp add: g2 save_stage_ok_def g_def RTC_TRAILER_SIZE_def)
    show "sg_original_path g2 = save" "sg_original_size g2 = length (content save s0)"
      using assms by (simp_all add: g2 g_def)
    have "files s4 (save @ ''.mupen'') = files s1 (save @ ''.mupen'')"
      using z' that p by (intro fs_step_file [of "{p, p @ ''.part''}"]) auto
    then show "files s4 (sg_working_path g2) = Some (take (sg_ram_size g2) (content save s0))"
      using w' that same by (simp add: g2 g_def)
    show "sg_rtc_path g2 = [] \<or> (\<exists>d. files s4 (sg_rtc_path g2) = Some d \<and>
       (d = drop (sg_ram_size g2) (content save s0) \<or> make_synthetic_mbc3_rtc c = Some d))"
      using z' that by (auto simp: g2 g_def)
  qed
  then show ?thesis using run fail [OF s1] fail [OF s2] fail [OF s4] plain by auto
qed

text \<open>
  preparing a stage never changes the save. An active stage is well formed: its working copy
  is exactly the save's RAM, its trailer file the save's own trailer or a synthesised one, and the
  emulator is handed the working copy; otherwise it is handed the save itself or nothing.
\<close>

theorem prepare_well_formed:
  assumes "save \<noteq> []" "length save + 6 < STORAGE_PATH_CAPACITY"
    and "save_stage_prepare c rom save cap s = (s', g, r)"
  shows "prepared c save s (s', g, r) \<and> save_stage_ok g \<and> files s' save = files s save"
proof -
  obtain s1 ram where a: "gb_ram_size rom s = (s1, ram)" by fastforce
  obtain s2 sz where b: "storage_file_size save s1 = (s2, sz)" by fastforce
  have s2: "fs_step (longer save) s s2"
    using gb_ram_size_step [OF a, of "longer save"] storage_file_size_step [OF b, of "longer save"] by (rule fs_step_trans)
  have same1: "content save s1 = content save s"
    using fs_step_file [OF gb_ram_size_step [OF a, of "{}"]] by (simp add: content_def)
  have "prepared c save s (save_stage_prepare c rom save cap s)"
  proof (cases sz)
    case None
    then show ?thesis using a b prepared_none [OF s2, of empty_stage] by (simp add: save_stage_prepare_def)
  next
    case (Some n)
    then have n: "n = length (content save s)" using storage_file_size_Some [of save s1 s2 n] b same1 by simp
    obtain s3 h where hr: "gb_has_mbc3_rtc rom s2 = (s3, h)" by fastforce
    have s3: "fs_step (longer save) s s3"
      using s2 gb_has_mbc3_rtc_step [OF hr] by (rule fs_step_trans)
    have run: "save_stage_prepare c rom save cap s =
        (if ram = 0 \<or> n \<le> ram
         then if n \<noteq> ram then (s2, empty_stage, copy_path cap save)
              else if h then stage_synthesize c cap save ram n s3 else (s3, empty_stage, copy_path cap save)
         else stage_split c cap rom save ram n s2)"
      using a b Some hr by (simp add: save_stage_prepare_def split: bool.splits)
    show ?thesis
    proof (cases "ram = 0 \<or> n \<le> ram")
      case True
      then show ?thesis
        using run prepared_stop [OF s2, of empty_stage] prepared_stop [OF s3, of empty_stage] n assms(1,2)
          stage_synthesize_prepared [OF assms(2,1) s3, of n ram]
        by (auto split: if_splits)
    next
      case False
      then show ?thesis using run stage_split_prepared [OF assms(2,1) s2 _ n] by auto
    qed
  qed
  then show ?thesis
    using assms(3) fs_step_file [of "longer save" s s' save] by (auto simp: prepared_def)
qed

section \<open>A path that just fits\<close>

lemma fs_remove_calm: "calm s \<Longrightarrow> files (fst (fs_remove p s)) = (files s)(p := None)"
  by (auto simp: fs_remove_def io_next_calm)

lemma gb_ram_size_calm:
  assumes "calm s" "files s rom = Some d" "drop 0x149 d = [2]"
  shows "gb_ram_size rom s = (s, 8192)"
  using assms by (simp add: gb_ram_size_def rom_octet_def fs_calm)

text \<open>
  where the save's path has 1023 characters, the working path is cut back to the save's path
  itself, does not count as fitting, and the clean-up of the failed preparation removes the save.
\<close>

theorem long_path_save_removed:
  assumes "calm s" "length save = 1023"
    and "files s rom = Some cart" "drop 0x149 cart = [2]"
    and "files s save = Some d" "8192 < length d" "length d \<le> STORAGE_MAX_FILE_SIZE"
    and "save_stage_prepare c rom save cap s = (s', g, r)"
  shows "r = None \<and> files s' save = None"
proof -
  have w: "format_path STORAGE_PATH_CAPACITY (save @ ''.mupen'') = (save, False)"
    using assms(2) by (simp add: format_path_def copy_text_def STORAGE_PATH_CAPACITY_def)
  have cp: "copy_path STORAGE_PATH_CAPACITY save = Some save"
    using assms(2) by (simp add: copy_path_def STORAGE_PATH_CAPACITY_def)
  have sz: "storage_file_size save s = (s, Some (length d))"
    using assms by (simp add: storage_file_size_def fs_calm)
  have "save \<noteq> []" using assms(2) by auto
  then show ?thesis
    using assms(6,8) gb_ram_size_calm [OF assms(1,3,4)] sz fs_remove_calm [OF assms(1), of save]
    by (auto simp: save_stage_prepare_def stage_split_def cp stage_working_def w Let_def stage_fail_def
        stage_discard_def)
qed

section \<open>Witnesses\<close>

definition sample_stage :: save_stage where
  "sample_stage = \<lparr>sg_active = True, sg_ram_size = 1, sg_original_size = 3, sg_merged_size = 3,
     sg_original_path = ''s'', sg_working_path = ''s.mupen'', sg_rtc_path = []\<rparr>"

definition sample_disk :: "io list \<Rightarrow> fs" where
  "sample_disk faults =
     \<lparr>files = [''s'' \<mapsto> [1, 2, 3], ''s.mupen'' \<mapsto> [7]], script = faults, crashed = False\<rparr>"

lemma sample_stage_ok: "save_stage_ok sample_stage" "sg_active sample_stage"
  by (simp_all add: save_stage_ok_def sample_stage_def STORAGE_PATH_CAPACITY_def)

lemma sample_merge: "merge_result sample_stage (sample_disk f) d \<Longrightarrow> d = [7, 2, 3]"
  by (auto simp: merge_result_def sample_stage_def sample_disk_def content_def)

text \<open>The process dies in the rename: the save is the old one or the merged one.\<close>

theorem finalize_atomic_witness:
  "files (fst (save_stage_finalize sample_stage (sample_disk (replicate 12 IoDone @ [IoCrash 1])))) ''s''
     \<in> {Some [1, 2, 3], Some [7, 2, 3]}"
proof -
  let ?s = "sample_disk (replicate 12 IoDone @ [IoCrash 1])"
  obtain s' g' ok where run: "save_stage_finalize sample_stage ?s = (s', g', ok)"
    by (cases "save_stage_finalize sample_stage ?s") auto
  have "files s' ''s'' = files ?s ''s'' \<or> save_replaced sample_stage ?s s'"
    using finalize_atomic [OF sample_stage_ok run, of "''s''"] by (simp add: sample_stage_def)
  then show ?thesis
    using run sample_merge by (auto simp: save_replaced_def sample_disk_def sample_stage_def)
qed

theorem prepare_well_formed_witness:
  "files (fst (save_stage_prepare \<lparr>ck_now = Some 0, ck_local = None\<rparr> ''r'' ''s'' 64 (sample_disk []))) ''s''
     = Some [1, 2, 3]"
proof -
  obtain s' g r where run: "save_stage_prepare \<lparr>ck_now = Some 0, ck_local = None\<rparr> ''r'' ''s'' 64 (sample_disk []) = (s', g, r)"
    by (cases "save_stage_prepare \<lparr>ck_now = Some 0, ck_local = None\<rparr> ''r'' ''s'' 64 (sample_disk [])") auto
  show ?thesis
    using prepare_well_formed [OF _ _ run] run by (simp add: STORAGE_PATH_CAPACITY_def sample_disk_def)
qed

definition long_path_disk :: fs where
  "long_path_disk =
     \<lparr>files = [''r'' \<mapsto> replicate 0x149 0 @ [2], replicate 1023 CHR ''a'' \<mapsto> replicate 8193 0],
      script = [], crashed = False\<rparr>"

lemma replicate_not_r: "replicate 1023 CHR ''a'' \<noteq> ''r''"
proof
  assume eq: "replicate 1023 CHR ''a'' = ''r''"
  have "length (replicate 1023 CHR ''a'') = length ''r''" by (simp only: eq)
  then show False by simp
qed

theorem long_path_save_removed_witness:
  "files (fst (save_stage_prepare \<lparr>ck_now = Some 0, ck_local = None\<rparr> ''r'' (replicate 1023 CHR ''a'') 2048 long_path_disk))
     (replicate 1023 CHR ''a'') = None"
proof -
  let ?p = "replicate 1023 CHR ''a''"
  obtain s' g r where run: "save_stage_prepare \<lparr>ck_now = Some 0, ck_local = None\<rparr> ''r'' ?p 2048 long_path_disk = (s', g, r)"
    by (cases "save_stage_prepare \<lparr>ck_now = Some 0, ck_local = None\<rparr> ''r'' ?p 2048 long_path_disk") auto
  have "r = None \<and> files s' ?p = None"
    by (rule long_path_save_removed [OF _ _ _ _ _ _ _ run, of "replicate 0x149 0 @ [2]" "replicate 8193 0"])
      (simp_all add: long_path_disk_def calm_def replicate_not_r replicate_not_r [symmetric] STORAGE_MAX_FILE_SIZE_def)
  then show ?thesis using run by simp
qed

end
