(* ===== verification/RelayLink.thy ===== *)
theory RelayLink
  imports Streams CText
begin

text \<open>
  The media relay connection (\<open>c_client/media_relay_client.c\<close>): the handshake lines, the frames
  both ends exchange over a non-blocking byte transport, the send buffer that a blocked write leaves
  behind, and the receive buffer the polls parse. The transport (a socket or OpenSSL) is a script of
  outcomes: a call moves some octets, would block, or fails. Name resolution, the TCP and TLS set-up
  and the socket options are the operating system's and OpenSSL's and are left out.
\<close>

unbundle bit_operations_syntax

section \<open>Model\<close>

datatype net = Moved nat | Blocked | Broken

record wire =
  wr_out :: bytes
  wr_in :: bytes
  wr_plan :: "net list"

datatype moved = Count nat | WouldBlock | Failed

definition net_next :: "wire \<Rightarrow> wire \<times> net" where
  "net_next w = (case wr_plan w of [] \<Rightarrow> (w, Blocked) | x # p \<Rightarrow> (w\<lparr>wr_plan := p\<rparr>, x))"

text \<open>
  A write moves at least one octet and at most what it was given; a read at least one of those that
  have arrived and at most the space there is.
\<close>

definition transport_write :: "bytes \<Rightarrow> wire \<Rightarrow> wire \<times> moved" where
  "transport_write data w =
     (case net_next w of
        (w', Moved k) \<Rightarrow>
          (let n = max 1 (min k (length data)) in
           if data = [] then (w', Failed) else (w'\<lparr>wr_out := wr_out w' @ take n data\<rparr>, Count n))
      | (w', Blocked) \<Rightarrow> (w', WouldBlock)
      | (w', Broken) \<Rightarrow> (w', Failed))"

definition transport_read :: "nat \<Rightarrow> wire \<Rightarrow> wire \<times> moved \<times> bytes" where
  "transport_read space w =
     (case net_next w of
        (w', Moved k) \<Rightarrow>
          (let n = max 1 (min k (min space (length (wr_in w')))) in
           if wr_in w' = [] then (w', WouldBlock, [])
           else (w'\<lparr>wr_in := drop n (wr_in w')\<rparr>, Count n, take n (wr_in w')))
      | (w', Blocked) \<Rightarrow> (w', WouldBlock, [])
      | (w', Broken) \<Rightarrow> (w', Failed, []))"

lemma transport_read_Count:
  assumes "transport_read space w = (w', Count n, bs)" "0 < space"
  shows "0 < n" "length bs = n" "n \<le> space" "wr_in w = bs @ wr_in w'" "bs \<noteq> []" "wr_out w' = wr_out w"
proof -
  have *: "wr_in w \<noteq> [] \<and> (\<exists>k. n = max 1 (min k (min space (length (wr_in w)))) \<and>
      bs = take n (wr_in w) \<and> wr_in w' = drop n (wr_in w) \<and> wr_out w' = wr_out w)"
    using assms(1) by (auto simp: transport_read_def net_next_def Let_def split: list.splits net.splits if_splits)
  then have "1 \<le> n" "n \<le> space" "n \<le> length (wr_in w)" using assms(2) by (auto simp: Suc_le_eq)
  then show "0 < n" "length bs = n" "n \<le> space" "wr_in w = bs @ wr_in w'" "bs \<noteq> []" "wr_out w' = wr_out w"
    using * by auto
qed

lemma transport_read_progress:
  "(w', Count n, bs) = transport_read space w \<Longrightarrow> 0 < space \<Longrightarrow>
     0 < length bs \<and> length bs \<le> space \<and> wr_in w = bs @ wr_in w'"
  using transport_read_Count [of space w w' n bs] by auto

lemma transport_read_other:
  assumes "transport_read space w = (w', r, bs)" "\<forall>n. r \<noteq> Count n"
  shows "wr_in w' = wr_in w" "wr_out w' = wr_out w"
  using assms
  by (auto simp: transport_read_def net_next_def Let_def split: list.splits net.splits if_splits)

lemma transport_write_Count:
  assumes "transport_write data w = (w', Count n)"
  shows "0 < n" "n \<le> length data" "wr_out w' = wr_out w @ take n data" "wr_in w' = wr_in w"
  using assms
  by (auto simp: transport_write_def net_next_def Let_def Suc_le_eq split: list.splits net.splits if_splits)

lemma transport_write_other:
  assumes "transport_write data w = (w', r)" "\<forall>n. r \<noteq> Count n"
  shows "wr_in w' = wr_in w" "wr_out w' = wr_out w"
  using assms
  by (auto simp: transport_write_def net_next_def Let_def split: list.splits net.splits if_splits)

definition MEDIA_LINE_MAX :: nat where "MEDIA_LINE_MAX = 512"
definition MEDIA_MAGIC :: string where "MEDIA_MAGIC = ''N64RUNTIME1''"
definition CONTROL_MAGIC :: bytes where "CONTROL_MAGIC = [0x4E, 0x36, 0x34, 0x52]"
definition CONTROL_VERSION :: u8 where "CONTROL_VERSION = 2"
definition CONTROL_HEADER_SIZE :: nat where "CONTROL_HEADER_SIZE = 16"
definition CONTROL_INPUT_SIZE :: nat where "CONTROL_INPUT_SIZE = 8"
definition CONTROLLER_MASK :: u64 where "CONTROLLER_MASK = 0x3FFFF"
definition MAX_H264_CONFIG_BYTES :: nat where "MAX_H264_CONFIG_BYTES = 64 * 1024"
definition MAX_H264_FRAME_BYTES :: nat where "MAX_H264_FRAME_BYTES = 2 * 1024 * 1024"
definition MAX_AUDIO_BYTES :: nat where "MAX_AUDIO_BYTES = 8192"
definition RECEIVE_CAPACITY :: nat where "RECEIVE_CAPACITY = CONTROL_HEADER_SIZE + MAX_H264_FRAME_BYTES"

definition MSG_CONTROLLER_INPUT :: u8 where "MSG_CONTROLLER_INPUT = 1"
definition MSG_H264_CONFIG :: u8 where "MSG_H264_CONFIG = 2"
definition MSG_H264_FRAME :: u8 where "MSG_H264_FRAME = 3"
definition MSG_AUDIO :: u8 where "MSG_AUDIO = 4"
definition MSG_GB_INPUT :: u8 where "MSG_GB_INPUT = 5"
definition MSG_GB_INPUT_ACK :: u8 where "MSG_GB_INPUT_ACK = 6"
definition MSG_GB_PING :: u8 where "MSG_GB_PING = 7"
definition MSG_GB_PONG :: u8 where "MSG_GB_PONG = 8"
definition MSG_GB_SESSION_STATE :: u8 where "MSG_GB_SESSION_STATE = 9"
definition MSG_GB_TERMINAL :: u8 where "MSG_GB_TERMINAL = 12"
definition MSG_GB_TERMINAL_ACK :: u8 where "MSG_GB_TERMINAL_ACK = 13"
definition GB_INPUT_BYTES :: nat where "GB_INPUT_BYTES = 16"
definition GB_INPUT_ACK_BYTES :: nat where "GB_INPUT_ACK_BYTES = 24"
definition GB_PING_BYTES :: nat where "GB_PING_BYTES = 8"
definition GB_SESSION_STATE_BYTES :: nat where "GB_SESSION_STATE_BYTES = 8"
definition GB_TERMINAL_BYTES :: nat where "GB_TERMINAL_BYTES = 40"
definition FLAG_H264_KEYFRAME :: u16 where "FLAG_H264_KEYFRAME = 1"

lemmas message_types = MSG_CONTROLLER_INPUT_def MSG_H264_CONFIG_def MSG_H264_FRAME_def MSG_AUDIO_def
  MSG_GB_INPUT_def MSG_GB_INPUT_ACK_def MSG_GB_PING_def MSG_GB_PONG_def MSG_GB_SESSION_STATE_def
  MSG_GB_TERMINAL_def MSG_GB_TERMINAL_ACK_def

lemmas message_sizes = GB_INPUT_BYTES_def GB_INPUT_ACK_BYTES_def GB_PING_BYTES_def
  GB_SESSION_STATE_BYTES_def GB_TERMINAL_BYTES_def MAX_H264_CONFIG_BYTES_def MAX_H264_FRAME_BYTES_def
  MAX_AUDIO_BYTES_def CONTROL_HEADER_SIZE_def CONTROL_INPUT_SIZE_def

text \<open>
  A connection: the receive buffer up to \<open>receive_used\<close>, the send buffer with its offset. Its
  capacity is always \<open>RECEIVE_CAPACITY\<close>.
\<close>

record relay_connection =
  rc_session_id :: string
  rc_role :: string
  rc_recv :: bytes
  rc_send_buffer :: "bytes option"
  rc_send_offset :: nat
  rc_paired :: bool
  rc_sequence_seen :: bool
  rc_last_sequence :: u32

definition field_is_safe :: "string option \<Rightarrow> bool" where
  "field_is_safe value \<longleftrightarrow>
     (case value of
        None \<Rightarrow> False
      | Some s \<Rightarrow> s \<noteq> [] \<and> list_all (\<lambda>c. CHR '' '' < c \<and> c < CHR 0x7F) s)"

function transport_send_all :: "bytes \<Rightarrow> wire \<Rightarrow> wire \<times> bool" where
  "transport_send_all data w =
     (if data = [] then (w, True)
      else case transport_write data w of
             (w', Count n) \<Rightarrow> transport_send_all (drop n data) w'
           | (w', _) \<Rightarrow> (w', False))"
  by pat_completeness auto
termination
  by (relation "measure (\<lambda>(data, _). length data)") (auto dest: transport_write_Count(1) [OF sym])

text \<open>The line read so far; None when it did not fit or the transport failed or blocked.\<close>

function transport_read_line :: "nat \<Rightarrow> bytes \<Rightarrow> wire \<Rightarrow> wire \<times> bytes option" where
  "transport_read_line out_size used w =
     (if out_size \<le> length used + 1 then (w, None)
      else case transport_read 1 w of
             (w', Count n, bs) \<Rightarrow>
               (if n \<noteq> 1 then (w', None)
                else if bs = [0x0A] then (w', Some used)
                else if bs = [0x0D] then transport_read_line out_size used w'
                else transport_read_line out_size (used @ bs) w')
           | (w', _, _) \<Rightarrow> (w', None))"
  by pat_completeness auto
termination
  by (relation "measure (\<lambda>(n, used, w). length (wr_in w))")
    (auto dest!: transport_read_progress intro!: diff_less_mono2)

declare transport_send_all.simps [simp del] transport_read_line.simps [simp del]

definition c_string :: "bytes \<Rightarrow> bytes" where
  "c_string bs = takeWhile (\<lambda>b. b \<noteq> 0) bs"

definition line_bytes :: "string \<Rightarrow> bytes" where
  "line_bytes s = map of_char (copy_text MEDIA_LINE_MAX s)"

text \<open>
  \<open>connect\<close> after the transport is up: \<open>nonblock\<close> is the outcome of \<open>set_nonblocking\<close>. None is a
  connection closed again.
\<close>

definition relay_handshake ::
  "string \<Rightarrow> string \<Rightarrow> string \<Rightarrow> string \<Rightarrow> bool \<Rightarrow> wire \<Rightarrow> wire \<times> relay_connection option" where
  "relay_handshake session role scope ticket nonblock w =
     (let handshake = MEDIA_MAGIC @ '' '' @ session @ '' '' @ role @ '' '' @ scope @ '' '' @ ticket @ [CHR 0x0A];
          expected = MEDIA_MAGIC @ '' AUTHENTICATED '' @ session @ '' '' @ role in
      if MEDIA_LINE_MAX \<le> length handshake then (w, None)
      else case transport_send_all (map of_char handshake) w of
             (w1, False) \<Rightarrow> (w1, None)
           | (w1, True) \<Rightarrow>
               (case transport_read_line MEDIA_LINE_MAX [] w1 of
                  (w2, None) \<Rightarrow> (w2, None)
                | (w2, Some response) \<Rightarrow>
                    if c_string response \<noteq> line_bytes expected \<or> \<not> nonblock then (w2, None)
                    else (w2, Some \<lparr>rc_session_id = copy_text 96 session, rc_role = copy_text 8 role,
                            rc_recv = [], rc_send_buffer = None, rc_send_offset = 0, rc_paired = False,
                            rc_sequence_seen = False, rc_last_sequence = 0\<rparr>)))"

definition relay_connect ::
  "string option \<Rightarrow> nat \<Rightarrow> string option \<Rightarrow> string option \<Rightarrow> string option \<Rightarrow> string option \<Rightarrow>
     string option \<Rightarrow> nat \<Rightarrow> bool \<Rightarrow> bool \<Rightarrow> wire \<Rightarrow> wire \<times> relay_connection option" where
  "relay_connect host port transport session role scope ticket timeout up nonblock w =
     (if timeout < 1 \<or> 10 < timeout \<or> \<not> field_is_safe host \<or> port = 0 \<or> 65535 < port \<or>
         (transport \<noteq> Some ''tls'' \<and> transport \<noteq> Some ''plain'') \<or> \<not> field_is_safe session \<or>
         \<not> field_is_safe role \<or> \<not> field_is_safe scope \<or> \<not> field_is_safe ticket \<or> \<not> up
      then (w, None)
      else relay_handshake (the session) (the role) (the scope) (the ticket) nonblock w)"

text \<open>Waiting for the peer: 1 when paired, 0 while waiting, -1 on failure.\<close>

definition paired_line :: "relay_connection \<Rightarrow> bytes \<Rightarrow> bool" where
  "paired_line c line \<longleftrightarrow>
     c_string (if line \<noteq> [] \<and> last line = 0x0D then butlast line else line) =
       line_bytes (MEDIA_MAGIC @ '' PAIRED '' @ rc_session_id c)"

function relay_poll_loop :: "relay_connection \<Rightarrow> wire \<Rightarrow> relay_connection \<times> wire \<times> int" where
  "relay_poll_loop c w =
     (if \<not> length (rc_recv c) + 1 < RECEIVE_CAPACITY then (c, w, - 1)
      else case transport_read (RECEIVE_CAPACITY - length (rc_recv c) - 1) w of
             (w', Count n, bs) \<Rightarrow>
               (let buffer = rc_recv c @ bs; line = takeWhile (\<lambda>b. b \<noteq> 0x0A) buffer in
                if 0x0A \<notin> set buffer then relay_poll_loop (c\<lparr>rc_recv := buffer\<rparr>) w'
                else if \<not> paired_line c line then (c\<lparr>rc_recv := buffer\<rparr>, w', - 1)
                else (c\<lparr>rc_recv := drop (length line + 1) buffer, rc_paired := True\<rparr>, w', 1))
           | (w', WouldBlock, _) \<Rightarrow> (c, w', 0)
           | (w', Failed, _) \<Rightarrow> (c, w', - 1))"
  by pat_completeness auto
termination
  by (relation "measure (\<lambda>(c, w). RECEIVE_CAPACITY - length (rc_recv c))") 
    (auto dest!: transport_read_progress intro!: diff_less_mono2)

declare relay_poll_loop.simps [simp del]

definition relay_poll :: "relay_connection \<Rightarrow> wire \<Rightarrow> relay_connection \<times> wire \<times> int" where
  "relay_poll c w = (if rc_paired c then (c, w, 1) else relay_poll_loop c w)"

text \<open>Frames. The header is the magic, the version, the type, the flags, the sequence and the size.\<close>

record frame =
  fr_type :: u8
  fr_flags :: u16
  fr_sequence :: u32
  fr_payload :: bytes

definition frame_bytes :: "frame \<Rightarrow> bytes" where
  "frame_bytes f =
     CONTROL_MAGIC @ [CONTROL_VERSION, fr_type f] @ put_be16 (fr_flags f) @ put_be32 (fr_sequence f) @
     put_be32 (of_nat (length (fr_payload f))) @ fr_payload f"

text \<open>1 when everything is written, 0 when the transport would block, -1 when it failed.\<close>

function flush_loop :: "relay_connection \<Rightarrow> wire \<Rightarrow> relay_connection \<times> wire \<times> int" where
  "flush_loop c w =
     (case rc_send_buffer c of
        None \<Rightarrow> (c\<lparr>rc_send_offset := 0\<rparr>, w, 1)
      | Some buffer \<Rightarrow>
          (let remaining = length buffer - rc_send_offset c in
           if remaining = 0 then (c\<lparr>rc_send_buffer := None, rc_send_offset := 0\<rparr>, w, 1)
           else case transport_write (take (min INT_MAX remaining) (drop (rc_send_offset c) buffer)) w of
                  (w', Count n) \<Rightarrow>
                    flush_loop (c\<lparr>rc_send_offset := rc_send_offset c + n\<rparr>) w'
                | (w', WouldBlock) \<Rightarrow> (c, w', 0)
                | (w', Failed) \<Rightarrow> (c, w', - 1)))"
  by pat_completeness auto
termination
  by (relation "measure (\<lambda>(c, w). case rc_send_buffer c of None \<Rightarrow> 0 | Some b \<Rightarrow> length b - rc_send_offset c)")
    (auto dest!: transport_write_Count(1) [OF sym])

declare flush_loop.simps [simp del]

text \<open>The parts the two senders share: an earlier frame goes first, then the new one is queued.\<close>

definition flush_pending :: "relay_connection \<Rightarrow> wire \<Rightarrow> relay_connection \<times> wire \<times> int" where
  "flush_pending c w = (if rc_send_buffer c \<noteq> None then flush_loop c w else (c, w, 1))"

definition queue_frame ::
  "bool \<Rightarrow> frame \<Rightarrow> relay_connection \<Rightarrow> wire \<Rightarrow> relay_connection \<times> wire \<times> int" where
  "queue_frame mem f c w =
     (if \<not> mem then (c\<lparr>rc_send_buffer := None\<rparr>, w, - 1)
      else flush_loop (c\<lparr>rc_send_buffer := Some (frame_bytes f), rc_send_offset := 0\<rparr>) w)"

definition control_payload_size_for_role :: "relay_connection \<Rightarrow> u8 \<Rightarrow> nat" where
  "control_payload_size_for_role c t =
     (if rc_role c = ''remote''
      then (if t = MSG_GB_INPUT then GB_INPUT_BYTES else if t = MSG_GB_PING then GB_PING_BYTES
            else if t = MSG_GB_TERMINAL_ACK then GB_TERMINAL_BYTES else 0)
      else if rc_role c = ''host''
      then (if t = MSG_GB_INPUT_ACK then GB_INPUT_ACK_BYTES else if t = MSG_GB_PONG then GB_PING_BYTES
            else if t = MSG_GB_TERMINAL then GB_TERMINAL_BYTES else 0)
      else 0)"

definition send_control ::
  "bool \<Rightarrow> u8 \<Rightarrow> u32 \<Rightarrow> bytes \<Rightarrow> relay_connection \<Rightarrow> wire \<Rightarrow> relay_connection \<times> wire \<times> int" where
  "send_control mem t sequence payload c w =
     (let expected = control_payload_size_for_role c t in
      if \<not> rc_paired c \<or> expected = 0 \<or> length payload \<noteq> expected then (c, w, - 1)
      else case flush_pending c w of
             (c1, w1, flushed) \<Rightarrow>
               if flushed \<le> 0 then (c1, w1, flushed)
               else (case queue_frame mem
                       \<lparr>fr_type = t, fr_flags = 0, fr_sequence = sequence, fr_payload = payload\<rparr> c1 w1 of
                       (c2, w2, r) \<Rightarrow> (c2, w2, if r = 0 then 1 else r)))"

definition media_maximum :: "u8 \<Rightarrow> u16 \<Rightarrow> nat" where
  "media_maximum t flags =
     (if t = MSG_H264_CONFIG \<and> flags = 0 then MAX_H264_CONFIG_BYTES
      else if t = MSG_H264_FRAME \<and> flags AND NOT FLAG_H264_KEYFRAME = 0 then MAX_H264_FRAME_BYTES
      else if t = MSG_AUDIO \<and> flags = 0 then MAX_AUDIO_BYTES
      else if t = MSG_GB_INPUT_ACK \<and> flags = 0 then GB_INPUT_ACK_BYTES
      else if t = MSG_GB_PONG \<and> flags = 0 then GB_PING_BYTES
      else if t = MSG_GB_TERMINAL \<and> flags = 0 then GB_TERMINAL_BYTES
      else 0)"

definition send_media ::
  "bool \<Rightarrow> u8 \<Rightarrow> u16 \<Rightarrow> u32 \<Rightarrow> bytes \<Rightarrow> relay_connection \<Rightarrow> wire \<Rightarrow> relay_connection \<times> wire \<times> int" where
  "send_media mem t flags sequence payload c w =
     (if \<not> rc_paired c \<or> rc_role c \<noteq> ''host'' \<or> payload = [] \<or> media_maximum t flags = 0 \<or>
         media_maximum t flags < length payload
      then (c, w, - 1)
      else case flush_pending c w of
             (c1, w1, flushed) \<Rightarrow>
               if flushed \<le> 0 then (c1, w1, flushed)
               else queue_frame mem
                      \<lparr>fr_type = t, fr_flags = flags, fr_sequence = sequence, fr_payload = payload\<rparr> c1 w1)"

text \<open>
  The polls: 1 with a frame, 0 when nothing is complete, -1 on failure. \<open>classify\<close> is what a poll
  expects of a header: the largest and whether the exact payload size, and the parser looks at the
  front of the receive buffer.
\<close>

datatype parsed = Incomplete | Invalid | Complete frame bytes

definition parse_header :: "(u8 \<Rightarrow> u16 \<Rightarrow> nat \<Rightarrow> bool) \<Rightarrow> nat \<Rightarrow> bytes \<Rightarrow> parsed" where
  "parse_header accepts capacity buf =
     (if length buf < CONTROL_HEADER_SIZE then Incomplete
      else let t = buf ! 5; flags = get_be16 (drop 6 buf); payload_size = unat (get_be32 (drop 12 buf)) in
        if take 4 buf \<noteq> CONTROL_MAGIC \<or> buf ! 4 \<noteq> CONTROL_VERSION \<or> \<not> accepts t flags payload_size
        then Invalid
        else if length buf < CONTROL_HEADER_SIZE + payload_size then Incomplete
        else if capacity < payload_size then Invalid
        else Complete \<lparr>fr_type = t, fr_flags = flags, fr_sequence = get_be32 (drop 8 buf),
                 fr_payload = take payload_size (drop CONTROL_HEADER_SIZE buf)\<rparr>
               (drop (CONTROL_HEADER_SIZE + payload_size) buf))"

lemma parse_header_Complete_length:
  "parse_header a n buf = Complete f rest \<Longrightarrow> length rest < length buf"
  by (auto simp: parse_header_def Let_def CONTROL_HEADER_SIZE_def split: if_splits)

function poll_frames ::
  "(bytes \<Rightarrow> parsed) \<Rightarrow> relay_connection \<Rightarrow> wire \<Rightarrow> relay_connection \<times> wire \<times> int \<times> frame option" where
  "poll_frames parse c w =
     (if \<not> length (rc_recv c) < RECEIVE_CAPACITY then (c, w, - 1, None)
      else case parse (rc_recv c) of
             Invalid \<Rightarrow> (c, w, - 1, None)
           | Complete f rest \<Rightarrow> (c\<lparr>rc_recv := rest\<rparr>, w, 1, Some f)
           | Incomplete \<Rightarrow>
               (case transport_read (RECEIVE_CAPACITY - length (rc_recv c)) w of
                  (w', Count n, bs) \<Rightarrow> poll_frames parse (c\<lparr>rc_recv := rc_recv c @ bs\<rparr>) w'
                | (w', WouldBlock, _) \<Rightarrow> (c, w', 0, None)
                | (w', Failed, _) \<Rightarrow> (c, w', - 1, None)))"
  by pat_completeness auto
termination
  by (relation "measure (\<lambda>(parse, c, w). RECEIVE_CAPACITY - length (rc_recv c))")
    (auto dest!: transport_read_progress intro!: diff_less_mono2)

declare poll_frames.simps [simp del]

definition control_expected :: "string \<Rightarrow> u8 \<Rightarrow> nat" where
  "control_expected role t =
     (if role = ''host''
      then (if t = MSG_GB_INPUT then GB_INPUT_BYTES else if t = MSG_GB_PING then GB_PING_BYTES
            else if t = MSG_GB_TERMINAL_ACK then GB_TERMINAL_BYTES
            else if t = MSG_GB_SESSION_STATE then GB_SESSION_STATE_BYTES else 0)
      else (if t = MSG_GB_INPUT_ACK then GB_INPUT_ACK_BYTES else if t = MSG_GB_PONG then GB_PING_BYTES
            else if t = MSG_GB_TERMINAL then GB_TERMINAL_BYTES
            else if t = MSG_GB_SESSION_STATE then GB_SESSION_STATE_BYTES else 0))"

definition control_parse :: "string \<Rightarrow> nat \<Rightarrow> bytes \<Rightarrow> parsed" where
  "control_parse role capacity =
     parse_header (\<lambda>t flags n. flags = 0 \<and> control_expected role t \<noteq> 0 \<and> n = control_expected role t) capacity"

definition poll_control ::
  "nat \<Rightarrow> relay_connection \<Rightarrow> wire \<Rightarrow> relay_connection \<times> wire \<times> int \<times> frame option" where
  "poll_control capacity c w =
     (if \<not> rc_paired c then (c, w, - 1, None)
      else poll_frames (control_parse (rc_role c) capacity) c w)"

definition media_poll_maximum :: "u8 \<Rightarrow> u16 \<Rightarrow> nat" where
  "media_poll_maximum t flags =
     (if media_maximum t flags \<noteq> 0 then media_maximum t flags
      else if t = MSG_GB_TERMINAL_ACK \<and> flags = 0 then GB_TERMINAL_BYTES
      else if t = MSG_GB_SESSION_STATE \<and> flags = 0 then GB_SESSION_STATE_BYTES
      else 0)"

definition media_parse :: "nat \<Rightarrow> bytes \<Rightarrow> parsed" where
  "media_parse capacity =
     parse_header (\<lambda>t flags n. media_poll_maximum t flags \<noteq> 0 \<and> n \<le> media_poll_maximum t flags) capacity"

definition poll_media ::
  "nat \<Rightarrow> relay_connection \<Rightarrow> wire \<Rightarrow> relay_connection \<times> wire \<times> int \<times> frame option" where
  "poll_media capacity c w =
     (if \<not> rc_paired c \<or> rc_role c \<noteq> ''remote'' then (c, w, - 1, None)
      else poll_frames (media_parse capacity) c w)"

text \<open>
  Controller states of the N64 remote. Sending writes past the send buffer; polling gives 1 with a
  new state, 2 when a state with unknown buttons was dropped, and skips what is not newer.
\<close>

definition controller_frame :: "u32 \<Rightarrow> u64 \<Rightarrow> frame" where
  "controller_frame sequence buttons =
     \<lparr>fr_type = MSG_CONTROLLER_INPUT, fr_flags = 0, fr_sequence = sequence, fr_payload = put_be64 buttons\<rparr>"

definition send_controller :: "u32 \<Rightarrow> u64 \<Rightarrow> relay_connection \<Rightarrow> wire \<Rightarrow> wire \<times> int" where
  "send_controller sequence buttons c w =
     (if \<not> rc_paired c \<or> rc_role c \<noteq> ''remote'' \<or> buttons AND NOT CONTROLLER_MASK \<noteq> 0 then (w, - 1)
      else let bs = frame_bytes (controller_frame sequence buttons) in
        case transport_write bs w of
          (w', Count n) \<Rightarrow> (w', if n = length bs then 1 else - 1)
        | (w', WouldBlock) \<Rightarrow> (w', 0)
        | (w', Failed) \<Rightarrow> (w', - 1))"

definition controller_parse :: "bytes \<Rightarrow> parsed" where
  "controller_parse =
     parse_header (\<lambda>t flags n. t = MSG_CONTROLLER_INPUT \<and> flags = 0 \<and> n = CONTROL_INPUT_SIZE) CONTROL_INPUT_SIZE"

function controller_loop ::
  "relay_connection \<Rightarrow> wire \<Rightarrow> relay_connection \<times> wire \<times> int \<times> (u32 \<times> u64) option" where
  "controller_loop c w =
     (if \<not> length (rc_recv c) < RECEIVE_CAPACITY then (c, w, - 1, None)
      else case controller_parse (rc_recv c) of
             Invalid \<Rightarrow> (c, w, - 1, None)
           | Complete f rest \<Rightarrow>
               (let buttons = get_be64 (fr_payload f); c1 = c\<lparr>rc_recv := rest\<rparr> in
                if buttons AND NOT CONTROLLER_MASK \<noteq> 0 then (c1, w, 2, None)
                else if rc_sequence_seen c \<and> sint (fr_sequence f - rc_last_sequence c) \<le> 0
                then controller_loop c1 w
                else (c1\<lparr>rc_sequence_seen := True, rc_last_sequence := fr_sequence f\<rparr>, w, 1,
                      Some (fr_sequence f, buttons)))
           | Incomplete \<Rightarrow>
               (case transport_read (RECEIVE_CAPACITY - length (rc_recv c)) w of
                  (w', Count n, bs) \<Rightarrow> controller_loop (c\<lparr>rc_recv := rc_recv c @ bs\<rparr>) w'
                | (w', WouldBlock, _) \<Rightarrow> (c, w', 0, None)
                | (w', Failed, _) \<Rightarrow> (c, w', - 1, None)))"
  by pat_completeness auto
termination
  by (relation "measure (\<lambda>(c, w). 2 * length (wr_in w) + length (rc_recv c))")
    (auto dest!: transport_read_progress dest: parse_header_Complete_length simp: controller_parse_def)

declare controller_loop.simps [simp del]

definition poll_controller ::
  "relay_connection \<Rightarrow> wire \<Rightarrow> relay_connection \<times> wire \<times> int \<times> (u32 \<times> u64) option" where
  "poll_controller c w =
     (if \<not> rc_paired c \<or> rc_role c \<noteq> ''host'' then (c, w, - 1, None) else controller_loop c w)"

text \<open>
  The host's encoded video (\<open>integral_n64_runtime_media_stream_pump_host_video_output\<close> of
  \<open>n64_runtime_media_stream.c\<close>): what the encoder thread has left to send, and the stream's sequence
  number. Nothing is left when \<open>vo_ready\<close> is clear; the mutex and the metrics are not modelled.
\<close>

record video_output =
  vo_failed :: bool
  vo_ready :: bool
  vo_config_pending :: bool
  vo_config :: bytes
  vo_frame :: bytes
  vo_keyframe :: bool
  vo_sequence :: u32

definition pump_frame ::
  "bool \<Rightarrow> video_output \<Rightarrow> relay_connection \<Rightarrow> wire \<Rightarrow> video_output \<times> relay_connection \<times> wire \<times> int" where
  "pump_frame mem v c w =
     (case send_media mem MSG_H264_FRAME (if vo_keyframe v then FLAG_H264_KEYFRAME else 0)
             (vo_sequence v + 1) (vo_frame v) c w of
        (c', w', sent) \<Rightarrow>
          if sent \<le> 0 then (v, c', w', sent)
          else (v\<lparr>vo_sequence := vo_sequence v + 1, vo_ready := False, vo_frame := []\<rparr>, c', w', 1))"

definition pump_host_video_output ::
  "bool \<Rightarrow> bool \<Rightarrow> video_output \<Rightarrow> relay_connection \<Rightarrow> wire \<Rightarrow>
     video_output \<times> relay_connection \<times> wire \<times> int" where
  "pump_host_video_output mem mem' v c w =
     (if vo_failed v then (v, c, w, - 1)
      else if \<not> vo_ready v then (v, c, w, 0)
      else if \<not> vo_config_pending v then pump_frame mem' v c w
      else case send_media mem MSG_H264_CONFIG 0 (vo_sequence v + 1) (vo_config v) c w of
             (c', w', sent) \<Rightarrow>
               if sent \<le> 0 then (v, c', w', sent)
               else pump_frame mem'
                      (v\<lparr>vo_sequence := vo_sequence v + 1, vo_config_pending := False\<rparr>) c' w')"

section \<open>Frames and their parsers\<close>

lemma length_frame_bytes [simp]: "length (frame_bytes f) = CONTROL_HEADER_SIZE + length (fr_payload f)"
  by (simp add: frame_bytes_def CONTROL_MAGIC_def CONTROL_HEADER_SIZE_def)

lemma frame_bytes_not_Nil [simp]: "frame_bytes f \<noteq> []"
  by (simp add: frame_bytes_def CONTROL_MAGIC_def)

lemma frame_header:
  fixes f :: frame and rest :: bytes
  defines "buf \<equiv> frame_bytes f @ rest"
  shows "take 4 buf = CONTROL_MAGIC" "buf ! 4 = CONTROL_VERSION" "buf ! 5 = fr_type f"
    "get_be16 (drop 6 buf) = fr_flags f" "get_be32 (drop 8 buf) = fr_sequence f"
    "get_be32 (drop 12 buf) = of_nat (length (fr_payload f))"
    "drop CONTROL_HEADER_SIZE buf = fr_payload f @ rest"
proof -
  have split: "buf = CONTROL_MAGIC @ [CONTROL_VERSION, fr_type f] @ put_be16 (fr_flags f) @
      put_be32 (fr_sequence f) @ put_be32 (of_nat (length (fr_payload f))) @ fr_payload f @ rest"
    by (simp add: buf_def frame_bytes_def)
  show "take 4 buf = CONTROL_MAGIC" "buf ! 4 = CONTROL_VERSION" "buf ! 5 = fr_type f"
    by (simp_all add: split CONTROL_MAGIC_def)
  have "drop 6 buf = put_be16 (fr_flags f) @ put_be32 (fr_sequence f) @
      put_be32 (of_nat (length (fr_payload f))) @ fr_payload f @ rest"
    by (simp add: split CONTROL_MAGIC_def)
  then show "get_be16 (drop 6 buf) = fr_flags f" by simp
  have "drop 8 buf = put_be32 (fr_sequence f) @ put_be32 (of_nat (length (fr_payload f))) @ fr_payload f @ rest"
    by (simp add: split CONTROL_MAGIC_def)
  then show "get_be32 (drop 8 buf) = fr_sequence f" by simp
  have "drop 12 buf = put_be32 (of_nat (length (fr_payload f))) @ fr_payload f @ rest"
    by (simp add: split CONTROL_MAGIC_def)
  then show "get_be32 (drop 12 buf) = of_nat (length (fr_payload f))" by simp
  show "drop CONTROL_HEADER_SIZE buf = fr_payload f @ rest"
    by (simp add: split CONTROL_MAGIC_def CONTROL_HEADER_SIZE_def)
qed

lemma frame_header_part:
  assumes "buf @ tail = frame_bytes f" "CONTROL_HEADER_SIZE \<le> length buf"
  shows "take 4 buf = CONTROL_MAGIC" "buf ! 4 = CONTROL_VERSION" "buf ! 5 = fr_type f"
    "get_be16 (drop 6 buf) = fr_flags f" "get_be32 (drop 12 buf) = of_nat (length (fr_payload f))"
proof -
  have n: "16 \<le> length buf" using assms(2) by (simp add: CONTROL_HEADER_SIZE_def)
  have whole: "frame_bytes f @ [] = buf @ tail" using assms(1) by simp
  note h = frame_header [of f "[]", unfolded whole]
  show "take 4 buf = CONTROL_MAGIC" "buf ! 4 = CONTROL_VERSION" "buf ! 5 = fr_type f"
    using h(1,2,3) n by (simp_all add: nth_append)
  have "get_be16 (drop 6 (buf @ tail)) = get_be16 (drop 6 buf)"
    using n by (simp add: get_be16_def nth_append less_diff_conv)
  then show "get_be16 (drop 6 buf) = fr_flags f" using h(4) by simp
  have "take 4 (drop 12 (buf @ tail)) = take 4 (drop 12 buf)" using n by simp
  then have "get_be32 (drop 12 (buf @ tail)) = get_be32 (drop 12 buf)"
    using get_be32_take [of "drop 12 (buf @ tail)"] get_be32_take [of "drop 12 buf"] n by simp
  then show "get_be32 (drop 12 buf) = of_nat (length (fr_payload f))" using h(6) by simp
qed

text \<open>The frames a poll takes.\<close>

definition frame_ok :: "(u8 \<Rightarrow> u16 \<Rightarrow> nat \<Rightarrow> bool) \<Rightarrow> nat \<Rightarrow> frame \<Rightarrow> bool" where
  "frame_ok accepts capacity f \<longleftrightarrow>
     accepts (fr_type f) (fr_flags f) (length (fr_payload f)) \<and> length (fr_payload f) \<le> capacity \<and>
     length (fr_payload f) < 2 ^ 32"

lemma unat_length32: "n < 2 ^ 32 \<Longrightarrow> unat (of_nat n :: u32) = n"
  by (simp add: unat_of_nat take_bit_nat_eq_self)

locale framing =
  fixes parse :: "bytes \<Rightarrow> parsed"
    and ok :: "frame \<Rightarrow> bool"
  assumes parse_nothing: "parse [] = Incomplete"
    and parse_whole: "ok f \<Longrightarrow> parse (frame_bytes f @ rest) = Complete f rest"
    and parse_part: "ok f \<Longrightarrow> buf @ tail = frame_bytes f \<Longrightarrow> tail \<noteq> [] \<Longrightarrow> parse buf = Incomplete"
begin

text \<open>The front of a stream of good frames is incomplete or gives the first of them.\<close>

lemma parse_stream:
  assumes "buf @ tail = concat (map frame_bytes fs)" "list_all ok fs"
  obtains "parse buf = Incomplete"
  | f fs' rest where "fs = f # fs'" "parse buf = Complete f rest" "rest @ tail = concat (map frame_bytes fs')"
      "buf = frame_bytes f @ rest"
proof (cases fs)
  case Nil
  then show thesis using assms that(1) parse_nothing by simp
next
  case (Cons f fs')
  then have ok: "ok f" and whole: "buf @ tail = frame_bytes f @ concat (map frame_bytes fs')"
    using assms by simp_all
  obtain us where "buf = frame_bytes f @ us \<and> us @ tail = concat (map frame_bytes fs') \<or>
      buf @ us = frame_bytes f \<and> tail = us @ concat (map frame_bytes fs')"
    using whole by (auto simp: append_eq_append_conv2)
  then consider (part) "buf @ us = frame_bytes f" "us \<noteq> []" | (all) us where "buf = frame_bytes f @ us"
      "us @ tail = concat (map frame_bytes fs')"
    by (cases "us = []") auto
  then show thesis
  proof cases
    case part
    then show thesis using that(1) parse_part [OF ok] by blast
  next
    case all
    then show thesis using that(2) [OF Cons] parse_whole [OF ok] by simp
  qed
qed

text \<open>A poll keeps the order: it gives the next frame, or nothing and loses nothing.\<close>

lemma poll_frames_next:
  "poll_frames parse c w = (c', w', r, got) \<Longrightarrow>
     rc_recv c @ wr_in w @ later = concat (map frame_bytes fs) \<Longrightarrow> list_all ok fs \<Longrightarrow>
     c' = c\<lparr>rc_recv := rc_recv c'\<rparr> \<and> wr_out w' = wr_out w \<and>
     (case got of
        None \<Rightarrow> r \<noteq> 1 \<and> rc_recv c' @ wr_in w' @ later = concat (map frame_bytes fs)
      | Some f \<Rightarrow> r = 1 \<and> (\<exists>fs'. fs = f # fs' \<and> rc_recv c' @ wr_in w' @ later = concat (map frame_bytes fs')))"
proof (induction "RECEIVE_CAPACITY - length (rc_recv c)" arbitrary: c w rule: less_induct)
  case less
  show ?case
  proof (cases "length (rc_recv c) < RECEIVE_CAPACITY")
    case False
    then show ?thesis using less.prems by (subst (asm) poll_frames.simps) auto
  next
    case True
    show ?thesis
    proof (rule parse_stream [OF less.prems(2,3)])
      fix f fs' rest
      assume "fs = f # fs'" "parse (rc_recv c) = Complete f rest"
        "rest @ wr_in w @ later = concat (map frame_bytes fs')"
      then show ?thesis using less.prems(1) True by (subst (asm) poll_frames.simps) auto
    next
      assume inc: "parse (rc_recv c) = Incomplete"
      obtain w1 m bs where rd: "transport_read (RECEIVE_CAPACITY - length (rc_recv c)) w = (w1, m, bs)"
        by (cases "transport_read (RECEIVE_CAPACITY - length (rc_recv c)) w") auto
      show ?thesis
      proof (cases m)
        case (Count n)
        note moved = transport_read_Count [OF rd [unfolded Count]]
        have pos: "0 < RECEIVE_CAPACITY - length (rc_recv c)" using True by simp
        let ?c = "c\<lparr>rc_recv := rc_recv c @ bs\<rparr>"
        have run: "poll_frames parse ?c w1 = (c', w', r, got)"
          using less.prems(1) True inc rd Count by (subst (asm) poll_frames.simps) simp
        have "RECEIVE_CAPACITY - length (rc_recv ?c) < RECEIVE_CAPACITY - length (rc_recv c)"
          using moved(5) [OF pos] True by (auto intro!: diff_less_mono2)
        from less.hyps [OF this run] less.prems(2,3) moved(4,6) [OF pos] show ?thesis by simp
      next
        case WouldBlock
        then show ?thesis
          using less.prems True inc rd transport_read_other [OF rd] by (subst (asm) poll_frames.simps) auto
      next
        case Failed
        then show ?thesis
          using less.prems True inc rd transport_read_other [OF rd] by (subst (asm) poll_frames.simps) auto
      qed
    qed
  qed
qed

text \<open>
  And it gives it as soon as it has arrived, if the transport neither fails nor blocks and no more
  than the receive buffer is outstanding.
\<close>

lemma poll_frames_delivers:
  "rc_recv c @ wr_in w = frame_bytes f @ tail \<Longrightarrow> ok f \<Longrightarrow> length (rc_recv c @ wr_in w) < RECEIVE_CAPACITY \<Longrightarrow>
     length (wr_in w) \<le> length (wr_plan w) \<Longrightarrow> list_all (\<lambda>x. x \<noteq> Blocked \<and> x \<noteq> Broken) (wr_plan w) \<Longrightarrow>
     \<exists>c' w'. poll_frames parse c w = (c', w', 1, Some f)"
proof (induction "length (wr_in w)" arbitrary: c w rule: less_induct)
  case less
  have small: "length (rc_recv c) < RECEIVE_CAPACITY" using less.prems(3) by simp
  obtain us where "rc_recv c = frame_bytes f @ us \<or> rc_recv c @ us = frame_bytes f \<and> wr_in w = us @ tail"
    using less.prems(1) by (auto simp: append_eq_append_conv2)
  then consider "rc_recv c = frame_bytes f @ us" | "rc_recv c @ us = frame_bytes f" "us \<noteq> []" "wr_in w = us @ tail"
    by (cases "us = []") auto
  then show ?case
  proof cases
    case 1
    then show ?thesis using small parse_whole [OF less.prems(2)] by (subst poll_frames.simps) simp
  next
    case 2
    then have inc: "parse (rc_recv c) = Incomplete" using parse_part [OF less.prems(2)] by blast
    let ?space = "RECEIVE_CAPACITY - length (rc_recv c)"
    obtain k p where moves: "wr_plan w = Moved k # p"
      using less.prems(4,5) 2 by (cases "wr_plan w"; cases "hd (wr_plan w)") auto
    obtain w1 n bs where rd: "transport_read ?space w = (w1, Count n, bs)" "wr_plan w1 = p"
      using 2 moves by (auto simp: transport_read_def net_next_def Let_def)
    note moved = transport_read_Count [OF rd(1)]
    have pos: "0 < ?space" using small by simp
    let ?c = "c\<lparr>rc_recv := rc_recv c @ bs\<rparr>"
    have split: "wr_in w = bs @ wr_in w1" using moved(4) [OF pos] .
    have "length (wr_in w1) < length (wr_in w)" using split moved(5) [OF pos] by simp
    moreover have "length (wr_in w1) \<le> length p"
      using less.prems(4) split moves moved(5) [OF pos] by (cases bs) auto
    ultimately have "\<exists>c' w'. poll_frames parse ?c w1 = (c', w', 1, Some f)"
      using less.hyps [of w1 ?c] less.prems(1,2,3,5) split rd(2) moves by simp
    then show ?thesis using small inc rd by (subst poll_frames.simps) simp
  qed
qed

end

lemma framing_parse_header: "framing (parse_header accepts capacity) (frame_ok accepts capacity)"
proof
  show "parse_header accepts capacity [] = Incomplete"
    by (simp add: parse_header_def CONTROL_HEADER_SIZE_def)
next
  fix f rest
  assume ok: "frame_ok accepts capacity f"
  have "drop (CONTROL_HEADER_SIZE + length (fr_payload f)) (frame_bytes f @ rest) = rest" by simp
  with ok show "parse_header accepts capacity (frame_bytes f @ rest) = Complete f rest"
    using frame_header [of f rest]
    by (simp add: parse_header_def frame_ok_def Let_def unat_length32)
next
  fix f buf tail
  assume ok: "frame_ok accepts capacity f" and buf: "buf @ tail = frame_bytes f" and ne: "tail \<noteq> []"
  have "length buf + length tail = CONTROL_HEADER_SIZE + length (fr_payload f)"
    using buf by (metis length_append length_frame_bytes)
  then have "length buf < CONTROL_HEADER_SIZE + length (fr_payload f)" using ne by (cases tail) auto
  then show "parse_header accepts capacity buf = Incomplete"
    using frame_header_part [OF buf] ok
    by (auto simp: parse_header_def frame_ok_def Let_def unat_length32)
qed

definition media_ok :: "nat \<Rightarrow> frame \<Rightarrow> bool" where
  "media_ok capacity =
     frame_ok (\<lambda>t flags n. media_poll_maximum t flags \<noteq> 0 \<and> n \<le> media_poll_maximum t flags) capacity"

definition control_ok :: "string \<Rightarrow> nat \<Rightarrow> frame \<Rightarrow> bool" where
  "control_ok role capacity =
     frame_ok (\<lambda>t flags n. flags = 0 \<and> control_expected role t \<noteq> 0 \<and> n = control_expected role t) capacity"

definition controller_ok :: "frame \<Rightarrow> bool" where
  "controller_ok =
     frame_ok (\<lambda>t flags n. t = MSG_CONTROLLER_INPUT \<and> flags = 0 \<and> n = CONTROL_INPUT_SIZE) CONTROL_INPUT_SIZE"

interpretation media: framing "media_parse capacity" "media_ok capacity" for capacity
  unfolding media_parse_def media_ok_def by (rule framing_parse_header)

interpretation control: framing "control_parse role capacity" "control_ok role capacity" for role capacity
  unfolding control_parse_def control_ok_def by (rule framing_parse_header)

interpretation controller: framing controller_parse controller_ok
  unfolding controller_parse_def controller_ok_def by (rule framing_parse_header)

section \<open>Sending\<close>

definition pending_out :: "relay_connection \<Rightarrow> bytes" where
  "pending_out c = (case rc_send_buffer c of None \<Rightarrow> [] | Some b \<Rightarrow> drop (rc_send_offset c) b)"

definition same_but_send :: "relay_connection \<Rightarrow> relay_connection \<Rightarrow> bool" where
  "same_but_send c c' \<longleftrightarrow> rc_session_id c' = rc_session_id c \<and> rc_role c' = rc_role c \<and> rc_recv c' = rc_recv c \<and>
     rc_paired c' = rc_paired c \<and> rc_sequence_seen c' = rc_sequence_seen c \<and> rc_last_sequence c' = rc_last_sequence c"

lemma same_but_send_refl [simp]: "same_but_send c c"
  "same_but_send c (c'\<lparr>rc_send_buffer := b\<rparr>) = same_but_send c c'"
  "same_but_send c (c'\<lparr>rc_send_offset := n\<rparr>) = same_but_send c c'"
  "same_but_send (c\<lparr>rc_send_buffer := b\<rparr>) c' = same_but_send c c'"
  "same_but_send (c\<lparr>rc_send_offset := n\<rparr>) c' = same_but_send c c'"
  by (simp_all add: same_but_send_def)

lemma same_but_send_trans [trans]: "same_but_send a b \<Longrightarrow> same_but_send b c \<Longrightarrow> same_but_send a c"
  by (simp add: same_but_send_def)

text \<open>Flushing moves octets from the send buffer to the transport; only the buffer and offset change.\<close>

lemma flush_loop_stream:
  "flush_loop c w = (c', w', r) \<Longrightarrow>
     same_but_send c c' \<and> wr_in w' = wr_in w \<and>
     wr_out w' @ pending_out c' = wr_out w @ pending_out c \<and> r \<in> {1, 0, - 1} \<and>
     (r = 1 \<longrightarrow> rc_send_buffer c' = None)"
proof (induction "length (pending_out c)" arbitrary: c w rule: less_induct)
  case less
  show ?case
  proof (cases "rc_send_buffer c")
    case None
    then show ?thesis using less.prems by (subst (asm) flush_loop.simps) (auto simp: pending_out_def)
  next
    case (Some b)
    let ?left = "length b - rc_send_offset c"
    let ?data = "take (min INT_MAX ?left) (drop (rc_send_offset c) b)"
    show ?thesis
    proof (cases "?left = 0")
      case True
      then show ?thesis using less.prems Some by (subst (asm) flush_loop.simps) (auto simp: pending_out_def)
    next
      case False
      obtain w1 m where wr: "transport_write ?data w = (w1, m)" by fastforce
      show ?thesis
      proof (cases m)
        case (Count n)
        note moved = transport_write_Count [OF wr [unfolded Count]]
        let ?c = "c\<lparr>rc_send_offset := rc_send_offset c + n\<rparr>"
        have n: "n \<le> ?left" "n \<le> INT_MAX" using moved(2) by auto
        then have out: "wr_out w1 = wr_out w @ take n (drop (rc_send_offset c) b)"
          using moved(3) by (simp add: min_def)
        have run: "flush_loop ?c w1 = (c', w', r)"
          using less.prems Some False wr Count by (subst (asm) flush_loop.simps) (simp add: Let_def)
        have "length (pending_out ?c) < length (pending_out c)"
          using Some moved(1) False by (simp add: pending_out_def)
        from less.hyps [OF this run] have ih: "same_but_send ?c c' \<and>
            wr_in w' = wr_in w1 \<and> wr_out w' @ pending_out c' = wr_out w1 @ pending_out ?c \<and> r \<in> {1, 0, - 1} \<and>
            (r = 1 \<longrightarrow> rc_send_buffer c' = None)" .
        have "take n (drop (rc_send_offset c) b) @ drop (rc_send_offset c + n) b = drop (rc_send_offset c) b"
          by (metis append_take_drop_id drop_drop add.commute)
        then have "wr_out w1 @ pending_out ?c = wr_out w @ pending_out c"
          using Some out by (simp add: pending_out_def)
        then show ?thesis using ih moved(4) by simp
      next
        case WouldBlock
        then show ?thesis
          using less.prems Some False wr transport_write_other [OF wr] by (subst (asm) flush_loop.simps) (auto simp: Let_def)
      next
        case Failed
        then show ?thesis
          using less.prems Some False wr transport_write_other [OF wr] by (subst (asm) flush_loop.simps) (auto simp: Let_def)
      qed
    qed
  qed
qed

lemma flush_pending_stream:
  "flush_pending c w = (c', w', r) \<Longrightarrow>
     same_but_send c c' \<and> wr_in w' = wr_in w \<and>
     wr_out w' @ pending_out c' = wr_out w @ pending_out c \<and> r \<in> {1, 0, - 1} \<and>
     (r = 1 \<longrightarrow> rc_send_buffer c' = None)"
  using flush_loop_stream [of c w c' w' r] by (auto simp: flush_pending_def split: if_splits)

text \<open>The octets of a call: \<open>stream c w\<close> is what has gone out and what is still to go.\<close>

definition stream_out :: "relay_connection \<Rightarrow> wire \<Rightarrow> bytes" where
  "stream_out c w = wr_out w @ pending_out c"

lemma queue_frame_stream:
  assumes "queue_frame mem f c w = (c', w', r)" "rc_send_buffer c = None"
  shows "same_but_send c c'" "wr_in w' = wr_in w"
    "stream_out c' w' = stream_out c w @ (if mem then frame_bytes f else [])"
    "r \<in> {1, 0, - 1}" "r \<noteq> - 1 \<Longrightarrow> mem"
proof -
  have *: "same_but_send c c' \<and> wr_in w' = wr_in w \<and>
      stream_out c' w' = stream_out c w @ (if mem then frame_bytes f else []) \<and> r \<in> {1, 0, - 1} \<and> (r \<noteq> - 1 \<longrightarrow> mem)"
  proof (cases mem)
    case True
    let ?c = "c\<lparr>rc_send_buffer := Some (frame_bytes f), rc_send_offset := 0\<rparr>"
    have "flush_loop ?c w = (c', w', r)" using assms(1) True by (simp add: queue_frame_def)
    from flush_loop_stream [OF this] assms(2) True show ?thesis
      by (simp add: stream_out_def pending_out_def)
  next
    case False
    then show ?thesis using assms by (auto simp: queue_frame_def stream_out_def pending_out_def)
  qed
  then show "same_but_send c c'" "wr_in w' = wr_in w"
    "stream_out c' w' = stream_out c w @ (if mem then frame_bytes f else [])"
    "r \<in> {1, 0, - 1}" "r \<noteq> - 1 \<Longrightarrow> mem" by blast+
qed

text \<open>Either sender: the frame is added whole, or not at all; 1 always means added.\<close>

definition sent_result :: "frame \<Rightarrow> relay_connection \<Rightarrow> wire \<Rightarrow> relay_connection \<times> wire \<times> int \<Rightarrow> bool" where
  "sent_result f c w res =
     (case res of (c', w', r) \<Rightarrow>
        same_but_send c c' \<and> wr_in w' = wr_in w \<and>
        (stream_out c' w' = stream_out c w @ frame_bytes f \<or> stream_out c' w' = stream_out c w \<and> r \<noteq> 1))"

lemma pending_then_queue:
  assumes "flush_pending c w = (c1, w1, 1)" "queue_frame mem f c1 w1 = (c', w', r)"
  shows "sent_result f c w (c', w', r)" "r \<noteq> - 1 \<Longrightarrow> stream_out c' w' = stream_out c w @ frame_bytes f" "r \<in> {1, 0, - 1}"
proof -
  have p: "same_but_send c c1 \<and> wr_in w1 = wr_in w \<and>
      stream_out c1 w1 = stream_out c w \<and> rc_send_buffer c1 = None"
    using flush_pending_stream [OF assms(1)] by (simp add: stream_out_def)
  note q = queue_frame_stream [OF assms(2)]
  have "same_but_send c c'"
    using p q(1) by (blast intro: same_but_send_trans)
  then show "sent_result f c w (c', w', r)" "r \<noteq> - 1 \<Longrightarrow> stream_out c' w' = stream_out c w @ frame_bytes f" "r \<in> {1, 0, - 1}"
    using p q(2-5) by (auto simp: sent_result_def)
qed

lemma send_media_result:
  "sent_result \<lparr>fr_type = t, fr_flags = flags, fr_sequence = n, fr_payload = p\<rparr> c w (send_media mem t flags n p c w)"
proof -
  let ?f = "\<lparr>fr_type = t, fr_flags = flags, fr_sequence = n, fr_payload = p\<rparr>"
  obtain c1 w1 r1 where p: "flush_pending c w = (c1, w1, r1)" by (cases "flush_pending c w") auto
  obtain c2 w2 r2 where q: "queue_frame mem ?f c1 w1 = (c2, w2, r2)" by (cases "queue_frame mem ?f c1 w1") auto
  note fp = flush_pending_stream [OF p]
  show ?thesis
  proof (cases "r1 = 1")
    case True
    then show ?thesis
      using pending_then_queue(1) [OF p [unfolded True] q] p q by (simp add: send_media_def sent_result_def)
  next
    case False
    then show ?thesis using fp p by (auto simp: send_media_def sent_result_def stream_out_def)
  qed
qed

text \<open>The control sender's result is exact: 1 added, 0 not added.\<close>

lemma send_control_result:
  assumes "send_control mem t n p c w = (c', w', r)"
  shows "sent_result \<lparr>fr_type = t, fr_flags = 0, fr_sequence = n, fr_payload = p\<rparr> c w (c', w', r)"
    "r = 0 \<Longrightarrow> stream_out c' w' = stream_out c w"
    "r = 1 \<Longrightarrow> control_payload_size_for_role c t = length p \<and> p \<noteq> []"
proof -
  let ?f = "\<lparr>fr_type = t, fr_flags = 0, fr_sequence = n, fr_payload = p\<rparr>"
  obtain c1 w1 r1 where p: "flush_pending c w = (c1, w1, r1)" by (cases "flush_pending c w") auto
  obtain c2 w2 r2 where q: "queue_frame mem ?f c1 w1 = (c2, w2, r2)" by (cases "queue_frame mem ?f c1 w1") auto
  note fp = flush_pending_stream [OF p]
  have *: "sent_result ?f c w (c', w', r) \<and> (r = 0 \<longrightarrow> stream_out c' w' = stream_out c w) \<and>
      (r = 1 \<longrightarrow> control_payload_size_for_role c t = length p \<and> p \<noteq> [])"
  proof (cases "r1 = 1")
    case True
    then show ?thesis
      using pending_then_queue [OF p [unfolded True] q] assms p q
      by (auto simp: send_control_def sent_result_def Let_def split: if_splits)
  next
    case False
    then show ?thesis
      using fp p assms by (auto simp: send_control_def sent_result_def stream_out_def Let_def split: if_splits)
  qed
  then show "sent_result ?f c w (c', w', r)" "r = 0 \<Longrightarrow> stream_out c' w' = stream_out c w"
    "r = 1 \<Longrightarrow> control_payload_size_for_role c t = length p \<and> p \<noteq> []" by blast+
qed

section \<open>The link\<close>

text \<open>
  The host's connection, the remote's, the octets between them, and for the statements the frames
  taken for sending and those delivered. The relay forwards octets unchanged; between two of the
  host's frames it may add one of its own.
\<close>

record link =
  lk_host :: relay_connection
  lk_remote :: relay_connection
  lk_air :: bytes
  lk_sent :: "frame list"
  lk_got :: "frame list"

definition host_call ::
  "(relay_connection \<Rightarrow> wire \<Rightarrow> relay_connection \<times> wire \<times> int) \<Rightarrow> frame \<Rightarrow> net list \<Rightarrow> link \<Rightarrow> link" where
  "host_call send f moves l =
     (let w = \<lparr>wr_out = [], wr_in = [], wr_plan = moves\<rparr> in
      case send (lk_host l) w of
        (c, w', _) \<Rightarrow> l\<lparr>lk_host := c, lk_air := lk_air l @ wr_out w',
          lk_sent := lk_sent l @ (if stream_out c w' = stream_out (lk_host l) w then [] else [f])\<rparr>)"

definition remote_poll :: "nat \<Rightarrow> net list \<Rightarrow> link \<Rightarrow> link" where
  "remote_poll capacity moves l =
     (case poll_media capacity (lk_remote l) \<lparr>wr_out = [], wr_in = lk_air l, wr_plan = moves\<rparr> of
        (c, w', _, got) \<Rightarrow> l\<lparr>lk_remote := c, lk_air := wr_in w',
          lk_got := lk_got l @ (case got of None \<Rightarrow> [] | Some f \<Rightarrow> [f])\<rparr>)"

inductive link_run :: "nat \<Rightarrow> link \<Rightarrow> bool" for capacity where
  start: "rc_role h = ''host'' \<Longrightarrow> rc_send_buffer h = None \<Longrightarrow> rc_recv m = [] \<Longrightarrow>
      link_run capacity \<lparr>lk_host = h, lk_remote = m, lk_air = [], lk_sent = [], lk_got = []\<rparr>"
| media: "link_run capacity l \<Longrightarrow>
      link_run capacity (host_call (send_media mem t flags n p)
        \<lparr>fr_type = t, fr_flags = flags, fr_sequence = n, fr_payload = p\<rparr> moves l)"
| control: "link_run capacity l \<Longrightarrow>
      link_run capacity (host_call (send_control mem t n p)
        \<lparr>fr_type = t, fr_flags = 0, fr_sequence = n, fr_payload = p\<rparr> moves l)"
| relay: "link_run capacity l \<Longrightarrow> pending_out (lk_host l) = [] \<Longrightarrow> media_ok capacity f \<Longrightarrow>
      link_run capacity (l\<lparr>lk_air := lk_air l @ frame_bytes f, lk_sent := lk_sent l @ [f]\<rparr>)"
| poll: "link_run capacity l \<Longrightarrow> link_run capacity (remote_poll capacity moves l)"

definition link_ok :: "nat \<Rightarrow> link \<Rightarrow> frame list \<Rightarrow> bool" where
  "link_ok capacity l rest \<longleftrightarrow>
     rc_role (lk_host l) = ''host'' \<and> lk_sent l = lk_got l @ rest \<and> list_all (media_ok capacity) rest \<and>
     rc_recv (lk_remote l) @ lk_air l @ pending_out (lk_host l) = concat (map frame_bytes rest)"

lemma media_maximum_bound: "media_maximum t flags \<le> MAX_H264_FRAME_BYTES"
  by (simp add: media_maximum_def message_sizes)

lemma control_frame_ok:
  assumes "rc_role c = ''host''" "control_payload_size_for_role c t = length p" "p \<noteq> []" "MAX_H264_FRAME_BYTES \<le> capacity"
  shows "media_ok capacity \<lparr>fr_type = t, fr_flags = 0, fr_sequence = n, fr_payload = p\<rparr>"
  using assms
  by (auto simp: media_ok_def frame_ok_def control_payload_size_for_role_def media_poll_maximum_def media_maximum_def
      message_types message_sizes split: if_splits)

lemma host_call_ok:
  assumes "link_ok capacity l rest"
    and "sent_result f (lk_host l) \<lparr>wr_out = [], wr_in = [], wr_plan = moves\<rparr>
           (send (lk_host l) \<lparr>wr_out = [], wr_in = [], wr_plan = moves\<rparr>)"
    and "stream_out (fst (send (lk_host l) \<lparr>wr_out = [], wr_in = [], wr_plan = moves\<rparr>))
           (fst (snd (send (lk_host l) \<lparr>wr_out = [], wr_in = [], wr_plan = moves\<rparr>))) \<noteq>
         stream_out (lk_host l) \<lparr>wr_out = [], wr_in = [], wr_plan = moves\<rparr> \<Longrightarrow> media_ok capacity f"
  shows "\<exists>rest'. link_ok capacity (host_call send f moves l) rest'"
proof -
  let ?w = "\<lparr>wr_out = [], wr_in = [], wr_plan = moves\<rparr>"
  obtain c w' r where run: "send (lk_host l) ?w = (c, w', r)" by (cases "send (lk_host l) ?w") auto
  have role: "rc_role c = ''host''" using assms(1,2) run by (simp add: sent_result_def same_but_send_def link_ok_def)
  have old: "stream_out (lk_host l) ?w = pending_out (lk_host l)" by (simp add: stream_out_def)
  show ?thesis
  proof (cases "stream_out c w' = stream_out (lk_host l) ?w")
    case True
    then have "link_ok capacity (host_call send f moves l) rest"
      using assms(1) run role old by (simp add: host_call_def link_ok_def Let_def stream_out_def)
    then show ?thesis ..
  next
    case False
    then have new: "wr_out w' @ pending_out c = pending_out (lk_host l) @ frame_bytes f" "media_ok capacity f"
      using assms(2,3) run old by (auto simp: sent_result_def stream_out_def)
    have "rc_recv (lk_remote l) @ lk_air l @ wr_out w' @ pending_out c =
        (rc_recv (lk_remote l) @ lk_air l @ pending_out (lk_host l)) @ frame_bytes f"
      using new(1) by simp
    then have "link_ok capacity (host_call send f moves l) (rest @ [f])"
      using assms(1) run role False new(2) by (simp add: host_call_def link_ok_def Let_def)
    then show ?thesis ..
  qed
qed

lemma remote_poll_ok:
  assumes "link_ok capacity l rest"
  shows "\<exists>rest'. link_ok capacity (remote_poll capacity moves l) rest'"
proof -
  let ?w = "\<lparr>wr_out = [], wr_in = lk_air l, wr_plan = moves\<rparr>"
  obtain c w' r got where run: "poll_media capacity (lk_remote l) ?w = (c, w', r, got)"
    by (cases "poll_media capacity (lk_remote l) ?w") auto
  show ?thesis
  proof (cases "rc_paired (lk_remote l) \<and> rc_role (lk_remote l) = ''remote''")
    case False
    then have "link_ok capacity (remote_poll capacity moves l) rest"
      using assms run by (auto simp: remote_poll_def poll_media_def link_ok_def)
    then show ?thesis ..
  next
    case True
    then have "poll_frames (media_parse capacity) (lk_remote l) ?w = (c, w', r, got)"
      using run by (simp add: poll_media_def)
    from media.poll_frames_next [OF this, of "pending_out (lk_host l)" rest] assms
    have "case got of None \<Rightarrow> rc_recv c @ wr_in w' @ pending_out (lk_host l) = concat (map frame_bytes rest)
      | Some f \<Rightarrow> \<exists>fs'. rest = f # fs' \<and> rc_recv c @ wr_in w' @ pending_out (lk_host l) = concat (map frame_bytes fs')"
      by (auto simp: link_ok_def split: option.splits)
    then show ?thesis
      using assms run
      by (cases got) (auto simp: remote_poll_def link_ok_def)
  qed
qed

lemma link_run_ok:
  "link_run capacity l \<Longrightarrow> MAX_H264_FRAME_BYTES \<le> capacity \<Longrightarrow> \<exists>rest. link_ok capacity l rest"
proof (induction rule: link_run.induct)
  case (start h m)
  then show ?case by (intro exI [of _ "[]"]) (simp add: link_ok_def pending_out_def)
next
  case (media l mem t flags n p moves)
  then obtain rest where rest: "link_ok capacity l rest" by blast
  let ?w = "\<lparr>wr_out = [], wr_in = [], wr_plan = moves\<rparr>"
  show ?case
  proof (rule host_call_ok [OF rest, where send = "send_media mem t flags n p"])
    show "sent_result \<lparr>fr_type = t, fr_flags = flags, fr_sequence = n, fr_payload = p\<rparr> (lk_host l) ?w
        (send_media mem t flags n p (lk_host l) ?w)"
      by (rule send_media_result)
    assume "stream_out (fst (send_media mem t flags n p (lk_host l) ?w)) (fst (snd (send_media mem t flags n p (lk_host l) ?w))) \<noteq>
      stream_out (lk_host l) ?w"
    then have "media_maximum t flags \<noteq> 0" "length p \<le> media_maximum t flags"
      by (auto simp: send_media_def split: if_splits)
    then show "media_ok capacity \<lparr>fr_type = t, fr_flags = flags, fr_sequence = n, fr_payload = p\<rparr>"
      using media_maximum_bound [of t flags] media.prems
      by (simp add: media_ok_def frame_ok_def media_poll_maximum_def MAX_H264_FRAME_BYTES_def)
  qed
next
  case (control l mem t n p moves)
  then obtain rest where rest: "link_ok capacity l rest" by blast
  let ?w = "\<lparr>wr_out = [], wr_in = [], wr_plan = moves\<rparr>"
  obtain c w' r where run: "send_control mem t n p (lk_host l) ?w = (c, w', r)"
    by (cases "send_control mem t n p (lk_host l) ?w") auto
  show ?case
  proof (rule host_call_ok [OF rest, where send = "send_control mem t n p"])
    show "sent_result \<lparr>fr_type = t, fr_flags = 0, fr_sequence = n, fr_payload = p\<rparr> (lk_host l) ?w
        (send_control mem t n p (lk_host l) ?w)"
      using send_control_result(1) [OF run] run by simp
    assume "stream_out (fst (send_control mem t n p (lk_host l) ?w)) (fst (snd (send_control mem t n p (lk_host l) ?w))) \<noteq>
      stream_out (lk_host l) ?w"
    then have "control_payload_size_for_role (lk_host l) t = length p \<and> p \<noteq> []"
      by (auto simp: send_control_def Let_def split: if_splits)
    then show "media_ok capacity \<lparr>fr_type = t, fr_flags = 0, fr_sequence = n, fr_payload = p\<rparr>"
      using control_frame_ok control.prems rest by (auto simp: link_ok_def)
  qed
next
  case (relay l f)
  then obtain rest where "link_ok capacity l rest" by blast
  with relay have "link_ok capacity (l\<lparr>lk_air := lk_air l @ frame_bytes f, lk_sent := lk_sent l @ [f]\<rparr>) (rest @ [f])"
    by (simp add: link_ok_def flip: append_assoc)
  then show ?case ..
next
  case (poll l moves)
  then show ?case using remote_poll_ok by blast
qed

text \<open>
  C3: over any interleaving of calls, partial transfers, blocked and failed calls, what the remote
  has been given is what the host's calls took for sending, in order and once each, and the octets
  still under way are exactly the remaining frames.
\<close>

theorem relay_link_fifo:
  assumes "link_run capacity l" "MAX_H264_FRAME_BYTES \<le> capacity"
  shows "\<exists>rest. lk_sent l = lk_got l @ rest \<and>
    rc_recv (lk_remote l) @ lk_air l @ pending_out (lk_host l) = concat (map frame_bytes rest)"
  using link_run_ok [OF assms] by (auto simp: link_ok_def)

text \<open>
  C29: a poll gives the next frame as soon as the host has nothing left to flush, provided less than
  the receive buffer is under way and the transport neither fails nor blocks before all is read.
\<close>

theorem relay_poll_delivers:
  assumes "link_run capacity l" "MAX_H264_FRAME_BYTES \<le> capacity" "lk_got l \<noteq> lk_sent l"
    and "rc_send_buffer (lk_host l) = None" "length (rc_recv (lk_remote l) @ lk_air l) < RECEIVE_CAPACITY"
    and "rc_paired (lk_remote l)" "rc_role (lk_remote l) = ''remote''"
    and "length (lk_air l) \<le> length moves" "list_all (\<lambda>x. x \<noteq> Blocked \<and> x \<noteq> Broken) moves"
  shows "\<exists>c w f. poll_media capacity (lk_remote l) \<lparr>wr_out = [], wr_in = lk_air l, wr_plan = moves\<rparr> =
      (c, w, 1, Some f) \<and> lk_got (remote_poll capacity moves l) = lk_got l @ [f] \<and>
      lk_sent l ! length (lk_got l) = f"
proof -
  let ?w = "\<lparr>wr_out = [], wr_in = lk_air l, wr_plan = moves\<rparr>"
  obtain rest where rest: "link_ok capacity l rest" using link_run_ok [OF assms(1,2)] by blast
  then obtain f fs where f: "rest = f # fs" "media_ok capacity f" using assms(3) by (cases rest) (auto simp: link_ok_def)
  have "rc_recv (lk_remote l) @ wr_in ?w = frame_bytes f @ concat (map frame_bytes fs)"
    using rest f(1) assms(4) by (simp add: link_ok_def pending_out_def)
  from media.poll_frames_delivers [OF this f(2)] assms(5,8,9)
  obtain c w where "poll_frames (media_parse capacity) (lk_remote l) ?w = (c, w, 1, Some f)" by auto
  then have run: "poll_media capacity (lk_remote l) ?w = (c, w, 1, Some f)"
    using assms(6,7) by (simp add: poll_media_def)
  have "lk_sent l ! length (lk_got l) = f" using rest f(1) by (simp add: link_ok_def nth_append)
  with run show ?thesis by (intro exI [of _ c] exI [of _ w] exI [of _ f]) (simp add: remote_poll_def)
qed

text \<open>
  when a read fills the receive buffer, the poll fails although the buffer starts with whole
  good frames, and every later poll of the connection fails the same way.
\<close>

theorem full_receive_buffer_fails:
  assumes "rc_paired c" "rc_role c = ''remote''" "rc_recv c = []"
    and "wr_in w = concat (map frame_bytes fs)" "list_all (media_ok capacity) fs"
    and "RECEIVE_CAPACITY \<le> length (wr_in w)" "wr_plan w = Moved k # rest" "RECEIVE_CAPACITY \<le> k"
    and "poll_media capacity c w = (c', w', r, got)"
  shows "r = - 1 \<and> got = None \<and> rc_recv c' = take RECEIVE_CAPACITY (concat (map frame_bytes fs)) \<and>
    poll_media capacity c' w2 = (c', w2, - 1, None)"
proof -
  let ?c = "c\<lparr>rc_recv := take RECEIVE_CAPACITY (wr_in w)\<rparr>"
  have pos: "0 < RECEIVE_CAPACITY" by (simp add: RECEIVE_CAPACITY_def CONTROL_HEADER_SIZE_def)
  have rd: "transport_read RECEIVE_CAPACITY w = (w\<lparr>wr_plan := rest, wr_in := drop RECEIVE_CAPACITY (wr_in w)\<rparr>,
      Count RECEIVE_CAPACITY, take RECEIVE_CAPACITY (wr_in w))"
    using assms(6,7,8) pos by (auto simp: transport_read_def net_next_def Let_def)
  have "poll_frames (media_parse capacity) c w =
      poll_frames (media_parse capacity) ?c (w\<lparr>wr_plan := rest, wr_in := drop RECEIVE_CAPACITY (wr_in w)\<rparr>)"
    using assms(3) pos rd media.parse_nothing by (subst poll_frames.simps) simp
  moreover have "length (rc_recv ?c) = RECEIVE_CAPACITY" using assms(6) by simp
  then have full: "poll_frames (media_parse capacity) ?c u = (?c, u, - 1, None)" for u
    by (subst poll_frames.simps) simp
  ultimately have "poll_media capacity c w = (?c, w\<lparr>wr_plan := rest, wr_in := drop RECEIVE_CAPACITY (wr_in w)\<rparr>, - 1, None)"
    using assms(1,2) by (simp add: poll_media_def)
  then show ?thesis using assms(1,2,4,9) full by (auto simp: poll_media_def)
qed

lemma controller_ok_eq:
  assumes "controller_ok f" shows "f = controller_frame (fr_sequence f) (get_be64 (fr_payload f))"
proof -
  have "length (fr_payload f) = 8" using assms by (simp add: controller_ok_def frame_ok_def CONTROL_INPUT_SIZE_def)
  then show ?thesis
    using assms by (cases f) (simp add: controller_ok_def frame_ok_def controller_frame_def put_get_be64)
qed

definition stale :: "relay_connection \<Rightarrow> frame \<Rightarrow> bool" where
  "stale c f \<longleftrightarrow> rc_sequence_seen c \<and> sint (fr_sequence f - rc_last_sequence c) \<le> 0"

lemma stale_recv [simp]: "stale (c\<lparr>rc_recv := b\<rparr>) = stale c"
  by (simp add: stale_def fun_eq_iff)

lemma controller_loop_state:
  "rc_recv c @ wr_in w @ later = concat (map frame_bytes fs) \<Longrightarrow> list_all controller_ok fs \<Longrightarrow>
     controller_loop c w = (c', w', r, Some (n, buttons)) \<Longrightarrow>
     r = 1 \<and> buttons AND NOT CONTROLLER_MASK = 0 \<and> rc_sequence_seen c' \<and> rc_last_sequence c' = n \<and>
     \<not> stale c (controller_frame n buttons) \<and>
     (\<exists>old new. fs = old @ controller_frame n buttons # new \<and> list_all (stale c) old \<and>
        rc_recv c' @ wr_in w' @ later = concat (map frame_bytes new))"
proof (induction "2 * length (wr_in w) + length (rc_recv c)" arbitrary: c w fs rule: less_induct)
  case less
  have small: "length (rc_recv c) < RECEIVE_CAPACITY"
    using less.prems(3) by (rule contrapos_pp) (subst controller_loop.simps, simp)
  show ?case
  proof (rule controller.parse_stream [OF less.prems(1,2)])
    assume inc: "controller_parse (rc_recv c) = Incomplete"
    let ?space = "RECEIVE_CAPACITY - length (rc_recv c)"
    obtain w1 k bs where rd: "transport_read ?space w = (w1, Count k, bs)"
      and run: "controller_loop (c\<lparr>rc_recv := rc_recv c @ bs\<rparr>) w1 = (c', w', r, Some (n, buttons))"
      using less.prems(3) small inc
      by (subst (asm) controller_loop.simps) (auto split: prod.splits moved.splits)
    have pos: "0 < ?space" using small by simp
    note moved = transport_read_Count [OF rd] pos
    have "2 * length (wr_in w1) + length (rc_recv c @ bs) < 2 * length (wr_in w) + length (rc_recv c)"
      using moved(4,5) pos by simp
    from less.hyps [OF _ _ less.prems(2) run] this less.prems(1) moved(4) pos show ?thesis
      by simp
  next
    fix f fs' rest
    assume p: "fs = f # fs'" "controller_parse (rc_recv c) = Complete f rest"
      "rest @ wr_in w @ later = concat (map frame_bytes fs')" "rc_recv c = frame_bytes f @ rest"
    have ok: "controller_ok f" using less.prems(2) p(1) by simp
    note f = controller_ok_eq [OF ok]
    let ?b = "get_be64 (fr_payload f)"
    have masked: "?b AND NOT CONTROLLER_MASK = 0"
      using less.prems(3) small p(2) by (subst (asm) controller_loop.simps) (auto simp: Let_def split: if_splits)
    show ?thesis
    proof (cases "stale c f")
      case True
      let ?c = "c\<lparr>rc_recv := rest\<rparr>"
      have run: "controller_loop ?c w = (c', w', r, Some (n, buttons))"
        using less.prems(3) small p(2) masked True
        by (subst (asm) controller_loop.simps) (simp add: Let_def stale_def)
      have "2 * length (wr_in w) + length (rc_recv ?c) < 2 * length (wr_in w) + length (rc_recv c)"
        using p(4) by (simp add: CONTROL_HEADER_SIZE_def)
      from less.hyps [OF this _ _ run, of fs'] p(1,3) less.prems(2)
      have ih: "r = 1 \<and> buttons AND NOT CONTROLLER_MASK = 0 \<and> rc_sequence_seen c' \<and> rc_last_sequence c' = n \<and>
          \<not> stale ?c (controller_frame n buttons) \<and>
          (\<exists>old new. fs' = old @ controller_frame n buttons # new \<and> list_all (stale ?c) old \<and>
             rc_recv c' @ wr_in w' @ later = concat (map frame_bytes new))" by simp
      obtain old new where "fs' = old @ controller_frame n buttons # new" "list_all (stale c) old"
          "rc_recv c' @ wr_in w' @ later = concat (map frame_bytes new)" using ih by auto
      then have "\<exists>old new. fs = old @ controller_frame n buttons # new \<and> list_all (stale c) old \<and>
          rc_recv c' @ wr_in w' @ later = concat (map frame_bytes new)"
        using p(1) True by (intro exI [of _ "f # old"] exI [of _ new]) simp
      then show ?thesis using ih by simp
    next
      case False
      then have "c' = c\<lparr>rc_recv := rest, rc_sequence_seen := True, rc_last_sequence := fr_sequence f\<rparr> \<and> w' = w \<and>
          r = 1 \<and> n = fr_sequence f \<and> buttons = ?b"
        using less.prems(3) small p(2) masked
        by (subst (asm) controller_loop.simps) (auto simp: Let_def stale_def split: if_splits)
      then have eqs: "c' = c\<lparr>rc_recv := rest, rc_sequence_seen := True, rc_last_sequence := n\<rparr>" "w' = w"
          "r = 1" "n = fr_sequence f" "buttons = ?b" by auto
      then have fn: "f = controller_frame n buttons" using f by simp
      have "\<exists>old new. fs = old @ controller_frame n buttons # new \<and> list_all (stale c) old \<and>
          rc_recv c' @ wr_in w' @ later = concat (map frame_bytes new)"
        using p(1,3) eqs(1,2) fn [symmetric] by (intro exI [of _ "[]"] exI [of _ fs']) simp
      moreover have "\<not> stale c (controller_frame n buttons)" using False fn by simp
      ultimately show ?thesis using eqs masked by simp
    qed
  qed
qed

text \<open>
  C30: a controller poll that gives a state gives one the remote sent, with known buttons only and
  newer than the last one given, and has passed over nothing but states that were not newer.
\<close>

theorem controller_state_newer:
  assumes "rc_recv c @ wr_in w @ later = concat (map frame_bytes fs)" "list_all controller_ok fs"
    and "poll_controller c w = (c', w', r, Some (n, buttons))"
  shows "r = 1 \<and> buttons AND NOT CONTROLLER_MASK = 0 \<and> rc_sequence_seen c' \<and> rc_last_sequence c' = n \<and>
    (rc_sequence_seen c \<longrightarrow> 0 < sint (n - rc_last_sequence c)) \<and>
    (\<exists>old new. fs = old @ controller_frame n buttons # new \<and>
       rc_recv c' @ wr_in w' @ later = concat (map frame_bytes new) \<and>
       list_all (stale c) old)"
proof -
  have "controller_loop c w = (c', w', r, Some (n, buttons))"
    using assms(3) by (simp add: poll_controller_def split: if_splits)
  from controller_loop_state [OF assms(1,2) this] show ?thesis
    by (auto simp: stale_def controller_frame_def not_le)
qed

lemma flush_loop_blocked:
  assumes "rc_send_buffer c = Some b" "rc_send_offset c = 0" "b \<noteq> []" "wr_plan w = [Blocked]"
  shows "flush_loop c w = (c, w\<lparr>wr_plan := []\<rparr>, 0)"
  using assms by (subst flush_loop.simps) (simp add: Let_def transport_write_def net_next_def)

lemma flush_loop_whole:
  assumes "rc_send_buffer c = Some b" "rc_send_offset c = 0" "b \<noteq> []" "length b \<le> INT_MAX"
    "wr_plan w = Moved k # moves" "length b \<le> k"
  shows "flush_loop c w = (c\<lparr>rc_send_buffer := None, rc_send_offset := 0\<rparr>, w\<lparr>wr_plan := moves, wr_out := wr_out w @ b\<rparr>, 1)"
proof -
  let ?c = "c\<lparr>rc_send_offset := length b\<rparr>" and ?w = "w\<lparr>wr_plan := moves, wr_out := wr_out w @ b\<rparr>"
  have n: "max (Suc 0) (min k (length b)) = length b" using assms(3,6) by (cases b) auto
  have "flush_loop c w = flush_loop ?c ?w"
    using assms n by (subst flush_loop.simps) (simp add: Let_def transport_write_def net_next_def)
  moreover have "flush_loop ?c ?w = (?c\<lparr>rc_send_buffer := None, rc_send_offset := 0\<rparr>, ?w, 1)"
    using assms(1) by (subst flush_loop.simps) simp
  ultimately show ?thesis by simp
qed

text \<open>
  a frame whose sending blocked is queued by the connection but reported like one that was not
  taken, so the next pump sends it again: the remote gets the same frame, with the same sequence
  number, twice.
\<close>

theorem video_frame_sent_twice:
  assumes "rc_paired c" "rc_role c = ''host''" "rc_send_buffer c = None" "wr_plan w = [Blocked]"
    and "vo_ready v" "\<not> vo_failed v" "\<not> vo_config_pending v"
    and "vo_frame v \<noteq> []" "length (vo_frame v) \<le> MAX_H264_FRAME_BYTES"
    and "RECEIVE_CAPACITY \<le> k"
    and "pump_host_video_output True True v c w = (v1, c1, w1, r1)"
    and "pump_host_video_output True True v1 c1 (w1\<lparr>wr_plan := [Moved k, Moved k]\<rparr>) = (v2, c2, w2, r2)"
    and "f = \<lparr>fr_type = MSG_H264_FRAME, fr_flags = (if vo_keyframe v then FLAG_H264_KEYFRAME else 0),
      fr_sequence = vo_sequence v + 1, fr_payload = vo_frame v\<rparr>"
  shows "r1 = 0 \<and> v1 = v \<and> r2 = 1 \<and> wr_out w2 = wr_out w @ frame_bytes f @ frame_bytes f"
proof -
  have m: "media_maximum MSG_H264_FRAME (if vo_keyframe v then FLAG_H264_KEYFRAME else 0) = MAX_H264_FRAME_BYTES"
    by (simp add: media_maximum_def message_types FLAG_H264_KEYFRAME_def)
  have pos: "0 < MAX_H264_FRAME_BYTES" by (simp add: MAX_H264_FRAME_BYTES_def)
  have len: "length (frame_bytes f) \<le> INT_MAX" "length (frame_bytes f) \<le> k"
    using assms(9,10,13) by (simp_all add: INT_MAX_def RECEIVE_CAPACITY_def message_sizes)
  let ?c = "c\<lparr>rc_send_buffer := Some (frame_bytes f), rc_send_offset := 0\<rparr>"
  have send: "send_media True MSG_H264_FRAME (if vo_keyframe v then FLAG_H264_KEYFRAME else 0) (vo_sequence v + 1)
      (vo_frame v) d u = (case flush_pending d u of (d1, u1, x) \<Rightarrow> if x \<le> 0 then (d1, u1, x) else queue_frame True f d1 u1)"
    if "rc_paired d" "rc_role d = ''host''" for d u
    using that assms(8,9) m pos unfolding assms(13) by (simp add: send_media_def split del: if_split)
  have first: "pump_host_video_output True True v c w = (v, ?c, w\<lparr>wr_plan := []\<rparr>, 0)"
    using assms(1-7) send [of c w] flush_loop_blocked [of ?c "frame_bytes f" w]
    by (simp add: pump_host_video_output_def pump_frame_def flush_pending_def queue_frame_def split del: if_split)
  let ?w = "w\<lparr>wr_plan := [Moved k, Moved k]\<rparr>"
  let ?idle = "c\<lparr>rc_send_buffer := None, rc_send_offset := 0\<rparr>"
  have flush: "flush_pending ?c ?w = (?idle, w\<lparr>wr_plan := [Moved k], wr_out := wr_out w @ frame_bytes f\<rparr>, 1)"
    using flush_loop_whole [of ?c "frame_bytes f" ?w k "[Moved k]"] len by (simp add: flush_pending_def)
  have queue: "queue_frame True f ?idle (w\<lparr>wr_plan := [Moved k], wr_out := wr_out w @ frame_bytes f\<rparr>) =
      (?idle, w\<lparr>wr_plan := [], wr_out := wr_out w @ frame_bytes f @ frame_bytes f\<rparr>, 1)"
    using flush_loop_whole [of ?c "frame_bytes f" "w\<lparr>wr_plan := [Moved k], wr_out := wr_out w @ frame_bytes f\<rparr>" k "[]"] len
    by (simp add: queue_frame_def)
  have "pump_host_video_output True True v ?c ?w =
      (v\<lparr>vo_sequence := vo_sequence v + 1, vo_ready := False, vo_frame := []\<rparr>, ?idle,
       w\<lparr>wr_plan := [], wr_out := wr_out w @ frame_bytes f @ frame_bytes f\<rparr>, 1)"
    using assms(1,2,5-7) send [of ?c ?w] flush queue
    by (simp add: pump_host_video_output_def pump_frame_def split del: if_split)
  then show ?thesis using first assms(11,12) by auto
qed

section \<open>Witnesses\<close>

definition sample_end :: "string \<Rightarrow> relay_connection" where
  "sample_end role = \<lparr>rc_session_id = ''s'', rc_role = role, rc_recv = [], rc_send_buffer = None, rc_send_offset = 0,
     rc_paired = True, rc_sequence_seen = False, rc_last_sequence = 0\<rparr>"

definition sample_link :: link where
  "sample_link = \<lparr>lk_host = sample_end ''host'', lk_remote = sample_end ''remote'', lk_air = [], lk_sent = [], lk_got = []\<rparr>"

lemma sample_link_run: "link_run capacity sample_link"
  unfolding sample_link_def by (rule link_run.start) (simp_all add: sample_end_def)

text \<open>A write that stops after five octets, and a poll that reads what there is.\<close>

definition sample_busy_link :: link where
  "sample_busy_link = remote_poll MAX_H264_FRAME_BYTES [Moved 9]
     (host_call (send_media True MSG_AUDIO 0 1 [1, 2, 3])
        \<lparr>fr_type = MSG_AUDIO, fr_flags = 0, fr_sequence = 1, fr_payload = [1, 2, 3]\<rparr> [Moved 5, Blocked] sample_link)"

theorem relay_link_fifo_witness:
  "\<exists>rest. lk_sent sample_busy_link = lk_got sample_busy_link @ rest \<and>
     rc_recv (lk_remote sample_busy_link) @ lk_air sample_busy_link @ pending_out (lk_host sample_busy_link) =
       concat (map frame_bytes rest)"
  unfolding sample_busy_link_def
  by (rule relay_link_fifo [OF link_run.poll [OF link_run.media [OF sample_link_run]] order.refl])

definition sample_state_frame :: frame where
  "sample_state_frame =
     \<lparr>fr_type = MSG_GB_SESSION_STATE, fr_flags = 0, fr_sequence = 1, fr_payload = [0, 0, 0, 1, 0, 0, 0, 9]\<rparr>"

definition sample_waiting_link :: link where
  "sample_waiting_link =
     sample_link\<lparr>lk_air := frame_bytes sample_state_frame, lk_sent := [sample_state_frame]\<rparr>"

theorem relay_poll_delivers_witness:
  "lk_got (remote_poll MAX_H264_FRAME_BYTES (replicate 24 (Moved 1)) sample_waiting_link) = [sample_state_frame]"
proof -
  have ok: "media_ok MAX_H264_FRAME_BYTES sample_state_frame"
    by (simp add: media_ok_def frame_ok_def sample_state_frame_def media_poll_maximum_def media_maximum_def
        message_types message_sizes)
  have "link_run MAX_H264_FRAME_BYTES
      (sample_link\<lparr>lk_air := lk_air sample_link @ frame_bytes sample_state_frame, lk_sent := lk_sent sample_link @ [sample_state_frame]\<rparr>)"
    by (rule link_run.relay [OF sample_link_run _ ok]) (simp add: sample_link_def sample_end_def pending_out_def)
  then have run: "link_run MAX_H264_FRAME_BYTES sample_waiting_link"
    by (simp add: sample_waiting_link_def sample_link_def)
  have "length (frame_bytes sample_state_frame) = 24"
    by (simp add: CONTROL_HEADER_SIZE_def sample_state_frame_def)
  then show ?thesis
    using relay_poll_delivers [OF run order.refl, of "replicate 24 (Moved 1)"]
    by (auto simp: sample_waiting_link_def sample_link_def sample_end_def RECEIVE_CAPACITY_def message_sizes list_all_iff)
qed

text \<open>43691 small audio frames fill the buffer exactly.\<close>

definition sample_audio :: frame where
  "sample_audio = \<lparr>fr_type = MSG_AUDIO, fr_flags = 0, fr_sequence = 1, fr_payload = replicate 32 0\<rparr>"

lemma length_frames: "length (concat (map frame_bytes (replicate n f))) = n * length (frame_bytes f)"
  by (induction n) auto

theorem full_receive_buffer_fails_witness:
  "fst (snd (snd (poll_media MAX_H264_FRAME_BYTES (sample_end ''remote'')
     \<lparr>wr_out = [], wr_in = concat (map frame_bytes (replicate 43691 sample_audio)), wr_plan = [Moved RECEIVE_CAPACITY]\<rparr>))) = - 1"
proof -
  let ?w = "\<lparr>wr_out = [], wr_in = concat (map frame_bytes (replicate 43691 sample_audio)), wr_plan = [Moved RECEIVE_CAPACITY]\<rparr>"
  obtain c' w' r got where run: "poll_media MAX_H264_FRAME_BYTES (sample_end ''remote'') ?w = (c', w', r, got)"
    by (cases "poll_media MAX_H264_FRAME_BYTES (sample_end ''remote'') ?w") auto
  have len: "length (wr_in ?w) = 43691 * 48"
    unfolding wire.select_convs length_frames by (simp add: sample_audio_def CONTROL_HEADER_SIZE_def)
  have cap: "RECEIVE_CAPACITY \<le> length (wr_in ?w)"
    unfolding len by (simp add: RECEIVE_CAPACITY_def message_sizes)
  have ok: "media_ok MAX_H264_FRAME_BYTES sample_audio"
    by (simp add: media_ok_def frame_ok_def sample_audio_def media_poll_maximum_def media_maximum_def
        message_types message_sizes)
  have "r = - 1"
    using full_receive_buffer_fails [OF _ _ _ _ _ cap _ order.refl run, of "replicate 43691 sample_audio" "[]"] ok
    by (simp add: sample_end_def list_all_length)
  then show ?thesis using run by simp
qed

definition sample_controller_wire :: wire where
  "sample_controller_wire =
     \<lparr>wr_out = [], wr_in = frame_bytes (controller_frame 5 3), wr_plan = [Moved 100]\<rparr>"

theorem controller_state_newer_witness:
  "\<exists>c' w'. poll_controller (sample_end ''host'') sample_controller_wire = (c', w', 1, Some (5, 3)) \<and>
     rc_last_sequence c' = 5"
proof -
  let ?c = "sample_end ''host''" and ?w = sample_controller_wire
  have ok: "controller_ok (controller_frame 5 3)"
    by (simp add: controller_ok_def frame_ok_def controller_frame_def CONTROL_INPUT_SIZE_def)
  have in_w: "rc_recv ?c @ wr_in ?w @ [] = concat (map frame_bytes [controller_frame 5 3])"
    by (simp add: sample_end_def sample_controller_wire_def)
  have "length (frame_bytes (controller_frame 5 3)) = 24"
    by (simp add: CONTROL_HEADER_SIZE_def controller_frame_def)
  then have rd: "transport_read RECEIVE_CAPACITY ?w = (?w\<lparr>wr_plan := [], wr_in := []\<rparr>, Count 24, frame_bytes (controller_frame 5 3))"
    by (simp add: transport_read_def net_next_def Let_def sample_controller_wire_def RECEIVE_CAPACITY_def message_sizes)
  have parse: "controller_parse (frame_bytes (controller_frame 5 3)) = Complete (controller_frame 5 3) []"
    using controller.parse_whole [OF ok, of "[]"] by simp
  have run: "poll_controller ?c ?w =
      (?c\<lparr>rc_recv := [], rc_sequence_seen := True, rc_last_sequence := 5\<rparr>, ?w\<lparr>wr_plan := [], wr_in := []\<rparr>, 1, Some (5, 3))"
    using rd parse controller.parse_nothing
    by (simp add: poll_controller_def sample_end_def, subst controller_loop.simps, simp, subst controller_loop.simps)
      (simp add: RECEIVE_CAPACITY_def message_sizes controller_frame_def CONTROLLER_MASK_def Let_def)
  from controller_state_newer [OF in_w _ run] ok run show ?thesis by auto
qed

theorem video_frame_sent_twice_witness:
  "\<exists>v2 c2 w2. wr_out w2 = frame_bytes \<lparr>fr_type = MSG_H264_FRAME, fr_flags = 0, fr_sequence = 8, fr_payload = [1]\<rparr> @
     frame_bytes \<lparr>fr_type = MSG_H264_FRAME, fr_flags = 0, fr_sequence = 8, fr_payload = [1]\<rparr> \<and>
     (case pump_host_video_output True True
        \<lparr>vo_failed = False, vo_ready = True, vo_config_pending = False, vo_config = [], vo_frame = [1],
           vo_keyframe = False, vo_sequence = 7\<rparr> (sample_end ''host'') \<lparr>wr_out = [], wr_in = [], wr_plan = [Blocked]\<rparr> of
        (v1, c1, w1, _) \<Rightarrow>
          pump_host_video_output True True v1 c1 (w1\<lparr>wr_plan := [Moved RECEIVE_CAPACITY, Moved RECEIVE_CAPACITY]\<rparr>) =
            (v2, c2, w2, 1))"
proof -
  let ?v = "\<lparr>vo_failed = False, vo_ready = True, vo_config_pending = False, vo_config = [], vo_frame = [1],
           vo_keyframe = False, vo_sequence = 7\<rparr>"
  let ?w = "\<lparr>wr_out = [], wr_in = [], wr_plan = [Blocked]\<rparr>"
  obtain v1 c1 w1 r1 where one: "pump_host_video_output True True ?v (sample_end ''host'') ?w = (v1, c1, w1, r1)"
    by (cases "pump_host_video_output True True ?v (sample_end ''host'') ?w") auto
  let ?w1 = "w1\<lparr>wr_plan := [Moved RECEIVE_CAPACITY, Moved RECEIVE_CAPACITY]\<rparr>"
  obtain v2 c2 w2 r2 where two: "pump_host_video_output True True v1 c1 ?w1 = (v2, c2, w2, r2)"
    by (cases "pump_host_video_output True True v1 c1 ?w1") auto
  have "r2 = 1 \<and> wr_out w2 = frame_bytes \<lparr>fr_type = MSG_H264_FRAME, fr_flags = 0, fr_sequence = 8, fr_payload = [1]\<rparr> @
     frame_bytes \<lparr>fr_type = MSG_H264_FRAME, fr_flags = 0, fr_sequence = 8, fr_payload = [1]\<rparr>"
    using video_frame_sent_twice [OF _ _ _ _ _ _ _ _ _ order.refl one two refl]
    by (simp add: sample_end_def MAX_H264_FRAME_BYTES_def)
  then show ?thesis using one two by auto
qed

end
