(* ===== verification/FixedHost.thy ===== *)
theory FixedHost
  imports RelayLink ResultIpc ProductRuntime Scheduler
begin

text \<open>
  The fixed-host session over the relay (\<open>c_client/integral_gb_runtime_fixed_host.c\<close>): what the
  host does with the remote's control messages, the remote's loop, and the agreement on the final
  state with which a session ends. The emulation core is a parameter: a snapshot of it gives the
  logical frame, the digests and the two battery saves. Clocks are parameters; a wait with a
  deadline is a list of its polls.
\<close>

unbundle bit_operations_syntax

section \<open>Model\<close>

record link_snapshot =
  ls_frame :: u64
  ls_pair_sha256 :: bytes
  ls_battery_a_sha256 :: bytes
  ls_battery_b_sha256 :: bytes
  ls_state_a :: "bytes option"
  ls_state_b :: "bytes option"
  ls_battery_a :: "bytes option"
  ls_battery_b :: "bytes option"

definition snapshot_ok :: "link_snapshot \<Rightarrow> bool" where
  "snapshot_ok s \<longleftrightarrow> length (ls_pair_sha256 s) = 32 \<and> length (ls_battery_a_sha256 s) = 32 \<and>
     length (ls_battery_b_sha256 s) = 32"

text \<open>The digest takes 22 octets of the 33 of its domain string.\<close>

definition terminal_digest_of :: "link_snapshot \<Rightarrow> bytes" where
  "terminal_digest_of s =
     sha256_finish
       (sha256_update (sha256_update (sha256_update (sha256_update (sha256_update sha256_init
          (take 22 (map of_char ''gb-runtime-fixed-host-terminal-v1'')))
          (put_be64 (ls_frame s))) (ls_pair_sha256 s)) (ls_battery_a_sha256 s)) (ls_battery_b_sha256 s))"

definition terminal_payload :: "link_snapshot \<Rightarrow> bytes" where
  "terminal_payload s = put_be64 (ls_frame s) @ terminal_digest_of s"

definition block_size :: "bytes option \<Rightarrow> nat" where
  "block_size b = (case b of None \<Rightarrow> 0 | Some d \<Rightarrow> length d)"

definition host_result :: "link_snapshot \<Rightarrow> session_result" where
  "host_result s =
     \<lparr>is_host = True, final_frame = ls_frame s, terminal_digest = drop 8 (terminal_payload s),
      candidates = \<lparr>host_data = ls_battery_a s, host_size = block_size (ls_battery_a s),
                     remote_data = ls_battery_b s, remote_size = block_size (ls_battery_b s)\<rparr>\<rparr>"

definition remote_result :: "bytes \<Rightarrow> session_result" where
  "remote_result payload =
     \<lparr>is_host = False, final_frame = get_be64 payload, terminal_digest = take 32 (drop 8 payload),
      candidates = empty_pair\<rparr>"

text \<open>\<open>link_snapshot_free\<close>: the blocks it wipes and frees.\<close>

definition link_snapshot_free :: "link_snapshot \<Rightarrow> bytes list" where
  "link_snapshot_free s =
     map (\<lambda>d. replicate (length d) 0)
       (concat (map (\<lambda>b. case b of None \<Rightarrow> [] | Some d \<Rightarrow> [d])
          [ls_state_a s, ls_state_b s, ls_battery_a s, ls_battery_b s]))"

text \<open>
  Where the result goes: a pipe to the parent (\<open>result_handle\<close>) or a file; the writer is the
  callback. Without either the result is released. The blocks freed and the outcome are returned.
\<close>

datatype channel = NoChannel | HandleChannel | FileChannel bool bool

definition send_result ::
  "channel \<Rightarrow> 'c writer \<Rightarrow> 'c \<Rightarrow> session_result \<Rightarrow> 'c \<times> bytes list \<times> bool" where
  "send_result ch wr ctx res =
     (case ch of
        HandleChannel \<Rightarrow> (case result_ipc_send (Some wr) ctx (Some res) of (ctx', _, freed, ok) \<Rightarrow> (ctx', freed, ok))
      | FileChannel opened closed \<Rightarrow>
          if \<not> opened then (ctx, snd (result_release (Some res)), False)
          else (case result_ipc_send (Some wr) ctx (Some res) of
                  (ctx', _, freed, ok) \<Rightarrow> (ctx', freed, ok \<and> closed))
      | NoChannel \<Rightarrow> (ctx, snd (result_release (Some res)), False))"

datatype finish_step = Acked | Waiting | Aborted

definition finish_poll ::
  "bytes \<Rightarrow> relay_connection \<Rightarrow> wire \<Rightarrow> relay_connection \<times> wire \<times> finish_step" where
  "finish_poll terminal c w =
     (case poll_control GB_TERMINAL_BYTES c w of
        (c', w', got, f) \<Rightarrow>
          (c', w',
           if got < 0 then Aborted
           else case f of
                  None \<Rightarrow> Waiting
                | Some fr \<Rightarrow>
                    if fr_type fr = MSG_GB_TERMINAL_ACK \<and> length (fr_payload fr) = length terminal \<and>
                       fr_payload fr = terminal
                    then Acked else Waiting))"

text \<open>Each turn of the wait: what has arrived since the last, and how the transport moves it.\<close>

fun finish_wait ::
  "bytes \<Rightarrow> (bytes \<times> net list) list \<Rightarrow> relay_connection \<Rightarrow> bytes \<Rightarrow> relay_connection \<times> bytes \<times> bool" where
  "finish_wait terminal [] c arrived = (c, arrived, False)"
| "finish_wait terminal ((more_in, moves) # turns) c arrived =
     (case finish_poll terminal c \<lparr>wr_out = [], wr_in = arrived @ more_in, wr_plan = moves\<rparr> of
        (c', w', Acked) \<Rightarrow> (c', wr_in w', True)
      | (c', w', Waiting) \<Rightarrow> finish_wait terminal turns c' (wr_in w')
      | (c', w', Aborted) \<Rightarrow> (c', wr_in w', False))"

record 'c finish_outcome =
  fo_conn :: relay_connection
  fo_wire :: wire
  fo_sequence :: u32
  fo_context :: 'c
  fo_freed :: "bytes list"
  fo_agreed :: bool

definition finish_host_session ::
  "bool \<Rightarrow> channel \<Rightarrow> link_snapshot option \<Rightarrow> bool \<Rightarrow> (bytes \<times> net list) list \<Rightarrow> 'c writer \<Rightarrow> 'c \<Rightarrow>
     u32 \<Rightarrow> relay_connection \<Rightarrow> wire \<Rightarrow> 'c finish_outcome" where
  "finish_host_session commit ch snap mem turns wr ctx sequence c w =
     (let stop = (\<lambda>c w sequence freed. \<lparr>fo_conn = c, fo_wire = w, fo_sequence = sequence, fo_context = ctx,
                     fo_freed = freed, fo_agreed = False\<rparr>) in
      case snap of
        None \<Rightarrow> stop c w sequence []
      | Some s \<Rightarrow>
          if commit \<and> ch = NoChannel then stop c w sequence []
          else let terminal = terminal_payload s in
            case send_control mem MSG_GB_TERMINAL sequence terminal c w of
              (c1, w1, r) \<Rightarrow>
                if r < 0 then stop c1 w1 (sequence + 1) (link_snapshot_free s)
                else (case finish_wait terminal turns c1 (wr_in w1) of
                        (c2, rest, False) \<Rightarrow> stop c2 (w1\<lparr>wr_in := rest\<rparr>) (sequence + 1) (link_snapshot_free s)
                      | (c2, rest, True) \<Rightarrow>
                          if \<not> commit
                          then \<lparr>fo_conn = c2, fo_wire = w1\<lparr>wr_in := rest\<rparr>, fo_sequence = sequence + 1,
                                fo_context = ctx, fo_freed = link_snapshot_free s, fo_agreed = True\<rparr>
                          else (case send_result ch wr ctx (host_result s) of
                                  (ctx', freed, ok) \<Rightarrow>
                                    \<lparr>fo_conn = c2, fo_wire = w1\<lparr>wr_in := rest\<rparr>, fo_sequence = sequence + 1,
                                     fo_context = ctx',
                                     fo_freed = freed @ link_snapshot_free (s\<lparr>ls_battery_a := None, ls_battery_b := None\<rparr>),
                                     fo_agreed = ok\<rparr>)))"

text \<open>
  The host's loop. \<open>ho_recovery\<close> is the deadline by which the session must resume, 0 for none;
  \<open>ho_config\<close> is the stream configuration sent last. The scheduler is always there.
\<close>

record host =
  ho_product :: product
  ho_scheduler :: scheduler
  ho_local_buttons :: u8
  ho_remote_buttons :: u8
  ho_pending_ack :: bool
  ho_pending_sequence :: u32
  ho_pending_sent :: u64
  ho_sequence :: u32
  ho_recovery :: u64
  ho_config :: bytes
  ho_video_sequence :: u32

datatype host_next = HostGoOn | HostNoMore | HostStopped | HostReconnect

text \<open>Sending the stream configuration again, as an initial one, for a player that is back.\<close>

definition prepare_video_resume ::
  "bool \<Rightarrow> host \<Rightarrow> relay_connection \<Rightarrow> wire \<Rightarrow> host \<times> relay_connection \<times> wire \<times> bool" where
  "prepare_video_resume mem h c w =
     (if ho_config h = [] then (h, c, w, False)
      else case send_media mem MSG_H264_CONFIG 0 (ho_video_sequence h + 1) (ho_config h) c w of
             (c', w', sent) \<Rightarrow> (h\<lparr>ho_video_sequence := ho_video_sequence h + 1\<rparr>, c', w', 0 \<le> sent))"

definition host_session_state ::
  "u64 \<Rightarrow> bool \<Rightarrow> bytes \<Rightarrow> host \<Rightarrow> relay_connection \<Rightarrow> wire \<Rightarrow> host \<times> relay_connection \<times> wire \<times> host_next" where
  "host_session_state ticks mem payload h c w =
     (let state = get_be32 payload; remaining = get_be32 (drop 4 payload) in
      if state = 3 then (h, c, w, HostStopped)
      else
        let h1 = (if state = 1 \<and> ho_recovery h = 0 then h\<lparr>ho_recovery := ticks + ucast remaining\<rparr>
                  else if state = 2 then h\<lparr>ho_recovery := 0\<rparr> else h);
            h2 = h1\<lparr>ho_scheduler := (ho_scheduler h1)\<lparr>paused := (state = 1)\<rparr>, ho_remote_buttons := 0,
                   ho_product := (ho_product h1)\<lparr>pr_buttons := 0\<rparr>\<rparr>
        in if state \<noteq> 2 then (h2, c, w, HostGoOn)
           else case prepare_video_resume mem h2 c w of
                  (h3, c', w', ok) \<Rightarrow> (h3, c', w', if ok then HostGoOn else HostReconnect))"

text \<open>One of the at most 16 messages a turn of the loop takes.\<close>

definition host_message ::
  "u64 \<Rightarrow> bool \<Rightarrow> host \<Rightarrow> relay_connection \<Rightarrow> wire \<Rightarrow> host \<times> relay_connection \<times> wire \<times> host_next" where
  "host_message ticks mem h c w =
     (case poll_control GB_INPUT_ACK_BYTES c w of
        (c1, w1, got, None) \<Rightarrow> (h, c1, w1, if got < 0 then HostReconnect else HostNoMore)
      | (c1, w1, got, Some f) \<Rightarrow>
          if fr_type f = MSG_GB_INPUT
          then (h\<lparr>ho_remote_buttons := ucast (get_be64 (fr_payload f)), ho_pending_ack := True,
                  ho_pending_sequence := fr_sequence f,
                  ho_pending_sent := get_be64 (drop 8 (fr_payload f))\<rparr>, c1, w1, HostGoOn)
          else if fr_type f = MSG_GB_PING
          then (case send_control mem MSG_GB_PONG (ho_sequence h) (fr_payload f) c1 w1 of
                  (c2, w2, _) \<Rightarrow> (h\<lparr>ho_sequence := ho_sequence h + 1\<rparr>, c2, w2, HostGoOn))
          else if fr_type f = MSG_GB_SESSION_STATE \<and> length (fr_payload f) = GB_SESSION_STATE_BYTES
          then host_session_state ticks mem (fr_payload f) h c1 w1
          else (h, c1, w1, HostGoOn))"

fun host_messages ::
  "nat \<Rightarrow> u64 \<Rightarrow> bool \<Rightarrow> host \<Rightarrow> relay_connection \<Rightarrow> wire \<Rightarrow> host \<times> relay_connection \<times> wire \<times> host_next" where
  "host_messages 0 ticks mem h c w = (h, c, w, HostGoOn)"
| "host_messages (Suc n) ticks mem h c w =
     (case host_message ticks mem h c w of
        (h', c', w', HostGoOn) \<Rightarrow> host_messages n ticks mem h' c' w'
      | (h', c', w', HostNoMore) \<Rightarrow> (h', c', w', HostGoOn)
      | stop \<Rightarrow> stop)"

definition input_ack_payload :: "host \<Rightarrow> u64 \<Rightarrow> bytes" where
  "input_ack_payload h frame =
     put_be32 (ho_pending_sequence h) @ [0, 0, 0, 0] @ put_be64 (ho_pending_sent h) @ put_be64 frame"

text \<open>
  The frame of a turn: the buttons the core is run with (None when it is not), and the
  acknowledgement of the input that took effect. \<open>frame\<close> is the core's logical frame after it ran.
\<close>

definition host_frame ::
  "u64 \<Rightarrow> bool \<Rightarrow> host \<Rightarrow> relay_connection \<Rightarrow> wire \<Rightarrow>
     host \<times> relay_connection \<times> wire \<times> (u8 \<times> u8) option \<times> host_next" where
  "host_frame frame mem h c w =
     (case scheduler_frame (Some (ho_scheduler h)) (pr_buttons (ho_product h)) (ho_remote_buttons h) True of
        (Some sched, Some (l, r), True) \<Rightarrow>
          (let h1 = h\<lparr>ho_scheduler := sched, ho_local_buttons := l, ho_remote_buttons := r\<rparr> in
           if paused sched then (h1, c, w, None, HostGoOn)
           else if \<not> ho_pending_ack h1 then (h1, c, w, Some (l, r), HostGoOn)
           else case send_control mem MSG_GB_INPUT_ACK (ho_sequence h1) (input_ack_payload h1 frame) c w of
                  (c', w', sent) \<Rightarrow>
                    (h1\<lparr>ho_sequence := ho_sequence h1 + 1, ho_pending_ack := (\<not> 0 < sent)\<rparr>, c', w', Some (l, r),
                     if sent < 0 then HostReconnect else HostGoOn))
      | _ \<Rightarrow> (h, c, w, None, HostStopped))"

text \<open>After the transport is back.\<close>

definition host_reconnected :: "host \<Rightarrow> host" where
  "host_reconnected h =
     h\<lparr>ho_product := (ho_product h)\<lparr>pr_buttons := 0\<rparr>, ho_recovery := 0,
       ho_scheduler := (ho_scheduler h)\<lparr>paused := False\<rparr>, ho_remote_buttons := 0, ho_pending_ack := False\<rparr>"

text \<open>
  The remote. \<open>pump_remote\<close> takes up to 16 frames from the relay, hands media to the decoders (a
  parameter says whether they take a frame) and stops at a control message, which the loop takes.
\<close>

fun pump_remote ::
  "nat \<Rightarrow> (frame \<Rightarrow> bool) \<Rightarrow> relay_connection \<Rightarrow> wire \<Rightarrow> relay_connection \<times> wire \<times> frame option \<times> bool" where
  "pump_remote 0 decodes c w = (c, w, None, True)"
| "pump_remote (Suc n) decodes c w =
     (case poll_media MAX_H264_FRAME_BYTES c w of
        (c', w', got, None) \<Rightarrow> (c', w', None, 0 \<le> got)
      | (c', w', got, Some f) \<Rightarrow>
          if fr_type f \<in> {MSG_GB_INPUT_ACK, MSG_GB_PONG, MSG_GB_TERMINAL, MSG_GB_SESSION_STATE}
          then (c', w', Some f, True)
          else if \<not> decodes f then (c', w', None, False)
          else pump_remote n decodes c' w')"

record remote =
  rm_product :: product
  rm_sequence :: u32
  rm_last_buttons :: u8
  rm_last_input :: u64
  rm_last_ping :: u64

datatype remote_next = RemoteGoOn | RemoteStopped | RemoteReconnect | RemoteTerminal

definition INPUT_HEARTBEAT_US :: u64 where "INPUT_HEARTBEAT_US = 250000"
definition PING_INTERVAL_US :: u64 where "PING_INTERVAL_US = 1000000"

definition remote_input ::
  "u64 \<Rightarrow> bool \<Rightarrow> remote \<Rightarrow> relay_connection \<Rightarrow> wire \<Rightarrow> remote \<times> relay_connection \<times> wire \<times> bool" where
  "remote_input current mem m c w =
     (let buttons = pr_buttons (rm_product m);
          (product, neutral) = product_take_neutral (rm_product m);
          m1 = m\<lparr>rm_product := product, rm_last_buttons := (if neutral then 0xFF else rm_last_buttons m)\<rparr> in
      if buttons = rm_last_buttons m1 \<and> current - rm_last_input m1 < INPUT_HEARTBEAT_US then (m1, c, w, True)
      else case send_control mem MSG_GB_INPUT (rm_sequence m1) (put_be64 (ucast buttons) @ put_be64 current) c w of
             (c', w', sent) \<Rightarrow>
               let m2 = m1\<lparr>rm_sequence := rm_sequence m1 + 1\<rparr> in
               (if 0 < sent then m2\<lparr>rm_last_buttons := buttons, rm_last_input := current\<rparr> else m2, c', w', 0 \<le> sent))"

definition remote_ping ::
  "u64 \<Rightarrow> bool \<Rightarrow> remote \<Rightarrow> relay_connection \<Rightarrow> wire \<Rightarrow> remote \<times> relay_connection \<times> wire \<times> bool" where
  "remote_ping current mem m c w =
     (if rm_last_ping m \<noteq> 0 \<and> current - rm_last_ping m < PING_INTERVAL_US then (m, c, w, True)
      else case send_control mem MSG_GB_PING (rm_sequence m) (put_be64 current) c w of
             (c', w', sent) \<Rightarrow>
               let m1 = m\<lparr>rm_sequence := rm_sequence m + 1\<rparr> in
               (if 0 < sent then m1\<lparr>rm_last_ping := current\<rparr> else m1, c', w', 0 \<le> sent))"

definition remote_control ::
  "bool \<Rightarrow> channel \<Rightarrow> 'c writer \<Rightarrow> bool \<Rightarrow> frame \<Rightarrow> remote \<Rightarrow> 'c \<Rightarrow> relay_connection \<Rightarrow> wire \<Rightarrow>
     remote \<times> 'c \<times> relay_connection \<times> wire \<times> remote_next" where
  "remote_control commit ch wr mem f m ctx c w =
     (if fr_type f = MSG_GB_SESSION_STATE \<and> length (fr_payload f) = GB_SESSION_STATE_BYTES
      then (m, ctx, c, w, if get_be32 (fr_payload f) = 3 then RemoteStopped else RemoteGoOn)
      else if fr_type f = MSG_GB_TERMINAL \<and> length (fr_payload f) = GB_TERMINAL_BYTES
      then (case send_control mem MSG_GB_TERMINAL_ACK (rm_sequence m) (fr_payload f) c w of
              (c', w', sent) \<Rightarrow>
                let m1 = m\<lparr>rm_sequence := rm_sequence m + 1\<rparr> in
                if sent < 0 then (m1, ctx, c', w', RemoteStopped)
                else if \<not> commit then (m1, ctx, c', w', RemoteTerminal)
                else if ch = NoChannel then (m1, ctx, c', w', RemoteStopped)
                else (case send_result ch wr ctx (remote_result (fr_payload f)) of
                        (ctx', _, ok) \<Rightarrow> (m1, ctx', c', w', if ok then RemoteTerminal else RemoteStopped)))
      else (m, ctx, c, w, RemoteGoOn))"

text \<open>A turn of the remote's loop after its events: input, ping, frames, and the control message.\<close>

definition remote_receive ::
  "bool \<Rightarrow> u64 \<Rightarrow> (frame \<Rightarrow> bool) \<Rightarrow> remote \<Rightarrow> relay_connection \<Rightarrow> wire \<Rightarrow>
     remote \<times> relay_connection \<times> wire \<times> frame option \<times> bool" where
  "remote_receive mem current decodes m c w =
     (case remote_input current mem m c w of
        (m1, c1, w1, False) \<Rightarrow> (m1, c1, w1, None, False)
      | (m1, c1, w1, True) \<Rightarrow>
          (case remote_ping current mem m1 c1 w1 of
             (m2, c2, w2, False) \<Rightarrow> (m2, c2, w2, None, False)
           | (m2, c2, w2, True) \<Rightarrow> (m2, pump_remote 16 decodes c2 w2)))"

definition remote_turn ::
  "bool \<Rightarrow> channel \<Rightarrow> 'c writer \<Rightarrow> bool \<Rightarrow> u64 \<Rightarrow> (frame \<Rightarrow> bool) \<Rightarrow> remote \<Rightarrow> 'c \<Rightarrow> relay_connection \<Rightarrow> wire \<Rightarrow>
     remote \<times> 'c \<times> relay_connection \<times> wire \<times> remote_next" where
  "remote_turn commit ch wr mem current decodes m ctx c w =
     (case remote_receive mem current decodes m c w of
        (m', c', w', _, False) \<Rightarrow> (m', ctx, c', w', RemoteReconnect)
      | (m', c', w', None, True) \<Rightarrow> (m', ctx, c', w', RemoteGoOn)
      | (m', c', w', Some f, True) \<Rightarrow> remote_control commit ch wr mem f m' ctx c' w')"

section \<open>The session\<close>

text \<open>
  Both ends and the octets each way. \<open>se_terminal\<close> is the final state the host has announced,
  \<open>se_answered\<close> the one the remote has acknowledged, \<open>se_agreed\<close> that the host's wait succeeded. The
  relay forwards octets and may add session-state messages between frames.
\<close>

record session =
  se_host :: relay_connection
  se_remote :: relay_connection
  se_down :: bytes
  se_up :: bytes
  se_terminal :: "bytes option"
  se_answered :: "bytes option"
  se_agreed :: bool

definition session_state_frame :: "frame \<Rightarrow> bool" where
  "session_state_frame f \<longleftrightarrow>
     fr_type f = MSG_GB_SESSION_STATE \<and> fr_flags f = 0 \<and> length (fr_payload f) = GB_SESSION_STATE_BYTES"

text \<open>What the remote acknowledges in a turn.\<close>

definition answers :: "frame option \<Rightarrow> bool \<Rightarrow> bytes option \<Rightarrow> bytes option" where
  "answers fo ok old =
     (case fo of
        None \<Rightarrow> old
      | Some f \<Rightarrow>
          if ok \<and> fr_type f = MSG_GB_TERMINAL \<and> length (fr_payload f) = GB_TERMINAL_BYTES
          then Some (fr_payload f) else old)"

inductive session_run :: "session \<Rightarrow> bool" where
  start: "rc_role h = ''host'' \<Longrightarrow> rc_role m = ''remote'' \<Longrightarrow> rc_recv h = [] \<Longrightarrow> rc_recv m = [] \<Longrightarrow>
      rc_send_buffer h = None \<Longrightarrow> rc_send_buffer m = None \<Longrightarrow>
      session_run \<lparr>se_host = h, se_remote = m, se_down = [], se_up = [], se_terminal = None,
        se_answered = None, se_agreed = False\<rparr>"
| media: "session_run s \<Longrightarrow> t \<in> {MSG_H264_CONFIG, MSG_H264_FRAME, MSG_AUDIO} \<Longrightarrow>
      send_media mem t flags n p (se_host s) \<lparr>wr_out = [], wr_in = se_up s, wr_plan = moves\<rparr> = (c, w, r) \<Longrightarrow>
      session_run (s\<lparr>se_host := c, se_down := se_down s @ wr_out w, se_up := wr_in w\<rparr>)"
| frame_ack: "session_run s \<Longrightarrow>
      host_frame frame mem h (se_host s) \<lparr>wr_out = [], wr_in = se_up s, wr_plan = moves\<rparr> = (h', c, w, b, r) \<Longrightarrow>
      session_run (s\<lparr>se_host := c, se_down := se_down s @ wr_out w, se_up := wr_in w\<rparr>)"
| messages: "session_run s \<Longrightarrow> se_terminal s = None \<Longrightarrow>
      host_messages k ticks mem h (se_host s) \<lparr>wr_out = [], wr_in = se_up s, wr_plan = moves\<rparr> = (h', c, w, r) \<Longrightarrow>
      session_run (s\<lparr>se_host := c, se_down := se_down s @ wr_out w, se_up := wr_in w\<rparr>)"
| finish: "session_run s \<Longrightarrow> se_terminal s = None \<Longrightarrow> p = terminal_payload snap \<Longrightarrow>
      send_control mem MSG_GB_TERMINAL n p (se_host s) \<lparr>wr_out = [], wr_in = se_up s, wr_plan = moves\<rparr> = (c, w, r) \<Longrightarrow>
      session_run (s\<lparr>se_host := c, se_down := se_down s @ wr_out w, se_up := wr_in w, se_terminal := Some p\<rparr>)"
| wait: "session_run s \<Longrightarrow> se_terminal s = Some p \<Longrightarrow>
      finish_poll p (se_host s) \<lparr>wr_out = [], wr_in = se_up s, wr_plan = moves\<rparr> = (c, w, step) \<Longrightarrow>
      session_run (s\<lparr>se_host := c, se_down := se_down s @ wr_out w, se_up := wr_in w, se_agreed := (se_agreed s \<or> step = Acked)\<rparr>)"
| turn: "session_run s \<Longrightarrow>
      remote_receive mem current decodes m (se_remote s) \<lparr>wr_out = [], wr_in = se_down s, wr_plan = moves\<rparr> = (m1, c1, w1, fo, ok) \<Longrightarrow>
      remote_turn commit ch (wr :: bytes writer) mem current decodes m ctx (se_remote s)
        \<lparr>wr_out = [], wr_in = se_down s, wr_plan = moves\<rparr> = (m', ctx', c, w, r) \<Longrightarrow>
      session_run (s\<lparr>se_remote := c, se_up := se_up s @ wr_out w, se_down := wr_in w,
        se_answered := answers fo ok (se_answered s)\<rparr>)"
| relay_down: "session_run s \<Longrightarrow> pending_out (se_host s) = [] \<Longrightarrow> session_state_frame f \<Longrightarrow>
      session_run (s\<lparr>se_down := se_down s @ frame_bytes f\<rparr>)"
| relay_up: "session_run s \<Longrightarrow> pending_out (se_remote s) = [] \<Longrightarrow> session_state_frame f \<Longrightarrow>
      session_run (s\<lparr>se_up := se_up s @ frame_bytes f\<rparr>)"

section \<open>What one end's calls do\<close>

text \<open>
  \<open>holds\<close>: what a connection still has to read, followed by what is not its yet, is a row of good
  frames. \<open>progress P\<close>: calls of one end have read some of them and sent frames for which \<open>P\<close> holds.
\<close>

definition holds :: "(frame \<Rightarrow> bool) \<Rightarrow> bytes \<Rightarrow> relay_connection \<Rightarrow> wire \<Rightarrow> frame list \<Rightarrow> bool" where
  "holds ok later c w fs \<longleftrightarrow> rc_recv c @ wr_in w @ later = concat (map frame_bytes fs) \<and> list_all ok fs"

definition progress ::
  "(frame \<Rightarrow> bool) \<Rightarrow> bytes \<Rightarrow> (frame \<Rightarrow> bool) \<Rightarrow> relay_connection \<Rightarrow> wire \<Rightarrow> frame list \<Rightarrow>
     relay_connection \<Rightarrow> wire \<Rightarrow> frame list \<Rightarrow> bool" where
  "progress ok later P c w fs c' w' fs' \<longleftrightarrow>
     holds ok later c' w' fs' \<and> (\<exists>taken. fs = taken @ fs') \<and> rc_role c' = rc_role c \<and>
     (\<exists>new. stream_out c' w' = stream_out c w @ concat (map frame_bytes new) \<and> list_all P new)"

lemma progress_refl: "holds ok later c w fs \<Longrightarrow> progress ok later P c w fs c w fs"
  by (auto simp: progress_def intro: exI [of _ "[]"])

lemma progress_trans [trans]:
  assumes "progress ok later P c w fs c1 w1 fs1" "progress ok later P c1 w1 fs1 c2 w2 fs2"
  shows "progress ok later P c w fs c2 w2 fs2"
proof -
  obtain t1 n1 t2 n2 where "fs = t1 @ fs1" "fs1 = t2 @ fs2" "list_all P n1" "list_all P n2"
      "stream_out c1 w1 = stream_out c w @ concat (map frame_bytes n1)"
      "stream_out c2 w2 = stream_out c1 w1 @ concat (map frame_bytes n2)"
    using assms by (auto simp: progress_def)
  then show ?thesis
    using assms by (auto simp: progress_def intro!: exI [of _ "t1 @ t2"] exI [of _ "n1 @ n2"])
qed

lemma progress_set: "progress ok later P c w fs c' w' fs' \<Longrightarrow> set fs' \<subseteq> set fs"
  by (auto simp: progress_def)

lemma progress_holds: "progress ok later P c w fs c' w' fs' \<Longrightarrow> holds ok later c' w' fs'"
  by (simp add: progress_def)

lemma progress_weaken:
  "progress ok later P c w fs c' w' fs' \<Longrightarrow> (\<And>f. P f \<Longrightarrow> Q f) \<Longrightarrow> progress ok later Q c w fs c' w' fs'"
  by (auto simp: progress_def list_all_iff)

lemma progress_sent:
  assumes "sent_result f c w (c', w', r)" "holds ok later c w fs"
    and "stream_out c' w' \<noteq> stream_out c w \<Longrightarrow> P f"
  shows "progress ok later P c w fs c' w' fs"
proof -
  have same: "rc_recv c' = rc_recv c" "rc_role c' = rc_role c" "wr_in w' = wr_in w"
    using assms(1) by (auto simp: sent_result_def same_but_send_def)
  have "\<exists>new. stream_out c' w' = stream_out c w @ concat (map frame_bytes new) \<and> list_all P new"
  proof (cases "stream_out c' w' = stream_out c w")
    case True
    then show ?thesis by (intro exI [of _ "[]"]) simp
  next
    case False
    then show ?thesis using assms(1,3) by (intro exI [of _ "[f]"]) (auto simp: sent_result_def)
  qed
  then show ?thesis using same assms(2) by (auto simp: progress_def holds_def)
qed

text \<open>What the senders put on the wire.\<close>

definition host_sends :: "frame \<Rightarrow> bool" where
  "host_sends f \<longleftrightarrow> media_ok MAX_H264_FRAME_BYTES f \<and> fr_type f \<noteq> MSG_GB_TERMINAL"

definition remote_sends :: "frame \<Rightarrow> bool" where
  "remote_sends f \<longleftrightarrow> control_ok ''host'' GB_TERMINAL_BYTES f \<and> fr_type f \<noteq> MSG_GB_TERMINAL_ACK"

lemma send_control_progress:
  assumes "send_control mem t n p c w = (c', w', r)" "holds ok later c w fs"
    and "control_payload_size_for_role c t = length p \<Longrightarrow> p \<noteq> [] \<Longrightarrow>
      P \<lparr>fr_type = t, fr_flags = 0, fr_sequence = n, fr_payload = p\<rparr>"
  shows "progress ok later P c w fs c' w' fs"
proof (rule progress_sent [OF send_control_result(1) [OF assms(1)] assms(2)])
  assume "stream_out c' w' \<noteq> stream_out c w"
  then have "control_payload_size_for_role c t = length p" "p \<noteq> []"
    using assms(1) by (auto simp: send_control_def Let_def split: if_splits)
  then show "P \<lparr>fr_type = t, fr_flags = 0, fr_sequence = n, fr_payload = p\<rparr>" by (rule assms(3))
qed

lemma send_media_progress:
  assumes "send_media mem t flags n p c w = (c', w', r)" "holds ok later c w fs" "t \<noteq> MSG_GB_TERMINAL"
  shows "progress ok later host_sends c w fs c' w' fs"
proof (rule progress_sent [OF _ assms(2)])
  show "sent_result \<lparr>fr_type = t, fr_flags = flags, fr_sequence = n, fr_payload = p\<rparr> c w (c', w', r)"
    using send_media_result [of t flags n p c w mem] assms(1) by simp
  assume "stream_out c' w' \<noteq> stream_out c w"
  then have "media_maximum t flags \<noteq> 0" "length p \<le> media_maximum t flags"
    using assms(1) by (auto simp: send_media_def split: if_splits)
  then show "host_sends \<lparr>fr_type = t, fr_flags = flags, fr_sequence = n, fr_payload = p\<rparr>"
    using media_maximum_bound [of t flags] assms(3)
    by (simp add: host_sends_def media_ok_def frame_ok_def media_poll_maximum_def MAX_H264_FRAME_BYTES_def)
qed

lemma host_control_sends:
  assumes "rc_role c = ''host''" "control_payload_size_for_role c t = length p" "p \<noteq> []" "t \<noteq> MSG_GB_TERMINAL"
  shows "host_sends \<lparr>fr_type = t, fr_flags = 0, fr_sequence = n, fr_payload = p\<rparr>"
  using control_frame_ok [OF assms(1-3) order.refl] assms(4) by (simp add: host_sends_def)

lemma remote_control_frame_ok:
  assumes "rc_role c = ''remote''" "control_payload_size_for_role c t = length p" "p \<noteq> []"
  shows "control_ok ''host'' GB_TERMINAL_BYTES \<lparr>fr_type = t, fr_flags = 0, fr_sequence = n, fr_payload = p\<rparr>"
  using assms
  by (auto simp: control_ok_def frame_ok_def control_payload_size_for_role_def control_expected_def
      message_types message_sizes split: if_splits)

text \<open>The polls.\<close>

lemma pending_out_recv [simp]: "pending_out (c\<lparr>rc_recv := b\<rparr>) = pending_out c"
  by (cases c) (simp add: pending_out_def split: option.split)

context framing
begin

lemma poll_frames_progress:
  assumes "poll_frames parse c w = (c', w', r, got)" "holds ok later c w fs"
  shows "\<exists>fs'. progress ok later P c w fs c' w' fs' \<and> (case got of None \<Rightarrow> True | Some f \<Rightarrow> f \<in> set fs)"
proof -
  have h: "rc_recv c @ wr_in w @ later = concat (map frame_bytes fs)" "list_all ok fs"
    using assms(2) by (simp_all add: holds_def)
  note step = poll_frames_next [OF assms(1) h]
  have c': "c' = c\<lparr>rc_recv := rc_recv c'\<rparr>" using step by blast
  have role: "rc_role c' = rc_role c" "pending_out c' = pending_out c"
    using arg_cong [OF c', of rc_role] arg_cong [OF c', of pending_out] by simp_all
  then have out: "stream_out c' w' = stream_out c w" using step by (simp add: stream_out_def)
  show ?thesis
  proof (cases got)
    case None
    then have "progress ok later P c w fs c' w' fs"
      using step h role out by (auto simp: progress_def holds_def intro: exI [of _ "[]"])
    then show ?thesis using None by auto
  next
    case (Some f)
    then obtain fs' where fs': "fs = f # fs'" "rc_recv c' @ wr_in w' @ later = concat (map frame_bytes fs')"
      using step by auto
    then have "progress ok later P c w fs c' w' fs'"
      using h role out by (auto simp: progress_def holds_def intro: exI [of _ "[]"])
    then show ?thesis using Some fs'(1) by auto
  qed
qed

end

lemma poll_control_progress:
  assumes "poll_control capacity c w = (c', w', r, got)" "holds (control_ok role capacity) later c w fs" "rc_role c = role"
  shows "\<exists>fs'. progress (control_ok role capacity) later P c w fs c' w' fs' \<and>
    (case got of None \<Rightarrow> True | Some f \<Rightarrow> f \<in> set fs)"
proof (cases "rc_paired c")
  case False
  then show ?thesis using assms progress_refl [of "control_ok role capacity" later c w fs P] by (auto simp: poll_control_def)
next
  case True
  then have "poll_frames (control_parse role capacity) c w = (c', w', r, got)"
    using assms(1,3) by (simp add: poll_control_def)
  from control.poll_frames_progress [OF this assms(2)] show ?thesis .
qed

lemma poll_media_progress:
  assumes "poll_media capacity c w = (c', w', r, got)" "holds (media_ok capacity) later c w fs"
  shows "\<exists>fs'. progress (media_ok capacity) later P c w fs c' w' fs' \<and>
    (case got of None \<Rightarrow> True | Some f \<Rightarrow> f \<in> set fs)"
proof (cases "rc_paired c \<and> rc_role c = ''remote''")
  case False
  then show ?thesis
    using assms progress_refl [of "media_ok capacity" later c w fs P] by (auto simp: poll_media_def split: if_splits)
next
  case True
  then have "poll_frames (media_parse capacity) c w = (c', w', r, got)"
    using assms(1) by (simp add: poll_media_def)
  from media.poll_frames_progress [OF this assms(2)] show ?thesis .
qed

lemma pump_remote_progress:
  "pump_remote n decodes c w = (c', w', got, ok) \<Longrightarrow> holds (media_ok MAX_H264_FRAME_BYTES) later c w fs \<Longrightarrow>
     \<exists>fs'. progress (media_ok MAX_H264_FRAME_BYTES) later P c w fs c' w' fs' \<and>
       (case got of None \<Rightarrow> True | Some f \<Rightarrow> f \<in> set fs)"
proof (induction n arbitrary: c w fs)
  case 0
  then show ?case using progress_refl by fastforce
next
  case (Suc n)
  obtain c1 w1 r f where p: "poll_media MAX_H264_FRAME_BYTES c w = (c1, w1, r, f)"
    by (cases "poll_media MAX_H264_FRAME_BYTES c w") auto
  obtain fs1 where fs1: "progress (media_ok MAX_H264_FRAME_BYTES) later P c w fs c1 w1 fs1"
      "case f of None \<Rightarrow> True | Some f \<Rightarrow> f \<in> set fs"
    using poll_media_progress [OF p Suc.prems(2)] by blast
  show ?case
  proof (cases "\<exists>g. f = Some g \<and> fr_type g \<notin> {MSG_GB_INPUT_ACK, MSG_GB_PONG, MSG_GB_TERMINAL, MSG_GB_SESSION_STATE} \<and> decodes g")
    case True
    then have "pump_remote n decodes c1 w1 = (c', w', got, ok)" using Suc.prems(1) p by auto
    from Suc.IH [OF this progress_holds [OF fs1(1)]]
    show ?thesis using fs1(1) progress_trans progress_set by (fastforce split: option.splits)
  next
    case False
    then show ?thesis using Suc.prems(1) p fs1 by (auto split: option.splits if_splits)
  qed
qed

lemma remote_send_progress:
  assumes "send_control mem t n p c w = (c', w', r)" "holds ok later c w fs" "rc_role c = ''remote''" "t \<noteq> MSG_GB_TERMINAL_ACK"
  shows "progress ok later remote_sends c w fs c' w' fs"
  by (rule send_control_progress [OF assms(1,2)])
    (use remote_control_frame_ok [OF assms(3)] assms(4) in \<open>simp add: remote_sends_def\<close>)

lemma remote_input_progress:
  assumes "remote_input current mem m c w = (m', c', w', r)" "holds ok later c w fs" "rc_role c = ''remote''"
  shows "progress ok later remote_sends c w fs c' w' fs"
  using assms remote_send_progress [OF _ assms(2,3), of mem MSG_GB_INPUT] progress_refl [OF assms(2)]
  by (auto simp: remote_input_def Let_def message_types split: prod.splits if_splits)

lemma remote_ping_progress:
  assumes "remote_ping current mem m c w = (m', c', w', r)" "holds ok later c w fs" "rc_role c = ''remote''"
  shows "progress ok later remote_sends c w fs c' w' fs"
  using assms remote_send_progress [OF _ assms(2,3), of mem MSG_GB_PING] progress_refl [OF assms(2)]
  by (auto simp: remote_ping_def Let_def message_types split: prod.splits if_splits)

lemma progress_role: "progress ok later P c w fs c' w' fs' \<Longrightarrow> rc_role c' = rc_role c"
  by (simp add: progress_def)

lemma remote_receive_progress:
  assumes "remote_receive mem current decodes m c w = (m', c', w', got, ok)"
    "holds (media_ok MAX_H264_FRAME_BYTES) later c w fs" "rc_role c = ''remote''"
  shows "\<exists>fs'. progress (media_ok MAX_H264_FRAME_BYTES) later remote_sends c w fs c' w' fs' \<and>
    (case got of None \<Rightarrow> True | Some f \<Rightarrow> f \<in> set fs)"
proof -
  obtain m1 c1 w1 ok1 where i: "remote_input current mem m c w = (m1, c1, w1, ok1)"
    by (cases "remote_input current mem m c w") auto
  note p1 = remote_input_progress [OF i assms(2,3)]
  have r1: "rc_role c1 = ''remote''" using progress_role [OF p1] assms(3) by simp
  obtain m2 c2 w2 ok2 where pg: "remote_ping current mem m1 c1 w1 = (m2, c2, w2, ok2)"
    by (cases "remote_ping current mem m1 c1 w1") auto
  note p2 = remote_ping_progress [OF pg progress_holds [OF p1] r1]
  obtain c3 w3 f ok3 where pr: "pump_remote 16 decodes c2 w2 = (c3, w3, f, ok3)"
    by (cases "pump_remote 16 decodes c2 w2") auto
  obtain fs3 where p3: "progress (media_ok MAX_H264_FRAME_BYTES) later remote_sends c2 w2 fs c3 w3 fs3"
      "case f of None \<Rightarrow> True | Some f \<Rightarrow> f \<in> set fs"
    using pump_remote_progress [OF pr progress_holds [OF p2]] by blast
  show ?thesis
    using assms(1) i pg pr p1 progress_trans [OF p1 p2] progress_trans [OF progress_trans [OF p1 p2] p3(1)] p3(2)
    by (cases ok1; cases ok2) (auto simp: remote_receive_def)
qed

lemma remote_control_progress:
  assumes "remote_control commit ch wr mem f m ctx c w = (m', ctx', c', w', r)" "holds ok later c w fs"
    "rc_role c = ''remote''"
  shows "progress ok later (\<lambda>g. control_ok ''host'' GB_TERMINAL_BYTES g \<and> fr_type f = MSG_GB_TERMINAL \<and>
      length (fr_payload f) = GB_TERMINAL_BYTES \<and> fr_payload g = fr_payload f) c w fs c' w' fs"
    (is "progress _ _ ?P _ _ _ _ _ _")
proof (cases "fr_type f = MSG_GB_TERMINAL \<and> length (fr_payload f) = GB_TERMINAL_BYTES")
  case True
  obtain c1 w1 x where s: "send_control mem MSG_GB_TERMINAL_ACK (rm_sequence m) (fr_payload f) c w = (c1, w1, x)"
    by (cases "send_control mem MSG_GB_TERMINAL_ACK (rm_sequence m) (fr_payload f) c w") auto
  have "c' = c1 \<and> w' = w1"
    using assms(1) True s
    by (auto simp: remote_control_def message_types message_sizes Let_def split: if_splits prod.splits)
  moreover have "progress ok later ?P c w fs c1 w1 fs"
    by (rule send_control_progress [OF s assms(2)]) (use remote_control_frame_ok [OF assms(3)] True in simp)
  ultimately show ?thesis by simp
next
  case False
  then have "c' = c \<and> w' = w" using assms(1) by (auto simp: remote_control_def split: if_splits)
  then show ?thesis using progress_refl [OF assms(2)] by auto
qed

lemma host_send_progress:
  assumes "send_control mem t n p c w = (c', w', r)" "holds ok later c w fs" "rc_role c = ''host''" "t \<noteq> MSG_GB_TERMINAL"
  shows "progress ok later host_sends c w fs c' w' fs"
  by (rule send_control_progress [OF assms(1,2)]) (rule host_control_sends [OF assms(3) _ _ assms(4)])

lemma host_frame_progress:
  assumes "host_frame frame mem h c w = (h', c', w', b, r)" "holds ok later c w fs" "rc_role c = ''host''"
  shows "progress ok later host_sends c w fs c' w' fs"
  using assms host_send_progress [OF _ assms(2,3), of mem MSG_GB_INPUT_ACK] progress_refl [OF assms(2)]
  by (auto simp: host_frame_def Let_def message_types split: prod.splits option.splits bool.splits if_splits)

lemma host_session_state_progress:
  assumes "host_session_state ticks mem p h c w = (h', c', w', r)" "holds ok later c w fs"
  shows "progress ok later host_sends c w fs c' w' fs"
  using assms send_media_progress [OF _ assms(2), of mem MSG_H264_CONFIG 0] progress_refl [OF assms(2)]
  by (auto simp: host_session_state_def prepare_video_resume_def Let_def message_types split: prod.splits if_splits)

lemma host_message_progress:
  assumes "host_message ticks mem h c w = (h', c', w', r)" "holds (control_ok ''host'' GB_INPUT_ACK_BYTES) later c w fs"
    "rc_role c = ''host''"
  shows "\<exists>fs'. progress (control_ok ''host'' GB_INPUT_ACK_BYTES) later host_sends c w fs c' w' fs'"
proof -
  obtain c1 w1 x f where p: "poll_control GB_INPUT_ACK_BYTES c w = (c1, w1, x, f)"
    by (cases "poll_control GB_INPUT_ACK_BYTES c w") auto
  obtain fs1 where p1: "progress (control_ok ''host'' GB_INPUT_ACK_BYTES) later host_sends c w fs c1 w1 fs1"
    using poll_control_progress [OF p assms(2,3)] by blast
  have role: "rc_role c1 = ''host''" using progress_role [OF p1] assms(3) by simp
  have "progress (control_ok ''host'' GB_INPUT_ACK_BYTES) later host_sends c1 w1 fs1 c' w' fs1"
  proof (cases f)
    case None
    then show ?thesis using assms(1) p progress_refl [OF progress_holds [OF p1]] by (auto simp: host_message_def)
  next
    case (Some g)
    consider "fr_type g = MSG_GB_PING" | "fr_type g \<noteq> MSG_GB_INPUT" "fr_type g \<noteq> MSG_GB_PING" "fr_type g = MSG_GB_SESSION_STATE \<and> length (fr_payload g) = GB_SESSION_STATE_BYTES"
      | "c' = c1 \<and> w' = w1"
      using assms(1) p Some by (auto simp: host_message_def split: if_splits)
    then show ?thesis
    proof cases
      case 1
      obtain c2 w2 y where s: "send_control mem MSG_GB_PONG (ho_sequence h) (fr_payload g) c1 w1 = (c2, w2, y)"
        by (cases "send_control mem MSG_GB_PONG (ho_sequence h) (fr_payload g) c1 w1") auto
      then have "c' = c2 \<and> w' = w2" using assms(1) p Some 1 by (auto simp: host_message_def message_types)
      then show ?thesis using host_send_progress [OF s progress_holds [OF p1] role] by (simp add: message_types)
    next
      case 2
      then have "host_session_state ticks mem (fr_payload g) h c1 w1 = (h', c', w', r)"
        using assms(1) p Some by (simp add: host_message_def)
      then show ?thesis by (rule host_session_state_progress [OF _ progress_holds [OF p1]])
    next
      case 3
      then show ?thesis using progress_refl [OF progress_holds [OF p1]] by simp
    qed
  qed
  with p1 show ?thesis using progress_trans by blast
qed

lemma host_messages_progress:
  "host_messages n ticks mem h c w = (h', c', w', r) \<Longrightarrow>
     holds (control_ok ''host'' GB_INPUT_ACK_BYTES) later c w fs \<Longrightarrow> rc_role c = ''host'' \<Longrightarrow>
     \<exists>fs'. progress (control_ok ''host'' GB_INPUT_ACK_BYTES) later host_sends c w fs c' w' fs'"
proof (induction n arbitrary: h c w fs)
  case 0
  then show ?case using progress_refl by fastforce
next
  case (Suc n)
  obtain h1 c1 w1 x where m: "host_message ticks mem h c w = (h1, c1, w1, x)"
    by (cases "host_message ticks mem h c w") auto
  obtain fs1 where p1: "progress (control_ok ''host'' GB_INPUT_ACK_BYTES) later host_sends c w fs c1 w1 fs1"
    using host_message_progress [OF m Suc.prems(2,3)] by blast
  show ?case
  proof (cases "x = HostGoOn")
    case True
    then have "host_messages n ticks mem h1 c1 w1 = (h', c', w', r)" using Suc.prems(1) m by simp
    from Suc.IH [OF this progress_holds [OF p1]] show ?thesis
      using progress_role [OF p1] Suc.prems(3) progress_trans [OF p1] by auto
  next
    case False
    then show ?thesis using Suc.prems(1) m p1 by (cases x) auto
  qed
qed

section \<open>The invariant of a session\<close>

definition wires_ok :: "session \<Rightarrow> frame list \<Rightarrow> frame list \<Rightarrow> bool" where
  "wires_ok s ds us \<longleftrightarrow>
     rc_role (se_host s) = ''host'' \<and> rc_role (se_remote s) = ''remote'' \<and>
     rc_recv (se_remote s) @ se_down s @ pending_out (se_host s) = concat (map frame_bytes ds) \<and>
     list_all (media_ok MAX_H264_FRAME_BYTES) ds \<and>
     rc_recv (se_host s) @ se_up s @ pending_out (se_remote s) = concat (map frame_bytes us) \<and>
     list_all (control_ok ''host'' GB_TERMINAL_BYTES) us"

definition session_inv :: "session \<Rightarrow> frame list \<Rightarrow> frame list \<Rightarrow> bool" where
  "session_inv s ds us \<longleftrightarrow> wires_ok s ds us \<and>
     (\<forall>f \<in> set ds. fr_type f = MSG_GB_TERMINAL \<longrightarrow> se_terminal s = Some (fr_payload f)) \<and>
     (\<forall>f \<in> set us. fr_type f = MSG_GB_TERMINAL_ACK \<longrightarrow> se_answered s = Some (fr_payload f)) \<and>
     (se_answered s \<noteq> None \<longrightarrow> se_terminal s = se_answered s) \<and>
     (se_agreed s \<longrightarrow> se_answered s \<noteq> None)"

lemma host_wires:
  assumes "wires_ok s ds us" "progress ok (pending_out (se_remote s)) P (se_host s) \<lparr>wr_out = [], wr_in = se_up s, wr_plan = moves\<rparr> us c w us'"
    and "\<And>f. P f \<Longrightarrow> media_ok MAX_H264_FRAME_BYTES f"
  shows "\<exists>new. list_all P new \<and> set us' \<subseteq> set us \<and>
    wires_ok (s\<lparr>se_host := c, se_down := se_down s @ wr_out w, se_up := wr_in w\<rparr>) (ds @ new) us'"
proof -
  obtain new where new: "wr_out w @ pending_out c = pending_out (se_host s) @ concat (map frame_bytes new)" "list_all P new"
    using assms(2) by (auto simp: progress_def stream_out_def)
  have sub: "set us' \<subseteq> set us" by (rule progress_set [OF assms(2)])
  have "rc_recv (se_remote s) @ se_down s @ wr_out w @ pending_out c =
      (rc_recv (se_remote s) @ se_down s @ pending_out (se_host s)) @ concat (map frame_bytes new)"
    using new(1) by simp
  moreover have "list_all (control_ok ''host'' GB_TERMINAL_BYTES) us'"
    using assms(1) sub by (auto simp: wires_ok_def list_all_iff)
  moreover have "list_all (media_ok MAX_H264_FRAME_BYTES) new" using new(2) assms(3) by (auto simp: list_all_iff)
  ultimately have "wires_ok (s\<lparr>se_host := c, se_down := se_down s @ wr_out w, se_up := wr_in w\<rparr>) (ds @ new) us'"
    using assms(1,2) by (simp add: wires_ok_def progress_def holds_def)
  then show ?thesis using new(2) sub by blast
qed

lemma remote_wires:
  assumes "wires_ok s ds us" "progress ok (pending_out (se_host s)) P (se_remote s) \<lparr>wr_out = [], wr_in = se_down s, wr_plan = moves\<rparr> ds c w ds'"
    and "\<And>f. P f \<Longrightarrow> control_ok ''host'' GB_TERMINAL_BYTES f"
  shows "\<exists>new. list_all P new \<and> set ds' \<subseteq> set ds \<and>
    wires_ok (s\<lparr>se_remote := c, se_up := se_up s @ wr_out w, se_down := wr_in w\<rparr>) ds' (us @ new)"
proof -
  obtain new where new: "wr_out w @ pending_out c = pending_out (se_remote s) @ concat (map frame_bytes new)" "list_all P new"
    using assms(2) by (auto simp: progress_def stream_out_def)
  have sub: "set ds' \<subseteq> set ds" by (rule progress_set [OF assms(2)])
  have "rc_recv (se_host s) @ se_up s @ wr_out w @ pending_out c =
      (rc_recv (se_host s) @ se_up s @ pending_out (se_remote s)) @ concat (map frame_bytes new)"
    using new(1) by simp
  moreover have "list_all (media_ok MAX_H264_FRAME_BYTES) ds'"
    using assms(1) sub by (auto simp: wires_ok_def list_all_iff)
  moreover have "list_all (control_ok ''host'' GB_TERMINAL_BYTES) new" using new(2) assms(3) by (auto simp: list_all_iff)
  ultimately have "wires_ok (s\<lparr>se_remote := c, se_up := se_up s @ wr_out w, se_down := wr_in w\<rparr>) ds' (us @ new)"
    using assms(1,2) by (simp add: wires_ok_def progress_def holds_def)
  then show ?thesis using new(2) sub by blast
qed

text \<open>A whole turn of the remote: it acknowledges nothing but a terminal message it has just read.\<close>

definition turn_sends :: "frame option \<Rightarrow> bool \<Rightarrow> frame \<Rightarrow> bool" where
  "turn_sends fo ok g \<longleftrightarrow> control_ok ''host'' GB_TERMINAL_BYTES g \<and>
     (fr_type g = MSG_GB_TERMINAL_ACK \<longrightarrow> answers fo ok None = Some (fr_payload g))"

lemma remote_turn_progress:
  assumes "remote_receive mem current decodes m c w = (m1, c1, w1, fo, ok)"
    and "remote_turn commit ch wr mem current decodes m ctx c w = (m', ctx', c', w', r)"
    and "holds (media_ok MAX_H264_FRAME_BYTES) later c w fs" "rc_role c = ''remote''"
  shows "\<exists>fs'. progress (media_ok MAX_H264_FRAME_BYTES) later (turn_sends fo ok) c w fs c' w' fs'" (is ?p)
    and "fo = Some f \<Longrightarrow> f \<in> set fs"
proof -
  obtain fs1 where p1: "progress (media_ok MAX_H264_FRAME_BYTES) later remote_sends c w fs c1 w1 fs1"
      "case fo of None \<Rightarrow> True | Some f \<Rightarrow> f \<in> set fs"
    using remote_receive_progress [OF assms(1,3,4)] by blast
  show "fo = Some f \<Longrightarrow> f \<in> set fs" using p1(2) by simp
  have first: "progress (media_ok MAX_H264_FRAME_BYTES) later (turn_sends fo ok) c w fs c1 w1 fs1"
    by (rule progress_weaken [OF p1(1)]) (simp add: remote_sends_def turn_sends_def)
  show ?p
  proof (cases "ok \<and> fo \<noteq> None")
    case False
    then have "c' = c1 \<and> w' = w1" using assms(1,2) by (auto simp: remote_turn_def split: bool.splits option.splits)
    then show ?thesis using first by auto
  next
    case True
    then obtain f where f: "fo = Some f" "ok" by auto
    have "remote_control commit ch wr mem f m1 ctx c1 w1 = (m', ctx', c', w', r)"
      using assms(1,2) f by (simp add: remote_turn_def)
    from remote_control_progress [OF this progress_holds [OF p1(1)]] progress_role [OF p1(1)] assms(4)
    have "progress (media_ok MAX_H264_FRAME_BYTES) later (\<lambda>g. control_ok ''host'' GB_TERMINAL_BYTES g \<and>
        fr_type f = MSG_GB_TERMINAL \<and> length (fr_payload f) = GB_TERMINAL_BYTES \<and> fr_payload g = fr_payload f) c1 w1 fs1 c' w' fs1"
      by simp
    then have "progress (media_ok MAX_H264_FRAME_BYTES) later (turn_sends fo ok) c1 w1 fs1 c' w' fs1"
      by (rule progress_weaken) (simp add: turn_sends_def answers_def f)
    then show ?thesis using progress_trans [OF first] by blast
  qed
qed

lemma finish_poll_acked:
  assumes "finish_poll p c w = (c', w', step)" "holds (control_ok ''host'' GB_TERMINAL_BYTES) later c w fs" "rc_role c = ''host''"
  shows "\<exists>fs'. progress (control_ok ''host'' GB_TERMINAL_BYTES) later (\<lambda>_. False) c w fs c' w' fs'"
    and "step = Acked \<Longrightarrow> \<exists>f \<in> set fs. fr_type f = MSG_GB_TERMINAL_ACK \<and> fr_payload f = p"
proof -
  obtain x f where p: "poll_control GB_TERMINAL_BYTES c w = (c', w', x, f)"
    using assms(1) by (auto simp: finish_poll_def split: prod.splits)
  obtain fs' where fs': "progress (control_ok ''host'' GB_TERMINAL_BYTES) later (\<lambda>_. False) c w fs c' w' fs'"
      "case f of None \<Rightarrow> True | Some f \<Rightarrow> f \<in> set fs"
    using poll_control_progress [OF p assms(2,3)] by blast
  then show "\<exists>fs'. progress (control_ok ''host'' GB_TERMINAL_BYTES) later (\<lambda>_. False) c w fs c' w' fs'" by blast
  show "step = Acked \<Longrightarrow> \<exists>f \<in> set fs. fr_type f = MSG_GB_TERMINAL_ACK \<and> fr_payload f = p"
    using assms(1) p fs'(2) by (auto simp: finish_poll_def split: if_splits option.splits)
qed

lemma holds_host:
  assumes "wires_ok s ds us"
  shows "holds (control_ok ''host'' GB_TERMINAL_BYTES) (pending_out (se_remote s)) (se_host s)
      \<lparr>wr_out = [], wr_in = se_up s, wr_plan = moves\<rparr> us"
    "holds (media_ok MAX_H264_FRAME_BYTES) (pending_out (se_host s)) (se_remote s)
      \<lparr>wr_out = [], wr_in = se_down s, wr_plan = moves\<rparr> ds"
  using assms by (simp_all add: wires_ok_def holds_def)

lemma small_controls:
  assumes "control_ok ''host'' GB_TERMINAL_BYTES f" "fr_type f \<noteq> MSG_GB_TERMINAL_ACK"
  shows "control_ok ''host'' GB_INPUT_ACK_BYTES f"
  using assms
  by (auto simp: control_ok_def frame_ok_def control_expected_def message_types message_sizes split: if_splits)

lemma session_inv_host:
  assumes "session_inv s ds us"
    and "progress ok (pending_out (se_remote s)) P (se_host s) \<lparr>wr_out = [], wr_in = se_up s, wr_plan = moves\<rparr> us c w us'"
    and "\<And>f. P f \<Longrightarrow> media_ok MAX_H264_FRAME_BYTES f \<and> (fr_type f = MSG_GB_TERMINAL \<longrightarrow> T = Some (fr_payload f))"
    and "T = se_terminal s \<or> se_terminal s = None"
    and "A \<Longrightarrow> se_answered s \<noteq> None"
  shows "\<exists>ds' us'. session_inv (s\<lparr>se_host := c, se_down := se_down s @ wr_out w, se_up := wr_in w,
      se_terminal := T, se_agreed := A\<rparr>) ds' us'"
proof -
  have wires: "wires_ok s ds us" using assms(1) by (simp add: session_inv_def)
  obtain new where new: "list_all P new" "set us' \<subseteq> set us"
      "wires_ok (s\<lparr>se_host := c, se_down := se_down s @ wr_out w, se_up := wr_in w\<rparr>) (ds @ new) us'"
    using host_wires [OF wires assms(2)] assms(3) by blast
  have "session_inv (s\<lparr>se_host := c, se_down := se_down s @ wr_out w, se_up := wr_in w,
      se_terminal := T, se_agreed := A\<rparr>) (ds @ new) us'"
    unfolding session_inv_def
  proof (intro conjI)
    show "wires_ok (s\<lparr>se_host := c, se_down := se_down s @ wr_out w, se_up := wr_in w, se_terminal := T, se_agreed := A\<rparr>) (ds @ new) us'"
      using new(3) by (simp add: wires_ok_def)
  qed (use assms(1,3,4,5) new(1,2) in \<open>auto simp: session_inv_def list_all_iff\<close>)
  then show ?thesis by blast
qed

lemma session_inv_sends:
  assumes "session_inv s ds us"
    and "progress ok (pending_out (se_remote s)) host_sends (se_host s) \<lparr>wr_out = [], wr_in = se_up s, wr_plan = moves\<rparr> us c w us'"
  shows "\<exists>ds' us'. session_inv (s\<lparr>se_host := c, se_down := se_down s @ wr_out w, se_up := wr_in w\<rparr>) ds' us'"
proof -
  have "se_agreed s \<Longrightarrow> se_answered s \<noteq> None" using assms(1) by (auto simp: session_inv_def)
  from session_inv_host [OF assms, of "se_terminal s" "se_agreed s"] this show ?thesis
    by (simp add: host_sends_def)
qed

lemma media_ok_terminal:
  assumes "rc_role c = ''host''" "control_payload_size_for_role c MSG_GB_TERMINAL = length p" "p \<noteq> []"
  shows "media_ok MAX_H264_FRAME_BYTES \<lparr>fr_type = MSG_GB_TERMINAL, fr_flags = 0, fr_sequence = n, fr_payload = p\<rparr>"
  by (rule control_frame_ok [OF assms order.refl])

lemma session_run_inv: "session_run s \<Longrightarrow> \<exists>ds us. session_inv s ds us"
proof (induction rule: session_run.induct)
  case (start h m)
  then show ?case
    by (intro exI [of _ "[]"]) (simp add: session_inv_def wires_ok_def pending_out_def)
next
  case (media s t mem flags n p moves c w r)
  then obtain ds us where inv: "session_inv s ds us" by blast
  then have wires: "wires_ok s ds us" by (simp add: session_inv_def)
  have "t \<noteq> MSG_GB_TERMINAL" using media.hyps(2) by (auto simp: message_types)
  from send_media_progress [OF media.hyps(3) holds_host(1) [OF wires] this]
  show ?case by (rule session_inv_sends [OF inv])
next
  case (frame_ack s frame mem h moves h' c w b r)
  then obtain ds us where inv: "session_inv s ds us" by blast
  then have wires: "wires_ok s ds us" and role: "rc_role (se_host s) = ''host''"
    by (simp_all add: session_inv_def wires_ok_def)
  from host_frame_progress [OF frame_ack.hyps(2) holds_host(1) [OF wires] role]
  show ?case by (rule session_inv_sends [OF inv])
next
  case (messages s k ticks mem h moves h' c w r)
  then obtain ds us where inv: "session_inv s ds us" by blast
  then have wires: "wires_ok s ds us" and role: "rc_role (se_host s) = ''host''"
    by (simp_all add: session_inv_def wires_ok_def)
  have "\<forall>f \<in> set us. fr_type f \<noteq> MSG_GB_TERMINAL_ACK"
    using inv messages.hyps(2) by (auto simp: session_inv_def)
  then have "list_all (control_ok ''host'' GB_INPUT_ACK_BYTES) us"
    using wires small_controls by (auto simp: wires_ok_def list_all_iff)
  then have "holds (control_ok ''host'' GB_INPUT_ACK_BYTES) (pending_out (se_remote s)) (se_host s)
      \<lparr>wr_out = [], wr_in = se_up s, wr_plan = moves\<rparr> us"
    using wires by (simp add: holds_def wires_ok_def)
  from host_messages_progress [OF messages.hyps(3) this role]
  obtain us' where "progress (control_ok ''host'' GB_INPUT_ACK_BYTES) (pending_out (se_remote s)) host_sends (se_host s)
      \<lparr>wr_out = [], wr_in = se_up s, wr_plan = moves\<rparr> us c w us'" by blast
  then show ?case by (rule session_inv_sends [OF inv])
next
  case (finish s p snap mem n moves c w r)
  then obtain ds us where inv: "session_inv s ds us" by blast
  then have wires: "wires_ok s ds us" and role: "rc_role (se_host s) = ''host''"
    by (simp_all add: session_inv_def wires_ok_def)
  have "progress (control_ok ''host'' GB_TERMINAL_BYTES) (pending_out (se_remote s))
      (\<lambda>f. media_ok MAX_H264_FRAME_BYTES f \<and> fr_payload f = p) (se_host s)
      \<lparr>wr_out = [], wr_in = se_up s, wr_plan = moves\<rparr> us c w us"
    by (rule send_control_progress [OF finish.hyps(4) holds_host(1) [OF wires]])
      (use media_ok_terminal [OF role] in simp)
  from session_inv_host [OF inv this, of "Some p" "se_agreed s"] finish.hyps(2) inv
  show ?case by (auto simp: session_inv_def)
next
  case (wait s p moves c w step)
  then obtain ds us where inv: "session_inv s ds us" by blast
  then have wires: "wires_ok s ds us" and role: "rc_role (se_host s) = ''host''"
    by (simp_all add: session_inv_def wires_ok_def)
  note acked = finish_poll_acked [OF wait.hyps(3) holds_host(1) [OF wires] role]
  have "se_answered s \<noteq> None" if "se_agreed s \<or> step = Acked"
    using that acked(2) inv by (auto simp: session_inv_def)
  moreover obtain us' where us': "progress (control_ok ''host'' GB_TERMINAL_BYTES) (pending_out (se_remote s)) (\<lambda>_. False) (se_host s)
      \<lparr>wr_out = [], wr_in = se_up s, wr_plan = moves\<rparr> us c w us'" using acked(1) by blast
  ultimately show ?case
    using session_inv_host [OF inv us', of "se_terminal s" "se_agreed s \<or> step = Acked"] by simp
next
  case (turn s mem current decodes m moves m1 c1 w1 fo ok commit ch wr ctx m' ctx' c w r)
  then obtain ds us where inv: "session_inv s ds us" by blast
  then have wires: "wires_ok s ds us" and role: "rc_role (se_remote s) = ''remote''"
    by (simp_all add: session_inv_def wires_ok_def)
  note turned = remote_turn_progress [OF turn.hyps(2,3) holds_host(2) [OF wires] role]
  obtain ds' where ds': "progress (media_ok MAX_H264_FRAME_BYTES) (pending_out (se_host s)) (turn_sends fo ok) (se_remote s)
      \<lparr>wr_out = [], wr_in = se_down s, wr_plan = moves\<rparr> ds c w ds'" using turned(1) by blast
  obtain new where new: "list_all (turn_sends fo ok) new" "set ds' \<subseteq> set ds"
      "wires_ok (s\<lparr>se_remote := c, se_up := se_up s @ wr_out w, se_down := wr_in w\<rparr>) ds' (us @ new)"
    using remote_wires [OF wires ds'] by (auto simp: turn_sends_def)
  let ?a = "answers fo ok (se_answered s)"
  have a: "?a = se_answered s \<or> (\<exists>p. ?a = Some p \<and> answers fo ok None = Some p \<and> se_terminal s = Some p)"
    using turned(2) inv by (auto simp: answers_def session_inv_def split: option.splits)
  have an: "answers fo ok None = Some p \<Longrightarrow> ?a = Some p" for p
    by (auto simp: answers_def split: option.splits if_splits)
  have keep: "?a = se_answered s" if "se_answered s \<noteq> None"
    using a that inv by (auto simp: session_inv_def)
  have "session_inv (s\<lparr>se_remote := c, se_up := se_up s @ wr_out w, se_down := wr_in w, se_answered := ?a\<rparr>) ds' (us @ new)"
    unfolding session_inv_def
  proof (intro conjI)
    show "wires_ok (s\<lparr>se_remote := c, se_up := se_up s @ wr_out w, se_down := wr_in w, se_answered := ?a\<rparr>) ds' (us @ new)"
      using new(3) by (simp add: wires_ok_def)
    show "\<forall>f \<in> set ds'. fr_type f = MSG_GB_TERMINAL \<longrightarrow>
        se_terminal (s\<lparr>se_remote := c, se_up := se_up s @ wr_out w, se_down := wr_in w, se_answered := ?a\<rparr>) = Some (fr_payload f)"
      using inv new(2) by (auto simp: session_inv_def)
    show "\<forall>f \<in> set (us @ new). fr_type f = MSG_GB_TERMINAL_ACK \<longrightarrow>
        se_answered (s\<lparr>se_remote := c, se_up := se_up s @ wr_out w, se_down := wr_in w, se_answered := ?a\<rparr>) = Some (fr_payload f)"
      using inv new(1) an keep by (auto simp: session_inv_def turn_sends_def list_all_iff)
    show "se_answered (s\<lparr>se_remote := c, se_up := se_up s @ wr_out w, se_down := wr_in w, se_answered := ?a\<rparr>) \<noteq> None \<longrightarrow>
        se_terminal (s\<lparr>se_remote := c, se_up := se_up s @ wr_out w, se_down := wr_in w, se_answered := ?a\<rparr>) =
        se_answered (s\<lparr>se_remote := c, se_up := se_up s @ wr_out w, se_down := wr_in w, se_answered := ?a\<rparr>)"
      using inv a by (auto simp: session_inv_def)
    show "se_agreed (s\<lparr>se_remote := c, se_up := se_up s @ wr_out w, se_down := wr_in w, se_answered := ?a\<rparr>) \<longrightarrow>
        se_answered (s\<lparr>se_remote := c, se_up := se_up s @ wr_out w, se_down := wr_in w, se_answered := ?a\<rparr>) \<noteq> None"
      using inv keep by (auto simp: session_inv_def)
  qed
  then show ?case by blast
next
  case (relay_down s f)
  then obtain ds us where inv: "session_inv s ds us" by blast
  have "media_ok MAX_H264_FRAME_BYTES f"
    using relay_down.hyps(3) by (simp add: session_state_frame_def media_ok_def frame_ok_def media_poll_maximum_def
        media_maximum_def message_types message_sizes)
  then have "session_inv (s\<lparr>se_down := se_down s @ frame_bytes f\<rparr>) (ds @ [f]) us"
    using inv relay_down.hyps(2,3) unfolding session_inv_def wires_ok_def
    by (auto simp: session_state_frame_def message_types simp flip: append_assoc)
  then show ?case by blast
next
  case (relay_up s f)
  then obtain ds us where inv: "session_inv s ds us" by blast
  have "control_ok ''host'' GB_TERMINAL_BYTES f"
    using relay_up.hyps(3) by (simp add: session_state_frame_def control_ok_def frame_ok_def control_expected_def
        message_types message_sizes)
  then have "session_inv (s\<lparr>se_up := se_up s @ frame_bytes f\<rparr>) ds (us @ [f])"
    using inv relay_up.hyps(2,3) unfolding session_inv_def wires_ok_def
    by (auto simp: session_state_frame_def message_types simp flip: append_assoc)
  then show ?case by blast
qed

lemma session_terminal: "session_run s \<Longrightarrow> se_terminal s = Some p \<Longrightarrow> \<exists>snap. p = terminal_payload snap"
  by (induction arbitrary: p rule: session_run.induct) auto

lemma length_terminal_digest [simp]: "length (terminal_digest_of s) = 32"
  by (simp add: terminal_digest_of_def sha256_finish_def Let_def)

text \<open>
  C1: when the host's wait has succeeded, the remote has acknowledged exactly the final state the
  host announced, so the result each end reports carries the same frame and the same digest.
\<close>

theorem terminal_agreement:
  assumes "session_run s" "se_agreed s"
  shows "\<exists>snap. se_terminal s = Some (terminal_payload snap) \<and> se_answered s = Some (terminal_payload snap) \<and>
    final_frame (remote_result (terminal_payload snap)) = final_frame (host_result snap) \<and>
    terminal_digest (remote_result (terminal_payload snap)) = terminal_digest (host_result snap)"
proof -
  obtain ds us where "session_inv s ds us" using session_run_inv [OF assms(1)] by blast
  then obtain p where p: "se_terminal s = Some p" "se_answered s = Some p"
    using assms(2) by (auto simp: session_inv_def)
  then obtain snap where "p = terminal_payload snap" using session_terminal [OF assms(1)] by blast
  then show ?thesis using p
    by (auto simp: remote_result_def host_result_def terminal_payload_def)
qed

text \<open>The polls of the wait never flush.\<close>

lemma poll_frames_keeps:
  "poll_frames parse c w = (c', w', r, got) \<Longrightarrow> pending_out c' = pending_out c \<and> wr_out w' = wr_out w"
proof (induction parse c w arbitrary: c' w' r got rule: poll_frames.induct)
  case (1 parse c w)
  show ?case
  proof (cases "length (rc_recv c) < RECEIVE_CAPACITY \<and> parse (rc_recv c) = Incomplete")
    case False
    then show ?thesis using 1(2) by (subst (asm) poll_frames.simps) (auto split: if_splits parsed.splits)
  next
    case True
    obtain w1 m bs where rd: "transport_read (RECEIVE_CAPACITY - length (rc_recv c)) w = (w1, m, bs)"
      by (cases "transport_read (RECEIVE_CAPACITY - length (rc_recv c)) w") auto
    show ?thesis
    proof (cases m)
      case (Count n)
      then have "poll_frames parse (c\<lparr>rc_recv := rc_recv c @ bs\<rparr>) w1 = (c', w', r, got)"
        using 1(2) True rd by (subst (asm) poll_frames.simps) simp
      then show ?thesis
        using 1(1) [OF _ _ rd [symmetric] refl Count] True rd Count
          transport_read_Count(6) [of "RECEIVE_CAPACITY - length (rc_recv c)" w w1 n bs] by auto
    next
      case WouldBlock
      then have "poll_frames parse c w = (c, w1, 0, None)" using True rd by (subst poll_frames.simps) simp
      then show ?thesis using 1(2) WouldBlock transport_read_other [OF rd] by simp
    next
      case Failed
      then have "poll_frames parse c w = (c, w1, - 1, None)" using True rd by (subst poll_frames.simps) simp
      then show ?thesis using 1(2) Failed transport_read_other [OF rd] by simp
    qed
  qed
qed

lemma finish_wait_keeps:
  "finish_wait p turns c arrived = (c', rest, ok) \<Longrightarrow> pending_out c' = pending_out c"
proof (induction turns arbitrary: c arrived)
  case Nil
  then show ?case by simp
next
  case (Cons x turns)
  obtain more_in moves where x: "x = (more_in, moves)" by fastforce
  let ?w = "\<lparr>wr_out = [], wr_in = arrived @ more_in, wr_plan = moves\<rparr>"
  obtain c1 w1 r f where pc: "poll_control GB_TERMINAL_BYTES c ?w = (c1, w1, r, f)"
    by (cases "poll_control GB_TERMINAL_BYTES c ?w") auto
  have keep: "pending_out c1 = pending_out c"
    using pc poll_frames_keeps [of _ c ?w c1 w1 r f] by (auto simp: poll_control_def split: if_splits)
  obtain step where fp: "finish_poll p c ?w = (c1, w1, step)" using pc by (simp add: finish_poll_def)
  show ?case
    using Cons.prems x fp keep Cons.IH [of c1 "wr_in w1"] by (cases step) auto
qed

text \<open>
  C31: when an earlier frame is still pending and the transport blocks, the terminal message is
  neither sent nor queued, and nothing the host does while it waits for the acknowledgement sends
  anything: what has gone out and what is to go out is the same as before.
\<close>

theorem terminal_not_sent:
  assumes "rc_send_buffer c = Some b" "rc_send_offset c < length b" "wr_plan w = [Blocked]"
    and "rc_paired c" "rc_role c = ''host''" "ch \<noteq> NoChannel"
    and "finish_host_session commit ch (Some s) mem turns wr ctx n c w = outcome"
  shows "stream_out (fo_conn outcome) (fo_wire outcome) = stream_out c w \<and> fo_sequence outcome = n + 1"
proof -
  have data: "take (min INT_MAX (length b - rc_send_offset c)) (drop (rc_send_offset c) b) \<noteq> []"
    using assms(2) by (auto simp: INT_MAX_def)
  have "flush_loop c w = (c, w\<lparr>wr_plan := []\<rparr>, 0)"
    using assms(1-3) data by (subst flush_loop.simps) (simp add: Let_def transport_write_def net_next_def)
  then have send: "send_control mem MSG_GB_TERMINAL n (terminal_payload s) c w = (c, w\<lparr>wr_plan := []\<rparr>, 0)"
    using assms(1,4,5)
    by (simp add: send_control_def Let_def flush_pending_def control_payload_size_for_role_def terminal_payload_def
        message_types message_sizes)
  obtain c2 rest ok where wt: "finish_wait (terminal_payload s) turns c (wr_in w) = (c2, rest, ok)"
    by (cases "finish_wait (terminal_payload s) turns c (wr_in w)") auto
  have "fo_conn outcome = c2 \<and> wr_out (fo_wire outcome) = wr_out w \<and> fo_sequence outcome = n + 1"
    using assms(6,7) send wt
    by (auto simp: finish_host_session_def Let_def split: bool.splits prod.splits if_splits)
  then show ?thesis using finish_wait_keeps [OF wt] by (simp add: stream_out_def)
qed

section \<open>Witnesses\<close>

context framing
begin

lemma poll_frames_one:
  assumes "rc_recv c = []" "wr_in w = frame_bytes f" "wr_plan w = Moved k # moves" "length (frame_bytes f) \<le> k"
    "ok f" "length (frame_bytes f) < RECEIVE_CAPACITY"
  shows "poll_frames parse c w = (c, w\<lparr>wr_plan := moves, wr_in := []\<rparr>, 1, Some f)"
proof -
  have pos: "0 < length (frame_bytes f)" by (simp add: CONTROL_HEADER_SIZE_def)
  have "transport_read RECEIVE_CAPACITY w = (w\<lparr>wr_plan := moves, wr_in := []\<rparr>, Count (length (frame_bytes f)), frame_bytes f)"
    using assms pos less_le_trans [OF pos assms(4)]
    by (auto simp: transport_read_def net_next_def Let_def max_def Suc_le_eq not_less simp del: length_frame_bytes)
  then have "poll_frames parse c w = poll_frames parse (c\<lparr>rc_recv := frame_bytes f\<rparr>) (w\<lparr>wr_plan := moves, wr_in := []\<rparr>)"
    using assms parse_nothing by (subst poll_frames.simps) (simp add: RECEIVE_CAPACITY_def message_sizes)
  also have "\<dots> = (c, w\<lparr>wr_plan := moves, wr_in := []\<rparr>, 1, Some f)"
    using assms parse_whole [OF assms(5), of "[]"] by (subst poll_frames.simps) (cases c, simp)
  finally show ?thesis .
qed

end

lemma send_control_whole:
  assumes "rc_paired c" "rc_send_buffer c = None" "control_payload_size_for_role c t = length p" "p \<noteq> []"
    "wr_plan w = Moved k # moves" "CONTROL_HEADER_SIZE + length p \<le> k" "CONTROL_HEADER_SIZE + length p \<le> INT_MAX"
    "rc_send_offset c = 0"
  shows "send_control True t n p c w = (c, w\<lparr>wr_plan := moves, wr_out := wr_out w @
    frame_bytes \<lparr>fr_type = t, fr_flags = 0, fr_sequence = n, fr_payload = p\<rparr>\<rparr>, 1)"
proof -
  let ?f = "\<lparr>fr_type = t, fr_flags = 0, fr_sequence = n, fr_payload = p\<rparr>"
  have "flush_loop (c\<lparr>rc_send_buffer := Some (frame_bytes ?f), rc_send_offset := 0\<rparr>) w =
      (c\<lparr>rc_send_buffer := None, rc_send_offset := 0\<rparr>, w\<lparr>wr_plan := moves, wr_out := wr_out w @ frame_bytes ?f\<rparr>, 1)"
    using flush_loop_whole [of "c\<lparr>rc_send_buffer := Some (frame_bytes ?f), rc_send_offset := 0\<rparr>" "frame_bytes ?f" w k moves] assms
    by simp
  moreover have "c\<lparr>rc_send_buffer := None, rc_send_offset := 0\<rparr> = c" using assms(2,8) by (cases c) simp
  ultimately show ?thesis
    using assms(1-4) by (simp add: send_control_def Let_def flush_pending_def queue_frame_def)
qed

definition sample_snapshot :: link_snapshot where
  "sample_snapshot = \<lparr>ls_frame = 600, ls_pair_sha256 = replicate 32 1, ls_battery_a_sha256 = replicate 32 2,
     ls_battery_b_sha256 = replicate 32 3, ls_state_a = None, ls_state_b = None, ls_battery_a = Some [1],
     ls_battery_b = Some [2]\<rparr>"

definition sample_remote :: remote where
  "sample_remote = \<lparr>rm_product = product_zero, rm_sequence = 4, rm_last_buttons = 0, rm_last_input = 1, rm_last_ping = 1\<rparr>"

definition sample_session :: "bytes option \<Rightarrow> bytes option \<Rightarrow> bool \<Rightarrow> bytes \<Rightarrow> bytes \<Rightarrow> session" where
  "sample_session t a g down up = \<lparr>se_host = sample_end ''host'', se_remote = sample_end ''remote'', se_down = down,
     se_up = up, se_terminal = t, se_answered = a, se_agreed = g\<rparr>"

text \<open>Announcement, acknowledgement, agreement.\<close>

lemma sample_session_agreed: "\<exists>s. session_run s \<and> se_agreed s"
proof -
  define p where "p = terminal_payload sample_snapshot"
  have len: "length p = 40" by (simp add: p_def terminal_payload_def)
  then have ne: "p \<noteq> []" by auto
  let ?t = "\<lparr>fr_type = MSG_GB_TERMINAL, fr_flags = 0, fr_sequence = 9, fr_payload = p\<rparr>"
  let ?a = "\<lparr>fr_type = MSG_GB_TERMINAL_ACK, fr_flags = 0, fr_sequence = 4, fr_payload = p\<rparr>"
  have lens: "length (frame_bytes ?t) = 56" "length (frame_bytes ?a) = 56"
    using len by (simp_all add: CONTROL_HEADER_SIZE_def)
  have small: "(56::nat) < RECEIVE_CAPACITY" by (simp add: RECEIVE_CAPACITY_def message_sizes)
  have idle: "rc_recv (sample_end r) = []" "rc_send_buffer (sample_end r) = None" "rc_send_offset (sample_end r) = 0"
    "rc_paired (sample_end r)" "rc_role (sample_end r) = r" for r by (simp_all add: sample_end_def)
  have sizes: "control_payload_size_for_role (sample_end ''host'') MSG_GB_TERMINAL = length p"
    "control_payload_size_for_role (sample_end ''remote'') MSG_GB_TERMINAL_ACK = length p"
    by (simp_all add: control_payload_size_for_role_def sample_end_def message_types message_sizes len)
  have s0: "session_run (sample_session None None False [] [])"
    unfolding sample_session_def by (rule session_run.start) (simp_all add: sample_end_def)
  have send: "send_control True MSG_GB_TERMINAL 9 p (sample_end ''host'') \<lparr>wr_out = [], wr_in = [], wr_plan = [Moved 100]\<rparr> =
      (sample_end ''host'', \<lparr>wr_out = frame_bytes ?t, wr_in = [], wr_plan = []\<rparr>, 1)"
    using send_control_whole [OF idle(4,2) sizes(1) ne, of "\<lparr>wr_out = [], wr_in = [], wr_plan = [Moved 100]\<rparr>" 100 "[]" 9]
    by (simp add: idle len CONTROL_HEADER_SIZE_def INT_MAX_def)
  have s1: "session_run (sample_session (Some p) None False (frame_bytes ?t) [])"
    using session_run.finish [OF s0 _ p_def, of True 9 "[Moved 100]"] send by (simp add: sample_session_def)
  let ?w = "\<lparr>wr_out = [], wr_in = frame_bytes ?t, wr_plan = [Moved 100, Moved 100]\<rparr>"
  have okt: "media_ok MAX_H264_FRAME_BYTES ?t"
    by (rule control_frame_ok [OF _ sizes(1) ne order.refl]) (simp add: sample_end_def)
  have "poll_media MAX_H264_FRAME_BYTES (sample_end ''remote'') ?w =
      (sample_end ''remote'', ?w\<lparr>wr_plan := [Moved 100], wr_in := []\<rparr>, 1, Some ?t)"
    using media.poll_frames_one [OF idle(1), of ?w ?t 100 "[Moved 100]"] okt lens small idle by (simp add: poll_media_def)
  then have "pump_remote 16 (\<lambda>_. True) (sample_end ''remote'') ?w =
      (sample_end ''remote'', \<lparr>wr_out = [], wr_in = [], wr_plan = [Moved 100]\<rparr>, Some ?t, True)"
    using pump_remote.simps(2) [of 15 "\<lambda>_. True" "sample_end ''remote''" ?w] by simp
  then have rcv: "remote_receive True 1 (\<lambda>_. True) sample_remote (sample_end ''remote'') ?w =
      (sample_remote, sample_end ''remote'', \<lparr>wr_out = [], wr_in = [], wr_plan = [Moved 100]\<rparr>, Some ?t, True)"
    by (simp add: remote_receive_def remote_input_def remote_ping_def sample_remote_def product_take_neutral_def
        product_zero_def Let_def INPUT_HEARTBEAT_US_def PING_INTERVAL_US_def)
  have ack: "send_control True MSG_GB_TERMINAL_ACK 4 p (sample_end ''remote'') \<lparr>wr_out = [], wr_in = [], wr_plan = [Moved 100]\<rparr> =
      (sample_end ''remote'', \<lparr>wr_out = frame_bytes ?a, wr_in = [], wr_plan = []\<rparr>, 1)"
    using send_control_whole [OF idle(4,2) sizes(2) ne, of "\<lparr>wr_out = [], wr_in = [], wr_plan = [Moved 100]\<rparr>" 100 "[]" 4]
    by (simp add: idle len CONTROL_HEADER_SIZE_def INT_MAX_def)
  have turn: "remote_turn False NoChannel (\<lambda>c _. (c, 0)) True 1 (\<lambda>_. True) sample_remote [] (sample_end ''remote'') ?w =
      (sample_remote\<lparr>rm_sequence := 5\<rparr>, [], sample_end ''remote'', \<lparr>wr_out = frame_bytes ?a, wr_in = [], wr_plan = []\<rparr>, RemoteTerminal)"
    using rcv ack by (simp add: remote_turn_def remote_control_def len message_types message_sizes Let_def sample_remote_def)
  have s2: "session_run (sample_session (Some p) (Some p) False [] (frame_bytes ?a))"
  proof -
    let ?s = "sample_session (Some p) None False (frame_bytes ?t) []"
    have "remote_receive True 1 (\<lambda>_. True) sample_remote (se_remote ?s)
        \<lparr>wr_out = [], wr_in = se_down ?s, wr_plan = [Moved 100, Moved 100]\<rparr> =
        (sample_remote, sample_end ''remote'', \<lparr>wr_out = [], wr_in = [], wr_plan = [Moved 100]\<rparr>, Some ?t, True)"
      using rcv by (simp add: sample_session_def)
    moreover have "remote_turn False NoChannel (\<lambda>c _. (c, 0)) True 1 (\<lambda>_. True) sample_remote [] (se_remote ?s)
        \<lparr>wr_out = [], wr_in = se_down ?s, wr_plan = [Moved 100, Moved 100]\<rparr> =
        (sample_remote\<lparr>rm_sequence := 5\<rparr>, [], sample_end ''remote'', \<lparr>wr_out = frame_bytes ?a, wr_in = [], wr_plan = []\<rparr>, RemoteTerminal)"
      using turn by (simp add: sample_session_def)
    ultimately show ?thesis
      using session_run.turn [OF s1] by (fastforce simp: sample_session_def answers_def len message_sizes)
  qed
  let ?v = "\<lparr>wr_out = [], wr_in = frame_bytes ?a, wr_plan = [Moved 100]\<rparr>"
  have oka: "control_ok ''host'' GB_TERMINAL_BYTES ?a"
    by (rule remote_control_frame_ok [OF _ sizes(2) ne]) (simp add: sample_end_def)
  have "poll_control GB_TERMINAL_BYTES (sample_end ''host'') ?v =
      (sample_end ''host'', ?v\<lparr>wr_plan := [], wr_in := []\<rparr>, 1, Some ?a)"
    using control.poll_frames_one [OF idle(1), of ?v ?a 100 "[]"] oka lens small idle by (simp add: poll_control_def)
  then have fin: "finish_poll p (sample_end ''host'') ?v =
      (sample_end ''host'', \<lparr>wr_out = [], wr_in = [], wr_plan = []\<rparr>, Acked)"
    by (simp add: finish_poll_def)
  have "session_run (sample_session (Some p) (Some p) True [] [])"
    using session_run.wait [OF s2, of p "[Moved 100]"] fin by (simp add: sample_session_def)
  then show ?thesis by (intro exI conjI) (auto simp: sample_session_def)
qed

theorem terminal_agreement_witness:
  "\<exists>s snap. session_run s \<and> se_terminal s = Some (terminal_payload snap) \<and> se_answered s = Some (terminal_payload snap)"
proof -
  obtain s where s: "session_run s" "se_agreed s" using sample_session_agreed by blast
  from terminal_agreement [OF this] s(1) show ?thesis by blast
qed

definition sample_pending_end :: relay_connection where
  "sample_pending_end = (sample_end ''host'')\<lparr>rc_send_buffer := Some [1, 2, 3], rc_send_offset := 1\<rparr>"

theorem terminal_not_sent_witness:
  "stream_out
     (fo_conn (finish_host_session True HandleChannel (Some sample_snapshot) True [] (\<lambda>c _. (c, 0)) () 5
        sample_pending_end \<lparr>wr_out = [], wr_in = [], wr_plan = [Blocked]\<rparr>))
     (fo_wire (finish_host_session True HandleChannel (Some sample_snapshot) True [] (\<lambda>c _. (c, 0)) () 5
        sample_pending_end \<lparr>wr_out = [], wr_in = [], wr_plan = [Blocked]\<rparr>)) = [2, 3]"
proof -
  let ?w = "\<lparr>wr_out = [], wr_in = [], wr_plan = [Blocked]\<rparr>"
  have c: "rc_send_buffer sample_pending_end = Some [1, 2, 3]" "rc_send_offset sample_pending_end < length [1, 2, 3 :: u8]"
    "rc_paired sample_pending_end" "rc_role sample_pending_end = ''host''"
    by (simp_all add: sample_pending_end_def sample_end_def)
  have "stream_out sample_pending_end ?w = [2, 3]"
    by (simp add: stream_out_def pending_out_def sample_pending_end_def)
  then show ?thesis
    using terminal_not_sent [OF c(1,2) _ c(3,4), of ?w HandleChannel True sample_snapshot True "[]" "\<lambda>c _. (c, 0)" "()" 5]
    by simp
qed

end
