(* ===== verification/MobileRoutes.thy ===== *)
theory MobileRoutes
  imports CText ContentHash
begin

text \<open>
  The route table of \<open>runtimes/gb/src/mobile/mobile_route_engine.c\<close>: the predicates on a
  request's headers and body, the choice of the route that answers a request, and the
  checks a schema-two package must pass before it is used, \<open>validate_schema_two_routes\<close>:
  no two routes may accept the same request in the same state, and every route must be
  reachable from the initial state. A state is a bit per declared name.

  The lemmas show that the overlap test is sound, that the exploration of the states ends,
  and that it computes exactly the reachable states.
\<close>

unbundle bit_operations_syntax

section \<open>Routes\<close>

datatype header_match = HeaderPresent | HeaderAbsent | HeaderExact | HeaderPrefix | HeaderSha256

record header_predicate =
  hp_name :: string
  hp_match :: header_match
  hp_max_length :: nat
  hp_value :: string
  hp_sha256 :: string

record body_slice =
  sl_offset :: nat
  sl_data :: bytes

record route =
  ro_host :: string
  ro_method :: string
  ro_path :: string
  ro_version :: string
  ro_status :: nat
  ro_headers :: "(string \<times> string) list"
  requires_true :: u64
  requires_false :: u64
  sets_true :: u64
  sets_false :: u64
  ro_body :: bytes
  discard_limit :: nat
  sink_limit :: nat
  request_headers :: "header_predicate list"
  has_request_body :: bool
  same_body_replay :: bool
  replay_digest_set :: bool
  request_body_min :: nat
  request_body_max :: nat
  request_body_sha256 :: string
  replay_digest :: string
  request_body_slices :: "body_slice list"
  max_uses :: u32
  uses :: u32

record parsed_header =
  ph_name :: string
  ph_value :: bytes

definition ROUTE_MAX :: nat where "ROUTE_MAX = 256"

definition bytes_sha256 :: "bytes \<Rightarrow> string" where
  "bytes_sha256 data = sha256_hex (content_sha256 data)"

section \<open>What a route accepts\<close>

definition find_header :: "parsed_header list \<Rightarrow> string \<Rightarrow> parsed_header option" where
  "find_header headers name = find (\<lambda>h. ph_name h = name) headers"

definition header_predicate_matches :: "header_predicate \<Rightarrow> parsed_header option \<Rightarrow> bool" where
  "header_predicate_matches p h =
     (if hp_match p = HeaderAbsent then h = None
      else case h of
             None \<Rightarrow> False
           | Some v \<Rightarrow>
               if hp_max_length p < length (ph_value v) then False
               else if hp_match p = HeaderExact \<and> ph_value v \<noteq> text_bytes (hp_value p) then False
               else if hp_match p = HeaderPrefix \<and>
                       (length (ph_value v) < length (hp_value p) \<or>
                        take (length (hp_value p)) (ph_value v) \<noteq> text_bytes (hp_value p)) then False
               else \<not> (hp_match p = HeaderSha256 \<and> bytes_sha256 (ph_value v) \<noteq> hp_sha256 p))"

definition header_predicates_match :: "route \<Rightarrow> parsed_header list \<Rightarrow> bool" where
  "header_predicates_match r headers =
     list_all (\<lambda>p. header_predicate_matches p (find_header headers (hp_name p))) (request_headers r)"

text \<open>The digest of an accepted body, empty for a route without a body predicate.\<close>

definition body_slice_matches :: "bytes \<Rightarrow> body_slice \<Rightarrow> bool" where
  "body_slice_matches body s =
     (\<not> (length body < sl_offset s \<or> length body - sl_offset s < length (sl_data s)) \<and>
      slice (sl_offset s) (length (sl_data s)) body = sl_data s)"

definition body_predicate_matches :: "route \<Rightarrow> bytes \<Rightarrow> string option" where
  "body_predicate_matches r body =
     (if \<not> has_request_body r then Some []
      else if length body < request_body_min r \<or> request_body_max r < length body then None
      else let digest = bytes_sha256 body
           in if request_body_sha256 r \<noteq> [] \<and> digest \<noteq> request_body_sha256 r then None
              else if list_all (body_slice_matches body) (request_body_slices r) then Some digest
              else None)"

definition enabled :: "u64 \<Rightarrow> route \<Rightarrow> bool" where
  "enabled state r \<longleftrightarrow>
     state AND requires_true r = requires_true r \<and> NOT state AND requires_false r = requires_false r"

definition apply_sets :: "u64 \<Rightarrow> route \<Rightarrow> u64" where
  "apply_sets state r = (state OR sets_true r) AND NOT (sets_false r)"

definition route_candidate ::
  "u64 \<Rightarrow> string \<Rightarrow> string \<Rightarrow> string \<Rightarrow> parsed_header list \<Rightarrow> bytes \<Rightarrow> route \<Rightarrow> string option" where
  "route_candidate state host method path headers body r =
     (if ro_host r \<noteq> host \<or> ro_method r \<noteq> method \<or> ro_path r \<noteq> path then None
      else if \<not> enabled state r then None
      else if max_uses r \<noteq> 0 \<and> max_uses r \<le> uses r then None
      else if \<not> header_predicates_match r headers then None
      else case body_predicate_matches r body of
             None \<Rightarrow> None
           | Some digest \<Rightarrow>
               if same_body_replay r \<and> replay_digest_set r \<and> replay_digest r \<noteq> digest then None
               else Some digest)"

section \<open>Overlapping routes\<close>

definition route_header :: "route \<Rightarrow> string \<Rightarrow> header_predicate option" where
  "route_header r name = find (\<lambda>p. hp_name p = name) (request_headers r)"

definition route_starts_with :: "string \<Rightarrow> string \<Rightarrow> bool" where
  "route_starts_with text lead \<longleftrightarrow> take (length lead) text = lead"

definition header_predicates_disjoint :: "header_predicate \<Rightarrow> header_predicate option \<Rightarrow> bool" where
  "header_predicates_disjoint a other =
     (case other of
        None \<Rightarrow> False
      | Some b \<Rightarrow>
          if (hp_match a = HeaderAbsent) \<noteq> (hp_match b = HeaderAbsent) then True
          else if hp_match a = HeaderAbsent then False
          else if hp_match a = HeaderExact \<and> hp_max_length b < length (hp_value a) then True
          else if hp_match b = HeaderExact \<and> hp_max_length a < length (hp_value b) then True
          else case (hp_match a, hp_match b) of
                 (HeaderExact, HeaderExact) \<Rightarrow> hp_value a \<noteq> hp_value b
               | (HeaderPrefix, HeaderPrefix) \<Rightarrow>
                   \<not> route_starts_with (hp_value a) (hp_value b) \<and> \<not> route_starts_with (hp_value b) (hp_value a)
               | (HeaderExact, HeaderPrefix) \<Rightarrow> \<not> route_starts_with (hp_value a) (hp_value b)
               | (HeaderPrefix, HeaderExact) \<Rightarrow> \<not> route_starts_with (hp_value b) (hp_value a)
               | (HeaderSha256, HeaderSha256) \<Rightarrow> hp_sha256 a \<noteq> hp_sha256 b
               | (HeaderExact, HeaderSha256) \<Rightarrow> bytes_sha256 (text_bytes (hp_value a)) \<noteq> hp_sha256 b
               | (HeaderSha256, HeaderExact) \<Rightarrow> bytes_sha256 (text_bytes (hp_value b)) \<noteq> hp_sha256 a
               | _ \<Rightarrow> False)"

definition slices_clash :: "body_slice \<Rightarrow> body_slice \<Rightarrow> bool" where
  "slices_clash left right =
     (let start = max (sl_offset left) (sl_offset right);
          stop = min (sl_offset left + length (sl_data left)) (sl_offset right + length (sl_data right))
      in start < stop \<and>
         slice (start - sl_offset left) (stop - start) (sl_data left) \<noteq>
         slice (start - sl_offset right) (stop - start) (sl_data right))"

definition body_predicates_disjoint :: "route \<Rightarrow> route \<Rightarrow> bool" where
  "body_predicates_disjoint a b =
     (if \<not> has_request_body a \<or> \<not> has_request_body b then False
      else if request_body_max a < request_body_min b \<or> request_body_max b < request_body_min a then True
      else if request_body_sha256 a \<noteq> [] \<and> request_body_sha256 b \<noteq> [] \<and>
              request_body_sha256 a \<noteq> request_body_sha256 b then True
      else list_ex (\<lambda>left. list_ex (slices_clash left) (request_body_slices b)) (request_body_slices a))"

definition routes_overlap :: "route \<Rightarrow> route \<Rightarrow> bool" where
  "routes_overlap a b =
     (if ro_host a \<noteq> ro_host b \<or> ro_method a \<noteq> ro_method b \<or> ro_path a \<noteq> ro_path b \<or>
         requires_true a \<noteq> requires_true b \<or> requires_false a \<noteq> requires_false b then False
      else if list_ex (\<lambda>p. header_predicates_disjoint p (route_header b (hp_name p))) (request_headers a)
      then False
      else \<not> body_predicates_disjoint a b)"

section \<open>The check of a schema-two package\<close>

definition full_state :: "nat \<Rightarrow> u64" where
  "full_state state_count =
     (if state_count = 64 then - 1
      else if state_count \<noteq> 0 then push_bit state_count 1 - 1 else 0)"

definition routes_separate :: "nat \<Rightarrow> route list \<Rightarrow> bool" where
  "routes_separate state_count rs =
     list_all (\<lambda>i. max_uses (rs ! i) \<noteq> 0 \<and>
                   requires_true (rs ! i) OR requires_false (rs ! i) = full_state state_count \<and>
                   list_all (\<lambda>prior. \<not> routes_overlap (rs ! i) (rs ! prior)) [0..<i])
       [0..<length rs]"

text \<open>
  One route in one pass: the first known state that enables it, if any. The result is the
  list of known states, the flags of the routes reached and whether something changed, or
  None when there is no room for another state.
\<close>

type_synonym exploration = "u64 list \<times> bool list \<times> bool"

definition visit_route :: "route list \<Rightarrow> nat \<Rightarrow> exploration \<Rightarrow> exploration option" where
  "visit_route rs i x =
     (case x of (states, reached, changed) \<Rightarrow>
        (case find (\<lambda>state. enabled state (rs ! i)) states of
           None \<Rightarrow> Some x
         | Some state \<Rightarrow>
             let result = apply_sets state (rs ! i)
             in if result \<in> set states then Some (states, reached[i := True], changed)
                else if ROUTE_MAX + 1 \<le> length states then None
                else Some (states @ [result], reached[i := True], True)))"

fun visit_routes :: "route list \<Rightarrow> nat list \<Rightarrow> exploration \<Rightarrow> exploration option" where
  "visit_routes rs [] x = Some x"
| "visit_routes rs (i # is) x =
     (case visit_route rs i x of None \<Rightarrow> None | Some y \<Rightarrow> visit_routes rs is y)"

text \<open>
  The loop runs as long as a pass changed something. That it returns is not built in: its
  value is None where it would run for ever.
\<close>

partial_function (option) explore ::
  "route list \<Rightarrow> u64 list \<Rightarrow> bool list \<Rightarrow> (u64 list \<times> bool list) option option" where
  "explore rs states reached =
     (case visit_routes rs [0..<length rs] (states, reached, False) of
        None \<Rightarrow> Some None
      | Some (states', reached', changed) \<Rightarrow>
          if changed then explore rs states' reached' else Some (Some (states', reached')))"

definition validate_schema_two_routes :: "nat \<Rightarrow> u64 \<Rightarrow> route list \<Rightarrow> bool option" where
  "validate_schema_two_routes state_count initial rs =
     (if \<not> routes_separate state_count rs then Some False
      else case explore rs [initial] (replicate (length rs) False) of
             None \<Rightarrow> None
           | Some None \<Rightarrow> Some False
           | Some (Some (_, reached)) \<Rightarrow> Some (list_all (\<lambda>b. b) reached))"

section \<open>The overlap test is sound\<close>

lemma take_text_bytes: "take n (text_bytes s) = text_bytes (take n s)"
  by (simp add: text_bytes_def take_map)

lemma text_bytes_inject [simp]: "text_bytes s = text_bytes t \<longleftrightarrow> s = t"
proof -
  have "inj (\<lambda>c. word_of_nat (of_char c) :: u8)"
    by (rule injI) (metis unat_of_char of_char_eq_iff)
  then show ?thesis by (simp add: text_bytes_def inj_map_eq_map)
qed

lemma prefix_shared:
  assumes "take (length s) v = text_bytes s" "take (length t) v = text_bytes t" "length s \<le> length t"
  shows "route_starts_with t s"
proof -
  have "take (length s) (take (length t) v) = take (length s) v" using assms(3) by (simp add: min_def)
  with assms show ?thesis by (simp add: take_text_bytes route_starts_with_def)
qed

lemma prefixes_comparable:
  "take (length s) v = text_bytes s \<Longrightarrow> take (length t) v = text_bytes t \<Longrightarrow>
   route_starts_with t s \<or> route_starts_with s t"
  using prefix_shared nat_le_linear by metis

lemma header_predicate_matchesD:
  assumes "header_predicate_matches p h" "hp_match p \<noteq> HeaderAbsent"
  obtains v where "h = Some v" "length (ph_value v) \<le> hp_max_length p"
    "hp_match p = HeaderExact \<Longrightarrow> ph_value v = text_bytes (hp_value p)"
    "hp_match p = HeaderPrefix \<Longrightarrow> take (length (hp_value p)) (ph_value v) = text_bytes (hp_value p)"
    "hp_match p = HeaderSha256 \<Longrightarrow> bytes_sha256 (ph_value v) = hp_sha256 p"
  using assms by (auto simp: header_predicate_matches_def split: option.splits if_splits)

lemma exact_prefix: "take (length t) (text_bytes s) = text_bytes t \<Longrightarrow> route_starts_with s t"
  by (simp add: take_text_bytes route_starts_with_def)

lemma header_disjoint_sound:
  assumes d: "header_predicates_disjoint a (Some b)"
    and ma: "header_predicate_matches a h" and mb: "header_predicate_matches b h"
  shows False
proof (cases "hp_match a = HeaderAbsent \<or> hp_match b = HeaderAbsent")
  case True
  then show False
    using assms
    by (cases "hp_match a"; cases "hp_match b"; cases h;
        simp add: header_predicates_disjoint_def header_predicate_matches_def)
next
  case False
  obtain v where a: "h = Some v" "length (ph_value v) \<le> hp_max_length a"
    "hp_match a = HeaderExact \<Longrightarrow> ph_value v = text_bytes (hp_value a)"
    "hp_match a = HeaderPrefix \<Longrightarrow> take (length (hp_value a)) (ph_value v) = text_bytes (hp_value a)"
    "hp_match a = HeaderSha256 \<Longrightarrow> bytes_sha256 (ph_value v) = hp_sha256 a"
    using header_predicate_matchesD [OF ma] False by metis
  obtain w where b: "h = Some w" "length (ph_value w) \<le> hp_max_length b"
    "hp_match b = HeaderExact \<Longrightarrow> ph_value w = text_bytes (hp_value b)"
    "hp_match b = HeaderPrefix \<Longrightarrow> take (length (hp_value b)) (ph_value w) = text_bytes (hp_value b)"
    "hp_match b = HeaderSha256 \<Longrightarrow> bytes_sha256 (ph_value w) = hp_sha256 b"
    using header_predicate_matchesD [OF mb] False by metis
  have w: "w = v" using a(1) b(1) by simp
  have short: "\<not> (hp_match a = HeaderExact \<and> hp_max_length b < length (hp_value a))"
    "\<not> (hp_match b = HeaderExact \<and> hp_max_length a < length (hp_value b))"
    using a(2,3) b(2,3) w by auto
  note b' = b(3-5) [unfolded w]
  have exact: "hp_match a = HeaderExact \<Longrightarrow> hp_match b = HeaderExact \<Longrightarrow> hp_value a = hp_value b"
    using a(3) b'(1) by simp
  have digest: "hp_match a = HeaderSha256 \<Longrightarrow> hp_match b = HeaderSha256 \<Longrightarrow> hp_sha256 a = hp_sha256 b"
    using a(5) b'(3) by simp
  have ep: "hp_match a = HeaderExact \<Longrightarrow> hp_match b = HeaderPrefix \<Longrightarrow> route_starts_with (hp_value a) (hp_value b)"
    using a(3) b'(2) by (intro exact_prefix) simp
  have pe: "hp_match a = HeaderPrefix \<Longrightarrow> hp_match b = HeaderExact \<Longrightarrow> route_starts_with (hp_value b) (hp_value a)"
    using a(4) b'(1) by (intro exact_prefix) simp
  have pp: "hp_match a = HeaderPrefix \<Longrightarrow> hp_match b = HeaderPrefix \<Longrightarrow>
      route_starts_with (hp_value b) (hp_value a) \<or> route_starts_with (hp_value a) (hp_value b)"
    using prefixes_comparable [OF a(4) b'(2)] by blast
  have ed: "hp_match a = HeaderExact \<Longrightarrow> hp_match b = HeaderSha256 \<Longrightarrow>
      bytes_sha256 (text_bytes (hp_value a)) = hp_sha256 b"
    using a(3) b'(3) by simp
  have de: "hp_match a = HeaderSha256 \<Longrightarrow> hp_match b = HeaderExact \<Longrightarrow>
      bytes_sha256 (text_bytes (hp_value b)) = hp_sha256 a"
    using a(5) b'(1) by simp
  show False
    using d False short exact digest ep pe pp ed de
    by (cases "hp_match a"; cases "hp_match b") (simp_all add: header_predicates_disjoint_def)
qed

lemma slices_clash_sound:
  assumes "slices_clash l r" "body_slice_matches body l" "body_slice_matches body r"
  shows False
proof -
  have part: "slice (start - sl_offset s) n (sl_data s) = slice start n body"
    if "body_slice_matches body s" "sl_offset s \<le> start" "start + n \<le> sl_offset s + length (sl_data s)"
    for s start n
  proof -
    define k where "k = start - sl_offset s"
    have k: "k + sl_offset s = start" using that(2) by (simp add: k_def)
    define l where "l = length (sl_data s)"
    have l: "take l (drop (sl_offset s) body) = sl_data s" "n \<le> l - k"
      using that by (simp_all add: body_slice_matches_def slice_def l_def k_def)
    have "drop k (sl_data s) = take (l - k) (drop start body)"
      unfolding l(1) [symmetric] by (simp add: drop_take k)
    then show ?thesis using l(2) by (simp add: slice_def k_def [symmetric] min_def)
  qed
  show False
    using assms part [OF assms(2), of "max (sl_offset l) (sl_offset r)"]
      part [OF assms(3), of "max (sl_offset l) (sl_offset r)"]
    by (auto simp: slices_clash_def Let_def)
qed

lemma body_disjoint_sound:
  assumes "body_predicates_disjoint a b"
    and "body_predicate_matches a body = Some d" "body_predicate_matches b body = Some e"
  shows False
  using assms slices_clash_sound
  by (fastforce simp: body_predicates_disjoint_def body_predicate_matches_def list_all_iff list_ex_iff
      Let_def split: if_splits)

text \<open>In a package whose routes name every state bit, the state a route needs is determined.\<close>

lemma enabled_full:
  assumes "enabled s r" "requires_true r OR requires_false r = full"
  shows "requires_true r = s AND full" "requires_false r = NOT s AND full"
  using assms unfolding enabled_def by (auto simp: bit_eq_iff bit_simps)

lemma enabled_same_requirements:
  assumes "enabled s a" "enabled s b" "requires_true a OR requires_false a = full"
    "requires_true b OR requires_false b = full"
  shows "requires_true a = requires_true b" "requires_false a = requires_false b"
  using enabled_full [OF assms(1,3)] enabled_full [OF assms(2,4)] by simp_all

lemma route_candidateD:
  assumes "route_candidate state host method path headers body r = Some d"
  shows "ro_host r = host" "ro_method r = method" "ro_path r = path" "enabled state r"
    "max_uses r = 0 \<or> uses r < max_uses r" "header_predicates_match r headers"
    "body_predicate_matches r body = Some d"
    "same_body_replay r \<Longrightarrow> replay_digest_set r \<Longrightarrow> replay_digest r = d"
  using assms by (auto simp: route_candidate_def split: if_splits option.splits)

lemma overlap_sound:
  assumes "\<not> routes_overlap a b"
    and "route_candidate s host method path headers body a = Some d"
    and "route_candidate s host method path headers body b = Some e"
    and "requires_true a OR requires_false a = full" "requires_true b OR requires_false b = full"
  shows False
proof -
  note ca = route_candidateD [OF assms(2)] and cb = route_candidateD [OF assms(3)]
  have "requires_true a = requires_true b" "requires_false a = requires_false b"
    using enabled_same_requirements ca(4) cb(4) assms(4,5) by blast+
  then consider p where "p \<in> set (request_headers a)"
      "header_predicates_disjoint p (route_header b (hp_name p))"
    | "body_predicates_disjoint a b"
    using assms(1) ca(1,2,3) cb(1,2,3) by (auto simp: routes_overlap_def list_ex_iff split: if_splits)
  then show False
  proof cases
    case 1
    then obtain q where q: "route_header b (hp_name p) = Some q"
      by (auto simp: header_predicates_disjoint_def split: option.splits)
    then have "q \<in> set (request_headers b)" "hp_name q = hp_name p"
      by (auto simp: route_header_def find_Some_iff)
    then show False
      using 1 q ca(6) cb(6) header_disjoint_sound [of p q "find_header headers (hp_name p)"]
      by (auto simp: header_predicates_match_def list_all_iff)
  next
    case 2
    then show False using body_disjoint_sound ca(7) cb(7) by blast
  qed
qed

section \<open>The exploration of the states\<close>

text \<open>The states a package can get into: any enabled route may fire, in any order.\<close>

inductive reachable :: "route list \<Rightarrow> u64 \<Rightarrow> u64 \<Rightarrow> bool" for rs initial where
  reachable_start: "reachable rs initial initial"
| reachable_fire:
    "reachable rs initial s \<Longrightarrow> r \<in> set rs \<Longrightarrow> enabled s r \<Longrightarrow> reachable rs initial (apply_sets s r)"

lemmas reachable_intros = reachable_start reachable_fire

definition known_states :: "exploration \<Rightarrow> u64 list" where "known_states x = fst x"
definition reached :: "exploration \<Rightarrow> bool list" where "reached x = fst (snd x)"
definition changed :: "exploration \<Rightarrow> bool" where "changed x = snd (snd x)"

lemmas exploration_parts = known_states_def reached_def changed_def

lemma visit_routes_invariant:
  assumes "visit_routes rs is x = Some y" "P x"
    and "\<And>i x y. i \<in> set is \<Longrightarrow> P x \<Longrightarrow> visit_route rs i x = Some y \<Longrightarrow> P y"
  shows "P y"
  using assms
proof (induction "is" arbitrary: x)
  case (Cons i "is")
  from Cons.prems(1) obtain z where z: "visit_route rs i x = Some z" "visit_routes rs is z = Some y"
    by (cases "visit_route rs i x") auto
  then have "P z" using Cons.prems(2,3) by (meson list.set_intros(1))
  then show ?case using Cons.IH [OF z(2)] Cons.prems(3) by (meson list.set_intros(2))
qed simp

text \<open>What one visit does: nothing, mark the route, or mark it and add a state.\<close>

lemma visit_routeE:
  assumes "visit_route rs i x = Some y"
  obtains (none) "find (\<lambda>s. enabled s (rs ! i)) (known_states x) = None" "y = x"
  | (seen) s where "find (\<lambda>s. enabled s (rs ! i)) (known_states x) = Some s"
      "apply_sets s (rs ! i) \<in> set (known_states x)"
      "y = (known_states x, (reached x)[i := True], changed x)"
  | (new) s where "find (\<lambda>s. enabled s (rs ! i)) (known_states x) = Some s"
      "apply_sets s (rs ! i) \<notin> set (known_states x)" "length (known_states x) < ROUTE_MAX + 1"
      "y = (known_states x @ [apply_sets s (rs ! i)], (reached x)[i := True], True)"
  using assms
  by (cases x) (auto simp: visit_route_def exploration_parts Let_def split: option.splits if_splits)

lemma visit_routes_grow:
  assumes "visit_routes rs is x = Some y"
  shows "\<exists>new. known_states y = known_states x @ new \<and> length (known_states y) \<le> max (ROUTE_MAX + 1) (length (known_states x)) \<and>
           changed y = (changed x \<or> new \<noteq> [])"
proof (rule visit_routes_invariant [OF assms])
  fix i a b
  assume a: "\<exists>new. known_states a = known_states x @ new \<and> length (known_states a) \<le> max (ROUTE_MAX + 1) (length (known_states x)) \<and>
      changed a = (changed x \<or> new \<noteq> [])" and v: "visit_route rs i a = Some b"
  from v show "\<exists>new. known_states b = known_states x @ new \<and> length (known_states b) \<le> max (ROUTE_MAX + 1) (length (known_states x)) \<and>
      changed b = (changed x \<or> new \<noteq> [])"
    using a by (cases rule: visit_routeE) (auto simp: exploration_parts)
qed simp

text \<open>The loop always ends: a pass that goes on has added a state, and there is room for 257.\<close>

lemma explore_returns: "\<exists>result. explore rs states marks = Some result"
proof (induction "ROUTE_MAX + 1 - length states" arbitrary: states marks rule: less_induct)
  case less
  show ?case
  proof (cases "visit_routes rs [0..<length rs] (states, marks, False)")
    case None
    then show ?thesis by (simp add: explore.simps)
  next
    case (Some y)
    then show ?thesis
    proof (cases "changed y")
      case True
      then have "length states < length (known_states y)" "length (known_states y) \<le> max (ROUTE_MAX + 1) (length states)"
        using visit_routes_grow [OF Some] by (auto simp: exploration_parts)
      then have "ROUTE_MAX + 1 - length (known_states y) < ROUTE_MAX + 1 - length states" by auto
      then obtain result where "explore rs (known_states y) (reached y) = Some result" using less by blast
      with Some True show ?thesis
        by (subst explore.simps) (auto simp: exploration_parts split: prod.splits)
    next
      case False
      with Some show ?thesis
        by (subst explore.simps) (auto simp: exploration_parts split: prod.splits)
    qed
  qed
qed

definition explored :: "route list \<Rightarrow> u64 \<Rightarrow> exploration \<Rightarrow> bool" where
  "explored rs initial x \<longleftrightarrow>
     initial \<in> set (known_states x) \<and> distinct (known_states x) \<and> (\<forall>s\<in>set (known_states x). reachable rs initial s) \<and>
     length (reached x) = length rs \<and>
     (\<forall>i<length rs. reached x ! i \<longrightarrow> (\<exists>s\<in>set (known_states x). enabled s (rs ! i)))"

lemma visit_explored:
  assumes "explored rs initial x" "i < length rs" "visit_route rs i x = Some y"
  shows "explored rs initial y"
proof -
  note found = find_Some_iff [where P = "\<lambda>s. enabled s (rs ! i)"]
  from assms(3) show ?thesis
  proof (cases rule: visit_routeE)
    case none
    then show ?thesis using assms(1) by simp
  next
    case (seen s)
    then have "s \<in> set (known_states x)" "enabled s (rs ! i)" by (auto simp: found)
    then show ?thesis
      using assms(1,2) seen(3) by (auto simp: explored_def exploration_parts nth_list_update)
  next
    case (new s)
    then have s: "s \<in> set (known_states x)" "enabled s (rs ! i)" by (auto simp: found)
    then have "reachable rs initial (apply_sets s (rs ! i))"
      using assms(1,2) by (auto simp: explored_def intro: reachable_fire)
    then show ?thesis
      using assms(1,2) s new(2,4)
      by (auto simp: explored_def exploration_parts nth_list_update)
  qed
qed

lemma visit_routes_explored:
  assumes "visit_routes rs is x = Some y" "explored rs initial x" "\<forall>i\<in>set is. i < length rs"
  shows "explored rs initial y"
  by (rule visit_routes_invariant [where P = "explored rs initial", OF assms(1,2)])
    (use assms(3) visit_explored in blast)

text \<open>The loop ends after a pass that changed nothing, or in a pass that ran out of room.\<close>

lemma explored_unmark: "explored rs initial (s, r, c) \<Longrightarrow> explored rs initial (s, r, d)"
  by (simp add: explored_def exploration_parts)

lemma explore_last_pass:
  assumes "explore rs states marks = Some result" "explored rs initial (states, marks, False)"
  shows "case result of
      None \<Rightarrow> \<exists>x. explored rs initial x \<and> visit_routes rs [0..<length rs] x = None
    | Some (states', marks') \<Rightarrow>
        \<exists>m. explored rs initial (states', m, False) \<and>
            visit_routes rs [0..<length rs] (states', m, False) = Some (states', marks', False)"
  using assms
proof (induction rule: explore.raw_induct [rotated, consumes 1, case_names pass])
  case (pass explore' rs states marks result)
  let ?x = "(states, marks, False)"
  show ?case
  proof (cases "visit_routes rs [0..<length rs] ?x")
    case None
    then show ?thesis using pass by auto
  next
    case (Some y)
    obtain s m c where y: "y = (s, m, c)" by (cases y)
    have e: "explored rs initial (s, m, False)"
      using visit_routes_explored [OF Some pass.prems] explored_unmark by (auto simp: y)
    show ?thesis
    proof (cases c)
      case True
      then show ?thesis using pass.IH [OF _ e, of result] pass.hyps Some by (simp add: y)
    next
      case False
      then have "s = states" using visit_routes_grow [OF Some] by (auto simp: y exploration_parts)
      then show ?thesis using False pass.hyps pass.prems Some y by auto
    qed
  qed
qed

lemma visit_routes_marks:
  assumes "visit_routes rs is x = Some y" "reached x ! i" "i < length (reached x)"
  shows "reached y ! i \<and> i < length (reached y)"
proof (rule visit_routes_invariant [where P = "\<lambda>z. reached z ! i \<and> i < length (reached z)", OF assms(1)])
  fix j a b
  assume a: "reached a ! i \<and> i < length (reached a)" and v: "visit_route rs j a = Some b"
  from v show "reached b ! i \<and> i < length (reached b)"
    using a by (cases rule: visit_routeE; cases "i = j") (auto simp: exploration_parts)
qed (use assms in simp)

text \<open>A pass that changed nothing has marked every enabled route and found its result known.\<close>

lemma quiet_pass:
  assumes "visit_routes rs is x = Some y" "\<not> changed y" "i \<in> set is" "i < length (reached x)"
    "find (\<lambda>s. enabled s (rs ! i)) (known_states x) = Some s"
  shows "apply_sets s (rs ! i) \<in> set (known_states x) \<and> reached y ! i"
  using assms
proof (induction "is" arbitrary: x)
  case (Cons j "is")
  from Cons.prems(1) obtain z where z: "visit_route rs j x = Some z" "visit_routes rs is z = Some y"
    by (cases "visit_route rs j x") auto
  have quiet: "known_states z = known_states x" "length (reached z) = length (reached x)"
    using z(1)
    by (cases rule: visit_routeE; use visit_routes_grow [OF z(2)] Cons.prems(2) in \<open>auto simp: exploration_parts\<close>)+
  show ?case
  proof (cases "i \<in> set is")
    case True
    then show ?thesis using Cons.IH [OF z(2) Cons.prems(2) True] Cons.prems(4,5) quiet by simp
  next
    case False
    then have j: "j = i" using Cons.prems(3) by simp
    have "apply_sets s (rs ! i) \<in> set (known_states x)" "reached z ! i"
      using z(1) by (cases rule: visit_routeE;
          use Cons.prems(2,4,5) j visit_routes_grow [OF z(2)] in \<open>auto simp: exploration_parts\<close>)+
    then show ?thesis using visit_routes_marks [OF z(2)] quiet Cons.prems(4) by simp
  qed
qed simp

section \<open>A package whose routes name every state bit\<close>

definition masks_within :: "u64 \<Rightarrow> u64 \<Rightarrow> route list \<Rightarrow> bool" where
  "masks_within full initial rs \<longleftrightarrow>
     initial AND NOT full = 0 \<and> list_all (\<lambda>r. sets_true r AND NOT full = 0) rs"

definition routes_full :: "u64 \<Rightarrow> route list \<Rightarrow> bool" where
  "routes_full full rs \<longleftrightarrow> list_all (\<lambda>r. requires_true r OR requires_false r = full) rs"

lemma apply_sets_within:
  "s AND NOT full = 0 \<Longrightarrow> sets_true r AND NOT full = 0 \<Longrightarrow> apply_sets s r AND NOT full = 0"
  by (auto simp: apply_sets_def bit_eq_iff bit_simps)

lemma reachable_within:
  "reachable rs initial s \<Longrightarrow> masks_within full initial rs \<Longrightarrow> s AND NOT full = 0"
  by (induction rule: reachable.induct)
    (auto simp: masks_within_def list_all_iff intro: apply_sets_within)

lemma within_and: "(s :: u64) AND NOT full = 0 \<Longrightarrow> s AND full = s"
  by (auto simp: bit_eq_iff bit_simps)

lemma enabled_determined:
  assumes "reachable rs initial s" "enabled s r" "masks_within full initial rs" "routes_full full rs"
    "r \<in> set rs"
  shows "s = requires_true r"
  using enabled_full(1) [OF assms(2), of full] reachable_within [OF assms(1,3)] within_and assms(4,5)
  by (auto simp: routes_full_def list_all_iff)

text \<open>Each route leads to one state only, so that the 257 places are enough.\<close>

lemma reachable_few:
  assumes "masks_within full initial rs" "routes_full full rs"
  shows "{s. reachable rs initial s} \<subseteq> insert initial ((\<lambda>r. apply_sets (requires_true r) r) ` set rs)"
proof (clarify)
  fix s assume "reachable rs initial s" "s \<notin> (\<lambda>r. apply_sets (requires_true r) r) ` set rs"
  then show "s = initial"
    by (cases rule: reachable.cases) (use enabled_determined [OF _ _ assms] in auto)
qed

lemma visit_routes_None:
  assumes "visit_routes rs is x = None" "explored rs initial x" "\<forall>i\<in>set is. i < length rs"
  shows "\<exists>i z. i < length rs \<and> explored rs initial z \<and> visit_route rs i z = None"
  using assms
proof (induction "is" arbitrary: x)
  case (Cons i "is")
  show ?case
  proof (cases "visit_route rs i x")
    case None
    moreover have "i < length rs" using Cons.prems(3) by simp
    ultimately show ?thesis using Cons.prems(2) by blast
  next
    case (Some z)
    then show ?thesis
      using Cons.IH [of z] Cons.prems visit_explored [of rs initial x i z] by auto
  qed
qed simp

lemma visit_route_room:
  assumes e: "explored rs initial x" and i: "i < length rs"
    and hyps: "masks_within full initial rs" "routes_full full rs" "length rs \<le> ROUTE_MAX"
  shows "visit_route rs i x \<noteq> None"
proof
  assume "visit_route rs i x = None"
  then obtain s where s: "find (\<lambda>s. enabled s (rs ! i)) (known_states x) = Some s"
    "apply_sets s (rs ! i) \<notin> set (known_states x)" "ROUTE_MAX + 1 \<le> length (known_states x)"
    by (cases x) (auto simp: visit_route_def exploration_parts Let_def split: option.splits if_splits)
  then have on: "s \<in> set (known_states x)" "enabled s (rs ! i)" by (auto simp: find_Some_iff)
  let ?t = "apply_sets s (rs ! i)" and ?few = "insert initial ((\<lambda>r. apply_sets (requires_true r) r) ` set rs)"
  have r: "\<forall>s\<in>set (known_states x). reachable rs initial s" "distinct (known_states x)"
    using e by (simp_all add: explored_def)
  then have "reachable rs initial ?t" using on i by (auto intro: reachable_fire)
  then have "set (?t # known_states x) \<subseteq> ?few" using r reachable_few [OF hyps(1,2)] by auto
  then have "card (set (?t # known_states x)) \<le> card ?few" by (intro card_mono) auto
  also have "\<dots> \<le> 1 + length rs"
    using card_insert_le_m1 [of "1 + length rs" "(\<lambda>r. apply_sets (requires_true r) r) ` set rs" initial]
      card_image_le [of "set rs" "\<lambda>r. apply_sets (requires_true r) r"] card_length [of rs]
    by simp
  finally show False
    using s(2,3) r(2) hyps(3) distinct_card [of "?t # known_states x"] by simp
qed

lemma explore_exact:
  assumes hyps: "masks_within full initial rs" "routes_full full rs" "length rs \<le> ROUTE_MAX"
  obtains states marks where
    "explore rs [initial] (replicate (length rs) False) = Some (Some (states, marks))"
    "set states = {s. reachable rs initial s}" "length marks = length rs"
    "\<And>i. i < length rs \<Longrightarrow> marks ! i \<longleftrightarrow> (\<exists>s. reachable rs initial s \<and> enabled s (rs ! i))"
proof -
  obtain result where result: "explore rs [initial] (replicate (length rs) False) = Some result"
    using explore_returns by blast
  have "explored rs initial ([initial], replicate (length rs) False, False)"
    by (simp add: explored_def exploration_parts reachable_start)
  note last = explore_last_pass [OF result this]
  have "result \<noteq> None"
  proof
    assume "result = None"
    then obtain x where "explored rs initial x" "visit_routes rs [0..<length rs] x = None"
      using last by auto
    then obtain i z where "i < length rs" "explored rs initial z" "visit_route rs i z = None"
      using visit_routes_None [of rs "[0..<length rs]" x initial] by auto
    then show False using visit_route_room [OF _ _ hyps] by blast
  qed
  then obtain states marks where r: "result = Some (states, marks)" by auto
  then obtain m where m: "explored rs initial (states, m, False)"
    "visit_routes rs [0..<length rs] (states, m, False) = Some (states, marks, False)"
    using last by auto
  have e: "explored rs initial (states, marks, False)"
    using visit_routes_explored [OF m(2,1)] by simp
  have closed: "apply_sets s (rs ! i) \<in> set states \<and> marks ! i"
    if i: "i < length rs" and s: "s \<in> set states" "enabled s (rs ! i)" for i s
  proof -
    have det: "t = requires_true (rs ! i)" if "t \<in> set states" "enabled t (rs ! i)" for t
      using that e i enabled_determined [OF _ _ hyps(1,2)] by (auto simp: explored_def exploration_parts)
    obtain t where t: "find (\<lambda>s. enabled s (rs ! i)) states = Some t"
      using s by (cases "find (\<lambda>s. enabled s (rs ! i)) states") (auto simp: find_None_iff)
    then have "t \<in> set states" "enabled t (rs ! i)" by (auto simp: find_Some_iff)
    then have "t = s" using det [of t] det [OF s] by simp
    then show ?thesis
      using quiet_pass [OF m(2), of i t] t i m(1) by (simp add: exploration_parts explored_def)
  qed
  have complete: "s \<in> set states" if "reachable rs initial s" for s
    using that
  proof (induction rule: reachable.induct)
    case (reachable_fire s r)
    then show ?case using closed by (metis in_set_conv_nth)
  qed (use e in \<open>simp add: explored_def exploration_parts\<close>)
  show ?thesis
  proof (rule that)
    show "explore rs [initial] (replicate (length rs) False) = Some (Some (states, marks))"
      using result r by simp
    show "set states = {s. reachable rs initial s}" "length marks = length rs"
      using complete e by (auto simp: explored_def exploration_parts)
    show "marks ! i \<longleftrightarrow> (\<exists>s. reachable rs initial s \<and> enabled s (rs ! i))" if il: "i < length rs" for i
    proof
      assume "marks ! i"
      then obtain s where "s \<in> set states" "enabled s (rs ! i)"
        using e il by (auto simp: explored_def exploration_parts)
      then show "\<exists>s. reachable rs initial s \<and> enabled s (rs ! i)"
        using e by (auto simp: explored_def exploration_parts)
    next
      assume "\<exists>s. reachable rs initial s \<and> enabled s (rs ! i)"
      then show "marks ! i" using closed [OF il] complete by blast
    qed
  qed
qed

lemma routes_separate_full: "routes_separate k rs \<Longrightarrow> routes_full (full_state k) rs"
  by (auto simp: routes_separate_def routes_full_def list_all_iff in_set_conv_nth)

lemma routes_separateD:
  "routes_separate k rs \<Longrightarrow> i < length rs \<Longrightarrow> j < i \<Longrightarrow> \<not> routes_overlap (rs ! i) (rs ! j)"
  by (auto simp: routes_separate_def list_all_iff)

lemma separate_candidates:
  assumes "routes_separate k rs" "i < length rs" "j < length rs" "i \<noteq> j"
    "route_candidate s host method path headers body (rs ! i) = Some d"
    "route_candidate s host method path headers body (rs ! j) = Some e"
  shows False
proof -
  have full: "requires_true (rs ! n) OR requires_false (rs ! n) = full_state k" if "n < length rs" for n
    using routes_separate_full [OF assms(1)] that by (simp add: routes_full_def list_all_iff)
  show False
    using overlap_sound [OF _ assms(5,6) full full] overlap_sound [OF _ assms(6,5) full full]
      routes_separateD [OF assms(1)] assms(2-4) by (meson nat_neq_iff)
qed

lemma validation_exact:
  assumes "masks_within (full_state k) initial rs" "length rs \<le> ROUTE_MAX"
  shows "validate_schema_two_routes k initial rs =
      Some (routes_separate k rs \<and> (\<forall>i<length rs. \<exists>s. reachable rs initial s \<and> enabled s (rs ! i)))"
proof (cases "routes_separate k rs")
  case True
  obtain states marks where
    "explore rs [initial] (replicate (length rs) False) = Some (Some (states, marks))"
    "length marks = length rs"
    "\<And>i. i < length rs \<Longrightarrow> marks ! i \<longleftrightarrow> (\<exists>s. reachable rs initial s \<and> enabled s (rs ! i))"
    using explore_exact [OF assms(1) routes_separate_full [OF True] assms(2)] by metis
  then show ?thesis
    using True by (auto simp: validate_schema_two_routes_def list_all_length)
next
  case False
  then show ?thesis by (auto simp: validate_schema_two_routes_def)
qed

text \<open>C13: The check of a schema-two package always returns, for any routes at all, and for the masks
  a package's parser builds (bits of declared names only) it says yes exactly when the routes are limited,
  name every state and do not overlap, and every one of them can fire in some state that is reachable
  from the initial one; the room for 257 states never runs out.\<close>

theorem route_validation_decides:
  assumes "masks_within (full_state k) initial rs" "length rs \<le> ROUTE_MAX"
  shows "explore any_routes any_states any_marks \<noteq> None \<and>
    validate_schema_two_routes k initial rs =
      Some (routes_separate k rs \<and> (\<forall>i<length rs. \<exists>s. reachable rs initial s \<and> enabled s (rs ! i)))"
  using explore_returns [of any_routes any_states any_marks] validation_exact [OF assms] by auto

definition blank_route :: route where
  "blank_route = \<lparr>ro_host = [], ro_method = [], ro_path = [], ro_version = ''1.1'', ro_status = 0,
     ro_headers = [], requires_true = 0, requires_false = 0, sets_true = 0, sets_false = 0, ro_body = [],
     discard_limit = 0, sink_limit = 0, request_headers = [], has_request_body = False,
     same_body_replay = False, replay_digest_set = False, request_body_min = 0, request_body_max = 0,
     request_body_sha256 = [], replay_digest = [], request_body_slices = [], max_uses = 0, uses = 0\<rparr>"

definition login_routes :: "route list" where
  "login_routes =
     [blank_route\<lparr>ro_host := ''h'', ro_method := ''GET'', ro_path := ''/login'', ro_status := 401,
        requires_false := 1, sets_true := 1, max_uses := 1\<rparr>,
      blank_route\<lparr>ro_host := ''h'', ro_method := ''GET'', ro_path := ''/login'', ro_status := 200,
        requires_true := 1, max_uses := 2\<rparr>]"

lemma login_routes_checked:
  "masks_within (full_state 1) 0 login_routes" "length login_routes \<le> ROUTE_MAX"
  "routes_separate 1 login_routes" "reachable login_routes 0 0" "reachable login_routes 0 1"
proof -
  show "masks_within (full_state 1) 0 login_routes" "length login_routes \<le> ROUTE_MAX"
    "routes_separate 1 login_routes"
    by (simp_all add: login_routes_def blank_route_def masks_within_def full_state_def ROUTE_MAX_def
        routes_separate_def routes_overlap_def upt_rec)
  show "reachable login_routes 0 0" by (rule reachable_start)
  then have "reachable login_routes 0 (apply_sets 0 (login_routes ! 0))"
    by (rule reachable_fire) (simp_all add: login_routes_def blank_route_def enabled_def)
  then show "reachable login_routes 0 1"
    by (simp add: login_routes_def blank_route_def apply_sets_def)
qed

lemma login_reachable:
  "i < length login_routes \<Longrightarrow> \<exists>s. reachable login_routes 0 s \<and> enabled s (login_routes ! i)"
proof -
  assume "i < length login_routes"
  then have "i = 0 \<or> i = 1" by (auto simp: login_routes_def)
  moreover have "enabled 0 (login_routes ! 0)" "enabled 1 (login_routes ! 1)"
    by (simp_all add: login_routes_def blank_route_def enabled_def)
  ultimately show ?thesis using login_routes_checked(4,5) by auto
qed

theorem route_validation_decides_witness:
  "explore login_routes [0] [False, False] \<noteq> None \<and> validate_schema_two_routes 1 0 login_routes = Some True"
  using route_validation_decides [OF login_routes_checked(1,2), of login_routes "[0]" "[False, False]"]
    login_routes_checked(3) login_reachable by simp

lemma login_validated: "validate_schema_two_routes 1 0 login_routes = Some True"
  using validation_exact [OF login_routes_checked(1,2)] login_routes_checked(3) login_reachable by simp

end
