(* ===== verification/MobileSockets.thy ===== *)
theory MobileSockets
  imports MobileRoutes
begin

text \<open>
  The sockets the mobile adapter's route engine offers to the emulated adapter
  (\<open>runtimes/gb/src/mobile/mobile_route_engine.c\<close>): a UDP socket answers DNS queries for
  the package's names with 127.0.0.1, a TCP socket collects a request until it is
  complete, lets exactly one route answer it and hands the response out in pieces.
  \<open>room n\<close> says whether an allocation of \<open>n\<close> octets succeeds. The pointer \<open>response\<close> is an
  option, with the octets written to its block; \<open>response_size\<close> is a field of its own, because the
  code changes the two at different times.

  The lemmas show that how a request is cut into sends makes no difference, and what holds
  over any sequence of calls on a package that has passed its checks.
\<close>

unbundle bit_operations_syntax

section \<open>State\<close>

datatype mobile_addr = AddrNone | Addr4 u32 bytes | Addr6 u32 bytes

record route_socket =
  so_open :: bool
  so_connected :: bool
  so_ready :: bool
  so_closed :: bool
  so_tcp :: bool
  so_peer :: mobile_addr
  so_request :: bytes
  so_response :: "bytes option"
  so_response_size :: nat
  so_cursor :: nat

record route_stats =
  st_dns_requests :: u32
  st_http_requests :: u32
  st_matched_responses :: u32
  st_unauthorized_responses :: u32
  st_body_requests :: u32
  st_body_bytes :: u64
  st_replay_responses :: u32

record route_engine =
  en_dns :: "string list"
  en_state_bits :: u64
  en_routes :: "route list"
  en_sockets :: "route_socket list"
  en_errors :: u32
  en_stats :: route_stats

type_synonym room = "nat \<Rightarrow> bool"

definition REQUEST_MAX :: nat where "REQUEST_MAX = 1048576"
definition PARSED_HEADER_MAX :: nat where "PARSED_HEADER_MAX = 64"
definition MOBILE_MAX_CONNECTIONS :: nat where "MOBILE_MAX_CONNECTIONS = 2"
definition SIZE_MAX :: nat where "SIZE_MAX = 18446744073709551615"

definition empty_socket :: route_socket where
  "empty_socket = \<lparr>so_open = False, so_connected = False, so_ready = False, so_closed = False,
     so_tcp = False, so_peer = AddrNone, so_request = [], so_response = None, so_response_size = 0, so_cursor = 0\<rparr>"

definition count_error :: "route_engine \<Rightarrow> route_engine" where
  "count_error e = e\<lparr>en_errors := en_errors e + 1\<rparr>"

definition set_socket :: "nat \<Rightarrow> route_socket \<Rightarrow> route_engine \<Rightarrow> route_engine" where
  "set_socket c s e = e\<lparr>en_sockets := (en_sockets e)[c := s]\<rparr>"

definition loopback :: "mobile_addr option \<Rightarrow> u32 \<Rightarrow> bool" where
  "loopback addr port =
     (case addr of Some (Addr4 p host) \<Rightarrow> p = port \<and> host = [127, 0, 0, 1] | _ \<Rightarrow> False)"

definition copy_addr :: "mobile_addr option \<Rightarrow> mobile_addr" where
  "copy_addr s = (case s of None \<Rightarrow> AddrNone | Some a \<Rightarrow> a)"

section \<open>The request parser\<close>

fun header_end :: "bytes \<Rightarrow> nat option" where
  "header_end (a # b # c # d # rest) =
     (if a = 13 \<and> b = 10 \<and> c = 13 \<and> d = 10 then Some 4 else map_option Suc (header_end (b # c # d # rest)))"
| "header_end _ = None"

fun line_end :: "bytes \<Rightarrow> nat option" where
  "line_end (a # b # rest) = (if a = 13 \<and> b = 10 then Some 0 else map_option Suc (line_end (b # rest)))"
| "line_end _ = None"

fun parse_decimal_loop :: "nat \<Rightarrow> bytes \<Rightarrow> nat option" where
  "parse_decimal_loop v [] = Some v"
| "parse_decimal_loop v (b # bs) =
     (if b < 48 \<or> 57 < b \<or> (SIZE_MAX - (unat b - 48)) div 10 < v then None
      else parse_decimal_loop (v * 10 + (unat b - 48)) bs)"

definition parse_decimal :: "bytes \<Rightarrow> nat option" where
  "parse_decimal data = (if data = [] then None else parse_decimal_loop 0 data)"

definition octet_char :: "u8 \<Rightarrow> char" where
  "octet_char b = char_of (unat b)"

definition blank :: "u8 \<Rightarrow> bool" where
  "blank b \<longleftrightarrow> b = 32 \<or> b = 9"

definition trim :: "bytes \<Rightarrow> bytes" where
  "trim v = rev (dropWhile blank (rev (dropWhile blank v)))"

function parse_header_lines :: "bytes \<Rightarrow> parsed_header list \<Rightarrow> parsed_header list option" where
  "parse_header_lines cursor headers =
     (if length cursor < 2 then None
      else if cursor ! 0 = 13 \<and> cursor ! 1 = 10 then Some headers
      else if PARSED_HEADER_MAX \<le> length headers \<or> blank (cursor ! 0) then None
      else case line_end cursor of
             None \<Rightarrow> None
           | Some stop \<Rightarrow>
               let line = take stop cursor; name = takeWhile (\<lambda>b. b \<noteq> 58) line;
                   value = trim (drop (length name + 1) line);
                   h = \<lparr>ph_name = map (c_tolower \<circ> octet_char) name, ph_value = value\<rparr>
               in if length name = length line \<or> name = [] \<or> 64 < length name then None
                  else if \<not> list_all (\<lambda>b. c_isalnum (octet_char b) \<or> b = 45) name then None
                  else if list_ex (\<lambda>b. b < 32 \<or> b = 127) value then None
                  else if list_ex (\<lambda>prior. ph_name prior = ph_name h) headers then None
                  else parse_header_lines (drop (stop + 2) cursor) (headers @ [h]))"
  by pat_completeness auto
termination by (relation "measure (\<lambda>(cursor, _). length cursor)") auto

declare parse_header_lines.simps [simp del]

definition parse_http_headers :: "bytes \<Rightarrow> parsed_header list option" where
  "parse_http_headers head =
     (case line_end head of None \<Rightarrow> None | Some k \<Rightarrow> parse_header_lines (drop (k + 2) head) [])"

text \<open>\<open>sscanf\<close> with \<open>"%8s %1024s %15s %1s"\<close> must fill exactly three fields.\<close>

definition scan_word :: "nat \<Rightarrow> string \<Rightarrow> (string \<times> string) option" where
  "scan_word width s =
     (let t = dropWhile c_isspace s; w = takeWhile (\<lambda>c. \<not> c_isspace c) (take width t)
      in if w = [] then None else Some (w, drop (length w) t))"

definition scan_request_line :: "string \<Rightarrow> (string \<times> string \<times> string) option" where
  "scan_request_line s =
     (case scan_word 8 s of
        None \<Rightarrow> None
      | Some (verb, s1) \<Rightarrow>
          (case scan_word 1024 s1 of
             None \<Rightarrow> None
           | Some (path, s2) \<Rightarrow>
               (case scan_word 15 s2 of
                  None \<Rightarrow> None
                | Some (version, s3) \<Rightarrow>
                    if scan_word 1 s3 = None then Some (verb, path, version) else None)))"

definition request_host :: "string list \<Rightarrow> parsed_header list \<Rightarrow> string option" where
  "request_host dns headers =
     (case find_header headers ''host'' of
        Some h \<Rightarrow>
          let v = ph_value h; n = length (takeWhile (\<lambda>b. b \<noteq> 58) (take 253 v))
          in if n = 0 \<or> 254 \<le> n + 1 \<or> n < length v \<and> v ! n \<noteq> 58 then None
             else Some (map c_tolower (bytes_text (take n v)))
      | None \<Rightarrow> if length dns = 1 then Some (dns ! 0) else None)"

definition request_length :: "parsed_header list \<Rightarrow> nat option" where
  "request_length headers =
     (case find_header headers ''content-length'' of
        None \<Rightarrow> Some 0
      | Some h \<Rightarrow> parse_decimal (ph_value h))"

datatype request_parse =
    Incomplete
  | Malformed
  | Complete string string string "parsed_header list" bytes

text \<open>The head of a request: method, path, host, headers and the length of the body.\<close>

definition parse_head ::
  "string list \<Rightarrow> bytes \<Rightarrow> (string \<times> string \<times> string \<times> parsed_header list \<times> nat) option" where
  "parse_head dns head =
     (case line_end head of
        None \<Rightarrow> None
      | Some k \<Rightarrow>
          (case scan_request_line (bytes_text (take k head)) of
             None \<Rightarrow> None
           | Some (verb, path, version) \<Rightarrow>
               if path ! 0 \<noteq> CHR ''/'' \<or> version \<noteq> ''HTTP/1.0'' \<and> version \<noteq> ''HTTP/1.1'' then None
               else case parse_http_headers head of
                      None \<Rightarrow> None
                    | Some headers \<Rightarrow>
                        (case request_host dns headers of
                           None \<Rightarrow> None
                         | Some host \<Rightarrow>
                             (case request_length headers of
                                None \<Rightarrow> None
                              | Some n \<Rightarrow> Some (map c_toupper verb, path, host, headers, n)))))"

definition parse_request :: "string list \<Rightarrow> bytes \<Rightarrow> request_parse" where
  "parse_request dns request =
     (case header_end request of
        None \<Rightarrow> Incomplete
      | Some hs \<Rightarrow>
          (case parse_head dns (take hs request) of
             None \<Rightarrow> Malformed
           | Some (verb, path, host, headers, n) \<Rightarrow>
               if size_sub REQUEST_MAX hs < n then Malformed
               else if length request < hs + n then Incomplete
               else if length request \<noteq> hs + n then Malformed
               else Complete verb path host headers (drop hs request)))"

section \<open>Answering a complete request\<close>

definition count_request :: "bytes \<Rightarrow> route_stats \<Rightarrow> route_stats" where
  "count_request body st =
     (let st1 = st\<lparr>st_http_requests := st_http_requests st + 1\<rparr>
      in if body = [] then st1
         else st1\<lparr>st_body_requests := st_body_requests st1 + 1,
                  st_body_bytes := st_body_bytes st1 + of_nat (length body)\<rparr>)"

definition route_candidates ::
  "u64 \<Rightarrow> string \<Rightarrow> string \<Rightarrow> string \<Rightarrow> parsed_header list \<Rightarrow> bytes \<Rightarrow> route list \<Rightarrow> (nat \<times> string) list" where
  "route_candidates state host verb path headers body rs =
     List.map_filter (\<lambda>i. map_option (\<lambda>d. (i, d)) (route_candidate state host verb path headers body (rs ! i)))
       [0..<length rs]"

definition status_reason :: "nat \<Rightarrow> string" where
  "status_reason status =
     (if status = 200 then ''OK'' else if status = 204 then ''No Content''
      else if status = 400 then ''Bad Request'' else if status = 401 then ''Unauthorized''
      else if status = 403 then ''Forbidden'' else if status = 404 then ''Not Found''
      else if status = 409 then ''Conflict'' else if status = 413 then ''Payload Too Large''
      else if status = 503 then ''Service Unavailable'' else ''Response'')"

definition CRLF :: string where "CRLF = [CHR 0x0D, CHR 0x0A]"

definition response_head :: "route \<Rightarrow> string" where
  "response_head r =
     ''HTTP/'' @ ro_version r @ '' '' @ dec (ro_status r) @ '' '' @ status_reason (ro_status r) @ CRLF @
     ''Content-Length: '' @ dec (length (ro_body r)) @ CRLF @ ''Connection: close'' @ CRLF"

text \<open>
  \<open>add_headers cap used hs\<close> is the header text that \<open>snprintf\<close> writes after \<open>used\<close> octets of \<open>cap\<close>, and
  whether all of it fits; the first line that does not is cut off and closed with a zero.
\<close>

fun add_headers :: "nat \<Rightarrow> nat \<Rightarrow> (string \<times> string) list \<Rightarrow> string \<times> bool" where
  "add_headers cap used [] = ([], True)"
| "add_headers cap used ((name, value) # hs) =
     (let line = name @ '': '' @ value @ CRLF
      in if cap - used \<le> length line then (take (cap - used - 1) line @ [CHR 0x00], False)
         else case add_headers cap (used + length line) hs of (rest, fits) \<Rightarrow> (line @ rest, fits))"

definition response_capacity :: "route \<Rightarrow> nat" where
  "response_capacity r = 2048 + length (ro_headers r) * 1100 + length (ro_body r)"

text \<open>
  The block after the code has filled it, None when it was freed again, and whether the response is
  complete.
\<close>

definition build_response :: "route \<Rightarrow> bytes option \<times> bool" where
  "build_response r =
     (let head = response_head r; cap = response_capacity r
      in if cap \<le> length head then (None, False)
         else case add_headers cap (length head) (ro_headers r) of
                (hs, False) \<Rightarrow> (Some (text_bytes (head @ hs)), False)
              | (hs, True) \<Rightarrow>
                  if cap < length head + length hs + 2 + length (ro_body r)
                  then (Some (text_bytes (head @ hs)), False)
                  else (Some (text_bytes (head @ hs @ CRLF) @ ro_body r), True))"

definition use_route :: "string \<Rightarrow> route \<Rightarrow> route" where
  "use_route digest r =
     (let r1 = r\<lparr>uses := uses r + 1\<rparr>
      in if same_body_replay r1 \<and> \<not> replay_digest_set r1
         then r1\<lparr>replay_digest := digest, replay_digest_set := True\<rparr> else r1)"

definition count_answer :: "route \<Rightarrow> bool \<Rightarrow> route_stats \<Rightarrow> route_stats" where
  "count_answer r replay st =
     (let st1 = st\<lparr>st_matched_responses := st_matched_responses st + 1\<rparr>;
          st2 = (if ro_status r = 401
                 then st1\<lparr>st_unauthorized_responses := st_unauthorized_responses st1 + 1\<rparr> else st1)
      in if replay then st2\<lparr>st_replay_responses := st_replay_responses st2 + 1\<rparr> else st2)"

definition set_response :: "nat \<Rightarrow> bytes option \<Rightarrow> route_engine \<Rightarrow> route_engine" where
  "set_response c response e = set_socket c ((en_sockets e ! c)\<lparr>so_response := response\<rparr>) e"

definition set_answer :: "nat \<Rightarrow> bytes option \<Rightarrow> route_engine \<Rightarrow> route_engine" where
  "set_answer c response e =
     set_socket c ((en_sockets e ! c)\<lparr>so_response := response,
                                       so_response_size := (case response of None \<Rightarrow> 0 | Some bs \<Rightarrow> length bs),
                                       so_ready := True\<rparr>) e"

definition answer_request ::
  "room \<Rightarrow> nat \<Rightarrow> string \<Rightarrow> string \<Rightarrow> string \<Rightarrow> parsed_header list \<Rightarrow> bytes \<Rightarrow> route_engine \<Rightarrow>
     route_engine \<times> int" where
  "answer_request room c verb path host headers body e =
     (let e1 = e\<lparr>en_stats := count_request body (en_stats e)\<rparr>
      in case route_candidates (en_state_bits e1) host verb path headers body (en_routes e1) of
           [(i, digest)] \<Rightarrow>
             let r = en_routes e1 ! i; n = length body
             in if discard_limit r < n \<and> sink_limit r < n \<and> 0 < n then (e1, - 1)
                else if \<not> room (response_capacity r) then (set_response c None e1, - 1)
                else (case build_response r of
                        (response, False) \<Rightarrow> (set_response c response e1, - 1)
                      | (response, True) \<Rightarrow>
                          (set_answer c response
                             (e1\<lparr>en_state_bits := apply_sets (en_state_bits e1) r,
                                 en_routes := (en_routes e1)[i := use_route digest r],
                                 en_stats := count_answer r (same_body_replay r \<and> replay_digest_set r)
                                               (en_stats e1)\<rparr>), 1))
         | _ \<Rightarrow> (e1, - 1))"

definition prepare_http :: "room \<Rightarrow> nat \<Rightarrow> route_engine \<Rightarrow> route_engine \<times> int" where
  "prepare_http room c e =
     (case parse_request (en_dns e) (so_request (en_sockets e ! c)) of
        Incomplete \<Rightarrow> (e, 0)
      | Malformed \<Rightarrow> (e, - 1)
      | Complete verb path host headers body \<Rightarrow> answer_request room c verb path host headers body e)"

section \<open>The socket calls\<close>

definition sock_open :: "room \<Rightarrow> nat \<Rightarrow> bool \<Rightarrow> bool \<Rightarrow> route_engine \<Rightarrow> route_engine \<times> bool" where
  "sock_open room c tcp ipv4 e =
     (if MOBILE_MAX_CONNECTIONS \<le> c \<or> \<not> ipv4 \<or> so_open (en_sockets e ! c) then (count_error e, False)
      else if \<not> room (REQUEST_MAX + 1) then (count_error (set_socket c empty_socket e), False)
      else (set_socket c (empty_socket\<lparr>so_open := True, so_tcp := tcp\<rparr>) e, True))"

definition sock_close :: "nat \<Rightarrow> route_engine \<Rightarrow> route_engine" where
  "sock_close c e = (if c < MOBILE_MAX_CONNECTIONS then set_socket c empty_socket e else e)"

definition sock_connect :: "nat \<Rightarrow> mobile_addr option \<Rightarrow> route_engine \<Rightarrow> route_engine \<times> int" where
  "sock_connect c addr e =
     (if MOBILE_MAX_CONNECTIONS \<le> c \<or> \<not> so_open (en_sockets e ! c) \<or> \<not> so_tcp (en_sockets e ! c) \<or>
         \<not> loopback addr 80
      then (count_error e, - 1)
      else (set_socket c ((en_sockets e ! c)\<lparr>so_connected := True, so_peer := copy_addr addr\<rparr>) e, 1))"

text \<open>The labels of a query's name from offset \<open>o\<close>, with the \<open>used\<close> octets before them.\<close>

function dns_labels :: "bytes \<Rightarrow> nat \<Rightarrow> bytes \<Rightarrow> bytes option" where
  "dns_labels q pos used =
     (if pos < length q \<and> q ! pos \<noteq> 0 then
        let label = unat (q ! pos); start = pos + 1
        in if 63 < label \<or> length q < start + label \<or> 254 \<le> length used + label + 1 then None
           else dns_labels q (start + label)
                  (used @ (if used = [] then [] else [46]) @ slice start label q)
      else Some used)"
  by pat_completeness auto
termination by (relation "measure (\<lambda>(q, pos, used). length q - pos)") auto

declare dns_labels.simps [simp del]

definition dns_answer :: bytes where
  "dns_answer = [0xC0, 0x0C, 0, 1, 0, 1, 0, 0, 0, 0, 0, 4, 127, 0, 0, 1]"

definition dns_response ::
  "room \<Rightarrow> nat \<Rightarrow> bytes \<Rightarrow> mobile_addr option \<Rightarrow> route_engine \<Rightarrow> route_engine \<times> int" where
  "dns_response room c q addr e =
     (if \<not> loopback addr 53 \<or> length q < 17 \<or> 512 < length q then (e, - 1)
      else case dns_labels q 12 [] of
             None \<Rightarrow> (e, - 1)
           | Some host \<Rightarrow>
               if map c_tolower (bytes_text host) \<notin> set (en_dns e) then (e, - 1)
               else if \<not> room (length q + 16) then (set_response c None e, - 1)
               else let e1 = set_answer c (Some (q[2 := 0x81, 3 := 0x80, 6 := 0, 7 := 1] @ dns_answer)) e
                    in (set_socket c ((en_sockets e1 ! c)\<lparr>so_peer := copy_addr addr\<rparr>)
                          (e1\<lparr>en_stats := (en_stats e1)\<lparr>st_dns_requests := st_dns_requests (en_stats e1) + 1\<rparr>\<rparr>),
                        int (length q)))"

definition sock_send ::
  "room \<Rightarrow> nat \<Rightarrow> bytes option \<Rightarrow> mobile_addr option \<Rightarrow> route_engine \<Rightarrow> route_engine \<times> int" where
  "sock_send room c data addr e =
     (case data of
        None \<Rightarrow> (count_error e, - 1)
      | Some d \<Rightarrow>
          if MOBILE_MAX_CONNECTIONS \<le> c \<or> \<not> so_open (en_sockets e ! c) then (count_error e, - 1)
          else let s = en_sockets e ! c
               in if \<not> so_tcp s
                  then (case dns_response room c d addr e of
                          (e', rc) \<Rightarrow> (if rc < 0 then count_error e' else e', rc))
                  else if \<not> so_connected s \<or> REQUEST_MAX - length (so_request s) < length d
                  then (count_error e, - 1)
                  else (case prepare_http room c (set_socket c (s\<lparr>so_request := so_request s @ d\<rparr>) e) of
                          (e', rc) \<Rightarrow> if rc < 0 then (count_error e', - 1) else (e', int (length d))))"

text \<open>
  The octets that \<open>memcpy\<close> takes from the response; None when it reads through a null pointer or beyond
  what was written.
\<close>

definition copy_response :: "bytes option \<Rightarrow> nat \<Rightarrow> nat \<Rightarrow> bytes option" where
  "copy_response response from count =
     (if count = 0 then Some []
      else case response of
             None \<Rightarrow> None
           | Some bs \<Rightarrow> if length bs < from + count then None else Some (slice from count bs))"

text \<open>A receive without a buffer only asks whether the connection is still alive.\<close>

definition sock_recv ::
  "nat \<Rightarrow> nat option \<Rightarrow> route_engine \<Rightarrow> route_engine \<times> int \<times> bytes option" where
  "sock_recv c capacity e =
     (if MOBILE_MAX_CONNECTIONS \<le> c \<or> \<not> so_open (en_sockets e ! c) then (count_error e, - 1, Some [])
      else let s = en_sockets e ! c
           in case capacity of
                None \<Rightarrow> (e, if so_closed s then - 2 else 0, Some [])
              | Some n \<Rightarrow>
                  if \<not> so_ready s then (e, 0, Some [])
                  else if so_response_size s \<le> so_cursor s
                  then (set_socket c (s\<lparr>so_closed := True\<rparr>) e, - 2, Some [])
                  else let count = min n (so_response_size s - so_cursor s)
                       in (set_socket c (s\<lparr>so_cursor := so_cursor s + count\<rparr>) e, int count,
                           copy_response (so_response s) (so_cursor s) count))"

section \<open>How a request is cut makes no difference\<close>

lemma header_end_append: "header_end a = Some k \<Longrightarrow> header_end (a @ b) = Some k"
  by (induction a arbitrary: k rule: header_end.induct) (auto split: if_splits)

lemma header_end_le: "header_end a = Some k \<Longrightarrow> k \<le> length a"
  by (induction a arbitrary: k rule: header_end.induct) (auto split: if_splits)

lemma parse_request_prefix:
  assumes "parse_request dns (a @ b) \<noteq> Malformed" "b \<noteq> []"
  shows "parse_request dns a = Incomplete"
proof (cases "header_end a")
  case None
  then show ?thesis by (simp add: parse_request_def)
next
  case (Some hs)
  then show ?thesis
    using assms header_end_append [OF Some, of b] header_end_le [OF Some]
    by (auto simp: parse_request_def split: option.splits if_splits)
qed

fun send_all ::
  "room \<Rightarrow> nat \<Rightarrow> bytes list \<Rightarrow> mobile_addr option \<Rightarrow> route_engine \<Rightarrow> route_engine \<times> int list" where
  "send_all room c [] addr e = (e, [])"
| "send_all room c (d # ds) addr e =
     (case sock_send room c (Some d) addr e of
        (e1, rc) \<Rightarrow> (case send_all room c ds addr e1 of (e2, rcs) \<Rightarrow> (e2, rc # rcs)))"

definition connected_socket :: "nat \<Rightarrow> route_engine \<Rightarrow> bool" where
  "connected_socket c e \<longleftrightarrow>
     c < MOBILE_MAX_CONNECTIONS \<and> length (en_sockets e) = MOBILE_MAX_CONNECTIONS \<and>
     so_open (en_sockets e ! c) \<and> so_tcp (en_sockets e ! c) \<and> so_connected (en_sockets e ! c)"

lemma send_connected:
  assumes "connected_socket c e" "length (so_request (en_sockets e ! c)) + length d \<le> REQUEST_MAX"
  shows "sock_send room c (Some d) addr e =
    (case prepare_http room c (set_socket c ((en_sockets e ! c)\<lparr>so_request := so_request (en_sockets e ! c) @ d\<rparr>) e)
     of (e', rc) \<Rightarrow> if rc < 0 then (count_error e', - 1) else (e', int (length d)))"
  using assms by (auto simp: sock_send_def connected_socket_def Let_def)

lemma send_connected_value:
  assumes "sock_send room c (Some d) addr e = (e', rc)" "connected_socket c e"
    "length (so_request (en_sockets e ! c)) + length d \<le> REQUEST_MAX"
  shows "(if rc < 0 then - 1 else int (length d)) = rc"
  using assms(1) unfolding send_connected [OF assms(2,3)] by (auto split: prod.splits if_splits)

lemma set_socket_twice [simp]: "set_socket c t (set_socket c s e) = set_socket c t e"
  by (simp add: set_socket_def)

lemma set_socket_at [simp]:
  "c < length (en_sockets e) \<Longrightarrow> en_sockets (set_socket c s e) ! c = s"
  by (simp add: set_socket_def)

lemma set_socket_parts [simp]:
  "en_dns (set_socket c s e) = en_dns e" "en_routes (set_socket c s e) = en_routes e"
  "en_state_bits (set_socket c s e) = en_state_bits e" "en_stats (set_socket c s e) = en_stats e"
  "en_errors (set_socket c s e) = en_errors e"
  "en_sockets (set_socket c s e) = (en_sockets e)[c := s]"
  by (simp_all add: set_socket_def)

text \<open>A piece that leaves more to come is only stored.\<close>

lemma send_piece:
  assumes c: "connected_socket c e" and p: "p = so_request (en_sockets e ! c)"
    and more: "parse_request (en_dns e) (p @ d @ rest) \<noteq> Malformed" "rest \<noteq> []"
    and size: "length (p @ d @ rest) \<le> REQUEST_MAX"
  shows "sock_send room c (Some d) addr e =
    (set_socket c ((en_sockets e ! c)\<lparr>so_request := p @ d\<rparr>) e, int (length d))"
proof -
  have "c < length (en_sockets e)" using c by (simp add: connected_socket_def)
  moreover have "parse_request (en_dns e) (p @ d) = Incomplete"
    using parse_request_prefix [of "en_dns e" "p @ d" rest] more by simp
  ultimately show ?thesis
    using send_connected [OF c, of d room addr] size p by (simp add: prepare_http_def)
qed

definition piece_results :: "int \<Rightarrow> bytes list \<Rightarrow> int list" where
  "piece_results rc pieces =
     map (int \<circ> length) (butlast pieces) @ [if rc < 0 then - 1 else int (length (last pieces))]"

lemma send_all_concat:
  assumes "connected_socket c e" "pieces \<noteq> []" "[] \<notin> set pieces"
    "parse_request (en_dns e) (so_request (en_sockets e ! c) @ concat pieces) \<noteq> Malformed"
    "length (so_request (en_sockets e ! c) @ concat pieces) \<le> REQUEST_MAX"
  shows "\<exists>e' rc. sock_send room c (Some (concat pieces)) addr e = (e', rc) \<and>
    send_all room c pieces addr e = (e', piece_results rc pieces)"
  using assms
proof (induction pieces arbitrary: e)
  case (Cons d ds)
  let ?s = "en_sockets e ! c" and ?p = "so_request (en_sockets e ! c)"
  have c: "c < length (en_sockets e)" using Cons.prems(1) by (simp add: connected_socket_def)
  show ?case
  proof (cases "ds = []")
    case True
    have "length ?p + length d \<le> REQUEST_MAX" using Cons.prems(5) True by simp
    then show ?thesis
      using send_connected_value [OF _ Cons.prems(1), of room d addr] True
      by (cases "sock_send room c (Some d) addr e") (auto simp: piece_results_def split: if_splits)
  next
    case False
    let ?e = "set_socket c (?s\<lparr>so_request := ?p @ d\<rparr>) e"
    have "concat ds \<noteq> []" using False Cons.prems(3) by (cases ds) auto
    then have first: "sock_send room c (Some d) addr e = (?e, int (length d))"
      using send_piece [OF Cons.prems(1) refl, of d "concat ds" room addr] Cons.prems(4,5) by simp
    have c': "connected_socket c ?e" using Cons.prems(1) by (simp add: connected_socket_def)
    have "\<exists>e' rc. sock_send room c (Some (concat ds)) addr ?e = (e', rc) \<and>
        send_all room c ds addr ?e = (e', piece_results rc ds)"
      using Cons.IH [OF c' False] Cons.prems(3-5) c by simp
    then obtain e' rc where r: "sock_send room c (Some (concat ds)) addr ?e = (e', rc)"
      "send_all room c ds addr ?e = (e', piece_results rc ds)" by blast
    have whole: "\<exists>rc'. sock_send room c (Some (concat (d # ds))) addr e = (e', rc') \<and> (rc' < 0) = (rc < 0)"
      using r(1) send_connected [OF Cons.prems(1), of "concat (d # ds)" room addr]
        send_connected [OF c', of "concat ds" room addr] Cons.prems(5) c
      by (auto split: prod.splits if_splits)
    moreover have "send_all room c (d # ds) addr e = (e', int (length d) # piece_results rc ds)"
      using first r(2) by simp
    ultimately show ?thesis using False by (auto simp: piece_results_def)
  qed
qed simp

text \<open>C22: A request that is not malformed is treated the same however the guest cuts it into sends: the
  engine, with its states, routes, counters and the answer to be read, ends up exactly as after a single
  send of the whole, and the sends report their lengths, the last one a failure if the single one does.\<close>

theorem request_fragmentation:
  assumes "connected_socket c e" "so_request (en_sockets e ! c) = []"
    "pieces \<noteq> []" "[] \<notin> set pieces" "length (concat pieces) \<le> REQUEST_MAX"
    "parse_request (en_dns e) (concat pieces) \<noteq> Malformed"
    "sock_send room c (Some (concat pieces)) addr e = (e', rc)"
  shows "send_all room c pieces addr e = (e', piece_results rc pieces)"
  using send_all_concat [of c e pieces room addr] assms by auto

definition no_stats :: route_stats where
  "no_stats = \<lparr>st_dns_requests = 0, st_http_requests = 0, st_matched_responses = 0,
     st_unauthorized_responses = 0, st_body_requests = 0, st_body_bytes = 0, st_replay_responses = 0\<rparr>"

definition fresh_engine :: "string list \<Rightarrow> u64 \<Rightarrow> route list \<Rightarrow> route_engine" where
  "fresh_engine dns initial rs =
     \<lparr>en_dns = dns, en_state_bits = initial, en_routes = rs,
      en_sockets = replicate MOBILE_MAX_CONNECTIONS empty_socket, en_errors = 0, en_stats = no_stats\<rparr>"

definition login_request :: bytes where
  "login_request = text_bytes (''GET /login HTTP/1.0'' @ CRLF @ ''Host: h'' @ CRLF @ CRLF)"

definition login_engine :: route_engine where
  "login_engine = set_socket 0 (empty_socket\<lparr>so_open := True, so_tcp := True, so_connected := True\<rparr>)
     (fresh_engine [''h''] 0 login_routes)"

lemma login_request_octets: "login_request = [71,69,84,32,47,108,111,103,105,110,32,72,84,84,80,47,49,46,48,13,10,72,111,115,116,58,32,104,13,10,13,10]"
  by (simp add: login_request_def text_bytes_def CRLF_def)

lemma login_line: "bytes_text (take 19 login_request) = ''GET /login HTTP/1.0''"
  by (simp add: login_request_octets bytes_text_def char_of_def bit_0)

lemma login_headers:
  "parse_http_headers login_request = Some [\<lparr>ph_name = ''host'', ph_value = [104]\<rparr>]"
  by (simp add: parse_http_headers_def login_request_octets parse_header_lines.simps Let_def
      PARSED_HEADER_MAX_def blank_def trim_def octet_char_def c_isalnum_def c_isdigit_def
      c_islower_def c_isupper_def c_tolower_def less_eq_char_def char_of_def bit_0)

lemma login_parsed:
  "parse_request [''h''] login_request =
     Complete ''GET'' ''/login'' ''h'' [\<lparr>ph_name = ''host'', ph_value = [104]\<rparr>] []"
proof -
  have "header_end login_request = Some 32" "line_end login_request = Some 19" "length login_request = 32"
    by (simp_all add: login_request_octets)
  moreover have "scan_request_line ''GET /login HTTP/1.0'' = Some (''GET'', ''/login'', ''HTTP/1.0'')"
    by (simp add: scan_request_line_def scan_word_def c_isspace_def Let_def)
  moreover have "request_host [''h''] [\<lparr>ph_name = ''host'', ph_value = [104]\<rparr>] = Some ''h''"
    by (simp add: request_host_def find_header_def Let_def bytes_text_def char_of_def bit_0 c_tolower_def
        c_isupper_def less_eq_char_def)
  moreover have "request_length [\<lparr>ph_name = ''host'', ph_value = [104]\<rparr>] = Some 0"
    by (simp add: request_length_def find_header_def)
  ultimately show ?thesis
    by (simp add: parse_request_def parse_head_def login_line login_headers REQUEST_MAX_def
        c_toupper_def c_islower_def less_eq_char_def)
qed

lemma login_candidates:
  "route_candidates 0 ''h'' ''GET'' ''/login'' [\<lparr>ph_name = ''host'', ph_value = [104]\<rparr>] [] login_routes = [(0, [])]"
  by (simp add: route_candidates_def login_routes_def blank_route_def map_filter_def upt_rec route_candidate_def enabled_def
    header_predicates_match_def body_predicate_matches_def)

lemma login_response: "\<exists>bs. build_response (login_routes ! 0) = (Some bs, True)"
  by (simp add: build_response_def login_routes_def blank_route_def response_head_def response_capacity_def
     dec.simps status_reason_def CRLF_def)

theorem request_fragmentation_witness:
  "\<exists>e'. send_all (\<lambda>_. True) 0 [take 7 login_request, drop 7 login_request] None login_engine = (e', [7, 25]) \<and>
     st_matched_responses (en_stats e') = 1"
proof -
  obtain bs where "build_response (login_routes ! 0) = (Some bs, True)" using login_response by blast
  then obtain e' where e': "sock_send (\<lambda>_. True) 0 (Some login_request) None login_engine = (e', 32)"
    "st_matched_responses (en_stats e') = 1"
    by (simp add: sock_send_def login_engine_def fresh_engine_def MOBILE_MAX_CONNECTIONS_def
        empty_socket_def set_socket_def REQUEST_MAX_def prepare_http_def login_parsed login_candidates
        answer_request_def set_answer_def count_request_def count_answer_def no_stats_def Let_def login_request_octets
        [THEN arg_cong [where f = length]])
  let ?pieces = "[take 7 login_request, drop 7 login_request]"
  have "connected_socket 0 login_engine" "so_request (en_sockets login_engine ! 0) = []"
    "en_dns login_engine = [''h'']"
    by (simp_all add: connected_socket_def login_engine_def fresh_engine_def empty_socket_def
        MOBILE_MAX_CONNECTIONS_def)
  moreover have "?pieces \<noteq> []" "[] \<notin> set ?pieces" "length (concat ?pieces) \<le> REQUEST_MAX"
    "concat ?pieces = login_request"
    by (simp_all add: login_request_octets REQUEST_MAX_def)
  ultimately have "send_all (\<lambda>_. True) 0 ?pieces None login_engine = (e', piece_results 32 ?pieces)"
    using e'(1) login_parsed by (intro request_fragmentation) simp_all
  then show ?thesis using e'(2) by (simp add: piece_results_def login_request_octets)
qed

section \<open>Any sequence of calls\<close>

datatype sock_call =
    OpenCall nat bool bool
  | CloseCall nat
  | ConnectCall nat "mobile_addr option"
  | SendCall nat "bytes option" "mobile_addr option"
  | RecvCall nat "nat option"

fun do_call :: "room \<Rightarrow> sock_call \<Rightarrow> route_engine \<Rightarrow> route_engine" where
  "do_call room (OpenCall c tcp ipv4) e = fst (sock_open room c tcp ipv4 e)"
| "do_call room (CloseCall c) e = sock_close c e"
| "do_call room (ConnectCall c addr) e = fst (sock_connect c addr e)"
| "do_call room (SendCall c data addr) e = fst (sock_send room c data addr e)"
| "do_call room (RecvCall c n) e = fst (sock_recv c n e)"

text \<open>Each call has the allocations of its own moment.\<close>

fun run_calls :: "(room \<times> sock_call) list \<Rightarrow> route_engine \<Rightarrow> route_engine" where
  "run_calls [] e = e"
| "run_calls ((room, call) # calls) e = run_calls calls (do_call room call e)"

text \<open>A route as the package has it, without what answering changes.\<close>

definition pristine :: "route \<Rightarrow> route" where
  "pristine r = r\<lparr>uses := 0, replay_digest_set := False, replay_digest := []\<rparr>"

lemma pristine_fields [simp]:
  "ro_headers (pristine r) = ro_headers r" "ro_body (pristine r) = ro_body r"
  "response_head (pristine r) = response_head r" "response_capacity (pristine r) = response_capacity r"
  by (simp_all add: pristine_def response_head_def response_capacity_def)

lemma pristine_simps [simp]:
  "enabled s (pristine r) = enabled s r" "apply_sets s (pristine r) = apply_sets s r"
  "max_uses (pristine r) = max_uses r" "build_response (pristine r) = build_response r"
  "requires_true (pristine r) = requires_true r" "requires_false (pristine r) = requires_false r"
  "routes_overlap (pristine a) (pristine b) = routes_overlap a b"
  "pristine (use_route d r) = pristine r"
  by (simp add: build_response_def Let_def cong: if_cong split: prod.split bool.split | simp add: pristine_def enabled_def apply_sets_def routes_overlap_def
      route_header_def body_predicates_disjoint_def use_route_def Let_def)+

definition same_package :: "route list \<Rightarrow> route list \<Rightarrow> bool" where
  "same_package rs0 rs \<longleftrightarrow> map pristine rs = map pristine rs0"

lemma same_package_nth:
  "same_package rs0 rs \<Longrightarrow> i < length rs \<Longrightarrow> pristine (rs ! i) = pristine (rs0 ! i)"
  by (metis same_package_def length_map nth_map)

lemma same_package_length: "same_package rs0 rs \<Longrightarrow> length rs = length rs0"
  by (metis same_package_def length_map)

lemma same_package_separate:
  assumes "same_package rs0 rs" "routes_separate k rs0"
  shows "routes_separate k rs"
  unfolding routes_separate_def list_all_iff
proof (intro ballI conjI)
  fix i j assume i: "i \<in> set [0..<length rs]"
  have len: "length rs = length rs0" by (rule same_package_length [OF assms(1)])
  have eq: "pristine (rs ! n) = pristine (rs0 ! n)" if "n < length rs" for n
    using same_package_nth [OF assms(1) that] .
  have old: "max_uses (rs0 ! i) \<noteq> 0" "requires_true (rs0 ! i) OR requires_false (rs0 ! i) = full_state k"
    using assms(2) i len by (auto simp: routes_separate_def list_all_iff)
  show "max_uses (rs ! i) \<noteq> 0" "requires_true (rs ! i) OR requires_false (rs ! i) = full_state k"
    using old eq [of i] i by (metis atLeastLessThan_iff pristine_simps(3,5,6) set_upt)+
  assume j: "j \<in> set [0..<i]"
  then have "\<not> routes_overlap (rs0 ! i) (rs0 ! j)" using routes_separateD [OF assms(2)] i len by simp
  then show "\<not> routes_overlap (rs ! i) (rs ! j)"
    using eq [of i] eq [of j] i j by (metis atLeastLessThan_iff order.strict_trans pristine_simps(7) set_upt)
qed

text \<open>What the arrays of a route and the range of its status leave room for.\<close>

definition route_fits :: "route \<Rightarrow> bool" where
  "route_fits r \<longleftrightarrow>
     length (ro_version r) \<le> 3 \<and> ro_status r < 1000 \<and> length (ro_body r) < 2 ^ 64 \<and>
     list_all (\<lambda>(name, value). length name \<le> 64 \<and> length value \<le> 1024) (ro_headers r)"

lemma add_headers_fit:
  assumes "list_all (\<lambda>(name, value). length name \<le> 64 \<and> length value \<le> 1024) hs"
    "used + 1100 * length hs < cap"
  shows "\<exists>t. add_headers cap used hs = (t, True) \<and> length t \<le> 1100 * length hs"
  using assms
proof (induction cap used hs rule: add_headers.induct)
  case (2 cap used name v hs)
  let ?line = "name @ '': '' @ v @ CRLF"
  have line: "length ?line \<le> 1100" using "2.prems"(1) by (simp add: CRLF_def)
  then have inside: "\<not> cap - used \<le> length ?line" "used + length ?line + 1100 * length hs < cap"
    using "2.prems"(2) by auto
  obtain t where "add_headers cap (used + length ?line) hs = (t, True)" "length t \<le> 1100 * length hs"
    using "2.IH" [OF refl inside(1) _ inside(2)] "2.prems"(1) by auto
  then show ?case using inside(1) line by (simp add: Let_def)
qed simp

lemma build_response_fits:
  assumes "route_fits r"
  shows "\<exists>bs. build_response r = (Some bs, True)"
proof -
  have "length (dec (ro_status r)) \<le> 3" "length (dec (length (ro_body r))) \<le> 20"
    using assms length_dec [of 3 "ro_status r"] length_dec [of 20 "length (ro_body r)"]
    by (auto simp: route_fits_def)
  moreover have "length (status_reason (ro_status r)) \<le> 19" by (simp add: status_reason_def)
  ultimately have head: "length (response_head r) \<le> 150"
    using assms by (simp add: response_head_def CRLF_def route_fits_def)
  obtain hs where hs: "add_headers (response_capacity r) (length (response_head r)) (ro_headers r) = (hs, True)"
      "length hs \<le> 1100 * length (ro_headers r)"
    using add_headers_fit [of "ro_headers r" "length (response_head r)" "response_capacity r"] assms head
    by (auto simp: route_fits_def response_capacity_def)
  then show ?thesis
    using head by (simp add: build_response_def response_capacity_def)
qed

text \<open>
  What a socket holds: a connection to the gateway only, and an answer of the package only, or a null
  pointer if \<open>lost\<close> is possible.
\<close>

definition answer_ok :: "route list \<Rightarrow> bool \<Rightarrow> bytes \<Rightarrow> bool" where
  "answer_ok rs0 tcp bs \<longleftrightarrow>
     (if tcp then \<exists>r\<in>set rs0. build_response r = (Some bs, True) else \<exists>query. bs = query @ dns_answer)"

definition gateway_only :: "route_socket \<Rightarrow> bool" where
  "gateway_only s \<longleftrightarrow> (so_connected s \<longrightarrow> so_tcp s \<and> so_peer s = Addr4 80 [127, 0, 0, 1])"

definition socket_ok :: "bool \<Rightarrow> route list \<Rightarrow> route_socket \<Rightarrow> bool" where
  "socket_ok lost rs0 s \<longleftrightarrow> gateway_only s \<and>
     (so_ready s \<longrightarrow>
        (case so_response s of
           None \<Rightarrow> lost
         | Some bs \<Rightarrow> so_response_size s = length bs \<and> answer_ok rs0 (so_tcp s) bs))"

definition engine_ok :: "bool \<Rightarrow> u64 \<Rightarrow> route list \<Rightarrow> route_engine \<Rightarrow> bool" where
  "engine_ok lost initial rs0 e \<longleftrightarrow>
     same_package rs0 (en_routes e) \<and> list_all route_fits rs0 \<and> reachable rs0 initial (en_state_bits e) \<and>
     list_all (\<lambda>r. uses r \<le> max_uses r \<and> max_uses r \<noteq> 0) (en_routes e) \<and>
     st_matched_responses (en_stats e) = sum_list (map uses (en_routes e)) \<and>
     length (en_sockets e) = MOBILE_MAX_CONNECTIONS \<and> list_all (socket_ok lost rs0) (en_sockets e)"

lemma engine_ok_count_error [simp]: "engine_ok lost initial rs0 (count_error e) = engine_ok lost initial rs0 e"
  by (simp add: engine_ok_def count_error_def)

lemma engine_ok_set_socket:
  "engine_ok lost initial rs0 e \<Longrightarrow> socket_ok lost rs0 s \<Longrightarrow> engine_ok lost initial rs0 (set_socket c s e)"
  by (auto simp: engine_ok_def list_all_iff dest!: set_update_subset_insert [THEN subsetD])

lemma engine_ok_stats:
  "engine_ok lost initial rs0 e \<Longrightarrow> st_matched_responses st = st_matched_responses (en_stats e) \<Longrightarrow>
   engine_ok lost initial rs0 (e\<lparr>en_stats := st\<rparr>)"
  by (simp add: engine_ok_def)

lemma engine_ok_socket:
  "engine_ok lost initial rs0 e \<Longrightarrow> c < MOBILE_MAX_CONNECTIONS \<Longrightarrow> socket_ok lost rs0 (en_sockets e ! c)"
  by (simp add: engine_ok_def list_all_length)

lemma socket_ok_empty [simp]: "socket_ok lost rs0 empty_socket"
  by (simp add: socket_ok_def gateway_only_def empty_socket_def)

lemma engine_ok_lost:
  "engine_ok lost initial rs0 e \<Longrightarrow> c < MOBILE_MAX_CONNECTIONS \<Longrightarrow> lost \<Longrightarrow>
   engine_ok lost initial rs0 (set_response c None e)"
  using engine_ok_socket [of lost initial rs0 e c] engine_ok_set_socket [of lost initial rs0 e]
  by (simp add: set_response_def socket_ok_def gateway_only_def)

lemma socket_ok_fields [simp]:
  "socket_ok lost rs0 (s\<lparr>so_request := r\<rparr>) = socket_ok lost rs0 s"
  "socket_ok lost rs0 (s\<lparr>so_closed := b\<rparr>) = socket_ok lost rs0 s"
  "socket_ok lost rs0 (s\<lparr>so_cursor := k\<rparr>) = socket_ok lost rs0 s"
  by (cases "so_response s"; simp add: socket_ok_def gateway_only_def)+

lemma socket_ok_peer:
  "socket_ok lost rs0 s \<Longrightarrow> gateway_only (s\<lparr>so_peer := a\<rparr>) \<Longrightarrow> socket_ok lost rs0 (s\<lparr>so_peer := a\<rparr>)"
  by (cases "so_response s") (simp_all add: socket_ok_def)

lemma engine_ok_answered:
  assumes "engine_ok lost initial rs0 e" "c < MOBILE_MAX_CONNECTIONS" "answer_ok rs0 (so_tcp (en_sockets e ! c)) bs"
  shows "engine_ok lost initial rs0 (set_answer c (Some bs) e)"
  using engine_ok_socket [OF assms(1,2)] assms
  by (simp add: set_answer_def engine_ok_set_socket socket_ok_def gateway_only_def)

lemma sum_list_use:
  "i < length rs \<Longrightarrow> f x = f (rs ! i) + (1 :: u32) \<Longrightarrow>
   sum_list (map f (rs[i := x])) = sum_list (map f rs) + 1"
  by (induction rs arbitrary: i) (auto simp: algebra_simps split: nat.split)

lemma use_route_uses [simp]: "uses (use_route d r) = uses r + 1" "max_uses (use_route d r) = max_uses r"
  by (simp_all add: use_route_def Let_def)

lemma route_candidates_iff:
  "(i, d) \<in> set (route_candidates s host verb path headers body rs) \<longleftrightarrow>
   i < length rs \<and> route_candidate s host verb path headers body (rs ! i) = Some d"
  by (auto simp: route_candidates_def map_filter_def image_iff)

lemma route_candidates_distinct: "distinct (map fst (route_candidates s host verb path headers body rs))"
proof -
  have "map fst (List.map_filter (\<lambda>i. map_option (\<lambda>d. (i, d)) (f i)) xs) = filter (\<lambda>i. f i \<noteq> None) xs"
    for f :: "nat \<Rightarrow> string option" and xs
    by (induction xs) (auto simp: map_filter_def)
  then show ?thesis by (simp add: route_candidates_def)
qed

lemma one_candidate:
  assumes "routes_separate k rs"
  shows "length (route_candidates s host verb path headers body rs) \<le> 1"
proof (rule ccontr)
  let ?cs = "route_candidates s host verb path headers body rs"
  assume "\<not> length ?cs \<le> 1"
  then obtain i d j e rest where cs: "?cs = (i, d) # (j, e) # rest"
    by (cases ?cs rule: remdups_adj.cases) auto
  then have "i \<noteq> j" using route_candidates_distinct [of s host verb path headers body rs] by auto
  moreover have "(i, d) \<in> set ?cs" "(j, e) \<in> set ?cs" by (simp_all add: cs)
  ultimately show False
    using separate_candidates [OF assms] by (auto simp: route_candidates_iff)
qed

lemma engine_ok_answer:
  assumes ok: "engine_ok lost initial rs0 e" and i: "i < length (en_routes e)"
    and cand: "route_candidate (en_state_bits e) host verb path headers body (en_routes e ! i) = Some digest"
    and resp: "build_response (en_routes e ! i) = (Some response, True)"
    and c: "c < MOBILE_MAX_CONNECTIONS" "so_tcp (en_sockets e ! c)"
    and st: "st_matched_responses st = st_matched_responses (en_stats e) + 1"
  shows "engine_ok lost initial rs0
    (set_answer c (Some response)
      (e\<lparr>en_state_bits := apply_sets (en_state_bits e) (en_routes e ! i),
         en_routes := (en_routes e)[i := use_route digest (en_routes e ! i)], en_stats := st\<rparr>))"
proof (rule engine_ok_answered)
  let ?r = "en_routes e ! i"
  have pkg: "same_package rs0 (en_routes e)" using ok by (simp add: engine_ok_def)
  have r0: "rs0 ! i \<in> set rs0" "pristine ?r = pristine (rs0 ! i)"
    using i same_package_length [OF pkg] same_package_nth [OF pkg i] by simp_all
  have limit: "uses ?r < max_uses ?r"
    using route_candidateD(5) [OF cand] ok i by (auto simp: engine_ok_def list_all_length)
  have "map pristine ((en_routes e)[i := use_route digest ?r]) = map pristine (en_routes e)"
    using i by (metis list_update_id map_update nth_map pristine_simps(8))
  then have "same_package rs0 ((en_routes e)[i := use_route digest ?r])"
    using pkg by (simp add: same_package_def)
  moreover have "reachable rs0 initial (apply_sets (en_state_bits e) ?r)"
    using reachable_fire [of rs0 initial "en_state_bits e" "rs0 ! i"] r0 route_candidateD(4) [OF cand] ok
    by (metis engine_ok_def pristine_simps(1,2))
  moreover have "list_all (\<lambda>r. uses r \<le> max_uses r \<and> max_uses r \<noteq> 0) ((en_routes e)[i := use_route digest ?r])"
    using ok limit inc_le [OF limit]
    by (auto simp: engine_ok_def list_all_iff add.commute dest!: set_update_subset_insert [THEN subsetD])
  ultimately show "engine_ok lost initial rs0 (e\<lparr>en_state_bits := apply_sets (en_state_bits e) ?r,
      en_routes := (en_routes e)[i := use_route digest ?r], en_stats := st\<rparr>)"
    using ok st sum_list_use [OF i, of uses "use_route digest ?r"] by (simp add: engine_ok_def)
  have "build_response (rs0 ! i) = (Some response, True)" using resp r0(2) by (metis pristine_simps(4))
  then show "answer_ok rs0 (so_tcp (en_sockets (e\<lparr>en_state_bits := apply_sets (en_state_bits e) ?r,
      en_routes := (en_routes e)[i := use_route digest ?r], en_stats := st\<rparr>) ! c)) response"
    using c(2) r0(1) by (auto simp: answer_ok_def)
qed (rule c(1))

lemma engine_ok_built:
  assumes "engine_ok lost initial rs0 e" "i < length (en_routes e)"
  shows "\<exists>bs. build_response (en_routes e ! i) = (Some bs, True)"
proof -
  have pkg: "same_package rs0 (en_routes e)" using assms(1) by (simp add: engine_ok_def)
  have "route_fits (rs0 ! i)"
    using assms same_package_length [OF pkg] by (simp add: engine_ok_def list_all_length)
  then show ?thesis
    using build_response_fits same_package_nth [OF pkg assms(2)] by (metis pristine_simps(4))
qed

lemma count_request_matched [simp]:
  "st_matched_responses (count_request body st) = st_matched_responses st"
  by (simp add: count_request_def Let_def)

lemma count_answer_matched [simp]:
  "st_matched_responses (count_answer r replay st) = st_matched_responses st + 1"
  by (simp add: count_answer_def Let_def)

lemma engine_ok_prepare:
  assumes ok: "engine_ok lost initial rs0 e" and c: "c < MOBILE_MAX_CONNECTIONS" "so_tcp (en_sockets e ! c)"
    and lost: "\<And>n. \<not> room n \<Longrightarrow> lost"
  shows "engine_ok lost initial rs0 (fst (prepare_http room c e))"
proof (cases "parse_request (en_dns e) (so_request (en_sockets e ! c))")
  case (Complete verb path host headers body)
  let ?e = "e\<lparr>en_stats := count_request body (en_stats e)\<rparr>"
  have ok1: "engine_ok lost initial rs0 ?e" using engine_ok_stats [OF ok] by simp
  let ?cs = "route_candidates (en_state_bits e) host verb path headers body (en_routes e)"
  show ?thesis
  proof (cases "\<exists>i digest. ?cs = [(i, digest)]")
    case True
    then obtain i digest where one: "?cs = [(i, digest)]" by blast
    then have cand: "i < length (en_routes e)"
      "route_candidate (en_state_bits e) host verb path headers body (en_routes e ! i) = Some digest"
      using route_candidates_iff [of i digest "en_state_bits e"] by (metis list.set_intros(1))+
    obtain response where built: "build_response (en_routes e ! i) = (Some response, True)"
      using engine_ok_built [OF ok cand(1)] by blast
    have "engine_ok lost initial rs0
      (set_answer c (Some response)
        (?e\<lparr>en_state_bits := apply_sets (en_state_bits e) (en_routes e ! i),
          en_routes := (en_routes e)[i := use_route digest (en_routes e ! i)],
          en_stats := count_answer (en_routes e ! i) replay (count_request body (en_stats e))\<rparr>))" for replay
      using engine_ok_answer [OF ok1, of i host verb path headers body digest response c] cand c built by simp
    then show ?thesis
      using ok1 engine_ok_lost [OF ok1 c(1)] lost
      by (auto simp: prepare_http_def Complete answer_request_def one Let_def built)
  next
    case False
    then have "fst (prepare_http room c e) = ?e"
      by (cases ?cs rule: remdups_adj.cases)
        (auto simp: prepare_http_def Complete answer_request_def Let_def split: list.split prod.split)
    then show ?thesis using ok1 by simp
  qed
qed (use ok in \<open>simp_all add: prepare_http_def\<close>)

text \<open>A DNS query leaves the engine as it was, loses the answer or gives one.\<close>

lemma engine_ok_dns:
  assumes ok: "engine_ok lost initial rs0 e" and c: "c < MOBILE_MAX_CONNECTIONS" "\<not> so_tcp (en_sockets e ! c)"
    and lost: "\<And>n. \<not> room n \<Longrightarrow> lost"
  shows "engine_ok lost initial rs0 (fst (dns_response room c q addr e))"
proof -
  let ?e = "set_answer c (Some (q[2 := 0x81, 3 := 0x80, 6 := 0, 7 := 1] @ dns_answer)) e"
  have "answer_ok rs0 (so_tcp (en_sockets e ! c)) (q[2 := 0x81, 3 := 0x80, 6 := 0, 7 := 1] @ dns_answer)"
    using c(2) by (auto simp: answer_ok_def)
  then have answered: "engine_ok lost initial rs0 ?e" by (rule engine_ok_answered [OF ok c(1)])
  have "c < length (en_sockets e)" using ok c(1) by (simp add: engine_ok_def)
  then have "gateway_only ((en_sockets ?e ! c)\<lparr>so_peer := a\<rparr>)" for a
    using engine_ok_socket [OF ok c(1)] c(2) by (auto simp: set_answer_def socket_ok_def gateway_only_def)
  then have "socket_ok lost rs0 ((en_sockets ?e ! c)\<lparr>so_peer := a\<rparr>)" for a
    by (rule socket_ok_peer [OF engine_ok_socket [OF answered c(1)]])
  then have "engine_ok lost initial rs0 (set_socket c ((en_sockets ?e ! c)\<lparr>so_peer := a\<rparr>)
      (?e\<lparr>en_stats := (en_stats ?e)\<lparr>st_dns_requests := n\<rparr>\<rparr>))" for a n
    by (intro engine_ok_set_socket engine_ok_stats answered) auto
  then show ?thesis
    using ok engine_ok_lost [OF ok c(1)] lost by (auto simp: dns_response_def Let_def split: option.split)
qed

lemma engine_ok_send:
  assumes ok: "engine_ok lost initial rs0 e" and lost: "\<And>n. \<not> room n \<Longrightarrow> lost"
  shows "engine_ok lost initial rs0 (fst (sock_send room c data addr e))"
proof (cases "data = None \<or> MOBILE_MAX_CONNECTIONS \<le> c \<or> \<not> so_open (en_sockets e ! c)")
  case True
  then show ?thesis using ok by (auto simp: sock_send_def split: option.split)
next
  case False
  then obtain d where d: "data = Some d" and c: "c < MOBILE_MAX_CONNECTIONS" by auto
  let ?s = "en_sockets e ! c"
  show ?thesis
  proof (cases "so_tcp ?s")
    case True
    have "socket_ok lost rs0 (?s\<lparr>so_request := so_request ?s @ d\<rparr>)"
      using engine_ok_socket [OF ok c] by simp
    then have "engine_ok lost initial rs0 (set_socket c (?s\<lparr>so_request := so_request ?s @ d\<rparr>) e)"
      by (rule engine_ok_set_socket [OF ok])
    moreover have "c < length (en_sockets e)" using ok c by (simp add: engine_ok_def)
    ultimately have "engine_ok lost initial rs0
        (fst (prepare_http room c (set_socket c (?s\<lparr>so_request := so_request ?s @ d\<rparr>) e)))"
      using engine_ok_prepare [OF _ c _ lost] True by simp
    then show ?thesis using ok d True
      by (auto simp: sock_send_def Let_def split: prod.split)
  next
    case False
    have "engine_ok lost initial rs0 (fst (dns_response room c d addr e))"
      by (rule engine_ok_dns [OF ok c False]) (rule lost)
    then show ?thesis using ok d False
      by (auto simp: sock_send_def Let_def split: prod.split)
  qed
qed

lemma engine_ok_call:
  assumes ok: "engine_ok lost initial rs0 e" and lost: "\<And>n. \<not> room n \<Longrightarrow> lost"
  shows "engine_ok lost initial rs0 (do_call room call e)"
proof (cases call)
  case (OpenCall c tcp ipv4)
  have "socket_ok lost rs0 (empty_socket\<lparr>so_open := True, so_tcp := tcp\<rparr>)"
    by (simp add: socket_ok_def gateway_only_def empty_socket_def)
  then show ?thesis using ok OpenCall by (auto simp: sock_open_def engine_ok_set_socket)
next
  case (CloseCall c)
  then show ?thesis using ok by (simp add: sock_close_def engine_ok_set_socket)
next
  case (ConnectCall c addr)
  show ?thesis
  proof (cases "MOBILE_MAX_CONNECTIONS \<le> c \<or> \<not> so_tcp (en_sockets e ! c) \<or> \<not> loopback addr 80")
    case False
    then have "socket_ok lost rs0 ((en_sockets e ! c)\<lparr>so_connected := True, so_peer := copy_addr addr\<rparr>)"
      using engine_ok_socket [OF ok, of c]
      by (auto simp: socket_ok_def gateway_only_def loopback_def copy_addr_def split: option.splits mobile_addr.splits)
    then show ?thesis using ok ConnectCall by (auto simp: sock_connect_def engine_ok_set_socket)
  qed (use ok ConnectCall in \<open>auto simp: sock_connect_def\<close>)
next
  case (SendCall c data addr)
  then show ?thesis using engine_ok_send [OF ok lost] by simp
next
  case (RecvCall c n)
  show ?thesis
  proof (cases "c < MOBILE_MAX_CONNECTIONS")
    case True
    show ?thesis using ok RecvCall engine_ok_socket [OF ok True]
      by (auto simp: sock_recv_def Let_def engine_ok_set_socket split: option.split)
  qed (use ok RecvCall in \<open>simp add: sock_recv_def\<close>)
qed

definition some_refused :: "(room \<times> sock_call) list \<Rightarrow> bool" where
  "some_refused calls \<longleftrightarrow> (\<exists>(room, call) \<in> set calls. \<exists>n. \<not> room n)"

lemma engine_ok_run:
  "engine_ok lost initial rs0 e \<Longrightarrow> (some_refused calls \<Longrightarrow> lost) \<Longrightarrow> engine_ok lost initial rs0 (run_calls calls e)"
proof (induction calls arbitrary: e)
  case (Cons rc calls)
  obtain room call where rc: "rc = (room, call)" by fastforce
  have "engine_ok lost initial rs0 (do_call room call e)"
    using Cons.prems rc by (intro engine_ok_call) (auto simp: some_refused_def)
  then show ?case using Cons rc by (auto simp: some_refused_def)
qed simp

lemma engine_ok_fresh:
  assumes "routes_separate k rs" "list_all (\<lambda>r. uses r = 0) rs" "list_all route_fits rs"
  shows "engine_ok lost initial rs (fresh_engine dns initial rs)"
proof -
  have "sum_list (map uses rs) = 0" using assms(2) by (induction rs) auto
  moreover have "list_all (\<lambda>r. max_uses r \<noteq> 0) rs"
    using assms(1) by (auto simp: routes_separate_def list_all_iff in_set_conv_nth)
  ultimately show ?thesis
    using assms(2,3) by (auto simp: engine_ok_def fresh_engine_def same_package_def reachable_start
        no_stats_def list_all_iff)
qed

text \<open>What a receive copies is part of an answer; a null pointer is read only where one may be.\<close>

lemma recv_delivers:
  assumes "engine_ok lost initial rs0 e" "sock_recv c want e = (e', rc, got)"
  shows "got = Some [] \<or> got = None \<and> lost \<or>
    (\<exists>answer start. answer_ok rs0 (so_tcp (en_sockets e ! c)) answer \<and> got = Some (slice start (nat rc) answer) \<and>
                   start + nat rc \<le> length answer)"
proof (cases "c < MOBILE_MAX_CONNECTIONS")
  case True
  let ?s = "en_sockets e ! c"
  note s = engine_ok_socket [OF assms(1) True]
  have copied: "got = Some [] \<or> so_ready ?s \<and> got = copy_response (so_response ?s) (so_cursor ?s) (nat rc)"
    using assms(2) by (auto simp: sock_recv_def Let_def split: option.splits if_splits)
  show ?thesis
  proof (cases "so_response ?s")
    case None
    then show ?thesis using copied s by (auto simp: copy_response_def socket_ok_def)
  next
    case (Some bs)
    have "got = Some [] \<or> got = Some (slice (so_cursor ?s) (nat rc) bs) \<and> so_cursor ?s + nat rc \<le> length bs \<or> got = None"
      using copied Some by (auto simp: copy_response_def not_less split: if_splits)
    moreover have "got \<noteq> None"
      using assms(2) s Some True
      by (auto simp: sock_recv_def copy_response_def socket_ok_def Let_def split: option.splits if_splits)
    moreover have "got \<noteq> Some [] \<Longrightarrow> answer_ok rs0 (so_tcp ?s) bs" using copied s Some by (simp add: socket_ok_def)
    ultimately show ?thesis by blast
  qed
next
  case False
  then show ?thesis using assms(2) by (auto simp: sock_recv_def)
qed

text \<open>C6: A package that has passed its check, and whose texts fit the fields they were loaded into, keeps
  the guest confined and its answers definite, over
  any sequence of socket calls with any data and any failed allocations: the state stays one the check
  has found reachable, no request whatsoever matches more than one route, no route answers more often
  than it may, the answers counted are the uses of the routes, a connected socket is connected to
  127.0.0.1 port 80, and whatever a receive copies is part of the response of a route of the package or
  of a DNS answer that says 127.0.0.1. Only after an allocation has failed can it be that the receive
  reads through a null pointer instead.\<close>

theorem mobile_engine_confined:
  assumes "validate_schema_two_routes k initial rs = Some True" "list_all (\<lambda>r. uses r = 0) rs"
    "list_all route_fits rs"
    "e = run_calls calls (fresh_engine dns initial rs)" "sock_recv c want e = (e', rc, got)"
  shows "reachable rs initial (en_state_bits e) \<and>
    length (route_candidates (en_state_bits e) host verb path headers body (en_routes e)) \<le> 1 \<and>
    list_all (\<lambda>r. uses r \<le> max_uses r) (en_routes e) \<and>
    st_matched_responses (en_stats e) = sum_list (map uses (en_routes e)) \<and>
    list_all gateway_only (en_sockets e) \<and>
    (got = Some [] \<or> got = None \<and> some_refused calls \<or>
     (\<exists>answer start. answer_ok rs (so_tcp (en_sockets e ! c)) answer \<and>
                    got = Some (slice start (nat rc) answer) \<and> start + nat rc \<le> length answer))"
proof -
  have sep: "routes_separate k rs"
    using assms(1) by (auto simp: validate_schema_two_routes_def split: if_splits)
  have ok: "engine_ok (some_refused calls) initial rs e"
    using engine_ok_run [OF engine_ok_fresh [OF sep assms(2,3)]] assms(4) by simp
  then have "routes_separate k (en_routes e)"
    using same_package_separate [OF _ sep] by (simp add: engine_ok_def)
  then have "length (route_candidates (en_state_bits e) host verb path headers body (en_routes e)) \<le> 1"
    by (rule one_candidate)
  moreover note recv_delivers [OF ok assms(5)]
  ultimately show ?thesis
    using ok by (auto simp: engine_ok_def list_all_iff socket_ok_def)
qed

text \<open>The null pointer is real: an answer that is there, then another query whose allocation fails.\<close>

lemma failed_answer_reads_null:
  assumes "c < MOBILE_MAX_CONNECTIONS" "length (en_sockets e) = MOBILE_MAX_CONNECTIONS"
    "so_open (en_sockets e ! c)" "\<not> so_tcp (en_sockets e ! c)" "so_ready (en_sockets e ! c)"
    "so_cursor (en_sockets e ! c) < so_response_size (en_sockets e ! c)"
    "loopback addr 53" "17 \<le> length q" "length q \<le> 512" "dns_labels q 12 [] = Some host"
    "map c_tolower (bytes_text host) \<in> set (en_dns e)" "\<not> room (length q + 16)" "0 < n"
  shows "snd (snd (sock_recv c (Some n) (fst (sock_send room c (Some q) addr e)))) = None"
  using assms
  by (simp add: sock_send_def dns_response_def set_response_def count_error_def sock_recv_def
      copy_response_def Let_def)

lemma login_unused: "list_all (\<lambda>r. uses r = 0) login_routes" "list_all route_fits login_routes"
  by (simp_all add: login_routes_def blank_route_def route_fits_def)

definition login_calls :: "(room \<times> sock_call) list" where
  "login_calls = map (Pair (\<lambda>_. True))
     [OpenCall 0 True True, ConnectCall 0 (Some (Addr4 80 [127, 0, 0, 1])), SendCall 0 (Some login_request) None]"

theorem mobile_engine_confined_witness:
  "list_all gateway_only (en_sockets (run_calls login_calls (fresh_engine [''h''] 0 login_routes))) \<and>
   snd (snd (sock_recv 0 (Some 64) (run_calls login_calls (fresh_engine [''h''] 0 login_routes)))) \<noteq> None"
proof -
  let ?e = "run_calls login_calls (fresh_engine [''h''] 0 login_routes)"
  obtain e' rc got where recv: "sock_recv 0 (Some 64) ?e = (e', rc, got)" by (rule prod_cases3)
  note all = mobile_engine_confined [OF login_validated login_unused refl recv]
  have "\<not> some_refused login_calls" by (simp add: some_refused_def login_calls_def)
  then have "got \<noteq> None" using all by (metis option.distinct(1))
  then show ?thesis using all recv by simp
qed

end
