(* ===== verification/MediaIpc.thy ===== *)
theory MediaIpc
  imports Common
begin

text \<open>
  The shared memory through which the N64 runtime hands its pictures and sound to the
  client (\<open>runtimes/n64/src/remote_media_ipc.c\<close>). Writer and reader are two processes
  that share a region and synchronise on a guard counter: odd while a frame is being
  written. The model interleaves their single loads and stores, byte by byte; loads and
  stores take effect in program order. Video and audio use the same protocol and differ
  in the largest size and in the number of format words (width, height and flags; sample
  rate and channels).

  The lemmas show that the pixels and samples of a read are always those of one frame, and
  that its format words need not be.
\<close>

unbundle bit_operations_syntax

section \<open>The region\<close>

record region =
  rg_guard :: u32
  rg_sequence :: u32
  rg_format :: "u32 list"
  rg_bytes :: u32
  rg_written :: u64
  rg_data :: bytes

record media_frame =
  mf_data :: bytes
  mf_format :: "u32 list"

definition MEDIA_MAX_WIDTH :: nat where "MEDIA_MAX_WIDTH = 1920"
definition MEDIA_MAX_HEIGHT :: nat where "MEDIA_MAX_HEIGHT = 1080"
definition MEDIA_MAX_VIDEO_BYTES :: nat where "MEDIA_MAX_VIDEO_BYTES = 1920 * 1080 * 3"
definition MEDIA_MAX_AUDIO_BYTES :: nat where "MEDIA_MAX_AUDIO_BYTES = 16384"
definition VIDEO_FORMATS :: nat where "VIDEO_FORMATS = 3"
definition AUDIO_FORMATS :: nat where "AUDIO_FORMATS = 2"
definition VIDEO_BOTTOM_UP :: u32 where "VIDEO_BOTTOM_UP = 1"

text \<open>The frame a call of the writer stores, None where the call is refused.\<close>

definition video_frame :: "bytes \<Rightarrow> u32 \<Rightarrow> u32 \<Rightarrow> u32 \<Rightarrow> media_frame option" where
  "video_frame pixels width height flags =
     (if width = 0 \<or> height = 0 \<or> MEDIA_MAX_WIDTH < unat width \<or> MEDIA_MAX_HEIGHT < unat height \<or>
         flags AND NOT VIDEO_BOTTOM_UP \<noteq> 0 then None
      else Some \<lparr>mf_data = take (unat width * unat height * 3) pixels, mf_format = [width, height, flags]\<rparr>)"

definition audio_frame :: "bytes \<Rightarrow> u32 \<Rightarrow> u32 \<Rightarrow> media_frame option" where
  "audio_frame samples sample_rate channels =
     (if samples = [] \<or> MEDIA_MAX_AUDIO_BYTES < length samples \<or> sample_rate < 8000 \<or>
         192000 < sample_rate \<or> channels \<noteq> 2 then None
      else Some \<lparr>mf_data = samples, mf_format = [sample_rate, channels]\<rparr>)"

section \<open>The writer\<close>

datatype store =
    StoreGuard u32
  | StoreByte nat u8
  | StoreFormat nat u32
  | StoreBytes u32
  | StoreWritten u64
  | StoreSequence u32

fun apply_store :: "store \<Rightarrow> region \<Rightarrow> region" where
  "apply_store (StoreGuard g) m = m\<lparr>rg_guard := g\<rparr>"
| "apply_store (StoreByte i b) m = m\<lparr>rg_data := (rg_data m)[i := b]\<rparr>"
| "apply_store (StoreFormat i v) m = m\<lparr>rg_format := (rg_format m)[i := v]\<rparr>"
| "apply_store (StoreBytes n) m = m\<lparr>rg_bytes := n\<rparr>"
| "apply_store (StoreWritten t) m = m\<lparr>rg_written := t\<rparr>"
| "apply_store (StoreSequence q) m = m\<lparr>rg_sequence := q\<rparr>"

text \<open>
  The stores of a call, in order. The guard and the sequence number the call starts from
  are only ever changed by the writer itself.
\<close>

definition frame_stores :: "media_frame \<Rightarrow> u64 \<Rightarrow> u32 \<Rightarrow> store list" where
  "frame_stores f now sequence =
     map (\<lambda>i. StoreByte i (mf_data f ! i)) [0..<length (mf_data f)] @
     map (\<lambda>i. StoreFormat i (mf_format f ! i)) [0..<length (mf_format f)] @
     [StoreBytes (of_nat (length (mf_data f))), StoreWritten now, StoreSequence (sequence + 1)]"

definition write_stores :: "media_frame \<Rightarrow> u64 \<Rightarrow> u32 \<Rightarrow> u32 \<Rightarrow> store list" where
  "write_stores f now guard sequence =
     StoreGuard (guard OR 1) # frame_stores f now sequence @ [StoreGuard ((guard OR 1) + 1)]"

section \<open>The reader\<close>

datatype reader_pc =
    LoadBefore
  | LoadSequence
  | LoadBytes
  | LoadWritten
  | CopyData nat
  | RecheckSame
  | RecheckCopied
  | LoadFormat nat
  | Finished int

record media_reader =
  rd_pc :: reader_pc
  rd_attempt :: nat
  rd_before :: u32
  rd_current :: u32
  rd_bytes :: u32
  rd_stamp :: u64
  rd_data :: bytes
  rd_sequence :: u32
  rd_format :: "u32 list"
  rd_byte_count :: u32

definition next_attempt :: "media_reader \<Rightarrow> media_reader" where
  "next_attempt r =
     (if rd_attempt r + 1 < 4 then r\<lparr>rd_attempt := rd_attempt r + 1, rd_pc := LoadBefore\<rparr>
      else r\<lparr>rd_pc := Finished 0\<rparr>)"

definition guard_unchanged :: "region \<Rightarrow> media_reader \<Rightarrow> bool" where
  "guard_unchanged m r \<longleftrightarrow> rd_before r = rg_guard m \<and> rg_guard m AND 1 = 0"

text \<open>What follows the three loads of the header: nothing to read, nothing new, or the copy.\<close>

definition after_header :: "nat \<Rightarrow> media_reader \<Rightarrow> media_reader" where
  "after_header max_bytes r =
     (if rd_bytes r = 0 \<or> length (rd_data r) < unat (rd_bytes r) \<or> max_bytes < unat (rd_bytes r)
      then r\<lparr>rd_pc := Finished 0\<rparr>
      else if rd_current r = rd_sequence r then r\<lparr>rd_pc := RecheckSame\<rparr>
      else r\<lparr>rd_pc := CopyData 0\<rparr>)"

fun reader_step :: "nat \<Rightarrow> nat \<Rightarrow> region \<Rightarrow> media_reader \<Rightarrow> media_reader" where
  "reader_step max_bytes formats m r =
     (case rd_pc r of
        LoadBefore \<Rightarrow>
          if rg_guard m AND 1 \<noteq> 0 then next_attempt r
          else r\<lparr>rd_before := rg_guard m, rd_pc := LoadSequence\<rparr>
      | LoadSequence \<Rightarrow> r\<lparr>rd_current := rg_sequence m, rd_pc := LoadBytes\<rparr>
      | LoadBytes \<Rightarrow> r\<lparr>rd_bytes := rg_bytes m, rd_pc := LoadWritten\<rparr>
      | LoadWritten \<Rightarrow> after_header max_bytes (r\<lparr>rd_stamp := rg_written m\<rparr>)
      | CopyData i \<Rightarrow>
          r\<lparr>rd_data := (rd_data r)[i := rg_data m ! i],
            rd_pc := (if i + 1 < unat (rd_bytes r) then CopyData (i + 1) else RecheckCopied)\<rparr>
      | RecheckSame \<Rightarrow> if guard_unchanged m r then r\<lparr>rd_pc := Finished 0\<rparr> else next_attempt r
      | RecheckCopied \<Rightarrow>
          if guard_unchanged m r
          then r\<lparr>rd_sequence := rd_current r, rd_format := [], rd_pc := LoadFormat 0\<rparr> else next_attempt r
      | LoadFormat i \<Rightarrow>
          let r1 = r\<lparr>rd_format := rd_format r @ [rg_format m ! i]\<rparr>
          in if i + 1 < formats then r1\<lparr>rd_pc := LoadFormat (i + 1)\<rparr>
             else r1\<lparr>rd_byte_count := rd_bytes r, rd_pc := Finished 1\<rparr>
      | Finished _ \<Rightarrow> r)"

declare reader_step.simps [simp del]

definition start_read :: "media_reader \<Rightarrow> media_reader" where
  "start_read r = r\<lparr>rd_attempt := 0, rd_pc := LoadBefore\<rparr>"

section \<open>Both at once\<close>

text \<open>
  \<open>sy_pending\<close> are the stores the writer's current call has still to do. \<open>sy_history\<close>,
  \<open>sy_phase\<close> and \<open>sy_seen\<close> record for the proof only the frames of all calls, the number of
  stores to the guard, and that number when the reader last loaded an even guard.
\<close>

record media_system =
  sy_region :: region
  sy_pending :: "store list"
  sy_reader :: media_reader
  sy_history :: "media_frame list"
  sy_phase :: nat
  sy_seen :: nat

datatype media_event =
    WriteFrame "media_frame option" u64
  | WriterStore
  | ReaderStart
  | ReaderStep

definition store_is_guard :: "store \<Rightarrow> bool" where
  "store_is_guard s = (case s of StoreGuard _ \<Rightarrow> True | _ \<Rightarrow> False)"

fun media_step :: "nat \<Rightarrow> nat \<Rightarrow> media_event \<Rightarrow> media_system \<Rightarrow> media_system" where
  "media_step max_bytes formats (WriteFrame call now) s =
     (case call of
        None \<Rightarrow> s
      | Some f \<Rightarrow>
          if sy_pending s \<noteq> [] then s
          else s\<lparr>sy_pending := write_stores f now (rg_guard (sy_region s)) (rg_sequence (sy_region s)),
                 sy_history := sy_history s @ [f]\<rparr>)"
| "media_step max_bytes formats WriterStore s =
     (case sy_pending s of
        [] \<Rightarrow> s
      | st # rest \<Rightarrow>
          s\<lparr>sy_region := apply_store st (sy_region s), sy_pending := rest,
            sy_phase := sy_phase s + (if store_is_guard st then 1 else 0)\<rparr>)"
| "media_step max_bytes formats ReaderStart s =
     (case rd_pc (sy_reader s) of
        Finished _ \<Rightarrow> s\<lparr>sy_reader := start_read (sy_reader s)\<rparr>
      | _ \<Rightarrow> s)"
| "media_step max_bytes formats ReaderStep s =
     s\<lparr>sy_reader := reader_step max_bytes formats (sy_region s) (sy_reader s),
       sy_seen := (if rd_pc (sy_reader s) = LoadBefore then sy_phase s else sy_seen s)\<rparr>"

fun media_run :: "nat \<Rightarrow> nat \<Rightarrow> media_event list \<Rightarrow> media_system \<Rightarrow> media_system" where
  "media_run max_bytes formats [] s = s"
| "media_run max_bytes formats (e # es) s = media_run max_bytes formats es (media_step max_bytes formats e s)"

definition empty_region :: "nat \<Rightarrow> nat \<Rightarrow> region" where
  "empty_region max_bytes formats =
     \<lparr>rg_guard = 0, rg_sequence = 0, rg_format = replicate formats 0, rg_bytes = 0, rg_written = 0,
      rg_data = replicate max_bytes 0\<rparr>"

definition new_reader :: "bytes \<Rightarrow> u32 \<Rightarrow> media_reader" where
  "new_reader buffer sequence =
     \<lparr>rd_pc = LoadBefore, rd_attempt = 0, rd_before = 0, rd_current = 0, rd_bytes = 0, rd_stamp = 0,
      rd_data = buffer, rd_sequence = sequence, rd_format = [], rd_byte_count = 0\<rparr>"

definition new_system :: "nat \<Rightarrow> nat \<Rightarrow> bytes \<Rightarrow> u32 \<Rightarrow> media_system" where
  "new_system max_bytes formats buffer sequence =
     \<lparr>sy_region = empty_region max_bytes formats, sy_pending = [], sy_reader = new_reader buffer sequence,
      sy_history = [], sy_phase = 0, sy_seen = 0\<rparr>"

section \<open>What the region shows\<close>

definition media_frame_ok :: "nat \<Rightarrow> nat \<Rightarrow> media_frame \<Rightarrow> bool" where
  "media_frame_ok max_bytes formats f \<longleftrightarrow>
     mf_data f \<noteq> [] \<and> length (mf_data f) \<le> max_bytes \<and> length (mf_format f) = formats"

text \<open>After \<open>k\<close> whole writes the region holds the \<open>k\<close>-th frame.\<close>

definition region_shows :: "media_frame list \<Rightarrow> nat \<Rightarrow> region \<Rightarrow> bool" where
  "region_shows frames k m \<longleftrightarrow>
     rg_sequence m = of_nat k \<and>
     (if k = 0 then rg_bytes m = 0
      else rg_bytes m = of_nat (length (mf_data (frames ! (k - 1)))) \<and>
           take (length (mf_data (frames ! (k - 1)))) (rg_data m) = mf_data (frames ! (k - 1)) \<and>
           rg_format m = mf_format (frames ! (k - 1)))"

lemma store_lengths [simp]:
  "length (rg_data (apply_store st m)) = length (rg_data m)"
  "length (rg_format (apply_store st m)) = length (rg_format m)"
  by (cases st; simp)+

lemma fold_bytes:
  "i + length bs \<le> length (rg_data m) \<Longrightarrow>
   fold apply_store (map (\<lambda>j. StoreByte (i + j) (bs ! j)) [0..<length bs]) m =
   m\<lparr>rg_data := write_at i bs (rg_data m)\<rparr>"
proof (induction bs arbitrary: i m)
  case (Cons b bs)
  have "map (\<lambda>j. StoreByte (i + j) ((b # bs) ! j)) [0..<length (b # bs)] =
      StoreByte i b # map (\<lambda>j. StoreByte (Suc i + j) (bs ! j)) [0..<length bs]"
    by (simp add: upt_conv_Cons map_Suc_upt [symmetric] o_def del: upt_Suc)
  moreover have "write_at (Suc i) bs ((rg_data m)[i := b]) = write_at i (b # bs) (rg_data m)"
    using Cons.prems by (simp add: write_at_def take_Suc_conv_app_nth drop_update_cancel)
  ultimately show ?case using Cons.IH [of "Suc i" "m\<lparr>rg_data := (rg_data m)[i := b]\<rparr>"] Cons.prems by simp
qed (simp add: write_at_def)

lemma fold_formats:
  "length vs = length (rg_format m) \<Longrightarrow>
   fold apply_store (map (\<lambda>i. StoreFormat i (vs ! i)) [0..<length vs]) m = m\<lparr>rg_format := vs\<rparr>"
proof -
  assume len: "length vs = length (rg_format m)"
  have "n \<le> length vs \<Longrightarrow> fold apply_store (map (\<lambda>i. StoreFormat i (vs ! i)) [0..<n]) m =
      m\<lparr>rg_format := take n vs @ drop n (rg_format m)\<rparr>" for n
  proof (induction n)
    case (Suc n)
    have "(take n vs @ drop n (rg_format m))[n := vs ! n] = take (Suc n) vs @ drop (Suc n) (rg_format m)"
      using Suc.prems len by (simp add: list_update_append take_Suc_conv_app_nth Cons_nth_drop_Suc [symmetric])
    then show ?case using Suc by simp
  qed simp
  from this [of "length vs"] show ?thesis using len by simp
qed

lemma fold_frame_stores:
  assumes "media_frame_ok max_bytes formats f" "length (rg_data m) = max_bytes" "length (rg_format m) = formats"
  shows "fold apply_store (frame_stores f now q) m =
    m\<lparr>rg_data := write_at 0 (mf_data f) (rg_data m), rg_format := mf_format f,
      rg_bytes := of_nat (length (mf_data f)), rg_written := now, rg_sequence := q + 1\<rparr>"
proof -
  have "fold apply_store (map (\<lambda>i. StoreByte i (mf_data f ! i)) [0..<length (mf_data f)]) m =
      m\<lparr>rg_data := write_at 0 (mf_data f) (rg_data m)\<rparr>"
    using fold_bytes [of 0 "mf_data f" m] assms by (simp add: media_frame_ok_def)
  moreover have "fold apply_store (map (\<lambda>i. StoreFormat i (mf_format f ! i)) [0..<length (mf_format f)])
        (m\<lparr>rg_data := write_at 0 (mf_data f) (rg_data m)\<rparr>) =
      m\<lparr>rg_data := write_at 0 (mf_data f) (rg_data m), rg_format := mf_format f\<rparr>"
    using fold_formats [of "mf_format f" "m\<lparr>rg_data := write_at 0 (mf_data f) (rg_data m)\<rparr>"] assms
    by (simp add: media_frame_ok_def)
  ultimately show ?thesis by (simp add: frame_stores_def)
qed

lemma frame_stores_shown:
  assumes "media_frame_ok max_bytes formats f" "length (rg_data m) = max_bytes" "length (rg_format m) = formats"
  shows "region_shows (frames @ [f]) (length frames + 1)
    (fold apply_store (frame_stores f now (of_nat (length frames))) m)"
  unfolding fold_frame_stores [OF assms] using assms
  by (simp add: region_shows_def write_at_def nth_append media_frame_ok_def)

lemma region_shows_append:
  "region_shows frames k m \<Longrightarrow> k \<le> length frames \<Longrightarrow> region_shows (frames @ fs) k m"
  by (auto simp: region_shows_def nth_append)

lemma region_shows_guard [simp]: "region_shows frames k (m\<lparr>rg_guard := g\<rparr>) = region_shows frames k m"
  by (simp add: region_shows_def)

section \<open>The writer's side\<close>

definition writer_ok :: "nat \<Rightarrow> nat \<Rightarrow> media_system \<Rightarrow> bool" where
  "writer_ok max_bytes formats s \<longleftrightarrow>
     (let m = sy_region s; n = length (sy_history s); p = sy_phase s; rest = sy_pending s
      in length (rg_data m) = max_bytes \<and> length (rg_format m) = formats \<and> rg_guard m = of_nat p \<and>
         (even p \<longrightarrow> region_shows (sy_history s) (p div 2) m) \<and>
         (rest = [] \<and> p = 2 * n \<or>
          0 < n \<and> p = 2 * (n - 1) \<and> media_frame_ok max_bytes formats (last (sy_history s)) \<and>
            (\<exists>now. rest = StoreGuard (of_nat (2 * n - 1)) #
               frame_stores (last (sy_history s)) now (of_nat (n - 1)) @ [StoreGuard (of_nat (2 * n))]) \<or>
          0 < n \<and> p = 2 * n - 1 \<and>
            (\<exists>cells. rest = cells @ [StoreGuard (of_nat (2 * n))] \<and>
               list_all (\<lambda>st. \<not> store_is_guard st) cells \<and>
               region_shows (sy_history s) n (fold apply_store cells m))))"

lemma of_nat_u32_eq:
  assumes "x < 2 ^ 32" "y < 2 ^ 32"
  shows "(of_nat x :: u32) = of_nat y \<longleftrightarrow> x = y"
proof
  assume "(of_nat x :: u32) = of_nat y"
  then have "unat (of_nat x :: u32) = unat (of_nat y :: u32)" by simp
  then show "x = y" using assms by (simp add: unat_of_nat)
qed simp

lemma even_guard: "even (of_nat p :: u32) \<longleftrightarrow> even p"
  by (simp add: even_of_nat_iff)

lemma guard_or_1: "even p \<Longrightarrow> (of_nat p :: u32) OR 1 = of_nat (p + 1)"
  by (simp add: or_one_eq even_guard)

lemma frame_stores_no_guard: "list_all (\<lambda>st. \<not> store_is_guard st) (frame_stores f now q)"
  by (auto simp: frame_stores_def list_all_iff store_is_guard_def)

section \<open>The reader's side\<close>

text \<open>
  A frame of the history that a read can return: the buffer starts with its data, the
  sequence number is its own.
\<close>

definition read_frame :: "media_frame list \<Rightarrow> media_reader \<Rightarrow> bool" where
  "read_frame frames r \<longleftrightarrow>
     (\<exists>k. 0 < k \<and> k \<le> length frames \<and> rd_sequence r = of_nat k \<and>
          unat (rd_bytes r) = length (mf_data (frames ! (k - 1))) \<and>
          take (unat (rd_bytes r)) (rd_data r) = mf_data (frames ! (k - 1)))"

text \<open>What the reader has loaded so far, if the region has not changed since the guard was loaded.\<close>

fun loaded :: "nat \<Rightarrow> region \<Rightarrow> media_reader \<Rightarrow> reader_pc \<Rightarrow> bool" where
  "loaded k m r LoadBytes = (rd_current r = of_nat k)"
| "loaded k m r LoadWritten = (rd_current r = of_nat k \<and> rd_bytes r = rg_bytes m)"
| "loaded k m r (CopyData i) =
     (rd_current r = of_nat k \<and> rd_bytes r = rg_bytes m \<and> take i (rd_data r) = take i (rg_data m))"
| "loaded k m r RecheckCopied =
     (rd_current r = of_nat k \<and> rd_bytes r = rg_bytes m \<and>
      take (unat (rd_bytes r)) (rd_data r) = take (unat (rd_bytes r)) (rg_data m))"
| "loaded k m r _ = True"

fun copying :: "nat \<Rightarrow> media_reader \<Rightarrow> reader_pc \<Rightarrow> bool" where
  "copying max_bytes r (CopyData i) =
     (i < unat (rd_bytes r) \<and> unat (rd_bytes r) \<le> length (rd_data r) \<and> unat (rd_bytes r) \<le> max_bytes)"
| "copying max_bytes r RecheckCopied = (rd_bytes r \<noteq> 0)"
| "copying max_bytes r _ = True"

fun guarded :: "reader_pc \<Rightarrow> bool" where
  "guarded LoadBefore = False"
| "guarded (LoadFormat i) = False"
| "guarded (Finished v) = False"
| "guarded _ = True"

fun returning :: "reader_pc \<Rightarrow> bool" where
  "returning (LoadFormat i) = True"
| "returning (Finished v) = (v = 1)"
| "returning _ = False"

definition reader_ok :: "nat \<Rightarrow> media_system \<Rightarrow> bool" where
  "reader_ok max_bytes s \<longleftrightarrow>
     (let r = sy_reader s; seen = sy_seen s
      in (guarded (rd_pc r) \<longrightarrow>
            even seen \<and> seen \<le> sy_phase s \<and> rd_before r = of_nat seen \<and>
            copying max_bytes r (rd_pc r) \<and>
            (seen = sy_phase s \<longrightarrow> loaded (seen div 2) (sy_region s) r (rd_pc r))) \<and>
         (returning (rd_pc r) \<longrightarrow> read_frame (sy_history s) r) \<and>
         (rd_pc r = Finished 1 \<longrightarrow> rd_byte_count r = rd_bytes r))"

locale media_region =
  fixes max_bytes :: nat and formats :: nat
  assumes fits: "max_bytes < 2 ^ 32"
begin

abbreviation "event_ok e \<equiv> (case e of WriteFrame (Some f) _ \<Rightarrow> media_frame_ok max_bytes formats f | _ \<Rightarrow> True)"

lemma writer_ok_begin:
  assumes ok: "writer_ok max_bytes formats s" and f: "media_frame_ok max_bytes formats f"
    and idle: "sy_pending s = []"
  shows "writer_ok max_bytes formats
    (s\<lparr>sy_pending := write_stores f now (rg_guard (sy_region s)) (rg_sequence (sy_region s)),
       sy_history := sy_history s @ [f]\<rparr>)"
proof -
  let ?n = "length (sy_history s)"
  have p: "sy_phase s = 2 * ?n" and sh: "region_shows (sy_history s) ?n (sy_region s)"
    and g: "rg_guard (sy_region s) = of_nat (2 * ?n)"
    using ok idle by (auto simp: writer_ok_def Let_def)
  have q: "rg_sequence (sy_region s) = of_nat ?n" using sh by (simp add: region_shows_def)
  have "write_stores f now (rg_guard (sy_region s)) (rg_sequence (sy_region s)) =
      StoreGuard (of_nat (2 * (?n + 1) - 1)) # frame_stores f now (of_nat ?n) @ [StoreGuard (of_nat (2 * (?n + 1)))]"
    using guard_or_1 [of "2 * ?n"] by (simp add: write_stores_def g q algebra_simps)
  then show ?thesis
    using ok f p sh by (auto simp: writer_ok_def Let_def idle intro: region_shows_append)
qed

lemma writer_ok_store:
  assumes ok: "writer_ok max_bytes formats s" and rest: "sy_pending s = st # rest"
  shows "writer_ok max_bytes formats
    (s\<lparr>sy_region := apply_store st (sy_region s), sy_pending := rest,
       sy_phase := sy_phase s + (if store_is_guard st then 1 else 0)\<rparr>)"
proof -
  let ?n = "length (sy_history s)" and ?m = "sy_region s" and ?f = "last (sy_history s)"
  note parts = ok [unfolded writer_ok_def Let_def]
  from parts rest consider
    (start) now where "0 < ?n" "sy_phase s = 2 * (?n - 1)" "media_frame_ok max_bytes formats ?f"
      "st = StoreGuard (of_nat (2 * ?n - 1))"
      "rest = frame_stores ?f now (of_nat (?n - 1)) @ [StoreGuard (of_nat (2 * ?n))]"
    | (cells) cs where "0 < ?n" "sy_phase s = 2 * ?n - 1" "st # rest = cs @ [StoreGuard (of_nat (2 * ?n))]"
      "list_all (\<lambda>st. \<not> store_is_guard st) cs" "region_shows (sy_history s) ?n (fold apply_store cs ?m)"
    by auto
  then show ?thesis
  proof cases
    case start
    obtain frames f where h: "sy_history s = frames @ [f]" using start(1) by (cases "sy_history s" rule: rev_cases) auto
    let ?m' = "apply_store st ?m"
    have "region_shows (sy_history s) ?n (fold apply_store (frame_stores f now (of_nat (length frames))) ?m')"
      using frame_stores_shown [of max_bytes formats f ?m' frames now] parts start(3) by (simp add: h)
    moreover have "rest = frame_stores f now (of_nat (length frames)) @ [StoreGuard (of_nat (2 * ?n))]"
      using start(5) by (simp add: h)
    moreover have "sy_phase s + 1 = 2 * ?n - 1" using start(2) by (simp add: h)
    moreover have "rg_guard ?m' = of_nat (sy_phase s + 1)" "store_is_guard st" "odd (sy_phase s + 1)"
      using start(2,4) by (simp_all add: h store_is_guard_def)
    ultimately show ?thesis
      using parts start(1) frame_stores_no_guard [of f now "of_nat (length frames)"]
      unfolding writer_ok_def Let_def by auto
  next
    case cells
    have fixed: "length (rg_data ?m) = max_bytes" "length (rg_format ?m) = formats"
      "rg_guard ?m = of_nat (sy_phase s)"
      using parts by simp_all
    obtain j where n: "?n = Suc j" using cells(1) by (cases ?n) auto
    show ?thesis
    proof (cases cs)
      case Nil
      then have "st = StoreGuard (of_nat (2 * ?n))" "rest = []" "sy_phase s + 1 = 2 * ?n"
        using cells n by simp_all
      then show ?thesis
        using fixed cells(5) Nil by (simp add: writer_ok_def Let_def store_is_guard_def)
    next
      case (Cons c cs')
      then have "\<not> store_is_guard st" "list_all (\<lambda>st. \<not> store_is_guard st) cs'"
        "rest = cs' @ [StoreGuard (of_nat (2 * ?n))]"
        "region_shows (sy_history s) ?n (fold apply_store cs' (apply_store st ?m))"
        using cells by simp_all
      moreover have "rg_guard (apply_store st ?m) = rg_guard ?m"
        using calculation(1) by (cases st) (simp_all add: store_is_guard_def)
      moreover have "odd (sy_phase s)" using cells(2) n by simp
      ultimately show ?thesis
        using fixed cells(1,2) n unfolding writer_ok_def Let_def by auto
    qed
  qed
qed

lemma writer_ok_step:
  "writer_ok max_bytes formats s \<Longrightarrow> event_ok e \<Longrightarrow> writer_ok max_bytes formats (media_step max_bytes formats e s)"
  by (cases e) (auto simp: writer_ok_begin writer_ok_store split: option.splits list.split reader_pc.split,
      auto simp: writer_ok_def Let_def)

lemma writer_phase:
  assumes "writer_ok max_bytes formats s"
  shows "sy_phase s \<le> 2 * length (sy_history s)" "rg_guard (sy_region s) = of_nat (sy_phase s)"
    "length (rg_data (sy_region s)) = max_bytes"
    "even (sy_phase s) \<Longrightarrow> region_shows (sy_history s) (sy_phase s div 2) (sy_region s)"
    "sy_pending s = st # rest \<Longrightarrow> \<not> store_is_guard st \<Longrightarrow> odd (sy_phase s)"
proof -
  show "odd (sy_phase s)" if "sy_pending s = st # rest" "\<not> store_is_guard st"
  proof -
    have "sy_pending s \<noteq> []" "\<forall>g rest. sy_pending s \<noteq> StoreGuard g # rest"
      using that by (auto simp: store_is_guard_def)
    moreover have "0 < n \<Longrightarrow> odd (2 * n - 1)" for n :: nat by (cases n) simp_all
    ultimately show ?thesis using assms unfolding writer_ok_def Let_def by auto
  qed
qed (use assms in \<open>auto simp: writer_ok_def Let_def\<close>)

text \<open>With fewer than \<open>2 ^ 31\<close> frames the guard never comes back to an earlier value.\<close>

lemma same_guard:
  assumes "writer_ok max_bytes formats s" "length (sy_history s) < 2 ^ 31" "seen \<le> sy_phase s"
    "rg_guard (sy_region s) = of_nat seen"
  shows "seen = sy_phase s"
proof -
  have "sy_phase s < 2 ^ 32" using writer_phase(1) [OF assms(1)] assms(2) by simp
  moreover have "(of_nat seen :: u32) = of_nat (sy_phase s)" using writer_phase(2) [OF assms(1)] assms(4) by simp
  ultimately show ?thesis using assms(3) of_nat_u32_eq [of seen "sy_phase s"] by simp
qed

lemma shown_frame:
  assumes "region_shows frames k m" "rg_bytes m \<noteq> 0" "length (rg_data m) = max_bytes"
  shows "0 < k" "unat (rg_bytes m) = length (mf_data (frames ! (k - 1)))"
    "take (unat (rg_bytes m)) (rg_data m) = mf_data (frames ! (k - 1))"
proof -
  show k: "0 < k" using assms by (auto simp: region_shows_def split: if_splits)
  let ?f = "frames ! (k - 1)"
  have shown: "rg_bytes m = of_nat (length (mf_data ?f))" "take (length (mf_data ?f)) (rg_data m) = mf_data ?f"
    using assms(1) k by (auto simp: region_shows_def)
  have "length (mf_data ?f) \<le> max_bytes"
    using arg_cong [OF shown(2), of length] assms(3) by simp
  then show u: "unat (rg_bytes m) = length (mf_data ?f)"
    using shown(1) fits by (simp add: unat_of_nat)
  show "take (unat (rg_bytes m)) (rg_data m) = mf_data ?f" using u shown(2) by simp
qed

lemma even_and_1: "(of_nat p :: u32) AND 1 = 0 \<longleftrightarrow> even p"
  by (metis and_one_eq even_guard even_iff_mod_2_eq_zero)

lemma reader_ok_step:
  assumes w: "writer_ok max_bytes formats s" and r: "reader_ok max_bytes s"
    and few: "length (sy_history s) < 2 ^ 31"
  shows "reader_ok max_bytes (media_step max_bytes formats ReaderStep s)"
proof -
  let ?r = "sy_reader s" and ?m = "sy_region s" and ?p = "sy_phase s" and ?seen = "sy_seen s"
  note parts = r [unfolded reader_ok_def Let_def]
  note phase = writer_phase [OF w]
  have retry: "rd_pc (next_attempt ?r) = LoadBefore \<or> rd_pc (next_attempt ?r) = Finished 0"
    by (simp add: next_attempt_def)
  show ?thesis
  proof (cases "rd_pc ?r")
    case LoadBefore
    then show ?thesis
      using retry phase(2) even_and_1 [of ?p]
      by (auto simp: reader_ok_def Let_def reader_step.simps)
  next
    case LoadSequence
    then show ?thesis
      using parts phase(4) by (auto simp: reader_ok_def Let_def reader_step.simps region_shows_def)
  next
    case LoadBytes
    then show ?thesis using parts by (auto simp: reader_ok_def Let_def reader_step.simps)
  next
    case LoadWritten
    then show ?thesis
      using parts by (auto simp: reader_ok_def Let_def reader_step.simps after_header_def unat_gt_0)
  next
    case (CopyData i)
    have c: "i < unat (rd_bytes ?r)" "unat (rd_bytes ?r) \<le> length (rd_data ?r)" "unat (rd_bytes ?r) \<le> max_bytes"
      using parts CopyData by auto
    then have "take (Suc i) ((rd_data ?r)[i := rg_data ?m ! i]) = take (Suc i) (rg_data ?m)"
      if "take i (rd_data ?r) = take i (rg_data ?m)"
      using that phase(3) by (simp add: take_Suc_conv_app_nth)
    moreover from this have "take (unat (rg_bytes ?m)) ((rd_data ?r)[i := rg_data ?m ! i]) =
        take (unat (rg_bytes ?m)) (rg_data ?m)"
      if "take i (rd_data ?r) = take i (rg_data ?m)" "rd_bytes ?r = rg_bytes ?m" "\<not> Suc i < unat (rg_bytes ?m)"
    proof -
      have "unat (rg_bytes ?m) = Suc i" using c(1) that(2,3) by simp
      with that(1) calculation show ?thesis by simp
    qed
    moreover have "rd_bytes ?r \<noteq> 0" using c(1) by auto
    ultimately show ?thesis
      using parts CopyData c by (auto simp: reader_ok_def Let_def reader_step.simps)
  next
    case RecheckSame
    then show ?thesis using retry by (auto simp: reader_ok_def Let_def reader_step.simps)
  next
    case RecheckCopied
    show ?thesis
    proof (cases "guard_unchanged ?m ?r")
      case False
      then show ?thesis using retry RecheckCopied by (auto simp: reader_ok_def Let_def reader_step.simps)
    next
      case True
      have g: "even ?seen" "?seen \<le> ?p" "rd_before ?r = of_nat ?seen" "rd_bytes ?r \<noteq> 0"
        using parts RecheckCopied by auto
      then have same: "?seen = ?p"
        using same_guard [OF w few g(2)] True by (simp add: guard_unchanged_def)
      then have l: "rd_current ?r = of_nat (?p div 2)" "rd_bytes ?r = rg_bytes ?m"
        "take (unat (rd_bytes ?r)) (rd_data ?r) = take (unat (rd_bytes ?r)) (rg_data ?m)"
        using parts RecheckCopied by auto
      have "region_shows (sy_history s) (?p div 2) ?m" using phase(4) g(1) same by simp
      note sh = shown_frame [OF this _ phase(3)]
      have "read_frame (sy_history s)
          (?r\<lparr>rd_sequence := rd_current ?r, rd_format := [], rd_pc := LoadFormat 0\<rparr>)"
        unfolding read_frame_def
        by (rule exI [where x = "?p div 2"]) (use sh l g(4) phase(1) in auto)
      then show ?thesis using True RecheckCopied by (auto simp: reader_ok_def Let_def reader_step.simps)
    qed
  next
    case (LoadFormat i)
    then show ?thesis using parts by (auto simp: reader_ok_def Let_def reader_step.simps read_frame_def)
  next
    case (Finished v)
    then show ?thesis using parts by (auto simp: reader_ok_def Let_def reader_step.simps)
  qed
qed

lemma read_frame_append: "read_frame frames r \<Longrightarrow> read_frame (frames @ fs) r"
  unfolding read_frame_def
proof (elim exE)
  fix k
  assume "0 < k \<and> k \<le> length frames \<and> rd_sequence r = of_nat k \<and>
      unat (rd_bytes r) = length (mf_data (frames ! (k - 1))) \<and>
      take (unat (rd_bytes r)) (rd_data r) = mf_data (frames ! (k - 1))"
  moreover from this have "k - 1 < length frames" by arith
  ultimately show "\<exists>k>0. k \<le> length (frames @ fs) \<and> rd_sequence r = of_nat k \<and>
      unat (rd_bytes r) = length (mf_data ((frames @ fs) ! (k - 1))) \<and>
      take (unat (rd_bytes r)) (rd_data r) = mf_data ((frames @ fs) ! (k - 1))"
    by (intro exI [where x = k]) (auto simp: nth_append)
qed

lemma reader_ok_event:
  assumes w: "writer_ok max_bytes formats s" and r: "reader_ok max_bytes s"
    and few: "length (sy_history s) < 2 ^ 31"
  shows "reader_ok max_bytes (media_step max_bytes formats e s)"
proof (cases e)
  case (WriteFrame call now)
  then show ?thesis
    using r by (auto simp: reader_ok_def Let_def read_frame_append split: option.split)
next
  case WriterStore
  show ?thesis
  proof (cases "sy_pending s")
    case (Cons st rest)
    then have "\<not> store_is_guard st \<Longrightarrow> odd (sy_phase s)" using writer_phase(5) [OF w] by blast
    then show ?thesis using r WriterStore Cons by (auto simp: reader_ok_def Let_def)
  qed (use r WriterStore in simp)
next
  case ReaderStart
  then show ?thesis using r by (auto simp: reader_ok_def Let_def start_read_def split: reader_pc.split)
next
  case ReaderStep
  then show ?thesis using reader_ok_step [OF w r few] by simp
qed

lemma history_grows: "length (sy_history s) \<le> length (sy_history (media_run max_bytes formats es s))"
proof (induction es arbitrary: s)
  case (Cons e es)
  have "length (sy_history s) \<le> length (sy_history (media_step max_bytes formats e s))"
    by (cases e) (auto split: option.split list.split reader_pc.split)
  then show ?case using Cons [of "media_step max_bytes formats e s"] by simp
qed simp

lemma media_run_ok:
  assumes "writer_ok max_bytes formats s" "reader_ok max_bytes s" "list_all event_ok es"
    "length (sy_history (media_run max_bytes formats es s)) < 2 ^ 31"
  shows "writer_ok max_bytes formats (media_run max_bytes formats es s) \<and>
    reader_ok max_bytes (media_run max_bytes formats es s)"
  using assms
proof (induction es arbitrary: s)
  case (Cons e es)
  have "length (sy_history s) < 2 ^ 31" using history_grows [of s "e # es"] Cons.prems(4) by simp
  then show ?case
    using Cons.IH [of "media_step max_bytes formats e s"] Cons.prems writer_ok_step reader_ok_event by simp
qed simp

lemma new_ok:
  "writer_ok max_bytes formats (new_system max_bytes formats buffer sequence)"
  "reader_ok max_bytes (new_system max_bytes formats buffer sequence)"
  by (simp_all add: writer_ok_def reader_ok_def Let_def new_system_def empty_region_def new_reader_def
      region_shows_def)

lemma read_is_a_frame:
  assumes "list_all event_ok es" "s = media_run max_bytes formats es (new_system max_bytes formats buffer sequence)"
    "length (sy_history s) < 2 ^ 31" "rd_pc (sy_reader s) = Finished 1"
  shows "\<exists>k. k < length (sy_history s) \<and>
    take (unat (rd_byte_count (sy_reader s))) (rd_data (sy_reader s)) = mf_data (sy_history s ! k) \<and>
    unat (rd_byte_count (sy_reader s)) = length (mf_data (sy_history s ! k)) \<and>
    rd_sequence (sy_reader s) = of_nat (k + 1)"
proof -
  have "reader_ok max_bytes s" using media_run_ok [OF new_ok assms(1)] assms(2,3) by auto
  then have "read_frame (sy_history s) (sy_reader s)" "rd_byte_count (sy_reader s) = rd_bytes (sy_reader s)"
    using assms(4) by (auto simp: reader_ok_def Let_def)
  then obtain k where "0 < k" "k \<le> length (sy_history s)" "rd_sequence (sy_reader s) = of_nat k"
    "unat (rd_byte_count (sy_reader s)) = length (mf_data (sy_history s ! (k - 1)))"
    "take (unat (rd_byte_count (sy_reader s))) (rd_data (sy_reader s)) = mf_data (sy_history s ! (k - 1))"
    by (auto simp: read_frame_def)
  then show ?thesis by (intro exI [where x = "k - 1"]) auto
qed

end

interpretation video: media_region MEDIA_MAX_VIDEO_BYTES VIDEO_FORMATS
  by unfold_locales (simp add: MEDIA_MAX_VIDEO_BYTES_def)

interpretation audio: media_region MEDIA_MAX_AUDIO_BYTES AUDIO_FORMATS
  by unfold_locales (simp add: MEDIA_MAX_AUDIO_BYTES_def)

lemma video_frame_ok:
  assumes "video_frame pixels w h fl = Some f" "unat w * unat h * 3 \<le> length pixels"
  shows "media_frame_ok MEDIA_MAX_VIDEO_BYTES VIDEO_FORMATS f"
proof -
  have f: "f = \<lparr>mf_data = take (unat w * unat h * 3) pixels, mf_format = [w, h, fl]\<rparr>"
    "0 < unat w" "0 < unat h" "unat w \<le> 1920" "unat h \<le> 1080"
    using assms(1)
    by (auto simp: video_frame_def MEDIA_MAX_WIDTH_def MEDIA_MAX_HEIGHT_def unat_gt_0 split: if_splits)
  moreover from f(4,5) have "unat w * unat h \<le> 1920 * 1080" by (rule mult_le_mono)
  ultimately show ?thesis
    using assms(2) by (auto simp: media_frame_ok_def MEDIA_MAX_VIDEO_BYTES_def VIDEO_FORMATS_def mult.commute)
qed

lemma audio_frame_ok:
  "audio_frame samples rate channels = Some f \<Longrightarrow> media_frame_ok MEDIA_MAX_AUDIO_BYTES AUDIO_FORMATS f"
  by (auto simp: audio_frame_def media_frame_ok_def AUDIO_FORMATS_def split: if_splits)

definition writes_ok :: "nat \<Rightarrow> nat \<Rightarrow> media_event list \<Rightarrow> bool" where
  "writes_ok max_bytes formats es \<longleftrightarrow>
     list_all (\<lambda>e. case e of WriteFrame (Some f) _ \<Rightarrow> media_frame_ok max_bytes formats f | _ \<Rightarrow> True) es"

text \<open>C8: However the loads and stores of the two processes interleave, byte by byte, a read that
  reports success has in its buffer exactly the pixels (or samples) of one frame that was written, never
  parts of two, with that frame's size and its number as sequence number, as long as fewer than
  2147483648 frames have been written.\<close>

theorem media_read_whole:
  assumes "(max_bytes, formats) \<in> {(MEDIA_MAX_VIDEO_BYTES, VIDEO_FORMATS), (MEDIA_MAX_AUDIO_BYTES, AUDIO_FORMATS)}"
    and "writes_ok max_bytes formats es"
    and "s = media_run max_bytes formats es (new_system max_bytes formats buffer sequence)"
    and "length (sy_history s) < 2 ^ 31" "rd_pc (sy_reader s) = Finished 1"
  shows "\<exists>k. k < length (sy_history s) \<and>
    take (unat (rd_byte_count (sy_reader s))) (rd_data (sy_reader s)) = mf_data (sy_history s ! k) \<and>
    unat (rd_byte_count (sy_reader s)) = length (mf_data (sy_history s ! k)) \<and>
    rd_sequence (sy_reader s) = of_nat (k + 1)"
  using assms video.read_is_a_frame [of es s buffer sequence] audio.read_is_a_frame [of es s buffer sequence]
  by (auto simp: writes_ok_def)

section \<open>The format words\<close>

definition host_video_valid :: "u32 \<Rightarrow> u32 \<Rightarrow> u32 \<Rightarrow> bool" where
  "host_video_valid width height byte_count \<longleftrightarrow>
     \<not> (width = 0 \<or> height = 0 \<or> 65535 < width \<or> 65535 < height \<or> byte_count \<noteq> width * height * 3)"

lemma run_append: "media_run m f (es @ fs) s = media_run m f fs (media_run m f es s)"
  by (induction es arbitrary: s) auto

lemma run_writer:
  "sy_pending s = ws \<Longrightarrow>
   \<exists>p. media_run m f (replicate (length ws) WriterStore) s =
       s\<lparr>sy_region := fold apply_store ws (sy_region s), sy_pending := [], sy_phase := p\<rparr>"
proof (induction ws arbitrary: s)
  case Nil
  then show ?case by (intro exI [where x = "sy_phase s"]) simp
next
  case (Cons w ws)
  let ?s = "media_step m f WriterStore s"
  have "sy_pending ?s = ws" using Cons.prems by simp
  from Cons.IH [OF this] show ?case using Cons.prems by auto
qed

lemma run_reader:
  "\<exists>n'. media_run m f (replicate n ReaderStep) s =
     s\<lparr>sy_reader := (reader_step m f (sy_region s) ^^ n) (sy_reader s), sy_seen := n'\<rparr>"
proof (induction n arbitrary: s)
  case 0
  then show ?case by (intro exI [where x = "sy_seen s"]) simp
next
  case (Suc n)
  obtain n' where "media_run m f (replicate n ReaderStep) (media_step m f ReaderStep s) =
      (media_step m f ReaderStep s)\<lparr>sy_reader := (reader_step m f (sy_region s) ^^ n)
        (reader_step m f (sy_region s) (sy_reader s)), sy_seen := n'\<rparr>"
    using Suc [of "media_step m f ReaderStep s"] by auto
  then show ?case by (auto simp: funpow_swap1)
qed

lemma copy_loop:
  assumes "i + j = unat (rd_bytes r)" "0 < j" "unat (rd_bytes r) \<le> length (rd_data r)"
    "unat (rd_bytes r) \<le> length (rg_data m)" "rd_pc r = CopyData i"
  shows "(reader_step mx f m ^^ j) r =
    r\<lparr>rd_data := write_at i (slice i j (rg_data m)) (rd_data r), rd_pc := RecheckCopied\<rparr>"
  using assms
proof (induction j arbitrary: i r)
  case (Suc j)
  let ?d = "(rd_data r)[i := rg_data m ! i]"
  have part: "slice i (Suc j) (rg_data m) = rg_data m ! i # slice (Suc i) j (rg_data m)"
    using Suc.prems by (simp add: slice_def Cons_nth_drop_Suc [symmetric])
  show ?case
  proof (cases "j = 0")
    case True
    have "write_at i [rg_data m ! i] (rd_data r) = ?d"
      using Suc.prems True by (simp add: write_at_def upd_conv_take_nth_drop)
    then show ?thesis using Suc.prems True part by (simp add: reader_step.simps)
  next
    case False
    have "write_at (Suc i) (slice (Suc i) j (rg_data m)) ?d = write_at i (slice i (Suc j) (rg_data m)) (rd_data r)"
      using Suc.prems by (simp add: part write_at_def take_Suc_conv_app_nth)
    then show ?thesis
      using Suc.IH [of "Suc i" "r\<lparr>rd_data := ?d, rd_pc := CopyData (Suc i)\<rparr>"] Suc.prems False
      by (simp add: reader_step.simps funpow_Suc_right del: funpow.simps)
  qed
qed simp

text \<open>A whole write to an idle region.\<close>

definition write_frame :: "media_frame \<Rightarrow> u64 \<Rightarrow> media_event list" where
  "write_frame f now =
     WriteFrame (Some f) now # replicate (length (write_stores f now 0 0)) WriterStore"

lemma length_write_stores: "length (write_stores f now g q) = length (write_stores f now 0 0)"
  by (simp add: write_stores_def frame_stores_def)

lemma run_write_frame:
  assumes "sy_pending s = []" "media_frame_ok m fo f" "length (rg_data (sy_region s)) = m"
    "length (rg_format (sy_region s)) = fo"
  shows "\<exists>p. media_run m fo (write_frame f now) s =
    s\<lparr>sy_region := (sy_region s)\<lparr>rg_guard := (rg_guard (sy_region s) OR 1) + 1,
        rg_data := write_at 0 (mf_data f) (rg_data (sy_region s)), rg_format := mf_format f,
        rg_bytes := of_nat (length (mf_data f)), rg_written := now,
        rg_sequence := rg_sequence (sy_region s) + 1\<rparr>,
      sy_history := sy_history s @ [f], sy_phase := p\<rparr>"
proof -
  let ?g = "rg_guard (sy_region s)" and ?q = "rg_sequence (sy_region s)"
  let ?s = "media_step m fo (WriteFrame (Some f) now) s"
  have "sy_pending ?s = write_stores f now ?g ?q" using assms(1) by simp
  from run_writer [OF this, of m fo] obtain p where
    "media_run m fo (replicate (length (write_stores f now ?g ?q)) WriterStore) ?s =
      ?s\<lparr>sy_region := fold apply_store (write_stores f now ?g ?q) (sy_region ?s), sy_pending := [], sy_phase := p\<rparr>"
    by blast
  moreover have "media_run m fo (write_frame f now) s =
      media_run m fo (replicate (length (write_stores f now ?g ?q)) WriterStore) ?s"
    by (simp add: write_frame_def length_write_stores [of f now ?g ?q])
  moreover have "fold apply_store (write_stores f now ?g ?q) (sy_region s) =
      (sy_region s)\<lparr>rg_guard := (?g OR 1) + 1, rg_data := write_at 0 (mf_data f) (rg_data (sy_region s)),
        rg_format := mf_format f, rg_bytes := of_nat (length (mf_data f)), rg_written := now,
        rg_sequence := ?q + 1\<rparr>"
    using fold_frame_stores [OF assms(2), of "(sy_region s)\<lparr>rg_guard := ?g OR 1\<rparr>" now ?q] assms(3,4)
    by (simp add: write_stores_def)
  ultimately show ?thesis using assms(1) by (intro exI [where x = p]) simp
qed

text \<open>A read of an idle region up to the point where the format words are loaded.\<close>

lemma read_until_format:
  assumes "rd_pc r = LoadBefore" "rg_guard m AND 1 = 0" "rg_bytes m \<noteq> 0" "unat (rg_bytes m) \<le> length (rd_data r)"
    "unat (rg_bytes m) \<le> mx" "unat (rg_bytes m) \<le> length (rg_data m)" "rg_sequence m \<noteq> rd_sequence r"
  shows "\<exists>b st. (reader_step mx f m ^^ (5 + unat (rg_bytes m))) r =
    r\<lparr>rd_before := b, rd_current := rg_sequence m, rd_bytes := rg_bytes m, rd_stamp := st,
      rd_data := write_at 0 (take (unat (rg_bytes m)) (rg_data m)) (rd_data r),
      rd_sequence := rg_sequence m, rd_format := [], rd_pc := LoadFormat 0\<rparr>"
proof -
  let ?n = "unat (rg_bytes m)" and ?f = "reader_step mx f m"
  let ?h = "r\<lparr>rd_before := rg_guard m, rd_current := rg_sequence m, rd_bytes := rg_bytes m,
    rd_stamp := rg_written m, rd_pc := CopyData 0\<rparr>"
  have head: "(?f ^^ 4) r = ?h"
    using assms by (simp add: reader_step.simps after_header_def eval_nat_numeral)
  have "0 < ?n" using assms(3) by (simp add: unat_gt_0)
  then have copy: "(?f ^^ ?n) ?h = ?h\<lparr>rd_data := write_at 0 (slice 0 ?n (rg_data m)) (rd_data ?h), rd_pc := RecheckCopied\<rparr>"
    using assms by (intro copy_loop) auto
  have "(?f ^^ (5 + ?n)) r = ?f ((?f ^^ ?n) ((?f ^^ 4) r))"
    using funpow_add [of "Suc ?n" 4 ?f] by (simp add: add.commute o_def)
  also have "\<dots> = ?h\<lparr>rd_data := write_at 0 (take ?n (rg_data m)) (rd_data r), rd_sequence := rg_sequence m,
      rd_format := [], rd_pc := LoadFormat 0\<rparr>"
    unfolding head copy using assms(2) by (simp add: reader_step.simps guard_unchanged_def slice_def)
  finally show ?thesis by (intro exI [where x = "rg_guard m"] exI [where x = "rg_written m"]) simp
qed

lemma three_formats:
  assumes "rd_pc r = LoadFormat 0" "rd_format r = []" "rg_format m = [x, y, z]"
  shows "(reader_step mx VIDEO_FORMATS m ^^ 3) r =
    r\<lparr>rd_format := [x, y, z], rd_byte_count := rd_bytes r, rd_pc := Finished 1\<rparr>"
  using assms by (simp add: reader_step.simps VIDEO_FORMATS_def eval_nat_numeral)

lemma dimensions_agree:
  assumes "unat wb \<le> 1920" "unat hb \<le> 1080" "wb \<noteq> 0" "hb \<noteq> 0" "n \<le> 1920 * 1080"
  shows "host_video_valid wb hb (of_nat (n * 3)) \<longleftrightarrow> n = unat wb * unat hb"
proof -
  have "unat wb * unat hb \<le> 1920 * 1080" using assms(1,2) by (rule mult_le_mono)
  moreover have "wb * hb * 3 = of_nat (unat wb * unat hb * 3)" by simp
  ultimately have "of_nat (n * 3) = wb * hb * 3 \<longleftrightarrow> n * 3 = unat wb * unat hb * 3"
    using assms(5) of_nat_u32_eq [of "n * 3" "unat wb * unat hb * 3"] by auto
  then show ?thesis
    using assms(1-4) by (auto simp: host_video_valid_def word_less_nat_alt)
qed

lemma torn_run:
  assumes "video_frame pa wa ha fa = Some a" "unat wa * unat ha * 3 \<le> length pa"
    and "video_frame pb wb hb fb = Some b" "unat wb * unat hb * 3 \<le> length pb"
    and "unat wa * unat ha * 3 \<le> length buffer"
  shows "\<exists>es s. writes_ok MEDIA_MAX_VIDEO_BYTES VIDEO_FORMATS es \<and>
    s = media_run MEDIA_MAX_VIDEO_BYTES VIDEO_FORMATS es
          (new_system MEDIA_MAX_VIDEO_BYTES VIDEO_FORMATS buffer 0) \<and>
    sy_history s = [a, b] \<and> rd_pc (sy_reader s) = Finished 1 \<and>
    take (unat wa * unat ha * 3) (rd_data (sy_reader s)) = mf_data a \<and>
    rd_format (sy_reader s) = [wb, hb, fb] \<and>
    host_video_valid wb hb (rd_byte_count (sy_reader s)) = (unat wa * unat ha = unat wb * unat hb)"
proof -
  let ?run = "media_run MEDIA_MAX_VIDEO_BYTES VIDEO_FORMATS" and ?la = "length (mf_data a)"
  let ?s0 = "new_system MEDIA_MAX_VIDEO_BYTES VIDEO_FORMATS buffer 0"
  have fa: "media_frame_ok MEDIA_MAX_VIDEO_BYTES VIDEO_FORMATS a" and fb: "media_frame_ok MEDIA_MAX_VIDEO_BYTES VIDEO_FORMATS b"
    using assms video_frame_ok by blast+
  have a: "mf_data a = take (unat wa * unat ha * 3) pa" "?la = unat wa * unat ha * 3"
    and b: "mf_format b = [wb, hb, fb]" and dims: "unat wa \<le> 1920" "unat ha \<le> 1080" "unat wb \<le> 1920"
      "unat hb \<le> 1080" "wb \<noteq> 0" "hb \<noteq> 0"
    using assms by (auto simp: video_frame_def MEDIA_MAX_WIDTH_def MEDIA_MAX_HEIGHT_def split: if_splits)
  have la: "?la \<le> MEDIA_MAX_VIDEO_BYTES" "unat (of_nat ?la :: u32) = ?la" "0 < ?la"
    using fa by (auto simp: media_frame_ok_def MEDIA_MAX_VIDEO_BYTES_def unat_of_nat)
  define s1 where "s1 = ?run (write_frame a 0) ?s0"
  obtain p1 where s1: "s1 = ?s0\<lparr>sy_region := (sy_region ?s0)\<lparr>rg_guard := 2,
      rg_data := write_at 0 (mf_data a) (rg_data (sy_region ?s0)), rg_format := mf_format a,
      rg_bytes := of_nat ?la, rg_written := 0, rg_sequence := 1\<rparr>, sy_history := [a], sy_phase := p1\<rparr>"
    using run_write_frame [of ?s0 MEDIA_MAX_VIDEO_BYTES VIDEO_FORMATS a 0] fa
    by (auto simp: s1_def new_system_def empty_region_def)
  define s2 where "s2 = ?run (replicate (5 + ?la) ReaderStep) s1"
  have "rg_bytes (sy_region s1) \<noteq> 0" using la by (auto simp: s1 simp flip: unat_eq_0)
  then have "\<exists>q st. (reader_step MEDIA_MAX_VIDEO_BYTES VIDEO_FORMATS (sy_region s1) ^^ (5 + ?la)) (sy_reader s1) =
      (sy_reader s1)\<lparr>rd_before := q, rd_current := 1, rd_bytes := of_nat ?la, rd_stamp := st,
        rd_data := write_at 0 (mf_data a) buffer, rd_sequence := 1, rd_format := [], rd_pc := LoadFormat 0\<rparr>"
    using read_until_format [of "sy_reader s1" "sy_region s1" MEDIA_MAX_VIDEO_BYTES VIDEO_FORMATS] la assms(5) a(2)
    by (simp add: s1 new_system_def new_reader_def empty_region_def write_at_def)
  then obtain q st n2 where s2: "s2 = s1\<lparr>sy_reader := (sy_reader s1)\<lparr>rd_before := q, rd_current := 1,
        rd_bytes := of_nat ?la, rd_stamp := st, rd_data := write_at 0 (mf_data a) buffer, rd_sequence := 1,
        rd_format := [], rd_pc := LoadFormat 0\<rparr>, sy_seen := n2\<rparr>"
    using run_reader [of MEDIA_MAX_VIDEO_BYTES VIDEO_FORMATS "5 + ?la" s1] by (auto simp: s2_def)
  define s3 where "s3 = ?run (write_frame b 0) s2"
  have "sy_pending s2 = []" "length (rg_data (sy_region s2)) = MEDIA_MAX_VIDEO_BYTES"
    "length (rg_format (sy_region s2)) = VIDEO_FORMATS"
    using la fa by (auto simp: s2 s1 new_system_def empty_region_def media_frame_ok_def)
  from run_write_frame [OF this(1) fb this(2,3), of 0]
  have s3: "sy_reader s3 = sy_reader s2" "sy_history s3 = [a, b]" "rg_format (sy_region s3) = [wb, hb, fb]"
    by (auto simp: s3_def s2 s1 b)
  define s4 where "s4 = ?run (replicate 3 ReaderStep) s3"
  have "sy_reader s4 = (sy_reader s3)\<lparr>rd_format := [wb, hb, fb], rd_byte_count := rd_bytes (sy_reader s3),
      rd_pc := Finished 1\<rparr>" "sy_history s4 = [a, b]"
    using run_reader [of MEDIA_MAX_VIDEO_BYTES VIDEO_FORMATS 3 s3] s3
      three_formats [OF _ _ s3(3), of "sy_reader s3" MEDIA_MAX_VIDEO_BYTES]
    by (auto simp: s4_def s2)
  moreover have "rd_bytes (sy_reader s3) = of_nat ?la" "rd_data (sy_reader s3) = write_at 0 (mf_data a) buffer"
    by (simp_all add: s3 s2)
  moreover have "unat wa * unat ha \<le> 1920 * 1080" using dims(1,2) by (rule mult_le_mono)
  ultimately have "rd_pc (sy_reader s4) = Finished 1 \<and> rd_format (sy_reader s4) = [wb, hb, fb] \<and>
      take (unat wa * unat ha * 3) (rd_data (sy_reader s4)) = mf_data a \<and> sy_history s4 = [a, b] \<and>
      host_video_valid wb hb (rd_byte_count (sy_reader s4)) = (unat wa * unat ha = unat wb * unat hb)"
    using dimensions_agree [OF dims(3-6), of "unat wa * unat ha"] a(2) by (simp add: write_at_def)
  moreover have "s4 = ?run (write_frame a 0 @ replicate (5 + ?la) ReaderStep @ write_frame b 0 @
      replicate 3 ReaderStep) ?s0"
    by (simp add: run_append s4_def s3_def s2_def s1_def)
  moreover have "writes_ok MEDIA_MAX_VIDEO_BYTES VIDEO_FORMATS
      (write_frame a 0 @ replicate (5 + ?la) ReaderStep @ write_frame b 0 @ replicate 3 ReaderStep)"
    using fa fb by (auto simp: writes_ok_def write_frame_def list_all_iff)
  ultimately show ?thesis by blast
qed

text \<open>C32: The format words of a frame are loaded after the guard has been checked for the last time. For
  any two frames there is an interleaving in which a read reports success with the pixels of the first
  and the width, height and flags of the second; the host then takes the frame for a good one exactly if
  the two frames happen to have equally many pixels, and otherwise gives the stream up as invalid.\<close>

theorem video_format_torn:
  assumes "video_frame pa wa ha fa = Some a" "unat wa * unat ha * 3 \<le> length pa"
    and "video_frame pb wb hb fb = Some b" "unat wb * unat hb * 3 \<le> length pb"
    and "unat wa * unat ha * 3 \<le> length buffer"
  shows "\<exists>es s. writes_ok MEDIA_MAX_VIDEO_BYTES VIDEO_FORMATS es \<and>
    s = media_run MEDIA_MAX_VIDEO_BYTES VIDEO_FORMATS es
          (new_system MEDIA_MAX_VIDEO_BYTES VIDEO_FORMATS buffer 0) \<and>
    sy_history s = [a, b] \<and> rd_pc (sy_reader s) = Finished 1 \<and>
    take (unat wa * unat ha * 3) (rd_data (sy_reader s)) = mf_data a \<and>
    rd_format (sy_reader s) = [wb, hb, fb] \<and>
    host_video_valid wb hb (rd_byte_count (sy_reader s)) = (unat wa * unat ha = unat wb * unat hb)"
  by (rule torn_run [OF assms])

text \<open>A frame of one pixel and one of two, the first with the dimensions of the second.\<close>

lemma small_frames:
  "video_frame [1, 2, 3] 1 1 0 = Some \<lparr>mf_data = [1, 2, 3], mf_format = [1, 1, 0]\<rparr>"
  "video_frame [4, 5, 6, 7, 8, 9] 2 1 0 = Some \<lparr>mf_data = [4, 5, 6, 7, 8, 9], mf_format = [2, 1, 0]\<rparr>"
  by (simp_all add: video_frame_def MEDIA_MAX_WIDTH_def MEDIA_MAX_HEIGHT_def)

theorem video_format_torn_witness:
  "\<exists>es s. s = media_run MEDIA_MAX_VIDEO_BYTES VIDEO_FORMATS es
      (new_system MEDIA_MAX_VIDEO_BYTES VIDEO_FORMATS [0, 0, 0, 0, 0, 0] 0) \<and>
    rd_pc (sy_reader s) = Finished 1 \<and> take 3 (rd_data (sy_reader s)) = [1, 2, 3] \<and>
    rd_format (sy_reader s) = [2, 1, 0] \<and> \<not> host_video_valid 2 1 (rd_byte_count (sy_reader s))"
  using video_format_torn [OF small_frames(1) _ small_frames(2), of "[0, 0, 0, 0, 0, 0]"] by auto

theorem media_read_whole_witness:
  "\<exists>es s k. s = media_run MEDIA_MAX_VIDEO_BYTES VIDEO_FORMATS es
      (new_system MEDIA_MAX_VIDEO_BYTES VIDEO_FORMATS [0, 0, 0, 0, 0, 0] 0) \<and>
    rd_pc (sy_reader s) = Finished 1 \<and> k < length (sy_history s) \<and>
    take (unat (rd_byte_count (sy_reader s))) (rd_data (sy_reader s)) = mf_data (sy_history s ! k)"
proof -
  obtain es s where s: "writes_ok MEDIA_MAX_VIDEO_BYTES VIDEO_FORMATS es"
    "s = media_run MEDIA_MAX_VIDEO_BYTES VIDEO_FORMATS es
      (new_system MEDIA_MAX_VIDEO_BYTES VIDEO_FORMATS [0, 0, 0, 0, 0, 0] 0)"
    "length (sy_history s) < 2 ^ 31" "rd_pc (sy_reader s) = Finished 1"
    using torn_run [OF small_frames(1) _ small_frames(2), of "[0, 0, 0, 0, 0, 0]"] by auto
  then show ?thesis using media_read_whole [OF _ s] by blast
qed

section \<open>The screenshot handshake\<close>

text \<open>
  One word of the shared memory: 0 idle, 1 requested, 2 capturing, 3 saved, -1 failed. Each
  operation is one compare-and-exchange; the client requests and collects, the runtime takes
  and finishes.
\<close>

definition request_screenshot :: "int \<Rightarrow> int \<times> int" where
  "request_screenshot word = (if word = 0 then (1, 0) else (word, - 1))"

definition media_take_screenshot :: "int \<Rightarrow> int \<times> bool" where
  "media_take_screenshot word = (if word = 1 then (2, True) else (word, False))"

definition finish_screenshot :: "bool \<Rightarrow> int \<Rightarrow> int" where
  "finish_screenshot saved word = (if word = 2 then (if saved then 3 else - 1) else word)"

definition screenshot_result :: "int \<Rightarrow> int \<times> int" where
  "screenshot_result word = (if word = 3 then (0, 1) else if word = - 1 then (0, - 1) else (word, 0))"

datatype screenshot_op = Request | Take | Finish bool | Result

fun screenshot_step :: "screenshot_op \<Rightarrow> int \<Rightarrow> int" where
  "screenshot_step Request word = fst (request_screenshot word)"
| "screenshot_step Take word = fst (media_take_screenshot word)"
| "screenshot_step (Finish saved) word = finish_screenshot saved word"
| "screenshot_step Result word = fst (screenshot_result word)"

lemmas screenshot_defs = request_screenshot_def media_take_screenshot_def finish_screenshot_def
  screenshot_result_def

text \<open>The word stays in its five states, and a result is only given for a capture that was finished.\<close>

lemma screenshot_states:
  "word \<in> {0, 1, 2, 3, - 1} \<Longrightarrow> fold screenshot_step ops word \<in> {0, 1, 2, 3, - 1}"
proof (induction ops arbitrary: word)
  case (Cons op ops)
  have "screenshot_step op word \<in> {0, 1, 2, 3, - 1}"
    using Cons.prems by (cases op) (auto simp: screenshot_defs)
  then show ?case using Cons.IH by simp
qed simp

lemma screenshot_result_finished:
  assumes "snd (screenshot_result (fold screenshot_step ops 0)) = v" "v \<noteq> 0"
  shows "\<exists>before after. ops = before @ Finish (v = 1) # after \<and>
    fold screenshot_step before 0 = 2 \<and> fold screenshot_step after (if v = 1 then 3 else - 1) = (if v = 1 then 3 else - 1)"
proof -
  have "fold screenshot_step ops 0 = (if v = 1 then 3 else - 1)" "v = 1 \<or> v = - 1"
    using assms by (auto simp: screenshot_result_def split: if_splits)
  then show ?thesis
  proof (induction ops rule: rev_induct)
    case (snoc op ops)
    let ?w = "if v = 1 then 3 else - 1 :: int"
    show ?case
    proof (cases "fold screenshot_step ops 0 = ?w")
      case True
      then obtain before after where "ops = before @ Finish (v = 1) # after" "fold screenshot_step before 0 = 2"
        "fold screenshot_step after ?w = ?w"
        using snoc by auto
      then show ?thesis using snoc.prems True by (intro exI [where x = before] exI [where x = "after @ [op]"]) auto
    next
      case False
      then have "op = Finish (v = 1) \<and> fold screenshot_step ops 0 = 2"
        using snoc.prems by (cases op) (auto simp: screenshot_defs split: if_splits)
      then show ?thesis by (intro exI [where x = ops] exI [where x = "[]"]) auto
    qed
  qed auto
qed

end
