(* ===== verification/MediaCodec.thy ===== *)
theory MediaCodec
  imports Common "HOL-Library.Multiset"
begin

text \<open>
  The audio codec and the receive buffer of the media connection
  (\<open>c_client/media_codec.c\<close>): a stereo block is a header with the first sample of each side
  and a code of four bits per further sample, relative to a prediction that encoder and
  decoder both compute; packets that arrive out of order wait in sixteen slots and leave in
  the order of their sequence numbers, a lost one being reported as such after a while.

  C's \<open>int\<close> is \<open>int\<close>, as nothing here gets near its limits; a shift of a step to the right
  is a division, steps being positive.
\<close>

unbundle bit_operations_syntax

type_synonym sample = "16 word"

section \<open>One sample\<close>

definition step_table :: "int list" where
  "step_table =
     [7, 8, 9, 10, 11, 12, 13, 14, 16, 17, 19, 21, 23, 25, 28, 31, 34, 37, 41, 45, 50, 55, 60, 66, 73,
      80, 88, 97, 107, 118, 130, 143, 157, 173, 190, 209, 230, 253, 279, 307, 337, 371, 408, 449, 494,
      544, 598, 658, 724, 796, 876, 963, 1060, 1166, 1282, 1411, 1552, 1707, 1878, 2066, 2272, 2499,
      2749, 3024, 3327, 3660, 4026, 4428, 4871, 5358, 5894, 6484, 7132, 7845, 8630, 9493, 10442, 11487,
      12635, 13899, 15289, 16818, 18500, 20350, 22385, 24623, 27086, 29794, 32767]"

definition index_table :: "int list" where
  "index_table = [- 1, - 1, - 1, - 1, 2, 4, 6, 8, - 1, - 1, - 1, - 1, 2, 4, 6, 8]"

definition clamp_sample :: "int \<Rightarrow> int" where
  "clamp_sample value = (if value < - 32768 then - 32768 else if 32767 < value then 32767 else value)"

definition clamp_index :: "int \<Rightarrow> int" where
  "clamp_index value = (if value < 0 then 0 else if 88 < value then 88 else value)"

text \<open>The prediction: the last value and the index of the step.\<close>

type_synonym prediction = "int \<times> int"

definition step_of :: "prediction \<Rightarrow> int" where
  "step_of s = step_table ! nat (snd s)"

definition code_bits :: "bool \<Rightarrow> bool \<Rightarrow> bool \<Rightarrow> bool \<Rightarrow> u8" where
  "code_bits b8 b4 b2 b1 =
     (if b8 then 8 else 0) OR (if b4 then 4 else 0) OR (if b2 then 2 else 0) OR (if b1 then 1 else 0)"

definition encode_sample :: "int \<Rightarrow> prediction \<Rightarrow> u8 \<times> prediction" where
  "encode_sample sample s =
     (let step = step_of s;
          difference = sample - fst s;
          b8 = difference < 0;
          magnitude = (if b8 then - difference else difference);
          b4 = step \<le> magnitude;
          magnitude = (if b4 then magnitude - step else magnitude);
          b2 = step div 2 \<le> magnitude;
          magnitude = (if b2 then magnitude - step div 2 else magnitude);
          b1 = step div 4 \<le> magnitude;
          code = code_bits b8 b4 b2 b1;
          value = step div 8 + (if b4 then step else 0) + (if b2 then step div 2 else 0) +
                  (if b1 then step div 4 else 0)
      in (code, clamp_sample (fst s + (if code AND 8 \<noteq> 0 then - value else value)),
          clamp_index (snd s + index_table ! unat code)))"

definition decode_sample :: "u8 \<Rightarrow> prediction \<Rightarrow> prediction" where
  "decode_sample code s =
     (let step = step_of s;
          value = step div 8 + (if code AND 4 \<noteq> 0 then step else 0) +
                  (if code AND 2 \<noteq> 0 then step div 2 else 0) + (if code AND 1 \<noteq> 0 then step div 4 else 0)
      in (clamp_sample (fst s + (if code AND 8 \<noteq> 0 then - value else value)),
          clamp_index (snd s + index_table ! unat (code AND 15))))"

section \<open>Blocks\<close>

definition ADPCM_HEADER :: nat where "ADPCM_HEADER = 8"

definition put_s16_be :: "sample \<Rightarrow> bytes" where
  "put_s16_be v = [ucast (drop_bit 8 v), ucast v]"

definition get_s16_be :: "bytes \<Rightarrow> sample" where
  "get_s16_be bs = push_bit 8 (ucast (bs ! 0)) OR ucast (bs ! 1)"

definition adpcm_stereo_encoded_size :: "u16 \<Rightarrow> nat" where
  "adpcm_stereo_encoded_size frame_count =
     (if frame_count \<noteq> 0 then ADPCM_HEADER + unat frame_count - 1 else 0)"

fun encode_frames :: "sample list \<Rightarrow> nat list \<Rightarrow> prediction \<Rightarrow> prediction \<Rightarrow> bytes" where
  "encode_frames pcm [] left right = []"
| "encode_frames pcm (frame # frames) left right =
     (case encode_sample (sint (pcm ! (frame * 2))) left of
        (left_code, left') \<Rightarrow>
          (case encode_sample (sint (pcm ! (frame * 2 + 1))) right of
             (right_code, right') \<Rightarrow>
               (left_code OR push_bit 4 right_code) # encode_frames pcm frames left' right'))"

definition adpcm_encode_stereo :: "sample list \<Rightarrow> u16 \<Rightarrow> nat \<Rightarrow> bytes option" where
  "adpcm_encode_stereo pcm frame_count encoded_capacity =
     (let required = adpcm_stereo_encoded_size frame_count
      in if required = 0 \<or> encoded_capacity < required then None
         else Some (put_s16_be (pcm ! 0) @ [0, 0] @ put_s16_be (pcm ! 1) @ [0, 0] @
                    encode_frames pcm [1..<unat frame_count] (sint (pcm ! 0), 0) (sint (pcm ! 1), 0)))"

fun decode_frames :: "bytes \<Rightarrow> prediction \<Rightarrow> prediction \<Rightarrow> sample list" where
  "decode_frames [] left right = []"
| "decode_frames (codes # rest) left right =
     (let left' = decode_sample (codes AND 15) left; right' = decode_sample (drop_bit 4 codes) right
      in word_of_int (fst left') # word_of_int (fst right') # decode_frames rest left' right')"

definition adpcm_decode_stereo :: "bytes \<Rightarrow> u16 \<Rightarrow> nat \<Rightarrow> sample list option" where
  "adpcm_decode_stereo encoded frame_count sample_capacity =
     (let required = adpcm_stereo_encoded_size frame_count
      in if required = 0 \<or> length encoded \<noteq> required \<or> sample_capacity < unat frame_count * 2 then None
         else let left = get_s16_be encoded; right = get_s16_be (drop 4 encoded);
                  left_index = uint (encoded ! 2); right_index = uint (encoded ! 6)
              in if 88 < left_index \<or> 88 < right_index \<or> encoded ! 3 \<noteq> 0 \<or> encoded ! 7 \<noteq> 0 then None
                 else Some (left # right #
                        decode_frames (drop ADPCM_HEADER encoded) (sint left, left_index) (sint right, right_index)))"

section \<open>The jitter buffer\<close>

definition JITTER_SLOTS :: nat where "JITTER_SLOTS = 16"
definition AUDIO_MAX_PAYLOAD :: nat where "AUDIO_MAX_PAYLOAD = 8192"

record jitter_slot =
  sl_sequence :: u32
  sl_occupied :: bool
  sl_payload :: bytes

record jitter =
  ji_slots :: "jitter_slot list"
  ji_expected :: u32
  ji_gap_started :: u64
  ji_loss_deadline :: u64
  ji_target :: nat
  ji_count :: nat
  ji_started :: bool

definition sequence_before :: "u32 \<Rightarrow> u32 \<Rightarrow> bool" where
  "sequence_before left right \<longleftrightarrow> sint (left - right) < 0"

definition jitter_init :: "nat \<Rightarrow> u64 \<Rightarrow> jitter" where
  "jitter_init target_packets loss_deadline =
     \<lparr>ji_slots = replicate JITTER_SLOTS \<lparr>sl_sequence = 0, sl_occupied = False, sl_payload = []\<rparr>,
      ji_expected = 0, ji_gap_started = 0, ji_loss_deadline = loss_deadline,
      ji_target = min (if target_packets = 0 then 1 else target_packets) JITTER_SLOTS,
      ji_count = 0, ji_started = False\<rparr>"

text \<open>The first free slot, unless the sequence number is already held.\<close>

fun push_slot :: "u32 \<Rightarrow> jitter_slot list \<Rightarrow> nat \<Rightarrow> nat option \<Rightarrow> nat option" where
  "push_slot sequence [] index free_slot = free_slot"
| "push_slot sequence (slot # slots) index free_slot =
     (if sl_occupied slot \<and> sl_sequence slot = sequence then None
      else push_slot sequence slots (index + 1)
             (if \<not> sl_occupied slot \<and> free_slot = None then Some index else free_slot))"

definition jitter_push :: "u32 \<Rightarrow> bytes \<Rightarrow> jitter \<Rightarrow> jitter \<times> int" where
  "jitter_push sequence payload j =
     (if payload = [] \<or> AUDIO_MAX_PAYLOAD < length payload then (j, - 1)
      else if ji_started j \<and> sequence_before sequence (ji_expected j) then (j, 1)
      else case push_slot sequence (ji_slots j) 0 None of
             None \<Rightarrow> (j, 1)
           | Some i \<Rightarrow>
               (j\<lparr>ji_slots := (ji_slots j)[i := \<lparr>sl_sequence = sequence, sl_occupied = True,
                    sl_payload = payload\<rparr>],
                  ji_count := ji_count j + 1\<rparr>, 0))"

fun find_sequence :: "u32 \<Rightarrow> jitter_slot list \<Rightarrow> nat \<Rightarrow> nat option" where
  "find_sequence sequence [] index = None"
| "find_sequence sequence (slot # slots) index =
     (if sl_occupied slot \<and> sl_sequence slot = sequence then Some index
      else find_sequence sequence slots (index + 1))"

definition find_earliest :: "jitter_slot list \<Rightarrow> u32 option" where
  "find_earliest slots =
     foldl (\<lambda>earliest slot.
       if sl_occupied slot \<and>
          (case earliest of None \<Rightarrow> True | Some e \<Rightarrow> sequence_before (sl_sequence slot) e)
       then Some (sl_sequence slot) else earliest) None slots"

datatype jitter_result = JitterWait | JitterPacket u32 bytes | JitterConceal u32

text \<open>Getting started: wait for the target, then expect the earliest packet.\<close>

definition jitter_start :: "jitter \<Rightarrow> jitter option" where
  "jitter_start j =
     (if ji_started j then Some j
      else if ji_count j < ji_target j then None
      else map_option (\<lambda>first. j\<lparr>ji_expected := first, ji_started := True\<rparr>) (find_earliest (ji_slots j)))"

definition jitter_take :: "u64 \<Rightarrow> nat \<Rightarrow> jitter \<Rightarrow> jitter \<times> jitter_result" where
  "jitter_take now capacity j =
     (case find_sequence (ji_expected j) (ji_slots j) 0 of
        Some i \<Rightarrow>
          let slot = ji_slots j ! i
          in if capacity < length (sl_payload slot) then (j, JitterWait)
             else (j\<lparr>ji_slots := (ji_slots j)[i := slot\<lparr>sl_occupied := False\<rparr>], ji_count := ji_count j - 1,
                     ji_expected := ji_expected j + 1, ji_gap_started := 0\<rparr>,
                   JitterPacket (sl_sequence slot) (sl_payload slot))
      | None \<Rightarrow>
          if ji_count j = 0 then (j\<lparr>ji_gap_started := 0\<rparr>, JitterWait)
          else if ji_gap_started j = 0 then (j\<lparr>ji_gap_started := now\<rparr>, JitterWait)
          else if now - ji_gap_started j < ji_loss_deadline j then (j, JitterWait)
          else (j\<lparr>ji_expected := ji_expected j + 1, ji_gap_started := 0\<rparr>, JitterConceal (ji_expected j)))"

definition jitter_pop :: "u64 \<Rightarrow> nat \<Rightarrow> jitter \<Rightarrow> jitter \<times> jitter_result" where
  "jitter_pop now capacity j =
     (case jitter_start j of None \<Rightarrow> (j, JitterWait) | Some k \<Rightarrow> jitter_take now capacity k)"

definition audio_queue_would_exceed :: "u32 \<Rightarrow> u32 \<Rightarrow> u32 \<Rightarrow> u32 \<Rightarrow> u32 \<Rightarrow> u32 \<Rightarrow> bool" where
  "audio_queue_would_exceed queued incoming sample_rate channels bytes_per_sample cap_ms =
     (if sample_rate = 0 \<or> channels = 0 \<or> bytes_per_sample = 0 \<or> cap_ms = 0 then False
      else let projected = ucast queued + ucast incoming :: u64;
               per_second = ucast sample_rate * ucast channels * ucast bytes_per_sample :: u64
           in per_second * ucast cap_ms < projected * 1000)"

section \<open>Encoder and decoder in step\<close>

lemma code_bits_test [simp]:
  "code_bits b8 b4 b2 b1 AND 8 \<noteq> 0 \<longleftrightarrow> b8" "code_bits b8 b4 b2 b1 AND 8 = 0 \<longleftrightarrow> \<not> b8"
  "code_bits b8 b4 b2 b1 AND 4 = 0 \<longleftrightarrow> \<not> b4" "code_bits b8 b4 b2 b1 AND 2 = 0 \<longleftrightarrow> \<not> b2"
  "code_bits b8 b4 b2 b1 AND 1 = 0 \<longleftrightarrow> \<not> b1" "code_bits b8 b4 b2 b1 AND 15 = code_bits b8 b4 b2 b1"
  by (cases b8; cases b4; cases b2; cases b1; simp add: code_bits_def)+

lemma encode_decode_sample:
  "encode_sample sample s = (code, s') \<Longrightarrow> decode_sample code s = s' \<and> code AND 15 = code"
  unfolding encode_sample_def decode_sample_def Let_def prod.inject
  by (elim conjE, hypsubst) (simp only: code_bits_test if_cancel simp_thms not_not if_not_P if_P)

definition sane :: "prediction \<Rightarrow> bool" where
  "sane s \<longleftrightarrow> - 32768 \<le> fst s \<and> fst s \<le> 32767 \<and> 0 \<le> snd s \<and> snd s \<le> 88"

lemma sane_encode: "sane (snd (encode_sample sample s))"
  by (simp add: encode_sample_def Let_def sane_def clamp_sample_def clamp_index_def)

lemma sint_value: "- 32768 \<le> v \<Longrightarrow> v \<le> 32767 \<Longrightarrow> sint (word_of_int v :: sample) = v"
  by (simp add: int_word_sint)

lemma sint_sample: "- 32768 \<le> sint (w :: sample)" "sint (w :: sample) \<le> 32767"
  using sint_ge [of w] sint_lt [of w] by simp_all

lemma codes_apart:
  fixes l r :: u8
  assumes "l AND 15 = l" "r AND 15 = r"
  shows "(l OR push_bit 4 r) AND 15 = l" "drop_bit 4 (l OR push_bit 4 r) = r"
proof -
  have m: "w AND 15 = take_bit 4 w" for w :: u8
    by (simp add: take_bit_eq_mask mask_eq_exp_minus_1)
  have low: "bit w n \<Longrightarrow> n < 4" if "w AND 15 = w" for w :: u8 and n
    using that by (metis bit_take_bit_iff m)
  show "(l OR push_bit 4 r) AND 15 = l"
    unfolding m by (rule bit_word_eqI) (use low [OF assms(1)] in \<open>auto simp: bit_simps\<close>)
  show "drop_bit 4 (l OR push_bit 4 r) = r"
  proof (rule bit_word_eqI)
    fix n assume "n < LENGTH(8)"
    show "bit (drop_bit 4 (l OR push_bit 4 r)) n \<longleftrightarrow> bit r n"
      using low [OF assms(1), of "4 + n"] low [OF assms(2), of n]
      by (auto simp: bit_simps dest: bit_imp_le_length)
  qed
qed

text \<open>The value the encoder itself expects the decoder to have for frame \<open>f\<close> of a side.\<close>

primrec predicted :: "sample list \<Rightarrow> nat \<Rightarrow> nat \<Rightarrow> prediction" where
  "predicted pcm side 0 = (sint (pcm ! side), 0)"
| "predicted pcm side (Suc f) =
     snd (encode_sample (sint (pcm ! (Suc f * 2 + side))) (predicted pcm side f))"

lemma sane_predicted: "sane (predicted pcm side f)"
  by (cases f) (simp_all add: sane_encode, simp add: sane_def sint_sample)

lemma decode_encoded_frames:
  "decode_frames (encode_frames pcm [Suc f..<f + n] (predicted pcm 0 f) (predicted pcm 1 f))
     (predicted pcm 0 f) (predicted pcm 1 f) =
   concat (map (\<lambda>g. [word_of_int (fst (predicted pcm 0 g)), word_of_int (fst (predicted pcm 1 g))])
     [Suc f..<f + n])"
proof (induction n arbitrary: f)
  case (Suc n)
  show ?case
  proof (cases "n = 0")
    case False
    obtain lc where l: "encode_sample (sint (pcm ! (Suc f * 2 + 0))) (predicted pcm 0 f) = (lc, predicted pcm 0 (Suc f))"
      by (metis predicted.simps(2) prod.collapse)
    obtain rc where r: "encode_sample (sint (pcm ! (Suc f * 2 + 1))) (predicted pcm 1 f) = (rc, predicted pcm 1 (Suc f))"
      by (metis predicted.simps(2) prod.collapse)
    have upt: "[Suc f..<f + Suc n] = Suc f # [Suc (Suc f)..<Suc f + n]" using False by (simp add: upt_conv_Cons)
    note lr = encode_decode_sample [OF l] encode_decode_sample [OF r]
    have "encode_frames pcm (Suc f # [Suc (Suc f)..<Suc f + n]) (predicted pcm 0 f) (predicted pcm 1 f) =
        (lc OR push_bit 4 rc) # encode_frames pcm [Suc (Suc f)..<Suc f + n] (predicted pcm 0 (Suc f)) (predicted pcm 1 (Suc f))"
      using l r by (simp del: predicted.simps)
    then show ?thesis
      using Suc.IH [of "Suc f"] lr codes_apart [of lc rc] unfolding upt by (simp del: predicted.simps)
  qed simp
qed simp

lemma get_put_s16_be: "get_s16_be (put_s16_be v @ rest) = v"
  by (rule bit_word_eqI) (auto simp: get_s16_be_def put_s16_be_def bit_simps)

lemma length_put_s16_be [simp]: "length (put_s16_be v) = 2"
  by (simp add: put_s16_be_def)

lemma length_encode_frames [simp]: "length (encode_frames pcm fs l r) = length fs"
  by (induction pcm fs l r rule: encode_frames.induct) (auto split: prod.split)

lemma adpcm_decoded:
  assumes "adpcm_encode_stereo pcm n cap = Some enc" "2 * unat n \<le> sc"
  shows "adpcm_decode_stereo enc n sc = Some (concat (map (\<lambda>g.
    [word_of_int (fst (predicted pcm 0 g)), word_of_int (fst (predicted pcm 1 g))]) [0..<unat n]))"
proof -
  let ?frames = "encode_frames pcm [1..<unat n] (sint (pcm ! 0), 0) (sint (pcm ! 1), 0)"
  have n: "0 < unat n" and enc: "enc = put_s16_be (pcm ! 0) @ [0, 0] @ put_s16_be (pcm ! 1) @ [0, 0] @ ?frames"
    using assms(1)
    by (auto simp: adpcm_encode_stereo_def adpcm_stereo_encoded_size_def Let_def unat_gt_0 split: if_splits)
  have left: "get_s16_be enc = pcm ! 0" by (simp add: enc get_put_s16_be)
  have right: "get_s16_be (drop 4 enc) = pcm ! 1" by (simp add: enc get_put_s16_be)
  have marks: "enc ! 2 = 0" "enc ! 3 = 0" "enc ! 6 = 0" "enc ! 7 = 0" "drop ADPCM_HEADER enc = ?frames"
    by (simp_all add: enc put_s16_be_def ADPCM_HEADER_def)
  have size: "length enc = adpcm_stereo_encoded_size n" "adpcm_stereo_encoded_size n \<noteq> 0"
    using n by (auto simp: enc adpcm_stereo_encoded_size_def ADPCM_HEADER_def unat_gt_0)
  have "decode_frames ?frames (sint (pcm ! 0), 0) (sint (pcm ! 1), 0) = concat (map (\<lambda>g.
      [word_of_int (fst (predicted pcm 0 g)), word_of_int (fst (predicted pcm 1 g))]) [1..<unat n])"
    using decode_encoded_frames [of pcm 0 "unat n"] by simp
  moreover have "[0..<unat n] = 0 # [1..<unat n]" using n by (simp add: upt_conv_Cons)
  ultimately show ?thesis
    using assms(2) size by (simp add: adpcm_decode_stereo_def left right marks Let_def mult.commute)
qed

lemma step_positive: "sane s \<Longrightarrow> 0 < step_of s"
proof -
  assume "sane s"
  then have "nat (snd s) < length step_table" by (auto simp: sane_def step_table_def)
  moreover have "list_all (\<lambda>x. 0 < x) step_table" by (simp add: step_table_def)
  ultimately show ?thesis unfolding step_of_def list_all_length by blast
qed

text \<open>The four bits of a code stand for a magnitude below two steps to an eighth of a step.\<close>

lemma quantised:
  fixes m st :: int
  assumes "0 \<le> m" "m < 2 * st" "0 < st"
    and "m1 = (if st \<le> m then m - st else m)" "m2 = (if st div 2 \<le> m1 then m1 - st div 2 else m1)"
    and "v = st div 8 + (if st \<le> m then st else 0) + (if st div 2 \<le> m1 then st div 2 else 0) +
           (if st div 4 \<le> m2 then st div 4 else 0)"
  shows "- (st div 8) \<le> m - v \<and> m - v \<le> st div 8 + 2"
proof -
  define h where "h = st div 2"
  define q where "q = st div 4"
  define e where "e = st div 8"
  have half: "x \<le> 2 * (x div 2) + 1 \<and> 2 * (x div 2) \<le> x" for x :: int by presburger
  have "q = h div 2" "e = q div 2" by (simp_all add: h_def q_def e_def zdiv_zmult2_eq [of 2, symmetric])
  then have parts: "st \<le> 2 * h + 1" "2 * h \<le> st" "h \<le> 2 * q + 1" "2 * q \<le> h" "q \<le> 2 * e + 1" "2 * e \<le> q" "0 \<le> e"
    using half [of st] half [of h] half [of q] assms(3) by (simp_all add: h_def e_def)
  have m1: "0 \<le> m1" "m1 < st" using assms(1,2,4) by auto
  then have m2: "0 \<le> m2" "m2 \<le> st - h - 1"
    using assms(5) parts unfolding h_def [symmetric] by (auto split: if_splits)
  define a4 where "a4 = (if st \<le> m then st else 0)"
  define a2 where "a2 = (if h \<le> m1 then h else 0)"
  define a1 where "a1 = (if q \<le> m2 then q else 0)"
  have "m1 = m - a4" by (simp add: assms(4) a4_def)
  moreover have "m2 = m1 - a2" by (simp only: assms(5) a2_def h_def split: if_split) simp
  moreover have "v = e + a4 + a2 + a1" by (simp only: assms(6) a4_def a2_def a1_def h_def q_def e_def)
  ultimately have left: "m - v = m2 - a1 - e" by simp
  have "- e \<le> m - v \<and> m - v \<le> e + 2"
  proof (cases "q \<le> m2")
    case True
    then show ?thesis using left m2 parts by (simp add: a1_def)
  next
    case False
    then show ?thesis using left m2 parts by (simp add: a1_def)
  qed
  then show ?thesis by (simp add: e_def)
qed

lemma encode_error:
  assumes "sane s" "- 32768 \<le> sample" "sample \<le> 32767" "\<bar>sample - fst s\<bar> < 2 * step_of s"
  shows "\<bar>fst (snd (encode_sample sample s)) - sample\<bar> \<le> step_of s div 8 + 2"
proof -
  define st where "st = step_of s"
  define m where "m = (if sample - fst s < 0 then - (sample - fst s) else sample - fst s)"
  define m1 where "m1 = (if st \<le> m then m - st else m)"
  define m2 where "m2 = (if st div 2 \<le> m1 then m1 - st div 2 else m1)"
  define v where "v = st div 8 + (if st \<le> m then st else 0) + (if st div 2 \<le> m1 then st div 2 else 0) +
           (if st div 4 \<le> m2 then st div 4 else 0)"
  have "0 \<le> m" "m < 2 * st" using assms(4) by (auto simp: m_def st_def)
  then have e: "- (st div 8) \<le> m - v \<and> m - v \<le> st div 8 + 2"
    using step_positive [OF assms(1)] by (intro quantised) (simp_all add: st_def [symmetric] m1_def m2_def v_def)
  have "fst (snd (encode_sample sample s)) = clamp_sample (fst s + (if sample - fst s < 0 then - v else v))"
    unfolding encode_sample_def Let_def fst_conv snd_conv st_def [symmetric] m_def [symmetric]
      m1_def [symmetric] m2_def [symmetric] v_def [symmetric]
    by simp
  moreover have "\<bar>clamp_sample x - sample\<bar> \<le> \<bar>x - sample\<bar>" for x
    using assms(2,3) by (auto simp: clamp_sample_def)
  moreover have "\<bar>fst s + (if sample - fst s < 0 then - v else v) - sample\<bar> = \<bar>m - v\<bar>"
    by (auto simp: m_def)
  ultimately have "\<bar>fst (snd (encode_sample sample s)) - sample\<bar> \<le> \<bar>m - v\<bar>" by metis
  moreover have "0 \<le> st div 8" using step_positive [OF assms(1)] by (simp add: st_def)
  ultimately show ?thesis using e unfolding st_def [symmetric] by arith
qed

text \<open>C19: The decoder never drifts from the encoder: decoding an encoded block succeeds and gives for every
  frame and side exactly the value the encoder predicted for it, the first frame as it was; and a sample
  less than two steps away from the prediction before it is reproduced to an eighth of the step plus two.\<close>

theorem adpcm_in_step:
  assumes "adpcm_encode_stereo pcm n cap = Some enc" "2 * unat n \<le> sc" "f < unat n" "side < 2"
  shows "\<exists>out. adpcm_decode_stereo enc n sc = Some out \<and> length out = 2 * unat n \<and>
    sint (out ! (f * 2 + side)) = fst (predicted pcm side f) \<and>
    (f = 0 \<longrightarrow> out ! side = pcm ! side) \<and>
    (\<forall>g. f = Suc g \<longrightarrow>
       \<bar>sint (pcm ! (f * 2 + side)) - fst (predicted pcm side g)\<bar> < 2 * step_of (predicted pcm side g) \<longrightarrow>
       \<bar>sint (out ! (f * 2 + side)) - sint (pcm ! (f * 2 + side))\<bar> \<le> step_of (predicted pcm side g) div 8 + 2)"
proof -
  define out where "out = concat (map (\<lambda>g.
    [word_of_int (fst (predicted pcm 0 g)), word_of_int (fst (predicted pcm 1 g)) :: sample]) [0..<unat n])"
  have at: "out ! (f * 2 + side) = word_of_int (fst (predicted pcm side f))" and len: "length out = 2 * unat n"
  proof -
    have pairs: "length (concat (map (\<lambda>g. [x g, y g]) [0..<k])) = 2 * k \<and>
        (i < k \<longrightarrow> concat (map (\<lambda>g. [x g, y g]) [0..<k]) ! (i * 2) = x i \<and>
          concat (map (\<lambda>g. [x g, y g]) [0..<k]) ! (i * 2 + 1) = y i)" for x y :: "nat \<Rightarrow> sample" and k i
      by (induction k) (auto simp: nth_append less_Suc_eq)
    have "side = 0 \<or> side = 1" using assms(4) by auto
    then show "out ! (f * 2 + side) = word_of_int (fst (predicted pcm side f))" "length out = 2 * unat n"
      using pairs assms(3) unfolding out_def by fastforce+
  qed
  have val: "sint (out ! (f * 2 + side)) = fst (predicted pcm side f)"
    using sane_predicted [of pcm side f] at by (simp add: sint_value sane_def)
  have "out ! side = pcm ! side" if "f = 0" using at that by simp
  moreover have "\<bar>sint (out ! (f * 2 + side)) - sint (pcm ! (f * 2 + side))\<bar> \<le> step_of (predicted pcm side g) div 8 + 2"
    if "f = Suc g" "\<bar>sint (pcm ! (f * 2 + side)) - fst (predicted pcm side g)\<bar> < 2 * step_of (predicted pcm side g)" for g
    using encode_error [OF sane_predicted sint_sample that(2)] val that(1) by simp
  ultimately show ?thesis
    using adpcm_decoded [OF assms(1,2)] len val unfolding out_def [symmetric] by blast
qed

theorem adpcm_in_step_witness:
  "\<exists>out. adpcm_decode_stereo [0, 0, 0, 0, 0, 5, 0, 0, 0x43] 2 4 = Some out \<and> length out = 4 \<and> out ! 1 = 5"
proof -
  have "adpcm_encode_stereo [0, 5, 4, 12] 2 9 = Some [0, 0, 0, 0, 0, 5, 0, 0, 0x43]"
    by code_simp
  from adpcm_in_step [OF this, of 4 0 1] show ?thesis by auto
qed

section \<open>What the jitter buffer keeps\<close>

text \<open>A session of the buffer: packets that arrive and the player's calls, in any order.\<close>

datatype jitter_op = Arrive u32 bytes | Play u64 nat

type_synonym packet = "u32 \<times> bytes"

text \<open>The packets taken in and the results given out are kept in the order of the calls.\<close>

fun jitter_run :: "jitter_op list \<Rightarrow> jitter \<Rightarrow> jitter \<times> packet list \<times> jitter_result list" where
  "jitter_run [] j = (j, [], [])"
| "jitter_run (Arrive sequence payload # ops) j =
     (case jitter_push sequence payload j of
        (k, status) \<Rightarrow>
          (case jitter_run ops k of
             (l, taken, given) \<Rightarrow> (l, if status = 0 then (sequence, payload) # taken else taken, given)))"
| "jitter_run (Play now capacity # ops) j =
     (case jitter_pop now capacity j of
        (k, given) \<Rightarrow> (case jitter_run ops k of (l, taken, givens) \<Rightarrow> (l, taken, given # givens)))"

definition slot_packets :: "jitter_slot list \<Rightarrow> packet list" where
  "slot_packets slots = map (\<lambda>slot. (sl_sequence slot, sl_payload slot)) (filter sl_occupied slots)"

definition held_packets :: "jitter \<Rightarrow> packet multiset" where
  "held_packets j = mset (slot_packets (ji_slots j))"

fun result_packet :: "jitter_result \<Rightarrow> packet list" where
  "result_packet (JitterPacket sequence payload) = [(sequence, payload)]"
| "result_packet _ = []"

fun result_number :: "jitter_result \<Rightarrow> u32 list" where
  "result_number JitterWait = []"
| "result_number (JitterPacket sequence payload) = [sequence]"
| "result_number (JitterConceal sequence) = [sequence]"

definition jitter_ok :: "jitter \<Rightarrow> bool" where
  "jitter_ok j \<longleftrightarrow> length (ji_slots j) = JITTER_SLOTS \<and>
     ji_count j = length (slot_packets (ji_slots j)) \<and>
     distinct (map fst (slot_packets (ji_slots j)))"

lemma slot_packets_update:
  assumes "i < length slots"
  shows "\<exists>before after. slot_packets slots = before @ slot_packets [slots ! i] @ after \<and>
    slot_packets (slots[i := x]) = before @ slot_packets [x] @ after"
proof -
  have "slots = take i slots @ slots ! i # drop (Suc i) slots" using assms by (rule id_take_nth_drop)
  moreover have "slots[i := x] = take i slots @ x # drop (Suc i) slots"
    using assms by (rule upd_conv_take_nth_drop)
  ultimately have "slot_packets slots = slot_packets (take i slots) @ slot_packets [slots ! i] @ slot_packets (drop (Suc i) slots) \<and>
    slot_packets (slots[i := x]) = slot_packets (take i slots) @ slot_packets [x] @ slot_packets (drop (Suc i) slots)"
    unfolding slot_packets_def by (metis append.assoc append_Cons append_Nil filter_append map_append)
  then show ?thesis by blast
qed

lemma push_slot_Some:
  "push_slot sequence slots index free_slot = Some k \<Longrightarrow>
   sequence \<notin> fst ` set (slot_packets slots) \<and>
   (free_slot = Some k \<or> index \<le> k \<and> k < index + length slots \<and> \<not> sl_occupied (slots ! (k - index)))"
  by (induction sequence slots index free_slot rule: push_slot.induct)
    (force simp: slot_packets_def nth_Cons' split: if_splits)+

lemma find_sequence_Some:
  "find_sequence sequence slots index = Some k \<Longrightarrow>
   index \<le> k \<and> k < index + length slots \<and> sl_occupied (slots ! (k - index)) \<and>
   sl_sequence (slots ! (k - index)) = sequence"
  by (induction sequence slots index rule: find_sequence.induct) (force simp: nth_Cons' split: if_splits)+

lemma jitter_push_ok:
  assumes "jitter_push sequence payload j = (k, status)" "jitter_ok j"
  shows "jitter_ok k \<and> ji_started k = ji_started j \<and> ji_expected k = ji_expected j \<and>
    held_packets k = held_packets j + (if status = 0 then {#(sequence, payload)#} else {#})"
proof (cases "status = 0")
  case True
  then obtain i where i: "push_slot sequence (ji_slots j) 0 None = Some i"
    and k: "k = j\<lparr>ji_slots := (ji_slots j)[i := \<lparr>sl_sequence = sequence, sl_occupied = True, sl_payload = payload\<rparr>],
      ji_count := ji_count j + 1\<rparr>"
    using assms(1) by (auto simp: jitter_push_def split: if_splits option.splits)
  note found = push_slot_Some [OF i]
  then obtain before after where "slot_packets (ji_slots j) = before @ after"
    "slot_packets (ji_slots k) = before @ (sequence, payload) # after"
    using slot_packets_update [of i "ji_slots j" "\<lparr>sl_sequence = sequence, sl_occupied = True, sl_payload = payload\<rparr>"]
    by (auto simp: k slot_packets_def)
  then show ?thesis
    using found assms(2) True by (auto simp: jitter_ok_def held_packets_def k image_Un)
next
  case False
  then have "k = j" using assms(1) by (auto simp: jitter_push_def split: if_splits option.splits)
  then show ?thesis using False assms(2) by simp
qed

lemma jitter_take_ok:
  assumes "jitter_take now capacity j = (k, given)" "jitter_ok j"
  shows "jitter_ok k \<and> ji_started k = ji_started j \<and>
    held_packets j = held_packets k + mset (result_packet given) \<and>
    ji_expected k = ji_expected j + of_nat (length (result_number given)) \<and>
    result_number given \<in> {[], [ji_expected j]}"
proof (cases "find_sequence (ji_expected j) (ji_slots j) 0")
  case None
  then show ?thesis using assms
    by (auto simp: jitter_take_def jitter_ok_def held_packets_def split: if_splits)
next
  case (Some i)
  let ?slot = "ji_slots j ! i"
  note found = find_sequence_Some [OF Some]
  show ?thesis
  proof (cases "capacity < length (sl_payload ?slot)")
    case True
    then show ?thesis using assms Some by (auto simp: jitter_take_def)
  next
    case False
    then have k: "k = j\<lparr>ji_slots := (ji_slots j)[i := ?slot\<lparr>sl_occupied := False\<rparr>], ji_count := ji_count j - 1,
        ji_expected := ji_expected j + 1, ji_gap_started := 0\<rparr>"
      and given: "given = JitterPacket (sl_sequence ?slot) (sl_payload ?slot)"
      using assms(1) Some by (auto simp: jitter_take_def Let_def)
    obtain before after where "slot_packets (ji_slots j) = before @ (ji_expected j, sl_payload ?slot) # after"
      "slot_packets (ji_slots k) = before @ after"
      using found slot_packets_update [of i "ji_slots j" "?slot\<lparr>sl_occupied := False\<rparr>"]
      by (auto simp: k slot_packets_def)
    then show ?thesis using assms(2) found by (auto simp: jitter_ok_def held_packets_def k given)
  qed
qed

lemma jitter_start_ok:
  "jitter_start j = Some k \<Longrightarrow> jitter_ok j \<Longrightarrow>
   jitter_ok k \<and> ji_started k \<and> held_packets k = held_packets j \<and> (ji_started j \<longrightarrow> k = j)"
  by (auto simp: jitter_start_def jitter_ok_def held_packets_def split: if_splits)

text \<open>The numbers given out from \<open>first\<close> on, one after the other.\<close>

abbreviation count_from :: "u32 \<Rightarrow> nat \<Rightarrow> u32 list" where
  "count_from first n \<equiv> map (\<lambda>i. first + of_nat i) [0..<n]"

lemma count_from_Suc: "count_from first (Suc n) = first # count_from (first + 1) n"
  by (simp add: map_upt_Suc add.commute add.left_commute del: upt_Suc)

definition numbers_given :: "jitter_result list \<Rightarrow> u32 list" where
  "numbers_given given = concat (map result_number given)"

definition packets_given :: "jitter_result list \<Rightarrow> packet list" where
  "packets_given given = concat (map result_packet given)"

text \<open>Between two calls of a session that goes on from \<open>j\<close>: what is taken in is held or given out, and
  once started the numbers go on from the expected one.\<close>

lemma jitter_run_ok:
  "jitter_run ops j = (k, taken, given) \<Longrightarrow> jitter_ok j \<Longrightarrow>
   jitter_ok k \<and> held_packets j + mset taken = held_packets k + mset (packets_given given) \<and>
   (\<exists>first. numbers_given given = count_from first (length (numbers_given given)) \<and>
      (ji_started j \<longrightarrow> first = ji_expected j))"
proof (induction ops j arbitrary: k taken given rule: jitter_run.induct)
  case (1 j)
  then show ?case by (simp add: numbers_given_def packets_given_def)
next
  case (2 sequence payload ops j)
  obtain l status where l: "jitter_push sequence payload j = (l, status)" by force
  obtain m taken' given' where m: "jitter_run ops l = (m, taken', given')" by (cases "jitter_run ops l")
  have split: "k = m" "given = given'" "taken = (if status = 0 then (sequence, payload) # taken' else taken')"
    using "2.prems"(1) l m by auto
  note ok = jitter_push_ok [OF l "2.prems"(2)]
  show ?case using "2.IH" [OF l [symmetric] m] ok split by (auto simp: ac_simps)
next
  case (3 now capacity ops j)
  obtain l r where l: "jitter_pop now capacity j = (l, r)" by force
  obtain m taken' given' where m: "jitter_run ops l = (m, taken', given')" by (cases "jitter_run ops l")
  have split: "k = m" "given = r # given'" "taken = taken'" using "3.prems"(1) l m by auto
  show ?case
  proof (cases "jitter_start j")
    case None
    then have "l = j" "r = JitterWait" using l by (auto simp: jitter_pop_def)
    then show ?thesis using "3.IH" [OF l [symmetric] m] "3.prems"(2) split
      by (simp add: numbers_given_def packets_given_def)
  next
    case (Some j')
    note start = jitter_start_ok [OF Some "3.prems"(2)]
    have "jitter_take now capacity j' = (l, r)" using l Some by (simp add: jitter_pop_def)
    note take = jitter_take_ok [OF this] 
    have ok: "jitter_ok l" "ji_started l" using take start by auto
    obtain first where first: "numbers_given given' = count_from first (length (numbers_given given'))"
      "first = ji_expected l"
      using "3.IH" [OF l [symmetric] m ok(1)] ok(2) by blast
    have "numbers_given given = count_from (ji_expected j') (length (numbers_given given))"
    proof (cases "result_number r")
      case Nil
      then show ?thesis using first take start split by (simp add: numbers_given_def)
    next
      case (Cons n ns)
      then have "result_number r = [ji_expected j']" "first = ji_expected j' + 1"
        using take start first by auto
      then show ?thesis using first(1) split count_from_Suc by (simp add: numbers_given_def del: upt_Suc)
    qed
    then show ?thesis using "3.IH" [OF l [symmetric] m ok(1)] take start split
      by (auto simp: packets_given_def ac_simps)
  qed
qed

text \<open>C20: Whatever arrives and whenever the player asks: the packets taken in are, each once, those given out
  and those still held; the numbers given out, lost ones included, follow one another without a gap; at
  most sixteen packets are held, counted right, no two of one number.\<close>

theorem jitter_in_order:
  "case jitter_run ops (jitter_init target deadline) of (j, taken, given) \<Rightarrow>
     mset taken = held_packets j + mset (packets_given given) \<and>
     (\<exists>first. numbers_given given = count_from first (length (numbers_given given))) \<and>
     ji_count j = size (held_packets j) \<and> size (held_packets j) \<le> 16 \<and>
     (\<forall>number. size (filter_mset (\<lambda>p. fst p = number) (held_packets j)) \<le> 1)"
proof (cases "jitter_run ops (jitter_init target deadline)")
  case (fields j taken given)
  have "jitter_ok (jitter_init target deadline)" "held_packets (jitter_init target deadline) = {#}"
    by (simp_all add: jitter_ok_def jitter_init_def slot_packets_def held_packets_def)
  note run = jitter_run_ok [OF fields this(1), unfolded this(2)]
  have "length (filter (\<lambda>p. fst p = number) xs) \<le> 1" if "distinct (map fst xs)" for number and xs :: "packet list"
    using that by (induction xs) (auto simp: filter_empty_conv intro: rev_image_eqI)
  moreover have "length (slot_packets (ji_slots j)) \<le> 16"
    using run length_filter_le [of sl_occupied "ji_slots j"]
    by (simp add: jitter_ok_def slot_packets_def JITTER_SLOTS_def)
  ultimately show ?thesis using run
    unfolding fields by (auto simp: jitter_ok_def held_packets_def simp flip: mset_filter)
qed

end
