(* ===== verification/PayloadCodec.thy ===== *)
theory PayloadCodec
  imports CText
begin

text \<open>
  The client's JSON and base64 helpers (\<open>c_client/http_payload_codec.c\<close>): escaping a text for a
  request, finding a field of an answer by its key, the end of a nested value, and base64 both
  ways. Texts are C strings, so they hold no zero octet; what a call leaves in its output is
  part of its result. The depth of \<open>json_matching_end\<close>, an \<open>unsigned\<close>, is a \<open>nat\<close>: it
  cannot exceed the length of the text.

  The lemmas show what the key search finds in an object, that the end of a nested value is
  found, and that base64 is read back.
\<close>

unbundle bit_operations_syntax

abbreviation "DQUOTE \<equiv> CHR 0x22"
abbreviation "BACKSLASH \<equiv> CHR 0x5C"

section \<open>Escaping\<close>

fun json_escape_loop :: "string \<Rightarrow> nat \<Rightarrow> nat \<Rightarrow> string" where
  "json_escape_loop [] used dest_size = []"
| "json_escape_loop (c # src) used dest_size =
     (if \<not> used + 1 < dest_size then []
      else if (c = DQUOTE \<or> c = BACKSLASH) \<and> used + 2 < dest_size
      then BACKSLASH # c # json_escape_loop src (used + 2) dest_size
      else if CHR 0x20 \<le> c then c # json_escape_loop src (used + 1) dest_size
      else json_escape_loop src used dest_size)"

definition json_escape :: "string \<Rightarrow> nat \<Rightarrow> string" where
  "json_escape src dest_size = json_escape_loop src 0 dest_size"

section \<open>Fields by key\<close>

text \<open>\<open>strstr\<close> and \<open>strchr\<close> give the rest of the text from the place found.\<close>

fun find_text :: "string \<Rightarrow> string \<Rightarrow> string option" where
  "find_text pattern [] = (if pattern = [] then Some [] else None)"
| "find_text pattern (c # cs) =
     (if take (length pattern) (c # cs) = pattern then Some (c # cs) else find_text pattern cs)"

definition find_char :: "char \<Rightarrow> string \<Rightarrow> string option" where
  "find_char c s = (if c \<in> set s then Some (dropWhile (\<lambda>d. d \<noteq> c) s) else None)"

definition key_pattern :: "string \<Rightarrow> string" where
  "key_pattern key = copy_text 96 (DQUOTE # key @ [DQUOTE])"

definition skip_json_spaces :: "string \<Rightarrow> string" where
  "skip_json_spaces p = dropWhile c_isspace p"

definition value_after :: "string \<Rightarrow> string \<Rightarrow> string option" where
  "value_after key json =
     (case find_text (key_pattern key) json of
        None \<Rightarrow> None
      | Some p \<Rightarrow>
          (case find_char (CHR '':'') (drop (length (key_pattern key)) p) of
             None \<Rightarrow> None
           | Some q \<Rightarrow> Some (skip_json_spaces (tl q))))"

text \<open>The text of a string value from behind its quote; \<open>room\<close> is what still fits.\<close>

fun string_value :: "nat \<Rightarrow> string \<Rightarrow> string" where
  "string_value 0 p = []"
| "string_value (Suc room) [] = []"
| "string_value (Suc room) (c # p) =
     (if c = DQUOTE then []
      else if c = BACKSLASH \<and> p \<noteq> [] then hd p # string_value room (tl p)
      else c # string_value room p)"

lemma find_text_length: "find_text pattern s = Some p \<Longrightarrow> length p \<le> length s"
  by (induction pattern s rule: find_text.induct) (auto split: if_splits)

lemma find_char_Some: "find_char c s = Some q \<Longrightarrow> \<exists>r. q = c # r \<and> length q \<le> length s"
  by (induction s) (auto simp: find_char_def split: if_splits)

lemma value_after_shorter: "value_after key json = Some p \<Longrightarrow> length p < length json"
proof -
  assume "value_after key json = Some p"
  then obtain f q where f: "find_text (key_pattern key) json = Some f"
    and q: "find_char (CHR '':'') (drop (length (key_pattern key)) f) = Some q"
    and p: "p = dropWhile c_isspace (tl q)"
    by (auto simp: value_after_def skip_json_spaces_def split: option.splits)
  then show ?thesis
    using find_text_length [OF f] find_char_Some [OF q] length_dropWhile_le [of c_isspace "tl q"] by auto
qed

text \<open>The result is what was written to the output, if anything was, and the returned status.\<close>

function extract_json_string_value :: "string \<Rightarrow> string \<Rightarrow> nat \<Rightarrow> bool \<Rightarrow> string option \<times> int" where
  "extract_json_string_value json key out_size allow_empty =
     (case value_after key json of
        None \<Rightarrow> (None, - 1)
      | Some p \<Rightarrow>
          if p \<noteq> [] \<and> hd p = DQUOTE then
            (let v = string_value (out_size - 1) (tl p)
             in (Some v, if v \<noteq> [] \<or> allow_empty then 0 else - 1))
          else extract_json_string_value p key out_size allow_empty)"
  by pat_completeness auto
termination
  by (relation "measure (length \<circ> fst)") (auto dest: value_after_shorter)

declare extract_json_string_value.simps [simp del]

definition extract_json_string :: "string \<Rightarrow> string \<Rightarrow> nat \<Rightarrow> string option \<times> int" where
  "extract_json_string json key out_size = extract_json_string_value json key out_size False"

definition extract_json_bool :: "string \<Rightarrow> string \<Rightarrow> int option" where
  "extract_json_bool json key =
     (case value_after key json of
        None \<Rightarrow> None
      | Some p \<Rightarrow> if take 4 p = ''true'' then Some 1 else if take 5 p = ''false'' then Some 0 else None)"

text \<open>
  \<open>sscanf\<close> with \<open>%lld\<close> and \<open>%d\<close> converts as \<open>strtoll\<close> does; the \<open>int\<close> gets its low bits (outside
  the range of the type C leaves the value open).
\<close>

definition extract_json_int64 :: "string \<Rightarrow> string \<Rightarrow> int option" where
  "extract_json_int64 json key =
     (case value_after key json of
        None \<Rightarrow> None
      | Some p \<Rightarrow> if scan_number p = None then None else Some (fst (c_strtol p)))"

definition extract_json_int :: "string \<Rightarrow> string \<Rightarrow> int option" where
  "extract_json_int json key =
     (case value_after key json of
        None \<Rightarrow> None
      | Some p \<Rightarrow> if scan_number p = None then None else Some (signed_take_bit 31 (fst (c_strtol p))))"

text \<open>A string token: what follows it and its text, cut to the output.\<close>

fun token_text :: "nat \<Rightarrow> string \<Rightarrow> (string \<times> string) option" where
  "token_text room [] = None"
| "token_text room (c # p) =
     (if c = DQUOTE then Some (p, [])
      else if c = BACKSLASH \<and> p \<noteq> []
      then map_option (\<lambda>(rest, out). (rest, if 0 < room then hd p # out else out)) (token_text (room - 1) (tl p))
      else map_option (\<lambda>(rest, out). (rest, if 0 < room then c # out else out)) (token_text (room - 1) p))"

definition copy_json_string_token :: "string \<Rightarrow> nat \<Rightarrow> (string \<times> string) option" where
  "copy_json_string_token p out_size =
     (case skip_json_spaces p of
        [] \<Rightarrow> None
      | c # q \<Rightarrow> if c \<noteq> DQUOTE then None else token_text (out_size - 1) q)"

section \<open>The end of a nested value\<close>

fun matching_loop :: "char \<Rightarrow> char \<Rightarrow> nat \<Rightarrow> bool \<Rightarrow> bool \<Rightarrow> string \<Rightarrow> string option" where
  "matching_loop opening closing depth in_string escaped [] = None"
| "matching_loop opening closing depth in_string escaped (c # p) =
     (if in_string then
        (if escaped then matching_loop opening closing depth in_string False p
         else if c = BACKSLASH then matching_loop opening closing depth in_string True p
         else if c = DQUOTE then matching_loop opening closing depth False escaped p
         else matching_loop opening closing depth in_string escaped p)
      else if c = DQUOTE then matching_loop opening closing depth True escaped p
      else if c = opening then matching_loop opening closing (depth + 1) in_string escaped p
      else if c = closing \<and> 0 < depth then
        (if depth - 1 = 0 then Some (c # p)
         else matching_loop opening closing (depth - 1) in_string escaped p)
      else matching_loop opening closing depth in_string escaped p)"

definition json_matching_end :: "string \<Rightarrow> char \<Rightarrow> char \<Rightarrow> string option" where
  "json_matching_end start opening closing =
     (if start = [] \<or> hd start \<noteq> opening then None
      else matching_loop opening closing 0 False False start)"

section \<open>Base64\<close>

definition base64_alphabet :: string where
  "base64_alphabet = ''ABCDEFGHIJKLMNOPQRSTUVWXYZabcdefghijklmnopqrstuvwxyz0123456789+/''"

definition base64_char :: "u32 \<Rightarrow> nat \<Rightarrow> char" where
  "base64_char triple n = base64_alphabet ! unat (drop_bit n triple AND 0x3F)"

fun base64_encode_loop :: "bytes \<Rightarrow> nat \<Rightarrow> nat \<Rightarrow> string" where
  "base64_encode_loop [] used out_size = []"
| "base64_encode_loop (octet_a # data) used out_size =
     (if used + 4 < out_size then
        (let octet_b = (if 0 < length data then data ! 0 else 0);
             octet_c = (if 1 < length data then data ! 1 else 0);
             triple = push_bit 16 (ucast octet_a) OR push_bit 8 (ucast octet_b) OR ucast octet_c
         in [base64_char triple 18, base64_char triple 12,
             if 0 < length data then base64_char triple 6 else CHR ''='',
             if 1 < length data then base64_char triple 0 else CHR ''=''] @
            base64_encode_loop (drop 2 data) (used + 4) out_size)
      else [])"

definition base64_encode :: "bytes \<Rightarrow> nat \<Rightarrow> string" where
  "base64_encode data out_size = base64_encode_loop data 0 out_size"

definition base64_value :: "char \<Rightarrow> int" where
  "base64_value ch =
     (if c_isupper ch then of_char ch - 65
      else if c_islower ch then of_char ch - 97 + 26
      else if c_isdigit ch then of_char ch - 48 + 52
      else if ch = CHR ''+'' then 62
      else if ch = CHR ''/'' then 63
      else if ch = CHR ''='' then - 2
      else - 1)"

text \<open>The next values, white space between them skipped.\<close>

fun read_values :: "nat \<Rightarrow> string \<Rightarrow> (int list \<times> string) option" where
  "read_values 0 encoded = Some ([], encoded)"
| "read_values (Suc n) encoded =
     (case dropWhile c_isspace encoded of
        [] \<Rightarrow> None
      | ch # rest \<Rightarrow>
          if base64_value ch = - 1 then None
          else map_option (\<lambda>(values, rest). (base64_value ch # values, rest)) (read_values n rest))"

definition group_triple :: "int list \<Rightarrow> u32" where
  "group_triple values =
     push_bit 18 (word_of_int (values ! 0)) OR push_bit 12 (word_of_int (values ! 1)) OR
     (if 0 \<le> values ! 2 then push_bit 6 (word_of_int (values ! 2)) else 0) OR
     (if 0 \<le> values ! 3 then word_of_int (values ! 3) else 0)"

definition group_octets :: "int list \<Rightarrow> bytes" where
  "group_octets values =
     (let triple = group_triple values
      in [ucast (drop_bit 16 triple)] @ (if values ! 2 \<noteq> - 2 then [ucast (drop_bit 8 triple)] else []) @
         (if values ! 3 \<noteq> - 2 then [ucast triple] else []))"

lemma read_values_shorter: "read_values n s = Some (vs, rest) \<Longrightarrow> length rest + n \<le> length s \<and> length vs = n"
proof (induction n arbitrary: s vs)
  case (Suc n)
  then obtain ch r vs' where "dropWhile c_isspace s = ch # r" "read_values n r = Some (vs', rest)" "vs = base64_value ch # vs'"
    by (auto split: list.splits if_splits)
  then show ?case using Suc.IH [of r vs'] length_dropWhile_le [of c_isspace s] by auto
qed simp

text \<open>What is written to the output and whether all of it was; it is written octet by octet.\<close>

function base64_decode_loop :: "string \<Rightarrow> nat \<Rightarrow> nat \<Rightarrow> bytes \<times> bool" where
  "base64_decode_loop encoded used out_capacity =
     (if encoded = [] then ([], True)
      else case read_values 4 encoded of
             None \<Rightarrow> ([], False)
           | Some (values, rest) \<Rightarrow>
               if values ! 0 < 0 \<or> values ! 1 < 0 then ([], False)
               else (let octets = group_octets values
                     in if out_capacity < used + length octets then (take (out_capacity - used) octets, False)
                        else (case base64_decode_loop rest (used + length octets) out_capacity of
                                (out, ok) \<Rightarrow> (octets @ out, ok))))"
  by pat_completeness auto
termination
  by (relation "measure (length \<circ> fst)") (auto dest: read_values_shorter)

declare base64_decode_loop.simps [simp del]

definition base64_decode :: "string \<Rightarrow> nat \<Rightarrow> bytes \<times> bool" where
  "base64_decode encoded out_capacity = base64_decode_loop encoded 0 out_capacity"

section \<open>Base64 is read back\<close>

lemma base64_value_alphabet: "k < 64 \<Longrightarrow> base64_value (base64_alphabet ! k) = int k \<and> \<not> c_isspace (base64_alphabet ! k)"
proof -
  have "list_all (\<lambda>k. base64_value (base64_alphabet ! k) = int k \<and> \<not> c_isspace (base64_alphabet ! k)) [0..<64]"
    by code_simp
  then show "k < 64 \<Longrightarrow> ?thesis" by (simp add: list_all_iff)
qed

definition sextet :: "u32 \<Rightarrow> nat \<Rightarrow> int" where
  "sextet triple n = uint (drop_bit n triple AND 0x3F)"

lemma sextet_take: "drop_bit n (w :: u32) AND 0x3F = take_bit 6 (drop_bit n w)"
  by (simp add: take_bit_eq_mask mask_eq_exp_minus_1)

lemma base64_char_value [simp]:
  "base64_value (base64_char triple n) = sextet triple n" "\<not> c_isspace (base64_char triple n)"
proof -
  have "unat (drop_bit n triple AND 0x3F) < 64"
    using take_bit_nat_less_exp [of 6 "unat (drop_bit n triple)"] by (simp add: sextet_take unsigned_take_bit_eq)
  from base64_value_alphabet [OF this]
  show "base64_value (base64_char triple n) = sextet triple n" "\<not> c_isspace (base64_char triple n)"
    unfolding base64_char_def sextet_def by simp_all
qed

lemma sextet_range [simp]: "0 \<le> sextet triple n" "sextet triple n \<noteq> - 1" "sextet triple n \<noteq> - 2" "\<not> sextet triple n < 0"
  unfolding sextet_def by (simp_all add: not_less) (smt (verit) uint_ge_0)+

lemma base64_value_pad [simp]: "base64_value (CHR ''='') = - 2" "\<not> c_isspace (CHR ''='')"
  by code_simp+

lemma word_sextet [simp]: "word_of_int (sextet triple n) = take_bit 6 (drop_bit n triple)"
  by (simp add: sextet_def sextet_take)

definition octets3 :: "u8 \<Rightarrow> u8 \<Rightarrow> u8 \<Rightarrow> u32" where
  "octets3 a b c = push_bit 16 (ucast a) OR push_bit 8 (ucast b) OR ucast c"

lemma sextets_join: 
  "push_bit 18 (take_bit 6 (drop_bit 18 t)) OR push_bit 12 (take_bit 6 (drop_bit 12 t)) OR
   push_bit 6 (take_bit 6 (drop_bit 6 t)) OR take_bit 6 t = take_bit 24 (t :: u32)"
proof (rule bit_word_eqI)
  fix i assume "i < LENGTH(32)"
  consider "i < 6" | "6 \<le> i \<and> i < 12" | "12 \<le> i \<and> i < 18" | "18 \<le> i \<and> i < 24" | "24 \<le> i" by linarith
  then show "bit (push_bit 18 (take_bit 6 (drop_bit 18 t)) OR push_bit 12 (take_bit 6 (drop_bit 12 t)) OR
      push_bit 6 (take_bit 6 (drop_bit 6 t)) OR take_bit 6 t) i \<longleftrightarrow> bit (take_bit 24 t) i"
    using \<open>i < LENGTH(32)\<close> by cases (auto simp: bit_simps)
qed

lemma octets3_take [simp]: "take_bit 24 (octets3 a b c) = octets3 a b c"
  unfolding octets3_def by (rule bit_word_eqI) (auto simp: bit_simps dest: bit_imp_le_length)

lemma octets3_parts [simp]:
  "ucast (drop_bit 16 (octets3 a b c)) = a" "ucast (drop_bit 8 (octets3 a b c)) = b" "ucast (octets3 a b c) = c"
  unfolding octets3_def by (rule bit_word_eqI, auto simp: bit_simps dest: bit_imp_le_length)+

lemma octets3_low:
  "take_bit 6 (octets3 a b 0) = 0" "take_bit 6 (drop_bit 6 (octets3 a 0 0)) = 0"
  unfolding octets3_def by (rule bit_word_eqI, auto simp: bit_simps dest: bit_imp_le_length)+

lemma group_back:
  "group_octets [sextet t 18, sextet t 12, sextet t 6, sextet t 0] = [ucast (drop_bit 16 (take_bit 24 t)), ucast (drop_bit 8 (take_bit 24 t)), ucast (take_bit 24 t)]"
  using sextets_join [of t] by (simp add: group_octets_def group_triple_def Let_def ac_simps)

lemma group_back_padded:
  "group_octets [sextet (octets3 a b 0) 18, sextet (octets3 a b 0) 12, sextet (octets3 a b 0) 6, - 2] = [a, b]"
  "group_octets [sextet (octets3 a 0 0) 18, sextet (octets3 a 0 0) 12, - 2, - 2] = [a]"
  using sextets_join [of "octets3 a b 0"] sextets_join [of "octets3 a 0 0"] octets3_low
  by (simp_all add: group_octets_def group_triple_def Let_def ac_simps)

lemma encode_group:
  assumes "used + 4 < n"
  shows "base64_encode_loop [a] used n =
      [base64_char (octets3 a 0 0) 18, base64_char (octets3 a 0 0) 12, CHR ''='', CHR ''='']"
    and "base64_encode_loop [a, b] used n =
      [base64_char (octets3 a b 0) 18, base64_char (octets3 a b 0) 12, base64_char (octets3 a b 0) 6, CHR ''='']"
    and "base64_encode_loop (a # b # c # data) used n =
      [base64_char (octets3 a b c) 18, base64_char (octets3 a b c) 12, base64_char (octets3 a b c) 6,
       base64_char (octets3 a b c) 0] @ base64_encode_loop data (used + 4) n"
  using assms by (simp_all add: octets3_def Let_def)

declare base64_encode_loop.simps [simp del]

text \<open>One group of four characters.\<close>

lemma decode_group:
  assumes "\<forall>c \<in> set cs. \<not> c_isspace c \<and> base64_value c \<noteq> - 1" "length cs = 4"
    and "group_octets (map base64_value cs) = octets" "\<not> base64_value (cs ! 0) < 0" "\<not> base64_value (cs ! 1) < 0"
    and "used \<le> cap"
  shows "base64_decode_loop (cs @ rest) used cap =
    (take (cap - used) octets @ (if used + length octets \<le> cap then fst (base64_decode_loop rest (used + length octets) cap) else []),
     used + length octets \<le> cap \<and> snd (base64_decode_loop rest (used + length octets) cap))"
proof -
  have "read_values (length cs) (cs @ rest) = Some (map base64_value cs, rest)"
    using assms(1) by (induction cs) auto
  moreover have "cs \<noteq> []" using assms(2) by auto
  ultimately show ?thesis using assms(2-6)
    by (subst base64_decode_loop.simps) (simp add: Let_def not_le split: prod.split)
qed

lemma decode_nothing [simp]: "base64_decode_loop [] used cap = ([], True)"
  by (simp add: base64_decode_loop.simps)

lemma base64_loop_back:
  "used' \<le> cap \<Longrightarrow>
   base64_decode_loop (base64_encode_loop data used n) used' cap =
     (let kept = take (3 * ((n - 1 - used) div 4)) data
      in (take (cap - used') kept, used' + length kept \<le> cap))"
proof (induction data used n arbitrary: used' rule: base64_encode_loop.induct)
  case (1 used out_size)
  then show ?case by (simp add: base64_encode_loop.simps)
next
  case (2 a data used n)
  show ?case
  proof (cases "used + 4 < n")
    case False
    then have "(n - 1 - used) div 4 = 0" by simp
    then show ?thesis using False 2 by (simp add: base64_encode_loop.simps)
  next
    case True
    then have g: "(n - Suc used) div 4 = Suc ((n - Suc (used + 4)) div 4)" by linarith
    show ?thesis
    proof (cases data rule: remdups_adj.cases)
      case 1
      then show ?thesis using g "2.prems"
        decode_group [where rest = "[]" and used = used' and cap = cap and octets = "[a]" and
          cs = "[base64_char (octets3 a 0 0) 18, base64_char (octets3 a 0 0) 12, CHR ''='', CHR ''='']"]
        by (simp add: encode_group [OF True] group_back_padded)
    next
      case (2 b)
      then show ?thesis using g "2.prems"
        decode_group [where rest = "[]" and used = used' and cap = cap and octets = "[a, b]" and
          cs = "[base64_char (octets3 a b 0) 18, base64_char (octets3 a b 0) 12, base64_char (octets3 a b 0) 6, CHR ''='']"]
        by (simp add: encode_group [OF True] group_back_padded)
    next
      case (3 b c rest)
      let ?t = "octets3 a b c"
      have "base64_decode_loop (base64_encode_loop (a # data) used n) used' cap =
        (take (cap - used') [a, b, c] @ (if used' + 3 \<le> cap then fst (base64_decode_loop (base64_encode_loop rest (used + 4) n) (used' + 3) cap) else []),
         used' + 3 \<le> cap \<and> snd (base64_decode_loop (base64_encode_loop rest (used + 4) n) (used' + 3) cap))"
        using decode_group [where rest = "base64_encode_loop rest (used + 4) n" and used = used' and cap = cap and
            octets = "[a, b, c]" and cs = "[base64_char ?t 18, base64_char ?t 12, base64_char ?t 6, base64_char ?t 0]"]
          group_back [of ?t] "2.prems" 3
        by (simp add: encode_group [OF True] numeral_3_eq_3)
      moreover have "used' + 3 \<le> cap \<Longrightarrow> base64_decode_loop (base64_encode_loop rest (used + 4) n) (used' + 3) cap =
        (let kept = take (3 * ((n - 1 - (used + 4)) div 4)) rest
         in (take (cap - (used' + 3)) kept, used' + 3 + length kept \<le> cap))"
        using "2.IH" True 3 by simp
      moreover obtain K where K: "K = take (3 * ((n - 1 - (used + 4)) div 4)) rest" by blast
      then have "take (3 * ((n - 1 - used) div 4)) (a # data) = [a, b, c] @ K"
        using g 3 take_append [of "3 + k" "[a, b, c]" rest for k] by simp
      moreover have "take (cap - used') ([a, b, c] @ K) =
        take (cap - used') [a, b, c] @ (if used' + 3 \<le> cap then take (cap - (used' + 3)) K else [])"
        by (subst take_append) (simp add: diff_diff_left numeral_3_eq_3)
      ultimately show ?thesis unfolding Let_def K [symmetric] by (auto simp del: append_Cons take_append)
    qed
  qed
qed

text \<open>C34: Base64 is read back: decoding the encoding of any data gives the data again, cut to the groups for
  which the encoder had room and to the capacity of the output, and succeeds exactly if that capacity suffices.\<close>

theorem base64_roundtrip:
  "base64_decode (base64_encode data out_size) cap =
     (let kept = take (3 * ((out_size - 1) div 4)) data in (take cap kept, length kept \<le> cap))"
  using base64_loop_back [of 0 cap data 0 out_size] by (simp add: base64_decode_def base64_encode_def)

text \<open>What no encoder writes is read as well: padding inside a group, and text after padding.\<close>

lemma base64_lenient: "base64_decode ''QQ=BQQ==QQ=='' 9 = ([65, 1, 65, 65], True)"
  by code_simp

section \<open>What the key search finds\<close>

text \<open>A flat object: values are texts, or anything written without quotes (numbers, true, null).\<close>

datatype field_value = TextValue string | PlainValue string

definition json_text :: "string \<Rightarrow> string" where
  "json_text s = concat (map (\<lambda>c. if c = DQUOTE \<or> c = BACKSLASH then [BACKSLASH, c] else [c]) s)"

fun value_text :: "field_value \<Rightarrow> string" where
  "value_text (TextValue s) = DQUOTE # json_text s @ [DQUOTE]"
| "value_text (PlainValue s) = s"

definition field_text :: "string \<times> field_value \<Rightarrow> string" where
  "field_text f = DQUOTE # fst f @ [DQUOTE, CHR '':''] @ value_text (snd f)"

fun fields_tail :: "(string \<times> field_value) list \<Rightarrow> string" where
  "fields_tail [] = ''}''"
| "fields_tail (f # fs) = CHR '','' # field_text f @ fields_tail fs"

definition object_text :: "(string \<times> field_value) list \<Rightarrow> string" where
  "object_text fs = CHR 0x7B # (if fs = [] then ''}'' else tl (fields_tail fs))"

definition bare_key :: "string \<Rightarrow> bool" where
  "bare_key key \<longleftrightarrow> key \<noteq> [] \<and> list_all (\<lambda>c. c_isalnum c \<or> c = CHR ''_'') key"

text \<open>A text value that ends the way the key does, its quote included, passes for the key.\<close>

definition mistaken :: "string \<Rightarrow> string \<Rightarrow> bool" where
  "mistaken key v \<longleftrightarrow> v = key \<or> (\<exists>u. v = u @ DQUOTE # key)"

text \<open>What the search finds: behind a value that passes for the key, the value of the field after it.\<close>

fun found_value :: "string \<Rightarrow> (string \<times> field_value) list \<Rightarrow> string option" where
  "found_value key [] = None"
| "found_value key ((name, TextValue v) # fs) =
     (if name = key then Some v
      else if mistaken key v then
        (case fs of
           [] \<Rightarrow> None
         | (_, TextValue w) # _ \<Rightarrow> Some w
         | (_, PlainValue _) # fs' \<Rightarrow> found_value key fs')
      else found_value key fs)"
| "found_value key ((name, PlainValue v) # fs) = found_value key fs"

lemma plain_chars:
  assumes "list_all (\<lambda>c. c_isalnum c \<or> c = CHR ''_'') key"
  shows "DQUOTE \<notin> set key" "BACKSLASH \<notin> set key" "CHR '':'' \<notin> set key" "CHR '','' \<notin> set key" "CHR 0x7D \<notin> set key"
  using assms by (auto simp: list_all_iff c_isalnum_def c_isdigit_def c_isupper_def c_islower_def)

lemma json_text_simps [simp]:
  "json_text [] = []"
  "json_text (c # s) = (if c = DQUOTE \<or> c = BACKSLASH then [BACKSLASH, c] else [c]) @ json_text s"
  by (simp_all add: json_text_def)

lemma json_text_plain: "DQUOTE \<notin> set s \<Longrightarrow> BACKSLASH \<notin> set s \<Longrightarrow> json_text s = s"
  by (induction s) auto

lemma string_value_text: "string_value room (json_text s @ DQUOTE # rest) = take room s"
  by (induction room arbitrary: s) (auto split: list.split simp: neq_Nil_conv, case_tac s, auto)

lemma find_text_skip: "pattern \<noteq> [] \<Longrightarrow> hd pattern \<notin> set xs \<Longrightarrow> find_text pattern (xs @ s) = find_text pattern s"
  by (induction xs) (auto simp: neq_Nil_conv)

lemma key_match:
  assumes "DQUOTE \<notin> set key" "BACKSLASH \<notin> set key"
  shows "take (length key + 1) (json_text v @ DQUOTE # rest) = key @ [DQUOTE] \<longleftrightarrow> v = key"
  using assms
proof (induction key arbitrary: v)
  case Nil
  then show ?case by (cases v) auto
next
  case (Cons k key)
  then show ?case by (cases v) (auto split: if_splits)
qed

text \<open>The search for a key that fits its buffer, through one quoted text.\<close>

definition key_fits :: "string \<Rightarrow> bool" where
  "key_fits key \<longleftrightarrow> bare_key key \<and> length key \<le> 93"

definition led :: "string \<Rightarrow> bool" where
  "led rest \<longleftrightarrow> rest \<noteq> [] \<and> hd rest \<in> {CHR '','', CHR 0x7D, CHR '':''}"

lemma key_pattern_fits: "key_fits key \<Longrightarrow> key_pattern key = DQUOTE # key @ [DQUOTE]"
  unfolding key_pattern_def by (rule copy_text_short) (simp add: key_fits_def)

lemma key_chars:
  assumes "key_fits key"
  shows "DQUOTE \<notin> set key" "BACKSLASH \<notin> set key" "CHR '':'' \<notin> set key" "CHR '','' \<notin> set key"
    "CHR 0x7D \<notin> set key" "key \<noteq> []"
  using assms plain_chars [of key] by (auto simp: key_fits_def bare_key_def)

lemma find_in_quoted:
  assumes "key_fits key" "led rest"
  shows "find_text (DQUOTE # key @ [DQUOTE]) (json_text v @ DQUOTE # rest) =
    (if \<exists>u. v = u @ DQUOTE # key then Some (DQUOTE # key @ DQUOTE # rest)
     else find_text (DQUOTE # key @ [DQUOTE]) rest)"
proof (induction v)
  case Nil
  have "take (length key + 1) rest \<noteq> key @ [DQUOTE]"
  proof
    assume match: "take (length key + 1) rest = key @ [DQUOTE]"
    have "hd rest = hd (key @ [DQUOTE])"
      using assms(2) arg_cong [OF match, of hd] by (cases rest) (auto simp: led_def)
    then have "hd rest = hd key" using key_chars(6) [OF assms(1)] by simp
    moreover have "hd key \<in> set key" using key_chars(6) [OF assms(1)] by simp
    ultimately have "hd rest \<in> set key" by simp
    then show False using assms(2) key_chars [OF assms(1)] by (auto simp: led_def)
  qed
  then show ?case by simp
next
  case (Cons d v)
  note chars = key_chars(1,2) [OF assms(1)]
  show ?case
  proof (cases "d = DQUOTE")
    case True
    have "find_text (DQUOTE # key @ [DQUOTE]) (json_text (d # v) @ DQUOTE # rest) =
        (if v = key then Some (DQUOTE # json_text v @ DQUOTE # rest)
         else find_text (DQUOTE # key @ [DQUOTE]) (json_text v @ DQUOTE # rest))"
      using key_match [OF chars, of v rest] True by simp
    moreover have "(\<exists>u. d # v = u @ DQUOTE # key) \<longleftrightarrow> v = key \<or> (\<exists>u. v = u @ DQUOTE # key)"
      using True by (auto simp: Cons_eq_append_conv)
    ultimately show ?thesis using Cons.IH json_text_plain [OF chars] by (auto split: if_splits)
  next
    case False
    then have "(\<exists>u. d # v = u @ DQUOTE # key) \<longleftrightarrow> (\<exists>u. v = u @ DQUOTE # key)"
      by (auto simp: Cons_eq_append_conv)
    then show ?thesis using False Cons.IH by auto
  qed
qed

lemma find_quoted:
  assumes "key_fits key" "led rest"
  shows "find_text (DQUOTE # key @ [DQUOTE]) (DQUOTE # json_text v @ DQUOTE # rest) =
    (if mistaken key v then Some (DQUOTE # key @ DQUOTE # rest)
     else find_text (DQUOTE # key @ [DQUOTE]) rest)"
proof -
  note chars = key_chars(1,2) [OF assms(1)]
  have "find_text (DQUOTE # key @ [DQUOTE]) (DQUOTE # json_text v @ DQUOTE # rest) =
      (if v = key then Some (DQUOTE # json_text v @ DQUOTE # rest)
       else find_text (DQUOTE # key @ [DQUOTE]) (json_text v @ DQUOTE # rest))"
    using key_match [OF chars, of v rest] by simp
  then show ?thesis
    using find_in_quoted [OF assms] json_text_plain [OF chars] by (auto simp: mistaken_def)
qed

lemma find_name:
  assumes "key_fits key" "bare_key name"
  shows "find_text (DQUOTE # key @ [DQUOTE]) (x # field_text (name, v) @ rest) =
    (if x \<noteq> DQUOTE \<and> name = key then Some (DQUOTE # key @ DQUOTE # CHR '':'' # value_text v @ rest)
     else if x \<noteq> DQUOTE then find_text (DQUOTE # key @ [DQUOTE]) (value_text v @ rest)
     else find_text (DQUOTE # key @ [DQUOTE]) (x # field_text (name, v) @ rest))"
proof -
  have chars: "DQUOTE \<notin> set name" "BACKSLASH \<notin> set name"
    using plain_chars(1,2) assms(2) by (auto simp: bare_key_def)
  then have "mistaken key name \<longleftrightarrow> name = key" by (auto simp: mistaken_def)
  then show ?thesis
    using find_quoted [OF assms(1), of "CHR '':'' # value_text v @ rest" name] json_text_plain [OF chars]
    by (auto simp: field_text_def led_def)
qed

lemma led_tail [simp]: "led (fields_tail fs)"
  by (cases fs) (auto simp: led_def)

text \<open>From one field to the next.\<close>

definition field_ok :: "string \<times> field_value \<Rightarrow> bool" where
  "field_ok f \<longleftrightarrow> bare_key (fst f) \<and> (case snd f of TextValue _ \<Rightarrow> True | PlainValue s \<Rightarrow> DQUOTE \<notin> set s)"

lemma find_char_behind: "c \<notin> set xs \<Longrightarrow> find_char c (xs @ c # rest) = Some (c # rest)"
  by (induction xs) (auto simp: find_char_def)

lemma find_plain:
  "DQUOTE \<notin> set xs \<Longrightarrow> find_text (DQUOTE # key @ [DQUOTE]) (xs @ rest) = find_text (DQUOTE # key @ [DQUOTE]) rest"
  by (rule find_text_skip) auto

lemma value_after_name:
  assumes "key_fits key" "x \<noteq> DQUOTE"
  shows "value_after key (x # field_text (key, v) @ rest) = Some (skip_json_spaces (value_text v @ rest))"
  using find_name [OF assms(1), of key x v rest] assms key_fits_def
  by (simp add: value_after_def key_pattern_fits find_char_def)

lemma value_after_other:
  assumes "key_fits key" "field_ok (name, v)" "name \<noteq> key" "\<And>t. v = TextValue t \<Longrightarrow> \<not> mistaken key t"
  shows "value_after key (CHR '','' # field_text (name, v) @ fields_tail fs) = value_after key (fields_tail fs)"
proof -
  have "find_text (DQUOTE # key @ [DQUOTE]) (value_text v @ fields_tail fs) =
      find_text (DQUOTE # key @ [DQUOTE]) (fields_tail fs)"
    using assms find_quoted [OF assms(1) led_tail] find_plain [of _ key "fields_tail fs"]
    by (cases v) (auto simp: field_ok_def)
  then show ?thesis
    using find_name [OF assms(1), of name "CHR '',''" v "fields_tail fs"] assms
    by (simp add: value_after_def key_pattern_fits field_ok_def)
qed

lemma value_after_mistaken:
  assumes "key_fits key" "bare_key name" "name \<noteq> key" "mistaken key t"
  shows "value_after key (CHR '','' # field_text (name, TextValue t) @ fields_tail []) = None"
    and "bare_key (fst f) \<Longrightarrow>
      value_after key (CHR '','' # field_text (name, TextValue t) @ fields_tail (f # fs)) =
      Some (skip_json_spaces (value_text (snd f) @ fields_tail fs))"
proof -
  have found: "find_text (DQUOTE # key @ [DQUOTE]) (CHR '','' # field_text (name, TextValue t) @ fields_tail gs) =
      Some (DQUOTE # key @ DQUOTE # fields_tail gs)" for gs
    using find_name [OF assms(1,2), of "CHR '',''" "TextValue t" "fields_tail gs"]
      find_quoted [OF assms(1) led_tail, of t gs] assms by simp
  show "value_after key (CHR '','' # field_text (name, TextValue t) @ fields_tail []) = None"
    using found [of "[]"] assms(1) by (simp add: value_after_def key_pattern_fits find_char_def)
  assume "bare_key (fst f)"
  then have "CHR '':'' \<notin> set (CHR '','' # DQUOTE # fst f @ [DQUOTE])"
    using plain_chars(3) by (auto simp: bare_key_def)
  from find_char_behind [OF this, of "value_text (snd f) @ fields_tail fs"]
  show "value_after key (CHR '','' # field_text (name, TextValue t) @ fields_tail (f # fs)) =
      Some (skip_json_spaces (value_text (snd f) @ fields_tail fs))"
    using found [of "f # fs"] assms(1) by (simp add: value_after_def key_pattern_fits field_text_def)
qed

text \<open>What \<open>extract_json_string_value\<close> does at a value.\<close>

definition result_of :: "string option \<Rightarrow> nat \<Rightarrow> bool \<Rightarrow> string option \<times> int" where
  "result_of found out_size allow_empty =
     (case found of
        None \<Rightarrow> (None, - 1)
      | Some s \<Rightarrow> (Some (take (out_size - 1) s), if take (out_size - 1) s \<noteq> [] \<or> allow_empty then 0 else - 1))"

lemma extract_None: "value_after key p = None \<Longrightarrow> extract_json_string_value p key n ae = (None, - 1)"
  by (subst extract_json_string_value.simps) simp

lemma extract_text:
  "value_after key p = Some (skip_json_spaces (value_text (TextValue t) @ rest)) \<Longrightarrow>
   extract_json_string_value p key n ae = result_of (Some t) n ae"
proof -
  assume "value_after key p = Some (skip_json_spaces (value_text (TextValue t) @ rest))"
  moreover have "skip_json_spaces (value_text (TextValue t) @ rest) = DQUOTE # json_text t @ DQUOTE # rest"
    by (simp add: skip_json_spaces_def c_isspace_def)
  ultimately show ?thesis
    by (subst extract_json_string_value.simps) (simp add: string_value_text result_of_def Let_def)
qed

lemma extract_same:
  "value_after key p = value_after key q \<Longrightarrow>
   extract_json_string_value p key n ae = extract_json_string_value q key n ae"
  by (subst (1 2) extract_json_string_value.simps) simp

lemma extract_plain:
  assumes "key_fits key" "value_after key p = Some (skip_json_spaces (s @ fields_tail fs))" "DQUOTE \<notin> set s"
  shows "extract_json_string_value p key n ae = extract_json_string_value (fields_tail fs) key n ae"
proof -
  have "\<exists>xs. dropWhile c_isspace (s @ fields_tail fs) = xs @ fields_tail fs \<and> set xs \<subseteq> set s"
  proof (induction s)
    case Nil
    have "dropWhile c_isspace (fields_tail fs) = fields_tail fs"
      by (cases fs) (auto simp: c_isspace_def)
    then show ?case by (intro exI [where x = "[]"]) simp
  next
    case (Cons c s)
    then show ?case by (cases "c_isspace c") (auto intro: exI [where x = "c # s"])
  qed
  then obtain xs where xs: "skip_json_spaces (s @ fields_tail fs) = xs @ fields_tail fs" "DQUOTE \<notin> set xs"
    using assms(3) by (auto simp: skip_json_spaces_def)
  have "hd (xs @ fields_tail fs) \<noteq> DQUOTE"
    using xs(2) by (cases xs; cases fs) auto
  then have "extract_json_string_value p key n ae = extract_json_string_value (xs @ fields_tail fs) key n ae"
    using assms(2) xs(1) by (subst extract_json_string_value.simps) simp
  also have "\<dots> = extract_json_string_value (fields_tail fs) key n ae"
    by (rule extract_same) (simp add: value_after_def key_pattern_fits [OF assms(1)] find_plain [OF xs(2)])
  finally show ?thesis .
qed

lemma extract_tail:
  "key_fits key \<Longrightarrow> list_all field_ok fs \<Longrightarrow>
   extract_json_string_value (fields_tail fs) key n ae = result_of (found_value key fs) n ae"
proof (induction key fs rule: found_value.induct)
  case (1 key)
  then show ?case
    by (intro trans [OF extract_None]) (simp_all add: value_after_def key_pattern_fits result_of_def)
next
  case (2 key name v fs)
  have ok: "field_ok (name, TextValue v)" "list_all field_ok fs" "bare_key name"
    using "2.prems" by simp_all (simp add: field_ok_def)
  consider "name = key" | "name \<noteq> key" "mistaken key v" | "name \<noteq> key" "\<not> mistaken key v" by blast
  then show ?case
  proof cases
    case 1
    then show ?thesis
      using extract_text [OF value_after_name [OF "2.prems"(1), of "CHR '',''" "TextValue v" "fields_tail fs"]] by simp
  next
    case 2
    note behind = value_after_mistaken [OF \<open>key_fits key\<close> ok(3) 2]
    show ?thesis
    proof (cases fs)
      case Nil
      then show ?thesis using extract_None [OF behind(1)] 2 by (simp add: result_of_def)
    next
      case (Cons f fs')
      then have f: "field_ok f" "bare_key (fst f)" using ok(2) by (auto simp: field_ok_def)
      show ?thesis
      proof (cases f)
        case (Pair m w)
        show ?thesis
        proof (cases w)
          case (TextValue t)
          then show ?thesis using extract_text [of key _ t] behind(2) [of f fs'] f 2 Cons Pair by simp
        next
          case (PlainValue t)
          have "extract_json_string_value (fields_tail fs') key n ae = result_of (found_value key fs') n ae"
            using "2.IH"(1) [of f fs' m w t] 2 Cons Pair PlainValue ok(2) \<open>key_fits key\<close> by simp
          then show ?thesis using PlainValue
            using extract_plain [OF \<open>key_fits key\<close>, of _ t fs'] behind(2) [of f fs'] f 2 Cons Pair
            by (simp add: field_ok_def)
        qed
      qed
    qed
  next
    case 3
    then show ?thesis
      using extract_same [OF value_after_other [OF "2.prems"(1) ok(1)]] "2.IH"(2) ok(2) "2.prems"(1) by simp
  qed
next
  case (3 key name v fs)
  have ok: "field_ok (name, PlainValue v)" "list_all field_ok fs" "DQUOTE \<notin> set v"
    using "3.prems" by simp_all (simp add: field_ok_def)
  show ?case
  proof (cases "name = key")
    case True
    then show ?thesis
      using extract_plain [OF "3.prems"(1) _ ok(3)] value_after_name [OF "3.prems"(1), of "CHR '',''" "PlainValue v"]
        "3.IH" "3.prems"(1) ok(2) by simp
  next
    case False
    then show ?thesis
      using extract_same [OF value_after_other [OF "3.prems"(1) ok(1)]] "3.IH" "3.prems"(1) ok(2) by simp
  qed
qed

lemma extract_object:
  "key_fits key \<Longrightarrow> extract_json_string_value (object_text fs) key n ae = extract_json_string_value (fields_tail fs) key n ae"
proof (cases fs)
  case Nil
  assume "key_fits key"
  then show ?thesis by (intro extract_same) (simp add: Nil object_text_def value_after_def key_pattern_fits)
next
  case (Cons f gs)
  assume "key_fits key"
  then show ?thesis by (intro extract_same) (simp add: Cons object_text_def value_after_def key_pattern_fits)
qed

text \<open>What was meant: the first text value with that name.\<close>

fun named_value :: "string \<Rightarrow> (string \<times> field_value) list \<Rightarrow> string option" where
  "named_value key [] = None"
| "named_value key ((name, TextValue v) # fs) = (if name = key then Some v else named_value key fs)"
| "named_value key ((name, PlainValue v) # fs) = named_value key fs"

lemma found_is_named:
  "list_all (\<lambda>f. \<forall>v. f = (fst f, TextValue v) \<longrightarrow> \<not> mistaken key v) fs \<Longrightarrow> found_value key fs = named_value key fs"
  by (induction key fs rule: found_value.induct) auto

text \<open>C33: Looking up a key in a flat object gives the first text value of that name, cut to the output, unless a
  text value before it equals the key or ends in a quote and the key: then it gives the value of the field
  after that one, whatever its name.\<close>

theorem json_field_lookup:
  assumes "key_fits key" "list_all field_ok fs"
  shows "extract_json_string_value (object_text fs) key n ae = result_of (found_value key fs) n ae \<and>
    (list_all (\<lambda>f. \<forall>v. f = (fst f, TextValue v) \<longrightarrow> \<not> mistaken key v) fs \<longrightarrow>
     found_value key fs = named_value key fs)"
  using extract_object [OF assms(1)] extract_tail [OF assms] found_is_named by simp

theorem json_field_lookup_witness:
  "extract_json_string_value (object_text [(''chat'', TextValue ''slot''), (''room'', TextValue ''n64''), (''slot'', TextValue ''red'')])
     ''slot'' 96 False = (Some ''n64'', 0)"
proof -
  have "key_fits ''slot''" "list_all field_ok [(''chat'', TextValue ''slot''), (''room'', TextValue ''n64''), (''slot'', TextValue ''red'')]"
    by (simp_all add: key_fits_def field_ok_def bare_key_def) code_simp+
  from json_field_lookup [OF this, of 96 False] show ?thesis by (simp add: result_of_def mistaken_def)
qed

section \<open>Escaping fits or is cut\<close>

lemma json_escape_fits:
  "\<forall>c \<in> set s. CHR 0x20 \<le> c \<Longrightarrow> used + length (json_text s) < n \<Longrightarrow> json_escape_loop s used n = json_text s"
  by (induction s arbitrary: used) auto

text \<open>A text that is escaped without loss is read back by the lookup; but where the output has one place left, a quote
  or backslash is written there without its escape.\<close>

theorem json_escape_outcome:
  assumes "list_all (\<lambda>c. CHR 0x20 \<le> c) s" "c = DQUOTE \<or> c = BACKSLASH"
  shows "json_escape s (Suc (length (json_text s))) = json_text s \<and>
    string_value (length s) (json_escape s (Suc (length (json_text s))) @ DQUOTE # rest) = s \<and>
    json_escape (s @ c # more_text) (length (json_text s) + 2) = json_text s @ [c]"
proof -
  have printable: "\<forall>c \<in> set s. CHR 0x20 \<le> c" using assms(1) by (simp add: list_all_iff)
  have cut: "used + length (json_text s) + 2 = n \<Longrightarrow> json_escape_loop (s @ c # more_text) used n = json_text s @ [c]" for used n
    using printable
  proof (induction s arbitrary: used)
    case Nil
    have "json_escape_loop more_text (Suc used) n = []" using Nil by (cases more_text) auto
    then show ?case using Nil assms(2) by auto
  qed auto
  show ?thesis
    using json_escape_fits [OF printable, of 0 "Suc (length (json_text s))"] cut [of 0] string_value_text [of "length s" s rest]
    by (simp add: json_escape_def)
qed

theorem json_escape_outcome_witness:
  "json_escape (''abc'' @ [DQUOTE, CHR ''d'']) 5 = ''abc'' @ [DQUOTE]"
proof -
  have "list_all (\<lambda>c. CHR 0x20 \<le> c) ''abc''" by code_simp
  from json_escape_outcome [OF this, of DQUOTE "[]" "''d''"] show ?thesis by (simp add: numeral_eq_Suc)
qed

section \<open>The end of a nested value is found\<close>

datatype json =
    JText string
  | JPlain string
  | JArray "json list"
  | JObject "(string \<times> json) list"

fun commas :: "string list \<Rightarrow> string" where
  "commas [] = []"
| "commas [s] = s"
| "commas (s # t # ss) = s @ CHR '','' # commas (t # ss)"

definition quoted :: "string \<Rightarrow> string" where
  "quoted s = DQUOTE # json_text s @ [DQUOTE]"

fun json_render :: "json \<Rightarrow> string" where
  "json_render (JText s) = quoted s"
| "json_render (JPlain s) = s"
| "json_render (JArray xs) = CHR ''['' # commas (map json_render xs) @ [CHR '']'']"
| "json_render (JObject fs) = CHR 0x7B # commas (map (\<lambda>f. quoted (fst f) @ CHR '':'' # json_render (snd f)) fs) @ [CHR 0x7D]"

fun json_ok :: "json \<Rightarrow> bool" where
  "json_ok (JText s) = True"
| "json_ok (JPlain s) = (set s \<inter> {DQUOTE, CHR ''['', CHR '']'', CHR 0x7B, CHR 0x7D} = {})"
| "json_ok (JArray xs) = list_all json_ok xs"
| "json_ok (JObject fs) = list_all (\<lambda>f. json_ok (snd f)) fs"

definition bracket_pair :: "char \<Rightarrow> char \<Rightarrow> bool" where
  "bracket_pair opening closing \<longleftrightarrow>
     (opening, closing) = (CHR ''['', CHR '']'') \<or> (opening, closing) = (CHR 0x7B, CHR 0x7D)"

lemma loop_quoted:
  "bracket_pair opening closing \<Longrightarrow>
   matching_loop opening closing d False False (quoted s @ rest) = matching_loop opening closing d False False rest"
proof -
  have "matching_loop opening closing d True False (json_text s @ DQUOTE # rest) =
      matching_loop opening closing d False False rest" by (induction s) auto
  then show ?thesis by (simp add: quoted_def)
qed

definition neutral :: "char \<Rightarrow> char \<Rightarrow> string \<Rightarrow> bool" where
  "neutral opening closing s \<longleftrightarrow> (\<forall>d rest. 0 < d \<longrightarrow>
     matching_loop opening closing d False False (s @ rest) = matching_loop opening closing d False False rest)"

lemma neutralD: "neutral opening closing s \<Longrightarrow> 0 < d \<Longrightarrow>
  matching_loop opening closing d False False (s @ rest) = matching_loop opening closing d False False rest"
  by (simp add: neutral_def)

lemma neutral_plain:
  "set s \<inter> {DQUOTE, opening, closing} = {} \<Longrightarrow> neutral opening closing s"
  unfolding neutral_def by (induction s) auto

lemma neutral_append: "neutral opening closing s \<Longrightarrow> neutral opening closing t \<Longrightarrow> neutral opening closing (s @ t)"
  by (simp add: neutral_def)

lemma neutral_comma: "bracket_pair opening closing \<Longrightarrow> c \<in> {CHR '','', CHR '':''} \<Longrightarrow> neutral opening closing [c]"
  by (rule neutral_plain) (auto simp: bracket_pair_def)

lemma neutral_commas:
  "bracket_pair opening closing \<Longrightarrow> list_all (neutral opening closing) ss \<Longrightarrow> neutral opening closing (commas ss)"
proof (induction ss rule: commas.induct)
  case (3 s t ss)
  then show ?case
    using neutral_append [OF _ neutral_append [OF neutral_comma [OF 3(2), of "CHR '',''"]], of s "commas (t # ss)"] by simp
qed (simp_all add: neutral_def)

lemma neutral_bracketed:
  assumes "bracket_pair opening closing" "bracket_pair b e" "neutral opening closing s"
  shows "neutral opening closing (b # s @ [e])"
  unfolding neutral_def
proof (intro allI impI)
  fix d :: nat and rest assume d: "0 < d"
  have marks: "b \<noteq> DQUOTE" "e \<noteq> DQUOTE" "e \<noteq> opening" "b \<noteq> closing" "b = opening \<longleftrightarrow> e = closing"
    using assms(1,2) by (auto simp: bracket_pair_def)
  show "matching_loop opening closing d False False ((b # s @ [e]) @ rest) = matching_loop opening closing d False False rest"
    using marks neutralD [OF assms(3), of "d + 1" "e # rest"] neutralD [OF assms(3), of d "e # rest"] d by auto
qed

lemma neutral_render: "bracket_pair opening closing \<Longrightarrow> json_ok v \<Longrightarrow> neutral opening closing (json_render v)"
proof (induction v)
  case (JText s)
  then show ?case by (simp add: neutral_def loop_quoted)
next
  case (JPlain s)
  then show ?case by (intro neutral_plain) (auto simp: bracket_pair_def)
next
  case (JArray xs)
  then show ?case
    by (auto intro!: neutral_bracketed neutral_commas simp: list_all_iff) (auto simp: bracket_pair_def)
next
  case (JObject fs)
  have "neutral opening closing (quoted (fst f) @ [CHR '':''] @ json_render (snd f))" if "f \<in> set fs" for f
    using JObject that
    by (intro neutral_append neutral_comma) (auto simp: neutral_def loop_quoted list_all_iff snds.simps)
  then show ?case
    using JObject.prems by (auto intro!: neutral_bracketed neutral_commas simp: list_all_iff) (auto simp: bracket_pair_def)
qed

text \<open>Of an array or object of any depth, with brackets and quotes in its texts, the end found is its own closing
  bracket, whatever follows.\<close>

theorem json_end_found:
  assumes "list_all json_ok xs" "list_all (\<lambda>f. json_ok (snd f)) fs"
  shows "json_matching_end (json_render (JArray xs) @ rest) (CHR ''['') (CHR '']'') = Some (CHR '']'' # rest) \<and>
    json_matching_end (json_render (JObject fs) @ rest) (CHR 0x7B) (CHR 0x7D) = Some (CHR 0x7D # rest)"
proof -
  have top: "json_matching_end (b # s @ e # rest) b e = Some (e # rest)"
    if "neutral b e s" "bracket_pair b e" for b e s
    using neutralD [OF that(1), of 1 "e # rest"] that(2) by (auto simp: json_matching_end_def bracket_pair_def)
  have pairs: "bracket_pair (CHR ''['') (CHR '']'')" "bracket_pair (CHR 0x7B) (CHR 0x7D)"
    by (simp_all add: bracket_pair_def)
  have "neutral (CHR ''['') (CHR '']'') (commas (map json_render xs))"
    using assms(1) neutral_render [OF pairs(1)] by (intro neutral_commas [OF pairs(1)]) (auto simp: list_all_iff)
  moreover have "neutral (CHR 0x7B) (CHR 0x7D) (quoted (fst f) @ [CHR '':''] @ json_render (snd f))" if "f \<in> set fs" for f
    using assms(2) that neutral_render [OF pairs(2)]
    by (intro neutral_append neutral_comma [OF pairs(2)]) (auto simp: neutral_def loop_quoted [OF pairs(2)] list_all_iff)
  then have "neutral (CHR 0x7B) (CHR 0x7D) (commas (map (\<lambda>f. quoted (fst f) @ CHR '':'' # json_render (snd f)) fs))"
    by (intro neutral_commas [OF pairs(2)]) (auto simp: list_all_iff)
  ultimately show ?thesis using top pairs by simp
qed

theorem json_end_found_witness:
  "json_matching_end (json_render (JArray [JText '']'', JArray [JPlain ''1'']]) @ ''tail'') (CHR ''['') (CHR '']'') =
     Some (CHR '']'' # ''tail'')"
  using json_end_found [of "[JText '']'', JArray [JPlain ''1'']]" "[]" "''tail''"] by simp

end
