(* ===== verification/Mdns.thy ===== *)
theory Mdns
  imports CText
begin

text \<open>
  Finding the other player on the local network (\<open>runtimes/gb/src/common/mdns.c\<close>): the
  announcement a host sends and the parser of whatever arrives on the multicast address. The
  packet under construction is the prefix written so far; the parser's reads are checked, so
  that one outside the packet, or a write outside the output, is the result \<open>OutOfBounds\<close>.
  Sockets, the local address and the clock are parameters or a script of events.

  The lemmas show that the parser ends and stays in bounds on every packet, and that it reads
  an announcement back.
\<close>

unbundle bit_operations_syntax

section \<open>Writing a packet\<close>

definition MDNS_TTL :: u32 where "MDNS_TTL = 120"

definition append_bytes :: "nat \<Rightarrow> bytes \<Rightarrow> bytes \<Rightarrow> bytes option" where
  "append_bytes packet_size packet src =
     (if packet_size < length packet \<or> packet_size - length packet < length src then None
      else Some (packet @ src))"

definition append_u16 :: "nat \<Rightarrow> bytes \<Rightarrow> u16 \<Rightarrow> bytes option" where
  "append_u16 packet_size packet value = append_bytes packet_size packet (put_be16 value)"

definition append_u32 :: "nat \<Rightarrow> bytes \<Rightarrow> u32 \<Rightarrow> bytes option" where
  "append_u32 packet_size packet value = append_bytes packet_size packet (put_be32 value)"

function append_labels :: "nat \<Rightarrow> bytes \<Rightarrow> string \<Rightarrow> bytes option" where
  "append_labels packet_size packet label =
     (if label = [] then Some packet
      else let part = takeWhile (\<lambda>c. c \<noteq> CHR ''.'') label
           in if part = [] \<or> 63 < length part \<or> packet_size \<le> length packet then None
              else (case append_bytes packet_size (packet @ [of_nat (length part)]) (text_bytes part) of
                      None \<Rightarrow> None
                    | Some written \<Rightarrow>
                        if CHR ''.'' \<in> set label
                        then append_labels packet_size written (tl (dropWhile (\<lambda>c. c \<noteq> CHR ''.'') label))
                        else Some written))"
  by pat_completeness auto
termination
proof (relation "measure (\<lambda>(n, p, label). length label)", goal_cases)
  case (2 packet_size packet label x)
  then show ?case using length_dropWhile_le [of "\<lambda>c. c \<noteq> CHR ''.''" label] by (cases label) auto
qed simp

declare append_labels.simps [simp del]

definition append_dns_name :: "nat \<Rightarrow> bytes \<Rightarrow> string \<Rightarrow> bytes option" where
  "append_dns_name packet_size packet name =
     (case append_labels packet_size packet name of
        None \<Rightarrow> None
      | Some written \<Rightarrow> if packet_size \<le> length written then None else Some (written @ [0]))"

text \<open>The packet with the head of a record, and the offset of its length field.\<close>

definition begin_record :: "nat \<Rightarrow> bytes \<Rightarrow> string \<Rightarrow> u16 \<Rightarrow> (bytes \<times> nat) option" where
  "begin_record packet_size packet name type =
     (case append_dns_name packet_size packet name of None \<Rightarrow> None | Some p1 \<Rightarrow>
      (case append_u16 packet_size p1 type of None \<Rightarrow> None | Some p2 \<Rightarrow>
      (case append_u16 packet_size p2 1 of None \<Rightarrow> None | Some p3 \<Rightarrow>
      (case append_u32 packet_size p3 MDNS_TTL of None \<Rightarrow> None | Some p4 \<Rightarrow>
       map_option (\<lambda>p5. (p5, length p4)) (append_u16 packet_size p4 0)))))"

definition finish_record :: "bytes \<Rightarrow> nat \<Rightarrow> bytes option" where
  "finish_record packet rdlength_offset =
     (let rdata_len = length packet - (rdlength_offset + 2)
      in if 65535 < rdata_len then None
         else Some (write_at rdlength_offset (put_be16 (of_nat rdata_len)) packet))"

definition announcement_head :: bytes where
  "announcement_head = write_at 6 (put_be16 3) (write_at 2 (put_be16 0x8400) (replicate 12 0))"

definition pointer_record :: "nat \<Rightarrow> bytes \<Rightarrow> string \<Rightarrow> string \<Rightarrow> bytes option" where
  "pointer_record packet_size packet service instance =
     (case begin_record packet_size packet service 12 of None \<Rightarrow> None | Some (p, at) \<Rightarrow>
      (case append_dns_name packet_size p instance of None \<Rightarrow> None | Some p1 \<Rightarrow> finish_record p1 at))"

definition service_record :: "nat \<Rightarrow> bytes \<Rightarrow> string \<Rightarrow> string \<Rightarrow> u32 \<Rightarrow> bytes option" where
  "service_record packet_size packet instance target port =
     (case begin_record packet_size packet instance 33 of None \<Rightarrow> None | Some (p, at) \<Rightarrow>
      (case append_u16 packet_size p 0 of None \<Rightarrow> None | Some p1 \<Rightarrow>
      (case append_u16 packet_size p1 0 of None \<Rightarrow> None | Some p2 \<Rightarrow>
      (case append_u16 packet_size p2 (ucast port) of None \<Rightarrow> None | Some p3 \<Rightarrow>
      (case append_dns_name packet_size p3 target of None \<Rightarrow> None | Some p4 \<Rightarrow> finish_record p4 at)))))"

definition address_record :: "nat \<Rightarrow> bytes \<Rightarrow> string \<Rightarrow> bytes \<Rightarrow> bytes option" where
  "address_record packet_size packet target address =
     (case begin_record packet_size packet target 1 of None \<Rightarrow> None | Some (p, at) \<Rightarrow>
      (case append_bytes packet_size p address of None \<Rightarrow> None | Some p1 \<Rightarrow> finish_record p1 at))"

definition ANNOUNCEMENT_MAX :: nat where "ANNOUNCEMENT_MAX = 512"

definition announcement :: "string \<Rightarrow> string \<Rightarrow> string \<Rightarrow> u32 \<Rightarrow> bytes \<Rightarrow> bytes option" where
  "announcement service instance target port address =
     (case pointer_record ANNOUNCEMENT_MAX announcement_head service instance of None \<Rightarrow> None | Some p1 \<Rightarrow>
      (case service_record ANNOUNCEMENT_MAX p1 instance target port of None \<Rightarrow> None | Some p2 \<Rightarrow>
       address_record ANNOUNCEMENT_MAX p2 target address))"

text \<open>\<open>send\<close> gives None without a socket, else what \<open>sendto\<close> returned.\<close>

definition mdns_advertise_named_once ::
  "bytes option \<Rightarrow> (bytes \<Rightarrow> int option) \<Rightarrow> string \<Rightarrow> string \<Rightarrow> string \<Rightarrow> u32 \<Rightarrow> int" where
  "mdns_advertise_named_once local_addr send service instance target port =
     (case local_addr of
        None \<Rightarrow> - 1
      | Some address \<Rightarrow>
          (case announcement service instance target port address of
             None \<Rightarrow> - 1
           | Some packet \<Rightarrow>
               (case send packet of None \<Rightarrow> - 1 | Some sent \<Rightarrow> if sent = int (length packet) then 0 else - 1)))"

definition MDNS_SERVICE :: string where "MDNS_SERVICE = ''_gb_runtime._tcp.local''"
definition MDNS_INSTANCE :: string where "MDNS_INSTANCE = ''GB Runtime._gb_runtime._tcp.local''"
definition MDNS_TARGET :: string where "MDNS_TARGET = ''gb_runtime.local''"

definition mdns_advertise_once :: "bytes option \<Rightarrow> (bytes \<Rightarrow> int option) \<Rightarrow> u32 \<Rightarrow> int" where
  "mdns_advertise_once local_addr send port =
     mdns_advertise_named_once local_addr send MDNS_SERVICE MDNS_INSTANCE MDNS_TARGET port"

definition discovery_query :: "string \<Rightarrow> bytes option" where
  "discovery_query service =
     (case append_dns_name 256 (write_at 4 (put_be16 1) (replicate 12 0)) service of None \<Rightarrow> None | Some p1 \<Rightarrow>
      (case append_u16 256 p1 12 of None \<Rightarrow> None | Some p2 \<Rightarrow> append_u16 256 p2 1))"

section \<open>Reading a packet\<close>

datatype 'a parse = Parsed 'a | Rejected | OutOfBounds

definition octets_at :: "bytes \<Rightarrow> nat \<Rightarrow> nat \<Rightarrow> (bytes \<Rightarrow> 'a parse) \<Rightarrow> 'a parse" where
  "octets_at packet pos n f = (if pos + n \<le> length packet then f (slice pos n packet) else OutOfBounds)"

lemma octets_at_cong [fundef_cong]:
  "p = p' \<Longrightarrow> i = i' \<Longrightarrow> n = n' \<Longrightarrow>
   (\<And>bs. i' + n' \<le> length p' \<Longrightarrow> bs = slice i' n' p' \<Longrightarrow> f bs = g bs) \<Longrightarrow> octets_at p i n f = octets_at p' i' n' g"
  by (simp add: octets_at_def)

definition octets_text :: "bytes \<Rightarrow> string" where
  "octets_text bs = map (\<lambda>b. char_of (unat b)) bs"

function decode_name_loop ::
  "bytes \<Rightarrow> nat \<Rightarrow> nat \<Rightarrow> string \<Rightarrow> nat \<Rightarrow> bool \<Rightarrow> nat \<Rightarrow> (nat \<times> string) parse" where
  "decode_name_loop packet out_size pos out jumps jumped offset =
     (if pos < length packet then
        octets_at packet pos 1 (\<lambda>b.
          let len = b ! 0; pos = pos + 1
          in if len = 0 then
               (if length out < out_size then Parsed (if jumped then offset else pos, out) else OutOfBounds)
             else if len AND 0xC0 = 0xC0 then
               (if length packet \<le> pos \<or> 16 < jumps then Rejected
                else octets_at packet pos 1 (\<lambda>b.
                  let pointer = unat (push_bit 8 (ucast (len AND 0x3F)) OR ucast (b ! 0) :: u16); pos = pos + 1
                  in if length packet \<le> pointer then Rejected
                     else decode_name_loop packet out_size pointer out (jumps + 1) True
                            (if jumped then offset else pos)))
             else if len AND 0xC0 \<noteq> 0 \<or> length packet < pos + unat len then Rejected
             else if out \<noteq> [] \<and> out_size \<le> length out + 1 then Rejected
             else let out = (if out \<noteq> [] then out @ [CHR ''.''] else out)
                  in if out_size \<le> length out + unat len then Rejected
                     else octets_at packet pos (unat len) (\<lambda>label.
                       decode_name_loop packet out_size (pos + unat len) (out @ octets_text label) jumps jumped offset))
      else Rejected)"
  by pat_completeness auto
termination
  by (relation "measures [\<lambda>(p, n, pos, out, jumps, j, off). 18 - jumps, \<lambda>(p, n, pos, out, jumps, j, off). length p - pos]")
    auto

declare decode_name_loop.simps [simp del]

text \<open>The new offset and the name.\<close>

definition decode_dns_name :: "bytes \<Rightarrow> nat \<Rightarrow> nat \<Rightarrow> (nat \<times> string) parse" where
  "decode_dns_name packet offset out_size =
     (if out_size = 0 then Rejected else decode_name_loop packet out_size offset [] 0 False offset)"

definition skip_question :: "bytes \<Rightarrow> nat \<Rightarrow> nat parse" where
  "skip_question packet offset =
     (case decode_dns_name packet offset 256 of
        Parsed (next_offset, _) \<Rightarrow>
          if length packet < next_offset \<or> length packet - next_offset < 4 then Rejected
          else Parsed (next_offset + 4)
      | Rejected \<Rightarrow> Rejected
      | OutOfBounds \<Rightarrow> OutOfBounds)"

fun skip_questions :: "nat \<Rightarrow> bytes \<Rightarrow> nat \<Rightarrow> nat parse" where
  "skip_questions 0 packet offset = Parsed offset"
| "skip_questions (Suc n) packet offset =
     (case skip_question packet offset of
        Parsed next_offset \<Rightarrow> skip_questions n packet next_offset
      | Rejected \<Rightarrow> Rejected
      | OutOfBounds \<Rightarrow> OutOfBounds)"

text \<open>What a search has found; the texts are C strings, and \<open>inet_ntop\<close> writes dotted decimals.\<close>

record mdns_found =
  mf_host :: string
  mf_port :: u32
  mf_has_host :: bool
  mf_has_port :: bool

definition c_text :: "string \<Rightarrow> string" where
  "c_text s = takeWhile (\<lambda>c. c \<noteq> CHR 0x00) s"

definition ends_with_nocase :: "string \<Rightarrow> string \<Rightarrow> bool" where
  "ends_with_nocase name service \<longleftrightarrow>
     length service < length name \<and>
     map c_tolower (drop (length name - length service) name) = map c_tolower service"

definition inet_ntop_text :: "bytes \<Rightarrow> string" where
  "inet_ntop_text a =
     dec (unat (a ! 0)) @ ''.'' @ dec (unat (a ! 1)) @ ''.'' @ dec (unat (a ! 2)) @ ''.'' @ dec (unat (a ! 3))"

text \<open>What one record adds.\<close>

definition use_record :: "bytes \<Rightarrow> string \<Rightarrow> nat \<Rightarrow> string \<Rightarrow> u16 \<Rightarrow> u16 \<Rightarrow> nat \<Rightarrow> mdns_found \<Rightarrow> mdns_found parse" where
  "use_record packet service host_size name type rdlength rdata f =
     (if type = 33 \<and> ends_with_nocase (c_text name) service \<and> 7 \<le> rdlength then
        octets_at packet (rdata + 4) 2 (\<lambda>bs. Parsed (f\<lparr>mf_port := ucast (get_be16 bs), mf_has_port := True\<rparr>))
      else if type = 1 \<and> rdlength = 4 then
        octets_at packet rdata 4 (\<lambda>bs.
          Parsed (if length (inet_ntop_text bs) < host_size
                  then f\<lparr>mf_host := inet_ntop_text bs, mf_has_host := True\<rparr> else f))
      else Parsed f)"

fun parse_records :: "nat \<Rightarrow> bytes \<Rightarrow> string \<Rightarrow> nat \<Rightarrow> nat \<Rightarrow> mdns_found \<Rightarrow> (mdns_found \<times> bool) parse" where
  "parse_records 0 packet service host_size offset f = Parsed (f, False)"
| "parse_records (Suc n) packet service host_size offset f =
     (case decode_dns_name packet offset 256 of
        OutOfBounds \<Rightarrow> OutOfBounds
      | Rejected \<Rightarrow> Parsed (f, False)
      | Parsed (offset, name) \<Rightarrow>
          if length packet < offset \<or> length packet - offset < 10 then Parsed (f, False)
          else octets_at packet offset 10 (\<lambda>head.
            let type = get_be16 head; rdlength = get_be16 (drop 8 head); offset = offset + 10
            in if length packet < offset \<or> length packet - offset < unat rdlength then Parsed (f, False)
               else (case use_record packet service host_size name type rdlength offset f of
                       OutOfBounds \<Rightarrow> OutOfBounds
                     | Rejected \<Rightarrow> Rejected
                     | Parsed g \<Rightarrow>
                         if mf_has_host g \<and> mf_has_port g then Parsed (g, True)
                         else parse_records n packet service host_size (offset + unat rdlength) g)))"

text \<open>The outputs of the call, which keep what a refused packet left in them, and its result.\<close>

definition parse_response :: "bytes \<Rightarrow> string \<Rightarrow> nat \<Rightarrow> string \<Rightarrow> u32 \<Rightarrow> (mdns_found \<times> bool) parse" where
  "parse_response packet service host_size host port =
     (let f = \<lparr>mf_host = host, mf_port = port, mf_has_host = False, mf_has_port = False\<rparr>
      in if length packet < 12 then Parsed (f, False)
         else octets_at packet 4 8 (\<lambda>counts.
           case skip_questions (unat (get_be16 counts)) packet 12 of
             OutOfBounds \<Rightarrow> OutOfBounds
           | Rejected \<Rightarrow> Parsed (f, False)
           | Parsed offset \<Rightarrow>
               parse_records (unat (get_be16 (drop 2 counts)) + unat (get_be16 (drop 4 counts)) +
                   unat (get_be16 (drop 6 counts))) packet service host_size offset f))"

text \<open>The waiting loop: each turn the time gone by, in milliseconds, and what \<open>select\<close> and \<open>recv\<close> give.\<close>

datatype mdns_wait = WaitInterrupted | WaitFailed | WaitTimeout | Arrived bytes | ReceiveFailed

fun discover_loop ::
  "(nat \<times> mdns_wait) list \<Rightarrow> nat \<Rightarrow> string \<Rightarrow> nat \<Rightarrow> string \<Rightarrow> u32 \<Rightarrow> (string \<times> u32 \<times> int) parse" where
  "discover_loop [] timeout_ms service host_size host port = Parsed (host, port, - 1)"
| "discover_loop ((elapsed, event) # events) timeout_ms service host_size host port =
     (if timeout_ms \<le> elapsed then Parsed (host, port, - 1)
      else case event of
             WaitInterrupted \<Rightarrow> discover_loop events timeout_ms service host_size host port
           | WaitFailed \<Rightarrow> Parsed (host, port, - 1)
           | WaitTimeout \<Rightarrow> Parsed (host, port, - 1)
           | ReceiveFailed \<Rightarrow> discover_loop events timeout_ms service host_size host port
           | Arrived packet \<Rightarrow>
               (case parse_response packet service host_size host port of
                  OutOfBounds \<Rightarrow> OutOfBounds
                | Rejected \<Rightarrow> Rejected
                | Parsed (f, ok) \<Rightarrow>
                    if ok then Parsed (mf_host f, mf_port f, 0)
                    else discover_loop events timeout_ms service host_size (mf_host f) (mf_port f)))"

definition mdns_discover_named ::
  "(nat \<times> mdns_wait) list option \<Rightarrow> nat \<Rightarrow> string \<Rightarrow> nat \<Rightarrow> (string \<times> u32 \<times> int) parse" where
  "mdns_discover_named events timeout_ms service host_size =
     (if host_size = 0 then Parsed ([], 0, - 1)
      else case events of
             None \<Rightarrow> Parsed ([], 0, - 1)
           | Some es \<Rightarrow> discover_loop es timeout_ms service host_size [] 0)"

section \<open>Every packet is parsed in bounds\<close>

lemma octets_at_in [simp]: "pos + n \<le> length packet \<Longrightarrow> octets_at packet pos n f = f (slice pos n packet)"
  by (simp add: octets_at_def)

lemma decode_in_bounds:
  "length out < out_size \<Longrightarrow>
   case decode_name_loop packet out_size pos out jumps jumped offset of
     Parsed (_, name) \<Rightarrow> length name < out_size
   | Rejected \<Rightarrow> True
   | OutOfBounds \<Rightarrow> False"
proof (induction packet out_size pos out jumps jumped offset rule: decode_name_loop.induct)
  case (1 packet out_size pos out jumps jumped offset)
  let ?len = "packet ! pos"
  let ?out = "if out \<noteq> [] then out @ [CHR ''.''] else out"
  show ?case
  proof (cases "pos < length packet")
    case False
    then show ?thesis by (subst decode_name_loop.simps) simp
  next
    case True
    then have b: "slice pos 1 packet ! 0 = ?len" "Suc pos \<le> length packet" by (simp_all add: slice_def)
    show ?thesis
    proof (cases "?len = 0 \<or> ?len AND 0xC0 = 0xC0")
      case special: True
      show ?thesis
        using True b special "1.IH"(1) [OF True _ _ refl refl] "1.prems"
        by (subst decode_name_loop.simps) (auto simp: Let_def)
    next
      case False
      have "case decode_name_loop packet out_size (Suc pos + unat ?len)
          (?out @ octets_text (slice (Suc pos) (unat ?len) packet)) jumps jumped offset of
          Parsed (_, name) \<Rightarrow> length name < out_size | Rejected \<Rightarrow> True | OutOfBounds \<Rightarrow> False"
        if "Suc pos + unat ?len \<le> length packet" "length ?out + unat ?len < out_size"
          "?len AND 0xC0 = 0" "\<not> (out \<noteq> [] \<and> out_size \<le> length out + 1)"
        using "1.IH"(2) [OF True _ _ refl refl, of "[?len]" ?out] True b False that
          Cons_nth_drop_Suc [OF True, symmetric]
        by (auto simp: octets_text_def slice_def split: if_splits)
      then show ?thesis
        using True b False "1.prems" by (subst decode_name_loop.simps) (auto simp: Let_def)
    qed
  qed
qed

lemma decode_never [simp]: "decode_dns_name packet offset n \<noteq> OutOfBounds"
  using decode_in_bounds [of "[]" n packet offset 0 False offset]
  by (auto simp: decode_dns_name_def split: parse.splits)

lemma skip_questions_never [simp]: "skip_questions n packet offset \<noteq> OutOfBounds"
  by (induction n packet offset rule: skip_questions.induct)
    (auto simp: skip_question_def split: parse.splits prod.splits if_splits)

text \<open>A record is used within its extent, and a host text is only written where it fits.\<close>

lemma use_record_in_bounds:
  assumes "rdata + unat rdlength \<le> length packet"
  shows "\<exists>g. use_record packet service host_size name type rdlength rdata f = Parsed g \<and>
    (mf_host g = mf_host f \<or> length (mf_host g) < host_size) \<and>
    (mf_has_host g \<and> \<not> mf_has_host f \<longrightarrow> length (mf_host g) < host_size)"
proof -
  have "7 \<le> rdlength \<Longrightarrow> rdata + 4 + 2 \<le> length packet" "rdlength = 4 \<Longrightarrow> rdata + 4 \<le> length packet"
    using assms by (simp_all add: word_le_nat_alt)
  then show ?thesis by (auto simp: use_record_def)
qed

lemma parse_records_in_bounds:
  "\<exists>g ok. parse_records n packet service host_size offset f = Parsed (g, ok) \<and>
     (mf_host g = mf_host f \<or> length (mf_host g) < host_size)"
proof (induction n arbitrary: offset f)
  case (Suc n)
  show ?case
  proof (cases "decode_dns_name packet offset 256")
    case (Parsed r)
    obtain at name where r: "r = (at, name)" by force
    let ?head = "slice at 10 packet"
    let ?rdlength = "get_be16 (drop 8 ?head)"
    show ?thesis
    proof (cases "length packet < at \<or> length packet - at < 10 \<or> length packet < at + 10 \<or>
        length packet - (at + 10) < unat ?rdlength")
      case True
      then show ?thesis using Parsed r by (auto simp: Let_def)
    next
      case False
      then have "at + 10 + unat ?rdlength \<le> length packet" by linarith
      from use_record_in_bounds [OF this, of service host_size name "get_be16 ?head" f]
      obtain g where g: "use_record packet service host_size name (get_be16 ?head) ?rdlength (at + 10) f = Parsed g"
        "mf_host g = mf_host f \<or> length (mf_host g) < host_size" by blast
      then show ?thesis
        using Suc [of "at + 10 + unat ?rdlength" g] Parsed r False by (auto simp: Let_def add.commute)
    qed
  qed (auto intro: exI [where x = False])
qed (simp; blast)

lemma parse_response_in_bounds:
  "\<exists>f ok. parse_response packet service host_size host port = Parsed (f, ok) \<and>
     (mf_host f = host \<or> length (mf_host f) < host_size)"
proof (cases "length packet < 12")
  case False
  define counts where "counts = slice 4 8 packet"
  show ?thesis
  proof (cases "skip_questions (unat (get_be16 counts)) packet 12")
    case (Parsed offset)
    then show ?thesis
      using False parse_records_in_bounds [of "unat (get_be16 (drop 2 counts)) + unat (get_be16 (drop 4 counts)) +
          unat (get_be16 (drop 6 counts))" packet service host_size offset
          "\<lparr>mf_host = host, mf_port = port, mf_has_host = False, mf_has_port = False\<rparr>"]
      by (simp add: parse_response_def Let_def flip: counts_def)
  qed (use False in \<open>auto simp: parse_response_def Let_def simp flip: counts_def intro: exI [where x = False]\<close>)
qed (auto simp: parse_response_def intro: exI [where x = False])

lemma discover_in_bounds:
  "host = [] \<or> length host < host_size \<Longrightarrow>
   \<exists>h p status. discover_loop events timeout_ms service host_size host port = Parsed (h, p, status) \<and>
     (h = [] \<or> length h < host_size) \<and> status \<in> {0, - 1}"
proof (induction events timeout_ms service host_size host port rule: discover_loop.induct)
  case (2 elapsed event events timeout_ms service host_size host port)
  show ?case
  proof (cases "timeout_ms \<le> elapsed")
    case waiting: False
    show ?thesis
    proof (cases event)
      case (Arrived packet)
      obtain f ok where parsed: "parse_response packet service host_size host port = Parsed (f, ok)"
        "mf_host f = host \<or> length (mf_host f) < host_size"
        using parse_response_in_bounds by blast
      then show ?thesis
        using "2.IH"(2) [OF waiting Arrived parsed(1) refl] "2.prems" Arrived waiting
        by (cases ok) auto
    qed (use waiting 2 in auto)
  qed (use "2.prems" in simp)
qed simp

text \<open>C36: Whatever packets arrive, in whatever order: the search reads no octet outside a packet, writes no host text
  that does not fit, follows no pointer for ever, and ends with its status.\<close>

theorem mdns_discover_bounds:
  "\<exists>host port status. mdns_discover_named events timeout_ms service host_size = Parsed (host, port, status) \<and>
     (host = [] \<or> length host < host_size) \<and> status \<in> {0, - 1}"
  using discover_in_bounds [of "[]"] by (auto simp: mdns_discover_named_def split: option.splits)

section \<open>An announcement is read back\<close>

text \<open>Names as their labels.\<close>

definition label_ok :: "string \<Rightarrow> bool" where
  "label_ok l \<longleftrightarrow> l \<noteq> [] \<and> length l \<le> 63 \<and> CHR ''.'' \<notin> set l \<and> CHR 0x00 \<notin> set l"

fun dotted :: "string list \<Rightarrow> string" where
  "dotted [] = []"
| "dotted [l] = l"
| "dotted (l # m # ls) = l @ CHR ''.'' # dotted (m # ls)"

definition label_octets :: "string \<Rightarrow> bytes" where
  "label_octets l = of_nat (length l) # text_bytes l"

definition name_octets :: "string list \<Rightarrow> bytes" where
  "name_octets ls = concat (map label_octets ls) @ [0]"

lemma append_labels_dotted:
  "list_all label_ok ls \<Longrightarrow> length packet + length (concat (map label_octets ls)) \<le> n \<Longrightarrow>
   append_labels n packet (dotted ls) = Some (packet @ concat (map label_octets ls))"
proof (induction ls arbitrary: packet rule: dotted.induct)
  case (2 l)
  then have l: "l \<noteq> []" "length l \<le> 63" "CHR ''.'' \<notin> set l" by (simp_all add: label_ok_def)
  then have whole: "takeWhile (\<lambda>c. c \<noteq> CHR ''.'') l = l" by auto
  have "append_bytes n (packet @ [of_nat (length l)]) (text_bytes l) = Some (packet @ label_octets l)"
    using 2(2) by (simp add: append_bytes_def label_octets_def)
  then show ?case
    using l 2(2) by (subst append_labels.simps) (simp add: label_octets_def Let_def whole)
next
  case (3 l m ls)
  have l: "l \<noteq> []" "length l \<le> 63" "CHR ''.'' \<notin> set l" using 3(2) by (simp_all add: label_ok_def)
  have "takeWhile (\<lambda>c. c \<noteq> CHR ''.'') (l @ CHR ''.'' # r) = l"
    "tl (dropWhile (\<lambda>c. c \<noteq> CHR ''.'') (l @ CHR ''.'' # r)) = r" for r
    using l(3) by (induction l) auto
  moreover have "append_bytes n (packet @ [of_nat (length l)]) (text_bytes l) = Some (packet @ label_octets l)"
    using 3(3) by (simp add: append_bytes_def label_octets_def)
  moreover have "append_labels n (packet @ label_octets l) (dotted (m # ls)) =
      Some ((packet @ label_octets l) @ concat (map label_octets (m # ls)))"
    using "3.prems" by (intro "3.IH") auto
  ultimately show ?case
    using l 3(3) by (subst append_labels.simps) (simp add: label_octets_def)
qed (subst append_labels.simps, simp)

lemma append_dns_name_dotted:
  "list_all label_ok ls \<Longrightarrow> length packet + length (name_octets ls) \<le> n \<Longrightarrow>
   append_dns_name n packet (dotted ls) = Some (packet @ name_octets ls)"
  using append_labels_dotted [of ls packet n] by (simp add: append_dns_name_def name_octets_def)

lemma label_length:
  assumes "0 < k" "k \<le> 63"
  shows "(of_nat k :: u8) AND 0xC0 = 0" "(of_nat k :: u8) \<noteq> 0" "unat (of_nat k :: u8) = k"
proof -
  have "list_all (\<lambda>k. (of_nat k :: u8) AND 0xC0 = 0 \<and> (of_nat k :: u8) \<noteq> 0 \<and> unat (of_nat k :: u8) = k) [1..<64]"
    by code_simp
  then show "(of_nat k :: u8) AND 0xC0 = 0" "(of_nat k :: u8) \<noteq> 0" "unat (of_nat k :: u8) = k"
    using assms by (auto simp: list_all_iff)
qed

lemma octets_text_bytes: "octets_text (text_bytes l) = l"
  by (induction l) (auto simp: octets_text_def text_bytes_def unat_of_char)

definition joined :: "string \<Rightarrow> string list \<Rightarrow> string" where
  "joined out ls = (if ls = [] then out else if out = [] then dotted ls else out @ CHR ''.'' # dotted ls)"

lemma joined_Cons: "l \<noteq> [] \<Longrightarrow> joined ((if out \<noteq> [] then out @ [CHR ''.''] else out) @ l) ls = joined out (l # ls)"
  by (cases ls) (auto simp: joined_def)

lemma length_joined: "length out \<le> length (joined out ls)"
  by (auto simp: joined_def)

lemma decode_labels:
  "list_all label_ok ls \<Longrightarrow> length (joined out ls) < n \<Longrightarrow> packet = pre @ name_octets ls @ post \<Longrightarrow>
   decode_name_loop packet n (length pre) out 0 False offset =
     Parsed (length pre + length (name_octets ls), joined out ls)"
proof (induction ls arbitrary: pre out)
  case Nil
  then show ?case
    by (subst decode_name_loop.simps) (simp add: name_octets_def slice_def joined_def Let_def)
next
  case (Cons l ls)
  let ?out = "(if out \<noteq> [] then out @ [CHR ''.''] else out)"
  have l: "l \<noteq> []" "0 < length l" "length l \<le> 63" using Cons.prems(1) by (auto simp: label_ok_def)
  note len = label_length [OF l(2,3)]
  have packet: "packet = pre @ of_nat (length l) # text_bytes l @ name_octets ls @ post"
    using Cons.prems(3) by (simp add: name_octets_def label_octets_def)
  have parts: "slice (length pre) 1 packet = [of_nat (length l)]"
    "slice (Suc (length pre)) (length l) packet = text_bytes l"
    by (simp_all add: packet slice_def)
  have room: "length (?out @ l) < n"
    using Cons.prems(2) length_joined [of "?out @ l" ls] joined_Cons [OF l(1)] by simp
  have "decode_name_loop packet n (length (pre @ label_octets l)) (?out @ l) 0 False offset =
      Parsed (length (pre @ label_octets l) + length (name_octets ls), joined (?out @ l) ls)"
    using Cons.prems joined_Cons [OF l(1)]
    by (intro Cons.IH) (simp_all add: name_octets_def)
  moreover have "length (pre @ label_octets l) = Suc (length pre) + length l"
    "length pre + length (name_octets (l # ls)) = length (pre @ label_octets l) + length (name_octets ls)"
    by (simp_all add: label_octets_def name_octets_def)
  moreover have "length packet = Suc (length pre + length l + length (name_octets ls) + length post)"
    by (simp add: packet)
  ultimately show ?case
    using len room parts joined_Cons [OF l(1)]
    by (subst decode_name_loop.simps) (auto simp: Let_def octets_text_bytes split: if_splits)
qed

text \<open>Whole records.\<close>

definition record_head :: "string list \<Rightarrow> u16 \<Rightarrow> bytes" where
  "record_head ls type = name_octets ls @ put_be16 type @ put_be16 1 @ put_be32 MDNS_TTL"

definition record_octets :: "string list \<Rightarrow> u16 \<Rightarrow> bytes \<Rightarrow> bytes" where
  "record_octets ls type rdata = record_head ls type @ put_be16 (of_nat (length rdata)) @ rdata"

lemma append_bytes_fits: "length packet + length src \<le> n \<Longrightarrow> append_bytes n packet src = Some (packet @ src)"
  by (simp add: append_bytes_def)

lemma begin_record_fits:
  assumes "list_all label_ok ls" "length packet + length (record_head ls type) + 2 \<le> n"
  shows "begin_record n packet (dotted ls) type =
    Some (packet @ record_head ls type @ [0, 0], length (packet @ record_head ls type))"
proof -
  have "append_dns_name n packet (dotted ls) = Some (packet @ name_octets ls)"
    using assms by (intro append_dns_name_dotted) (simp_all add: record_head_def)
  moreover have "put_be16 0 = [0, 0]" by (simp add: put_be16_def)
  ultimately show ?thesis
    using assms(2) by (simp add: begin_record_def append_u16_def append_u32_def append_bytes_fits record_head_def)
qed

lemma finish_record_octets:
  "length rdata \<le> 65535 \<Longrightarrow>
   finish_record (packet @ record_head ls type @ [0, 0] @ rdata) (length (packet @ record_head ls type)) =
     Some (packet @ record_octets ls type rdata)"
  by (simp add: finish_record_def record_octets_def write_at_def)

text \<open>The announcement's three records.\<close>

definition service_rdata :: "u32 \<Rightarrow> string list \<Rightarrow> bytes" where
  "service_rdata port target = [0, 0, 0, 0] @ put_be16 (ucast port) @ name_octets target"

definition announcement_octets :: "string list \<Rightarrow> string list \<Rightarrow> string list \<Rightarrow> u32 \<Rightarrow> bytes \<Rightarrow> bytes" where
  "announcement_octets service instance target port address =
     announcement_head @ record_octets service 12 (name_octets instance) @
     record_octets instance 33 (service_rdata port target) @ record_octets target 1 address"

lemma length_record_octets: "length (record_octets ls type rdata) = length (record_head ls type) + 2 + length rdata"
  by (simp add: record_octets_def)

lemma records_fit:
  assumes "list_all label_ok ls" "length packet + length (record_octets ls 12 (name_octets instance)) \<le> 512"
    "list_all label_ok instance"
  shows "pointer_record 512 packet (dotted ls) (dotted instance) = Some (packet @ record_octets ls 12 (name_octets instance))"
proof -
  have "append_dns_name 512 (packet @ record_head ls 12 @ [0, 0]) (dotted instance) =
      Some ((packet @ record_head ls 12 @ [0, 0]) @ name_octets instance)"
    using assms by (intro append_dns_name_dotted) (simp_all add: length_record_octets)
  then show ?thesis
    using assms begin_record_fits [OF assms(1), of packet 12 512] finish_record_octets [of "name_octets instance" packet ls 12]
    by (simp add: pointer_record_def length_record_octets)
qed

lemma service_fits:
  assumes "list_all label_ok ls" "length packet + length (record_octets ls 33 (service_rdata port target)) \<le> 512"
    "list_all label_ok target"
  shows "service_record 512 packet (dotted ls) (dotted target) port = Some (packet @ record_octets ls 33 (service_rdata port target))"
proof -
  let ?p = "packet @ record_head ls 33 @ [0, 0] @ [0, 0, 0, 0] @ put_be16 (ucast port)"
  have "append_dns_name 512 ?p (dotted target) = Some (?p @ name_octets target)"
    using assms by (intro append_dns_name_dotted) (simp_all add: length_record_octets service_rdata_def)
  moreover have "put_be16 0 = [0, 0]" by (simp add: put_be16_def)
  ultimately show ?thesis
    using assms begin_record_fits [OF assms(1), of packet 33 512] finish_record_octets [of "service_rdata port target" packet ls 33]
    by (simp add: service_record_def length_record_octets service_rdata_def append_u16_def append_bytes_fits)
qed

lemma address_fits:
  assumes "list_all label_ok ls" "length packet + length (record_octets ls 1 address) \<le> 512"
  shows "address_record 512 packet (dotted ls) address = Some (packet @ record_octets ls 1 address)"
  using assms begin_record_fits [OF assms(1), of packet 1 512] finish_record_octets [of address packet ls 1]
  by (simp add: address_record_def length_record_octets append_bytes_fits)

definition names_fit :: "string list \<Rightarrow> string list \<Rightarrow> string list \<Rightarrow> bool" where
  "names_fit service instance target \<longleftrightarrow>
     list_all (\<lambda>ls. ls \<noteq> [] \<and> list_all label_ok ls \<and> length (dotted ls) < 256) [service, instance, target] \<and>
     length (announcement_octets service instance target 0 [0, 0, 0, 0]) \<le> 512"

lemma announcement_built:
  assumes "names_fit service instance target" "length address = 4"
  shows "announcement (dotted service) (dotted instance) (dotted target) port address =
    Some (announcement_octets service instance target port address)"
proof -
  have "length (announcement_octets service instance target port address) \<le> 512"
    using assms by (simp add: names_fit_def announcement_octets_def length_record_octets service_rdata_def)
  then show ?thesis
    using assms(1)
    by (simp add: announcement_def ANNOUNCEMENT_MAX_def announcement_octets_def names_fit_def records_fit service_fits address_fits)
qed

lemma parse_record_step:
  assumes "packet = pre @ record_octets ls type rdata @ post" "ls \<noteq> []" "list_all label_ok ls" "length (dotted ls) < 256"
    "length rdata \<le> 65535"
  shows "parse_records (Suc n) packet service host_size (length pre) f =
    (case use_record packet service host_size (dotted ls) type (of_nat (length rdata))
            (length pre + length (record_head ls type) + 2) f of
       OutOfBounds \<Rightarrow> OutOfBounds
     | Rejected \<Rightarrow> Rejected
     | Parsed g \<Rightarrow>
         if mf_has_host g \<and> mf_has_port g then Parsed (g, True)
         else parse_records n packet service host_size (length (pre @ record_octets ls type rdata)) g)"
proof -
  have "decode_dns_name packet (length pre) 256 = Parsed (length pre + length (name_octets ls), dotted ls)"
    using decode_labels [OF assms(3), of "[]" 256 packet pre] assms
    by (simp add: decode_dns_name_def joined_def record_octets_def record_head_def)
  moreover have "slice (length pre + length (name_octets ls)) 10 packet =
      put_be16 type @ put_be16 1 @ put_be32 MDNS_TTL @ put_be16 (of_nat (length rdata))"
    by (simp add: assms(1) record_octets_def record_head_def slice_def)
  moreover have "unat (of_nat (length rdata) :: u16) = length rdata"
    using assms(5) by (simp add: unat_of_nat)
  moreover have "length packet = length pre + length (name_octets ls) + 10 + length rdata + length post"
    by (simp add: assms(1) record_octets_def record_head_def)
  ultimately show ?thesis
    by (simp add: Let_def record_head_def record_octets_def add.commute add.left_commute split: parse.split)
qed

lemma c_text_dotted: "list_all label_ok ls \<Longrightarrow> c_text (dotted ls) = dotted ls"
proof -
  assume "list_all label_ok ls"
  then have "CHR 0x00 \<notin> set (dotted ls)"
    by (induction ls rule: dotted.induct) (auto simp: label_ok_def)
  then have "\<And>c. c \<in> set (dotted ls) \<Longrightarrow> c \<noteq> CHR 0x00" by auto
  then show ?thesis unfolding c_text_def by (simp add: takeWhile_eq_all_conv)
qed

lemma use_service_record:
  assumes "packet = pre @ record_octets ls 33 (service_rdata port target) @ post" "list_all label_ok ls"
    "ends_with_nocase (dotted ls) service" "length (name_octets target) \<le> 500"
  shows "use_record packet service host_size (dotted ls) 33 (of_nat (length (service_rdata port target)))
      (length pre + length (record_head ls 33) + 2) f =
    Parsed (f\<lparr>mf_port := ucast (ucast port :: u16), mf_has_port := True\<rparr>)"
proof -
  have n: "length (service_rdata port target) = 6 + length (name_octets target)" "0 < length (name_octets target)"
    by (simp_all add: service_rdata_def name_octets_def)
  have "unat (of_nat m :: u16) = m" if "m < 65536" for m using that by (simp add: unat_of_nat)
  from this [of "length (service_rdata port target)"]
  have "unat (of_nat (length (service_rdata port target)) :: u16) = 6 + length (name_octets target)"
    using assms(4) n(1) by simp
  then have "(7 :: u16) \<le> of_nat (length (service_rdata port target))"
    using n by (simp add: word_le_nat_alt Suc_le_eq)
  moreover have "slice (length pre + length (record_head ls 33) + 2 + 4) 2 packet = put_be16 (ucast port)"
    by (simp add: assms(1) record_octets_def service_rdata_def slice_def)
  moreover have "length pre + length (record_head ls 33) + 2 + 4 + 2 \<le> length packet"
    using n by (simp add: assms(1) length_record_octets)
  ultimately show ?thesis
    using assms(3) c_text_dotted [OF assms(2)] by (simp add: use_record_def)
qed

lemma use_address_record:
  assumes "packet = pre @ record_octets ls 1 address @ post" "length address = 4"
    "length (inet_ntop_text address) < host_size"
  shows "use_record packet service host_size name 1 (of_nat (length address)) (length pre + length (record_head ls 1) + 2) f =
    Parsed (f\<lparr>mf_host := inet_ntop_text address, mf_has_host := True\<rparr>)"
proof -
  have "slice (length pre + length (record_head ls 1) + 2) 4 packet = address"
    using assms(2) by (simp add: assms(1) record_octets_def slice_def)
  moreover have "length pre + length (record_head ls 1) + 2 + 4 \<le> length packet"
    using assms(2) by (simp add: assms(1) length_record_octets)
  ultimately show ?thesis using assms(2,3) by (simp add: use_record_def)
qed

lemma announcement_head_octets: "announcement_head = [0, 0, 0x84, 0, 0, 0, 0, 3, 0, 0, 0, 0]"
  by code_simp

text \<open>C35: What a host announces is what the other player finds: an announcement whose names fit is built, and parsing it
  gives the host's address as text and its port (modulo 65536), whatever the outputs held before.\<close>

theorem mdns_roundtrip:
  assumes "names_fit service instance target" "ends_with_nocase (dotted instance) (dotted service)"
    "length address = 4" "length (inet_ntop_text address) < host_size"
  shows "\<exists>packet. announcement (dotted service) (dotted instance) (dotted target) port address = Some packet \<and>
    parse_response packet (dotted service) host_size host0 port0 =
      Parsed (\<lparr>mf_host = inet_ntop_text address, mf_port = ucast (ucast port :: u16),
        mf_has_host = True, mf_has_port = True\<rparr>, True)"
proof -
  let ?r1 = "record_octets service 12 (name_octets instance)"
  let ?r2 = "record_octets instance 33 (service_rdata port target)"
  let ?r3 = "record_octets target 1 address"
  define packet where "packet = announcement_octets service instance target port address"
  have ok: "service \<noteq> []" "list_all label_ok service" "length (dotted service) < 256"
    "instance \<noteq> []" "list_all label_ok instance" "length (dotted instance) < 256"
    "target \<noteq> []" "list_all label_ok target" "length (dotted target) < 256"
    using assms(1) by (simp_all add: names_fit_def)
  have size: "length (name_octets instance) \<le> 500" "length (name_octets target) \<le> 500" "length packet \<le> 512"
    using assms(1,3) by (simp_all add: packet_def names_fit_def announcement_octets_def length_record_octets service_rdata_def)
  have p: "packet = announcement_head @ ?r1 @ ?r2 @ ?r3" by (simp add: packet_def announcement_octets_def)
  have head: "length announcement_head = 12" "slice 4 8 packet = [0, 0, 0, 3, 0, 0, 0, 0]"
    by (simp_all add: p announcement_head_octets slice_def numeral_eq_Suc)
  define f where "f = \<lparr>mf_host = host0, mf_port = port0, mf_has_host = False, mf_has_port = False\<rparr>"
  have "parse_response packet (dotted service) host_size host0 port0 =
      parse_records 3 packet (dotted service) host_size (length announcement_head) f"
    using head by (simp add: parse_response_def Let_def get_be16_def f_def p)
  also have "\<dots> = parse_records 2 packet (dotted service) host_size (length (announcement_head @ ?r1)) f"
    using parse_record_step [OF p ok(1-3), of 2 "dotted service" host_size f] size(1)
    by (simp add: use_record_def f_def numeral_3_eq_3)
  also have "\<dots> = parse_records 1 packet (dotted service) host_size (length (announcement_head @ ?r1 @ ?r2))
      (f\<lparr>mf_port := ucast (ucast port :: u16), mf_has_port := True\<rparr>)"
    using parse_record_step [of packet "announcement_head @ ?r1" "instance" 33 "service_rdata port target" ?r3, OF _ ok(4-6),
        of 1 "dotted service" host_size f] size
      use_service_record [of packet "announcement_head @ ?r1" "instance" port target ?r3, OF _ ok(5) assms(2) size(2)]
    by (simp add: p f_def service_rdata_def numeral_2_eq_2)
  also have "\<dots> = Parsed (f\<lparr>mf_port := ucast (ucast port :: u16), mf_has_port := True, mf_host := inet_ntop_text address,
      mf_has_host := True\<rparr>, True)"
    using parse_record_step [of packet "announcement_head @ ?r1 @ ?r2" target 1 address "[]", OF _ ok(7-9),
        of 0 "dotted service" host_size "f\<lparr>mf_port := ucast (ucast port :: u16), mf_has_port := True\<rparr>"]
      use_address_record [of packet "announcement_head @ ?r1 @ ?r2" target address "[]", OF _ assms(3,4)] assms(3)
    by (simp add: p)
  finally show ?thesis
    using announcement_built [OF assms(1,3), of port] by (simp add: packet_def f_def)
qed

theorem mdns_roundtrip_witness:
  "\<exists>packet. announcement MDNS_SERVICE MDNS_INSTANCE MDNS_TARGET 7777 [192, 168, 1, 20] = Some packet \<and>
    parse_response packet MDNS_SERVICE 64 [] 0 =
      Parsed (\<lparr>mf_host = ''192.168.1.20'', mf_port = 7777, mf_has_host = True, mf_has_port = True\<rparr>, True)"
proof -
  let ?s = "[''_gb_runtime'', ''_tcp'', ''local'']" and ?i = "[''GB Runtime'', ''_gb_runtime'', ''_tcp'', ''local'']"
    and ?t = "[''gb_runtime'', ''local'']"
  have "names_fit ?s ?i ?t" "ends_with_nocase (dotted ?i) (dotted ?s)" by code_simp+
  moreover have "inet_ntop_text [192, 168, 1, 20] = ''192.168.1.20''"
    "dotted ?s = MDNS_SERVICE" "dotted ?i = MDNS_INSTANCE" "dotted ?t = MDNS_TARGET" by code_simp+
  ultimately show ?thesis
    using mdns_roundtrip [of ?s ?i ?t "[192, 168, 1, 20]" 64 7777 "[]" 0] by simp
qed

end
