(* ===== verification/MobileSession.thy ===== *)
theory MobileSession
  imports PayloadCodec ContentHash
begin

text \<open>
  What a mobile session needs, from the server's answer to the runtime: the client parses the runtime
  contract (\<open>c_client/mobile_session_contract.c\<close>, with a JSON tokenizer of its own), writes it as a
  manifest and one file per artifact, and the runtime loads that
  (\<open>runtimes/gb/src/mobile/mobile_session_manifest.c\<close>). Texts are C strings. A directory entry is a
  file, a symbolic link or something else; what becomes of a file that is opened for writing is a
  parameter: refused, cut short, or stored.
\<close>

section \<open>The JSON tokenizer\<close>

datatype json_kind = TkObject | TkArray | TkString | TkPrimitive

record json_token =
  jt_kind :: json_kind
  jt_start :: nat
  jt_end :: int
  jt_size :: nat
  jt_parent :: int

text \<open>The parser's state: the tokens so far and the index of the open object or array, or -1.\<close>

type_synonym json_state = "json_token list \<times> int"

definition count_child :: "json_state \<Rightarrow> json_token list" where
  "count_child state =
     (case state of (tokens, parent) \<Rightarrow>
        if 0 \<le> parent then tokens[nat parent := (tokens ! nat parent)\<lparr>jt_size := jt_size (tokens ! nat parent) + 1\<rparr>]
        else tokens)"

text \<open>The position of the closing quote, None if the string is bad.\<close>

function scan_json_string :: "string \<Rightarrow> nat \<Rightarrow> nat option" where
  "scan_json_string text pos =
     (if length text \<le> pos then None
      else if text ! pos = DQUOTE then Some pos
      else if text ! pos < CHR 0x20 then None
      else if text ! pos = BACKSLASH
      then if length text \<le> pos + 1 \<or> text ! (pos + 1) \<notin> set ([DQUOTE, BACKSLASH] @ ''/bfnrt'') then None
           else scan_json_string text (pos + 2)
      else scan_json_string text (pos + 1))"
  by pat_completeness auto
termination
  by (relation "measure (\<lambda>(text, pos). length text - pos)") auto

definition scan_json_primitive :: "string \<Rightarrow> nat \<Rightarrow> nat" where
  "scan_json_primitive text pos =
     pos + length (takeWhile (\<lambda>c. \<not> c_isspace c \<and> c \<notin> set '',]}:'') (drop pos text))"

text \<open>One turn of the loop: the next position and state, None for an error.\<close>

definition json_step :: "string \<Rightarrow> nat \<Rightarrow> nat \<Rightarrow> json_state \<Rightarrow> (nat \<times> json_state) option" where
  "json_step text count pos state =
     (case state of (tokens, parent) \<Rightarrow>
        let c = text ! pos in
        if c_isspace c \<or> c = CHR '':'' \<or> c = CHR '','' then Some (pos + 1, state)
        else if c = CHR ''{'' \<or> c = CHR ''['' then
          if count \<le> length tokens then None
          else Some (pos + 1,
                     count_child state @ [\<lparr>jt_kind = (if c = CHR ''{'' then TkObject else TkArray), jt_start = pos,
                                           jt_end = - 1, jt_size = 0, jt_parent = parent\<rparr>],
                     int (length tokens))
        else if c = CHR ''}'' \<or> c = CHR '']'' then
          let expected = (if c = CHR ''}'' then TkObject else TkArray)
          in if parent < 0 \<or> jt_kind (tokens ! nat parent) \<noteq> expected then None
             else Some (pos + 1, tokens[nat parent := (tokens ! nat parent)\<lparr>jt_end := int pos + 1\<rparr>],
                        jt_parent (tokens ! nat parent))
        else if c = DQUOTE then
          if count \<le> length tokens then None
          else (case scan_json_string text (pos + 1) of
                  None \<Rightarrow> None
                | Some q \<Rightarrow>
                    Some (q + 1,
                          count_child state @ [\<lparr>jt_kind = TkString, jt_start = pos + 1, jt_end = int q,
                                                jt_size = 0, jt_parent = parent\<rparr>], parent))
        else
          if count \<le> length tokens then None
          else let q = scan_json_primitive text pos
               in Some (q, count_child state @ [\<lparr>jt_kind = TkPrimitive, jt_start = pos, jt_end = int q,
                                                  jt_size = 0, jt_parent = parent\<rparr>], parent))"

text \<open>Every turn moves on by a character at least; the fuel is the length of the text.\<close>

fun json_loop :: "nat \<Rightarrow> string \<Rightarrow> nat \<Rightarrow> nat \<Rightarrow> json_state \<Rightarrow> json_state option" where
  "json_loop 0 text count pos state = (if length text \<le> pos then Some state else None)"
| "json_loop (Suc fuel) text count pos state =
     (if length text \<le> pos then Some state
      else case json_step text count pos state of
             None \<Rightarrow> None
           | Some (pos', state') \<Rightarrow> json_loop fuel text count pos' state')"

definition parse_json :: "string \<Rightarrow> nat \<Rightarrow> json_token list option" where
  "parse_json text count =
     (case json_loop (length text) text count 0 ([], - 1) of
        None \<Rightarrow> None
      | Some (tokens, parent) \<Rightarrow>
          if parent \<noteq> - 1 \<or> tokens = [] \<or> jt_kind (tokens ! 0) \<noteq> TkObject then None else Some tokens)"

section \<open>Reading the contract\<close>

function token_skip :: "json_token list \<Rightarrow> int \<Rightarrow> nat \<Rightarrow> nat" where
  "token_skip tokens end_at index =
     (if index < length tokens \<and> int (jt_start (tokens ! index)) < end_at
      then token_skip tokens end_at (index + 1) else index)"
  by pat_completeness auto
termination
  by (relation "measure (\<lambda>(tokens, e, index). length tokens - index)") auto

definition token_next :: "json_token list \<Rightarrow> nat \<Rightarrow> nat" where
  "token_next tokens index = token_skip tokens (jt_end (tokens ! index)) (index + 1)"

declare token_skip.simps [simp del]

lemma token_skip_ge: "index \<le> token_skip tokens e index"
proof (induction tokens e index rule: token_skip.induct)
  case (1 tokens e index)
  then show ?case by (subst token_skip.simps) (auto intro: Suc_leD)
qed

lemma token_next_gt: "index < token_next tokens index"
  using token_skip_ge [of "index + 1" tokens "jt_end (tokens ! index)"] by (simp add: token_next_def)

lemma token_next_measure:
  "index < n \<Longrightarrow> n - token_next tokens (Suc index) < n - index"
  "index < n \<Longrightarrow> n - token_next tokens index < n - index"
  using token_next_gt [of "Suc index" tokens] token_next_gt [of index tokens] by auto

definition json_token_text :: "string \<Rightarrow> json_token \<Rightarrow> string" where
  "json_token_text json t = take (nat (jt_end t) - jt_start t) (drop (jt_start t) json)"

definition token_equals :: "string \<Rightarrow> json_token \<Rightarrow> string \<Rightarrow> bool" where
  "token_equals json t s \<longleftrightarrow>
     jt_kind t = TkString \<and> jt_end t - int (jt_start t) = int (length s) \<and> json_token_text json t = s"

function find_member :: "string \<Rightarrow> json_token list \<Rightarrow> nat \<Rightarrow> string \<Rightarrow> nat \<Rightarrow> nat option" where
  "find_member json tokens object key index =
     (if \<not> (index < length tokens \<and> int (jt_start (tokens ! index)) < jt_end (tokens ! object)) then None
      else if length tokens \<le> index + 1 \<or> jt_kind (tokens ! index) \<noteq> TkString then None
      else if token_equals json (tokens ! index) key then Some (index + 1)
      else find_member json tokens object key (token_next tokens (index + 1)))"
  by pat_completeness auto
termination
  by (relation "measure (\<lambda>(json, tokens, object, key, index). length tokens - index)")
     (auto simp: token_next_measure)

declare find_member.simps [simp del]

definition object_value :: "string \<Rightarrow> json_token list \<Rightarrow> nat \<Rightarrow> string \<Rightarrow> nat option" where
  "object_value json tokens object key =
     (if jt_kind (tokens ! object) \<noteq> TkObject then None
      else find_member json tokens object key (object + 1))"

definition ident_char :: "char \<Rightarrow> bool" where
  "ident_char c \<longleftrightarrow> c_islower c \<or> c_isdigit c \<or> c = CHR ''_'' \<or> c = CHR ''-'' \<or> c = CHR ''.''"

definition copy_identifier :: "string \<Rightarrow> json_token \<Rightarrow> nat \<Rightarrow> string option" where
  "copy_identifier json t out_size =
     (let n = jt_end t - int (jt_start t)
      in if jt_kind t \<noteq> TkString \<or> n \<le> 0 \<or> int out_size \<le> n then None
         else if \<not> list_all ident_char (json_token_text json t) then None
         else Some (json_token_text json t))"

definition parse_token_integer :: "string \<Rightarrow> json_token \<Rightarrow> int option" where
  "parse_token_integer json t =
     (let n = jt_end t - int (jt_start t)
      in if jt_kind t \<noteq> TkPrimitive \<or> n \<le> 0 \<or> 32 \<le> n then None
         else case scan_number (json_token_text json t) of
                None \<Rightarrow> None
              | Some (neg, v, rest) \<Rightarrow>
                  if (if neg then 2 ^ 63 < v else 2 ^ 63 \<le> v) \<or> rest \<noteq> [] then None
                  else Some (if neg then - int v else int v))"

definition lower_sha256 :: "string \<Rightarrow> bool" where
  "lower_sha256 s \<longleftrightarrow> length s = 64 \<and> list_all (\<lambda>c. c_isdigit c \<or> CHR ''a'' \<le> c \<and> c \<le> CHR ''f'') s"

definition b64value :: "char \<Rightarrow> int" where
  "b64value c =
     (let n = of_char c :: int
      in if c_isupper c then n - 65 else if c_islower c then n - 97 + 26
         else if c_isdigit c then n - 48 + 52
         else if c = CHR ''+'' then 62 else if c = CHR ''/'' then 63
         else if c = CHR ''='' then - 2 else - 1)"

text \<open>Groups of four characters; \<open>room\<close> octets are left in the output.\<close>

fun decode_groups :: "string \<Rightarrow> nat \<Rightarrow> bytes option" where
  "decode_groups (a # b # c # d # rest) room =
     (let va = b64value a; vb = b64value b; vc = b64value c; vd = b64value d
      in if va = - 1 \<or> vb = - 1 \<or> vc = - 1 \<or> vd = - 1 then None
         else if va < 0 \<or> vb < 0 \<or> (vc = - 2 \<and> vd \<noteq> - 2) \<or> (rest \<noteq> [] \<and> (vc < 0 \<or> vd < 0)) then None
         else let n = va * 2 ^ 18 + vb * 2 ^ 12 + (if 0 \<le> vc then vc * 2 ^ 6 else 0) + (if 0 \<le> vd then vd else 0);
                  octets = [word_of_int (n div 2 ^ 16)] @ (if 0 \<le> vc then [word_of_int (n div 2 ^ 8)] else []) @
                           (if 0 \<le> vd then [word_of_int n] else [])
              in if room < length octets then None
                 else map_option ((@) octets) (decode_groups rest (room - length octets)))"
| "decode_groups _ room = Some []"

definition decode_base64 :: "string \<Rightarrow> json_token \<Rightarrow> nat \<Rightarrow> bytes option" where
  "decode_base64 json t capacity =
     (let n = jt_end t - int (jt_start t)
      in if jt_kind t \<noteq> TkString \<or> n < 0 \<or> n mod 4 \<noteq> 0 then None
         else decode_groups (json_token_text json t) capacity)"

record artifact =
  ar_role :: string
  ar_content_id :: string
  ar_sha256 :: string
  ar_data :: bytes

record contract =
  co_adapter :: string
  co_package :: string
  co_release :: string
  co_digest :: string
  co_capability :: int
  co_artifacts :: "artifact list"

definition MAX_ARTIFACTS :: nat where "MAX_ARTIFACTS = 32"
definition MAX_ARTIFACT_SIZE :: nat where "MAX_ARTIFACT_SIZE = 16 * 1024 * 1024"
definition MAX_TOTAL_SIZE :: nat where "MAX_TOTAL_SIZE = 32 * 1024 * 1024"

definition total_size :: "artifact list \<Rightarrow> nat" where
  "total_size as = sum_list (map (\<lambda>a. length (ar_data a)) as)"

text \<open>One turn of the artifact loop; \<open>alloc\<close> says which allocations succeed.\<close>

definition parse_artifact ::
  "(nat \<Rightarrow> bool) \<Rightarrow> string \<Rightarrow> json_token list \<Rightarrow> nat \<Rightarrow> artifact list \<Rightarrow> artifact option" where
  "parse_artifact alloc json tokens index done_before =
     (if MAX_ARTIFACTS \<le> length done_before \<or> jt_kind (tokens ! index) \<noteq> TkObject then None
      else case (object_value json tokens index ''role'', object_value json tokens index ''content_id'',
                 object_value json tokens index ''size'', object_value json tokens index ''sha256'',
                 object_value json tokens index ''data'') of
             (Some role, Some cid, Some sz, Some hash, Some data) \<Rightarrow>
               if jt_size (tokens ! index) \<noteq> 10 then None
               else (case (copy_identifier json (tokens ! role) 96, copy_identifier json (tokens ! cid) 96,
                           copy_identifier json (tokens ! hash) 65, parse_token_integer json (tokens ! sz)) of
                       (Some r, Some c, Some h, Some n) \<Rightarrow>
                         if \<not> lower_sha256 h \<or> n < 0 \<or> int MAX_ARTIFACT_SIZE < n then None
                         else if list_ex (\<lambda>p. ar_role p = r \<or> ar_content_id p = c) done_before then None
                         else if \<not> alloc (if n \<noteq> 0 then nat n else 1) then None
                         else (case decode_base64 json (tokens ! data) (nat n) of
                                 None \<Rightarrow> None
                               | Some bs \<Rightarrow>
                                   if length bs \<noteq> nat n \<or> sha256_hex (content_sha256 bs) \<noteq> h then None
                                   else if MAX_TOTAL_SIZE < total_size done_before + nat n then None
                                   else Some \<lparr>ar_role = r, ar_content_id = c, ar_sha256 = h, ar_data = bs\<rparr>)
                     | _ \<Rightarrow> None)
           | _ \<Rightarrow> None)"

function parse_artifacts ::
  "(nat \<Rightarrow> bool) \<Rightarrow> string \<Rightarrow> json_token list \<Rightarrow> int \<Rightarrow> nat \<Rightarrow> artifact list \<Rightarrow> artifact list option" where
  "parse_artifacts alloc json tokens end_at index done_before =
     (if \<not> (index < length tokens \<and> int (jt_start (tokens ! index)) < end_at) then Some done_before
      else case parse_artifact alloc json tokens index done_before of
             None \<Rightarrow> None
           | Some a \<Rightarrow> parse_artifacts alloc json tokens end_at (token_next tokens index) (done_before @ [a]))"
  by pat_completeness auto
termination
  by (relation "measure (\<lambda>(al, json, tokens, e, index, d). length tokens - index)")
     (auto simp: token_next_measure)

declare parse_artifacts.simps [simp del]

definition contract_parse :: "(nat \<Rightarrow> bool) \<Rightarrow> string option \<Rightarrow> contract option" where
  "contract_parse alloc input =
     (case input of
        None \<Rightarrow> None
      | Some json \<Rightarrow>
          (case parse_json json 512 of
             None \<Rightarrow> None
           | Some tokens \<Rightarrow>
               let root = (case object_value json tokens 0 ''runtime_contract'' of None \<Rightarrow> 0 | Some r \<Rightarrow> r);
                   field = (\<lambda>key. object_value json tokens root key)
               in case (field ''schema_version'', field ''adapter_id'', field ''package_id'', field ''release_id'',
                        field ''package_digest'', field ''runtime_capability_version'', field ''artifacts'') of
                    (Some schema, Some adapter, Some package, Some release, Some digest, Some capability, Some arts) \<Rightarrow>
                      if jt_size (tokens ! root) \<noteq> 14 then None
                      else (case (parse_token_integer json (tokens ! schema), copy_identifier json (tokens ! adapter) 96,
                                  copy_identifier json (tokens ! package) 96, copy_identifier json (tokens ! release) 96,
                                  copy_identifier json (tokens ! digest) 65, parse_token_integer json (tokens ! capability)) of
                              (Some sv, Some ad, Some pk, Some rl, Some dg, Some cap) \<Rightarrow>
                                if sv \<noteq> 2 \<or> ad \<noteq> ''gb_mobile_v2'' \<or> \<not> lower_sha256 dg \<or> cap < 2 \<or> 3 < cap \<or>
                                   jt_kind (tokens ! arts) \<noteq> TkArray then None
                                else map_option (\<lambda>as. \<lparr>co_adapter = ad, co_package = pk, co_release = rl,
                                                      co_digest = dg, co_capability = cap, co_artifacts = as\<rparr>)
                                       (parse_artifacts alloc json tokens (jt_end (tokens ! arts)) (arts + 1) [])
                            | _ \<Rightarrow> None)
                  | _ \<Rightarrow> None))"

section \<open>Writing the manifest\<close>

datatype dir_entry = RegularFile bytes | SymbolicLink | OtherFile

type_synonym directory = "string \<Rightarrow> dir_entry option"

datatype write_outcome = Refused | CutAt nat | Stored

text \<open>
  A file is opened without following a link, made empty and private, written and closed; the result
  says whether all of that worked.
\<close>

definition put_private_file :: "(string \<Rightarrow> write_outcome) \<Rightarrow> string \<Rightarrow> bytes \<Rightarrow> directory \<Rightarrow> directory \<times> bool" where
  "put_private_file outcome path content fs =
     (if fs path = Some SymbolicLink \<or> fs path = Some OtherFile then (fs, False)
      else case outcome path of
             Refused \<Rightarrow> (fs, False)
           | CutAt n \<Rightarrow> (fs(path \<mapsto> RegularFile (take n content)), False)
           | Stored \<Rightarrow> (fs(path \<mapsto> RegularFile content), True))"

abbreviation "NEWLINE \<equiv> CHR 0x0A"

definition safe_component :: "string \<Rightarrow> bool" where
  "safe_component s \<longleftrightarrow> s \<noteq> [] \<and> find_text ''..'' s = None \<and> CHR ''/'' \<notin> set s \<and> BACKSLASH \<notin> set s"

definition two_digits :: "nat \<Rightarrow> string" where
  "two_digits i = (if i < 10 then CHR ''0'' # dec i else dec i)"

definition artifact_path :: "string \<Rightarrow> nat \<Rightarrow> string" where
  "artifact_path dir i = copy_text 1024 (dir @ ''/artifact-'' @ two_digits i @ ''.bin'')"

definition manifest_head :: "contract \<Rightarrow> string" where
  "manifest_head c =
     ''schema=2'' @ [NEWLINE] @ ''adapter='' @ co_adapter c @ [NEWLINE] @ ''package='' @ co_package c @ [NEWLINE] @
     ''release='' @ co_release c @ [NEWLINE] @ ''package_digest='' @ co_digest c @ [NEWLINE] @
     ''runtime_capability='' @ dec_int (co_capability c) @ [NEWLINE] @
     ''artifact_count='' @ dec (length (co_artifacts c)) @ [NEWLINE]"

definition artifact_lines :: "nat \<Rightarrow> string \<Rightarrow> artifact \<Rightarrow> string" where
  "artifact_lines i path a =
     ''artifact.'' @ dec i @ ''.role='' @ ar_role a @ [NEWLINE] @
     ''artifact.'' @ dec i @ ''.content_id='' @ ar_content_id a @ [NEWLINE] @
     ''artifact.'' @ dec i @ ''.path='' @ path @ [NEWLINE] @
     ''artifact.'' @ dec i @ ''.size='' @ dec (length (ar_data a)) @ [NEWLINE] @
     ''artifact.'' @ dec i @ ''.sha256='' @ ar_sha256 a @ [NEWLINE]"

text \<open>The loop over the artifacts: the directory, the manifest's text so far and whether to go on.\<close>

fun write_artifacts ::
  "(string \<Rightarrow> write_outcome) \<Rightarrow> string \<Rightarrow> nat \<Rightarrow> artifact list \<Rightarrow> directory \<times> string \<Rightarrow> directory \<times> string \<times> bool" where
  "write_artifacts outcome dir i [] (fs, text) = (fs, text, True)"
| "write_artifacts outcome dir i (a # as) (fs, text) =
     (case put_private_file outcome (artifact_path dir i) (ar_data a) fs of
        (fs1, False) \<Rightarrow> (fs1, text, False)
      | (fs1, True) \<Rightarrow>
          write_artifacts outcome dir (i + 1) as (fs1, text @ artifact_lines i (artifact_path dir i) a))"

text \<open>
  The manifest is opened first, and so made empty, and its text reaches the disk when it is closed.
\<close>

definition write_manifest ::
  "(string \<Rightarrow> write_outcome) \<Rightarrow> contract \<Rightarrow> string \<Rightarrow> string \<Rightarrow> directory \<Rightarrow> directory \<times> bool" where
  "write_manifest outcome c dir path fs =
     (if \<not> safe_component (co_package c) \<or> \<not> safe_component (co_release c) then (fs, False)
      else if fs path = Some SymbolicLink \<or> fs path = Some OtherFile \<or> outcome path = Refused then (fs, False)
      else case write_artifacts outcome dir 0 (co_artifacts c) (fs(path \<mapsto> RegularFile []), manifest_head c) of
             (fs1, text, ok) \<Rightarrow>
               (case put_private_file outcome path (text_bytes text) fs1 of
                  (fs2, stored) \<Rightarrow> (fs2, ok \<and> stored)))"

section \<open>Loading the manifest\<close>

record manifest_artifact =
  ma_role :: string
  ma_content_id :: string
  ma_path :: string
  ma_sha256 :: string
  ma_size :: nat

record session_manifest =
  sm_adapter :: string
  sm_package :: string
  sm_release :: string
  sm_digest :: string
  sm_capability :: nat
  sm_artifacts :: "manifest_artifact list"
  sm_count :: nat

definition no_artifact :: manifest_artifact where
  "no_artifact = \<lparr>ma_role = [], ma_content_id = [], ma_path = [], ma_sha256 = [], ma_size = 0\<rparr>"

definition empty_manifest :: session_manifest where
  "empty_manifest = \<lparr>sm_adapter = [], sm_package = [], sm_release = [], sm_digest = [], sm_capability = 0,
     sm_artifacts = replicate MAX_ARTIFACTS no_artifact, sm_count = 0\<rparr>"

definition is_identifier :: "string \<Rightarrow> bool" where
  "is_identifier s \<longleftrightarrow> s \<noteq> [] \<and> length s < 96 \<and> list_all ident_char s"

definition parse_size :: "string \<Rightarrow> nat option" where
  "parse_size s =
     (case c_strtoul s of
        (v, rest, range_error) \<Rightarrow> if range_error \<or> rest \<noteq> [] \<or> MAX_ARTIFACT_SIZE < v then None else Some v)"

definition assign_text :: "nat \<Rightarrow> string \<Rightarrow> string option" where
  "assign_text n s = (if n \<le> length s then None else Some s)"

definition assign_field :: "string \<Rightarrow> string \<Rightarrow> manifest_artifact \<Rightarrow> manifest_artifact option" where
  "assign_field field v a =
     (if field = ''role'' then map_option (\<lambda>s. a\<lparr>ma_role := s\<rparr>) (assign_text 96 v)
      else if field = ''content_id'' then map_option (\<lambda>s. a\<lparr>ma_content_id := s\<rparr>) (assign_text 96 v)
      else if field = ''path'' then map_option (\<lambda>s. a\<lparr>ma_path := s\<rparr>) (assign_text 1024 v)
      else if field = ''size'' then map_option (\<lambda>n. a\<lparr>ma_size := n\<rparr>) (parse_size v)
      else if field = ''sha256'' then map_option (\<lambda>s. a\<lparr>ma_sha256 := s\<rparr>) (assign_text 65 v)
      else None)"

text \<open>What the loop keeps: the manifest, the declared count and whether the schema was right.\<close>

type_synonym load_state = "session_manifest \<times> nat option \<times> bool"

definition load_line :: "string \<Rightarrow> load_state \<Rightarrow> load_state option" where
  "load_line line state =
     (case state of (m, declared, schema) \<Rightarrow>
        if CHR ''='' \<notin> set line then None
        else let key = takeWhile (\<lambda>c. c \<noteq> CHR ''='') line; v = drop (length key + 1) line
             in if key = ''schema'' then Some (m, declared, v = ''2'')
                else if key = ''adapter'' then map_option (\<lambda>s. (m\<lparr>sm_adapter := s\<rparr>, declared, schema)) (assign_text 96 v)
                else if key = ''package'' then map_option (\<lambda>s. (m\<lparr>sm_package := s\<rparr>, declared, schema)) (assign_text 96 v)
                else if key = ''release'' then map_option (\<lambda>s. (m\<lparr>sm_release := s\<rparr>, declared, schema)) (assign_text 96 v)
                else if key = ''package_digest''
                then map_option (\<lambda>s. (m\<lparr>sm_digest := s\<rparr>, declared, schema)) (assign_text 65 v)
                else if key = ''runtime_capability''
                then (case parse_size v of
                        None \<Rightarrow> None
                      | Some n \<Rightarrow> if n < 2 \<or> 3 < n then None else Some (m\<lparr>sm_capability := n\<rparr>, declared, schema))
                else if key = ''artifact_count''
                then (case parse_size v of
                        None \<Rightarrow> None
                      | Some n \<Rightarrow> if MAX_ARTIFACTS < n then None else Some (m\<lparr>sm_count := n\<rparr>, Some n, schema))
                else if take 9 key = ''artifact.''
                then let rest = drop 9 key; number = takeWhile (\<lambda>c. c \<noteq> CHR ''.'') rest
                     in if CHR ''.'' \<notin> set rest then None
                        else (case parse_size number of
                                None \<Rightarrow> None
                              | Some i \<Rightarrow>
                                  if MAX_ARTIFACTS \<le> i then None
                                  else map_option (\<lambda>a. (m\<lparr>sm_artifacts := (sm_artifacts m)[i := a]\<rparr>, declared, schema))
                                         (assign_field (drop (length number + 1) rest) v (sm_artifacts m ! i)))
                else None)"

text \<open>
  The lines as \<open>fgets\<close> gives them: one that does not fit, has no newline or holds a zero octet ends the
  loading.
\<close>

function load_lines :: "string \<Rightarrow> load_state \<Rightarrow> load_state option" where
  "load_lines text state =
     (if text = [] then Some state
      else let line = takeWhile (\<lambda>c. c \<noteq> NEWLINE) text
           in if length line = length text \<or> 1399 \<le> length line \<or> CHR 0x00 \<in> set line then None
              else case load_line line state of
                     None \<Rightarrow> None
                   | Some state' \<Rightarrow> load_lines (drop (length line + 1) text) state')"
  by pat_completeness auto
termination
  by (relation "measure (\<lambda>(text, state). length text)") auto

declare load_lines.simps [simp del]

text \<open>\<open>read_hash\<close> feeds the file to the hash in pieces of 8192 octets.\<close>

function pieces :: "nat \<Rightarrow> bytes \<Rightarrow> bytes list" where
  "pieces n bs = (if n = 0 \<or> bs = [] then [] else take n bs # pieces n (drop n bs))"
  by pat_completeness auto
termination
  by (relation "measure (\<lambda>(n, bs). length bs)") auto

declare pieces.simps [simp del]

definition read_hash :: "directory \<Rightarrow> string \<Rightarrow> nat \<Rightarrow> string option" where
  "read_hash fs path expected_size =
     (case fs path of
        Some (RegularFile content) \<Rightarrow>
          if length content \<noteq> expected_size then None
          else Some (sha256_hex (sha256_finish (foldl sha256_update sha256_init (pieces 8192 content))))
      | _ \<Rightarrow> None)"

definition inside_directory :: "string \<Rightarrow> string \<Rightarrow> bool" where
  "inside_directory dir path \<longleftrightarrow>
     path \<noteq> [] \<and> find_text ''..'' path = None \<and> take (length dir) path = dir \<and> length dir < length path \<and>
     (path ! length dir = CHR ''/'' \<or> path ! length dir = BACKSLASH) \<and>
     CHR ''/'' \<notin> set (drop (length dir + 1) path) \<and> BACKSLASH \<notin> set (drop (length dir + 1) path)"

text \<open>The last loop; \<open>checked\<close> are the artifacts before, \<open>size_before\<close> their sizes.\<close>

fun check_artifacts :: "directory \<Rightarrow> string \<Rightarrow> manifest_artifact list \<Rightarrow> nat \<Rightarrow> manifest_artifact list \<Rightarrow> bool" where
  "check_artifacts fs dir checked size_before [] \<longleftrightarrow> True"
| "check_artifacts fs dir checked size_before (a # as) \<longleftrightarrow>
     is_identifier (ma_role a) \<and> is_identifier (ma_content_id a) \<and> lower_sha256 (ma_sha256 a) \<and>
     inside_directory dir (ma_path a) \<and>
     \<not> list_ex (\<lambda>p. ma_role p = ma_role a \<or> ma_content_id p = ma_content_id a) checked \<and>
     read_hash fs (ma_path a) (ma_size a) = Some (ma_sha256 a) \<and>
     size_before + ma_size a \<le> MAX_TOTAL_SIZE \<and>
     check_artifacts fs dir (checked @ [a]) (size_before + ma_size a) as"

definition bytes_chars :: "bytes \<Rightarrow> string" where
  "bytes_chars bs = map (\<lambda>b. char_of (unat b)) bs"

text \<open>The octets are what reading the manifest gives, None if it does not open or reading it fails.\<close>

definition manifest_load :: "bytes option \<Rightarrow> string \<Rightarrow> directory \<Rightarrow> session_manifest option" where
  "manifest_load content path fs =
     (case content of
        None \<Rightarrow> None
      | Some bs \<Rightarrow>
          (case load_lines (bytes_chars bs) (empty_manifest, None, False) of
             None \<Rightarrow> None
           | Some (m, declared, schema) \<Rightarrow>
               if \<not> schema \<or> declared = None \<or> sm_adapter m \<noteq> ''gb_mobile_v2'' \<or> \<not> is_identifier (sm_package m) \<or>
                  \<not> is_identifier (sm_release m) \<or> \<not> lower_sha256 (sm_digest m) \<or> sm_capability m < 2 \<or>
                  3 < sm_capability m \<or> 1024 \<le> length path
               then None
               else (case cut_last (CHR ''/'') path of
                       None \<Rightarrow> None
                     | Some dir \<Rightarrow>
                         if check_artifacts fs dir [] 0 (take (sm_count m) (sm_artifacts m)) then Some m else None)))"

section \<open>Accepted contracts\<close>

definition artifact_ok :: "artifact \<Rightarrow> bool" where
  "artifact_ok a \<longleftrightarrow> is_identifier (ar_role a) \<and> is_identifier (ar_content_id a) \<and> lower_sha256 (ar_sha256 a) \<and>
     ar_sha256 a = sha256_hex (content_sha256 (ar_data a)) \<and> length (ar_data a) \<le> MAX_ARTIFACT_SIZE"

definition artifacts_ok :: "artifact list \<Rightarrow> bool" where
  "artifacts_ok as \<longleftrightarrow> list_all artifact_ok as \<and> distinct (map ar_role as) \<and> distinct (map ar_content_id as) \<and>
     length as \<le> MAX_ARTIFACTS \<and> total_size as \<le> MAX_TOTAL_SIZE"

definition contract_ok :: "contract \<Rightarrow> bool" where
  "contract_ok c \<longleftrightarrow> co_adapter c = ''gb_mobile_v2'' \<and> is_identifier (co_package c) \<and> is_identifier (co_release c) \<and>
     lower_sha256 (co_digest c) \<and> 2 \<le> co_capability c \<and> co_capability c \<le> 3 \<and> artifacts_ok (co_artifacts c)"

text \<open>A string token lies within the text.\<close>

definition strings_inside :: "string \<Rightarrow> json_token list \<Rightarrow> bool" where
  "strings_inside text tokens \<longleftrightarrow> list_all (\<lambda>t. jt_kind t = TkString \<longrightarrow>
     int (jt_start t) \<le> jt_end t \<and> jt_end t \<le> int (length text)) tokens"

declare scan_json_string.simps [simp del]

lemma scan_json_string_inside: "scan_json_string json pos = Some q \<Longrightarrow> pos \<le> q \<and> q < length json"
proof (induction json pos rule: scan_json_string.induct)
  case (1 json pos)
  let ?bad = "length json \<le> pos + 1 \<or> json ! (pos + 1) \<notin> set ([DQUOTE, BACKSLASH] @ ''/bfnrt'')"
  note eq = "1.prems" [unfolded scan_json_string.simps [of json pos]]
  show ?case
  proof (cases "length json \<le> pos \<or> json ! pos = DQUOTE \<or> json ! pos < CHR 0x20")
    case True
    with eq show ?thesis by (simp only: if_True if_False split: if_split_asm) simp_all
  next
    case False
    then have inside: "\<not> length json \<le> pos" "json ! pos \<noteq> DQUOTE" "\<not> json ! pos < CHR 0x20" by blast+
    show ?thesis
    proof (cases "json ! pos = BACKSLASH")
      case True
      have "\<not> ?bad" "scan_json_string json (pos + 2) = Some q"
        using eq inside True by (simp_all only: if_True if_False split: if_split_asm) simp_all
      from "1.IH"(1) [OF inside True this] show ?thesis by linarith
    next
      case False
      have "scan_json_string json (pos + 1) = Some q"
        using eq inside False by (simp only: if_True if_False)
      from "1.IH"(2) [OF inside False this] show ?thesis by linarith
    qed
  qed
qed

lemma strings_inside_update:
  assumes "strings_inside json tokens" "jt_kind t = jt_kind (tokens ! i)"
    "jt_kind t = TkString \<Longrightarrow> jt_start t = jt_start (tokens ! i) \<and> jt_end t = jt_end (tokens ! i)"
  shows "strings_inside json (tokens[i := t])"
  unfolding strings_inside_def list_all_length
proof (intro allI impI)
  fix n
  assume n: "n < length (tokens[i := t])" "jt_kind (tokens[i := t] ! n) = TkString"
  then show "int (jt_start (tokens[i := t] ! n)) \<le> jt_end (tokens[i := t] ! n) \<and>
      jt_end (tokens[i := t] ! n) \<le> int (length json)"
    using assms by (cases "n = i") (auto simp: strings_inside_def list_all_length)
qed

lemma strings_inside_child: "strings_inside json tokens \<Longrightarrow> strings_inside json (count_child (tokens, parent))"
  by (simp add: count_child_def strings_inside_update)

lemma json_step_inside:
  assumes "json_step json count pos (tokens, parent) = Some (pos', tokens', parent')" "strings_inside json tokens"
  shows "strings_inside json tokens'"
proof -
  have added: "strings_inside json (count_child (tokens, p) @ [t])"
    if "jt_kind t = TkString \<Longrightarrow> int (jt_start t) \<le> jt_end t \<and> jt_end t \<le> int (length json)" for t p
    using strings_inside_child [OF assms(2), of p] that by (simp add: strings_inside_def)
  have close: "strings_inside json (tokens[nat parent := (tokens ! nat parent)\<lparr>jt_end := e\<rparr>])"
    if "jt_kind (tokens ! nat parent) \<noteq> TkString" for e
    using that by (intro strings_inside_update [OF assms(2)]) simp_all
  show ?thesis
    using assms
    by (auto simp: json_step_def Let_def dest!: scan_json_string_inside split: if_splits option.splits
        intro!: added close)
qed

lemma json_loop_inside:
  "json_loop fuel json count pos (tokens, parent) = Some (tokens', parent') \<Longrightarrow> strings_inside json tokens \<Longrightarrow>
   strings_inside json tokens'"
proof (induction fuel arbitrary: pos tokens parent)
  case 0
  then show ?case by (auto split: if_splits)
next
  case (Suc fuel)
  show ?case
  proof (cases "length json \<le> pos")
    case True
    then show ?thesis using Suc.prems by simp
  next
    case False
    then obtain pos1 tokens1 parent1 where one: "json_step json count pos (tokens, parent) = Some (pos1, tokens1, parent1)"
      using Suc.prems(1) by (cases "json_step json count pos (tokens, parent)") auto
    then have "json_loop fuel json count pos1 (tokens1, parent1) = Some (tokens', parent')"
      using Suc.prems(1) False by simp
    then show ?thesis using Suc.IH json_step_inside [OF one Suc.prems(2)] by blast
  qed
qed

lemma parse_json_inside: "parse_json json count = Some tokens \<Longrightarrow> strings_inside json tokens"
  using json_loop_inside [of "length json" json count 0 "[]" "- 1" tokens "- 1"]
  by (auto simp: parse_json_def strings_inside_def split: option.splits if_splits)

lemma copy_identifier_ok:
  assumes "copy_identifier json (tokens ! i) n = Some s" "strings_inside json tokens" "i < length tokens"
  shows "list_all ident_char s \<and> length s < n \<and> s \<noteq> []"
proof -
  let ?t = "tokens ! i"
  have s: "s = json_token_text json ?t" "list_all ident_char s" "jt_kind ?t = TkString"
    "0 < jt_end ?t - int (jt_start ?t)" "jt_end ?t - int (jt_start ?t) < int n"
    using assms(1) by (auto simp: copy_identifier_def Let_def split: if_splits)
  have "jt_end ?t \<le> int (length json)"
    using assms(2,3) s(3) by (auto simp: strings_inside_def list_all_length)
  then have "length s = nat (jt_end ?t) - jt_start ?t"
    using s(1,4) by (simp add: json_token_text_def)
  then show ?thesis using s(2,4,5) by auto
qed

lemma find_member_in: "find_member json tokens object key index = Some v \<Longrightarrow> v < length tokens"
  by (induction json tokens object key index rule: find_member.induct)
     (subst (asm) (2) find_member.simps, auto split: if_splits)

lemma object_value_in: "object_value json tokens object key = Some v \<Longrightarrow> v < length tokens"
  by (auto simp: object_value_def dest: find_member_in split: if_splits)

lemma parse_artifact_ok:
  assumes "parse_artifact alloc json tokens index before = Some a" "strings_inside json tokens"
  shows "artifact_ok a \<and> ar_role a \<notin> set (map ar_role before) \<and> ar_content_id a \<notin> set (map ar_content_id before) \<and>
     length before < MAX_ARTIFACTS \<and> total_size before + length (ar_data a) \<le> MAX_TOTAL_SIZE"
proof -
  obtain role cid sz hash data r c h n bs where parts:
    "object_value json tokens index ''role'' = Some role" "object_value json tokens index ''content_id'' = Some cid"
    "object_value json tokens index ''sha256'' = Some hash"
    "copy_identifier json (tokens ! role) 96 = Some r" "copy_identifier json (tokens ! cid) 96 = Some c"
    "lower_sha256 h" "0 \<le> n" "n \<le> int MAX_ARTIFACT_SIZE" "\<not> list_ex (\<lambda>p. ar_role p = r \<or> ar_content_id p = c) before"
    "decode_base64 json (tokens ! data) (nat n) = Some bs" "length bs = nat n"
    "sha256_hex (content_sha256 bs) = h" "total_size before + nat n \<le> MAX_TOTAL_SIZE"
    "length before < MAX_ARTIFACTS"
    "a = \<lparr>ar_role = r, ar_content_id = c, ar_sha256 = h, ar_data = bs\<rparr>"
    using assms(1)
    by (auto simp: parse_artifact_def not_le not_less split: if_splits option.splits)
  have "is_identifier r" "is_identifier c"
    using copy_identifier_ok [OF parts(4) assms(2) object_value_in [OF parts(1)]]
      copy_identifier_ok [OF parts(5) assms(2) object_value_in [OF parts(2)]]
    by (auto simp: is_identifier_def)
  then show ?thesis
    using parts by (auto simp: artifact_ok_def list_ex_iff)
qed

lemma artifacts_ok_snoc:
  assumes "artifacts_ok as" "artifact_ok a" "ar_role a \<notin> set (map ar_role as)"
    "ar_content_id a \<notin> set (map ar_content_id as)" "length as < MAX_ARTIFACTS"
    "total_size as + length (ar_data a) \<le> MAX_TOTAL_SIZE"
  shows "artifacts_ok (as @ [a])"
  using assms by (simp add: artifacts_ok_def total_size_def)

lemma parse_artifacts_ok:
  "parse_artifacts alloc json tokens end_at index before = Some as \<Longrightarrow> strings_inside json tokens \<Longrightarrow>
   artifacts_ok before \<Longrightarrow> artifacts_ok as"
proof (induction alloc json tokens end_at index before rule: parse_artifacts.induct)
  case (1 alloc json tokens end_at index before)
  show ?case
  proof (cases "index < length tokens \<and> int (jt_start (tokens ! index)) < end_at")
    case False
    then show ?thesis using "1.prems"(1,3) by (subst (asm) parse_artifacts.simps) auto
  next
    case True
    then obtain a where a: "parse_artifact alloc json tokens index before = Some a"
      using "1.prems"(1) by (subst (asm) parse_artifacts.simps) (auto split: option.splits)
    have run: "parse_artifacts alloc json tokens end_at (token_next tokens index) (before @ [a]) = Some as"
      using "1.prems"(1) True a by (subst (asm) parse_artifacts.simps) simp
    have "artifacts_ok (before @ [a])"
      using parse_artifact_ok [OF a "1.prems"(2)] artifacts_ok_snoc "1.prems"(3) by blast
    then show ?thesis using "1.IH" [OF _ a run "1.prems"(2)] True by blast
  qed
qed

lemma contract_parse_ok:
  assumes "contract_parse alloc input = Some c"
  shows "contract_ok c"
proof -
  obtain json tokens root schema adapter package release digest capability arts sv pk rl dg cap as where parts:
    "parse_json json 512 = Some tokens"
    "object_value json tokens root ''package_id'' = Some package"
    "object_value json tokens root ''release_id'' = Some release"
    "copy_identifier json (tokens ! package) 96 = Some pk" "copy_identifier json (tokens ! release) 96 = Some rl"
    "lower_sha256 dg" "2 \<le> cap" "cap \<le> 3"
    "parse_artifacts alloc json tokens (jt_end (tokens ! arts)) (arts + 1) [] = Some as"
    "c = \<lparr>co_adapter = ''gb_mobile_v2'', co_package = pk, co_release = rl, co_digest = dg, co_capability = cap,
          co_artifacts = as\<rparr>"
    using assms by (auto simp: contract_parse_def Let_def not_less split: if_splits option.splits)
  have inside: "strings_inside json tokens" by (rule parse_json_inside [OF parts(1)])
  have "is_identifier pk" "is_identifier rl"
    using copy_identifier_ok [OF parts(4) inside object_value_in [OF parts(2)]]
      copy_identifier_ok [OF parts(5) inside object_value_in [OF parts(3)]]
    by (auto simp: is_identifier_def)
  moreover have "artifacts_ok as"
    by (rule parse_artifacts_ok [OF parts(9) inside]) (simp add: artifacts_ok_def total_size_def)
  ultimately show ?thesis using parts by (simp add: contract_ok_def)
qed

section \<open>What a loaded manifest says\<close>

lemma concat_pieces: "0 < n \<Longrightarrow> concat (pieces n bs) = bs"
proof (induction n bs rule: pieces.induct)
  case (1 n bs)
  then show ?case by (cases "bs = []") (simp_all add: pieces.simps [of n bs] pieces.simps [of n "[]"])
qed

lemma read_hash_content:
  "read_hash fs path n = Some h \<longleftrightarrow>
   (\<exists>content. fs path = Some (RegularFile content) \<and> length content = n \<and> h = sha256_hex (content_sha256 content))"
proof -
  have "sha256_finish (foldl sha256_update sha256_init (pieces 8192 content)) = content_sha256 content" for content
    using sha256_finish_repr [OF sha256_updates_repr [OF sha_repr_init, of "pieces 8192 content"]]
    by (simp add: content_sha256_spec concat_pieces)
  then show ?thesis by (auto simp: read_hash_def split: option.splits dir_entry.splits)
qed

lemma cut_last_append: "c \<notin> set ys \<Longrightarrow> cut_last c (xs @ c # ys) = Some xs"
proof -
  assume "c \<notin> set ys"
  then have "dropWhile (\<lambda>x. x \<noteq> c) (rev ys @ c # rev xs) = c # rev xs"
    by (subst dropWhile_append2) auto
  then show ?thesis by (simp add: cut_last_def)
qed

lemma cut_last_Some: "cut_last c s = Some xs \<Longrightarrow> \<exists>ys. s = xs @ c # ys \<and> c \<notin> set ys"
proof -
  assume cut: "cut_last c s = Some xs"
  then obtain as bs where s: "s = as @ c # bs" "c \<notin> set bs"
    by (metis cut_last_def option.distinct(1) split_list_last)
  then show ?thesis using cut cut_last_append [OF s(2), of as] by auto
qed

text \<open>
  A file of the directory: what is left of its path at the last slash is the directory. A backslash
  after the directory's path is accepted as well; where it is no separator, such a path names a file
  beside the directory, whose path at the last slash is that of the directory itself.
\<close>

definition path_in :: "string \<Rightarrow> string \<Rightarrow> bool" where
  "path_in dir path \<longleftrightarrow> cut_last (CHR ''/'') path = Some dir \<and> BACKSLASH \<notin> set (drop (length dir) path)"

definition path_beside :: "string \<Rightarrow> string \<Rightarrow> bool" where
  "path_beside dir path \<longleftrightarrow> take (length dir + 1) path = dir @ [BACKSLASH] \<and>
     CHR ''/'' \<notin> set (drop (length dir) path) \<and> BACKSLASH \<notin> set (drop (length dir + 1) path) \<and>
     cut_last (CHR ''/'') path = cut_last (CHR ''/'') dir"

lemma cut_last_none: "c \<notin> set s \<Longrightarrow> cut_last c s = None"
  by (simp add: cut_last_def)

lemma cut_last_beyond: "c \<notin> set ys \<Longrightarrow> cut_last c (xs @ ys) = cut_last c xs"
proof (cases "c \<in> set xs")
  case True
  then obtain as bs where "xs = as @ c # bs" "c \<notin> set bs" using split_list_last by metis
  moreover assume "c \<notin> set ys"
  ultimately show ?thesis using cut_last_append [of c "bs @ ys" as] cut_last_append [of c bs as] by simp
qed (simp add: cut_last_none)

lemma inside_directory_path:
  assumes "inside_directory dir path"
  shows "path_in dir path \<or> path_beside dir path"
proof -
  define separator name where "separator = path ! length dir" and "name = drop (length dir + 1) path"
  have path: "path = dir @ separator # name"
    using assms append_take_drop_id [of "length dir" path] Cons_nth_drop_Suc [of "length dir" path]
    by (simp add: inside_directory_def separator_def name_def)
  have name: "CHR ''/'' \<notin> set name" "BACKSLASH \<notin> set name"
    and "separator = CHR ''/'' \<or> separator = BACKSLASH"
    using assms by (auto simp: inside_directory_def separator_def name_def)
  then consider "separator = CHR ''/''" | "separator = BACKSLASH" by blast
  then show ?thesis
  proof cases
    case 1
    then show ?thesis using name cut_last_append [OF name(1), of dir] path
      by (simp add: path_in_def)
  next
    case 2
    then have "CHR ''/'' \<notin> set (separator # name)" using name by simp
    then show ?thesis using name cut_last_beyond [of _ "separator # name" dir] path 2
      by (simp add: path_beside_def)
  qed
qed

text \<open>The second does happen: a file beside the directory \<open>s\<close> passes and is not in it.\<close>

lemma backslash_accepted:
  "inside_directory ''s'' (''s'' @ BACKSLASH # ''x'') \<and> path_beside ''s'' (''s'' @ BACKSLASH # ''x'') \<and>
   \<not> path_in ''s'' (''s'' @ BACKSLASH # ''x'')"
  by code_simp

definition listed_ok :: "directory \<Rightarrow> string \<Rightarrow> manifest_artifact \<Rightarrow> bool" where
  "listed_ok fs dir a \<longleftrightarrow> (path_in dir (ma_path a) \<or> path_beside dir (ma_path a)) \<and>
     is_identifier (ma_role a) \<and> is_identifier (ma_content_id a) \<and>
     (\<exists>content. fs (ma_path a) = Some (RegularFile content) \<and> length content = ma_size a \<and>
                ma_sha256 a = sha256_hex (content_sha256 content))"

lemma check_artifacts_ok:
  "check_artifacts fs dir checked n as \<Longrightarrow> distinct (map ma_role checked) \<Longrightarrow> distinct (map ma_content_id checked) \<Longrightarrow>
   n \<le> MAX_TOTAL_SIZE \<Longrightarrow>
   list_all (listed_ok fs dir) as \<and> distinct (map ma_role (checked @ as)) \<and>
   distinct (map ma_content_id (checked @ as)) \<and> n + sum_list (map ma_size as) \<le> MAX_TOTAL_SIZE"
proof (induction as arbitrary: checked n)
  case (Cons a as)
  have one: "listed_ok fs dir a" "ma_role a \<notin> set (map ma_role checked)" "ma_content_id a \<notin> set (map ma_content_id checked)"
    "n + ma_size a \<le> MAX_TOTAL_SIZE" "check_artifacts fs dir (checked @ [a]) (n + ma_size a) as"
    using Cons.prems(1) inside_directory_path [of dir "ma_path a"]
    by (auto simp: listed_ok_def read_hash_content list_ex_iff)
  have "list_all (listed_ok fs dir) as \<and> distinct (map ma_role ((checked @ [a]) @ as)) \<and>
     distinct (map ma_content_id ((checked @ [a]) @ as)) \<and> n + ma_size a + sum_list (map ma_size as) \<le> MAX_TOTAL_SIZE"
    using Cons.prems(2,3) one by (intro Cons.IH) auto
  then show ?case using one(1) by simp
qed simp

section \<open>Writing and loading\<close>

lemma takeWhile_until: "x \<notin> set xs \<Longrightarrow> takeWhile (\<lambda>c. c \<noteq> x) (xs @ x # ys) = xs"
  by (induction xs) auto

lemma load_lines_step:
  assumes "NEWLINE \<notin> set line" "CHR 0x00 \<notin> set line" "length line < 1399"
  shows "load_lines (line @ NEWLINE # rest) state =
           (case load_line line state of None \<Rightarrow> None | Some state' \<Rightarrow> load_lines rest state')"
proof -
  have "takeWhile (\<lambda>c. c \<noteq> NEWLINE) (line @ NEWLINE # rest) = line"
    using assms(1) by (rule takeWhile_until)
  then show ?thesis
    using assms by (subst load_lines.simps) (cases "load_line line state"; simp add: Let_def)
qed

lemma load_lines_end [simp]: "load_lines [] state = Some state"
  by (simp add: load_lines.simps)

lemma key_value:
  assumes "CHR ''='' \<notin> set key"
  shows "takeWhile (\<lambda>c. c \<noteq> CHR ''='') (key @ CHR ''='' # v) = key" "CHR ''='' \<in> set (key @ CHR ''='' # v)"
    "drop (length key + 1) (key @ CHR ''='' # v) = v"
  using assms takeWhile_until [OF assms] by auto

text \<open>Characters that may stand in a line.\<close>

definition line_char :: "char \<Rightarrow> bool" where
  "line_char c \<longleftrightarrow> c \<noteq> NEWLINE \<and> c \<noteq> CHR 0x00"

lemma line_char_classes: "ident_char c \<Longrightarrow> line_char c" "c_isdigit c \<Longrightarrow> line_char c"
  "c_isdigit c \<or> CHR ''a'' \<le> c \<and> c \<le> CHR ''f'' \<Longrightarrow> line_char c"
  by (auto simp: line_char_def ident_char_def c_isdigit_def c_islower_def less_eq_char_def)

lemma load_line_key:
  assumes "CHR ''='' \<notin> set key" "list_all line_char (key @ v)" "length key + length v < 1398"
  shows "load_lines (key @ CHR ''='' # v @ NEWLINE # rest) state =
           (case load_line (key @ CHR ''='' # v) state of None \<Rightarrow> None | Some state' \<Rightarrow> load_lines rest state')"
  using load_lines_step [of "key @ CHR ''='' # v" rest state] assms
  by (auto simp: list_all_iff line_char_def)

text \<open>The value of a number line.\<close>

lemma parse_size_dec: "n \<le> MAX_ARTIFACT_SIZE \<Longrightarrow> parse_size (dec n) = Some n"
  using strtoul_dec [of "[]" n] by (simp add: parse_size_def MAX_ARTIFACT_SIZE_def)

section \<open>Lines as pairs\<close>

text \<open>A line \<open>key=value\<close>, and a list of them as text.\<close>

definition pair_line :: "string \<times> string \<Rightarrow> string" where
  "pair_line p = fst p @ CHR ''='' # snd p @ [NEWLINE]"

definition line_pair_ok :: "string \<times> string \<Rightarrow> bool" where
  "line_pair_ok p \<longleftrightarrow> CHR ''='' \<notin> set (fst p) \<and> list_all line_char (fst p) \<and> list_all line_char (snd p) \<and>
     length (fst p) + length (snd p) < 1398"

definition load_pair :: "string \<times> string \<Rightarrow> load_state \<Rightarrow> load_state option" where
  "load_pair p state = load_line (fst p @ CHR ''='' # snd p) state"

fun load_pairs :: "(string \<times> string) list \<Rightarrow> load_state \<Rightarrow> load_state option" where
  "load_pairs [] state = Some state"
| "load_pairs (p # ps) state = (case load_pair p state of None \<Rightarrow> None | Some state' \<Rightarrow> load_pairs ps state')"

lemma load_pairs_append:
  "load_pairs (ps @ qs) state = (case load_pairs ps state of None \<Rightarrow> None | Some state' \<Rightarrow> load_pairs qs state')"
  by (induction ps arbitrary: state) (auto split: option.splits)

lemma load_lines_pairs:
  "list_all line_pair_ok ps \<Longrightarrow> load_lines (concat (map pair_line ps)) state = load_pairs ps state"
proof (induction ps arbitrary: state)
  case (Cons p ps)
  then have "CHR ''='' \<notin> set (fst p)" "list_all line_char (fst p @ snd p)" "length (fst p) + length (snd p) < 1398"
    by (auto simp: line_pair_ok_def)
  from load_line_key [OF this, of "concat (map pair_line ps)" state]
  have "load_lines (pair_line p @ concat (map pair_line ps)) state =
      (case load_pair p state of None \<Rightarrow> None | Some state' \<Rightarrow> load_lines (concat (map pair_line ps)) state')"
    by (simp only: pair_line_def load_pair_def append.simps append_assoc)
  then show ?case using Cons by (cases "load_pair p state") simp_all
qed simp

lemma load_line_pair:
  assumes "CHR ''='' \<notin> set key"
  shows "load_pair (key, v) (m, declared, schema) =
    (if key = ''schema'' then Some (m, declared, v = ''2'')
     else if key = ''adapter'' then map_option (\<lambda>s. (m\<lparr>sm_adapter := s\<rparr>, declared, schema)) (assign_text 96 v)
     else if key = ''package'' then map_option (\<lambda>s. (m\<lparr>sm_package := s\<rparr>, declared, schema)) (assign_text 96 v)
     else if key = ''release'' then map_option (\<lambda>s. (m\<lparr>sm_release := s\<rparr>, declared, schema)) (assign_text 96 v)
     else if key = ''package_digest''
     then map_option (\<lambda>s. (m\<lparr>sm_digest := s\<rparr>, declared, schema)) (assign_text 65 v)
     else if key = ''runtime_capability''
     then (case parse_size v of
             None \<Rightarrow> None
           | Some n \<Rightarrow> if n < 2 \<or> 3 < n then None else Some (m\<lparr>sm_capability := n\<rparr>, declared, schema))
     else if key = ''artifact_count''
     then (case parse_size v of
             None \<Rightarrow> None
           | Some n \<Rightarrow> if MAX_ARTIFACTS < n then None else Some (m\<lparr>sm_count := n\<rparr>, Some n, schema))
     else load_line (key @ CHR ''='' # v) (m, declared, schema))"
  using assms by (simp add: load_pair_def load_line_def Let_def takeWhile_until)

definition head_pairs :: "contract \<Rightarrow> (string \<times> string) list" where
  "head_pairs c =
     [(''schema'', ''2''), (''adapter'', co_adapter c), (''package'', co_package c), (''release'', co_release c),
      (''package_digest'', co_digest c), (''runtime_capability'', dec_int (co_capability c)),
      (''artifact_count'', dec (length (co_artifacts c)))]"

definition artifact_key :: "nat \<Rightarrow> string \<Rightarrow> string" where
  "artifact_key i field = ''artifact.'' @ dec i @ CHR ''.'' # field"

definition artifact_pairs :: "nat \<Rightarrow> string \<Rightarrow> artifact \<Rightarrow> (string \<times> string) list" where
  "artifact_pairs i path a =
     [(artifact_key i ''role'', ar_role a), (artifact_key i ''content_id'', ar_content_id a),
      (artifact_key i ''path'', path), (artifact_key i ''size'', dec (length (ar_data a))),
      (artifact_key i ''sha256'', ar_sha256 a)]"

lemma manifest_head_pairs: "manifest_head c = concat (map pair_line (head_pairs c))"
  by (simp add: manifest_head_def head_pairs_def pair_line_def)

lemma artifact_lines_pairs: "artifact_lines i path a = concat (map pair_line (artifact_pairs i path a))"
  by (simp add: artifact_lines_def artifact_pairs_def artifact_key_def pair_line_def)

lemma digits_line [simp]: "list_all line_char (dec n)"
  using line_char_classes(2) by (auto simp: list_all_iff)

lemma contract_fields:
  assumes "contract_ok c"
  shows "co_adapter c = ''gb_mobile_v2''" "length (co_package c) < 96" "length (co_release c) < 96"
    "length (co_digest c) = 64" "list_all line_char (co_package c)" "list_all line_char (co_release c)"
    "list_all line_char (co_digest c)" "length (co_artifacts c) \<le> 32"
    "dec_int (co_capability c) = dec (nat (co_capability c))" "2 \<le> nat (co_capability c)" "nat (co_capability c) \<le> 3"
  using assms by (auto simp: contract_ok_def is_identifier_def lower_sha256_def list_all_iff
      artifacts_ok_def MAX_ARTIFACTS_def dec_int_def intro: line_char_classes)

lemma head_pairs_ok:
  assumes "contract_ok c"
  shows "list_all line_pair_ok (head_pairs c)"
proof -
  note f = contract_fields [OF assms]
  have "length (dec (nat (co_capability c))) \<le> 1" "length (dec (length (co_artifacts c))) \<le> 2"
    using f(8,11) by (auto intro: length_dec)
  then show ?thesis
    using f by (simp add: head_pairs_def line_pair_ok_def line_char_def)
qed

lemma load_head:
  assumes "contract_ok c"
  shows "load_pairs (head_pairs c) (empty_manifest, None, False) =
    Some (empty_manifest\<lparr>sm_adapter := co_adapter c, sm_package := co_package c,
       sm_release := co_release c, sm_digest := co_digest c, sm_capability := nat (co_capability c),
       sm_count := length (co_artifacts c)\<rparr>, Some (length (co_artifacts c)), True)"
proof -
  note f = contract_fields [OF assms]
  have "parse_size (dec (nat (co_capability c))) = Some (nat (co_capability c))"
    "parse_size (dec (length (co_artifacts c))) = Some (length (co_artifacts c))"
    using f by (auto intro!: parse_size_dec simp: MAX_ARTIFACT_SIZE_def)
  then show ?thesis
    using f by (simp add: head_pairs_def load_line_pair assign_text_def MAX_ARTIFACTS_def)
qed

lemma load_artifact_pair:
  assumes "i < MAX_ARTIFACTS" "CHR ''='' \<notin> set field"
  shows "load_pair (artifact_key i field, v) (m, declared, schema) =
    map_option (\<lambda>a. (m\<lparr>sm_artifacts := (sm_artifacts m)[i := a]\<rparr>, declared, schema))
      (assign_field field v (sm_artifacts m ! i))"
proof -
  have digits: "CHR ''='' \<notin> set (dec i)" "CHR ''.'' \<notin> set (dec i)"
    using dec_digits [of "CHR ''=''" i] dec_digits [of "CHR ''.''" i] by (auto simp: c_isdigit_iff)
  have key: "CHR ''='' \<notin> set (artifact_key i field)"
    using digits(1) assms(2) by (simp add: artifact_key_def)
  have "parse_size (dec i) = Some i" using assms(1) by (intro parse_size_dec) (simp add: MAX_ARTIFACTS_def MAX_ARTIFACT_SIZE_def)
  moreover have "takeWhile (\<lambda>c. c \<noteq> CHR ''.'') (dec i @ CHR ''.'' # field) = dec i"
    using digits(2) by (rule takeWhile_until)
  moreover have "artifact_key i field \<noteq> k" if "take 9 k \<noteq> ''artifact.''" for k
    using that by (auto simp: artifact_key_def)
  ultimately show ?thesis
    using key assms(1)
    by (simp add: load_pair_def load_line_def Let_def takeWhile_until key_value)
       (simp add: artifact_key_def)
qed

definition loaded_artifact :: "string \<Rightarrow> artifact \<Rightarrow> manifest_artifact" where
  "loaded_artifact path a =
     \<lparr>ma_role = ar_role a, ma_content_id = ar_content_id a, ma_path = path, ma_sha256 = ar_sha256 a,
      ma_size = length (ar_data a)\<rparr>"

lemma load_artifact:
  assumes "artifact_ok a" "i < MAX_ARTIFACTS" "i < length (sm_artifacts m)" "length path < 1024"
  shows "load_pairs (artifact_pairs i path a) (m, declared, schema) =
    Some (m\<lparr>sm_artifacts := (sm_artifacts m)[i := loaded_artifact path a]\<rparr>, declared, schema)"
proof -
  have "length (ar_role a) < 96" "length (ar_content_id a) < 96" "length (ar_sha256 a) = 64"
    "parse_size (dec (length (ar_data a))) = Some (length (ar_data a))"
    using assms(1) by (auto simp: artifact_ok_def is_identifier_def lower_sha256_def parse_size_dec)
  then show ?thesis
    using assms(2-4)
    by (cases "sm_artifacts m ! i")
       (simp add: artifact_pairs_def load_artifact_pair assign_field_def assign_text_def loaded_artifact_def)
qed

lemma artifact_pairs_ok:
  assumes "artifact_ok a" "i < MAX_ARTIFACTS" "list_all line_char path" "length path < 1024"
  shows "list_all line_pair_ok (artifact_pairs i path a)"
proof -
  have a: "length (ar_role a) < 96" "length (ar_content_id a) < 96" "length (ar_sha256 a) = 64"
    "list_all line_char (ar_role a)" "list_all line_char (ar_content_id a)" "list_all line_char (ar_sha256 a)"
    "length (ar_data a) < 10 ^ 8"
    using assms(1)
    by (auto simp: artifact_ok_def is_identifier_def lower_sha256_def list_all_iff MAX_ARTIFACT_SIZE_def
        intro: line_char_classes)
  have "length (dec i) \<le> 2" "length (dec (length (ar_data a))) \<le> 8"
    using assms(2) a(7) by (auto intro!: length_dec simp: MAX_ARTIFACTS_def)
  moreover have "CHR ''='' \<notin> set (dec i)" using dec_digits [of "CHR ''=''" i] by (auto simp: c_isdigit_iff)
  ultimately show ?thesis
    using a assms(3,4) by (simp add: artifact_pairs_def line_pair_ok_def artifact_key_def line_char_def)
qed

section \<open>The artifacts' files\<close>

fun artifacts_pairs :: "string \<Rightarrow> nat \<Rightarrow> artifact list \<Rightarrow> (string \<times> string) list" where
  "artifacts_pairs dir i [] = []"
| "artifacts_pairs dir i (a # as) = artifact_pairs i (artifact_path dir i) a @ artifacts_pairs dir (i + 1) as"

fun loaded_artifacts :: "string \<Rightarrow> nat \<Rightarrow> artifact list \<Rightarrow> manifest_artifact list" where
  "loaded_artifacts dir i [] = []"
| "loaded_artifacts dir i (a # as) = loaded_artifact (artifact_path dir i) a # loaded_artifacts dir (i + 1) as"

lemma length_loaded_artifacts [simp]: "length (loaded_artifacts dir i as) = length as"
  by (induction dir i as rule: loaded_artifacts.induct) simp_all

text \<open>A directory whose artifact paths fit and hold no line end.\<close>

definition dir_ok :: "string \<Rightarrow> bool" where
  "dir_ok dir \<longleftrightarrow> length dir < 1000 \<and> list_all line_char dir \<and> find_text ''..'' dir = None"

lemma two_digits_facts:
  "digits_value (two_digits i) = i" "list_all c_isdigit (two_digits i)" "i < MAX_ARTIFACTS \<Longrightarrow> length (two_digits i) \<le> 2"
proof -
  have zero: "digit_value (CHR ''0'') = 0" "c_isdigit (CHR ''0'')" by (simp_all add: digit_value_def c_isdigit_iff)
  then have "digits_value (CHR ''0'' # dec i) = digits_value (dec i)" by (simp add: digits_value_def)
  then show "digits_value (two_digits i) = i" by (simp add: two_digits_def)
  show "list_all c_isdigit (two_digits i)" using zero by (auto simp: two_digits_def list_all_iff)
  show "length (two_digits i) \<le> 2" if "i < MAX_ARTIFACTS"
    using length_dec [of 1 i] length_dec [of 2 i] that by (auto simp: two_digits_def MAX_ARTIFACTS_def)
qed

lemma artifact_path_whole:
  assumes "dir_ok dir" "i < MAX_ARTIFACTS"
  shows "artifact_path dir i = dir @ CHR ''/'' # ''artifact-'' @ two_digits i @ ''.bin''"
    "length (artifact_path dir i) < 1024"
  using assms two_digits_facts(3) [of i] by (simp_all add: artifact_path_def dir_ok_def)

lemma artifact_path_inj:
  assumes "dir_ok dir" "i < MAX_ARTIFACTS" "j < MAX_ARTIFACTS" "artifact_path dir i = artifact_path dir j"
  shows "i = j"
proof -
  have "two_digits i = two_digits j"
    using assms(4) by (simp add: artifact_path_whole(1) [OF assms(1,2)] artifact_path_whole(1) [OF assms(1,3)])
  then show ?thesis using two_digits_facts(1) by metis
qed

lemma no_dots_append:
  "find_text ''..'' (xs @ CHR ''/'' # ys) = None \<longleftrightarrow> find_text ''..'' xs = None \<and> find_text ''..'' ys = None"
proof (induction xs)
  case (Cons x xs)
  then show ?case by (cases xs) simp_all
qed simp

lemma artifact_path_inside:
  assumes "dir_ok dir" "i < MAX_ARTIFACTS"
  shows "inside_directory dir (artifact_path dir i)" "list_all line_char (artifact_path dir i)"
proof -
  have digit: "CHR ''.'' \<notin> set (two_digits i)" "CHR ''/'' \<notin> set (two_digits i)" "BACKSLASH \<notin> set (two_digits i)"
    using two_digits_facts(2) [of i] by (auto simp: list_all_iff c_isdigit_iff)
  have "find_text ''..'' ((''artifact-'' @ two_digits i) @ ''.bin'') = None"
    using digit(1) by (subst find_text_skip) simp_all
  then have "find_text ''..'' (dir @ CHR ''/'' # ''artifact-'' @ two_digits i @ ''.bin'') = None"
    using assms(1) no_dots_append [of dir "''artifact-'' @ two_digits i @ ''.bin''"] by (simp add: dir_ok_def)
  then show "inside_directory dir (artifact_path dir i)"
    unfolding inside_directory_def artifact_path_whole(1) [OF assms] using digit(2,3) by simp
  show "list_all line_char (artifact_path dir i)"
    unfolding artifact_path_whole(1) [OF assms]
    using assms(1) two_digits_facts(2) [of i] line_char_classes(2)
    by (auto simp: dir_ok_def list_all_iff) (simp_all add: line_char_def)
qed

lemma artifacts_pairs_ok:
  "list_all artifact_ok as \<Longrightarrow> dir_ok dir \<Longrightarrow> i + length as \<le> MAX_ARTIFACTS \<Longrightarrow>
   list_all line_pair_ok (artifacts_pairs dir i as)"
  by (induction dir i as rule: artifacts_pairs.induct)
     (simp_all add: artifact_pairs_ok artifact_path_inside(2) artifact_path_whole(2))

lemma load_artifacts:
  "list_all artifact_ok as \<Longrightarrow> dir_ok dir \<Longrightarrow> i + length as \<le> MAX_ARTIFACTS \<Longrightarrow>
   length (sm_artifacts m) = MAX_ARTIFACTS \<Longrightarrow>
   load_pairs (artifacts_pairs dir i as) (m, declared, schema) =
     Some (m\<lparr>sm_artifacts := take i (sm_artifacts m) @ loaded_artifacts dir i as @
                               drop (i + length as) (sm_artifacts m)\<rparr>, declared, schema)"
proof (induction as arbitrary: i m)
  case (Cons a as)
  let ?x = "loaded_artifact (artifact_path dir i) a"
  have i: "i < MAX_ARTIFACTS" "i < length (sm_artifacts m)" using Cons.prems(3,4) by simp_all
  have one: "load_pairs (artifact_pairs i (artifact_path dir i) a) (m, declared, schema) =
      Some (m\<lparr>sm_artifacts := (sm_artifacts m)[i := ?x]\<rparr>, declared, schema)"
    using Cons.prems(1,2) i by (intro load_artifact) (simp_all add: artifact_path_whole(2))
  have "take (Suc i) ((sm_artifacts m)[i := ?x]) = take i (sm_artifacts m) @ [?x]"
    using i(2) by (simp add: take_Suc_conv_app_nth)
  moreover have "drop (Suc (i + length as)) ((sm_artifacts m)[i := ?x]) = drop (Suc (i + length as)) (sm_artifacts m)"
    by simp
  moreover have "load_pairs (artifacts_pairs dir (i + 1) as) (m\<lparr>sm_artifacts := (sm_artifacts m)[i := ?x]\<rparr>, declared, schema) =
      Some (m\<lparr>sm_artifacts := (sm_artifacts m)[i := ?x]\<rparr>\<lparr>sm_artifacts :=
        take (i + 1) ((sm_artifacts m)[i := ?x]) @ loaded_artifacts dir (i + 1) as @
        drop (i + 1 + length as) ((sm_artifacts m)[i := ?x])\<rparr>, declared, schema)"
    using Cons.IH [of "i + 1" "m\<lparr>sm_artifacts := (sm_artifacts m)[i := ?x]\<rparr>"] Cons.prems by simp
  ultimately show ?case using one by (simp add: load_pairs_append)
qed simp

definition files_there :: "directory \<Rightarrow> string \<Rightarrow> nat \<Rightarrow> artifact list \<Rightarrow> bool" where
  "files_there fs dir i as \<longleftrightarrow>
     (\<forall>j < length as. fs (artifact_path dir (i + j)) = Some (RegularFile (ar_data (as ! j))))"

lemma files_there_Cons:
  "files_there fs dir i (a # as) \<longleftrightarrow>
   fs (artifact_path dir i) = Some (RegularFile (ar_data a)) \<and> files_there fs dir (i + 1) as"
proof
  assume all: "files_there fs dir i (a # as)"
  show "fs (artifact_path dir i) = Some (RegularFile (ar_data a)) \<and> files_there fs dir (i + 1) as"
    unfolding files_there_def
  proof (intro conjI allI impI)
    show "fs (artifact_path dir i) = Some (RegularFile (ar_data a))"
      using all by (auto simp: files_there_def)
    show "fs (artifact_path dir (i + 1 + j)) = Some (RegularFile (ar_data (as ! j)))" if "j < length as" for j
      using all [unfolded files_there_def, rule_format, of "Suc j"] that by simp
  qed
next
  assume parts: "fs (artifact_path dir i) = Some (RegularFile (ar_data a)) \<and> files_there fs dir (i + 1) as"
  show "files_there fs dir i (a # as)"
    unfolding files_there_def
  proof (intro allI impI)
    fix j
    assume "j < length (a # as)"
    then show "fs (artifact_path dir (i + j)) = Some (RegularFile (ar_data ((a # as) ! j)))"
      using parts by (cases j) (auto simp: files_there_def)
  qed
qed

lemma files_there_put:
  assumes "files_there fs dir i as" "\<And>j. j < length as \<Longrightarrow> path \<noteq> artifact_path dir (i + j)"
  shows "files_there (fs(path \<mapsto> entry)) dir i as"
  using assms by (auto simp: files_there_def)

lemma put_private_file_True:
  "put_private_file outcome path content fs = (fs', True) \<Longrightarrow> fs' = fs(path \<mapsto> RegularFile content)"
  by (auto simp: put_private_file_def split: if_splits write_outcome.splits)

text \<open>A successful loop has written every file, nothing else, and the lines that say where.\<close>

lemma write_artifacts_files:
  "write_artifacts outcome dir i as (fs, t) = (fs', t', True) \<Longrightarrow> dir_ok dir \<Longrightarrow>
   i + length as \<le> MAX_ARTIFACTS \<Longrightarrow>
   t' = t @ concat (map pair_line (artifacts_pairs dir i as)) \<and> files_there fs' dir i as \<and>
   (\<forall>p. (\<forall>j < length as. p \<noteq> artifact_path dir (i + j)) \<longrightarrow> fs' p = fs p)"
proof (induction as arbitrary: i fs t)
  case Nil
  then show ?case by (simp add: files_there_def)
next
  case (Cons a as)
  let ?p = "artifact_path dir i"
  have run: "write_artifacts outcome dir (i + 1) as
      (fs(?p \<mapsto> RegularFile (ar_data a)), t @ artifact_lines i ?p a) = (fs', t', True)"
    using Cons.prems(1) put_private_file_True [of outcome ?p "ar_data a" fs]
    by (auto split: prod.splits bool.splits)
  note IH = Cons.IH [OF run Cons.prems(2)]
  have other: "?p \<noteq> artifact_path dir (i + 1 + j)" if "j < length as" for j
    using artifact_path_inj [OF Cons.prems(2), of i "i + 1 + j"] Cons.prems(3) that by auto
  have "fs' ?p = Some (RegularFile (ar_data a))"
    using IH Cons.prems(3) other by simp
  moreover have "fs' p = fs p" if p: "\<forall>j < length (a # as). p \<noteq> artifact_path dir (i + j)" for p
  proof -
    have "p \<noteq> artifact_path dir (i + 1 + j)" if j: "j < length as" for j
      using p [rule_format, of "Suc j"] j by simp
    moreover have "p \<noteq> ?p" using p [rule_format, of 0] by simp
    moreover note IH
    ultimately show ?thesis using Cons.prems(3) by simp
  qed
  ultimately show ?case
    using IH Cons.prems(3) by (simp add: files_there_Cons artifact_lines_pairs)
qed

lemma check_loaded:
  "list_all artifact_ok as \<Longrightarrow> dir_ok dir \<Longrightarrow> i + length as \<le> MAX_ARTIFACTS \<Longrightarrow> files_there fs dir i as \<Longrightarrow>
   distinct (map ma_role checked @ map ar_role as) \<Longrightarrow>
   distinct (map ma_content_id checked @ map ar_content_id as) \<Longrightarrow> n + total_size as \<le> MAX_TOTAL_SIZE \<Longrightarrow>
   check_artifacts fs dir checked n (loaded_artifacts dir i as)"
proof (induction as arbitrary: i checked n)
  case (Cons a as)
  let ?x = "loaded_artifact (artifact_path dir i) a"
  have i: "i < MAX_ARTIFACTS" using Cons.prems(3) by simp
  have "check_artifacts fs dir (checked @ [?x]) (n + length (ar_data a)) (loaded_artifacts dir (i + 1) as)"
  proof (rule Cons.IH)
    show "files_there fs dir (i + 1) as" using Cons.prems(4) by (simp add: files_there_Cons)
    show "distinct (map ma_role (checked @ [?x]) @ map ar_role as)"
      using Cons.prems(5) by (simp add: loaded_artifact_def)
    show "distinct (map ma_content_id (checked @ [?x]) @ map ar_content_id as)"
      using Cons.prems(6) by (simp add: loaded_artifact_def)
    show "n + length (ar_data a) + total_size as \<le> MAX_TOTAL_SIZE"
      using Cons.prems(7) by (simp add: total_size_def)
  qed (use Cons.prems(1-3) in simp_all)
  moreover have "read_hash fs (artifact_path dir i) (length (ar_data a)) = Some (ar_sha256 a)"
    using Cons.prems(1,4) by (simp add: read_hash_content files_there_Cons artifact_ok_def)
  moreover have "\<not> list_ex (\<lambda>p. ma_role p = ar_role a \<or> ma_content_id p = ar_content_id a) checked"
  proof -
    have "ar_role a \<notin> ma_role ` set checked" using Cons.prems(5) by simp
    moreover have "ar_content_id a \<notin> ma_content_id ` set checked" using Cons.prems(6) by simp
    ultimately show ?thesis unfolding list_ex_iff by (metis image_eqI)
  qed
  moreover have "is_identifier (ar_role a)" "is_identifier (ar_content_id a)" "lower_sha256 (ar_sha256 a)"
    using Cons.prems(1) unfolding list.pred_inject artifact_ok_def by blast+
  ultimately show ?case
    using Cons.prems(7) artifact_path_inside(1) [OF Cons.prems(2) i]
    by (simp add: loaded_artifact_def total_size_def)
qed simp

lemma bytes_chars_text: "bytes_chars (text_bytes s) = s"
  by (induction s) (auto simp: bytes_chars_def text_bytes_def unat_of_char)

definition regular_octets :: "directory \<Rightarrow> string \<Rightarrow> bytes option" where
  "regular_octets fs path = (case fs path of Some (RegularFile bs) \<Rightarrow> Some bs | _ \<Rightarrow> None)"

definition manifest_path :: "string \<Rightarrow> string" where
  "manifest_path dir = dir @ ''/session.manifest''"

lemma manifest_not_artifact:
  assumes "dir_ok dir" "i < MAX_ARTIFACTS"
  shows "manifest_path dir \<noteq> artifact_path dir i"
  unfolding manifest_path_def artifact_path_whole(1) [OF assms] by simp

lemma files_listed:
  "files_there fs dir i as \<Longrightarrow>
   map (\<lambda>a. (ma_role a, ma_content_id a, fs (ma_path a))) (loaded_artifacts dir i as) =
   map (\<lambda>a. (ar_role a, ar_content_id a, Some (RegularFile (ar_data a)))) as"
  by (induction dir i as rule: loaded_artifacts.induct) (simp_all add: files_there_Cons loaded_artifact_def)

lemma write_manifest_content:
  assumes "write_manifest outcome c dir (manifest_path dir) fs = (fs', True)" "contract_ok c" "dir_ok dir"
  shows "regular_octets fs' (manifest_path dir) = Some (text_bytes (concat (map pair_line
           (head_pairs c @ artifacts_pairs dir 0 (co_artifacts c))))) \<and> files_there fs' dir 0 (co_artifacts c)"
proof -
  have n: "0 + length (co_artifacts c) \<le> MAX_ARTIFACTS"
    using assms(2) by (simp add: contract_ok_def artifacts_ok_def)
  obtain fs1 t where loop: "write_artifacts outcome dir 0 (co_artifacts c)
      (fs(manifest_path dir \<mapsto> RegularFile []), manifest_head c) = (fs1, t, True)"
    and put: "put_private_file outcome (manifest_path dir) (text_bytes t) fs1 = (fs', True)"
    using assms(1) by (auto simp: write_manifest_def split: if_splits prod.splits)
  note written = write_artifacts_files [OF loop assms(3) n]
  have fs': "fs' = fs1(manifest_path dir \<mapsto> RegularFile (text_bytes t))" by (rule put_private_file_True [OF put])
  have "files_there fs' dir 0 (co_artifacts c)"
    unfolding fs' using written manifest_not_artifact [OF assms(3)] n
    by (intro files_there_put) auto
  then show ?thesis using written by (simp add: fs' regular_octets_def manifest_head_pairs)
qed

definition loaded_manifest :: "string \<Rightarrow> contract \<Rightarrow> session_manifest" where
  "loaded_manifest dir c =
     \<lparr>sm_adapter = co_adapter c, sm_package = co_package c, sm_release = co_release c, sm_digest = co_digest c,
      sm_capability = nat (co_capability c),
      sm_artifacts = loaded_artifacts dir 0 (co_artifacts c) @
        drop (length (co_artifacts c)) (replicate MAX_ARTIFACTS no_artifact),
      sm_count = length (co_artifacts c)\<rparr>"

lemma load_written_lines:
  assumes "contract_ok c" "dir_ok dir"
  shows "load_lines (concat (map pair_line (head_pairs c @ artifacts_pairs dir 0 (co_artifacts c))))
      (empty_manifest, None, False) = Some (loaded_manifest dir c, Some (length (co_artifacts c)), True)"
proof -
  have as: "list_all artifact_ok (co_artifacts c)" "0 + length (co_artifacts c) \<le> MAX_ARTIFACTS"
    using assms(1) by (simp_all add: contract_ok_def artifacts_ok_def)
  let ?m = "empty_manifest\<lparr>sm_adapter := co_adapter c, sm_package := co_package c, sm_release := co_release c,
      sm_digest := co_digest c, sm_capability := nat (co_capability c), sm_count := length (co_artifacts c)\<rparr>"
  show ?thesis
    using load_artifacts [OF as(1) assms(2) as(2), of ?m] head_pairs_ok [OF assms(1)]
      artifacts_pairs_ok [OF as(1) assms(2) as(2)] load_head [OF assms(1)]
    by (subst load_lines_pairs) (simp_all add: load_pairs_append empty_manifest_def loaded_manifest_def)
qed

lemma written_manifest_loads:
  assumes "contract_ok c" "dir_ok dir"
    and "write_manifest outcome c dir (manifest_path dir) fs = (fs', True)"
  shows "manifest_load (regular_octets fs' (manifest_path dir)) (manifest_path dir) fs' = Some (loaded_manifest dir c)"
proof -
  note there = write_manifest_content [OF assms(3,1,2)]
  have as: "list_all artifact_ok (co_artifacts c)" "0 + length (co_artifacts c) \<le> MAX_ARTIFACTS"
    "distinct (map ar_role (co_artifacts c))" "distinct (map ar_content_id (co_artifacts c))"
    "0 + total_size (co_artifacts c) \<le> MAX_TOTAL_SIZE"
    using assms(1) by (simp_all add: contract_ok_def artifacts_ok_def)
  have dir: "cut_last (CHR ''/'') (manifest_path dir) = Some dir"
    using cut_last_append [of "CHR ''/''" "''session.manifest''" dir] by (simp add: manifest_path_def)
  have len: "length (manifest_path dir) < 1024" using assms(2) by (simp add: manifest_path_def dir_ok_def)
  have first: "take (sm_count (loaded_manifest dir c)) (sm_artifacts (loaded_manifest dir c)) =
      loaded_artifacts dir 0 (co_artifacts c)"
    by (simp add: loaded_manifest_def)
  have "check_artifacts fs' dir [] 0 (loaded_artifacts dir 0 (co_artifacts c))"
    using check_loaded [OF as(1) assms(2) as(2) conjunct2 [OF there], of "[]" 0] as(3-5) by simp
  moreover have "sm_adapter (loaded_manifest dir c) = ''gb_mobile_v2''" "is_identifier (sm_package (loaded_manifest dir c))"
    "is_identifier (sm_release (loaded_manifest dir c))" "lower_sha256 (sm_digest (loaded_manifest dir c))"
    "2 \<le> sm_capability (loaded_manifest dir c)" "sm_capability (loaded_manifest dir c) \<le> 3"
    using assms(1) contract_fields(10,11) [OF assms(1)] by (simp_all add: loaded_manifest_def contract_ok_def)
  ultimately show ?thesis
    using conjunct1 [OF there] load_written_lines [OF assms(1,2)] dir len first
    by (simp add: manifest_load_def bytes_chars_text not_le not_less)
qed

section \<open>Properties\<close>

text \<open>C12: What the server sends, the runtime gets: a contract that the client accepted and wrote without an
  error is loaded by the runtime, from a directory whose path has no two dots in a row, no line end and
  room for the names, with the same package, release, digest and capability, and every artifact's file holds
  exactly the octets of the contract.\<close>

theorem manifest_roundtrip:
  assumes "contract_parse alloc input = Some c" "dir_ok dir"
    and "write_manifest outcome c dir (manifest_path dir) fs = (fs', True)"
  shows "\<exists>m. manifest_load (regular_octets fs' (manifest_path dir)) (manifest_path dir) fs' = Some m \<and>
     (sm_package m, sm_release m, sm_digest m, int (sm_capability m)) =
       (co_package c, co_release c, co_digest c, co_capability c) \<and>
     map (\<lambda>a. (ma_role a, ma_content_id a, fs' (ma_path a))) (take (sm_count m) (sm_artifacts m)) =
       map (\<lambda>a. (ar_role a, ar_content_id a, Some (RegularFile (ar_data a)))) (co_artifacts c)"
proof -
  have c: "contract_ok c" by (rule contract_parse_ok [OF assms(1)])
  have "files_there fs' dir 0 (co_artifacts c)" using write_manifest_content [OF assms(3) c assms(2)] by blast
  moreover have "2 \<le> co_capability c" using c by (simp add: contract_ok_def)
  ultimately show ?thesis
    using written_manifest_loads [OF c assms(2,3)]
    by (intro exI [of _ "loaded_manifest dir c"]) (simp add: files_listed loaded_manifest_def)
qed

text \<open>C21: Whatever a manifest says: if the runtime loads it, every artifact it names is a regular file
  with the size and SHA-256 the manifest gives. The file is one of the manifest's own directory or,
  where a backslash follows the directory's path, one beside that directory, and never one further
  away. No two artifacts share a role or a content id (two may name the same file), and together they
  have at most 32 megabytes.\<close>

theorem manifest_confined:
  assumes "manifest_load content path fs = Some m"
  shows "\<exists>dir rest. path = dir @ CHR ''/'' # rest \<and> CHR ''/'' \<notin> set rest \<and>
     list_all (listed_ok fs dir) (take (sm_count m) (sm_artifacts m)) \<and>
     distinct (map ma_role (take (sm_count m) (sm_artifacts m))) \<and>
     distinct (map ma_content_id (take (sm_count m) (sm_artifacts m))) \<and>
     sum_list (map ma_size (take (sm_count m) (sm_artifacts m))) \<le> 32 * 1024 * 1024"
proof -
  obtain dir where dir: "cut_last (CHR ''/'') path = Some dir"
    and check: "check_artifacts fs dir [] 0 (take (sm_count m) (sm_artifacts m))"
    using assms by (auto simp: manifest_load_def split: option.splits if_splits)
  show ?thesis
    using cut_last_Some [OF dir] check_artifacts_ok [OF check] by (auto simp: MAX_TOTAL_SIZE_def)
qed

text \<open>C40: An accepted contract is well formed, whatever text the server sent: its names are identifiers,
  each artifact's data has the digest it is listed with, and number, sizes and total are limited.\<close>

theorem contract_accepted_ok:
  assumes "contract_parse alloc input = Some c"
  shows "co_adapter c = ''gb_mobile_v2'' \<and> is_identifier (co_package c) \<and> is_identifier (co_release c) \<and>
     co_capability c \<in> {2, 3} \<and>
     list_all (\<lambda>a. is_identifier (ar_role a) \<and> is_identifier (ar_content_id a) \<and>
                   ar_sha256 a = sha256_hex (content_sha256 (ar_data a)) \<and>
                   length (ar_data a) \<le> 16 * 1024 * 1024) (co_artifacts c) \<and>
     distinct (map ar_role (co_artifacts c)) \<and> distinct (map ar_content_id (co_artifacts c)) \<and>
     length (co_artifacts c) \<le> 32 \<and> sum_list (map (\<lambda>a. length (ar_data a)) (co_artifacts c)) \<le> 32 * 1024 * 1024"
proof -
  have c: "contract_ok c" by (rule contract_parse_ok [OF assms])
  then have "list_all artifact_ok (co_artifacts c)" "co_capability c = 2 \<or> co_capability c = 3"
    by (auto simp: contract_ok_def artifacts_ok_def)
  then show ?thesis
    using c by (auto simp: contract_ok_def artifacts_ok_def artifact_ok_def list_all_iff total_size_def
        MAX_ARTIFACTS_def MAX_ARTIFACT_SIZE_def MAX_TOTAL_SIZE_def)
qed

subsection \<open>A session\<close>

text \<open>The hash of \<open>abc\<close>, the standard's own example, in steps of sixteen rounds.\<close>

definition abc_block :: bytes where
  "abc_block = [0x61, 0x62, 0x63, 0x80] @ replicate 59 0 @ [24]"

definition abc_schedule :: "u32 list" where
  "abc_schedule =
     [0x61626380, 0x00000000, 0x00000000, 0x00000000, 0x00000000, 0x00000000, 0x00000000, 0x00000000,
      0x00000000, 0x00000000, 0x00000000, 0x00000000, 0x00000000, 0x00000000, 0x00000000, 0x00000018,
      0x61626380, 0x000f0000, 0x7da86405, 0x600003c6, 0x3e9d7b78, 0x0183fc00, 0x12dcbfdb, 0xe2e2c38e,
      0xc8215c1a, 0xb73679a2, 0xe5bc3909, 0x32663c5b, 0x9d209d67, 0xec8726cb, 0x702138a4, 0xd3b7973b,
      0x93f5997f, 0x3b68ba73, 0xaff4ffc1, 0xf10a5c62, 0x0a8b3996, 0x72af830a, 0x9409e33e, 0x24641522,
      0x9f47bf94, 0xf0a64f5a, 0x3e246a79, 0x27333ba3, 0x0c4763f2, 0x840abf27, 0x7a290d5d, 0x065c43da,
      0xfb3e89cb, 0xcc7617db, 0xb9e66c34, 0xa9993667, 0x84badedd, 0xc21462bc, 0x1487472c, 0xb20f7a99,
      0xef57b9cd, 0xebe6b238, 0x9fe3095e, 0x78bc8d4b, 0xa43fcf15, 0x668b2ff8, 0xeeaba2cc, 0x12b1edeb]"

definition abc_vars :: "sha_vars list" where
  "abc_vars =
     [(0x6a09e667, 0xbb67ae85, 0x3c6ef372, 0xa54ff53a, 0x510e527f, 0x9b05688c, 0x1f83d9ab, 0x5be0cd19),
      (0xb0fa238e, 0xc0645fde, 0xd932eb16, 0x87912990, 0x07590dcd, 0x0b92f20c, 0x745a48de, 0x1e578218),
      (0x73b33bf5, 0xea992a22, 0xa0060b30, 0x363482c9, 0xba591112, 0x0109ab3a, 0xade79437, 0x6112a3b7),
      (0x4172328d, 0xa14c14b0, 0x72ab4b91, 0x26628815, 0xfecf0bc6, 0xd57b94a9, 0xb7755da1, 0xa80f11f0),
      (0x506e3058, 0xd39a2165, 0x04d24d6c, 0xb85e2ce9, 0x5ef50f24, 0xfb121210, 0x948d25b6, 0x961f4894)]"

lemma abc_schedule_start: "foldl sha_w_step (map (\<lambda>i. get_be32 (drop (4 * i) abc_block)) [0..<16]) [16..<40] =
    take 40 abc_schedule"
  by code_simp

lemma abc_schedule_end: "foldl sha_w_step (take 40 abc_schedule) [40..<64] = abc_schedule"
  by code_simp

lemma abc_schedule_right: "sha_schedule abc_block = abc_schedule"
proof -
  have "[16..<64] = [16..<40] @ [40..<64]" by code_simp
  then show ?thesis by (simp only: sha_schedule_def foldl_append abc_schedule_start abc_schedule_end)
qed

lemma abc_rounds_1: "foldl (sha_round abc_schedule) sha_iv [0..<16] = abc_vars ! 1"
  by code_simp

lemma abc_rounds_2: "foldl (sha_round abc_schedule) (abc_vars ! 1) [16..<32] = abc_vars ! 2"
  by code_simp

lemma abc_rounds_3: "foldl (sha_round abc_schedule) (abc_vars ! 2) [32..<48] = abc_vars ! 3"
  by code_simp

lemma abc_rounds_4: "foldl (sha_round abc_schedule) (abc_vars ! 3) [48..<64] = abc_vars ! 4"
  by code_simp

definition abc_digest :: bytes where
  "abc_digest = [0xba, 0x78, 0x16, 0xbf, 0x8f, 0x01, 0xcf, 0xea, 0x41, 0x41, 0x40, 0xde, 0x5d, 0xae, 0x22, 0x23,
     0xb0, 0x03, 0x61, 0xa3, 0x96, 0x17, 0x7a, 0x9c, 0xb4, 0x10, 0xff, 0x61, 0xf2, 0x00, 0x15, 0xad]"

lemma abc_last: "sha_digest (case (sha_iv, abc_vars ! 4) of
    ((h0, h1, h2, h3, h4, h5, h6, h7), (a, b, c, d, e, f, g, h)) \<Rightarrow>
      (h0 + a, h1 + b, h2 + c, h3 + d, h4 + e, h5 + f, h6 + g, h7 + h)) = abc_digest"
  by code_simp

lemma abc_sha256: "content_sha256 [0x61, 0x62, 0x63] = abc_digest"
proof -
  have rounds: "[0..<64] = [0..<16] @ [16..<32] @ [32..<48] @ [48..<64]"
    by code_simp
  have pad: "sha_pad [0x61, 0x62, 0x63] = abc_block" by code_simp
  have "length abc_block = 64" by (simp add: abc_block_def)
  then have "content_sha256 [0x61, 0x62, 0x63] = sha_digest (sha_compress sha_iv abc_block)"
    by (simp only: content_sha256_spec sha_spec_def pad sha_absorb_one)
  also have "\<dots> = abc_digest"
    unfolding sha_compress_def abc_schedule_right rounds foldl_append abc_rounds_1 abc_rounds_2 abc_rounds_3 abc_rounds_4
    by (rule abc_last)
  finally show ?thesis .
qed

text \<open>A contract with one artifact, \<open>abc\<close>. In the text a backquote stands for a quotation mark.\<close>

definition backquoted :: "string \<Rightarrow> string" where
  "backquoted s = map (\<lambda>c. if c = CHR ''`'' then DQUOTE else c) s"

definition sample_hash :: string where
  "sample_hash = ''ba7816bf8f01cfea414140de5dae2223b00361a396177a9cb410ff61f20015ad''"

lemma sample_hash_right: "sha256_hex (content_sha256 [0x61, 0x62, 0x63]) = sample_hash"
  unfolding abc_sha256 by code_simp

definition sample_contract_json :: string where
  "sample_contract_json = backquoted (
     ''{`schema_version`:2,`adapter_id`:`gb_mobile_v2`,`package_id`:`p`,`release_id`:`r`,'' @
     ''`package_digest`:`'' @ sample_hash @ ''`,`runtime_capability_version`:2,'' @
     ''`artifacts`:[{`role`:`rom`,`content_id`:`c`,`size`:3,`sha256`:`'' @ sample_hash @ ''`,`data`:`YWJj`}]}'')"

definition sample_token :: "json_kind \<Rightarrow> nat \<Rightarrow> int \<Rightarrow> nat \<Rightarrow> int \<Rightarrow> json_token" where
  "sample_token k a b n p = \<lparr>jt_kind = k, jt_start = a, jt_end = b, jt_size = n, jt_parent = p\<rparr>"

definition sample_tokens :: "json_token list" where
  "sample_tokens =
     [sample_token TkObject 0 342 14 (- 1), sample_token TkString 2 16 0 0,
      sample_token TkPrimitive 18 19 0 0, sample_token TkString 21 31 0 0,
      sample_token TkString 34 46 0 0, sample_token TkString 49 59 0 0,
      sample_token TkString 62 63 0 0, sample_token TkString 66 76 0 0,
      sample_token TkString 79 80 0 0, sample_token TkString 83 97 0 0,
      sample_token TkString 100 164 0 0, sample_token TkString 167 193 0 0,
      sample_token TkPrimitive 195 196 0 0, sample_token TkString 198 207 0 0,
      sample_token TkArray 209 341 1 0, sample_token TkObject 210 340 10 14,
      sample_token TkString 212 216 0 15, sample_token TkString 219 222 0 15,
      sample_token TkString 225 235 0 15, sample_token TkString 238 239 0 15,
      sample_token TkString 242 246 0 15, sample_token TkPrimitive 248 249 0 15,
      sample_token TkString 251 257 0 15, sample_token TkString 260 324 0 15,
      sample_token TkString 327 331 0 15, sample_token TkString 334 338 0 15]"

lemma sample_tokens_parsed: "parse_json sample_contract_json 512 = Some sample_tokens"
  by code_simp

definition sample_contract :: contract where
  "sample_contract = \<lparr>co_adapter = ''gb_mobile_v2'', co_package = ''p'', co_release = ''r'',
     co_digest = sample_hash, co_capability = 2,
     co_artifacts = [\<lparr>ar_role = ''rom'', ar_content_id = ''c'', ar_sha256 = sample_hash,
                     ar_data = [0x61, 0x62, 0x63]\<rparr>]\<rparr>"

lemma sample_members:
  "object_value sample_contract_json sample_tokens 0 ''runtime_contract'' = None"
  "object_value sample_contract_json sample_tokens 0 ''schema_version'' = Some 2"
  "object_value sample_contract_json sample_tokens 0 ''adapter_id'' = Some 4"
  "object_value sample_contract_json sample_tokens 0 ''package_id'' = Some 6"
  "object_value sample_contract_json sample_tokens 0 ''release_id'' = Some 8"
  "object_value sample_contract_json sample_tokens 0 ''package_digest'' = Some 10"
  "object_value sample_contract_json sample_tokens 0 ''runtime_capability_version'' = Some 12"
  "object_value sample_contract_json sample_tokens 0 ''artifacts'' = Some 14"
  "object_value sample_contract_json sample_tokens 15 ''role'' = Some 17"
  "object_value sample_contract_json sample_tokens 15 ''content_id'' = Some 19"
  "object_value sample_contract_json sample_tokens 15 ''size'' = Some 21"
  "object_value sample_contract_json sample_tokens 15 ''sha256'' = Some 23"
  "object_value sample_contract_json sample_tokens 15 ''data'' = Some 25"
  by code_simp+

text \<open>A number of one digit.\<close>

lemma token_digit:
  assumes "jt_kind t = TkPrimitive" "jt_end t - int (jt_start t) = 1" "json_token_text json t = dec n" "n < 10"
  shows "parse_token_integer json t = Some (int n)"
  using assms scan_dec [of "[]" n] by (simp add: parse_token_integer_def)

lemma sample_integers:
  "parse_token_integer sample_contract_json (sample_tokens ! 2) = Some 2"
  "parse_token_integer sample_contract_json (sample_tokens ! 12) = Some 2"
  "parse_token_integer sample_contract_json (sample_tokens ! 21) = Some 3"
proof -
  have "json_token_text sample_contract_json (sample_tokens ! 2) = dec 2"
    "json_token_text sample_contract_json (sample_tokens ! 12) = dec 2"
    "json_token_text sample_contract_json (sample_tokens ! 21) = dec 3" by code_simp+
  moreover have "sample_tokens ! 2 = sample_token TkPrimitive 18 19 0 0" "sample_tokens ! 12 = sample_token TkPrimitive 195 196 0 0"
    "sample_tokens ! 21 = sample_token TkPrimitive 248 249 0 15" by (simp_all add: sample_tokens_def)
  ultimately show "parse_token_integer sample_contract_json (sample_tokens ! 2) = Some 2"
    "parse_token_integer sample_contract_json (sample_tokens ! 12) = Some 2"
    "parse_token_integer sample_contract_json (sample_tokens ! 21) = Some 3"
    using token_digit [of "sample_tokens ! 2" sample_contract_json 2] token_digit [of "sample_tokens ! 12" sample_contract_json 2]
      token_digit [of "sample_tokens ! 21" sample_contract_json 3]
    by (simp_all add: sample_token_def)
qed

lemma sample_texts_1:
  "copy_identifier sample_contract_json (sample_tokens ! 4) 96 = Some ''gb_mobile_v2''"
  "copy_identifier sample_contract_json (sample_tokens ! 6) 96 = Some ''p''"
  "copy_identifier sample_contract_json (sample_tokens ! 8) 96 = Some ''r''"
  "copy_identifier sample_contract_json (sample_tokens ! 10) 65 = Some sample_hash"
  by code_simp+

lemma sample_texts_2:
  "copy_identifier sample_contract_json (sample_tokens ! 17) 96 = Some ''rom''"
  "copy_identifier sample_contract_json (sample_tokens ! 19) 96 = Some ''c''"
  "copy_identifier sample_contract_json (sample_tokens ! 23) 65 = Some sample_hash"
  "decode_base64 sample_contract_json (sample_tokens ! 25) 3 = Some [0x61, 0x62, 0x63]"
  by code_simp+

lemmas sample_values = sample_integers sample_texts_1 sample_texts_2

lemma sample_shape:
  "lower_sha256 sample_hash" "length sample_tokens = 26" "token_next sample_tokens 15 = 26"
  "jt_size (sample_tokens ! 0) = 14" "jt_kind (sample_tokens ! 14) = TkArray" "jt_end (sample_tokens ! 14) = 341"
  "jt_kind (sample_tokens ! 15) = TkObject" "jt_start (sample_tokens ! 15) = 210" "jt_size (sample_tokens ! 15) = 10"
  by code_simp+

lemma sample_contract_parsed: "contract_parse (\<lambda>n. True) (Some sample_contract_json) = Some sample_contract"
proof -
  have "parse_artifact (\<lambda>n. True) sample_contract_json sample_tokens 15 [] = Some (co_artifacts sample_contract ! 0)"
    by (simp add: parse_artifact_def sample_members sample_values sample_shape sample_hash_right sample_contract_def
        MAX_ARTIFACTS_def MAX_ARTIFACT_SIZE_def MAX_TOTAL_SIZE_def total_size_def)
  then have "parse_artifacts (\<lambda>n. True) sample_contract_json sample_tokens 341 15 [] = Some (co_artifacts sample_contract)"
    by (subst parse_artifacts.simps) (simp add: sample_shape parse_artifacts.simps sample_contract_def)
  then show ?thesis
    by (simp add: contract_parse_def Let_def sample_tokens_parsed sample_members sample_values sample_shape
        sample_contract_def)
qed

definition sample_directory :: directory where
  "sample_directory = fst (write_manifest (\<lambda>p. Stored) sample_contract ''s'' ''s/session.manifest'' (\<lambda>p. None))"

lemma sample_manifest_written:
  "write_manifest (\<lambda>p. Stored) sample_contract ''s'' ''s/session.manifest'' (\<lambda>p. None) = (sample_directory, True)"
proof -
  have "snd (write_manifest (\<lambda>p. Stored) sample_contract ''s'' ''s/session.manifest'' (\<lambda>p. None))"
    by code_simp
  then show ?thesis by (simp add: sample_directory_def prod_eq_iff)
qed

theorem contract_accepted_ok_witness:
  "ar_sha256 (co_artifacts sample_contract ! 0) = sha256_hex (content_sha256 [0x61, 0x62, 0x63])"
  using contract_accepted_ok [OF sample_contract_parsed] by (simp add: sample_contract_def)

theorem manifest_roundtrip_witness:
  "\<exists>m. manifest_load (regular_octets sample_directory ''s/session.manifest'') ''s/session.manifest'' sample_directory =
      Some m \<and> sm_package m = ''p'' \<and>
      map (\<lambda>a. (ma_role a, ma_content_id a, sample_directory (ma_path a))) (take (sm_count m) (sm_artifacts m)) =
        [(''rom'', ''c'', Some (RegularFile [0x61, 0x62, 0x63]))]"
proof -
  have path: "manifest_path ''s'' = ''s/session.manifest''" by (simp add: manifest_path_def)
  have dir: "dir_ok ''s''" by (simp add: dir_ok_def line_char_def)
  show ?thesis
    using manifest_roundtrip [OF sample_contract_parsed dir, unfolded path, OF sample_manifest_written]
    by (auto simp: sample_contract_def)
qed

lemma sample_manifest_loads:
  "manifest_load (regular_octets sample_directory ''s/session.manifest'') ''s/session.manifest'' sample_directory =
   Some (loaded_manifest ''s'' sample_contract)"
proof -
  have "manifest_path ''s'' = ''s/session.manifest''" "dir_ok ''s''"
    by (simp_all add: manifest_path_def dir_ok_def line_char_def)
  then show ?thesis
    using written_manifest_loads [OF contract_parse_ok [OF sample_contract_parsed], of "''s''"] sample_manifest_written
    by simp
qed

theorem manifest_confined_witness:
  "\<exists>dir rest. ''s/session.manifest'' = dir @ CHR ''/'' # rest \<and>
     list_all (listed_ok sample_directory dir) (loaded_artifacts ''s'' 0 (co_artifacts sample_contract))"
proof -
  obtain dir rest where "''s/session.manifest'' = dir @ CHR ''/'' # rest"
    and "list_all (listed_ok sample_directory dir)
      (take (sm_count (loaded_manifest ''s'' sample_contract)) (sm_artifacts (loaded_manifest ''s'' sample_contract)))"
    using manifest_confined [OF sample_manifest_loads] by (elim exE conjE)
  then show ?thesis by (intro exI [of _ dir] exI [of _ rest]) (simp add: loaded_manifest_def)
qed

end
