(* ===== verification/StreamServer.thy ===== *)
theory StreamServer
  imports InputRouter CText
begin

text \<open>
  The Game Boy runtime's remote player (\<open>runtimes/gb/src/server/stream_server.c\<close>) and the save
  return of \<open>server_cleanup.c\<close>. A remote client connects, proves that it knows the token when one
  is set, sends its buttons in packets of 13 octets and gets pictures, sound and its save file back.
  The server is one record; the octets that are valid in its buffers are lists, so a buffer's fill
  level is the list's length. Three fields are not the code's: \<open>ss_uplink\<close> and \<open>ss_wire\<close> are the
  octets received from and sent to the present connection, \<open>ss_queued\<close> the octets of the packets
  the code has begun to send on it. What a socket call does is a script, with the time as a number
  where the code reads the clock.
\<close>

unbundle bit_operations_syntax

section \<open>Model\<close>

definition AUTH_TOKEN_SIZE :: nat where "AUTH_TOKEN_SIZE = 64"
definition AUTH_PACKET_SIZE :: nat where "AUTH_PACKET_SIZE = 69"
definition INPUT_PACKET_SIZE :: nat where "INPUT_PACKET_SIZE = 13"
definition AUDIO_MAX_FRAMES :: nat where "AUDIO_MAX_FRAMES = 1024"
definition MAX_SAVE_TRANSFER_BYTES :: int where "MAX_SAVE_TRANSFER_BYTES = 2 * 1024 * 1024"
definition AUTH_TIMEOUT_US :: u64 where "AUTH_TIMEOUT_US = 3000000"
definition REMOTE_WRITE_TIMEOUT_MS :: nat where "REMOTE_WRITE_TIMEOUT_MS = 3000"
definition PACKET_VIDEO :: u8 where "PACKET_VIDEO = 0x56"
definition PACKET_AUDIO :: u8 where "PACKET_AUDIO = 0x41"
definition PACKET_SAVE_RETURN :: u8 where "PACKET_SAVE_RETURN = 0x53"
definition AUTH_MAGIC :: bytes where "AUTH_MAGIC = [0x46, 0x47, 0x41, 0x54, 0x31]"

record stream_server =
  ss_active :: bool
  ss_client :: bool
  ss_buttons :: u8
  ss_buttons_applied :: u8
  ss_seq :: u32
  ss_stamp :: u64
  ss_applied_seq :: u32
  ss_applied_stamp :: u64
  ss_connected_at :: u64
  ss_token :: string
  ss_auth_buffer :: bytes
  ss_packet_buffer :: bytes
  ss_packets_received :: u32
  ss_downlink :: bytes
  ss_sent :: nat
  ss_frame_seq :: u32
  ss_audio_seq :: u32
  ss_frames_queued :: u32
  ss_frames_sent :: u32
  ss_audio_queued :: u32
  ss_audio_sent :: u32
  ss_save_returns :: u32
  ss_auth_required :: bool
  ss_authenticated :: bool
  ss_input_applied :: bool
  ss_release_pending :: bool
  ss_uplink :: bytes
  ss_wire :: bytes
  ss_queued :: bytes

text \<open>A server whose listening socket was set up.\<close>

definition stream_open :: stream_server where
  "stream_open =
     \<lparr>ss_active = True, ss_client = False, ss_buttons = 0, ss_buttons_applied = 0, ss_seq = 0,
      ss_stamp = 0, ss_applied_seq = 0, ss_applied_stamp = 0, ss_connected_at = 0, ss_token = [],
      ss_auth_buffer = [], ss_packet_buffer = [], ss_packets_received = 0, ss_downlink = [],
      ss_sent = 0, ss_frame_seq = 0, ss_audio_seq = 0, ss_frames_queued = 0, ss_frames_sent = 0,
      ss_audio_queued = 0, ss_audio_sent = 0, ss_save_returns = 0, ss_auth_required = False,
      ss_authenticated = False, ss_input_applied = False, ss_release_pending = False,
      ss_uplink = [], ss_wire = [], ss_queued = []\<rparr>"

definition set_auth_token :: "string option \<Rightarrow> stream_server \<Rightarrow> stream_server" where
  "set_auth_token token s =
     (case token of
        None \<Rightarrow> s
      | Some t \<Rightarrow>
          if t = [] then s
          else case copy_text_checked True (AUTH_TOKEN_SIZE + 1) (Some t) of
                 (_, False) \<Rightarrow> s\<lparr>ss_token := [], ss_auth_required := True, ss_authenticated := False\<rparr>
               | (copied, True) \<Rightarrow>
                   s\<lparr>ss_token := the copied, ss_auth_required := True, ss_authenticated := False\<rparr>)"

subsection \<open>Sockets\<close>

text \<open>
  A reading call gets octets (none: the peer has closed), or fails because nothing is there, because
  the connection is lost or for another reason. When more has arrived than was asked for, the rest
  is there for the next call. A script that has ended has nothing to read.
\<close>

datatype read_result = Arrive bytes | NoData | LostRead | FailedRead

fun socket_read :: "nat \<Rightarrow> read_result list \<Rightarrow> read_result \<times> read_result list" where
  "socket_read want [] = (NoData, [])"
| "socket_read want (Arrive bs # script) =
     (Arrive (take want bs),
      if length bs \<le> want then script else Arrive (drop want bs) # script)"
| "socket_read want (r # script) = (r, script)"

text \<open>
  A writing call takes some octets, or none because the socket is full; then the code compares the
  milliseconds since it last wrote, or since it began, with its limit.
\<close>

datatype write_result = Wrote nat | WouldBlock nat | LostWrite | FailedWrite

datatype accept_result = NoClient | AcceptFails | NonblockFails | Accepted

definition close_client :: "stream_server \<Rightarrow> stream_server" where
  "close_client s =
     (if ss_client s
      then s\<lparr>ss_client := False, ss_packet_buffer := [], ss_downlink := [], ss_sent := 0,
             ss_release_pending :=
               (if ss_input_applied s \<and> ss_buttons_applied s \<noteq> 0 then True else ss_release_pending s),
             ss_buttons := 0\<rparr>
      else s)"

definition accept_client :: "accept_result \<Rightarrow> u64 \<Rightarrow> stream_server \<Rightarrow> stream_server" where
  "accept_client result now s =
     (if ss_client s then s
      else if result \<noteq> Accepted then s
      else s\<lparr>ss_client := True, ss_authenticated := \<not> ss_auth_required s, ss_auth_buffer := [],
             ss_packet_buffer := [], ss_buttons := 0, ss_seq := 0, ss_stamp := 0, ss_applied_seq := 0,
             ss_applied_stamp := 0, ss_connected_at := now,
             ss_uplink := [], ss_wire := [], ss_queued := []\<rparr>)"

subsection \<open>Receiving\<close>

definition handle_packet :: "bytes \<Rightarrow> stream_server \<Rightarrow> stream_server" where
  "handle_packet packet s =
     (let seq = get_be32 packet
      in if 0 < ss_packets_received s \<and> seq < ss_seq s then s
         else s\<lparr>ss_seq := seq, ss_stamp := get_be64 (drop 4 packet), ss_buttons := packet ! 12,
                ss_packets_received := ss_packets_received s + 1\<rparr>)"

definition auth_packet_matches :: "stream_server \<Rightarrow> bool" where
  "auth_packet_matches s \<longleftrightarrow>
     take 5 (ss_auth_buffer s) = AUTH_MAGIC \<and>
     bytes_text (slice 5 AUTH_TOKEN_SIZE (ss_auth_buffer s)) = ss_token s"

fun read_cost :: "read_result list \<Rightarrow> nat" where
  "read_cost [] = 0"
| "read_cost (Arrive bs # script) = Suc (length bs) + read_cost script"
| "read_cost (r # script) = Suc (read_cost script)"

lemma socket_read_cost:
  "socket_read want script = (Arrive bs, script') \<Longrightarrow>
   read_cost script' + length bs \<le> read_cost script \<and> length bs \<le> want"
  by (induction want script rule: socket_read.induct) (auto split: if_splits)

lemma socket_read_less:
  "socket_read want script = (Arrive bs, script') \<Longrightarrow> bs \<noteq> [] \<Longrightarrow> read_cost script' < read_cost script"
  using socket_read_cost [of want script bs script'] by (cases bs) auto

lemma socket_read_le:
  "socket_read want script = (r, script') \<Longrightarrow> read_cost script' \<le> read_cost script"
  by (induction want script rule: socket_read.induct) (auto split: if_splits)

text \<open>The result says whether the packet was complete and right.\<close>

function read_auth_packet ::
  "read_result list \<Rightarrow> stream_server \<Rightarrow> stream_server \<times> read_result list \<times> bool" where
  "read_auth_packet script s =
     (if length (ss_auth_buffer s) < AUTH_PACKET_SIZE
      then case socket_read (AUTH_PACKET_SIZE - length (ss_auth_buffer s)) script of
             (Arrive bs, script') \<Rightarrow>
               if bs = [] then (close_client s, script', False)
               else read_auth_packet script' (s\<lparr>ss_auth_buffer := ss_auth_buffer s @ bs,
                                               ss_uplink := ss_uplink s @ bs\<rparr>)
           | (NoData, script') \<Rightarrow> (s, script', False)
           | (_, script') \<Rightarrow> (close_client s, script', False)
      else if \<not> auth_packet_matches s then (close_client s, script, False)
      else (s\<lparr>ss_authenticated := True, ss_auth_buffer := []\<rparr>, script, True))"
  by pat_completeness auto
termination
  by (relation "measure (\<lambda>(script, s). read_cost script)")
     (auto dest: socket_read_less [OF sym])

text \<open>Octets that a read of the packet loop stored; a full packet is handled at once.\<close>

definition take_input :: "bytes \<Rightarrow> stream_server \<Rightarrow> stream_server" where
  "take_input bs s =
     (let buf = ss_packet_buffer s @ bs;
          s1 = s\<lparr>ss_packet_buffer := buf, ss_uplink := ss_uplink s @ bs\<rparr>
      in if length buf = INPUT_PACKET_SIZE then (handle_packet buf s1)\<lparr>ss_packet_buffer := []\<rparr> else s1)"

function read_packets :: "read_result list \<Rightarrow> stream_server \<Rightarrow> stream_server" where
  "read_packets script s =
     (case socket_read (INPUT_PACKET_SIZE - length (ss_packet_buffer s)) script of
        (Arrive bs, script') \<Rightarrow> if bs = [] then close_client s else read_packets script' (take_input bs s)
      | (NoData, script') \<Rightarrow> s
      | (_, script') \<Rightarrow> close_client s)"
  by pat_completeness auto
termination
  by (relation "measure (\<lambda>(script, s). read_cost script)")
     (auto dest: socket_read_less [OF sym])

declare read_auth_packet.simps [simp del] read_packets.simps [simp del]

definition read_client :: "read_result list \<Rightarrow> stream_server \<Rightarrow> stream_server" where
  "read_client script s =
     (if \<not> ss_client s then s
      else if ss_auth_required s \<and> \<not> ss_authenticated s
      then case read_auth_packet script s of
             (s1, script', True) \<Rightarrow> read_packets script' s1
           | (s1, script', False) \<Rightarrow> s1
      else read_packets script s)"

subsection \<open>Sending\<close>

text \<open>The loop of \<open>poll\<close> over the waiting packet; the result is False when it left the function.\<close>

definition took :: "nat \<Rightarrow> bytes \<Rightarrow> stream_server \<Rightarrow> stream_server" where
  "took n bs s = s\<lparr>ss_wire := ss_wire s @ take n bs\<rparr>"

fun flush_downlink :: "write_result list \<Rightarrow> stream_server \<Rightarrow> stream_server \<times> bool" where
  "flush_downlink script s =
     (if \<not> (ss_client s \<and> ss_sent s < length (ss_downlink s)) then (s, True)
      else let bs = drop (ss_sent s) (ss_downlink s)
           in case script of
                [] \<Rightarrow> (s, False)
              | Wrote k # rest \<Rightarrow>
                  if k = 0 then (close_client s, False)
                  else flush_downlink rest ((took k bs s)\<lparr>ss_sent := ss_sent s + min k (length bs)\<rparr>)
              | WouldBlock ms # rest \<Rightarrow> (s, False)
              | _ # rest \<Rightarrow> (close_client s, False))"

declare flush_downlink.simps [simp del]

text \<open>The end of \<open>poll\<close> and of \<open>flush_downlink_before_save\<close>: a packet that is out is counted.\<close>

definition count_downlink :: "stream_server \<Rightarrow> stream_server" where
  "count_downlink s =
     (if 0 < length (ss_downlink s) \<and> ss_sent s = length (ss_downlink s)
      then (if ss_downlink s ! 0 = PACKET_VIDEO then s\<lparr>ss_frames_sent := ss_frames_sent s + 1\<rparr>
            else if ss_downlink s ! 0 = PACKET_AUDIO then s\<lparr>ss_audio_sent := ss_audio_sent s + 1\<rparr>
            else s)\<lparr>ss_downlink := [], ss_sent := 0\<rparr>
      else s)"

record server_input =
  pi_accept :: accept_result
  pi_reads :: "read_result list"
  pi_writes :: "write_result list"
  pi_accept_time :: u64
  pi_time :: u64

definition stream_poll :: "server_input \<Rightarrow> stream_server \<Rightarrow> stream_server" where
  "stream_poll e s =
     (if \<not> ss_active s then s
      else let s1 = read_client (pi_reads e) (accept_client (pi_accept e) (pi_accept_time e) s)
           in if ss_client s1 \<and> ss_auth_required s1 \<and> \<not> ss_authenticated s1 \<and>
                 AUTH_TIMEOUT_US < pi_time e - ss_connected_at s1
              then close_client s1
              else if ss_auth_required s1 \<and> \<not> ss_authenticated s1 then s1
              else case flush_downlink (pi_writes e) s1 of
                     (s2, True) \<Rightarrow> count_downlink s2
                   | (s2, False) \<Rightarrow> s2)"

subsection \<open>Buttons\<close>

definition set_key_mask :: "u8 \<Rightarrow> joypad option \<Rightarrow> joypad option" where
  "set_key_mask buttons slot =
     foldl (\<lambda>slot button. set_slot_button slot button (buttons AND button \<noteq> 0)) slot all_buttons"

definition release_key_mask :: "u8 \<Rightarrow> joypad option \<Rightarrow> joypad option" where
  "release_key_mask buttons slot =
     foldl (\<lambda>slot button. if buttons AND button \<noteq> 0 then set_slot_button slot button False else slot)
       slot all_buttons"

definition release_remote_buttons ::
  "stream_server \<Rightarrow> joypad option \<Rightarrow> stream_server \<times> joypad option" where
  "release_remote_buttons s slot =
     (s\<lparr>ss_buttons_applied := 0, ss_input_applied := False, ss_release_pending := False\<rparr>,
      release_key_mask (ss_buttons_applied s) slot)"

definition slot_ready :: "joypad option \<Rightarrow> bool" where
  "slot_ready slot = (case slot of None \<Rightarrow> False | Some p \<Rightarrow> pad_initialized p)"

definition apply_input :: "stream_server \<Rightarrow> joypad option \<Rightarrow> stream_server \<times> joypad option" where
  "apply_input s slot =
     (if \<not> ss_active s \<or> \<not> slot_ready slot then (s, slot)
      else let (s1, slot1) = (if ss_release_pending s then release_remote_buttons s slot else (s, slot))
           in if \<not> ss_client s1 then (s1, slot1)
              else (s1\<lparr>ss_buttons_applied := ss_buttons s1, ss_input_applied := ss_buttons s1 \<noteq> 0,
                       ss_applied_seq := ss_seq s1, ss_applied_stamp := ss_stamp s1\<rparr>,
                    set_key_mask (ss_buttons s1) slot1))"

subsection \<open>Pictures and sound\<close>

definition rgb888_to_rgb565 :: "u32 \<Rightarrow> u16" where
  "rgb888_to_rgb565 argb =
     (let r = ucast (drop_bit 16 argb) :: u8; g = ucast (drop_bit 8 argb) :: u8; b = ucast argb :: u8
      in push_bit 8 (ucast (r AND 0xF8)) OR push_bit 3 (ucast (g AND 0xFC)) OR
         drop_bit 3 (ucast b))"

definition may_queue :: "stream_server \<Rightarrow> bool" where
  "may_queue s \<longleftrightarrow> ss_active s \<and> ss_client s \<and> \<not> (ss_auth_required s \<and> \<not> ss_authenticated s)"

text \<open>The pixels are the 160 by 144 that the slot presents.\<close>

definition stream_queue_frame :: "joypad option \<Rightarrow> u32 list \<Rightarrow> u64 \<Rightarrow> stream_server \<Rightarrow> stream_server" where
  "stream_queue_frame slot pixels now s =
     (if \<not> may_queue s \<or> \<not> slot_ready slot then s
      else if 0 < length (ss_downlink s) then s
      else let packet = [PACKET_VIDEO] @ put_be32 (ss_frame_seq s) @ put_be64 now @ put_be16 160 @
                 put_be16 144 @ [1] @ put_be32 (ss_applied_seq s) @ put_be64 (ss_applied_stamp s) @
                 concat (map (\<lambda>p. put_be16 (rgb888_to_rgb565 p)) pixels)
           in s\<lparr>ss_frame_seq := ss_frame_seq s + 1, ss_downlink := packet, ss_sent := 0,
                ss_frames_queued := ss_frames_queued s + 1, ss_queued := ss_queued s @ packet\<rparr>)"

text \<open>The samples are the left and right values of \<open>frames\<close> moments.\<close>

definition stream_queue_audio :: "u16 list \<Rightarrow> nat \<Rightarrow> u64 \<Rightarrow> stream_server \<Rightarrow> stream_server" where
  "stream_queue_audio samples frames now s =
     (if \<not> may_queue s \<or> frames = 0 then s
      else if 0 < length (ss_downlink s) then s
      else let n = (if AUDIO_MAX_FRAMES < frames then AUDIO_MAX_FRAMES else frames);
               packet = [PACKET_AUDIO] @ put_be32 (ss_audio_seq s) @ put_be64 now @ put_be32 48000 @
                 put_be16 (word_of_nat n) @ concat (map put_be16 (take (2 * n) samples))
           in s\<lparr>ss_audio_seq := ss_audio_seq s + 1, ss_downlink := packet, ss_sent := 0,
                ss_audio_queued := ss_audio_queued s + 1, ss_queued := ss_queued s @ packet\<rparr>)"

subsection \<open>The save file\<close>

text \<open>
  \<open>wait_write_all\<close> blocks until everything is out. A script that has ended blocks until the limit.
\<close>

fun wait_write_all ::
  "write_result list \<Rightarrow> bytes \<Rightarrow> stream_server \<Rightarrow> stream_server \<times> write_result list \<times> bool" where
  "wait_write_all script bs s =
     (if bs = [] then (s, script, True)
      else case script of
             [] \<Rightarrow> (s, [], False)
           | Wrote k # rest \<Rightarrow>
               if k = 0 then (s, rest, False) else wait_write_all rest (drop k bs) (took k bs s)
           | WouldBlock ms # rest \<Rightarrow>
               if REMOTE_WRITE_TIMEOUT_MS \<le> ms then (s, rest, False) else wait_write_all rest bs s
           | _ # rest \<Rightarrow> (s, rest, False))"

declare wait_write_all.simps [simp del]

lemma wait_write_all_Nil [simp]: "wait_write_all script [] s = (s, script, True)"
  by (simp add: wait_write_all.simps)

lemma wait_write_all_steps [simp]:
  assumes "bs \<noteq> []"
  shows "wait_write_all [] bs s = (s, [], False)"
    "wait_write_all (Wrote k # rest) bs s =
       (if k = 0 then (s, rest, False) else wait_write_all rest (drop k bs) (took k bs s))"
    "wait_write_all (WouldBlock ms # rest) bs s =
       (if REMOTE_WRITE_TIMEOUT_MS \<le> ms then (s, rest, False) else wait_write_all rest bs s)"
    "wait_write_all (LostWrite # rest) bs s = (s, rest, False)"
    "wait_write_all (FailedWrite # rest) bs s = (s, rest, False)"
  using assms by (simp_all add: wait_write_all.simps [where s = s])

definition flush_downlink_before_save ::
  "write_result list \<Rightarrow> stream_server \<Rightarrow> stream_server \<times> write_result list \<times> bool" where
  "flush_downlink_before_save script s =
     (case (if ss_sent s < length (ss_downlink s)
            then case wait_write_all script (drop (ss_sent s) (ss_downlink s)) s of
                   (s1, script1, True) \<Rightarrow> (s1\<lparr>ss_sent := length (ss_downlink s1)\<rparr>, script1, True)
                 | (s1, script1, False) \<Rightarrow> (s1, script1, False)
            else (s, script, True)) of
        (s1, script1, False) \<Rightarrow> (s1, script1, False)
      | (s1, script1, True) \<Rightarrow> (count_downlink s1, script1, True))"

text \<open>The file: what \<open>ftell\<close> says at its end and the octets that reading it gives.\<close>

record save_source =
  sf_seek_ok :: bool
  sf_tell :: int
  sf_content :: bytes

function send_chunks ::
  "nat \<Rightarrow> bytes \<Rightarrow> write_result list \<Rightarrow> stream_server \<Rightarrow> stream_server \<times> int" where
  "send_chunks remaining content script s =
     (if remaining = 0 then (s\<lparr>ss_save_returns := ss_save_returns s + 1\<rparr>, 0)
      else let chunk = (if 8192 < remaining then 8192 else remaining)
           in if length content < chunk then (s, - 1)
              else case wait_write_all script (take chunk content) s of
                     (s1, script1, False) \<Rightarrow> (close_client s1, - 1)
                   | (s1, script1, True) \<Rightarrow>
                       send_chunks (remaining - chunk) (drop chunk content) script1 s1)"
  by pat_completeness auto
termination
  by (relation "measure (\<lambda>(n, c, sc, s). n)") auto

declare send_chunks.simps [simp del]

definition send_save_file ::
  "save_source option \<Rightarrow> write_result list \<Rightarrow> stream_server \<Rightarrow> stream_server \<times> int" where
  "send_save_file file script s =
     (if \<not> may_queue s then (s, 0)
      else case flush_downlink_before_save script s of
             (s1, script1, False) \<Rightarrow> (close_client s1, - 1)
           | (s1, script1, True) \<Rightarrow>
               (case file of
                  None \<Rightarrow> (s1, - 1)
                | Some f \<Rightarrow>
                    if \<not> sf_seek_ok f then (s1, - 1)
                    else if sf_tell f < 0 \<or> MAX_SAVE_TRANSFER_BYTES < sf_tell f then (s1, - 1)
                    else let header = PACKET_SAVE_RETURN # put_be32 (word_of_int (sf_tell f));
                             s2 = s1\<lparr>ss_queued := ss_queued s1 @ header @ take (nat (sf_tell f)) (sf_content f)\<rparr>
                         in case wait_write_all script1 header s2 of
                              (s3, script2, False) \<Rightarrow> (close_client s3, - 1)
                            | (s3, script2, True) \<Rightarrow>
                                send_chunks (nat (sf_tell f)) (sf_content f) script2 s3))"

section \<open>Runs\<close>

text \<open>The calls the runtime's loop makes, in any order, on one server and its slot.\<close>

datatype stream_call =
    Poll server_input
  | ApplyInput
  | QueueFrame "u32 list" u64
  | QueueAudio "u16 list" nat u64
  | SendSave "save_source option" "write_result list"

fun server_step :: "stream_call \<Rightarrow> stream_server \<times> joypad option \<Rightarrow> stream_server \<times> joypad option" where
  "server_step (Poll e) (s, slot) = (stream_poll e s, slot)"
| "server_step ApplyInput (s, slot) = apply_input s slot"
| "server_step (QueueFrame pixels now) (s, slot) = (stream_queue_frame slot pixels now s, slot)"
| "server_step (QueueAudio samples frames now) (s, slot) = (stream_queue_audio samples frames now s, slot)"
| "server_step (SendSave file script) (s, slot) = (fst (send_save_file file script s), slot)"

definition server_run :: "stream_call list \<Rightarrow> stream_server \<times> joypad option \<Rightarrow> stream_server \<times> joypad option" where
  "server_run steps state = fold server_step steps state"

definition admitted :: "stream_server \<Rightarrow> bool" where
  "admitted s \<longleftrightarrow> ss_client s \<and> (ss_auth_required s \<longrightarrow> ss_authenticated s)"

text \<open>An invariant of every call is one of every run.\<close>

lemma server_run_invariant:
  assumes "\<And>step s slot. step \<in> set steps \<Longrightarrow> P s slot \<Longrightarrow>
             case server_step step (s, slot) of (s', slot') \<Rightarrow> P s' slot'"
    and "P s slot" "server_run steps (s, slot) = (s', slot')"
  shows "P s' slot'"
  using assms
proof (induction steps arbitrary: s slot)
  case Nil
  then show ?case by (simp add: server_run_def)
next
  case (Cons step steps)
  obtain s1 slot1 where one: "server_step step (s, slot) = (s1, slot1)" by (metis prod.exhaust)
  have "P s1 slot1" using Cons.prems(1) [of step s slot] Cons.prems(2) one by simp
  then show ?case
    using Cons.IH [of s1 slot1] Cons.prems(1,3) one by (simp add: server_run_def)
qed

subsection \<open>What the socket calls leave alone\<close>

lemma wait_write_all_frame:
  "wait_write_all script bs s = (s', script', ok) \<Longrightarrow>
   \<exists>n. s' = s\<lparr>ss_wire := ss_wire s @ take n bs\<rparr> \<and> (ok \<longrightarrow> length bs \<le> n)"
proof (induction script arbitrary: bs s)
  case Nil
  then show ?case by (cases "bs = []") (auto intro: exI [of _ 0])
next
  case (Cons w rest)
  show ?case
  proof (cases "bs = []")
    case True
    then show ?thesis using Cons.prems by (auto intro: exI [of _ 0])
  next
    case bs: False
    have stay: "s' = s \<Longrightarrow> \<not> ok \<Longrightarrow> ?thesis" by (intro exI [of _ 0]) simp
    show ?thesis
    proof (cases w)
      case (Wrote k)
      show ?thesis
      proof (cases "k = 0")
        case True
        then show ?thesis using Cons.prems bs Wrote by (intro stay) simp_all
      next
        case False
        then obtain n where n: "s' = (took k bs s)\<lparr>ss_wire := ss_wire (took k bs s) @ take n (drop k bs)\<rparr>"
          "ok \<longrightarrow> length (drop k bs) \<le> n"
          using Cons.IH [of "drop k bs" "took k bs s"] Cons.prems bs Wrote by auto
        have "s' = s\<lparr>ss_wire := ss_wire s @ take (k + n) bs\<rparr>"
          unfolding n(1) took_def take_add by simp
        moreover have "ok \<longrightarrow> length bs \<le> k + n" using n(2) by auto
        ultimately show ?thesis by blast
      qed
    next
      case (WouldBlock ms)
      show ?thesis
      proof (cases "REMOTE_WRITE_TIMEOUT_MS \<le> ms")
        case True
        then show ?thesis using Cons.prems bs WouldBlock by (intro stay) simp_all
      next
        case False
        then show ?thesis using Cons.prems bs WouldBlock by (intro Cons.IH) simp
      qed
    next
      case LostWrite
      then show ?thesis using Cons.prems bs by (intro stay) simp_all
    next
      case FailedWrite
      then show ?thesis using Cons.prems bs by (intro stay) simp_all
    qed
  qed
qed

subsection \<open>The loops over the reads\<close>

text \<open>What each read keeps in the loop, with the octets still to come, gives what holds after it.\<close>

lemma read_packets_invariant:
  assumes absorb: "\<And>k s bs. P (k + length bs) s \<Longrightarrow> bs \<noteq> [] \<Longrightarrow>
             length bs \<le> INPUT_PACKET_SIZE - length (ss_packet_buffer s) \<Longrightarrow> P k (take_input bs s)"
    and leave: "\<And>k s. P k s \<Longrightarrow> Q s \<and> Q (close_client s)"
    and fewer: "\<And>k l s. P k s \<Longrightarrow> l \<le> k \<Longrightarrow> P l s"
    and start: "P (read_cost script) s"
  shows "Q (read_packets script s)"
  using start
proof (induction script s rule: read_packets.induct)
  case (1 script s)
  obtain r script' where read: "socket_read (INPUT_PACKET_SIZE - length (ss_packet_buffer s)) script = (r, script')"
    by fastforce
  note out = leave [OF "1.prems"]
  show ?case
  proof (cases r)
    case (Arrive bs)
    show ?thesis
    proof (cases "bs = []")
      case False
      note cost = socket_read_cost [OF read [unfolded Arrive]]
      have "P (read_cost script' + length bs) s" using fewer "1.prems" cost by blast
      then have "P (read_cost script') (take_input bs s)" using absorb False cost by blast
      then show ?thesis
        using "1.IH" [OF read [symmetric] Arrive False] False Arrive read
        by (simp add: read_packets.simps [of script s])
    qed (use out Arrive read in \<open>simp add: read_packets.simps [of script s]\<close>)
  qed (use out read in \<open>simp_all add: read_packets.simps [of script s]\<close>)
qed

text \<open>How far the opening packet can get.\<close>

definition opened :: "string \<Rightarrow> bytes \<Rightarrow> bool" where
  "opened token up \<longleftrightarrow> AUTH_PACKET_SIZE \<le> length up \<and> take 5 up = AUTH_MAGIC \<and>
     bytes_text (slice 5 AUTH_TOKEN_SIZE up) = token"

lemma read_auth_packet_result:
  assumes "read_auth_packet script s = (s', script', ok)"
    "ss_uplink s = ss_auth_buffer s" "length (ss_auth_buffer s) \<le> AUTH_PACKET_SIZE"
  shows "read_cost script' \<le> read_cost script \<and>
     (\<exists>up. if ok then length up = AUTH_PACKET_SIZE \<and> opened (ss_token s) up \<and>
                     s' = s\<lparr>ss_authenticated := True, ss_auth_buffer := [], ss_uplink := up\<rparr>
           else length up < AUTH_PACKET_SIZE \<and> s' = s\<lparr>ss_auth_buffer := up, ss_uplink := up\<rparr> \<or>
                s' = close_client (s\<lparr>ss_auth_buffer := up, ss_uplink := up\<rparr>))"
  using assms
proof (induction script s rule: read_auth_packet.induct)
  case (1 script s)
  have same: "s\<lparr>ss_auth_buffer := ss_uplink s, ss_uplink := ss_uplink s\<rparr> = s"
    using "1.prems"(2) by (cases s) simp
  show ?case
  proof (cases "length (ss_auth_buffer s) < AUTH_PACKET_SIZE")
    case False
    then have len: "length (ss_uplink s) = AUTH_PACKET_SIZE" using "1.prems" by simp
    show ?thesis
    proof (cases "auth_packet_matches s")
      case True
      then have "s' = s\<lparr>ss_authenticated := True, ss_auth_buffer := []\<rparr>" "script' = script" ok
        using "1.prems"(1) False by (auto simp: read_auth_packet.simps [of script s])
      moreover have "opened (ss_token s) (ss_uplink s)"
        using True len "1.prems"(2) by (simp add: opened_def auth_packet_matches_def)
      ultimately show ?thesis using len by (intro conjI exI [of _ "ss_uplink s"]) simp_all
    next
      case no: False
      then have "s' = close_client s" "script' = script" "\<not> ok"
        using "1.prems"(1) False by (auto simp: read_auth_packet.simps [of script s])
      then show ?thesis using same by (intro conjI exI [of _ "ss_uplink s"]) simp_all
    qed
  next
    case True
    obtain r rest where read: "socket_read (AUTH_PACKET_SIZE - length (ss_auth_buffer s)) script = (r, rest)"
      by fastforce
    have le: "read_cost rest \<le> read_cost script" by (rule socket_read_le [OF read])
    show ?thesis
    proof (cases r)
      case (Arrive bs)
      show ?thesis
      proof (cases "bs = []")
        case empty: True
        then have "s' = close_client s" "script' = rest" "\<not> ok"
          using "1.prems"(1) True Arrive read by (auto simp: read_auth_packet.simps [of script s])
        then show ?thesis using le same by (intro conjI exI [of _ "ss_uplink s"]) simp_all
      next
        case more: False
        let ?s = "s\<lparr>ss_auth_buffer := ss_auth_buffer s @ bs, ss_uplink := ss_uplink s @ bs\<rparr>"
        have "read_auth_packet rest ?s = (s', script', ok)"
          using "1.prems"(1) True Arrive read more by (simp add: read_auth_packet.simps [of script s])
        moreover have "ss_uplink ?s = ss_auth_buffer ?s" using "1.prems"(2) by simp
        moreover have "length (ss_auth_buffer ?s) \<le> AUTH_PACKET_SIZE"
          using socket_read_cost [OF read [unfolded Arrive]] True by (simp, linarith)
        ultimately have ih: "read_cost script' \<le> read_cost rest \<and>
          (\<exists>up. if ok then length up = AUTH_PACKET_SIZE \<and> opened (ss_token ?s) up \<and>
                     s' = ?s\<lparr>ss_authenticated := True, ss_auth_buffer := [], ss_uplink := up\<rparr>
           else length up < AUTH_PACKET_SIZE \<and> s' = ?s\<lparr>ss_auth_buffer := up, ss_uplink := up\<rparr> \<or>
                s' = close_client (?s\<lparr>ss_auth_buffer := up, ss_uplink := up\<rparr>))"
          by (rule "1.IH" [OF True read [symmetric] Arrive more])
        then have "read_cost script' \<le> read_cost script" using le by linarith
        moreover have "ss_token ?s = ss_token s"
          "?s\<lparr>ss_authenticated := True, ss_auth_buffer := [], ss_uplink := up\<rparr> =
             s\<lparr>ss_authenticated := True, ss_auth_buffer := [], ss_uplink := up\<rparr>"
          "?s\<lparr>ss_auth_buffer := up, ss_uplink := up\<rparr> = s\<lparr>ss_auth_buffer := up, ss_uplink := up\<rparr>" for up
          by simp_all
        ultimately show ?thesis using ih by presburger
      qed
    next
      case NoData
      then have "s' = s" "script' = rest" "\<not> ok"
        using "1.prems"(1) True read by (auto simp: read_auth_packet.simps [of script s])
      then show ?thesis using le same True "1.prems"(2)
        by (intro conjI exI [of _ "ss_uplink s"]) simp_all
    next
      case LostRead
      then have "s' = close_client s" "script' = rest" "\<not> ok"
        using "1.prems"(1) True read by (auto simp: read_auth_packet.simps [of script s])
      then show ?thesis using le same by (intro conjI exI [of _ "ss_uplink s"]) simp_all
    next
      case FailedRead
      then have "s' = close_client s" "script' = rest" "\<not> ok"
        using "1.prems"(1) True read by (auto simp: read_auth_packet.simps [of script s])
      then show ?thesis using le same by (intro conjI exI [of _ "ss_uplink s"]) simp_all
    qed
  qed
qed

subsection \<open>The uplink\<close>

text \<open>The octets after the opening packet, cut into full input packets and a rest.\<close>

function cut_packets :: "bytes \<Rightarrow> bytes list \<times> bytes" where
  "cut_packets bs =
     (if length bs < INPUT_PACKET_SIZE then ([], bs)
      else (take INPUT_PACKET_SIZE bs # fst (cut_packets (drop INPUT_PACKET_SIZE bs)),
            snd (cut_packets (drop INPUT_PACKET_SIZE bs))))"
  by pat_completeness auto
termination
  by (relation "measure length") (auto simp: INPUT_PACKET_SIZE_def)

declare cut_packets.simps [simp del]

text \<open>The player's input is that of the last packet whose number is not behind an earlier one.\<close>

definition newest :: "bytes list \<Rightarrow> u32 \<times> u64 \<times> u8" where
  "newest packets = foldl (\<lambda>(seq, stamp, buttons) p.
     if get_be32 p < seq then (seq, stamp, buttons) else (get_be32 p, get_be64 (drop 4 p), p ! 12))
     (0, 0, 0) packets"

definition uplink_body :: "stream_server \<Rightarrow> bytes" where
  "uplink_body s = drop (if ss_auth_required s then AUTH_PACKET_SIZE else 0) (ss_uplink s)"

lemma cut_packets_short [simp]: "length bs < INPUT_PACKET_SIZE \<Longrightarrow> cut_packets bs = ([], bs)"
  by (simp add: cut_packets.simps)

lemma cut_packets_Nil [simp]: "cut_packets [] = ([], [])"
  by (simp add: INPUT_PACKET_SIZE_def)

lemma cut_packets_one: "length bs = INPUT_PACKET_SIZE \<Longrightarrow> cut_packets bs = ([bs], [])"
  by (simp add: cut_packets.simps [of bs])

lemma cut_packets_rest: "length (snd (cut_packets bs)) < INPUT_PACKET_SIZE"
  by (induction bs rule: cut_packets.induct) (metis cut_packets.simps not_less snd_conv)

lemma cut_packets_append:
  "cut_packets (xs @ bs) =
     (fst (cut_packets xs) @ fst (cut_packets (snd (cut_packets xs) @ bs)),
      snd (cut_packets (snd (cut_packets xs) @ bs)))"
proof (induction xs rule: cut_packets.induct)
  case (1 xs)
  show ?case
  proof (cases "length xs < INPUT_PACKET_SIZE")
    case False
    then show ?thesis
      using "1.IH" by (simp add: cut_packets.simps [of "xs @ bs"] cut_packets.simps [of xs])
  qed simp
qed

lemma newest_snoc:
  "newest (packets @ [p]) = (case newest packets of (seq, stamp, buttons) \<Rightarrow>
     if get_be32 p < seq then (seq, stamp, buttons) else (get_be32 p, get_be64 (drop 4 p), p ! 12))"
  by (simp add: newest_def case_prod_beta)

text \<open>
  The state between calls; \<open>k\<close> octets are still to come. The flag \<open>counted\<close> adds the claim about the
  input view, which needs the packet counter not to wrap around.
\<close>

definition uplink_ok :: "bool \<Rightarrow> nat \<Rightarrow> stream_server \<Rightarrow> bool" where
  "uplink_ok counted k s \<longleftrightarrow>
     (\<not> ss_client s \<longrightarrow> ss_buttons s = 0) \<and>
     (ss_client s \<and> \<not> admitted s \<longrightarrow>
        ss_buttons s = 0 \<and> ss_seq s = 0 \<and> ss_stamp s = 0 \<and> ss_packet_buffer s = [] \<and>
        ss_uplink s = ss_auth_buffer s \<and> length (ss_auth_buffer s) < AUTH_PACKET_SIZE) \<and>
     (admitted s \<longrightarrow>
        (ss_auth_required s \<longrightarrow> opened (ss_token s) (ss_uplink s)) \<and>
        ss_packet_buffer s = snd (cut_packets (uplink_body s)) \<and>
        (counted \<longrightarrow>
          (ss_packets_received s = 0 \<longrightarrow> ss_seq s = 0) \<and>
          (ss_seq s, ss_stamp s, ss_buttons s) = newest (fst (cut_packets (uplink_body s))))) \<and>
     (counted \<longrightarrow> unat (ss_packets_received s) + k < 2 ^ 32)"

lemma uplink_ok_fewer: "uplink_ok counted k s \<Longrightarrow> l \<le> k \<Longrightarrow> uplink_ok counted l s"
  by (auto simp: uplink_ok_def)

lemma uplink_ok_close: "uplink_ok counted k s \<Longrightarrow> uplink_ok counted k (close_client s)"
  by (auto simp: uplink_ok_def close_client_def admitted_def)

lemma uplink_ok_take_input:
  assumes ok: "uplink_ok counted (k + length bs) s" and in_loop: "admitted s" and bs: "bs \<noteq> []"
    and fits: "length bs \<le> INPUT_PACKET_SIZE - length (ss_packet_buffer s)"
  shows "uplink_ok counted k (take_input bs s) \<and> admitted (take_input bs s)"
proof -
  let ?s = "take_input bs s"
  have parts: "ss_auth_required s \<longrightarrow> opened (ss_token s) (ss_uplink s)"
    "ss_packet_buffer s = snd (cut_packets (uplink_body s))"
    using ok in_loop by (auto simp: uplink_ok_def)
  have view: "ss_packets_received s = 0 \<longrightarrow> ss_seq s = 0"
    "(ss_seq s, ss_stamp s, ss_buttons s) = newest (fst (cut_packets (uplink_body s)))"
    "unat (ss_packets_received s) + (k + length bs) < 2 ^ 32" if counted
    using ok in_loop that by (auto simp: uplink_ok_def)
  have opened': "opened t (up @ bs)" if "opened t up" for t up
    using that by (auto simp: opened_def slice_append_left AUTH_PACKET_SIZE_def AUTH_TOKEN_SIZE_def)
  have frame: "ss_client ?s = ss_client s" "ss_auth_required ?s = ss_auth_required s"
    "ss_authenticated ?s = ss_authenticated s" "ss_token ?s = ss_token s" "ss_uplink ?s = ss_uplink s @ bs"
    by (simp_all add: take_input_def handle_packet_def Let_def)
  have adm: "admitted ?s" using in_loop frame by (simp add: admitted_def)
  have body: "uplink_body ?s = uplink_body s @ bs"
    using frame parts(1) in_loop by (auto simp: uplink_body_def opened_def)
  have len: "length (ss_packet_buffer s @ bs) \<le> INPUT_PACKET_SIZE"
    using fits cut_packets_rest [of "uplink_body s"] parts(2) by auto
  show ?thesis
  proof (cases "length (ss_packet_buffer s @ bs) = INPUT_PACKET_SIZE")
    case False
    then have short: "length (ss_packet_buffer s @ bs) < INPUT_PACKET_SIZE" using len by linarith
    then have cut: "cut_packets (uplink_body ?s) = (fst (cut_packets (uplink_body s)), ss_packet_buffer s @ bs)"
      unfolding body cut_packets_append [of "uplink_body s" bs] parts(2) [symmetric] by simp
    have s': "?s = s\<lparr>ss_packet_buffer := ss_packet_buffer s @ bs, ss_uplink := ss_uplink s @ bs\<rparr>"
      using short by (simp add: take_input_def Let_def)
    show ?thesis
      using adm cut parts view opened' unfolding uplink_ok_def by (auto simp: s' admitted_def)
  next
    case True
    let ?p = "ss_packet_buffer s @ bs"
    have cut: "cut_packets (uplink_body ?s) = (fst (cut_packets (uplink_body s)) @ [?p], [])"
      unfolding body cut_packets_append [of "uplink_body s" bs] parts(2) [symmetric]
      by (simp add: cut_packets_one [OF True])
    let ?s1 = "s\<lparr>ss_packet_buffer := ?p, ss_uplink := ss_uplink s @ bs\<rparr>"
    have s': "?s = (handle_packet ?p ?s1)\<lparr>ss_packet_buffer := []\<rparr>"
      using True by (simp add: take_input_def Let_def)
    have handled: "ss_seq ?s = (if get_be32 ?p < ss_seq s then ss_seq s else get_be32 ?p) \<and>
         ss_stamp ?s = (if get_be32 ?p < ss_seq s then ss_stamp s else get_be64 (drop 4 ?p)) \<and>
         ss_buttons ?s = (if get_be32 ?p < ss_seq s then ss_buttons s else ?p ! 12) \<and>
         ss_packets_received ?s =
           (if get_be32 ?p < ss_seq s then ss_packets_received s else ss_packets_received s + 1)"
      if counted
    proof (cases "get_be32 ?p < ss_seq s")
      case True
      then have "ss_packets_received s \<noteq> 0" using view(1) [OF that] by auto
      then show ?thesis using True by (simp add: s' handle_packet_def Let_def word_gt_0)
    qed (simp add: s' handle_packet_def Let_def)
    have seen: "(ss_seq ?s, ss_stamp ?s, ss_buttons ?s) = newest (fst (cut_packets (uplink_body ?s)))"
      if counted
      unfolding cut fst_conv newest_snoc view(2) [OF that, symmetric] prod.case
      using handled [OF that] by simp
    have count: "unat (ss_packets_received ?s) + k < 2 ^ 32 \<and> (ss_packets_received ?s = 0 \<longrightarrow> ss_seq ?s = 0)"
      if counted
    proof -
      have "unat (ss_packets_received s) + 1 < 2 ^ 32" "0 < length bs"
        using view(3) [OF that] bs by (cases bs, auto)
      then have "unat (ss_packets_received s + 1) = unat (ss_packets_received s) + 1"
        by (simp add: unat_word_ariths(1))
      then have "unat (ss_packets_received s + 1) + k < 2 ^ 32" "ss_packets_received s + 1 \<noteq> 0"
        using view(3) [OF that] \<open>0 < length bs\<close> by (linarith, force)
      then show ?thesis
        using handled [OF that] view(1,3) [OF that] by (auto split: if_splits)
    qed
    show ?thesis
      using adm cut parts seen count opened' frame unfolding uplink_ok_def
      by (auto simp: s' admitted_def)
  qed
qed

lemma uplink_ok_read_packets:
  assumes "uplink_ok counted (read_cost script + l) s" "admitted s"
  shows "uplink_ok counted l (read_packets script s)"
proof (rule read_packets_invariant [where P = "\<lambda>k s. uplink_ok counted (k + l) s \<and> admitted s"
    and Q = "uplink_ok counted l"])
  show "uplink_ok counted (k + l) (take_input bs s) \<and> admitted (take_input bs s)"
    if "uplink_ok counted (k + length bs + l) s \<and> admitted s" "bs \<noteq> []"
      "length bs \<le> INPUT_PACKET_SIZE - length (ss_packet_buffer s)" for k s bs
    using that uplink_ok_take_input [of counted "k + l" bs s] by (simp add: ac_simps)
  show "uplink_ok counted l s \<and> uplink_ok counted l (close_client s)"
    if "uplink_ok counted (k + l) s \<and> admitted s" for k s
    using that uplink_ok_fewer [of counted "k + l" s l] uplink_ok_close by auto
  show "uplink_ok counted (j + l) s \<and> admitted s"
    if "uplink_ok counted (k + l) s \<and> admitted s" "j \<le> k" for k j s
    using that uplink_ok_fewer [of counted "k + l" s "j + l"] by auto
qed (use assms in simp)

lemma uplink_ok_frame [simp]:
  "uplink_ok counted k (s\<lparr>ss_wire := w\<rparr>) = uplink_ok counted k s"
  "uplink_ok counted k (s\<lparr>ss_sent := n\<rparr>) = uplink_ok counted k s"
  "uplink_ok counted k (s\<lparr>ss_downlink := d\<rparr>) = uplink_ok counted k s"
  "uplink_ok counted k (s\<lparr>ss_queued := q\<rparr>) = uplink_ok counted k s"
  "uplink_ok counted k (s\<lparr>ss_frame_seq := a\<rparr>) = uplink_ok counted k s"
  "uplink_ok counted k (s\<lparr>ss_audio_seq := a\<rparr>) = uplink_ok counted k s"
  "uplink_ok counted k (s\<lparr>ss_frames_queued := a\<rparr>) = uplink_ok counted k s"
  "uplink_ok counted k (s\<lparr>ss_frames_sent := a\<rparr>) = uplink_ok counted k s"
  "uplink_ok counted k (s\<lparr>ss_audio_queued := a\<rparr>) = uplink_ok counted k s"
  "uplink_ok counted k (s\<lparr>ss_audio_sent := a\<rparr>) = uplink_ok counted k s"
  "uplink_ok counted k (s\<lparr>ss_save_returns := a\<rparr>) = uplink_ok counted k s"
  "uplink_ok counted k (s\<lparr>ss_buttons_applied := b\<rparr>) = uplink_ok counted k s"
  "uplink_ok counted k (s\<lparr>ss_input_applied := i\<rparr>) = uplink_ok counted k s"
  "uplink_ok counted k (s\<lparr>ss_release_pending := i\<rparr>) = uplink_ok counted k s"
  "uplink_ok counted k (s\<lparr>ss_applied_seq := a\<rparr>) = uplink_ok counted k s"
  "uplink_ok counted k (s\<lparr>ss_applied_stamp := t\<rparr>) = uplink_ok counted k s"
  by (simp_all add: uplink_ok_def admitted_def uplink_body_def)

lemma uplink_ok_accept: "uplink_ok counted k s \<Longrightarrow> uplink_ok counted k (accept_client result now s)"
  by (auto simp: uplink_ok_def accept_client_def admitted_def uplink_body_def newest_def AUTH_PACKET_SIZE_def)

lemma uplink_ok_read_client:
  assumes ok: "uplink_ok counted (read_cost script + l) s"
  shows "uplink_ok counted l (read_client script s)"
proof (cases "ss_client s \<and> \<not> admitted s")
  case False
  then show ?thesis
    using uplink_ok_read_packets [OF ok] uplink_ok_fewer [OF ok, of l]
    by (auto simp: read_client_def admitted_def)
next
  case True
  obtain s1 script1 good where run: "read_auth_packet script s = (s1, script1, good)"
    by (metis prod_cases3)
  have start: "ss_uplink s = ss_auth_buffer s" "length (ss_auth_buffer s) \<le> AUTH_PACKET_SIZE"
    "ss_buttons s = 0" "ss_seq s = 0" "ss_stamp s = 0" "ss_packet_buffer s = []"
    using ok True by (auto simp: uplink_ok_def)
  obtain up where up: "if good then length up = AUTH_PACKET_SIZE \<and> opened (ss_token s) up \<and>
                     s1 = s\<lparr>ss_authenticated := True, ss_auth_buffer := [], ss_uplink := up\<rparr>
           else length up < AUTH_PACKET_SIZE \<and> s1 = s\<lparr>ss_auth_buffer := up, ss_uplink := up\<rparr> \<or>
                s1 = close_client (s\<lparr>ss_auth_buffer := up, ss_uplink := up\<rparr>)"
    and le: "read_cost script1 \<le> read_cost script"
    using read_auth_packet_result [OF run start(1,2)] by blast
  have loop: "read_client script s = (if good then read_packets script1 s1 else s1)"
    using True run by (simp add: read_client_def admitted_def)
  show ?thesis
  proof (cases good)
    case True
    then have "uplink_ok counted (read_cost script1 + l) s1 \<and> admitted s1"
      using up ok le start \<open>ss_client s \<and> \<not> admitted s\<close>
      by (auto simp: uplink_ok_def admitted_def uplink_body_def newest_def)
    then show ?thesis using loop True uplink_ok_read_packets by simp
  next
    case False
    have "uplink_ok counted l s1"
      using up ok start True False
      by (auto simp: uplink_ok_def admitted_def uplink_body_def close_client_def)
    then show ?thesis using loop False by simp
  qed
qed

subsection \<open>The wire\<close>

text \<open>What was sent and what waits make up what was queued, packet after packet.\<close>

definition wire_ok :: "stream_server \<Rightarrow> bool" where
  "wire_ok s \<longleftrightarrow>
     (ss_client s \<longrightarrow> ss_wire s @ drop (ss_sent s) (ss_downlink s) = ss_queued s \<and>
        ss_sent s \<le> length (ss_downlink s)) \<and>
     (\<not> ss_client s \<longrightarrow> ss_downlink s = [] \<and> ss_sent s = 0) \<and>
     (ss_client s \<and> \<not> admitted s \<longrightarrow> ss_queued s = [] \<and> ss_downlink s = [])"

definition moved :: "nat \<Rightarrow> stream_server \<Rightarrow> stream_server" where
  "moved n s = s\<lparr>ss_wire := ss_wire s @ take n (drop (ss_sent s) (ss_downlink s)),
                 ss_sent := ss_sent s + n\<rparr>"

lemma moved_moved:
  "moved m (moved n s) = moved (n + m) s"
  by (simp add: moved_def take_add [of n m] add.commute [of n "ss_sent s"] add.assoc)

lemma flush_downlink_frame:
  "flush_downlink script s = (s', ok) \<Longrightarrow> ss_sent s \<le> length (ss_downlink s) \<Longrightarrow>
   \<exists>n. n \<le> length (ss_downlink s) - ss_sent s \<and>
       (s' = moved n s \<and> (ok \<longrightarrow> \<not> ss_client s \<or> ss_sent s' = length (ss_downlink s)) \<or>
        \<not> ok \<and> s' = close_client (moved n s))"
proof (induction script arbitrary: s)
  have none: "moved 0 s = s" for s by (simp add: moved_def)
  {
    case Nil
    then show ?case
      by (intro exI [of _ 0]) (auto simp: flush_downlink.simps [of "[]" s] none split: if_splits)
  next
    case (Cons w rest)
    show ?case
    proof (cases "ss_client s \<and> ss_sent s < length (ss_downlink s)")
      case False
      then have "s' = s" "ok" using Cons.prems(1) by (auto simp: flush_downlink.simps [of "w # rest" s])
      then show ?thesis using False Cons.prems(2) by (intro exI [of _ 0]) (auto simp: none)
    next
      case True
      let ?bs = "drop (ss_sent s) (ss_downlink s)"
      show ?thesis
      proof (cases "\<exists>k. w = Wrote k \<and> 0 < k")
        case False
        then have "s' = s \<and> \<not> ok \<or> s' = close_client s \<and> \<not> ok"
          using Cons.prems(1) True
          by (auto simp: flush_downlink.simps [of "w # rest" s] Let_def split: write_result.splits if_splits)
        then show ?thesis by (intro exI [of _ 0]) (auto simp: none)
      next
        case more: True
        then obtain k where w: "w = Wrote k" "0 < k" by blast
        let ?m = "min k (length ?bs)"
        have step: "(took k ?bs s)\<lparr>ss_sent := ss_sent s + ?m\<rparr> = moved ?m s"
          by (simp add: took_def moved_def min_def)
        have run: "flush_downlink rest (moved ?m s) = (s', ok)"
          using Cons.prems(1) True w unfolding step [symmetric]
          by (simp add: flush_downlink.simps [of "Wrote k # rest" s] Let_def)
        have m: "?m \<le> length (ss_downlink s) - ss_sent s" by simp
        have "ss_sent (moved ?m s) \<le> length (ss_downlink (moved ?m s))"
          using Cons.prems(2) by (simp add: moved_def)
        from Cons.IH [OF run this] obtain n where n:
          "n \<le> length (ss_downlink (moved ?m s)) - ss_sent (moved ?m s)"
          "s' = moved n (moved ?m s) \<and> (ok \<longrightarrow> \<not> ss_client (moved ?m s) \<or> ss_sent s' = length (ss_downlink (moved ?m s))) \<or>
           \<not> ok \<and> s' = close_client (moved n (moved ?m s))" by blast
        then show ?thesis
          unfolding moved_moved using m by (intro exI [of _ "?m + n"]) (auto simp: moved_def)
      qed
    qed
  }
qed

lemma close_client_wire_ok: "wire_ok s \<Longrightarrow> wire_ok (close_client s)"
  by (auto simp: wire_ok_def close_client_def admitted_def)

lemma wire_ok_moved:
  assumes "wire_ok s" "n \<le> length (ss_downlink s) - ss_sent s"
  shows "wire_ok (moved n s)"
  using assms take_add [of n "length (ss_downlink s)" "drop (ss_sent s) (ss_downlink s)"]
  by (auto simp: wire_ok_def moved_def admitted_def add.commute)

lemma wire_ok_count: "wire_ok s \<Longrightarrow> wire_ok (count_downlink s)"
  by (auto simp: wire_ok_def count_downlink_def admitted_def)

lemma uplink_ok_count: "uplink_ok counted k s \<Longrightarrow> uplink_ok counted k (count_downlink s)"
  by (simp add: count_downlink_def)

lemma uplink_ok_moved: "uplink_ok counted k s \<Longrightarrow> uplink_ok counted k (moved n s)"
  by (simp add: moved_def)

lemma wire_ok_take_input: "wire_ok s \<Longrightarrow> admitted s \<Longrightarrow> wire_ok (take_input bs s) \<and> admitted (take_input bs s)"
  by (simp add: wire_ok_def take_input_def handle_packet_def admitted_def Let_def)

lemma wire_ok_read_packets:
  assumes "wire_ok s" "admitted s"
  shows "wire_ok (read_packets script s)"
proof (rule read_packets_invariant [where P = "\<lambda>k s. wire_ok s \<and> admitted s" and Q = wire_ok])
  show "wire_ok (take_input bs s) \<and> admitted (take_input bs s)" if "wire_ok s \<and> admitted s" for s bs
    using that wire_ok_take_input by blast
  show "wire_ok s \<and> wire_ok (close_client s)" if "wire_ok s \<and> admitted s" for s
    using that close_client_wire_ok by blast
qed (use assms in auto)

lemma wire_ok_read_client:
  assumes ok: "wire_ok s" and up: "uplink_ok counted k s"
  shows "wire_ok (read_client script s)"
proof (cases "ss_client s \<and> \<not> admitted s")
  case False
  then show ?thesis using wire_ok_read_packets [OF ok] ok by (auto simp: read_client_def admitted_def)
next
  case True
  obtain s1 script1 good where run: "read_auth_packet script s = (s1, script1, good)"
    by (metis prod_cases3)
  have start: "ss_uplink s = ss_auth_buffer s" "length (ss_auth_buffer s) \<le> AUTH_PACKET_SIZE"
    using up True by (auto simp: uplink_ok_def)
  obtain up where up: "if good then length up = AUTH_PACKET_SIZE \<and> opened (ss_token s) up \<and>
                     s1 = s\<lparr>ss_authenticated := True, ss_auth_buffer := [], ss_uplink := up\<rparr>
           else length up < AUTH_PACKET_SIZE \<and> s1 = s\<lparr>ss_auth_buffer := up, ss_uplink := up\<rparr> \<or>
                s1 = close_client (s\<lparr>ss_auth_buffer := up, ss_uplink := up\<rparr>)"
    using read_auth_packet_result [OF run start(1,2)] by blast
  have loop: "read_client script s = (if good then read_packets script1 s1 else s1)"
    using True run by (simp add: read_client_def admitted_def)
  have half: "wire_ok (s\<lparr>ss_auth_buffer := up, ss_uplink := up\<rparr>)"
    using ok by (simp add: wire_ok_def admitted_def)
  show ?thesis
  proof (cases good)
    case True
    then have "wire_ok s1 \<and> admitted s1"
      using up ok \<open>ss_client s \<and> \<not> admitted s\<close> by (auto simp: wire_ok_def admitted_def)
    then show ?thesis using loop True wire_ok_read_packets by simp
  next
    case False
    then show ?thesis using loop up half close_client_wire_ok [OF half] by auto
  qed
qed

lemma wire_ok_accept: "wire_ok s \<Longrightarrow> wire_ok (accept_client result now s)"
  by (auto simp: wire_ok_def accept_client_def admitted_def)

subsection \<open>Every call keeps both\<close>

definition link_ok :: "bool \<Rightarrow> nat \<Rightarrow> stream_server \<Rightarrow> bool" where
  "link_ok counted k s \<longleftrightarrow> uplink_ok counted k s \<and> wire_ok s"

lemma link_ok_poll:
  assumes "link_ok counted (read_cost (pi_reads e) + k) s"
  shows "link_ok counted k (stream_poll e s)"
proof (cases "ss_active s")
  case False
  then show ?thesis using assms uplink_ok_fewer by (fastforce simp: stream_poll_def link_ok_def)
next
  case True
  define s1 where "s1 = read_client (pi_reads e) (accept_client (pi_accept e) (pi_accept_time e) s)"
  have s1: "uplink_ok counted k s1" "wire_ok s1"
    unfolding s1_def using assms
    by (auto simp: link_ok_def intro!: uplink_ok_read_client wire_ok_read_client uplink_ok_accept wire_ok_accept)
  obtain s2 ok where flush: "flush_downlink (pi_writes e) s1 = (s2, ok)" by fastforce
  obtain n where n: "n \<le> length (ss_downlink s1) - ss_sent s1" "s2 = moved n s1 \<or> s2 = close_client (moved n s1)"
    using flush_downlink_frame [OF flush] s1(2) by (cases "ss_client s1") (auto simp: wire_ok_def)
  have "uplink_ok counted k s2" "wire_ok s2"
    using n(2) s1 wire_ok_moved [OF s1(2) n(1)] uplink_ok_moved [OF s1(1), of n]
    by (auto intro: uplink_ok_close close_client_wire_ok)
  then show ?thesis
    using True flush s1
    by (auto simp: stream_poll_def s1_def [symmetric] link_ok_def Let_def
          intro: uplink_ok_close close_client_wire_ok uplink_ok_count wire_ok_count split: bool.splits)
qed

lemma link_ok_apply_input: "link_ok counted k s \<Longrightarrow> link_ok counted k (fst (apply_input s slot))"
  by (auto simp: link_ok_def apply_input_def release_remote_buttons_def wire_ok_def admitted_def)

lemma may_queue_admitted: "may_queue s \<Longrightarrow> admitted s"
  by (auto simp: may_queue_def admitted_def)

lemma link_ok_queue_frame: "link_ok counted k s \<Longrightarrow> link_ok counted k (stream_queue_frame slot pixels now s)"
  using may_queue_admitted [of s]
  by (auto simp: link_ok_def stream_queue_frame_def wire_ok_def admitted_def Let_def)

lemma link_ok_queue_audio: "link_ok counted k s \<Longrightarrow> link_ok counted k (stream_queue_audio samples frames now s)"
  using may_queue_admitted [of s]
  by (auto simp: link_ok_def stream_queue_audio_def wire_ok_def admitted_def Let_def)

lemma wait_write_all_ok:
  "wait_write_all script bs s = (s', script', ok) \<Longrightarrow> ok \<Longrightarrow> s' = s\<lparr>ss_wire := ss_wire s @ bs\<rparr>"
  using wait_write_all_frame [of script bs s s' script' ok] by auto

lemma wait_write_all_failed:
  "wait_write_all script bs s = (s', script', ok) \<Longrightarrow> \<not> ok \<Longrightarrow> \<exists>w. s' = s\<lparr>ss_wire := w\<rparr>"
  using wait_write_all_frame [of script bs s s' script' ok] by auto

lemma send_chunks_result:
  "send_chunks remaining content script s = (s', r) \<Longrightarrow> remaining \<le> length content \<Longrightarrow>
   r = 0 \<and> s' = s\<lparr>ss_wire := ss_wire s @ take remaining content, ss_save_returns := ss_save_returns s + 1\<rparr> \<or>
   r = - 1 \<and> (\<exists>w. s' = close_client (s\<lparr>ss_wire := w\<rparr>))"
proof (induction remaining content script s rule: send_chunks.induct)
  case (1 remaining content script s)
  show ?case
  proof (cases "remaining = 0")
    case True
    then show ?thesis using "1.prems" by (auto simp: send_chunks.simps [of 0 content script s])
  next
    case False
    let ?n = "if 8192 < remaining then 8192 else remaining"
    have n: "?n \<le> remaining" "?n \<le> length content" using "1.prems"(2) by auto
    obtain s1 script1 good where put: "wait_write_all script (take ?n content) s = (s1, script1, good)"
      by (metis prod_cases3)
    have fits: "\<not> length content < ?n" using n(2) by linarith
    note eq = send_chunks.simps [of remaining content script s, unfolded Let_def, unfolded put]
    show ?thesis
    proof (cases good)
      case bad: False
      then have "s' = close_client s1" "r = - 1"
        using "1.prems"(1) False fits unfolding eq by auto
      then show ?thesis using wait_write_all_failed [OF put bad] by blast
    next
      case True
      then have s1: "s1 = s\<lparr>ss_wire := ss_wire s @ take ?n content\<rparr>"
        using wait_write_all_ok [OF put] by blast
      have run: "send_chunks (remaining - ?n) (drop ?n content) script1 s1 = (s', r)"
        using "1.prems"(1) False fits True unfolding eq by auto
      have le: "remaining - ?n \<le> length (drop ?n content)" using "1.prems"(2) n by simp
      have "r = 0 \<and> s' = s1\<lparr>ss_wire := ss_wire s1 @ take (remaining - ?n) (drop ?n content),
                ss_save_returns := ss_save_returns s1 + 1\<rparr> \<or>
            r = - 1 \<and> (\<exists>w. s' = close_client (s1\<lparr>ss_wire := w\<rparr>))"
        by (rule "1.IH" [OF False refl fits put [symmetric] refl _ run le]) (simp add: True)
      moreover have "take ?n content @ take (remaining - ?n) (drop ?n content) = take remaining content"
        using take_add [of ?n "remaining - ?n" content] n(1) by simp
      ultimately show ?thesis unfolding s1 by auto
    qed
  qed
qed

lemma flush_before_save_result:
  assumes "flush_downlink_before_save script s = (s1, script1, ok)" "wire_ok s" "ss_client s"
  shows "if ok then \<exists>a b. s1 = s\<lparr>ss_wire := ss_queued s, ss_frames_sent := a, ss_audio_sent := b,
                              ss_downlink := [], ss_sent := 0\<rparr>
         else \<exists>w. s1 = s\<lparr>ss_wire := w\<rparr>"
proof -
  have parts: "ss_wire s @ drop (ss_sent s) (ss_downlink s) = ss_queued s" "ss_sent s \<le> length (ss_downlink s)"
    using assms(2,3) by (auto simp: wire_ok_def)
  have whole: "count_downlink (s\<lparr>ss_wire := ss_queued s, ss_sent := length (ss_downlink s)\<rparr>) =
      s\<lparr>ss_wire := ss_queued s, ss_frames_sent := a, ss_audio_sent := b, ss_downlink := [], ss_sent := 0\<rparr>"
    if "a = (if ss_downlink s \<noteq> [] \<and> ss_downlink s ! 0 = PACKET_VIDEO then ss_frames_sent s + 1 else ss_frames_sent s)"
      "b = (if ss_downlink s \<noteq> [] \<and> ss_downlink s ! 0 \<noteq> PACKET_VIDEO \<and> ss_downlink s ! 0 = PACKET_AUDIO
            then ss_audio_sent s + 1 else ss_audio_sent s)" for a b
    using that by (cases s) (auto simp: count_downlink_def)
  show ?thesis
  proof (cases "ss_sent s < length (ss_downlink s)")
    case False
    then have "ss_sent s = length (ss_downlink s)" "ss_wire s = ss_queued s" using parts by auto
    then have "s\<lparr>ss_wire := ss_queued s, ss_sent := length (ss_downlink s)\<rparr> = s" by (cases s) simp
    then show ?thesis
      using whole assms(1) False by (auto simp: flush_downlink_before_save_def)
  next
    case True
    obtain s2 script2 good where put:
      "wait_write_all script (drop (ss_sent s) (ss_downlink s)) s = (s2, script2, good)"
      by (metis prod_cases3)
    show ?thesis
    proof (cases good)
      case True
      then have "s2 = s\<lparr>ss_wire := ss_queued s\<rparr>" using wait_write_all_ok [OF put] parts(1) by simp
      then show ?thesis
        using whole assms(1) True put \<open>ss_sent s < length (ss_downlink s)\<close>
        by (auto simp: flush_downlink_before_save_def)
    next
      case False
      then show ?thesis
        using wait_write_all_failed [OF put] assms(1) put \<open>ss_sent s < length (ss_downlink s)\<close>
        by (auto simp: flush_downlink_before_save_def)
    qed
  qed
qed

text \<open>A file that reads as long as it said gives the packet on the wire or a closed connection.\<close>

definition file_ok :: "save_source option \<Rightarrow> bool" where
  "file_ok file = (case file of None \<Rightarrow> True | Some f \<Rightarrow> nat (sf_tell f) \<le> length (sf_content f))"

definition save_packet :: "save_source \<Rightarrow> bytes" where
  "save_packet f = PACKET_SAVE_RETURN # put_be32 (word_of_int (sf_tell f)) @
                   take (nat (sf_tell f)) (sf_content f)"

lemma send_save_file_result:
  assumes "send_save_file file script s = (s', r)" "wire_ok s" "file_ok file"
  shows "\<not> may_queue s \<and> s' = s \<and> r = 0 \<or>
     may_queue s \<and> (\<exists>a b. s' = s\<lparr>ss_wire := ss_queued s, ss_frames_sent := a, ss_audio_sent := b,
                              ss_downlink := [], ss_sent := 0\<rparr>) \<and> r = - 1 \<or>
     may_queue s \<and> (\<exists>a b f. file = Some f \<and> 0 \<le> sf_tell f \<and> sf_tell f \<le> MAX_SAVE_TRANSFER_BYTES \<and>
        s' = s\<lparr>ss_wire := ss_queued s @ save_packet f, ss_queued := ss_queued s @ save_packet f,
               ss_frames_sent := a, ss_audio_sent := b, ss_downlink := [], ss_sent := 0,
               ss_save_returns := ss_save_returns s + 1\<rparr>) \<and> r = 0 \<or>
     may_queue s \<and> (\<exists>w q a b d n. s' = close_client (s\<lparr>ss_wire := w, ss_queued := q, ss_frames_sent := a,
               ss_audio_sent := b, ss_downlink := d, ss_sent := n\<rparr>)) \<and> r = - 1"
proof (cases "may_queue s")
  case False
  then show ?thesis using assms(1) by (simp add: send_save_file_def)
next
  case True
  then have client: "ss_client s" by (simp add: may_queue_def)
  obtain s1 script1 good where flush: "flush_downlink_before_save script s = (s1, script1, good)"
    by (metis prod_cases3)
  note start = flush_before_save_result [OF flush assms(2) client]
  show ?thesis
  proof (cases good)
    case False
    then obtain w where "s1 = s\<lparr>ss_wire := w\<rparr>" using start by auto
    then have "s' = close_client (s\<lparr>ss_wire := w, ss_queued := ss_queued s, ss_frames_sent := ss_frames_sent s,
        ss_audio_sent := ss_audio_sent s, ss_downlink := ss_downlink s, ss_sent := ss_sent s\<rparr>)" "r = - 1"
      using assms(1) True flush False by (auto simp: send_save_file_def)
    then show ?thesis using True by blast
  next
    case good: True
    then obtain a b where s1: "s1 = s\<lparr>ss_wire := ss_queued s, ss_frames_sent := a, ss_audio_sent := b,
        ss_downlink := [], ss_sent := 0\<rparr>" using start by auto
    show ?thesis
    proof (cases "\<exists>f. file = Some f \<and> sf_seek_ok f \<and> 0 \<le> sf_tell f \<and> sf_tell f \<le> MAX_SAVE_TRANSFER_BYTES")
      case False
      then have "s' = s1" "r = - 1"
        using assms(1) True flush good
        by (auto simp: send_save_file_def not_less not_le split: option.splits if_splits)
      then show ?thesis using True s1 by blast
    next
      case usable: True
      then obtain f where f: "file = Some f" "sf_seek_ok f" "0 \<le> sf_tell f" "sf_tell f \<le> MAX_SAVE_TRANSFER_BYTES"
        by blast
      let ?header = "PACKET_SAVE_RETURN # put_be32 (word_of_int (sf_tell f))"
      let ?s2 = "s1\<lparr>ss_queued := ss_queued s1 @ ?header @ take (nat (sf_tell f)) (sf_content f)\<rparr>"
      obtain s3 script2 sent where put: "wait_write_all script1 ?header ?s2 = (s3, script2, sent)"
        by (metis prod_cases3)
      show ?thesis
      proof (cases sent)
        case False
        then obtain w where "s3 = ?s2\<lparr>ss_wire := w\<rparr>" using wait_write_all_failed [OF put] by blast
        moreover have "s' = close_client s3" "r = - 1"
          using assms(1) True flush good f put False by (auto simp: send_save_file_def Let_def)
        ultimately have "s' = close_client (s\<lparr>ss_wire := w, ss_queued := ss_queued s1 @ save_packet f,
            ss_frames_sent := a, ss_audio_sent := b, ss_downlink := [], ss_sent := 0\<rparr>)" "r = - 1"
          by (cases s; auto simp: s1 save_packet_def)+
        then show ?thesis using True by blast
      next
        case sent: True
        then have s3: "s3 = ?s2\<lparr>ss_wire := ss_wire ?s2 @ ?header\<rparr>" using wait_write_all_ok [OF put] by blast
        have "send_chunks (nat (sf_tell f)) (sf_content f) script2 s3 = (s', r)"
          using assms(1) True flush good f put sent by (auto simp: send_save_file_def Let_def)
        from send_chunks_result [OF this] consider
            "r = 0" "s' = s3\<lparr>ss_wire := ss_wire s3 @ take (nat (sf_tell f)) (sf_content f),
                            ss_save_returns := ss_save_returns s3 + 1\<rparr>"
          | w where "r = - 1" "s' = close_client (s3\<lparr>ss_wire := w\<rparr>)"
          using assms(3) f(1) by (auto simp: file_ok_def)
        then show ?thesis
        proof cases
          case 1
          then have "s' = s\<lparr>ss_wire := ss_queued s @ save_packet f, ss_queued := ss_queued s @ save_packet f,
               ss_frames_sent := a, ss_audio_sent := b, ss_downlink := [], ss_sent := 0,
               ss_save_returns := ss_save_returns s + 1\<rparr>"
            by (simp add: s3 s1 save_packet_def)
          then show ?thesis using 1 True f(1,3,4) by blast
        next
          case 2
          then have "s' = close_client (s\<lparr>ss_wire := w, ss_queued := ss_queued s @ save_packet f,
            ss_frames_sent := a, ss_audio_sent := b, ss_downlink := [], ss_sent := 0\<rparr>)"
            by (cases s) (simp add: s3 s1 save_packet_def)
          then show ?thesis using 2 True by blast
        qed
      qed
    qed
  qed
qed

text \<open>Whatever the file does, sending it touches the sending fields only, or closes.\<close>

definition sends :: "stream_server \<Rightarrow> stream_server \<Rightarrow> bool" where
  "sends s s' \<longleftrightarrow> (\<exists>w q a b d n r. s' = s\<lparr>ss_wire := w, ss_queued := q, ss_frames_sent := a,
     ss_audio_sent := b, ss_downlink := d, ss_sent := n, ss_save_returns := r\<rparr>)"

lemma sends_refl [simp]: "sends s s"
  unfolding sends_def
  by (intro exI [of _ "ss_wire s"] exI [of _ "ss_queued s"] exI [of _ "ss_frames_sent s"]
      exI [of _ "ss_audio_sent s"] exI [of _ "ss_downlink s"] exI [of _ "ss_sent s"]
      exI [of _ "ss_save_returns s"]) (cases s, simp)

lemma sends_trans: "sends s1 s2 \<Longrightarrow> sends s2 s3 \<Longrightarrow> sends s1 s3"
  by (auto simp: sends_def; cases s1; auto)

lemma sends_updates:
  "sends s (s\<lparr>ss_wire := w\<rparr>)" "sends s (s\<lparr>ss_sent := n\<rparr>)" "sends s (s\<lparr>ss_queued := q\<rparr>)"
  "sends s (s\<lparr>ss_save_returns := r\<rparr>)"
  by (cases s; auto simp: sends_def)+

lemma sends_count: "sends s (count_downlink s)"
  by (cases s) (auto simp: count_downlink_def sends_def)

lemma sends_wait: "wait_write_all script bs s = (s', script', ok) \<Longrightarrow> sends s s'"
  using wait_write_all_frame [of script bs s s' script' ok] sends_updates(1) by auto

lemma sends_chunks:
  "send_chunks remaining content script s = (s', r) \<Longrightarrow> sends s s' \<or> (\<exists>t. sends s t \<and> s' = close_client t)"
proof (induction remaining content script s rule: send_chunks.induct)
  case (1 remaining content script s)
  let ?n = "if 8192 < remaining then 8192 else remaining"
  obtain s1 script1 good where put: "wait_write_all script (take ?n content) s = (s1, script1, good)"
    by (metis prod_cases3)
  note eq = send_chunks.simps [of remaining content script s, unfolded Let_def, unfolded put]
  note s1 = sends_wait [OF put]
  consider "remaining = 0 \<or> length content < ?n" | "\<not> good" "s' = close_client s1"
    | "remaining \<noteq> 0" "\<not> length content < ?n" good
        "send_chunks (remaining - ?n) (drop ?n content) script1 s1 = (s', r)"
    using "1.prems" unfolding eq by (cases good) (auto split: if_splits)
  then show ?case
  proof cases
    case 1
    then have "s' = s \<or> s' = s\<lparr>ss_save_returns := ss_save_returns s + 1\<rparr>"
    proof
      assume "length content < ?n"
      then show ?thesis using "1.prems" unfolding eq by (simp split: if_split_asm)
    next
      assume "remaining = 0"
      then show ?thesis using "1.prems" unfolding eq by simp
    qed
    then show ?thesis using sends_updates(4) [of s] sends_refl [of s] by (elim disjE) simp_all
  next
    case 2
    then show ?thesis using s1 by blast
  next
    case 3
    have "sends s1 s' \<or> (\<exists>t. sends s1 t \<and> s' = close_client t)"
      by (rule "1.IH" [OF 3(1) refl 3(2) put [symmetric] refl _ 3(4)]) (simp add: 3(3))
    then show ?thesis using s1 sends_trans by blast
  qed
qed

lemma sends_save_file:
  assumes "send_save_file file script s = (s', r)"
  shows "s' = s \<or> may_queue s \<and> (sends s s' \<or> (\<exists>t. sends s t \<and> s' = close_client t))"
proof (cases "may_queue s")
  case False
  then show ?thesis using assms by (simp add: send_save_file_def)
next
  case True
  obtain s1 script1 good where flush: "flush_downlink_before_save script s = (s1, script1, good)"
    by (metis prod_cases3)
  have s1: "sends s s1"
  proof (cases "ss_sent s < length (ss_downlink s)")
    case False
    then show ?thesis using flush sends_count [of s] by (auto simp: flush_downlink_before_save_def)
  next
    case sent: True
    obtain s2 script2 ok where put:
      "wait_write_all script (drop (ss_sent s) (ss_downlink s)) s = (s2, script2, ok)"
      by (metis prod_cases3)
    have "s1 = s2 \<or> s1 = count_downlink (s2\<lparr>ss_sent := length (ss_downlink s2)\<rparr>)"
      using flush put sent by (cases ok) (auto simp: flush_downlink_before_save_def)
    then show ?thesis
      using sends_wait [OF put] sends_updates(2) [of s2] sends_count sends_trans by blast
  qed
  show ?thesis
  proof (cases "good \<and> (\<exists>f. file = Some f \<and> sf_seek_ok f \<and> 0 \<le> sf_tell f \<and> sf_tell f \<le> MAX_SAVE_TRANSFER_BYTES)")
    case False
    then have "s' = s1 \<or> s' = close_client s1"
      using assms True flush
      by (cases good) (auto simp: send_save_file_def not_less not_le split: option.splits if_splits)
    then show ?thesis using True s1 by blast
  next
    case usable: True
    then obtain f where f: good "file = Some f" "sf_seek_ok f" "0 \<le> sf_tell f" "sf_tell f \<le> MAX_SAVE_TRANSFER_BYTES"
      by blast
    let ?header = "PACKET_SAVE_RETURN # put_be32 (word_of_int (sf_tell f))"
    let ?s2 = "s1\<lparr>ss_queued := ss_queued s1 @ ?header @ take (nat (sf_tell f)) (sf_content f)\<rparr>"
    obtain s3 script2 sent where put: "wait_write_all script1 ?header ?s2 = (s3, script2, sent)"
      by (metis prod_cases3)
    have s3: "sends s s3" using s1 sends_updates(3) [of s1] sends_wait [OF put] sends_trans by blast
    have "if sent then send_chunks (nat (sf_tell f)) (sf_content f) script2 s3 = (s', r)
          else s' = close_client s3"
      using assms True flush f put by (auto simp: send_save_file_def Let_def split: bool.splits)
    then show ?thesis using True s3 sends_chunks sends_trans by (metis (full_types))
  qed
qed

lemma uplink_ok_sends: "sends s s' \<Longrightarrow> uplink_ok counted k s \<Longrightarrow> uplink_ok counted k s'"
  by (auto simp: sends_def)

lemma sends_fields: "sends s s' \<Longrightarrow> ss_token s' = ss_token s \<and> ss_auth_required s' = ss_auth_required s \<and>
  ss_client s' = ss_client s \<and> admitted s' = admitted s \<and> ss_buttons_applied s' = ss_buttons_applied s \<and>
  ss_input_applied s' = ss_input_applied s \<and> ss_release_pending s' = ss_release_pending s"
  by (auto simp: sends_def admitted_def)

subsection \<open>The gate\<close>

definition gate_ok :: "string \<Rightarrow> stream_server \<Rightarrow> bool" where
  "gate_ok t s \<longleftrightarrow> ss_auth_required s \<and> ss_token s = t \<and> uplink_ok False 0 s \<and>
     (ss_client s \<and> \<not> admitted s \<longrightarrow> ss_wire s = []) \<and> (\<not> admitted s \<longrightarrow> ss_downlink s = [])"

lemma close_fields: "ss_token (close_client s) = ss_token s \<and>
  ss_auth_required (close_client s) = ss_auth_required s \<and> \<not> ss_client (close_client s)"
  by (simp add: close_client_def)

lemma take_input_fields: "ss_token (take_input bs s) = ss_token s \<and>
  ss_auth_required (take_input bs s) = ss_auth_required s"
  by (simp add: take_input_def handle_packet_def Let_def)

lemma gate_ok_close: "gate_ok t s \<Longrightarrow> gate_ok t (close_client s)"
  using uplink_ok_close [of False 0 s] by (cases "ss_client s") (auto simp: gate_ok_def close_client_def admitted_def)

lemma gate_ok_read_packets:
  assumes "gate_ok t s" "admitted s"
  shows "gate_ok t (read_packets script s)"
proof (rule read_packets_invariant [where P = "\<lambda>k s. gate_ok t s \<and> admitted s" and Q = "gate_ok t"])
  show "gate_ok t (take_input bs s) \<and> admitted (take_input bs s)"
    if "gate_ok t s \<and> admitted s" "bs \<noteq> []" "length bs \<le> INPUT_PACKET_SIZE - length (ss_packet_buffer s)"
    for s bs
    using that uplink_ok_take_input [of False 0 bs s] take_input_fields [of bs s]
    by (auto simp: gate_ok_def uplink_ok_def)
  show "gate_ok t s \<and> gate_ok t (close_client s)" if "gate_ok t s \<and> admitted s" for s
    using that gate_ok_close by blast
qed (use assms in auto)

lemma uplink_ok_any: "uplink_ok False k s = uplink_ok False 0 s"
  by (simp add: uplink_ok_def)

lemma gate_ok_read_client:
  assumes ok: "gate_ok t s"
  shows "gate_ok t (read_client script s)"
proof (cases "ss_client s \<and> \<not> admitted s")
  case False
  then show ?thesis using gate_ok_read_packets [OF ok] ok by (auto simp: read_client_def admitted_def)
next
  case True
  obtain s1 script1 good where run: "read_auth_packet script s = (s1, script1, good)"
    by (metis prod_cases3)
  have start: "ss_uplink s = ss_auth_buffer s" "length (ss_auth_buffer s) \<le> AUTH_PACKET_SIZE"
    "ss_packet_buffer s = []" "ss_buttons s = 0"
    using ok True by (auto simp: uplink_ok_def gate_ok_def)
  obtain up where up: "if good then length up = AUTH_PACKET_SIZE \<and> opened (ss_token s) up \<and>
                     s1 = s\<lparr>ss_authenticated := True, ss_auth_buffer := [], ss_uplink := up\<rparr>
           else length up < AUTH_PACKET_SIZE \<and> s1 = s\<lparr>ss_auth_buffer := up, ss_uplink := up\<rparr> \<or>
                s1 = close_client (s\<lparr>ss_auth_buffer := up, ss_uplink := up\<rparr>)"
    using read_auth_packet_result [OF run start(1,2)] by blast
  have loop: "read_client script s = (if good then read_packets script1 s1 else s1)"
    using True run by (simp add: read_client_def admitted_def)
  show ?thesis
  proof (cases good)
    case True
    then have "gate_ok t s1 \<and> admitted s1"
      using up ok start \<open>ss_client s \<and> \<not> admitted s\<close>
      by (auto simp: gate_ok_def uplink_ok_def admitted_def uplink_body_def)
    then show ?thesis using loop True gate_ok_read_packets by simp
  next
    case False
    then have "gate_ok t s1"
      using up ok start True
      by (auto simp: gate_ok_def uplink_ok_def admitted_def close_client_def)
    then show ?thesis using loop False by simp
  qed
qed

lemma gate_ok_accept: "gate_ok t s \<Longrightarrow> gate_ok t (accept_client result now s)"
  using uplink_ok_accept [of False 0 s result now]
  by (auto simp: gate_ok_def accept_client_def admitted_def split: if_splits)

lemma sends_flush:
  "flush_downlink script s = (s', ok) \<Longrightarrow>
   s' = s \<or> ss_client s \<and> (sends s s' \<or> (\<exists>t. sends s t \<and> s' = close_client t))"
proof (induction script arbitrary: s)
  case Nil
  then show ?case by (auto simp: flush_downlink.simps [of "[]" s] Let_def split: if_splits)
next
  case (Cons w rest)
  show ?case
  proof (cases "ss_client s \<and> ss_sent s < length (ss_downlink s) \<and> (\<exists>k. w = Wrote k \<and> 0 < k)")
    case False
    then have "s' = s \<or> ss_client s \<and> s' = close_client s"
      using Cons.prems
      by (auto simp: flush_downlink.simps [of "w # rest" s] Let_def split: if_splits write_result.splits)
    then show ?thesis using sends_refl by blast
  next
    case True
    then obtain k where w: "w = Wrote k" "0 < k" by blast
    let ?bs = "drop (ss_sent s) (ss_downlink s)"
    let ?s1 = "(took k ?bs s)\<lparr>ss_sent := ss_sent s + min k (length ?bs)\<rparr>"
    have "flush_downlink rest ?s1 = (s', ok)"
      using Cons.prems True w by (simp add: flush_downlink.simps [of "Wrote k # rest" s] Let_def)
    then have "s' = ?s1 \<or> sends ?s1 s' \<or> (\<exists>t. sends ?s1 t \<and> s' = close_client t)"
      using Cons.IH by blast
    moreover have "sends s ?s1"
      unfolding took_def using sends_updates(1) sends_updates(2) sends_trans by blast
    ultimately show ?thesis using True sends_trans by blast
  qed
qed

lemma gate_ok_sends: "gate_ok t s \<Longrightarrow> admitted s \<Longrightarrow> sends s s' \<Longrightarrow> gate_ok t s'"
  using sends_fields [of s s'] uplink_ok_sends [of s s' False 0] by (auto simp: gate_ok_def)

lemma gate_ok_poll:
  assumes "gate_ok t s"
  shows "gate_ok t (stream_poll e s)"
proof (cases "ss_active s")
  case False
  then show ?thesis using assms by (simp add: stream_poll_def)
next
  case True
  define s1 where "s1 = read_client (pi_reads e) (accept_client (pi_accept e) (pi_accept_time e) s)"
  have s1: "gate_ok t s1" unfolding s1_def using assms gate_ok_accept gate_ok_read_client by blast
  have closed: "gate_ok t (close_client s1)" by (rule gate_ok_close [OF s1])
  show ?thesis
  proof (cases "ss_authenticated s1")
    case False
    then show ?thesis
      using True s1 closed by (simp add: stream_poll_def s1_def [symmetric] Let_def gate_ok_def)
  next
    case in_place: True
    obtain s2 ok where flush: "flush_downlink (pi_writes e) s1 = (s2, ok)" by fastforce
    have "gate_ok t s2"
      using sends_flush [OF flush] s1 in_place gate_ok_sends [OF s1] gate_ok_close
      by (auto simp: admitted_def)
    then have "gate_ok t (count_downlink s2)"
      using sends_count [of s2] sends_fields [of s2 "count_downlink s2"]
        uplink_ok_sends [of s2 "count_downlink s2" False 0]
      by (auto simp: gate_ok_def count_downlink_def)
    then show ?thesis
      using True in_place flush s1 \<open>gate_ok t s2\<close>
      by (auto simp: stream_poll_def s1_def [symmetric] Let_def split: bool.splits)
  qed
qed

lemma gate_ok_step:
  assumes "gate_ok t s" "server_step call (s, slot) = (s', slot')"
  shows "gate_ok t s'"
proof (cases call)
  case (Poll e)
  then show ?thesis using assms gate_ok_poll by auto
next
  case ApplyInput
  then show ?thesis
    using assms by (auto simp: apply_input_def release_remote_buttons_def gate_ok_def admitted_def Let_def
        split: if_splits)
next
  case (QueueFrame pixels now)
  then show ?thesis
    using assms may_queue_admitted [of s]
    by (auto simp: stream_queue_frame_def gate_ok_def admitted_def Let_def split: if_splits)
next
  case (QueueAudio samples frames now)
  then show ?thesis
    using assms may_queue_admitted [of s]
    by (auto simp: stream_queue_audio_def gate_ok_def admitted_def Let_def split: if_splits)
next
  case (SendSave src script)
  obtain r where "send_save_file src script s = (s', r)"
    using assms(2) SendSave by (cases "send_save_file src script s") auto
  from sends_save_file [OF this] show ?thesis
    using assms(1) may_queue_admitted [of s] gate_ok_sends gate_ok_close by blast
qed

lemma uplink_ok_poll:
  assumes "uplink_ok counted (read_cost (pi_reads e) + k) s"
  shows "uplink_ok counted k (stream_poll e s)"
proof -
  define s1 where "s1 = read_client (pi_reads e) (accept_client (pi_accept e) (pi_accept_time e) s)"
  have s: "uplink_ok counted k s" using assms uplink_ok_fewer by fastforce
  have s1: "uplink_ok counted k s1"
    unfolding s1_def using assms uplink_ok_accept uplink_ok_read_client by blast
  obtain s2 ok where flush: "flush_downlink (pi_writes e) s1 = (s2, ok)" by fastforce
  have s2: "uplink_ok counted k s2"
    using sends_flush [OF flush] s1 uplink_ok_sends uplink_ok_close by blast
  then have "uplink_ok counted k (count_downlink s2)" by (rule uplink_ok_count)
  then show ?thesis
    using s s1 s2 flush uplink_ok_close
    by (auto simp: stream_poll_def s1_def [symmetric] Let_def split: bool.splits)
qed

fun call_cost :: "stream_call \<Rightarrow> nat" where
  "call_cost (Poll e) = read_cost (pi_reads e)"
| "call_cost _ = 0"

lemma uplink_ok_step:
  assumes "uplink_ok counted (call_cost call + k) s" "server_step call (s, slot) = (s', slot')"
  shows "uplink_ok counted k s'"
proof (cases call)
  case (Poll e)
  then show ?thesis using assms uplink_ok_poll by auto
next
  case ApplyInput
  have "uplink_ok counted k (fst (apply_input s slot))"
    using assms(1) ApplyInput by (simp add: apply_input_def release_remote_buttons_def Let_def)
  then show ?thesis using assms(2) ApplyInput by simp
next
  case (QueueFrame pixels now)
  have "uplink_ok counted k (stream_queue_frame slot pixels now s)"
    using assms(1) QueueFrame by (simp add: stream_queue_frame_def Let_def)
  then show ?thesis using assms(2) QueueFrame by auto
next
  case (QueueAudio samples frames now)
  have "uplink_ok counted k (stream_queue_audio samples frames now s)"
    using assms(1) QueueAudio by (simp add: stream_queue_audio_def Let_def)
  then show ?thesis using assms(2) QueueAudio by auto
next
  case (SendSave src script)
  obtain r where sent: "send_save_file src script s = (s', r)"
    using assms(2) SendSave by (cases "send_save_file src script s") auto
  have "uplink_ok counted k s" using assms(1) SendSave by simp
  then show ?thesis using sends_save_file [OF sent] uplink_ok_sends uplink_ok_close by blast
qed

lemma server_run_Cons:
  "server_run (call # calls) (s, slot) = server_run calls (server_step call (s, slot))"
  by (simp add: server_run_def)

lemma uplink_ok_run:
  "uplink_ok counted (sum_list (map call_cost calls) + k) s \<Longrightarrow>
   server_run calls (s, slot) = (s', slot') \<Longrightarrow> uplink_ok counted k s'"
proof (induction calls arbitrary: s slot)
  case (Cons call calls)
  obtain s1 slot1 where one: "server_step call (s, slot) = (s1, slot1)" by fastforce
  have "uplink_ok counted (sum_list (map call_cost calls) + k) s1"
    using uplink_ok_step [OF _ one] Cons.prems(1) by (simp add: add.assoc)
  then show ?case using Cons.IH Cons.prems(2) one by (simp add: server_run_Cons)
qed (simp add: server_run_def)

subsection \<open>Packets on the wire\<close>

text \<open>The receiver's view: how long the packet at the front is, from its own octets.\<close>

definition packet_length :: "bytes \<Rightarrow> nat option" where
  "packet_length bs =
     (if bs = [] then None
      else if bs ! 0 = PACKET_VIDEO then Some (1 + 29 + 160 * 144 * 2)
      else if bs ! 0 = PACKET_AUDIO \<and> 19 \<le> length bs
      then Some (1 + 18 + 4 * unat (get_be16 (drop 17 bs)))
      else if bs ! 0 = PACKET_SAVE_RETURN \<and> 5 \<le> length bs
      then Some (1 + 4 + unat (get_be32 (drop 1 bs)))
      else None)"

inductive whole_packets :: "bytes \<Rightarrow> bool" where
  no_packet: "whole_packets []"
| next_packet: "packet_length (p @ rest) = Some (length p) \<Longrightarrow> p \<noteq> [] \<Longrightarrow> whole_packets rest \<Longrightarrow>
     whole_packets (p @ rest)"

definition one_packet :: "bytes \<Rightarrow> bool" where
  "one_packet p \<longleftrightarrow> p \<noteq> [] \<and> (\<forall>rest. packet_length (p @ rest) = Some (length p))"

lemma packet_length_append:
  assumes "packet_length bs = Some n"
  shows "packet_length (bs @ tail) = Some n"
proof -
  have front: "bs \<noteq> []" using assms by (auto simp: packet_length_def)
  have "get_be16 (drop 17 (bs @ tail)) = get_be16 (drop 17 bs)" if "19 \<le> length bs"
  proof -
    have "Suc 0 < length bs - 17" using that by linarith
    then show ?thesis unfolding get_be16_def using that by (simp add: nth_append)
  qed
  moreover have "get_be32 (drop 1 (bs @ tail)) = get_be32 (drop 1 bs)" if "5 \<le> length bs"
  proof -
    have "Suc 0 < length bs - 1" "2 < length bs - 1" "3 < length bs - 1" using that by linarith+
    then show ?thesis unfolding get_be32_def using that by (simp add: nth_append)
  qed
  moreover have "(bs @ tail) ! 0 = bs ! 0" using front by (simp add: nth_append)
  ultimately show ?thesis
    using assms front
    by (simp add: packet_length_def PACKET_VIDEO_def PACKET_AUDIO_def PACKET_SAVE_RETURN_def
        split: if_splits)
qed

lemma whole_packets_snoc: "whole_packets q \<Longrightarrow> one_packet p \<Longrightarrow> whole_packets (q @ p)"
proof (induction rule: whole_packets.induct)
  case no_packet
  then have "packet_length (p @ []) = Some (length p)" "p \<noteq> []" unfolding one_packet_def by blast+
  from whole_packets.next_packet [OF this whole_packets.no_packet] show ?case by simp
next
  case (next_packet p' rest)
  have "packet_length ((p' @ rest) @ p) = Some (length p')"
    by (rule packet_length_append [OF next_packet.hyps(1)])
  then have "packet_length (p' @ rest @ p) = Some (length p')" by simp
  from whole_packets.next_packet [OF this next_packet.hyps(2) next_packet.IH [OF next_packet.prems]]
  show ?case by simp
qed

lemma length_pixels: "length (concat (map (\<lambda>p. put_be16 (f p)) xs)) = 2 * length xs"
  by (induction xs) simp_all

lemma video_packet_whole:
  assumes "length pixels = 160 * 144"
  shows "one_packet ([PACKET_VIDEO] @ put_be32 a @ put_be64 b @ put_be16 160 @ put_be16 144 @ [1] @
           put_be32 c @ put_be64 d @ concat (map (\<lambda>p. put_be16 (rgb888_to_rgb565 p)) pixels))"
  using assms by (simp add: one_packet_def packet_length_def length_pixels)

lemma audio_packet_whole:
  assumes "2 * n \<le> length samples" "n \<le> AUDIO_MAX_FRAMES"
  shows "one_packet ([PACKET_AUDIO] @ put_be32 a @ put_be64 b @ put_be32 48000 @
           put_be16 (word_of_nat n) @ concat (map put_be16 (take (2 * n) samples)))"
proof -
  have small: "unat (word_of_nat n :: u16) = n"
    using assms(2) by (simp add: AUDIO_MAX_FRAMES_def unat_of_nat)
  have "get_be16 (drop 17 ([PACKET_AUDIO] @ put_be32 a @ put_be64 b @ put_be32 48000 @
          put_be16 (word_of_nat n) @ rest)) = word_of_nat n" for rest
    by (simp add: numeral_eq_Suc)
  then show ?thesis
    using assms(1) small length_pixels [of "\<lambda>x. x" "take (2 * n) samples"]
    by (simp add: one_packet_def packet_length_def PACKET_AUDIO_def PACKET_VIDEO_def)
qed

lemma save_packet_whole:
  assumes "0 \<le> sf_tell f" "sf_tell f \<le> MAX_SAVE_TRANSFER_BYTES" "nat (sf_tell f) \<le> length (sf_content f)"
  shows "one_packet (save_packet f)"
proof -
  have "unat (word_of_int (sf_tell f) :: u32) = nat (sf_tell f)"
    using assms(1,2) by (simp add: MAX_SAVE_TRANSFER_BYTES_def unat_eq_nat_uint uint_word_of_int)
  then show ?thesis
    using assms
    by (simp add: one_packet_def save_packet_def packet_length_def PACKET_SAVE_RETURN_def
        PACKET_AUDIO_def PACKET_VIDEO_def)
qed

text \<open>
  What the callers hand over: a whole picture, as many samples as announced, a file that reads as long
  as it said.
\<close>

fun call_ok :: "stream_call \<Rightarrow> bool" where
  "call_ok (QueueFrame pixels now) \<longleftrightarrow> length pixels = 160 * 144"
| "call_ok (QueueAudio samples frames now) \<longleftrightarrow> length samples = 2 * frames"
| "call_ok (SendSave file script) \<longleftrightarrow> file_ok file"
| "call_ok _ \<longleftrightarrow> True"

definition framed :: "stream_server \<Rightarrow> bool" where
  "framed s \<longleftrightarrow> (ss_client s \<longrightarrow> whole_packets (ss_queued s))"

lemma framed_close [simp]: "framed (close_client s)"
  by (simp add: framed_def close_client_def)

lemma framed_read_packets: "framed s \<Longrightarrow> framed (read_packets script s)"
  by (rule read_packets_invariant [where P = "\<lambda>k. framed" and Q = framed])
     (auto simp: framed_def take_input_def handle_packet_def Let_def close_client_def)

lemma framed_read_client:
  assumes "framed s" "uplink_ok counted k s"
  shows "framed (read_client script s)"
proof (cases "ss_client s \<and> \<not> admitted s")
  case False
  then show ?thesis using framed_read_packets [OF assms(1)] assms(1) by (auto simp: read_client_def admitted_def)
next
  case True
  obtain s1 script1 good where run: "read_auth_packet script s = (s1, script1, good)"
    by (metis prod_cases3)
  have start: "ss_uplink s = ss_auth_buffer s" "length (ss_auth_buffer s) \<le> AUTH_PACKET_SIZE"
    using assms(2) True by (auto simp: uplink_ok_def)
  have "framed s1"
    using read_auth_packet_result [OF run start] assms(1) by (cases good) (auto simp: framed_def close_client_def)
  moreover have "read_client script s = (if good then read_packets script1 s1 else s1)"
    using True run by (simp add: read_client_def admitted_def)
  ultimately show ?thesis using framed_read_packets by simp
qed

lemma framed_accept: "framed s \<Longrightarrow> framed (accept_client result now s)"
  by (simp add: framed_def accept_client_def no_packet)

lemma framed_flush:
  assumes "flush_downlink script s = (s', ok)" "framed s" "wire_ok s"
  shows "framed s'"
proof (cases "ss_client s")
  case False
  then show ?thesis using assms by (simp add: flush_downlink.simps [of script s])
next
  case True
  then have "ss_sent s \<le> length (ss_downlink s)" using assms(3) by (simp add: wire_ok_def)
  from flush_downlink_frame [OF assms(1) this] show ?thesis
    using assms(2) by (auto simp: framed_def moved_def close_client_def)
qed

lemma framed_poll:
  assumes "framed s" "link_ok counted k s" "link_ok counted l (accept_client (pi_accept e) (pi_accept_time e) s)"
    "wire_ok (read_client (pi_reads e) (accept_client (pi_accept e) (pi_accept_time e) s))"
  shows "framed (stream_poll e s)"
proof -
  define s1 where "s1 = read_client (pi_reads e) (accept_client (pi_accept e) (pi_accept_time e) s)"
  have s1: "framed s1"
    unfolding s1_def using framed_read_client framed_accept assms(1,3) by (auto simp: link_ok_def)
  obtain s2 ok where flush: "flush_downlink (pi_writes e) s1 = (s2, ok)" by fastforce
  have "framed s2" using framed_flush [OF flush s1] assms(4) by (simp add: s1_def)
  then have "framed (count_downlink s2)" by (simp add: framed_def count_downlink_def)
  then show ?thesis
    using s1 assms(1) flush \<open>framed s2\<close>
    by (auto simp: stream_poll_def s1_def [symmetric] Let_def split: bool.splits)
qed

lemma link_step:
  assumes "link_ok counted (call_cost call + k) s" "framed s" "call_ok call"
    "server_step call (s, slot) = (s', slot')"
  shows "link_ok counted k s' \<and> framed s'"
proof (cases call)
  case (Poll e)
  have accept: "link_ok counted (read_cost (pi_reads e) + k) (accept_client (pi_accept e) (pi_accept_time e) s)"
    using assms(1) Poll by (simp add: link_ok_def uplink_ok_accept wire_ok_accept)
  then have "wire_ok (read_client (pi_reads e) (accept_client (pi_accept e) (pi_accept_time e) s))"
    using wire_ok_read_client by (auto simp: link_ok_def)
  then show ?thesis
    using assms Poll link_ok_poll [of counted e k s] framed_poll [OF assms(2) assms(1) accept] by simp
next
  case ApplyInput
  then have "link_ok counted k s" using assms(1) by simp
  then have "link_ok counted k (fst (apply_input s slot))" by (rule link_ok_apply_input)
  moreover have "framed (fst (apply_input s slot))"
    using assms(2) by (auto simp: framed_def apply_input_def release_remote_buttons_def Let_def)
  moreover have "fst (apply_input s slot) = s'" using assms(4) ApplyInput by simp
  ultimately show ?thesis by simp
next
  case (QueueFrame pixels now)
  have "framed (stream_queue_frame slot pixels now s)"
    using assms(2,3) QueueFrame whole_packets_snoc video_packet_whole
    by (auto simp: framed_def stream_queue_frame_def Let_def simp del: append_Cons append_Nil)
  then show ?thesis using assms QueueFrame link_ok_queue_frame by auto
next
  case (QueueAudio samples frames now)
  have "framed (stream_queue_audio samples frames now s)"
  proof (cases "may_queue s \<and> frames \<noteq> 0 \<and> ss_downlink s = []")
    case True
    define n where "n = (if AUDIO_MAX_FRAMES < frames then AUDIO_MAX_FRAMES else frames)"
    have "2 * n \<le> length samples" "n \<le> AUDIO_MAX_FRAMES"
      using assms(3) QueueAudio by (auto simp: n_def)
    then have "whole_packets (ss_queued s @ ([PACKET_AUDIO] @ put_be32 (ss_audio_seq s) @ put_be64 now @
        put_be32 48000 @ put_be16 (word_of_nat n) @ concat (map put_be16 (take (2 * n) samples))))"
      using assms(2) True by (intro whole_packets_snoc audio_packet_whole) (auto simp: framed_def may_queue_def)
    then show ?thesis using True by (simp add: framed_def stream_queue_audio_def Let_def n_def)
  qed (use assms(2) in \<open>auto simp: stream_queue_audio_def\<close>)
  then show ?thesis using assms QueueAudio link_ok_queue_audio by auto
next
  case (SendSave src script)
  obtain r where sent: "send_save_file src script s = (s', r)"
    using assms(4) SendSave by (cases "send_save_file src script s") auto
  have ok: "uplink_ok counted k s" "wire_ok s" "file_ok src"
    using assms(1,3) SendSave by (auto simp: link_ok_def)
  have up: "uplink_ok counted k s'"
    using sends_save_file [OF sent] ok(1) uplink_ok_sends uplink_ok_close by blast
  have "wire_ok s' \<and> framed s'"
    using send_save_file_result [OF sent ok(2,3)]
  proof (elim disjE exE conjE)
    fix a b f
    assume f: "src = Some f" "0 \<le> sf_tell f" "sf_tell f \<le> MAX_SAVE_TRANSFER_BYTES" "may_queue s"
      and s': "s' = s\<lparr>ss_wire := ss_queued s @ save_packet f, ss_queued := ss_queued s @ save_packet f,
               ss_frames_sent := a, ss_audio_sent := b, ss_downlink := [], ss_sent := 0,
               ss_save_returns := ss_save_returns s + 1\<rparr>"
    have "one_packet (save_packet f)" using save_packet_whole [OF f(2,3)] ok(3) f(1) by (simp add: file_ok_def)
    then have "framed s'" using whole_packets_snoc assms(2) f(4) by (simp add: s' framed_def may_queue_def)
    then show ?thesis
      using may_queue_admitted [OF f(4)] by (simp add: s' wire_ok_def admitted_def)
  qed (use ok assms(2) may_queue_admitted [of s] in
        \<open>auto simp: framed_def wire_ok_def admitted_def close_client_def\<close>)
  then show ?thesis using up by (simp add: link_ok_def)
qed

subsection \<open>The keys the remote player holds\<close>

text \<open>A server that has put keys down has a client or remembers that it must release them.\<close>

definition lease :: "u8 \<Rightarrow> stream_server \<Rightarrow> bool" where
  "lease a s \<longleftrightarrow> ss_buttons_applied s = a \<and> (ss_input_applied s \<longleftrightarrow> a \<noteq> 0) \<and>
     (a \<noteq> 0 \<longrightarrow> ss_client s \<or> ss_release_pending s)"

lemma lease_close: "lease a s \<Longrightarrow> lease a (close_client s)"
  by (auto simp: lease_def close_client_def)

lemma lease_sends: "lease a s \<Longrightarrow> sends s s' \<Longrightarrow> lease a s'"
  using sends_fields [of s s'] by (auto simp: lease_def)

lemma lease_read_packets: "lease a s \<Longrightarrow> lease a (read_packets script s)"
  by (rule read_packets_invariant [where P = "\<lambda>k. lease a" and Q = "lease a"])
     (auto simp: lease_def take_input_def handle_packet_def Let_def close_client_def)

lemma lease_read_client:
  assumes "lease a s" "uplink_ok counted k s"
  shows "lease a (read_client script s)"
proof (cases "ss_client s \<and> \<not> admitted s")
  case False
  then show ?thesis using lease_read_packets [OF assms(1)] assms(1) by (auto simp: read_client_def admitted_def)
next
  case True
  obtain s1 script1 good where run: "read_auth_packet script s = (s1, script1, good)"
    by (metis prod_cases3)
  have start: "ss_uplink s = ss_auth_buffer s" "length (ss_auth_buffer s) \<le> AUTH_PACKET_SIZE"
    using assms(2) True by (auto simp: uplink_ok_def)
  have half: "lease a (s\<lparr>ss_auth_buffer := up, ss_uplink := up\<rparr>)"
    "lease a (s\<lparr>ss_authenticated := True, ss_auth_buffer := [], ss_uplink := up\<rparr>)" for up
    using assms(1) by (simp_all add: lease_def)
  then have "lease a s1"
    using read_auth_packet_result [OF run start] lease_close [OF half(1)] by (cases good) auto
  moreover have "read_client script s = (if good then read_packets script1 s1 else s1)"
    using True run by (simp add: read_client_def admitted_def)
  ultimately show ?thesis using lease_read_packets by simp
qed

lemma lease_poll:
  assumes "lease a s" "uplink_ok counted k s"
  shows "lease a (stream_poll e s)"
proof -
  define s1 where "s1 = read_client (pi_reads e) (accept_client (pi_accept e) (pi_accept_time e) s)"
  have "lease a (accept_client (pi_accept e) (pi_accept_time e) s)"
    using assms(1) by (auto simp: lease_def accept_client_def)
  then have s1: "lease a s1"
    unfolding s1_def using lease_read_client uplink_ok_accept [OF assms(2)] by blast
  obtain s2 ok where flush: "flush_downlink (pi_writes e) s1 = (s2, ok)" by fastforce
  have s2: "lease a s2" using sends_flush [OF flush] s1 lease_sends lease_close by blast
  then have "lease a (count_downlink s2)" using lease_sends sends_count by blast
  then show ?thesis
    using s1 s2 assms(1) flush lease_close
    by (auto simp: stream_poll_def s1_def [symmetric] Let_def split: bool.splits)
qed

lemma set_key_mask_fold: "set_key_mask b slot = key_fold (- 1) b [0..<8] slot"
  by (simp add: set_key_mask_def key_fold_def all_buttons_def button_bits upt8 set_slot_button_keys)

lemma release_key_mask_fold: "release_key_mask b slot = key_fold b 0 [0..<8] slot"
  by (simp add: release_key_mask_def key_fold_def all_buttons_def button_bits upt8 set_slot_button_keys)

lemma set_key_mask_keys:
  "pad_initialized p \<Longrightarrow> \<exists>q. set_key_mask b (Some p) = Some q \<and> pad_initialized q \<and> pad_keys q = b"
  using key_fold_Some [of p "- 1" b "[0..<8]"] by (auto simp: set_key_mask_fold pad_bits_eq bit_minus_1_iff)

lemma release_key_mask_keys:
  "pad_initialized p \<Longrightarrow> pad_keys p = b \<Longrightarrow>
   \<exists>q. release_key_mask b (Some p) = Some q \<and> pad_initialized q \<and> pad_keys q = 0"
  using key_fold_Some [of p b 0 "[0..<8]"] by (auto simp: release_key_mask_fold pad_bits_eq)

definition keys_ok :: "stream_server \<Rightarrow> joypad option \<Rightarrow> bool" where
  "keys_ok s slot \<longleftrightarrow> uplink_ok False 0 s \<and> ss_active s \<and>
     (\<exists>p. slot = Some p \<and> pad_initialized p \<and> lease (pad_keys p) s)"

lemma apply_input_keys:
  assumes "keys_ok s slot" "apply_input s slot = (s', slot')"
  shows "keys_ok s' slot' \<and>
         (\<exists>p. slot' = Some p \<and> pad_keys p = (if ss_client s then ss_buttons s else 0))"
proof -
  obtain p where p: "slot = Some p" "pad_initialized p" "lease (pad_keys p) s" "ss_active s"
    using assms(1) by (auto simp: keys_ok_def)
  define s1 slot1 where "s1 = (if ss_release_pending s then fst (release_remote_buttons s slot) else s)"
    and "slot1 = (if ss_release_pending s then snd (release_remote_buttons s slot) else slot)"
  obtain p1 where p1: "slot1 = Some p1" "pad_initialized p1" "lease (pad_keys p1) s1"
    "\<not> ss_client s \<Longrightarrow> pad_keys p1 = 0"
  proof (cases "ss_release_pending s")
    case True
    obtain q where q: "release_key_mask (pad_keys p) (Some p) = Some q" "pad_initialized q" "pad_keys q = 0"
      using release_key_mask_keys [OF p(2) refl] by blast
    have "ss_buttons_applied s = pad_keys p" using p(3) by (simp add: lease_def)
    then show ?thesis
      using True q p(1)
      by (intro that [of q]) (simp_all add: s1_def slot1_def release_remote_buttons_def lease_def)
  next
    case False
    then show ?thesis
      using p by (intro that [of p]) (auto simp: s1_def slot1_def lease_def)
  qed
  have same: "ss_client s1 = ss_client s" "ss_buttons s1 = ss_buttons s" "ss_active s1" "uplink_ok False 0 s1"
    using p(4) assms(1) by (auto simp: s1_def release_remote_buttons_def keys_ok_def)
  have run: "(s', slot') = (if \<not> ss_client s1 then (s1, slot1)
              else (s1\<lparr>ss_buttons_applied := ss_buttons s1, ss_input_applied := ss_buttons s1 \<noteq> 0,
                       ss_applied_seq := ss_seq s1, ss_applied_stamp := ss_stamp s1\<rparr>,
                    set_key_mask (ss_buttons s1) slot1))"
    using assms(2) p by (auto simp: apply_input_def slot_ready_def s1_def slot1_def Let_def case_prod_beta)
  show ?thesis
  proof (cases "ss_client s")
    case False
    then show ?thesis using run same p1 by (auto simp: keys_ok_def)
  next
    case True
    obtain q where q: "set_key_mask (ss_buttons s) (Some p1) = Some q" "pad_initialized q" "pad_keys q = ss_buttons s"
      using set_key_mask_keys [OF p1(2)] by blast
    then show ?thesis using run same p1(1) True by (auto simp: keys_ok_def lease_def)
  qed
qed

lemma active_read_client: "ss_active (read_client script s) = ss_active s"
proof -
  have packets: "ss_active (read_packets script s) = ss_active s" for script s
    by (rule read_packets_invariant [where P = "\<lambda>k t. ss_active t = ss_active s"])
       (auto simp: take_input_def handle_packet_def Let_def close_client_def)
  have auth: "read_auth_packet script s = (s1, script1, good) \<Longrightarrow> ss_active s1 = ss_active s"
    for script s1 script1 good s
    by (induction script s rule: read_auth_packet.induct)
       (subst (asm) (2) read_auth_packet.simps,
        auto simp: close_client_def split: if_splits prod.splits read_result.splits)
  show ?thesis
    using packets auth by (auto simp: read_client_def split: prod.splits bool.splits)
qed

lemma active_poll: "ss_active (stream_poll e s) = ss_active s"
proof -
  define s1 where "s1 = read_client (pi_reads e) (accept_client (pi_accept e) (pi_accept_time e) s)"
  have s1: "ss_active s1 = ss_active s" by (simp add: s1_def active_read_client accept_client_def)
  have closed: "ss_active (close_client s) = ss_active s" for s by (simp add: close_client_def)
  obtain s2 ok where flush: "flush_downlink (pi_writes e) s1 = (s2, ok)" by fastforce
  have "ss_active t = ss_active u" if "sends u t" for t u using that by (auto simp: sends_def)
  then have "ss_active s2 = ss_active s" "ss_active (count_downlink s2) = ss_active s"
    using sends_flush [OF flush] s1 closed sends_count [of s2] by auto
  then show ?thesis
    using s1 flush closed by (auto simp: stream_poll_def s1_def [symmetric] Let_def split: bool.splits)
qed

lemma keys_queue:
  assumes "keys_ok s slot"
  shows "keys_ok (stream_queue_frame t pixels now s) slot" "keys_ok (stream_queue_audio samples frames now s) slot"
proof -
  have "uplink_ok False 0 (stream_queue_frame t pixels now s)" "uplink_ok False 0 (stream_queue_audio samples frames now s)"
    using assms by (simp_all add: keys_ok_def stream_queue_frame_def stream_queue_audio_def Let_def)
  moreover have "lease a (stream_queue_frame t pixels now s) = lease a s"
    "lease a (stream_queue_audio samples frames now s) = lease a s" for a
    by (simp_all add: lease_def stream_queue_frame_def stream_queue_audio_def Let_def)
  moreover have "ss_active (stream_queue_frame t pixels now s) = ss_active s"
    "ss_active (stream_queue_audio samples frames now s) = ss_active s"
    by (simp_all add: stream_queue_frame_def stream_queue_audio_def Let_def)
  ultimately show "keys_ok (stream_queue_frame t pixels now s) slot"
    "keys_ok (stream_queue_audio samples frames now s) slot"
    using assms by (simp_all add: keys_ok_def)
qed

lemma keys_step:
  assumes "keys_ok s slot" "server_step call (s, slot) = (s', slot')"
  shows "keys_ok s' slot'"
proof (cases call)
  case (Poll e)
  have "uplink_ok False 0 s" using assms(1) by (simp add: keys_ok_def)
  moreover have "uplink_ok False 0 (stream_poll e s)"
    using uplink_ok_poll [of False e 0 s] \<open>uplink_ok False 0 s\<close>
      uplink_ok_any [of "read_cost (pi_reads e) + 0"] by auto
  ultimately show ?thesis
    using assms Poll lease_poll active_poll [of e s] by (auto simp: keys_ok_def)
next
  case ApplyInput
  then show ?thesis using assms apply_input_keys by auto
next
  case (QueueFrame pixels now)
  then show ?thesis using assms(1) keys_queue(1) [OF assms(1)] assms(2) by auto
next
  case (QueueAudio samples frames now)
  then show ?thesis using assms(1) keys_queue(2) [OF assms(1)] assms(2) by auto
next
  case (SendSave src script)
  obtain r where sent: "send_save_file src script s = (s', r)" and "slot' = slot"
    using assms(2) SendSave by (cases "send_save_file src script s") auto
  have by_sends: "keys_ok t slot" if "keys_ok u slot" "sends u t" for t u
  proof -
    have "ss_active t = ss_active u" using that(2) by (auto simp: sends_def)
    then show ?thesis
      using that(1) lease_sends [OF _ that(2)] uplink_ok_sends [OF that(2)] unfolding keys_ok_def by blast
  qed
  have "keys_ok (close_client u) slot" if "keys_ok u slot" for u
  proof -
    have "ss_active (close_client u) = ss_active u" by (simp add: close_client_def)
    then show ?thesis using that lease_close uplink_ok_close unfolding keys_ok_def by blast
  qed
  then show ?thesis
    using assms(1) sends_save_file [OF sent] \<open>slot' = slot\<close> by_sends by blast
qed

section \<open>The save that goes back\<close>

text \<open>
  Of the slot, what \<open>server_cleanup.c\<close> sees: whether the core has new battery memory and when the
  slot's file was last written. Writing it is the core's and the file system's doing: whether there is
  a file to write at all, whether it succeeds, and the clock after it.
\<close>

record game_slot =
  gs_init :: bool
  gs_dirty :: bool
  gs_last_save :: u64

record battery_env =
  be_has_file :: bool
  be_stored :: bool
  be_now :: u64
  be_saved_at :: u64

definition PERIODIC_SAVE_INTERVAL_US :: u64 where "PERIODIC_SAVE_INTERVAL_US = 1000000"

definition periodic_save_due :: "u64 \<Rightarrow> game_slot \<Rightarrow> bool" where
  "periodic_save_due now g \<longleftrightarrow>
     gs_last_save g = 0 \<or> PERIODIC_SAVE_INTERVAL_US \<le> now - gs_last_save g"

definition slot_save_battery :: "battery_env \<Rightarrow> game_slot \<Rightarrow> game_slot \<times> int" where
  "slot_save_battery e g =
     (if \<not> gs_init g \<or> \<not> be_has_file e then (g, 0)
      else if \<not> be_stored e then (g, - 1)
      else (g\<lparr>gs_last_save := be_saved_at e\<rparr>, 0))"

definition slot_battery_dirty :: "game_slot \<Rightarrow> bool" where
  "slot_battery_dirty g \<longleftrightarrow> gs_init g \<and> gs_dirty g"

definition save_and_send ::
  "battery_env \<Rightarrow> save_source option \<Rightarrow> write_result list \<Rightarrow> stream_server \<times> game_slot \<Rightarrow>
   stream_server \<times> game_slot" where
  "save_and_send e file script state =
     (case state of (s, g) \<Rightarrow> case slot_save_battery e g of (g1, stored) \<Rightarrow>
        if stored \<noteq> 0 then (s, g1)
        else case send_save_file file script s of (s1, sent) \<Rightarrow>
               (s1, if sent = 0 \<and> gs_init g1 then g1\<lparr>gs_dirty := False\<rparr> else g1))"

definition send_slot2_save_if_dirty ::
  "battery_env \<Rightarrow> save_source option \<Rightarrow> write_result list \<Rightarrow> stream_server \<times> game_slot \<Rightarrow>
   stream_server \<times> game_slot" where
  "send_slot2_save_if_dirty e file script state =
     (case state of (s, g) \<Rightarrow>
        if \<not> slot_battery_dirty g then state
        else if \<not> periodic_save_due (be_now e) g then state
        else save_and_send e file script state)"

definition send_slot2_save_on_shutdown ::
  "battery_env \<Rightarrow> save_source option \<Rightarrow> write_result list \<Rightarrow> stream_server \<times> game_slot \<Rightarrow>
   stream_server \<times> game_slot" where
  "send_slot2_save_on_shutdown e file script state =
     (case state of (s, g) \<Rightarrow>
        if \<not> slot_battery_dirty g \<and> ss_save_returns s \<noteq> 0 then state
        else save_and_send e file script state)"

text \<open>The same for a save that stays on this machine.\<close>

definition save_local_slot_if_dirty :: "battery_env \<Rightarrow> game_slot \<Rightarrow> game_slot" where
  "save_local_slot_if_dirty e g =
     (if \<not> slot_battery_dirty g then g
      else if \<not> periodic_save_due (be_now e) g then g
      else case slot_save_battery e g of
             (g1, stored) \<Rightarrow> if stored = 0 \<and> gs_init g1 then g1\<lparr>gs_dirty := False\<rparr> else g1)"

lemma local_save_result:
  "save_local_slot_if_dirty e g =
     (if gs_init g \<and> gs_dirty g \<and> periodic_save_due (be_now e) g
      then if \<not> be_has_file e then g\<lparr>gs_dirty := False\<rparr>
           else if be_stored e then g\<lparr>gs_last_save := be_saved_at e, gs_dirty := False\<rparr> else g
      else g)"
  by (simp add: save_local_slot_if_dirty_def slot_battery_dirty_def slot_save_battery_def)

section \<open>Properties\<close>

lemma server_run_snoc:
  "server_run (calls @ [call]) (s, slot) = server_step call (server_run calls (s, slot))"
  by (simp add: server_run_def)

lemma link_run:
  "link_ok counted (sum_list (map call_cost calls) + k) s \<Longrightarrow> framed s \<Longrightarrow> list_all call_ok calls \<Longrightarrow>
   server_run calls (s, slot) = (s', slot') \<Longrightarrow> link_ok counted k s' \<and> framed s'"
proof (induction calls arbitrary: s slot)
  case (Cons call calls)
  obtain s1 slot1 where one: "server_step call (s, slot) = (s1, slot1)" by fastforce
  have "link_ok counted (sum_list (map call_cost calls) + k) s1 \<and> framed s1"
    using link_step [OF _ Cons.prems(2) _ one] Cons.prems(1,3) by (simp add: add.assoc)
  moreover have "server_run calls (s1, slot1) = (s', slot')" "list_all call_ok calls"
    using Cons.prems(3,4) one by (simp_all add: server_run_Cons)
  ultimately show ?case using Cons.IH by blast
qed (simp add: server_run_def)

text \<open>The server before its first call.\<close>

lemma start_ok:
  fixes token :: "string option"
  defines "s \<equiv> set_auth_token token stream_open"
  shows "uplink_ok counted k s \<longleftrightarrow> \<not> counted \<or> k < 2 ^ 32" "wire_ok s" "framed s" "lease 0 s" "ss_active s"
    "\<not> ss_client s" "ss_downlink s = []"
  by (auto simp: s_def set_auth_token_def stream_open_def uplink_ok_def admitted_def wire_ok_def framed_def
      lease_def split: option.splits prod.splits bool.splits)

lemma token_set:
  assumes "t \<noteq> []" "length t \<le> AUTH_TOKEN_SIZE"
  shows "ss_auth_required (set_auth_token (Some t) stream_open) \<and>
         ss_token (set_auth_token (Some t) stream_open) = t"
  using assms by (simp add: set_auth_token_def copy_text_checked_def)

text \<open>C5: Without the token nobody gets in: in every state the runtime's loop can reach, a client whose
  buttons the server holds, or to whom it has sent a single octet of pictures, sound or save, began its
  connection with the opening packet and the very token the server was given.\<close>

theorem remote_auth_gate:
  assumes "t \<noteq> []" "length t \<le> AUTH_TOKEN_SIZE"
    and "server_run calls (set_auth_token (Some t) stream_open, slot) = (s, slot')"
    and "ss_client s" "ss_buttons s \<noteq> 0 \<or> ss_wire s \<noteq> []"
  shows "69 \<le> length (ss_uplink s) \<and> take 5 (ss_uplink s) = text_bytes ''FGAT1'' \<and>
         bytes_text (slice 5 64 (ss_uplink s)) = t"
proof -
  have "gate_ok t (set_auth_token (Some t) stream_open)"
    using start_ok [where token = "Some t"] token_set [OF assms(1,2)] by (simp add: gate_ok_def)
  then have "gate_ok t s"
    using assms(3) gate_ok_step
    by (intro server_run_invariant [where P = "\<lambda>s slot. gate_ok t s", OF _ _ assms(3)]) (auto split: prod.splits)
  then have "opened t (ss_uplink s)"
    using assms(4,5) by (auto simp: gate_ok_def uplink_ok_def)
  then show ?thesis
    by (simp add: opened_def AUTH_PACKET_SIZE_def AUTH_TOKEN_SIZE_def AUTH_MAGIC_def text_bytes_def)
qed

text \<open>C17: What the server holds as the player's input depends only on the octets that arrived, not on how
  the network cut them up, between which calls, or what was sent meanwhile: it is the input of the last
  packet whose number is not behind an earlier one, and an incomplete packet waits.\<close>

theorem remote_input_view:
  assumes "server_run calls (set_auth_token token stream_open, slot) = (s, slot')"
    and "sum_list (map call_cost calls) < 2 ^ 32" "admitted s"
  shows "(ss_seq s, ss_stamp s, ss_buttons s) = newest (fst (cut_packets (uplink_body s))) \<and>
         ss_packet_buffer s = snd (cut_packets (uplink_body s))"
proof -
  have "uplink_ok True (sum_list (map call_cost calls) + 0) (set_auth_token token stream_open)"
    using assms(2) start_ok(1) by simp
  from uplink_ok_run [OF this assms(1)] show ?thesis using assms(3) by (simp add: uplink_ok_def)
qed

text \<open>
  A file that runs short of what \<open>ftell\<close> said leaves a head that promises more octets than
  follow it, on a connection that stays open.
\<close>

lemma closed_no_client: "\<not> ss_client (close_client s)"
  by (simp add: close_client_def)

lemma send_chunks_short:
  "send_chunks remaining content script s = (s', r) \<Longrightarrow> length content < remaining \<Longrightarrow> ss_client s' \<Longrightarrow>
     r = - 1 \<and> (\<exists>k. s' = s\<lparr>ss_wire := ss_wire s @ take k content\<rparr>)"
proof (induction remaining content script s rule: send_chunks.induct)
  case (1 remaining content script s)
  let ?n = "if 8192 < remaining then 8192 else remaining"
  obtain s1 script1 good where put: "wait_write_all script (take ?n content) s = (s1, script1, good)"
    by (metis prod_cases3)
  note eq = send_chunks.simps [of remaining content script s, unfolded Let_def, unfolded put]
  have pos: "remaining \<noteq> 0" using "1.prems"(2) by simp
  show ?case
  proof (cases "length content < ?n")
    case True
    then have "s' = s" "r = - 1" using "1.prems"(1) pos unfolding eq by (auto split: if_split_asm)
    then show ?thesis by (intro conjI exI [of _ 0]) simp_all
  next
    case fits: False
    then have good: good using "1.prems"(1,3) pos unfolding eq by (cases good) (auto simp: closed_no_client)
    then have s1: "s1 = s\<lparr>ss_wire := ss_wire s @ take ?n content\<rparr>" using wait_write_all_ok [OF put] by blast
    have run: "send_chunks (remaining - ?n) (drop ?n content) script1 s1 = (s', r)"
      using "1.prems"(1) pos fits good unfolding eq by auto
    have less: "length (drop ?n content) < remaining - ?n" using "1.prems"(2) fits by auto
    have "r = - 1 \<and> (\<exists>k. s' = s1\<lparr>ss_wire := ss_wire s1 @ take k (drop ?n content)\<rparr>)"
      by (rule "1.IH" [OF pos refl fits put [symmetric] refl _ run less "1.prems"(3)]) (simp add: good)
    then obtain k where "r = - 1" "s' = s1\<lparr>ss_wire := ss_wire s1 @ take k (drop ?n content)\<rparr>" by blast
    then have "s' = s\<lparr>ss_wire := ss_wire s @ take (?n + k) content\<rparr>" by (simp only: s1 take_add) simp
    then show ?thesis using \<open>r = - 1\<close> by blast
  qed
qed

lemma whole_packets_cut:
  assumes "whole_packets q" "packet_length p = Some n" "length p < n"
  shows "\<not> whole_packets (q @ p)"
  using assms(1)
proof (induction rule: whole_packets.induct)
  case no_packet
  have "p \<noteq> []" using assms(2) by (auto simp: packet_length_def)
  show ?case
  proof
    assume "whole_packets ([] @ p)"
    then have "whole_packets p" by simp
    then show False
    proof cases
      case (next_packet p1 rest)
      then have "packet_length p = Some (length p1)" "length p1 \<le> length p" by simp_all
      then show ?thesis using assms(2,3) by simp
    qed (use \<open>p \<noteq> []\<close> in simp)
  qed
next
  case (next_packet p1 rest)
  have len: "packet_length (p1 @ rest @ p) = Some (length p1)"
    using packet_length_append [OF next_packet.hyps(1), of p] by simp
  note IH = next_packet.IH and filled = next_packet.hyps(2)
  show ?case
  proof
    assume "whole_packets ((p1 @ rest) @ p)"
    then have "whole_packets (p1 @ rest @ p)" by simp
    then show False
    proof cases
      case (next_packet p2 rest2)
      have "Some (length p1) = Some (length p2)"
        using len next_packet(2) unfolding next_packet(1) by (rule trans [OF sym])
      then have "length p1 = length p2" by simp
      then have "rest @ p = rest2" using next_packet(1) append_eq_append_conv by blast
      then show ?thesis using next_packet(4) IH by blast
    qed (use filled in simp)
  qed
qed

lemma short_file_breaks:
  assumes "send_save_file (Some f) script s = (s', r)" "ss_client s'"
    and "may_queue s" "wire_ok s" "whole_packets (ss_queued s)"
    and "sf_seek_ok f" "0 \<le> sf_tell f" "sf_tell f \<le> MAX_SAVE_TRANSFER_BYTES"
    and short: "length (sf_content f) < nat (sf_tell f)"
  shows "r = - 1 \<and> \<not> whole_packets (ss_wire s' @ drop (ss_sent s') (ss_downlink s'))"
proof -
  have client: "ss_client s" using assms(3) by (simp add: may_queue_def)
  obtain s1 script1 good where flush: "flush_downlink_before_save script s = (s1, script1, good)"
    by (metis prod_cases3)
  have good: good
    using assms(1-3) flush by (cases good) (auto simp: send_save_file_def closed_no_client)
  obtain a b where s1: "s1 = s\<lparr>ss_wire := ss_queued s, ss_frames_sent := a, ss_audio_sent := b,
      ss_downlink := [], ss_sent := 0\<rparr>" using flush_before_save_result [OF flush assms(4) client] good by auto
  let ?header = "PACKET_SAVE_RETURN # put_be32 (word_of_int (sf_tell f))"
  let ?s2 = "s1\<lparr>ss_queued := ss_queued s1 @ ?header @ take (nat (sf_tell f)) (sf_content f)\<rparr>"
  obtain s3 script2 sent where put: "wait_write_all script1 ?header ?s2 = (s3, script2, sent)"
    by (metis prod_cases3)
  have sent: sent
    using assms(1-3,6-8) flush good put
    by (cases sent) (auto simp: send_save_file_def Let_def closed_no_client not_less not_le)
  then have s3: "s3 = ?s2\<lparr>ss_wire := ss_wire ?s2 @ ?header\<rparr>" using wait_write_all_ok [OF put] by blast
  have "send_chunks (nat (sf_tell f)) (sf_content f) script2 s3 = (s', r)"
    using assms(1,3,6-8) flush good put sent by (auto simp: send_save_file_def Let_def not_less not_le)
  from send_chunks_short [OF this short assms(2)] obtain k where
    k: "r = - 1" "s' = s3\<lparr>ss_wire := ss_wire s3 @ take k (sf_content f)\<rparr>" by blast
  have "unat (word_of_int (sf_tell f) :: u32) = nat (sf_tell f)"
    using assms(7,8) by (simp add: MAX_SAVE_TRANSFER_BYTES_def unat_eq_nat_uint uint_word_of_int)
  then have "packet_length (?header @ take k (sf_content f)) = Some (5 + nat (sf_tell f))"
    by (simp add: packet_length_def PACKET_SAVE_RETURN_def PACKET_AUDIO_def PACKET_VIDEO_def)
  from whole_packets_cut [OF assms(5) this] short k show ?thesis by (simp add: s3 s1)
qed

lemma send_chunks_fails:
  "send_chunks remaining content script s = (s', r) \<Longrightarrow> length content < remaining \<Longrightarrow> r = - 1"
proof (induction remaining content script s rule: send_chunks.induct)
  case (1 remaining content script s)
  let ?n = "if 8192 < remaining then 8192 else remaining"
  obtain s1 script1 good where put: "wait_write_all script (take ?n content) s = (s1, script1, good)"
    by (metis prod_cases3)
  note eq = send_chunks.simps [of remaining content script s, unfolded Let_def, unfolded put]
  have pos: "remaining \<noteq> 0" using "1.prems"(2) by simp
  consider "length content < ?n" | "\<not> good" | "\<not> length content < ?n" good by blast
  then show ?case
  proof cases
    case 3
    have run: "send_chunks (remaining - ?n) (drop ?n content) script1 s1 = (s', r)"
      using "1.prems"(1) pos 3 unfolding eq by auto
    have less: "length (drop ?n content) < remaining - ?n" using "1.prems"(2) 3(1) by auto
    show ?thesis by (rule "1.IH" [OF pos refl 3(1) put [symmetric] refl _ run less]) (simp add: 3(2))
  qed (use "1.prems"(1) pos in \<open>cases good; auto simp: eq split: if_split_asm\<close>)+
qed

lemma short_file_fails:
  assumes "send_save_file (Some f) script s = (s', r)" "may_queue s"
    and "length (sf_content f) < nat (sf_tell f)"
  shows "r = - 1"
proof -
  obtain s1 script1 good where flush: "flush_downlink_before_save script s = (s1, script1, good)"
    by (metis prod_cases3)
  let ?header = "PACKET_SAVE_RETURN # put_be32 (word_of_int (sf_tell f))"
  let ?s2 = "s1\<lparr>ss_queued := ss_queued s1 @ ?header @ take (nat (sf_tell f)) (sf_content f)\<rparr>"
  obtain s3 script2 sent where put: "wait_write_all script1 ?header ?s2 = (s3, script2, sent)"
    by (metis prod_cases3)
  consider "r = - 1" | "send_chunks (nat (sf_tell f)) (sf_content f) script2 s3 = (s', r)"
    using assms(1,2) flush put
    by (cases good; cases sent) (auto simp: send_save_file_def Let_def split: if_split_asm)
  then show ?thesis using send_chunks_fails [OF _ assms(3)] by cases blast+
qed

text \<open>C15: The client can follow the stream, provided the pictures and sounds handed over have the size
  they announce and every save file that was sent reads as long as its ftell said: what was sent on a connection, followed by the part of the waiting packet that is not
  out yet, is then a sequence of whole packets, each as long as its own head says, however the socket
  took the octets. The proviso is needed: sending a file that runs short either loses the connection or
  fails with the connection open and the stream no longer a sequence of whole packets.\<close>

theorem remote_stream_framed:
  assumes "server_run calls (set_auth_token token stream_open, slot) = (s, slot')"
    and "list_all call_ok calls" "ss_client s"
  shows "whole_packets (ss_wire s @ drop (ss_sent s) (ss_downlink s)) \<and>
    (\<forall>f script. may_queue s \<and> sf_seek_ok f \<and> 0 \<le> sf_tell f \<and> sf_tell f \<le> MAX_SAVE_TRANSFER_BYTES \<and>
        length (sf_content f) < nat (sf_tell f) \<longrightarrow>
      (case send_save_file (Some f) script s of
         (s', r) \<Rightarrow> r = - 1 \<and>
           (ss_client s' \<longrightarrow> \<not> whole_packets (ss_wire s' @ drop (ss_sent s') (ss_downlink s')))))"
proof -
  have "link_ok False (sum_list (map call_cost calls) + 0) (set_auth_token token stream_open)"
    using start_ok by (simp add: link_ok_def)
  from link_run [OF this start_ok(3) assms(2,1)]
  have ok: "wire_ok s" "whole_packets (ss_queued s)" using assms(3) by (simp_all add: link_ok_def framed_def)
  have "r = - 1 \<and> (ss_client s' \<longrightarrow> \<not> whole_packets (ss_wire s' @ drop (ss_sent s') (ss_downlink s')))"
    if "send_save_file (Some f) script s = (s', r)" "may_queue s" "sf_seek_ok f" "0 \<le> sf_tell f"
      "sf_tell f \<le> MAX_SAVE_TRANSFER_BYTES" "length (sf_content f) < nat (sf_tell f)" for f script s' r
    using short_file_breaks [OF that(1) _ that(2) ok that(3-6)] short_file_fails [OF that(1,2,6)] by blast
  then show ?thesis using ok assms(3) by (fastforce simp: wire_ok_def split: prod.split)
qed

text \<open>C9: The remote player's keys: after the server has put its input into the slot, the slot's keys are
  the buttons of the connected client, and none if nobody is connected, also when the client
  vanished with keys held down, or another has taken its place in between.\<close>

theorem remote_keys_follow:
  assumes "server_run calls (set_auth_token token stream_open, Some p) = (s, slot)"
    and "pad_initialized p" "pad_keys p = 0"
    and "server_run (calls @ [ApplyInput]) (set_auth_token token stream_open, Some p) = (s', slot')"
  shows "\<exists>q. slot' = Some q \<and> pad_keys q = (if ss_client s then ss_buttons s else 0)"
proof -
  have "keys_ok (set_auth_token token stream_open) (Some p)"
    using assms(2,3) start_ok by (simp add: keys_ok_def)
  then have "keys_ok s slot"
    using keys_step by (intro server_run_invariant [where P = keys_ok, OF _ _ assms(1)]) (auto split: prod.splits)
  moreover have "apply_input s slot = (s', slot')" using assms(1,4) by (simp add: server_run_snoc)
  ultimately show ?thesis using apply_input_keys by blast
qed

text \<open>C37: A token that is too long opens the server instead of closing it: it is replaced by the empty
  token, and then 64 zero octets after the opening word are the right answer, whatever the secret was;
  the buttons that follow are the player's.\<close>

theorem overlong_token_admits:
  assumes "AUTH_TOKEN_SIZE < length t" "length packet = 13"
    and "pi_accept e = Accepted" "pi_reads e = [Arrive (AUTH_MAGIC @ replicate 64 0 @ packet)]"
  shows "ss_client (stream_poll e (set_auth_token (Some t) stream_open)) \<and>
         ss_authenticated (stream_poll e (set_auth_token (Some t) stream_open)) \<and>
         ss_buttons (stream_poll e (set_auth_token (Some t) stream_open)) = packet ! 12"
proof -
  define s0 where "s0 = accept_client Accepted (pi_accept_time e) (set_auth_token (Some t) stream_open)"
  define open_packet where "open_packet = AUTH_MAGIC @ replicate 64 (0 :: u8)"
  have len: "length open_packet = 69" by (simp add: open_packet_def AUTH_MAGIC_def)
  have set: "set_auth_token (Some t) stream_open =
      stream_open\<lparr>ss_token := [], ss_auth_required := True, ss_authenticated := False\<rparr>"
    using assms(1) by (auto simp: set_auth_token_def copy_text_checked_def)
  let ?s1 = "s0\<lparr>ss_auth_buffer := open_packet, ss_uplink := open_packet\<rparr>"
  let ?s2 = "?s1\<lparr>ss_authenticated := True, ss_auth_buffer := []\<rparr>"
  have s0: "ss_auth_buffer s0 = []" "ss_uplink s0 = []" "ss_token s0 = []" "ss_client s0" "ss_auth_required s0"
    "\<not> ss_authenticated s0" "ss_packet_buffer s0 = []" "ss_packets_received s0 = 0" "ss_downlink s0 = []"
    "ss_sent s0 = 0" "ss_active s0"
    unfolding s0_def set by (simp_all add: accept_client_def stream_open_def)
  have right: "auth_packet_matches ?s1"
    by (simp add: auth_packet_matches_def s0 open_packet_def AUTH_MAGIC_def slice_def bytes_text_def)
  have "read_auth_packet [Arrive (open_packet @ packet)] s0 = read_auth_packet [Arrive packet] ?s1"
    using len assms(2) by (subst read_auth_packet.simps) (auto simp: s0 AUTH_PACKET_SIZE_def)
  also have "\<dots> = (?s2, [Arrive packet], True)"
    using len right by (subst read_auth_packet.simps) (simp add: AUTH_PACKET_SIZE_def)
  finally have auth: "read_auth_packet [Arrive (open_packet @ packet)] s0 = (?s2, [Arrive packet], True)" .
  have "read_packets [Arrive packet] ?s2 = read_packets [] (take_input packet ?s2)"
    using assms(2) by (subst read_packets.simps) (auto simp: s0 INPUT_PACKET_SIZE_def)
  also have "\<dots> = take_input packet ?s2" by (subst read_packets.simps) simp
  finally have packets: "read_packets [Arrive packet] ?s2 = take_input packet ?s2" .
  have "read_client (pi_reads e) (accept_client (pi_accept e) (pi_accept_time e)
      (set_auth_token (Some t) stream_open)) = take_input packet ?s2"
    using auth packets s0 assms(3,4) by (simp add: read_client_def s0_def [symmetric] open_packet_def)
  moreover have "ss_active (set_auth_token (Some t) stream_open)" unfolding set by (simp add: stream_open_def)
  moreover have "take_input packet ?s2 = (handle_packet packet (?s2\<lparr>ss_packet_buffer := packet,
      ss_uplink := open_packet @ packet\<rparr>))\<lparr>ss_packet_buffer := []\<rparr>"
    using assms(2) by (simp add: take_input_def s0 INPUT_PACKET_SIZE_def)
  ultimately show ?thesis
    using s0 by (simp add: stream_poll_def handle_packet_def Let_def flush_downlink.simps count_downlink_def)
qed

text \<open>The save a client brought is lost when he comes back too late: if the game saved while he was
  away, the server marks that save as returned although nobody took it; after that, once one earlier
  save had been returned, the end of the session sends nothing, with the client connected again.\<close>

lemma periodic_save_lost:
  assumes "\<not> may_queue s" "slot_battery_dirty g" "periodic_save_due (be_now e) g" "be_stored e"
    and "send_slot2_save_if_dirty e saved script (s, g) = (s1, g1)"
    and "server_run calls (s1, pad) = (s2, pad2)" "ss_save_returns s2 \<noteq> 0"
  shows "s1 = s \<and> \<not> slot_battery_dirty g1 \<and>
         send_slot2_save_on_shutdown e2 saved2 script2 (s2, g1) = (s2, g1)"
proof -
  have "gs_init g" using assms(2) by (simp add: slot_battery_dirty_def)
  then have "s1 = s" "\<not> gs_dirty g1"
    using assms(1-5)
    by (auto simp: send_slot2_save_if_dirty_def save_and_send_def send_save_file_def slot_save_battery_def
        split: if_splits)
  then show ?thesis
    using assms(7) by (simp add: slot_battery_dirty_def send_slot2_save_on_shutdown_def)
qed

text \<open>With the client connected, a save that was marked as returned is on the wire in one piece.\<close>

lemma periodic_save_returned:
  assumes "may_queue s" "wire_ok s" "file_ok file"
    and "slot_battery_dirty g" "send_slot2_save_if_dirty e file script (s, g) = (s1, g1)"
    and "\<not> slot_battery_dirty g1"
  shows "\<exists>f. file = Some f \<and> ss_wire s1 = ss_queued s @ save_packet f"
proof -
  have init: "gs_init g" "gs_dirty g" using assms(4) by (simp_all add: slot_battery_dirty_def)
  obtain g2 r where stored: "slot_save_battery e g = (g2, r)" by fastforce
  have g2: "gs_init g2" "gs_dirty g2" using stored init by (auto simp: slot_save_battery_def split: if_splits)
  obtain s3 sent where send: "send_save_file file script s = (s3, sent)" by fastforce
  have "s1 = s3 \<and> sent = 0"
    using assms(4,5,6) init stored g2 send
    by (auto simp: send_slot2_save_if_dirty_def save_and_send_def slot_battery_dirty_def split: if_splits)
  then show ?thesis
    using send_save_file_result [OF send assms(2,3)] assms(1) by auto
qed

subsection \<open>A session\<close>

text \<open>A client with the token \<open>k\<close> presses A; its packets arrive in pieces; one moment of sound goes out.\<close>

definition sample_remote_calls :: "stream_call list" where
  "sample_remote_calls =
     [Poll \<lparr>pi_accept = Accepted,
            pi_reads = [Arrive (AUTH_MAGIC @ [0x6B] @ replicate 60 0),
                        Arrive (replicate 3 0 @ [0, 0, 0, 1] @ replicate 8 0 @ [0x10, 0])],
            pi_writes = [], pi_accept_time = 5, pi_time = 9\<rparr>,
      ApplyInput,
      QueueAudio [1, 2] 1 7,
      Poll \<lparr>pi_accept = NoClient, pi_reads = [NoData], pi_writes = [Wrote 5, WouldBlock 0],
            pi_accept_time = 0, pi_time = 10\<rparr>]"

definition sample_pad :: joypad where
  "sample_pad = \<lparr>pad_initialized = True, pad_keys = 0\<rparr>"

definition sample_remote :: "stream_server \<times> joypad option" where
  "sample_remote = server_run sample_remote_calls (set_auth_token (Some ''k'') stream_open, Some sample_pad)"

lemma sample_remote_state:
  "ss_client (fst sample_remote)" "ss_buttons (fst sample_remote) = 0x10" "ss_auth_required (fst sample_remote)"
  "ss_authenticated (fst sample_remote)"
  by code_simp+

theorem remote_auth_gate_witness:
  "69 \<le> length (ss_uplink (fst sample_remote)) \<and> take 5 (ss_uplink (fst sample_remote)) = text_bytes ''FGAT1'' \<and>
   bytes_text (slice 5 64 (ss_uplink (fst sample_remote))) = ''k''"
  by (rule remote_auth_gate [where calls = sample_remote_calls and slot = "Some sample_pad" and slot' = "snd sample_remote"])
     (simp_all add: sample_remote_state AUTH_TOKEN_SIZE_def flip: sample_remote_def)

theorem remote_input_view_witness:
  "(ss_seq (fst sample_remote), ss_stamp (fst sample_remote), ss_buttons (fst sample_remote)) =
     newest (fst (cut_packets (uplink_body (fst sample_remote)))) \<and>
   ss_packet_buffer (fst sample_remote) = snd (cut_packets (uplink_body (fst sample_remote)))"
proof (rule remote_input_view [where calls = sample_remote_calls and slot = "Some sample_pad" and
      slot' = "snd sample_remote" and token = "Some ''k''"])
  have "sum_list (map call_cost sample_remote_calls) = 86" by code_simp
  then show "sum_list (map call_cost sample_remote_calls) < 2 ^ 32" by simp
qed (simp_all add: sample_remote_state admitted_def flip: sample_remote_def)

theorem remote_stream_framed_witness:
  "whole_packets (ss_wire (fst sample_remote) @ drop (ss_sent (fst sample_remote)) (ss_downlink (fst sample_remote)))"
proof (rule remote_stream_framed [where calls = sample_remote_calls and slot = "Some sample_pad" and
      slot' = "snd sample_remote" and token = "Some ''k''", THEN conjunct1])
  show "list_all call_ok sample_remote_calls" by code_simp
qed (simp_all add: sample_remote_state flip: sample_remote_def)

theorem remote_keys_follow_witness:
  "\<exists>q. snd (server_run (sample_remote_calls @ [ApplyInput])
           (set_auth_token (Some ''k'') stream_open, Some sample_pad)) = Some q \<and>
       pad_keys q = (if ss_client (fst sample_remote) then ss_buttons (fst sample_remote) else 0)"
  by (rule remote_keys_follow [where calls = sample_remote_calls and p = sample_pad and
        slot = "snd sample_remote" and token = "Some ''k''" and s' = "fst (server_run (sample_remote_calls @ [ApplyInput])
           (set_auth_token (Some ''k'') stream_open, Some sample_pad))"])
     (simp_all add: sample_pad_def flip: sample_remote_def [unfolded sample_pad_def])

definition zero_key :: server_input where
  "zero_key = \<lparr>pi_accept = Accepted, pi_reads = [Arrive (AUTH_MAGIC @ replicate 64 0 @ replicate 12 0 @ [0x10])],
     pi_writes = [], pi_accept_time = 0, pi_time = 0\<rparr>"

theorem overlong_token_admits_witness:
  "ss_client (stream_poll zero_key (set_auth_token (Some (replicate 65 (CHR ''x''))) stream_open)) \<and>
   ss_authenticated (stream_poll zero_key (set_auth_token (Some (replicate 65 (CHR ''x''))) stream_open)) \<and>
   ss_buttons (stream_poll zero_key (set_auth_token (Some (replicate 65 (CHR ''x''))) stream_open)) =
     (replicate 12 0 @ [0x10]) ! 12"
  by (rule overlong_token_admits) (simp_all add: AUTH_TOKEN_SIZE_def zero_key_def)

text \<open>One save was returned, the client is away, the game saves, the session ends.\<close>

definition away :: stream_server where
  "away = stream_open\<lparr>ss_save_returns := 1\<rparr>"

definition unsent_slot :: game_slot where
  "unsent_slot = \<lparr>gs_init = True, gs_dirty = True, gs_last_save = 0\<rparr>"

definition storing :: battery_env where
  "storing = \<lparr>be_has_file = True, be_stored = True, be_now = 5000000, be_saved_at = 5000001\<rparr>"

theorem periodic_save_lost_witness:
  "away = away \<and> \<not> slot_battery_dirty (unsent_slot\<lparr>gs_last_save := 5000001, gs_dirty := False\<rparr>) \<and>
   send_slot2_save_on_shutdown storing None []
     (fst (server_run [Poll (zero_key\<lparr>pi_reads := []\<rparr>)] (away, None)),
      unsent_slot\<lparr>gs_last_save := 5000001, gs_dirty := False\<rparr>) =
     (fst (server_run [Poll (zero_key\<lparr>pi_reads := []\<rparr>)] (away, None)),
      unsent_slot\<lparr>gs_last_save := 5000001, gs_dirty := False\<rparr>)"
proof (rule periodic_save_lost [where g = unsent_slot and e = storing and script = "[]" and saved = None and
      calls = "[Poll (zero_key\<lparr>pi_reads := []\<rparr>)]" and pad = None])
  show "server_run [Poll (zero_key\<lparr>pi_reads := []\<rparr>)] (away, None) =
      (fst (server_run [Poll (zero_key\<lparr>pi_reads := []\<rparr>)] (away, None)), None)"
    by (simp add: server_run_def)
  show "ss_save_returns (fst (server_run [Poll (zero_key\<lparr>pi_reads := []\<rparr>)] (away, None))) \<noteq> 0"
    by code_simp
  show "send_slot2_save_if_dirty storing None [] (away, unsent_slot) =
      (away, unsent_slot\<lparr>gs_last_save := 5000001, gs_dirty := False\<rparr>)"
    by code_simp
qed code_simp+

end
