(* ===== verification/TransferSav.thy ===== *)
theory TransferSav
  imports Streams SecureMemory ContentHash
begin

text \<open>
  The two saves a Transfer Pak session starts with (\<open>runtimes/common/transfer_sav_ipc.c\<close>) and what the
  N64 runtime makes of them (\<open>runtimes/n64/src/transfer_pak/memory_session.c\<close>): the check that a save
  fits the cartridge's header, the pipe message with the session's digest and one digest per save, and
  the session's slots. The saves live in page-locked buffers, which every failure wipes; the freed
  blocks are part of the results.
\<close>

unbundle bit_operations_syntax

section \<open>Model\<close>

subsection \<open>Is this the save of that cartridge?\<close>

definition ram_sizes :: "nat list" where
  "ram_sizes = [0, 2048, 8192, 32768, 131072, 65536]"

text \<open>The bytes of the cartridge's memory, by its header; None for an unknown size.\<close>

definition header_ram :: "bytes \<Rightarrow> nat option" where
  "header_ram header =
     (if length ram_sizes \<le> unat (header ! 0x149) then None
      else let ram = ram_sizes ! unat (header ! 0x149)
           in Some (if ram = 0 \<and> (header ! 0x147 = 5 \<or> header ! 0x147 = 6) then 512 else ram))"

definition header_clock :: "bytes \<Rightarrow> bool" where
  "header_clock header \<longleftrightarrow> header ! 0x147 = 0x0f \<or> header ! 0x147 = 0x10"

definition clock_bank_ok :: "bytes \<Rightarrow> bool" where
  "clock_bank_ok r \<longleftrightarrow>
     \<not> (60 \<le> r ! 0 \<or> 60 \<le> r ! 4 \<or> 24 \<le> r ! 8 \<or> r ! 16 AND 0x3e \<noteq> 0) \<and>
     list_all (\<lambda>i. i mod 4 = 0 \<or> r ! i = 0) [0..<20]"

text \<open>\<open>now\<close> is what \<open>time\<close> returns, None when the system has no clock.\<close>

definition transfer_sav_ready :: "int option \<Rightarrow> bytes option \<Rightarrow> bytes option \<Rightarrow> bool" where
  "transfer_sav_ready now header save =
     (case (header, save) of
        (Some h, Some s) \<Rightarrow>
          (case header_ram h of
             None \<Rightarrow> False
           | Some ram \<Rightarrow>
               if length s = 32768 \<and> list_all (\<lambda>b. b = 0) s then False
               else if \<not> header_clock h then length s = ram
               else if length s \<noteq> ram + 48 then False
               else let rtc = drop ram s; last = get_le64 (drop 40 rtc)
                    in clock_bank_ok (take 20 rtc) \<and> clock_bank_ok (take 20 (drop 20 rtc)) \<and>
                       (case now of None \<Rightarrow> False | Some t \<Rightarrow> 852076800 \<le> last \<and> last \<le> word_of_int t))
      | _ \<Rightarrow> False)"

subsection \<open>The message\<close>

definition TRANSFER_SAV_MAX :: nat where "TRANSFER_SAV_MAX = 128 * 1024 + 48"

record transfer_slot =
  ts_save :: secure_buffer
  ts_length :: nat
  ts_revision :: u32

definition empty_transfer_slot :: transfer_slot where
  "empty_transfer_slot = \<lparr>ts_save = empty_secure_buffer, ts_length = 0, ts_revision = 0\<rparr>"

type_synonym transfer_pair = "transfer_slot \<times> transfer_slot"

definition session_char :: "char \<Rightarrow> bool" where
  "session_char c \<longleftrightarrow> c_isalnum c \<or> c = CHR ''_'' \<or> c = CHR ''-''"

definition session_hash :: "string option \<Rightarrow> bytes option" where
  "session_hash session =
     (case session of
        None \<Rightarrow> None
      | Some s \<Rightarrow> if s = [] \<or> 160 < length s \<or> \<not> list_all session_char s then None
                  else Some (content_sha256 (text_bytes s)))"

definition release_slot :: "transfer_slot \<Rightarrow> bytes list" where
  "release_slot t = snd (secure_buffer_release (Some (ts_save t)))"

definition transfer_sav_pair_clear :: "transfer_pair \<Rightarrow> transfer_pair \<times> bytes list" where
  "transfer_sav_pair_clear pair =
     ((empty_transfer_slot, empty_transfer_slot), release_slot (fst pair) @ release_slot (snd pair))"

definition slot_sendable :: "transfer_slot \<Rightarrow> bool" where
  "slot_sendable t \<longleftrightarrow>
     \<not> (sb_data (ts_save t) = None \<or> ts_length t = 0 \<or> TRANSFER_SAV_MAX < ts_length t \<or>
        sb_size (ts_save t) < ts_length t \<or> INT_MAX < unat (ts_revision t))"

definition slot_octets :: "transfer_slot \<Rightarrow> bytes" where
  "slot_octets t = take (ts_length t) (the (sb_data (ts_save t)))"

definition slot_header :: "u32 \<Rightarrow> transfer_slot \<Rightarrow> bytes" where
  "slot_header i t =
     put_be32 48 @ put_be32 (i + 1) @ put_be32 (word_of_nat (ts_length t)) @ put_be32 (ts_revision t) @
     content_sha256 (slot_octets t)"

definition transfer_preamble :: "bytes \<Rightarrow> bytes" where
  "transfer_preamble digest = [0x49, 0x54, 0x50, 0x53, 0, 0, 0, 1, 0, 0, 0, 2] @ digest"

text \<open>The parts in the order they are written; the writer stops at the first that fails.\<close>

definition transfer_parts :: "bytes \<Rightarrow> transfer_pair \<Rightarrow> bytes list" where
  "transfer_parts digest pair =
     [transfer_preamble digest, slot_header 0 (fst pair), slot_octets (fst pair),
      slot_header 1 (snd pair), slot_octets (snd pair)]"

definition transfer_sav_send :: "'c writer \<Rightarrow> 'c \<Rightarrow> string option \<Rightarrow> transfer_pair \<Rightarrow> 'c \<times> bool" where
  "transfer_sav_send w c session pair =
     (case session_hash session of
        None \<Rightarrow> (c, False)
      | Some digest \<Rightarrow>
          if \<not> slot_sendable (fst pair) \<or> \<not> slot_sendable (snd pair) then (c, False)
          else write_parts w c (transfer_parts digest pair))"

text \<open>
  One turn of the receiving loop; the slot is as far as it got. A buffer whose read fails keeps the
  zeros of its allocation here, which nobody can tell: it is wiped.
\<close>

definition receive_slot ::
  "malloc \<Rightarrow> (bytes \<Rightarrow> bool) \<Rightarrow> 'c reader \<Rightarrow> u32 \<Rightarrow> 'c \<Rightarrow> 'c \<times> transfer_slot \<times> bytes list \<times> bool" where
  "receive_slot m mlock rd i c =
     (case read_all rd c 48 of
        (c1, None) \<Rightarrow> (c1, empty_transfer_slot, [], False)
      | (c1, Some h) \<Rightarrow>
          if get_be32 h \<noteq> 48 \<or> get_be32 (drop 4 h) \<noteq> i + 1 then (c1, empty_transfer_slot, [], False)
          else let n = unat (get_be32 (drop 8 h)); revision = get_be32 (drop 12 h)
               in if n = 0 \<or> TRANSFER_SAV_MAX < n \<or> INT_MAX < unat revision
                  then (c1, empty_transfer_slot, [], False)
                  else case secure_buffer_init m mlock (Some empty_secure_buffer) n LockBestEffort of
                         (b, freed, False) \<Rightarrow>
                           (c1, empty_transfer_slot\<lparr>ts_save := the b\<rparr>, freed, False)
                       | (b, freed, True) \<Rightarrow>
                           let t = \<lparr>ts_save = the b, ts_length = n, ts_revision = revision\<rparr>
                           in case read_all rd c1 n of
                                (c2, None) \<Rightarrow> (c2, t, freed, False)
                              | (c2, Some body) \<Rightarrow>
                                  (c2, t\<lparr>ts_save := (the b)\<lparr>sb_data := Some body\<rparr>\<rparr>, freed,
                                   content_sha256 body = drop 16 h))"

definition transfer_preamble_ok :: "bytes \<Rightarrow> bytes \<Rightarrow> bool" where
  "transfer_preamble_ok expected p \<longleftrightarrow>
     take 4 p = [0x49, 0x54, 0x50, 0x53] \<and> get_be32 (drop 4 p) = 1 \<and> get_be32 (drop 8 p) = 2 \<and>
     drop 12 p = expected"

text \<open>The exit \<open>fail\<close>; \<open>freed\<close> are the blocks the failed call itself had freed.\<close>

definition transfer_fail :: "'c \<Rightarrow> transfer_pair \<Rightarrow> bytes list \<Rightarrow> 'c \<times> transfer_pair \<times> bytes list \<times> bool" where
  "transfer_fail c pair freed =
     (case transfer_sav_pair_clear pair of (pair', released) \<Rightarrow> (c, pair', freed @ released, False))"

definition transfer_sav_receive ::
  "malloc \<Rightarrow> (bytes \<Rightarrow> bool) \<Rightarrow> 'c reader \<Rightarrow> 'c \<Rightarrow> string option \<Rightarrow>
   'c \<times> transfer_pair \<times> bytes list \<times> bool" where
  "transfer_sav_receive m mlock rd c session =
     (let empty = (empty_transfer_slot, empty_transfer_slot) in
      case session_hash session of
        None \<Rightarrow> transfer_fail c empty []
      | Some expected \<Rightarrow>
          (case read_all rd c 44 of
             (c1, None) \<Rightarrow> transfer_fail c1 empty []
           | (c1, Some p) \<Rightarrow>
               if \<not> transfer_preamble_ok expected p then transfer_fail c1 empty []
               else case receive_slot m mlock rd 0 c1 of
                      (c2, t1, freed1, False) \<Rightarrow> transfer_fail c2 (t1, empty_transfer_slot) freed1
                    | (c2, t1, freed1, True) \<Rightarrow>
                        (case receive_slot m mlock rd 1 c2 of
                           (c3, t2, freed2, False) \<Rightarrow> transfer_fail c3 (t1, t2) (freed1 @ freed2)
                         | (c3, t2, freed2, True) \<Rightarrow>
                             (case rd c3 1 of
                                (c4, amount, extra) \<Rightarrow>
                                  if amount \<noteq> 0 then transfer_fail c4 (t1, t2) (freed1 @ freed2)
                                  else (c4, (t1, t2), freed1 @ freed2, True)))))"

text \<open>The callbacks on the pipe: anything but a pipe is refused, interrupted calls are repeated.\<close>

definition transfer_sav_pipe_read :: "bool \<Rightarrow> pipe reader" where
  "transfer_sav_pipe_read fifo p n = (if \<not> fifo then (p, - 1, []) else fd_read p n)"

definition transfer_sav_pipe_write :: "bool \<Rightarrow> pipe writer" where
  "transfer_sav_pipe_write blocked p bs = (if \<not> blocked then (p, - 1) else fd_write p bs)"

subsection \<open>The session's memory\<close>

record memory_slot =
  ms_data :: "bytes option"
  ms_size :: nat
  ms_has_rtc :: bool
  ms_rtc :: bytes

definition empty_memory_slot :: memory_slot where
  "empty_memory_slot = \<lparr>ms_data = None, ms_size = 0, ms_has_rtc = False, ms_rtc = replicate 48 0\<rparr>"

text \<open>
  What the stored cartridge's first 0x150 octets are, None if its path is too long, the file does not
  open or is shorter.
\<close>

definition memory_slot_of :: "int option \<Rightarrow> bytes option \<Rightarrow> transfer_slot \<Rightarrow> memory_slot option" where
  "memory_slot_of now header t =
     (case header of
        None \<Rightarrow> None
      | Some h \<Rightarrow>
          (case header_ram h of
             None \<Rightarrow> None
           | Some ram \<Rightarrow>
               if \<not> transfer_sav_ready now (Some h) (map_option (take (ts_length t)) (sb_data (ts_save t))) then None
               else Some \<lparr>ms_data = sb_data (ts_save t), ms_size = ram, ms_has_rtc = header_clock h,
                          ms_rtc = (if header_clock h then slice ram 48 (the (sb_data (ts_save t)))
                                    else replicate 48 0)\<rparr>))"

definition transfer_pak_memory_prepare ::
  "malloc \<Rightarrow> (bytes \<Rightarrow> bool) \<Rightarrow> 'c reader \<Rightarrow> 'c \<Rightarrow> int option \<Rightarrow> (nat \<Rightarrow> bytes option) option \<Rightarrow> string option \<Rightarrow>
   'c \<times> transfer_pair \<times> (memory_slot \<times> memory_slot) \<times> bytes list \<times> bool" where
  "transfer_pak_memory_prepare m mlock rd c now storage session =
     (let empty = (empty_memory_slot, empty_memory_slot) in
      case transfer_sav_receive m mlock rd c session of
        (c1, pair, freed, ok) \<Rightarrow>
          (let fail = (case transfer_sav_pair_clear pair of (pair', released) \<Rightarrow>
                         (c1, pair', empty, freed @ released, False))
           in case storage of
                None \<Rightarrow> fail
              | Some headers \<Rightarrow>
                  if \<not> ok then fail
                  else case memory_slot_of now (headers 1) (fst pair) of
                         None \<Rightarrow> fail
                       | Some s1 \<Rightarrow>
                           (case memory_slot_of now (headers 2) (snd pair) of
                              None \<Rightarrow> fail
                            | Some s2 \<Rightarrow> (c1, pair, (s1, s2), freed, True))))"

section \<open>Buffers and wiping\<close>

definition slot_valid :: "transfer_slot \<Rightarrow> bool" where
  "slot_valid t \<longleftrightarrow> 0 < ts_length t \<and> ts_length t \<le> TRANSFER_SAV_MAX \<and> unat (ts_revision t) \<le> INT_MAX \<and>
     (\<exists>d. sb_data (ts_save t) = Some d \<and> length d = ts_length t) \<and> sb_size (ts_save t) = ts_length t"

definition slot_safe :: "transfer_slot \<Rightarrow> bool" where
  "slot_safe t \<longleftrightarrow> (case sb_data (ts_save t) of None \<Rightarrow> True | Some d \<Rightarrow> length d = sb_size (ts_save t))"

lemma slot_valid_safe: "slot_valid t \<Longrightarrow> slot_safe t"
  by (auto simp: slot_valid_def slot_safe_def)

text \<open>A buffer as large as it says holds every octet that is sent of it.\<close>

lemma length_slot_octets: "slot_sendable t \<Longrightarrow> slot_safe t \<Longrightarrow> length (slot_octets t) = ts_length t"
  by (auto simp: slot_sendable_def slot_safe_def slot_octets_def)

lemma slot_safe_empty [simp]: "slot_safe empty_transfer_slot"
  by (simp add: slot_safe_def empty_transfer_slot_def empty_secure_buffer_def)

lemma release_slot_wiped: "slot_safe t \<Longrightarrow> wiped (release_slot t)"
  by (auto simp: slot_safe_def release_slot_def secure_buffer_release_def wiped_def split: option.splits)

lemma wiped_append [simp]: "wiped (xs @ ys) \<longleftrightarrow> wiped xs \<and> wiped ys"
  by (simp add: wiped_def)

lemma transfer_fail_wiped:
  "transfer_fail c pair freed = (c', pair', freed', ok) \<Longrightarrow> slot_safe (fst pair) \<Longrightarrow> slot_safe (snd pair) \<Longrightarrow>
   wiped freed \<Longrightarrow> c' = c \<and> pair' = (empty_transfer_slot, empty_transfer_slot) \<and> wiped freed' \<and> \<not> ok"
  by (auto simp: transfer_fail_def transfer_sav_pair_clear_def release_slot_wiped)

lemma best_effort_init:
  assumes "malloc_ok m" "n \<noteq> 0" "n \<le> TRANSFER_SAV_MAX"
  shows "secure_buffer_init m mlock (Some empty_secure_buffer) n LockBestEffort =
     (case m n of None \<Rightarrow> (Some empty_secure_buffer, [], False)
      | Some b \<Rightarrow> (Some \<lparr>sb_data = Some (replicate n 0), sb_size = n,
                        sb_locked = mlock (replicate n 0)\<rparr>, [], True))"
  using assms by (auto simp: secure_buffer_init_def lock_pages_def SECURE_BUFFER_MAX_SIZE_def
      TRANSFER_SAV_MAX_def Let_def split: option.splits)

section \<open>One slot on the wire\<close>

lemma length_slot_header [simp, range]: "length (slot_header i t) = 48"
  by (simp add: slot_header_def)

lemma slot_header_of:
  assumes "length h = 48" "get_be32 h = 48" "get_be32 (drop 4 h) = i + 1"
  shows "h = put_be32 48 @ put_be32 (i + 1) @ put_be32 (get_be32 (drop 8 h)) @
             put_be32 (get_be32 (drop 12 h)) @ drop 16 h"
proof -
  have part: "put_be32 (get_be32 (drop k h)) = take 4 (drop k h)" if "k + 4 \<le> 48" for k
    using put_get_be32 [of "take 4 (drop k h)"] assms(1) that by (simp add: get_be32_take)
  have "h = take 4 h @ take 4 (drop 4 h) @ take 4 (drop 8 h) @ take 4 (drop 12 h) @ drop 16 h"
    using append_take_drop_id [of 4 h] append_take_drop_id [of 4 "drop 4 h"]
      append_take_drop_id [of 4 "drop 8 h"] append_take_drop_id [of 4 "drop 12 h"] by simp
  then show ?thesis using part [of 0] part [of 4] part [of 8] part [of 12] assms(2,3) by simp
qed

context byte_reader
begin

lemma receive_slot_sound:
  assumes "receive_slot m mlock r i c = (c', t, freed, ok)" "malloc_ok m"
  shows "if ok then slot_valid t \<and> freed = [] \<and> rest c = slot_header i t @ slot_octets t @ rest c'
         else slot_safe t \<and> wiped freed"
proof -
  obtain c1 h where r1: "read_all r c 48 = (c1, h)" by fastforce
  show ?thesis
  proof (cases h)
    case None
    then show ?thesis using assms(1) r1 by (auto simp: receive_slot_def)
  next
    case (Some header)
    have head: "length header = 48" "rest c = header @ rest c1" using read_all_Some r1 Some by blast+
    define n where "n = unat (get_be32 (drop 8 header))"
    define revision where "revision = get_be32 (drop 12 header)"
    show ?thesis
    proof (cases "get_be32 header = 48 \<and> get_be32 (drop 4 header) = i + 1 \<and> n \<noteq> 0 \<and> n \<le> TRANSFER_SAV_MAX \<and>
        unat revision \<le> INT_MAX \<and> m n \<noteq> None")
      case False
      then have "\<not> ok \<and> freed = [] \<and> t = empty_transfer_slot"
        using assms r1 Some
        by (auto simp: receive_slot_def Let_def n_def revision_def best_effort_init not_less not_le
            empty_transfer_slot_def split: if_splits)
      then show ?thesis by simp
    next
      case True
      let ?b = "\<lparr>sb_data = Some (replicate n 0), sb_size = n, sb_locked = mlock (replicate n 0)\<rparr>"
      obtain block where block: "m n = Some block" using True by blast
      obtain c2 b where r2: "read_all r c1 n = (c2, b)" by fastforce
      show ?thesis
      proof (cases b)
        case None
        then have "\<not> ok" "freed = []" "t = \<lparr>ts_save = ?b, ts_length = n, ts_revision = revision\<rparr>"
          using assms r1 Some True block r2
          by (auto simp: receive_slot_def Let_def n_def revision_def best_effort_init not_less)
        then show ?thesis by (simp add: slot_safe_def)
      next
        case body: (Some d)
        have d: "length d = n" "rest c1 = d @ rest c2" using read_all_Some r2 body by blast+
        have res: "c' = c2" "freed = []"
          "t = \<lparr>ts_save = ?b\<lparr>sb_data := Some d\<rparr>, ts_length = n, ts_revision = revision\<rparr>"
          "ok \<longleftrightarrow> content_sha256 d = drop 16 header"
          using assms r1 Some True block r2 body
          by (auto simp: receive_slot_def Let_def n_def revision_def best_effort_init not_less)
        have "slot_valid t" using True d by (simp add: res slot_valid_def)
        moreover have "rest c = slot_header i t @ slot_octets t @ rest c'" if ok
          using head(2) d that True slot_header_of [OF head(1), of i]
          by (simp add: res slot_header_def slot_octets_def n_def revision_def)
        ultimately show ?thesis using res(2) slot_valid_safe by auto
      qed
    qed
  qed
qed

lemma receive_slot_wire:
  assumes good: "good c" and wire: "rest c = slot_header i t @ slot_octets t @ tail"
    and ok: "slot_sendable t" and fit: "length (slot_octets t) = ts_length t"
    and m: "malloc_ok m" "m (ts_length t) \<noteq> None"
  shows "\<exists>c' t'. receive_slot m mlock r i c = (c', t', [], True) \<and> rest c' = tail \<and> good c' \<and>
     ts_length t' = ts_length t \<and> ts_revision t' = ts_revision t \<and>
     sb_data (ts_save t') = Some (slot_octets t) \<and> slot_valid t'"
proof -
  let ?n = "ts_length t"
  have n: "?n \<noteq> 0" "?n \<le> TRANSFER_SAV_MAX" "unat (ts_revision t) \<le> INT_MAX"
    using ok by (auto simp: slot_sendable_def)
  obtain c1 where c1: "read_all r c 48 = (c1, Some (slot_header i t))"
      "rest c1 = slot_octets t @ tail" "good c1"
    using read_all_complete [OF good, of 48] wire by auto
  obtain c2 where c2: "read_all r c1 ?n = (c2, Some (slot_octets t))" "rest c2 = tail" "good c2"
    using read_all_complete [OF c1(3), of ?n] c1(2) fit by auto
  have parts: "get_be32 (slot_header i t) = 48" "get_be32 (drop 4 (slot_header i t)) = i + 1"
    "get_be32 (drop 8 (slot_header i t)) = word_of_nat ?n" "get_be32 (drop 12 (slot_header i t)) = ts_revision t"
    "drop 16 (slot_header i t) = content_sha256 (slot_octets t)"
    by (simp_all add: slot_header_def)
  have small: "unat (word_of_nat ?n :: u32) = ?n"
    using n(2) by (simp add: TRANSFER_SAV_MAX_def unat_of_nat)
  obtain block where block: "m ?n = Some block" using m(2) by blast
  have "receive_slot m mlock r i c =
      (c2, \<lparr>ts_save = \<lparr>sb_data = Some (slot_octets t), sb_size = ?n, sb_locked = mlock (replicate ?n 0)\<rparr>,
            ts_length = ?n, ts_revision = ts_revision t\<rparr>, [], True)"
    using c1(1) c2(1) parts small n block best_effort_init [OF m(1) n(1,2)]
    by (simp add: receive_slot_def Let_def not_less)
  then show ?thesis using c2 n fit by (simp add: slot_valid_def)
qed

end

section \<open>The whole message\<close>

definition transfer_wire :: "bytes \<Rightarrow> transfer_pair \<Rightarrow> bytes" where
  "transfer_wire digest pair = concat (transfer_parts digest pair)"

lemma length_transfer_preamble: "length digest = 32 \<Longrightarrow> length (transfer_preamble digest) = 44"
  by (simp add: transfer_preamble_def)

lemma transfer_preamble_ok_own: "transfer_preamble_ok digest (transfer_preamble digest)"
  by (simp add: transfer_preamble_ok_def transfer_preamble_def get_be32_def)

lemma transfer_preamble_of:
  assumes "length p = 44" "transfer_preamble_ok digest p"
  shows "p = transfer_preamble digest"
proof -
  have part: "put_be32 (get_be32 (drop k p)) = take 4 (drop k p)" if "k + 4 \<le> 44" for k
    using put_get_be32 [of "take 4 (drop k p)"] assms(1) that by (simp add: get_be32_take)
  have "p = take 4 p @ take 4 (drop 4 p) @ take 4 (drop 8 p) @ drop 12 p"
    using append_take_drop_id [of 4 p] append_take_drop_id [of 4 "drop 4 p"]
      append_take_drop_id [of 4 "drop 8 p"] by simp
  moreover have "put_be32 1 = [0, 0, 0, 1]" "put_be32 2 = [0, 0, 0, 2]" by (simp_all add: put_be32_def)
  then have "take 4 (drop 4 p) = [0, 0, 0, 1]" "take 4 (drop 8 p) = [0, 0, 0, 2]"
    using assms(2) part [of 4] part [of 8] by (simp_all add: transfer_preamble_ok_def)
  ultimately show ?thesis
    using assms(2) by (simp add: transfer_preamble_ok_def transfer_preamble_def)
qed

lemma length_session_hash: "session_hash session = Some digest \<Longrightarrow> length digest = 32"
  by (auto simp: session_hash_def split: option.splits if_splits)

text \<open>A reader that tells the end of its stream from a pause: it answers 0 there and only there.\<close>

locale eof_reader = byte_reader +
  assumes read_zero: "r c n = (c', 0, bs) \<Longrightarrow> 0 < n \<Longrightarrow> rest c = []"
    and read_eof: "good c \<Longrightarrow> rest c = [] \<Longrightarrow> r c n = (c', amount, bs) \<Longrightarrow> 0 < n \<Longrightarrow> amount = 0"
begin

lemma transfer_receive_sound:
  assumes "transfer_sav_receive m mlock r c session = (c', pair, freed, ok)" "malloc_ok m"
  shows "if ok then freed = [] \<and> slot_valid (fst pair) \<and> slot_valid (snd pair) \<and>
              (\<exists>digest. session_hash session = Some digest \<and> rest c = transfer_wire digest pair)
         else pair = (empty_transfer_slot, empty_transfer_slot) \<and> wiped freed"
proof (cases "session_hash session")
  case None
  then show ?thesis
    using assms(1) transfer_fail_wiped [of c "(empty_transfer_slot, empty_transfer_slot)" "[]" c' pair freed ok]
    by (simp add: transfer_sav_receive_def)
next
  case (Some digest)
  obtain c1 p where r1: "read_all r c 44 = (c1, p)" by fastforce
  show ?thesis
  proof (cases "\<exists>q. p = Some q \<and> transfer_preamble_ok digest q")
    case False
    then show ?thesis
      using assms(1) Some r1 transfer_fail_wiped [of c1 "(empty_transfer_slot, empty_transfer_slot)" "[]" c' pair freed ok]
      by (cases p) (simp_all add: transfer_sav_receive_def)
  next
    case True
    then obtain q where q: "p = Some q" "transfer_preamble_ok digest q" by blast
    have c1: "q = transfer_preamble digest" "rest c = q @ rest c1"
      using read_all_Some r1 q transfer_preamble_of by blast+
    obtain c2 t1 freed1 ok1 where s1: "receive_slot m mlock r 0 c1 = (c2, t1, freed1, ok1)"
      by (metis prod_cases4)
    note t1 = receive_slot_sound [OF s1 assms(2)]
    show ?thesis
    proof (cases ok1)
      case False
      then show ?thesis
        using assms(1) Some r1 q s1 t1
          transfer_fail_wiped [of c2 "(t1, empty_transfer_slot)" freed1 c' pair freed ok]
        by (simp add: transfer_sav_receive_def)
    next
      case ok1: True
      obtain c3 t2 freed2 ok2 where s2: "receive_slot m mlock r 1 c2 = (c3, t2, freed2, ok2)"
        by (metis prod_cases4)
      note t2 = receive_slot_sound [OF s2 assms(2)]
      obtain c4 amount extra where last: "r c3 1 = (c4, amount, extra)" by (metis prod_cases3)
      show ?thesis
      proof (cases "ok2 \<and> amount = 0")
        case False
        then show ?thesis
          using assms(1) Some r1 q s1 t1 ok1 s2 t2 last slot_valid_safe [of t1] slot_valid_safe [of t2]
            transfer_fail_wiped [of c3 "(t1, t2)" "freed1 @ freed2" c' pair freed ok]
            transfer_fail_wiped [of c4 "(t1, t2)" "freed1 @ freed2" c' pair freed ok]
          by (cases ok2) (simp_all add: transfer_sav_receive_def)
      next
        case True
        then have out: "pair = (t1, t2)" "freed = freed1 @ freed2" ok
          using assms(1) Some r1 q s1 ok1 s2 last by (simp_all add: transfer_sav_receive_def)
        have "rest c3 = []" using read_zero [of c3 1 c4 extra] last True by simp
        then have "rest c = transfer_wire digest pair"
          using c1 t1 t2 ok1 True by (simp add: out(1) transfer_wire_def transfer_parts_def)
        then show ?thesis using out t1 t2 ok1 True Some by simp
      qed
    qed
  qed
qed

lemma transfer_receive_wire:
  assumes good: "good c" and hash: "session_hash session = Some digest"
    and wire: "rest c = transfer_wire digest pair"
    and ok: "slot_sendable (fst pair)" "slot_safe (fst pair)" "slot_sendable (snd pair)" "slot_safe (snd pair)"
    and m: "malloc_ok m" "m (ts_length (fst pair)) \<noteq> None" "m (ts_length (snd pair)) \<noteq> None"
  shows "\<exists>c' t1 t2. transfer_sav_receive m mlock r c session = (c', (t1, t2), [], True) \<and> rest c' = [] \<and>
     ts_length t1 = ts_length (fst pair) \<and> ts_revision t1 = ts_revision (fst pair) \<and>
     sb_data (ts_save t1) = Some (slot_octets (fst pair)) \<and> slot_valid t1 \<and>
     ts_length t2 = ts_length (snd pair) \<and> ts_revision t2 = ts_revision (snd pair) \<and>
     sb_data (ts_save t2) = Some (slot_octets (snd pair)) \<and> slot_valid t2"
proof -
  obtain c1 where c1: "read_all r c 44 = (c1, Some (transfer_preamble digest))"
      "rest c1 = slot_header 0 (fst pair) @ slot_octets (fst pair) @
                 slot_header 1 (snd pair) @ slot_octets (snd pair)" "good c1"
    using read_all_complete [OF good, of 44] wire length_transfer_preamble [OF length_session_hash [OF hash]]
    by (auto simp: transfer_wire_def transfer_parts_def)
  obtain c2 t1 where c2: "receive_slot m mlock r 0 c1 = (c2, t1, [], True)"
      "rest c2 = slot_header 1 (snd pair) @ slot_octets (snd pair)" "good c2"
      "ts_length t1 = ts_length (fst pair)" "ts_revision t1 = ts_revision (fst pair)"
      "sb_data (ts_save t1) = Some (slot_octets (fst pair))" "slot_valid t1"
    using receive_slot_wire [OF c1(3,2) ok(1) length_slot_octets [OF ok(1,2)] m(1,2)] by blast
  obtain c3 t2 where c3: "receive_slot m mlock r 1 c2 = (c3, t2, [], True)"
      "rest c3 = []" "good c3"
      "ts_length t2 = ts_length (snd pair)" "ts_revision t2 = ts_revision (snd pair)"
      "sb_data (ts_save t2) = Some (slot_octets (snd pair))" "slot_valid t2"
    using receive_slot_wire [where tail = "[]", OF c2(3) _ ok(3) length_slot_octets [OF ok(3,4)] m(1,3)] c2(2)
    by (metis append_Nil2)
  obtain c4 amount extra where last: "r c3 1 = (c4, amount, extra)" by (metis prod_cases3)
  have zero: "amount = 0" using read_eof [OF c3(3,2) last] by simp
  have "rest c4 = []" using read_rest [OF last] c3(2) by simp
  moreover have "transfer_sav_receive m mlock r c session = (c4, (t1, t2), [], True)"
    using hash c1(1) transfer_preamble_ok_own c2(1) c3(1) last zero by (simp add: transfer_sav_receive_def)
  ultimately show ?thesis using c2(4-7) c3(4-7) by blast
qed

end

section \<open>Over the pipe\<close>

lemma fd_read_zero: "fd_read p n = (p', 0, bs) \<Longrightarrow> 0 < n \<Longrightarrow> in_flight p = []"
proof (induction p n arbitrary: p' bs rule: fd_read.induct)
  case (1 p n)
  obtain d a xs e where step: "sys_read p n = (d, a, xs, e)" by (metis prod_cases4)
  show ?case
  proof (cases "a < 0 \<and> e = E_INTR")
    case True
    then have "fd_read d n = (p', 0, bs)" using "1.prems"(1) step by (simp add: fd_read.simps [of p n])
    then have "in_flight d = []" using "1.IH" [OF step [symmetric] refl refl True] "1.prems"(2) by blast
    then show ?thesis
      using step True by (auto simp: sys_read_def Let_def split: list.splits sys_event.splits)
  next
    case False
    then have "a = 0" using "1.prems"(1) step by (auto simp: fd_read.simps [of p n] split: if_splits)
    then show ?thesis
      using step "1.prems"(2)
      by (auto simp: sys_read_def Let_def plan_limit_def min_def split: list.splits sys_event.splits if_splits)
  qed
qed

lemma fd_read_eof: "reliable p \<Longrightarrow> in_flight p = [] \<Longrightarrow> fd_read p n = (p', amount, bs) \<Longrightarrow> amount = 0"
proof (induction p n arbitrary: p' bs rule: fd_read.induct)
  case (1 p n)
  obtain d a xs e where step: "sys_read p n = (d, a, xs, e)" by (metis prod_cases4)
  show ?case
  proof (cases "a < 0 \<and> e = E_INTR")
    case True
    then have run: "fd_read d n = (p', amount, bs)" using "1.prems"(3) step by (simp add: fd_read.simps [of p n])
    have "reliable d" "in_flight d = []"
      using step True "1.prems"(1,2) reliable_tl [of p]
      by (auto simp: sys_read_def Let_def reliable_def split: list.splits sys_event.splits)
    then show ?thesis using "1.IH" [OF step [symmetric] refl refl True] run by blast
  next
    case False
    then have "amount = a" using "1.prems"(3) step by (auto simp: fd_read.simps [of p n] split: if_splits)
    then show ?thesis
      using step False "1.prems"(1,2)
      by (auto simp: sys_read_def Let_def reliable_def split: list.splits sys_event.splits)
  qed
qed

interpretation transfer_reader: eof_reader "transfer_sav_pipe_read fifo" in_flight "\<lambda>p. fifo \<and> reliable p" for fifo
proof unfold_locales
  fix c n c' amount bs
  assume r: "transfer_sav_pipe_read fifo c n = (c', amount, bs)" and n: "0 < (n::nat)"
  show "in_flight c = take (nat amount) bs @ in_flight c'" "nat amount \<le> n \<and> length bs = nat amount"
    using r fd_read_spec [of c n c' amount bs] by (auto simp: transfer_sav_pipe_read_def split: if_splits)
  show "(fifo \<and> reliable c') \<and> (in_flight c \<noteq> [] \<longrightarrow> 0 < amount)" if "fifo \<and> reliable c"
    using r that n fd_read_spec [of c n c' amount bs] by (auto simp: transfer_sav_pipe_read_def)
  show "amount = 0" if "fifo \<and> reliable c" "in_flight c = []"
    using r that fd_read_eof [of c n c' amount bs] by (auto simp: transfer_sav_pipe_read_def)
next
  fix c n c' bs
  assume "transfer_sav_pipe_read fifo c n = (c', 0, bs)" and "0 < (n::nat)"
  then show "in_flight c = []"
    using fd_read_zero [of c n c' bs] by (auto simp: transfer_sav_pipe_read_def split: if_splits)
qed

interpretation transfer_writer: byte_writer "transfer_sav_pipe_write blocked" in_flight "\<lambda>p. blocked \<and> reliable p"
  for blocked
proof unfold_locales
  fix c bs c' amount
  assume w: "transfer_sav_pipe_write blocked c bs = (c', amount)" and bs: "bs \<noteq> []"
  show "in_flight c' = in_flight c @ take (nat amount) bs" "nat amount \<le> length bs"
    using w fd_write_spec [of c bs c' amount] by (auto simp: transfer_sav_pipe_write_def split: if_splits)
  show "(blocked \<and> reliable c') \<and> 0 < amount" if "blocked \<and> reliable c"
    using w bs that fd_write_spec [of c bs c' amount] by (auto simp: transfer_sav_pipe_write_def)
qed

section \<open>Properties\<close>

text \<open>C38: The client's send and the runtime's receive agree over every pipe that interrupts and splits as it
  likes, once the client has closed its end: of each buffer, which may be larger than its save, as the
  client's are, the runtime has exactly the announced octets in a buffer of just that size, with their
  revision; nothing was wiped on the way, and the pipe is empty.\<close>

theorem transfer_pipe_roundtrip:
  assumes "session_hash session \<noteq> None"
    and "slot_sendable (fst pair)" "slot_safe (fst pair)" "slot_sendable (snd pair)" "slot_safe (snd pair)"
    and "reliable c" "in_flight c = []" "IOError \<notin> set schedule" "malloc_ok m"
    and "m (ts_length (fst pair)) \<noteq> None" "m (ts_length (snd pair)) \<noteq> None"
  shows "\<exists>c1 c2 t1 t2.
     transfer_sav_send (transfer_sav_pipe_write True) c session pair = (c1, True) \<and>
     transfer_sav_receive m mlock (transfer_sav_pipe_read True) (c1\<lparr>plan := schedule\<rparr>) session =
       (c2, (t1, t2), [], True) \<and> in_flight c2 = [] \<and>
     ts_length t1 = ts_length (fst pair) \<and> ts_revision t1 = ts_revision (fst pair) \<and>
     sb_data (ts_save t1) = Some (take (ts_length (fst pair)) (the (sb_data (ts_save (fst pair))))) \<and>
     sb_size (ts_save t1) = ts_length (fst pair) \<and>
     ts_length t2 = ts_length (snd pair) \<and> ts_revision t2 = ts_revision (snd pair) \<and>
     sb_data (ts_save t2) = Some (take (ts_length (snd pair)) (the (sb_data (ts_save (snd pair))))) \<and>
     sb_size (ts_save t2) = ts_length (snd pair)"
proof -
  obtain digest where hash: "session_hash session = Some digest" using assms(1) by blast
  have c: "True \<and> reliable c" using assms(6) by blast
  obtain c1 where c1: "write_parts (transfer_sav_pipe_write True) c (transfer_parts digest pair) = (c1, True)"
      "in_flight c1 = transfer_wire digest pair"
    using transfer_writer.write_parts_complete [OF c, of "transfer_parts digest pair"] assms(7)
    unfolding transfer_wire_def by auto
  have sent: "transfer_sav_send (transfer_sav_pipe_write True) c session pair = (c1, True)"
    using hash c1(1) assms(2,4) by (simp add: transfer_sav_send_def)
  have ready: "True \<and> reliable (c1\<lparr>plan := schedule\<rparr>)" "in_flight (c1\<lparr>plan := schedule\<rparr>) = transfer_wire digest pair"
    using assms(8) c1(2) by (simp_all add: reliable_def)
  from transfer_reader.transfer_receive_wire [OF ready(1) hash ready(2) assms(2-5,9-11)]
  obtain c2 t1 t2 where got: "transfer_sav_receive m mlock (transfer_sav_pipe_read True) (c1\<lparr>plan := schedule\<rparr>)
       session = (c2, (t1, t2), [], True)" "in_flight c2 = []"
    "ts_length t1 = ts_length (fst pair)" "ts_revision t1 = ts_revision (fst pair)"
    "sb_data (ts_save t1) = Some (slot_octets (fst pair))" "slot_valid t1"
    "ts_length t2 = ts_length (snd pair)" "ts_revision t2 = ts_revision (snd pair)"
    "sb_data (ts_save t2) = Some (slot_octets (snd pair))" "slot_valid t2" by blast
  have "sb_size (ts_save t1) = ts_length (fst pair)" "sb_size (ts_save t2) = ts_length (snd pair)"
    using got(3,6,7,10) by (simp_all add: slot_valid_def)
  then show ?thesis using sent got unfolding slot_octets_def by blast
qed

text \<open>C7: Whatever octets the runtime finds in what it was given as its pipe: if it takes them, they are, to the
  last one, the message that the client's send writes for this session and these two saves, with
  their digests; otherwise no save is left, and every block was wiped before it was freed.\<close>

theorem transfer_pipe_sound:
  assumes "malloc_ok m"
    and "transfer_sav_receive m mlock (transfer_sav_pipe_read fifo) c session = (c', pair, freed, ok)"
  shows "if ok
         then freed = [] \<and> slot_valid (fst pair) \<and> slot_valid (snd pair) \<and>
              (\<exists>digest. session_hash session = Some digest \<and> in_flight c = transfer_wire digest pair)
         else pair = (empty_transfer_slot, empty_transfer_slot) \<and> wiped freed"
  by (rule transfer_reader.transfer_receive_sound [OF assms(2,1)])

text \<open>The size of a save that passes the check is the cartridge's.\<close>

lemma ready_size:
  assumes "transfer_sav_ready now (Some h) (Some s)"
  shows "\<exists>ram. header_ram h = Some ram \<and> length s = ram + (if header_clock h then 48 else 0)"
  using assms by (auto simp: transfer_sav_ready_def Let_def split: option.splits if_splits)

text \<open>What a slot of the session is for a cartridge and a save.\<close>

definition clock_plausible :: "int option \<Rightarrow> bytes \<Rightarrow> bool" where
  "clock_plausible now rtc \<longleftrightarrow>
     rtc ! 0 < 60 \<and> rtc ! 4 < 60 \<and> rtc ! 8 < 24 \<and> rtc ! 20 < 60 \<and> rtc ! 24 < 60 \<and> rtc ! 28 < 24 \<and>
     (case now of None \<Rightarrow> False
      | Some t \<Rightarrow> 852076800 \<le> get_le64 (drop 40 rtc) \<and> get_le64 (drop 40 rtc) \<le> word_of_int t)"

definition memory_holds :: "int option \<Rightarrow> bytes \<Rightarrow> bytes \<Rightarrow> memory_slot \<Rightarrow> bool" where
  "memory_holds now h save s \<longleftrightarrow>
     transfer_sav_ready now (Some h) (Some save) \<and> ms_data s = Some save \<and>
     header_ram h = Some (ms_size s) \<and> ms_has_rtc s = header_clock h \<and>
     length save = ms_size s + (if header_clock h then 48 else 0) \<and> length save \<le> TRANSFER_SAV_MAX \<and>
     save \<noteq> replicate 32768 0 \<and>
     (if header_clock h then ms_rtc s = drop (ms_size s) save \<and> clock_plausible now (ms_rtc s)
      else ms_rtc s = replicate 48 0)"

lemma ready_blank: "transfer_sav_ready now (Some h) (Some s) \<Longrightarrow> s \<noteq> replicate 32768 0"
  by (auto simp: transfer_sav_ready_def list_all_iff split: option.splits if_splits)

lemma ready_clock:
  assumes "transfer_sav_ready now (Some h) (Some s)" "header_ram h = Some ram" "header_clock h"
  shows "clock_plausible now (drop ram s)"
proof -
  have s: "length s = ram + 48" "clock_bank_ok (take 20 (drop ram s))"
    "clock_bank_ok (take 20 (drop 20 (drop ram s)))"
    "case now of None \<Rightarrow> False | Some t \<Rightarrow> 852076800 \<le> get_le64 (drop 40 (drop ram s)) \<and>
       get_le64 (drop 40 (drop ram s)) \<le> word_of_int t"
    using assms by (auto simp: transfer_sav_ready_def Let_def split: if_split_asm)
  then show ?thesis by (simp add: clock_plausible_def clock_bank_ok_def not_le add.commute)
qed

lemma memory_slot_holds:
  assumes "memory_slot_of now header t = Some s" "slot_valid t"
  shows "\<exists>h. header = Some h \<and> memory_holds now h (take (ts_length t) (the (sb_data (ts_save t)))) s"
proof -
  obtain d where d: "sb_data (ts_save t) = Some d" "length d = ts_length t" "ts_length t \<le> TRANSFER_SAV_MAX"
    using assms(2) by (auto simp: slot_valid_def)
  obtain h ram where h: "header = Some h" "header_ram h = Some ram"
      "transfer_sav_ready now (Some h) (Some d)"
      "s = \<lparr>ms_data = Some d, ms_size = ram, ms_has_rtc = header_clock h,
            ms_rtc = (if header_clock h then slice ram 48 d else replicate 48 0)\<rparr>"
    using assms(1) d by (auto simp: memory_slot_of_def split: option.splits if_splits)
  then show ?thesis
    using ready_size [OF h(3)] ready_blank [OF h(3)] ready_clock [OF h(3,2)] d
    by (auto simp: memory_holds_def slice_def)
qed

text \<open>C39: The memory a Transfer Pak session starts with: if it is prepared, the pipe held exactly this
  session's message with two saves, the first is in the first slot and passed the check against the
  first stored cartridge's header, the second likewise in the second, and each slot is in bounds: the
  cartridge's memory by its header, with the 48 octets of its clock when it has one, is exactly the
  save, and the clock is the save's end. If anything is wrong there is no slot, no save, and nothing
  unwiped is freed.\<close>

theorem session_memory_in_bounds:
  assumes "malloc_ok m"
    and "transfer_pak_memory_prepare m mlock (transfer_sav_pipe_read fifo) c now storage session =
           (c', pair, (s1, s2), freed, ok)"
  shows "if ok
         then freed = [] \<and>
           (\<exists>digest. session_hash session = Some digest \<and> in_flight c = transfer_wire digest pair) \<and>
           (\<exists>headers h1 h2. storage = Some headers \<and> headers 1 = Some h1 \<and> headers 2 = Some h2 \<and>
              memory_holds now h1 (take (ts_length (fst pair)) (the (sb_data (ts_save (fst pair))))) s1 \<and>
              memory_holds now h2 (take (ts_length (snd pair)) (the (sb_data (ts_save (snd pair))))) s2)
         else (s1, s2) = (empty_memory_slot, empty_memory_slot) \<and>
              pair = (empty_transfer_slot, empty_transfer_slot) \<and> wiped freed"
proof -
  obtain c1 p f good where recv: "transfer_sav_receive m mlock (transfer_sav_pipe_read fifo) c session = (c1, p, f, good)"
    by (metis prod_cases4)
  note sound = transfer_reader.transfer_receive_sound [OF recv assms(1)]
  have safe: "wiped (release_slot (fst p))" "wiped (release_slot (snd p))" "wiped f"
    using sound release_slot_wiped slot_valid_safe by (auto split: if_splits)
  have failed: "c' = c1 \<and> pair = (empty_transfer_slot, empty_transfer_slot) \<and>
       (s1, s2) = (empty_memory_slot, empty_memory_slot) \<and> wiped freed \<and> \<not> ok"
    if "(c', pair, (s1, s2), freed, ok) = (case transfer_sav_pair_clear p of (pair', released) \<Rightarrow>
          (c1, pair', (empty_memory_slot, empty_memory_slot), f @ released, False))"
    using that safe by (auto simp: transfer_sav_pair_clear_def)
  show ?thesis
  proof (cases "\<exists>headers a b. storage = Some headers \<and> good \<and> memory_slot_of now (headers 1) (fst p) = Some a \<and>
      memory_slot_of now (headers 2) (snd p) = Some b")
    case True
    then obtain headers a b where ab: "storage = Some headers" good
        "memory_slot_of now (headers 1) (fst p) = Some a" "memory_slot_of now (headers 2) (snd p) = Some b"
      by blast
    then have "s1 = a" "s2 = b" "pair = p" "freed = f" ok
      using assms(2) recv by (simp_all add: transfer_pak_memory_prepare_def Let_def)
    then show ?thesis using sound memory_slot_holds [OF ab(3)] memory_slot_holds [OF ab(4)] ab(1,2) by auto
  next
    case False
    then have "(c', pair, (s1, s2), freed, ok) = (case transfer_sav_pair_clear p of (pair', released) \<Rightarrow>
          (c1, pair', (empty_memory_slot, empty_memory_slot), f @ released, False))"
      using assms(2) recv
      by (auto simp: transfer_pak_memory_prepare_def Let_def split: option.splits if_splits prod.splits)
    from failed [OF this] show ?thesis by auto
  qed
qed

subsection \<open>A session\<close>

text \<open>
  Two saves of a cartridge with 512 octets of memory, the first in a larger buffer, as the client has
  them. The hash is left as it is.
\<close>

definition sample_slot :: "nat \<Rightarrow> bytes \<Rightarrow> transfer_slot" where
  "sample_slot n d = \<lparr>ts_save = \<lparr>sb_data = Some d, sb_size = length d, sb_locked = False\<rparr>,
                      ts_length = n, ts_revision = 7\<rparr>"

definition sample_saves :: transfer_pair where
  "sample_saves = (sample_slot 512 (replicate 512 1 @ replicate 88 0), sample_slot 512 (replicate 512 2))"

definition sample_header :: bytes where
  "sample_header = replicate 0x147 0 @ [5] @ replicate 8 0"

definition sample_message :: pipe where
  "sample_message = \<lparr>in_flight = transfer_wire (the (session_hash (Some ''room_1''))) sample_saves,
                     plan = [Moves 3, Interrupted]\<rparr>"

definition sample_malloc :: malloc where
  "sample_malloc n = Some (replicate n 0)"

lemma sample_session_hash: "session_hash (Some ''room_1'') = Some (the (session_hash (Some ''room_1'')))"
  by (simp add: session_hash_def session_char_def c_isalnum_def c_isdigit_def c_islower_def)

lemma sample_slots:
  "slot_sendable (fst sample_saves)" "slot_safe (fst sample_saves)"
  "slot_sendable (snd sample_saves)" "slot_safe (snd sample_saves)"
  "ts_length (fst sample_saves) = 512" "ts_length (snd sample_saves) = 512"
  "take 512 (the (sb_data (ts_save (fst sample_saves)))) = replicate 512 1"
  "take 512 (the (sb_data (ts_save (snd sample_saves)))) = replicate 512 2"
  by (simp_all add: sample_saves_def sample_slot_def slot_sendable_def slot_safe_def TRANSFER_SAV_MAX_def
      INT_MAX_def)

lemma sample_malloc_ok: "malloc_ok sample_malloc" "sample_malloc n \<noteq> None"
  by (simp_all add: malloc_ok_def sample_malloc_def)

theorem transfer_pipe_roundtrip_witness:
  "\<exists>c1 c2 t1 t2.
     transfer_sav_send (transfer_sav_pipe_write True) \<lparr>in_flight = [], plan = [Interrupted, Moves 3]\<rparr>
       (Some ''room_1'') sample_saves = (c1, True) \<and>
     transfer_sav_receive sample_malloc (\<lambda>_. True) (transfer_sav_pipe_read True)
       (c1\<lparr>plan := [Moves 0, Interrupted]\<rparr>) (Some ''room_1'') = (c2, (t1, t2), [], True) \<and> in_flight c2 = [] \<and>
     sb_data (ts_save t1) = Some (replicate 512 1) \<and> sb_data (ts_save t2) = Some (replicate 512 2)"
proof -
  have "session_hash (Some ''room_1'') \<noteq> None" by (subst sample_session_hash) simp
  from transfer_pipe_roundtrip [where c = "\<lparr>in_flight = [], plan = [Interrupted, Moves 3]\<rparr>" and
      schedule = "[Moves 0, Interrupted]" and mlock = "\<lambda>_. True",
      OF this sample_slots(1-4) _ _ _ sample_malloc_ok sample_malloc_ok(2)]
  show ?thesis unfolding sample_slots(5-8) by (simp add: reliable_def) blast
qed

lemma sample_received:
  "\<exists>c' t1 t2. transfer_sav_receive sample_malloc (\<lambda>_. True) (transfer_sav_pipe_read True) sample_message
      (Some ''room_1'') = (c', (t1, t2), [], True) \<and>
     ts_length t1 = 512 \<and> sb_data (ts_save t1) = Some (replicate 512 1) \<and>
     ts_length t2 = 512 \<and> sb_data (ts_save t2) = Some (replicate 512 2)"
proof -
  have "True \<and> reliable sample_message" "in_flight sample_message =
      transfer_wire (the (session_hash (Some ''room_1''))) sample_saves"
    by (simp_all add: sample_message_def reliable_def)
  from transfer_reader.transfer_receive_wire [OF this(1) sample_session_hash this(2) sample_slots(1-4)
      sample_malloc_ok(1,2) sample_malloc_ok(2), where mlock = "\<lambda>_. True"]
  show ?thesis unfolding slot_octets_def sample_slots(5-8) by blast
qed

theorem transfer_pipe_sound_witness:
  "\<exists>c' t1 t2 digest. transfer_sav_receive sample_malloc (\<lambda>_. True) (transfer_sav_pipe_read True) sample_message
      (Some ''room_1'') = (c', (t1, t2), [], True) \<and> slot_valid t1 \<and> slot_valid t2 \<and>
     session_hash (Some ''room_1'') = Some digest \<and> in_flight sample_message = transfer_wire digest (t1, t2)"
proof -
  obtain c' t1 t2 where run: "transfer_sav_receive sample_malloc (\<lambda>_. True) (transfer_sav_pipe_read True)
      sample_message (Some ''room_1'') = (c', (t1, t2), [], True)" using sample_received by blast
  from transfer_pipe_sound [OF sample_malloc_ok(1) run] run show ?thesis by auto
qed

theorem session_memory_in_bounds_witness:
  "\<exists>c' pair s1 s2. transfer_pak_memory_prepare sample_malloc (\<lambda>_. True) (transfer_sav_pipe_read True)
      sample_message (Some 900000000) (Some (\<lambda>_. Some sample_header)) (Some ''room_1'') = (c', pair, (s1, s2), [], True) \<and>
     memory_holds (Some 900000000) sample_header (replicate 512 1) s1 \<and>
     memory_holds (Some 900000000) sample_header (replicate 512 2) s2"
proof -
  obtain c' t1 t2 where recv: "transfer_sav_receive sample_malloc (\<lambda>_. True) (transfer_sav_pipe_read True)
      sample_message (Some ''room_1'') = (c', (t1, t2), [], True)"
    and t: "ts_length t1 = 512" "sb_data (ts_save t1) = Some (replicate 512 1)"
      "ts_length t2 = 512" "sb_data (ts_save t2) = Some (replicate 512 2)" using sample_received by blast
  have header: "header_ram sample_header = Some 512" "\<not> header_clock sample_header"
    by (simp_all add: header_ram_def header_clock_def sample_header_def ram_sizes_def nth_append)
  have "transfer_sav_ready now (Some sample_header) (Some (replicate 512 (b::u8)))" for b now
    using header by (simp add: transfer_sav_ready_def)
  then have "memory_slot_of (Some 900000000) (Some sample_header) t1 \<noteq> None"
      "memory_slot_of (Some 900000000) (Some sample_header) t2 \<noteq> None"
    using t header by (simp_all add: memory_slot_of_def)
  then obtain s1 s2 where "memory_slot_of (Some 900000000) (Some sample_header) t1 = Some s1"
      "memory_slot_of (Some 900000000) (Some sample_header) t2 = Some s2" by blast
  then have run: "transfer_pak_memory_prepare sample_malloc (\<lambda>_. True) (transfer_sav_pipe_read True)
      sample_message (Some 900000000) (Some (\<lambda>_. Some sample_header)) (Some ''room_1'') =
      (c', (t1, t2), (s1, s2), [], True)"
    using recv by (simp add: transfer_pak_memory_prepare_def Let_def)
  from session_memory_in_bounds [OF sample_malloc_ok(1) run] show ?thesis
    using run t by auto
qed

end
