(* ===== verification/Spec2Isabelle.thy ===== *)
theory Spec2Isabelle
  imports BoundedBuffer SgbBoot ResultIpc Scheduler N64Keys InputRouter ProductRuntime SaveOutbox
    SaveStage FixedHost MobileSockets MediaIpc MediaCodec PayloadCodec Mdns
    MobileSession StreamServer TransferSav
begin

text \<open>
  The emulator's own C code, verified: the client (\<open>c_client/\<close>), the Game Boy runtime it starts
  (\<open>runtimes/gb/src/\<close>), the N64 runtime (\<open>runtimes/n64/src/\<close>) and what they share
  (\<open>runtimes/common/\<close>). The emulation cores, libmobile, SDL, OpenSSL and the codecs under
  \<open>third_party/\<close> and outside the tree are not part of it; where the code depends on them they are
  parameters.

  \<^bold>\<open>The program and its parts.\<close> The client logs in, keeps the player's saves on the server and
  starts a runtime as a child process. For a link session one player is the host: his child process
  gets the two saves over a pipe, runs both machines, sends pictures and sound to the other player
  over a relay, takes that player's buttons, and at the end both sides agree on a final state; the
  child then reports the two new saves to the client over a second pipe, and the client uploads them.
  The N64 runtime hands its pictures to the client through shared memory, and gives the emulated
  Transfer Pak a working copy of a Game Boy save. The mobile adapter's servers are replaced by a route
  table that answers the emulated adapter's requests.

  \<^bold>\<open>Conventions.\<close> A C structure is a record with fields of the same meaning, in most cases prefixed
  by two letters; an enumeration is a datatype or the C number where the code computes with it;
  \<open>uint8_t\<close> to \<open>uint64_t\<close> are words of that width, \<open>size_t\<close> and counters that provably stay small
  are \<open>nat\<close>, and \<open>int\<close> results are \<open>int\<close>. A pointer that may be NULL is an \<open>option\<close>. A text is a
  \<open>string\<close> without the closing zero; a buffer of \<open>n\<close> octets holds texts shorter than \<open>n\<close>. An operation
  returns the objects it changes and its C result. What the system does (how much a transfer moves,
  whether a call fails, when the process dies, how processes interleave) is a script or a schedule the
  theorems quantify over, so that a theorem covers every fault and every interleaving the model has.

  \<^bold>\<open>The theories, from the bottom up.\<close>
  \<^item> \<open>Common\<close>: machine integers, byte ranges and wire integers, character classes, and the lemma
    collections \<open>codec\<close> and \<open>range\<close>. \<open>Streams\<close>: the interfaces \<open>byte_stream\<close>, \<open>byte_writer\<close> and
    \<open>byte_reader\<close> as locales, with the transfer loops (\<open>read_all\<close> and \<open>write_all\<close> of
    \<open>gb_runtime_fixed_host_snapshot_ipc.c\<close>) proved in them and the pipe callbacks of
    \<open>client_room_link.c\<close> as their instance. \<open>CText\<close>: decimal text, \<open>strtol\<close>, \<open>parse_util.c\<close>,
    \<open>display_scale.c\<close>.
  \<^item> \<open>SecureMemory\<close> (\<open>secure_memory.c\<close>), \<open>ContentHash\<close> (\<open>content_hash.c\<close>, SHA-256 against the
    padding-and-blocks specification \<open>sha_spec\<close>), \<open>SgbBoot\<close> (\<open>sgb_boot_resource.c\<close>) and
    \<open>BoundedBuffer\<close> (\<open>mobile_bounded_buffer.c\<close>, which is a \<open>byte_stream\<close>).
  \<^item> \<open>SnapshotIpc\<close> and \<open>ResultIpc\<close>: the two pipes between client and child
    (\<open>gb_runtime_fixed_host_snapshot_ipc.c\<close>, \<open>..._result_ipc.c\<close>): what is sent is received whatever
    the pipe does, what is malformed is refused, and secrets are wiped on every path.
  \<^item> \<open>Scheduler\<close> (\<open>gb_runtime_fixed_host_scheduler.c\<close>): the two test macros end exactly if they have
    the same number of barriers.
  \<^item> \<open>SdlEvents\<close>, \<open>N64Keys\<close>, \<open>InputDevices\<close>, \<open>KeyConfig\<close>, \<open>InputRouter\<close>: input. Bindings are
    captured from events, written as text and read back (\<open>keymap.c\<close>, \<open>hotkeys.c\<close>, \<open>key_config.c\<close>);
    the router (\<open>input_router.c\<close>) keeps the joypads equal to the buttons held and the turbo ones due.
    The emulator's key state is the locale \<open>slot_view\<close>.
  \<^item> \<open>ProductRuntime\<close> (\<open>gb_runtime_fixed_host_product_runtime.c\<close> and \<open>poll_input\<close>): the player's side.
    The exit confirmation refines a dialog of three stages (\<open>exit_dialog\<close>): a session ends only at a
    confirming event with Yes on the screen.
  \<^item> \<open>FileStore\<close> (\<open>client_file_io.c\<close> over a store with faults and crashes), \<open>SaveEnvelope\<close> and
    \<open>SaveOutbox\<close> (\<open>client_save_outbox.c\<close>, \<open>client_save_sync.c\<close>): no upload overtakes an unanswered
    one, and the working save survives until its upload is confirmed. \<open>SaveStage\<close>
    (\<open>transfer_pak/save_stage.c\<close>): a cartridge's save is replaced in one step or not at all.
  \<^item> \<open>RelayLink\<close> (\<open>media_relay_client.c\<close>): frames arrive in order and once each over a transport that
    splits, blocks and fails; the locale \<open>framing\<close> has the three parsers as instances. \<open>FixedHost\<close>
    (\<open>integral_gb_runtime_fixed_host.c\<close>): both ends of a session, and their agreement at its end.
  \<^item> \<open>MobileRoutes\<close>, \<open>MobileSockets\<close> (\<open>mobile_route_engine.c\<close>): the check of a package by exploration
    of its states, and the socket calls, over which no request escapes the package; every allocation
    may fail, and what a receive then copies is None where the code reads through a null pointer.
    \<open>MobileSession\<close> (\<open>mobile_session_contract.c\<close>, \<open>mobile_session_manifest.c\<close>): how the package comes
    to the runtime, from the server's JSON over a manifest and its files, which lie in the manifest's
    directory or, where their path goes on with a backslash, beside it.
  \<^item> \<open>MediaIpc\<close> (\<open>remote_media_ipc.c\<close>): the guard of the shared memory, with single loads and stores
    interleaved; the locale \<open>media_region\<close> has video and audio as instances. \<open>MediaCodec\<close>
    (\<open>media_codec.c\<close>): ADPCM and the jitter buffer.
  \<^item> \<open>StreamServer\<close> (\<open>stream_server.c\<close>, \<open>server_cleanup.c\<close>): the remote player of the Game Boy
    runtime. Nobody gets in without the token, the client can follow the stream until a save file runs
    short while it is sent, the keys are his and go up when he vanishes. \<open>TransferSav\<close>
    (\<open>transfer_sav_ipc.c\<close>, \<open>memory_session.c\<close>): the saves lent to a Transfer Pak session over a pipe
    that must end after them, from buffers that may be larger than the saves, and the slot each gets;
    the locale \<open>eof_reader\<close> is a \<open>byte_reader\<close> that can tell the end.
  \<^item> \<open>PayloadCodec\<close> (\<open>http_payload_codec.c\<close>): JSON by key search and base64. \<open>Mdns\<close> (\<open>mdns.c\<close>): the
    announcement on the local network and its parser.

  \<^bold>\<open>What the properties are.\<close> Each is introduced by its number. The ones about whole protocols come
  first: the end of a session (\<open>FixedHost\<close>), uploads (\<open>SaveOutbox\<close>), the relay (\<open>RelayLink\<close>), the
  staged save (\<open>SaveStage\<close>), the remote player (\<open>StreamServer\<close>), the mobile sockets
  (\<open>MobileSockets\<close>), the shared memory (\<open>MediaIpc\<close>), the pipes. Several describe what the code does
  where that is not what was meant; they are listed as findings of the development. The model of the
  hash is checked on the standard's own example (\<open>abc_sha256\<close> in \<open>MobileSession\<close>).

  \<^bold>\<open>Bounds and fuel.\<close> Loops whose end depends on data are \<open>function\<close>s with a measure. A script (of
  faults, transfers, polls or events) is a list and ends with the list; properties hold for every
  list. The exploration of the package's states is a \<open>partial_function (option)\<close>, shown to return.
  The JSON tokenizer's fuel is the length of its text, of which every turn takes a character at least.
  Where the code limits a loop the model has the same limit: four attempts of the shared memory's
  reader, sixteen packets of the jitter buffer, seventeen pointers of a DNS name, sixteen messages per
  turn of a session. Sequence numbers wrap at their width; the properties that need them distinct say
  so (fewer than \<open>2 ^ 31\<close> frames).

  \<^bold>\<open>Not modelled.\<close> Drawing, windows, fonts, menus and the audio device (all SDL calls with no state of
  their own to verify); the platform back ends of the H.264 encoder and decoder, the emulation cores
  and libmobile (third-party interfaces); process creation, sockets, TLS and HTTP transport (the
  system's and the libraries' behaviour, not the program's); the client's pages and their
  transitions, diagnostics and logs; the wait for a first upload in \<open>stream_server.c\<close>; loading the
  route table from its JSON files, and the older outbox records. The components of the manifest name
  each of these with the files concerned. Memory ordering weaker than program order is not modelled in
  \<open>MediaIpc\<close>, and power loss is not modelled in \<open>FileStore\<close>.
\<close>

end
